(* ===== verification/LJ_Prelude.thy ===== *)
theory LJ_Prelude
  imports Main "HOL-Library.Word" "HOL-Library.Code_Target_Nat"
begin

unbundle bit_operations_syntax

text \<open>
  Shared vocabulary of the development: names for the machine integers of the
  Rust source, bytes and byte strings, the few operations of the Rust standard
  library that several components use (checked indexing, \<open>leading_zeros\<close>),
  and generic lemmas on lists, options and words.

  Sizes and indices (\<open>usize\<close>, and \<open>u32\<close> where the source only uses it as a
  bounded size or index) are \<open>nat\<close>; every quantity whose bits or wrap-around
  matter is a word of its width.
\<close>

section \<open>Machine integers and bytes\<close>

type_synonym u8 = "8 word"
type_synonym u16 = "16 word"
type_synonym u32 = "32 word"
type_synonym u64 = "64 word"

type_synonym bytes = "u8 list"

named_theorems lj_defs \<open>definitions of the model that proofs unfold together\<close>
named_theorems word_simps \<open>bit-level facts shared by the encoders\<close>

text \<open>A byte literal \<open>b'c'\<close> of the source.\<close>

definition byte :: "char \<Rightarrow> u8" where
  "byte c = word_of_nat (of_char c)"

definition byte_string :: "string \<Rightarrow> bytes" where
  "byte_string s = map byte s"

text \<open>Checked slice indexing: a panic of the source is \<open>None\<close>.\<close>

definition idx :: "'a list \<Rightarrow> nat \<Rightarrow> 'a option" where
  "idx xs i = (if i < length xs then Some (xs ! i) else None)"

lemma idx_Some [simp]: "i < length xs \<Longrightarrow> idx xs i = Some (xs ! i)"
  by (simp add: idx_def)

lemma idx_eq_Some_iff: "idx xs i = Some x \<longleftrightarrow> i < length xs \<and> xs ! i = x"
  by (auto simp: idx_def)

lemma idx_eq_None_iff: "idx xs i = None \<longleftrightarrow> length xs \<le> i"
  by (auto simp: idx_def)

text \<open>
  Rust's \<open>leading_zeros\<close> on \<open>u32\<close>, from the bits of the word, and
  \<open>31 - x.leading_zeros()\<close> (the position of the highest set bit), which the table
  code names \<open>fls\<close>.
\<close>

definition leading_zeros32 :: "u32 \<Rightarrow> nat" where
  "leading_zeros32 x = length (takeWhile Not (rev (map (bit x) [0..<32])))"

section \<open>Failures\<close>

text \<open>
  What a call of the source can do other than return: an out-of-range slice access, a
  failed \<open>assert!\<close> (with its message) or an arithmetic underflow panics. \<open>Diverges\<close> is the
  value of a fuelled loop whose fuel ran out; the properties prove that it does not occur.
\<close>

datatype panic = IndexPanic | AssertPanic string | ArithPanic | Diverges

definition idx_panic :: "'a list \<Rightarrow> nat \<Rightarrow> panic + 'a" where
  "idx_panic xs i = (if i < length xs then Inr (xs ! i) else Inl IndexPanic)"

lemma idx_panic_ok [simp]: "i < length xs \<Longrightarrow> idx_panic xs i = Inr (xs ! i)"
  by (simp add: idx_panic_def)

text \<open>Sequencing of fallible steps (the \<open>?\<close> operator and panics).\<close>

definition rbind :: "'e + 'a \<Rightarrow> ('a \<Rightarrow> 'e + 'b) \<Rightarrow> 'e + 'b" where
  "rbind r f = (case r of Inl e \<Rightarrow> Inl e | Inr x \<Rightarrow> f x)"

lemma rbind_simps [simp]: "rbind (Inl e) f = Inl e" "rbind (Inr x) f = f x"
  by (simp_all add: rbind_def)

lemma rbind_eq_Inr: "rbind r f = Inr y \<longleftrightarrow> (\<exists>x. r = Inr x \<and> f x = Inr y)"
  by (cases r) auto

lemma rbind_cong [fundef_cong]:
  "r = r' \<Longrightarrow> (\<And>x. r' = Inr x \<Longrightarrow> f x = g x) \<Longrightarrow> rbind r f = rbind r' g"
  by (cases r') auto

section \<open>Integer logarithm\<close>

fun floor_log2 :: "nat \<Rightarrow> nat" where
  "floor_log2 n = (if n < 2 then 0 else Suc (floor_log2 (n div 2)))"

declare floor_log2.simps [simp del]

lemma floor_log2_bounds: "0 < n \<Longrightarrow> 2 ^ floor_log2 n \<le> n \<and> n < 2 ^ Suc (floor_log2 n)"
proof (induction n rule: floor_log2.induct)
  case (1 n)
  show ?case
  proof (cases "n < 2")
    case True
    with 1 show ?thesis by (simp add: floor_log2.simps)
  next
    case False
    with 1 show ?thesis by (auto simp: floor_log2.simps[of n])
  qed
qed

section \<open>Words\<close>

lemma unat_NOT: "unat (NOT (x::'a::len word)) = 2 ^ LENGTH('a) - 1 - unat x"
proof -
  have "NOT x = -1 - x" by (simp add: not_eq_complement)
  moreover have "unat (-1 - x) = unat (-1 :: 'a word) - unat x" by (rule unat_sub) simp
  ultimately show ?thesis by (simp add: unsigned_minus_1_eq_mask mask_eq_exp_minus_1)
qed

lemma take_bit_word_self: "unat (w::'a::len word) < 2 ^ n \<Longrightarrow> take_bit n w = w"
  by (metis take_bit_nat_eq_self_iff unsigned_take_bit_eq unsigned_word_eqI)

lemma bit_less_exp: "unat (w::'a::len word) < 2 ^ k \<Longrightarrow> bit w n \<Longrightarrow> n < k"
  by (metis bit_take_bit_iff take_bit_word_self)

lemma unat_take_bit: "unat (take_bit k (w::'a::len word)) = unat w mod 2 ^ k"
  by (simp only: unsigned_take_bit_eq) (simp add: take_bit_eq_mod)

lemma unat_drop_bit: "unat (drop_bit k (w::'a::len word)) = unat w div 2 ^ k"
  by (simp only: unsigned_drop_bit_eq) (simp add: drop_bit_eq_div take_bit_nat_eq_self)

lemma unat_word_of_nat_less:
  assumes "k \<le> LENGTH('a)" "m < 2 ^ k"
  shows "unat (word_of_nat m :: 'a::len word) = m"
proof -
  have "m < 2 ^ LENGTH('a)" using assms by (meson less_le_trans one_le_numeral power_increasing)
  then show ?thesis by (simp add: unat_of_nat)
qed

lemma upt_split_at: "p < n \<Longrightarrow> [0..<n] = [0..<p] @ p # [Suc p..<n]"
  using upt_add_eq_append[of 0 p "n - p"] upt_conv_Cons[of p n] by simp

lemma upt_shift: "[a + k..<b + k] = map (\<lambda>i. i + k) [a..<b]"
proof (induction k)
  case (Suc k)
  have "[a + Suc k..<b + Suc k] = map Suc [a + k..<b + k]" by (simp add: map_Suc_upt)
  then show ?case using Suc by (simp add: comp_def)
qed simp

lemma distinct_map_filterI:
  "(\<And>i j. i < length xs \<Longrightarrow> j < length xs \<Longrightarrow> i \<noteq> j \<Longrightarrow> P (xs ! i) \<Longrightarrow> P (xs ! j) \<Longrightarrow>
     f (xs ! i) \<noteq> f (xs ! j)) \<Longrightarrow> distinct (map f (filter P xs))"
proof (induction xs)
  case (Cons x xs)
  have "distinct (map f (filter P xs))"
    by (rule Cons.IH) (use Cons.prems [of "Suc _" "Suc _"] in simp)
  moreover have "f x \<noteq> f y" if "P x" "y \<in> set xs" "P y" for y
  proof -
    obtain j where "j < length xs" "y = xs ! j" using \<open>y \<in> set xs\<close> by (auto simp: in_set_conv_nth)
    then show ?thesis using Cons.prems [of 0 "Suc j"] that by simp
  qed
  ultimately show ?case by auto
qed simp

end
