(* ===== verification/LJ_Value.thy ===== *)
theory LJ_Value
  imports LJ_Prelude
begin

unbundle bit_operations_syntax

text \<open>
  The NaN-boxed value representation, \<open>runtime/value.rs\<close>. A \<open>LuaValue\<close> is its 64
  bits, and so is an \<open>f64\<close> (\<open>to_bits\<close>/\<open>from_bits\<close> are bijections): a double is
  modelled by its IEEE-754 bit pattern, with the operations the source applies to it
  (NaN test, \<open>==\<close>, the saturating cast \<open>as i32\<close>, the exact cast from an integer)
  computed from sign, exponent and fraction.
  A GC pointer is its address; dereferencing a string (\<open>hash_key\<close>) reads the
  heap, which is an argument of the definition.
\<close>

section \<open>IEEE-754 doubles as bit patterns\<close>

type_synonym f64 = u64

definition f64_sign :: "f64 \<Rightarrow> bool" where
  "f64_sign b = bit b 63"

definition f64_exp :: "f64 \<Rightarrow> nat" where
  "f64_exp b = unat (take_bit 11 (drop_bit 52 b))"

definition f64_frac :: "f64 \<Rightarrow> nat" where
  "f64_frac b = unat (take_bit 52 b)"

definition f64_is_nan :: "f64 \<Rightarrow> bool" where
  "f64_is_nan b \<longleftrightarrow> f64_exp b = 2047 \<and> f64_frac b \<noteq> 0"

definition f64_is_inf :: "f64 \<Rightarrow> bool" where
  "f64_is_inf b \<longleftrightarrow> f64_exp b = 2047 \<and> f64_frac b = 0"

definition f64_is_zero :: "f64 \<Rightarrow> bool" where
  "f64_is_zero b \<longleftrightarrow> f64_exp b = 0 \<and> f64_frac b = 0"

definition F64_NAN :: f64 where
  "F64_NAN = 0x7ff8000000000000"

text \<open>IEEE equality: a NaN equals nothing, the two zeros are equal, and otherwise
  equal numbers have equal bits (the encoding of a finite number is unique).\<close>

definition f64_eq :: "f64 \<Rightarrow> f64 \<Rightarrow> bool" where
  "f64_eq a b \<longleftrightarrow> \<not> f64_is_nan a \<and> \<not> f64_is_nan b \<and>
     (a = b \<or> f64_is_zero a \<and> f64_is_zero b)"

text \<open>A finite double is \<open>\<plusminus> mant * 2 ^ (exp - 1075)\<close>; truncation towards zero.\<close>

definition f64_mant :: "f64 \<Rightarrow> nat" where
  "f64_mant b = (if f64_exp b = 0 then f64_frac b else f64_frac b + 2 ^ 52)"

definition f64_trunc :: "f64 \<Rightarrow> int" where
  "f64_trunc b =
     (let e = max 1 (f64_exp b);
          m = (if 1075 \<le> e then f64_mant b * 2 ^ (e - 1075) else f64_mant b div 2 ^ (1075 - e))
      in if f64_sign b then - int m else int m)"

text \<open>Rust's \<open>n as i32\<close>: NaN gives 0, everything else saturates.\<close>

definition f64_as_i32 :: "f64 \<Rightarrow> int" where
  "f64_as_i32 b =
     (if f64_is_nan b then 0
      else if f64_is_inf b then (if f64_sign b then - (2 ^ 31) else 2 ^ 31 - 1)
      else max (- (2 ^ 31)) (min (2 ^ 31 - 1) (f64_trunc b)))"

text \<open>Rust's \<open>k as f64\<close> for an integer of at most 53 bits, which is exact. The
  position of the highest set bit (\<open>floor_log2\<close>) gives the exponent.\<close>

definition nat_to_f64 :: "nat \<Rightarrow> f64" where
  "nat_to_f64 n =
     (if n = 0 then 0
      else let p = floor_log2 n
           in word_of_nat ((p + 1023) * 2 ^ 52 + (n * 2 ^ (52 - p) - 2 ^ 52)))"

definition int_to_f64 :: "int \<Rightarrow> f64" where
  "int_to_f64 k = (if k < 0 then set_bit 63 (nat_to_f64 (nat (- k))) else nat_to_f64 (nat k))"

section \<open>Values\<close>

type_synonym lua_value = u64
type_synonym gc_ref = u64

definition LJ_TNIL :: u32 where "LJ_TNIL = NOT 0"
definition LJ_TFALSE :: u32 where "LJ_TFALSE = NOT 1"
definition LJ_TTRUE :: u32 where "LJ_TTRUE = NOT 2"
definition LJ_TLIGHTUD :: u32 where "LJ_TLIGHTUD = NOT 3"
definition LJ_TSTR :: u32 where "LJ_TSTR = NOT 4"
definition LJ_TUPVAL :: u32 where "LJ_TUPVAL = NOT 5"
definition LJ_TTHREAD :: u32 where "LJ_TTHREAD = NOT 6"
definition LJ_TPROTO :: u32 where "LJ_TPROTO = NOT 7"
definition LJ_TFUNC :: u32 where "LJ_TFUNC = NOT 8"
definition LJ_TTRACE :: u32 where "LJ_TTRACE = NOT 9"
definition LJ_TCDATA :: u32 where "LJ_TCDATA = NOT 10"
definition LJ_TTAB :: u32 where "LJ_TTAB = NOT 11"
definition LJ_TUDATA :: u32 where "LJ_TUDATA = NOT 12"
definition LJ_TNUMX :: u32 where "LJ_TNUMX = NOT 13"
definition LJ_TISNUM :: u32 where "LJ_TISNUM = LJ_TNUMX"
definition LJ_TISGCV :: u32 where "LJ_TISGCV = LJ_TUDATA"
definition LJ_TISTRUECOND :: u32 where "LJ_TISTRUECOND = LJ_TFALSE"
definition LJ_GCVMASK :: u64 where "LJ_GCVMASK = push_bit 47 1 - 1"

lemmas itype_defs [lj_defs] =
  LJ_TNIL_def LJ_TFALSE_def LJ_TTRUE_def LJ_TLIGHTUD_def LJ_TSTR_def LJ_TUPVAL_def
  LJ_TTHREAD_def LJ_TPROTO_def LJ_TFUNC_def LJ_TTRACE_def LJ_TCDATA_def LJ_TTAB_def
  LJ_TUDATA_def LJ_TNUMX_def LJ_TISNUM_def LJ_TISGCV_def LJ_TISTRUECOND_def

definition pri :: "u32 \<Rightarrow> lua_value" where
  "pri itype = NOT (push_bit 47 (ucast (NOT itype)))"

definition gcv :: "u32 \<Rightarrow> u64 \<Rightarrow> lua_value" where
  "gcv itype payload = payload OR push_bit 47 (ucast itype)"

definition hashrot :: "u32 \<Rightarrow> u32 \<Rightarrow> u32" where
  "hashrot lo0 hi0 =
     (let lo1 = lo0 XOR hi0;
          hi1 = word_rotl 14 hi0;
          lo2 = lo1 - hi1;
          hi2 = word_rotl 5 hi1;
          hi3 = hi2 XOR lo2
      in hi3 - word_rotl 13 lo2)"

definition NIL :: lua_value where "NIL = pri LJ_TNIL"
definition FALSE :: lua_value where "FALSE = pri LJ_TFALSE"
definition TRUE :: lua_value where "TRUE = pri LJ_TTRUE"

definition boolean :: "bool \<Rightarrow> lua_value" where
  "boolean b = (if b then TRUE else FALSE)"

definition number :: "f64 \<Rightarrow> lua_value" where
  "number n = (if f64_is_nan n then F64_NAN else if f64_eq n 0 then 0 else n)"

definition number_raw :: "f64 \<Rightarrow> lua_value" where
  "number_raw n = n"

definition gcval :: "u32 \<Rightarrow> gc_ref \<Rightarrow> lua_value" where
  "gcval itype addr = gcv itype addr"

definition lua_string_value :: "gc_ref \<Rightarrow> lua_value" where
  "lua_string_value a = gcv LJ_TSTR a"

definition lua_table_value :: "gc_ref \<Rightarrow> lua_value" where
  "lua_table_value a = gcval LJ_TTAB a"

definition lua_func_value :: "gc_ref \<Rightarrow> lua_value" where
  "lua_func_value a = gcval LJ_TFUNC a"

definition lua_thread_value :: "gc_ref \<Rightarrow> lua_value" where
  "lua_thread_value a = gcv LJ_TTHREAD a"

definition lua_cdata_value :: "gc_ref \<Rightarrow> lua_value" where
  "lua_cdata_value a = gcval LJ_TCDATA a"

definition lua_userdata_value :: "gc_ref \<Rightarrow> lua_value" where
  "lua_userdata_value a = gcval LJ_TUDATA a"

definition table_marker :: lua_value where
  "table_marker = gcv LJ_TTAB 0"

definition itype :: "lua_value \<Rightarrow> u32" where
  "itype v = ucast (signed_drop_bit 47 v)"

definition is_nil :: "lua_value \<Rightarrow> bool" where "is_nil v \<longleftrightarrow> itype v = LJ_TNIL"
definition is_false :: "lua_value \<Rightarrow> bool" where "is_false v \<longleftrightarrow> itype v = LJ_TFALSE"
definition is_true :: "lua_value \<Rightarrow> bool" where "is_true v \<longleftrightarrow> itype v = LJ_TTRUE"
definition is_bool :: "lua_value \<Rightarrow> bool" where "is_bool v \<longleftrightarrow> is_false v \<or> is_true v"
definition is_number :: "lua_value \<Rightarrow> bool" where "is_number v \<longleftrightarrow> itype v \<le> LJ_TISNUM"
definition is_string :: "lua_value \<Rightarrow> bool" where "is_string v \<longleftrightarrow> itype v = LJ_TSTR"
definition is_table :: "lua_value \<Rightarrow> bool" where "is_table v \<longleftrightarrow> itype v = LJ_TTAB"
definition is_func :: "lua_value \<Rightarrow> bool" where "is_func v \<longleftrightarrow> itype v = LJ_TFUNC"
definition is_thread :: "lua_value \<Rightarrow> bool" where "is_thread v \<longleftrightarrow> itype v = LJ_TTHREAD"
definition is_cdata :: "lua_value \<Rightarrow> bool" where "is_cdata v \<longleftrightarrow> itype v = LJ_TCDATA"
definition is_userdata :: "lua_value \<Rightarrow> bool" where "is_userdata v \<longleftrightarrow> itype v = LJ_TUDATA"

definition is_gcv :: "lua_value \<Rightarrow> bool" where
  "is_gcv v \<longleftrightarrow> LJ_TISGCV \<le> itype v \<and> itype v \<le> LJ_TSTR"

definition is_truthy :: "lua_value \<Rightarrow> bool" where
  "is_truthy v \<longleftrightarrow> itype v < LJ_TISTRUECOND"

definition as_number :: "lua_value \<Rightarrow> f64 option" where
  "as_number v = (if is_number v then Some v else None)"

definition gc_addr :: "lua_value \<Rightarrow> gc_ref" where
  "gc_addr v = v AND LJ_GCVMASK"

text \<open>\<open>GcPtr::from_addr\<close> (\<open>runtime/gc.rs\<close>): the null page is refused.\<close>

definition gcptr_from_addr :: "u64 \<Rightarrow> gc_ref option" where
  "gcptr_from_addr addr =
     (if addr \<noteq> 0 \<and> addr < 0x100 then None else if addr = 0 then None else Some addr)"

definition as_string :: "lua_value \<Rightarrow> gc_ref option" where
  "as_string v = (if is_string v then gcptr_from_addr (gc_addr v) else None)"

definition as_table :: "lua_value \<Rightarrow> gc_ref option" where
  "as_table v = (if is_table v then gcptr_from_addr (gc_addr v) else None)"

definition as_func :: "lua_value \<Rightarrow> gc_ref option" where
  "as_func v = (if is_func v then gcptr_from_addr (gc_addr v) else None)"

definition as_thread :: "lua_value \<Rightarrow> gc_ref option" where
  "as_thread v = (if is_thread v then gcptr_from_addr (gc_addr v) else None)"

definition as_cdata :: "lua_value \<Rightarrow> gc_ref option" where
  "as_cdata v = (if is_cdata v then gcptr_from_addr (gc_addr v) else None)"

definition as_userdata :: "lua_value \<Rightarrow> gc_ref option" where
  "as_userdata v = (if is_userdata v then gcptr_from_addr (gc_addr v) else None)"

definition as_int32_exact :: "lua_value \<Rightarrow> int option" where
  "as_int32_exact v =
     (case as_number v of
        None \<Rightarrow> None
      | Some n \<Rightarrow> (let k = f64_as_i32 n in if f64_eq (int_to_f64 k) n then Some k else None))"

text \<open>
  \<open>hash_key\<close>. \<open>sid_at\<close> is the heap read \<open>as_string().unwrap().as_ref().sid()\<close>: the
  interned id of the string object a string value points to.
\<close>

definition hash_key :: "(lua_value \<Rightarrow> u32) \<Rightarrow> lua_value \<Rightarrow> u32" where
  "hash_key sid_at v =
     (if is_string v then sid_at v
      else if is_number v then hashrot (ucast v) (push_bit 1 (ucast (drop_bit 32 v)))
      else if is_bool v then LJ_TFALSE - itype v
      else let payload = v AND LJ_GCVMASK
           in hashrot (ucast payload) (ucast (drop_bit 32 payload)))"

section \<open>Lemmas on the encoding\<close>

lemma gcvmask_bits: "bit LJ_GCVMASK n \<longleftrightarrow> n < 47"
proof -
  have "LJ_GCVMASK = mask 47" by (simp add: LJ_GCVMASK_def mask_eq_exp_minus_1)
  then have "bit LJ_GCVMASK n = bit (mask 47 :: u64) n" by (rule arg_cong)
  also have "\<dots> \<longleftrightarrow> n < 47" by (subst bit_mask_iff) auto
  finally show ?thesis .
qed

lemma tag_high_bits:
  assumes "LJ_TNUMX \<le> t" "4 \<le> n" "n < 32"
  shows "bit t n"
proof -
  have "unat (NOT t) < 2 ^ 4"
    using assms(1) by (simp add: itype_defs word_le_nat_alt unat_NOT)
  with bit_less_exp [of "NOT t" 4 n] assms(2,3) show ?thesis by (auto simp: bit_not_iff)
qed

lemma addr_bits: "a \<le> LJ_GCVMASK \<Longrightarrow> bit a n \<Longrightarrow> n < 47"
  by (rule bit_less_exp) (simp_all add: LJ_GCVMASK_def word_le_nat_alt)

lemma bit_itype: "bit (itype v) n \<longleftrightarrow> n < 32 \<and> bit v (min 63 (n + 47))"
proof -
  have *: "bit (itype v) n \<longleftrightarrow> n < 32 \<and> bit v (if 17 \<le> n \<and> n < 64 then 63 else 47 + n)"
    by (simp add: itype_def bit_ucast_iff bit_signed_drop_bit_iff)
  consider "n < 16" | "n = 16" | "16 < n" by linarith
  then show ?thesis
  proof cases
    case 1
    then show ?thesis unfolding * by (simp add: min_def add.commute)
  next
    case 2
    then show ?thesis unfolding * by simp
  next
    case 3
    then have "min 63 (n + 47) = 63" and "17 \<le> n" by auto
    then show ?thesis unfolding * by auto
  qed
qed

lemma itype_gcv: 
  assumes "LJ_TNUMX \<le> t" "a \<le> LJ_GCVMASK"
  shows "itype (gcv t a) = t"
proof (rule bit_word_eqI)
  fix n assume "n < LENGTH(32)"
  then have n: "n < 32" by simp
  have "\<not> bit a (min 63 (n + 47))" using addr_bits[OF assms(2)] n by fastforce
  then have "bit (itype (gcv t a)) n = bit t (min 16 n)"
    using n by (auto simp: bit_itype gcv_def bit_or_iff bit_push_bit_iff bit_ucast_iff min_def)
  also have "\<dots> = bit t n" using tag_high_bits[OF assms(1)] n by (auto simp: min_def)
  finally show "bit (itype (gcv t a)) n = bit t n" .
qed

lemma gc_addr_gcv: "a \<le> LJ_GCVMASK \<Longrightarrow> gc_addr (gcv t a) = a"
  by (rule bit_word_eqI) 
    (auto simp: gc_addr_def gcv_def gcvmask_bits bit_or_iff bit_and_iff bit_push_bit_iff dest: addr_bits)

lemma pri_eq_gcv: "pri t = gcv t LJ_GCVMASK"
  by (rule bit_word_eqI) (auto simp: pri_def gcv_def gcvmask_bits bit_or_iff bit_not_iff bit_push_bit_iff bit_ucast_iff)

lemma itype_pri: "LJ_TNUMX \<le> t \<Longrightarrow> itype (pri t) = t"
  by (simp add: pri_eq_gcv itype_gcv)

lemma gcv_inverse: "gcv (itype v) (gc_addr v) = v"
proof (rule bit_word_eqI)
  fix n assume "n < LENGTH(64)"
  then consider "n < 47" | "47 \<le> n" "n < 63" | "n = 63" by fastforce
  then show "bit (gcv (itype v) (gc_addr v)) n = bit v n"
    by cases (auto simp: gcv_def gc_addr_def bit_or_iff bit_and_iff gcvmask_bits bit_push_bit_iff
        bit_ucast_iff bit_itype min_def)
qed

lemma tagged_is_nan: 
  assumes "LJ_TNUMX \<le> itype v"
  shows "f64_is_nan v"
proof -
  have hi: "bit v n" if "51 \<le> n" "n < 64" for n
    using tag_high_bits[OF assms, of "n - 47"] that by (cases "n = 63") (auto simp: bit_itype min_def)
  have "take_bit 11 (drop_bit 52 v) = mask 11"
    using hi by (intro bit_word_eqI) (auto simp: bit_take_bit_iff bit_drop_bit_eq bit_mask_iff)
  moreover have "take_bit 52 v \<noteq> 0"
  proof
    assume "take_bit 52 v = 0"
    then have "\<not> bit (take_bit 52 v) 51" by simp
    with hi[of 51] show False by (simp add: bit_take_bit_iff)
  qed
  ultimately show ?thesis
    by (simp add: f64_is_nan_def f64_exp_def f64_frac_def mask_eq_exp_minus_1 unat_eq_zero)
qed

lemma is_number_number: "is_number (number n)"
proof -
  have "\<not> LJ_TNUMX \<le> itype n" if "\<not> f64_is_nan n" using tagged_is_nan that by blast
  moreover have "is_number F64_NAN" "is_number 0"
    by (simp_all add: is_number_def F64_NAN_def itype_def itype_defs)
  ultimately show ?thesis
    by (auto simp: number_def is_number_def LJ_TISNUM_def)
qed

lemma nat_to_f64_fields:
  assumes "0 < n" "n < 2 ^ 53"
  defines "p \<equiv> floor_log2 n"
  shows "f64_exp (nat_to_f64 n) = p + 1023" "f64_frac (nat_to_f64 n) + 2 ^ 52 = n * 2 ^ (52 - p)" 
    "\<not> bit (nat_to_f64 n) 63" "p \<le> 52"
proof -
  have b: "2 ^ p \<le> n" "n < 2 ^ Suc p" using floor_log2_bounds[OF assms(1)] by (auto simp: p_def)
  have "2 ^ p < (2::nat) ^ 53" using b(1) assms(2) by linarith
  then have "p < 53" using power_less_imp_less_exp [of "2::nat" p 53] by linarith
  then show p: "p \<le> 52" by simp
  have "2 ^ p * 2 ^ (52 - p) \<le> n * 2 ^ (52 - p)" using b(1) by simp
  then have lo: "2 ^ 52 \<le> n * 2 ^ (52 - p)" using p by (simp flip: power_add)
  have "n * 2 ^ (52 - p) < 2 ^ Suc p * 2 ^ (52 - p)" using b(2) by (intro mult_strict_right_mono) auto
  then have hi: "n * 2 ^ (52 - p) < 2 ^ 53" unfolding power_add [symmetric] using p by simp
  define f where "f = n * 2 ^ (52 - p) - 2 ^ 52"
  have f: "f < 2 ^ 52" using lo hi by (simp add: f_def)
  have N: "nat_to_f64 n = word_of_nat ((p + 1023) * 2 ^ 52 + f)"
    using assms(1) by (simp add: nat_to_f64_def Let_def f_def p_def)
  have "(p + 1023) * 2 ^ 52 + f < (1075 + 1) * 2 ^ 52" using p f by simp
  then have lt: "(p + 1023) * 2 ^ 52 + f < 2 ^ 63" by simp
  then have U: "unat (nat_to_f64 n) = (p + 1023) * 2 ^ 52 + f"
    unfolding N by (rule unat_word_of_nat_less [rotated]) simp
  show "f64_exp (nat_to_f64 n) = p + 1023"
    using f p by (simp add: f64_exp_def unat_take_bit unat_drop_bit U)
  show "f64_frac (nat_to_f64 n) + 2 ^ 52 = n * 2 ^ (52 - p)"
  proof -
    have "((p + 1023) * 2 ^ 52 + f) mod 2 ^ 52 = f"
      by (simp only: mod_mult_self3 mod_less [OF f])
    then show ?thesis using lo by (simp only: f64_frac_def unat_take_bit U) (simp add: f_def)
  qed
  show "\<not> bit (nat_to_f64 n) 63"
    using bit_less_exp[of "nat_to_f64 n" 63 63] lt U by auto
qed

lemma f64_set_sign [simp]: "f64_exp (set_bit 63 w) = f64_exp w" "f64_frac (set_bit 63 w) = f64_frac w"
  by (auto simp: f64_exp_def f64_frac_def intro!: arg_cong [where f = unat] bit_word_eqI
      simp: bit_take_bit_iff bit_drop_bit_eq bit_set_bit_iff)

lemma int_to_f64_zero [simp]: "int_to_f64 0 = 0" by (simp add: int_to_f64_def nat_to_f64_def)

lemma int_to_f64_finite:
  assumes "\<bar>k\<bar> < 2 ^ 53"
  shows "\<not> f64_is_nan (int_to_f64 k)" "\<not> f64_is_inf (int_to_f64 k)" "f64_is_zero (int_to_f64 k) \<longleftrightarrow> k = 0"
    "f64_trunc (int_to_f64 k) = k"
proof -
  let ?n = "nat \<bar>k\<bar>"
  have e: "f64_exp (int_to_f64 k) = f64_exp (nat_to_f64 ?n)" "f64_frac (int_to_f64 k) = f64_frac (nat_to_f64 ?n)"
    by (auto simp: int_to_f64_def)
  have *: "?n < 2 ^ 53" using assms by (simp add: nat_less_iff)
  consider "k = 0" | "0 < ?n" by linarith
  then have "\<not> f64_is_nan (int_to_f64 k) \<and> \<not> f64_is_inf (int_to_f64 k) \<and> (f64_is_zero (int_to_f64 k) \<longleftrightarrow> k = 0) \<and>
      f64_trunc (int_to_f64 k) = k"
  proof cases
    case 1
    then show ?thesis
      by (simp add: f64_is_nan_def f64_is_inf_def f64_is_zero_def f64_exp_def f64_frac_def f64_trunc_def f64_mant_def f64_sign_def)
  next
    case 2
    note f = nat_to_f64_fields[OF 2 *]
    have s: "f64_sign (int_to_f64 k) \<longleftrightarrow> k < 0"
      using f(3) 2 by (auto simp: f64_sign_def int_to_f64_def bit_set_bit_iff)
    have "f64_trunc (int_to_f64 k) = k"
    proof (cases "floor_log2 ?n = 52")
      case True
      then show ?thesis using f s 2 by (auto simp: f64_trunc_def f64_mant_def e)
    next
      case False
      then have "floor_log2 ?n < 52" using f(4) by simp
      then show ?thesis using f s 2 by (auto simp: f64_trunc_def f64_mant_def e Let_def)
    qed
    moreover have "k \<noteq> 0" using 2 by auto
    ultimately show ?thesis using f(1,4) by (auto simp: f64_is_nan_def f64_is_inf_def f64_is_zero_def e)
  qed
  then show "\<not> f64_is_nan (int_to_f64 k)" "\<not> f64_is_inf (int_to_f64 k)" "f64_is_zero (int_to_f64 k) \<longleftrightarrow> k = 0"
    "f64_trunc (int_to_f64 k) = k" by auto
qed

lemma f64_as_i32_int_to_f64: "- (2 ^ 31) \<le> k \<Longrightarrow> k < 2 ^ 31 \<Longrightarrow> f64_as_i32 (int_to_f64 k) = k"
  by (simp add: f64_as_i32_def int_to_f64_finite)

lemma f64_as_i32_range: "- (2 ^ 31) \<le> f64_as_i32 b" "f64_as_i32 b < 2 ^ 31"
  by (auto simp: f64_as_i32_def)

lemma f64_as_i32_zero: "f64_is_zero z \<Longrightarrow> f64_as_i32 z = 0"
  by (simp add: f64_as_i32_def f64_is_nan_def f64_is_inf_def f64_is_zero_def f64_trunc_def f64_mant_def)

lemma f64_eq_zero [simp]: "f64_eq n 0 \<longleftrightarrow> f64_is_zero n"
  by (auto simp: f64_eq_def f64_is_nan_def f64_is_zero_def f64_exp_def f64_frac_def)

lemma f64_zero_not_nan [simp]: "f64_is_zero n \<Longrightarrow> \<not> f64_is_nan n"
  by (simp add: f64_is_zero_def f64_is_nan_def)

lemma f64_as_i32_cong: "f64_eq a b \<Longrightarrow> f64_as_i32 a = f64_as_i32 b"
  by (auto simp: f64_eq_def f64_as_i32_zero)

lemma number_simps:
  "f64_is_nan n \<Longrightarrow> number n = F64_NAN"
  "f64_is_zero n \<Longrightarrow> number n = 0"
  "\<not> f64_is_nan n \<Longrightarrow> \<not> f64_is_zero n \<Longrightarrow> number n = n"
  by (simp_all add: number_def)

lemma F64_NAN_is_nan [simp]: "f64_is_nan F64_NAN"
  by (simp add: F64_NAN_def f64_is_nan_def f64_exp_def f64_frac_def)

lemma zero_is_zero [simp]: "f64_is_zero 0"
  by (simp add: f64_is_zero_def f64_exp_def f64_frac_def)

lemma F64_NAN_nonzero [simp]: "F64_NAN \<noteq> 0" "0 \<noteq> F64_NAN"
  by (simp_all add: F64_NAN_def)

lemma f64_eq_number: "\<not> f64_is_nan n \<Longrightarrow> f64_eq a (number n) \<longleftrightarrow> f64_eq a n"
  by (auto simp: number_def f64_eq_def)

lemma number_idem: "number (number n) = number n"
  by (auto simp: number_def)

lemma as_int32_exact_eq:
  "as_int32_exact v = Some k \<longleftrightarrow> is_number v \<and> - (2 ^ 31) \<le> k \<and> k < 2 ^ 31 \<and> f64_eq (int_to_f64 k) v"
proof -
  have "f64_as_i32 v = k" if "- (2 ^ 31) \<le> k" "k < 2 ^ 31" "f64_eq (int_to_f64 k) v"
    using f64_as_i32_cong[OF that(3)] f64_as_i32_int_to_f64[OF that(1,2)] by simp
  then show ?thesis
    using f64_as_i32_range [of v] by (auto simp: as_int32_exact_def as_number_def Let_def split: if_splits)
qed

lemma as_int32_exact_number_int:
  assumes "- (2 ^ 31) \<le> k" "k < 2 ^ 31"
  shows "as_int32_exact (number (int_to_f64 k)) = Some k"
proof -
  have "\<not> f64_is_nan (int_to_f64 k)" using assms by (simp add: int_to_f64_finite)
  then show ?thesis
    using assms by (simp add: as_int32_exact_eq is_number_number f64_eq_number) (simp add: f64_eq_def)
qed

lemma as_int32_exact_inj:
  assumes "as_int32_exact v = Some k" "number v = v"
  shows "v = number (int_to_f64 k)"
  using assms by (auto simp: as_int32_exact_eq f64_eq_def number_def split: if_splits)

lemma number_eq_iff: "number a = number b \<longleftrightarrow> f64_eq a b \<or> f64_is_nan a \<and> f64_is_nan b"
  using F64_NAN_is_nan by (auto simp: number_def f64_eq_def split: if_splits)


lemma gcptr_from_addr_ok: "0x100 \<le> a \<Longrightarrow> gcptr_from_addr a = Some a"
  by (auto simp: gcptr_from_addr_def word_le_nat_alt word_less_nat_alt)

lemma tags_high:
  "LJ_TNUMX \<le> LJ_TNIL" "LJ_TNUMX \<le> LJ_TFALSE" "LJ_TNUMX \<le> LJ_TTRUE" "LJ_TNUMX \<le> LJ_TSTR"
  "LJ_TNUMX \<le> LJ_TTAB" "LJ_TNUMX \<le> LJ_TFUNC" "LJ_TNUMX \<le> LJ_TTHREAD" "LJ_TNUMX \<le> LJ_TCDATA"
  "LJ_TNUMX \<le> LJ_TUDATA"
  by (simp_all add: itype_defs)

lemma itype_consts [simp]: "itype NIL = LJ_TNIL" "itype FALSE = LJ_TFALSE" "itype TRUE = LJ_TTRUE"
  by (simp_all add: NIL_def FALSE_def TRUE_def itype_pri tags_high)

lemma is_nil_NIL [simp]: "is_nil NIL"
  by (simp add: is_nil_def)

lemma is_number_not_nil [simp]: "is_number v \<Longrightarrow> \<not> is_nil v"
  by (auto simp: is_number_def is_nil_def LJ_TISNUM_def LJ_TNUMX_def LJ_TNIL_def word_le_nat_alt
      unsigned_minus_1_eq_mask mask_eq_exp_minus_1)

section \<open>Properties\<close>

text \<open>C28. NaN boxing is lossless for heap references: a pointer above the null page that
  fits the 47-bit payload, boxed with the tag of its object kind, unboxes to the same address as
  that kind and as no other, is never mistaken for a number, nil or a boolean, and is true in a condition.\<close>

theorem boxed_pointer_roundtrip:
  assumes "0x100 \<le> a" and "a \<le> LJ_GCVMASK"
    and "v \<in> {lua_string_value a, lua_table_value a, lua_func_value a, lua_thread_value a,
      lua_cdata_value a, lua_userdata_value a}"
  shows "as_string v = (if v = lua_string_value a then Some a else None) \<and>
    as_table v = (if v = lua_table_value a then Some a else None) \<and>
    as_func v = (if v = lua_func_value a then Some a else None) \<and>
    as_thread v = (if v = lua_thread_value a then Some a else None) \<and>
    as_cdata v = (if v = lua_cdata_value a then Some a else None) \<and>
    as_userdata v = (if v = lua_userdata_value a then Some a else None) \<and>
    \<not> is_number v \<and> \<not> is_nil v \<and> \<not> is_bool v \<and> is_gcv v \<and> is_truthy v"
proof -
  note tag = itype_gcv [OF _ assms(2)] and addr = gc_addr_gcv [OF assms(2)]
    and ptr = gcptr_from_addr_ok [OF assms(1)]
  note kinds = lua_string_value_def lua_table_value_def lua_func_value_def lua_thread_value_def
    lua_cdata_value_def lua_userdata_value_def gcval_def
  have t: "itype (lua_string_value a) = LJ_TSTR" "itype (lua_table_value a) = LJ_TTAB"
    "itype (lua_func_value a) = LJ_TFUNC" "itype (lua_thread_value a) = LJ_TTHREAD"
    "itype (lua_cdata_value a) = LJ_TCDATA" "itype (lua_userdata_value a) = LJ_TUDATA"
    by (simp_all add: kinds tag tags_high)
  have d: "distinct [LJ_TSTR, LJ_TTAB, LJ_TFUNC, LJ_TTHREAD, LJ_TCDATA, LJ_TUDATA]" by (simp add: itype_defs)
  have eq: "v = w \<longleftrightarrow> itype v = itype w" if "w \<in> {lua_string_value a, lua_table_value a, lua_func_value a,
      lua_thread_value a, lua_cdata_value a, lua_userdata_value a}" for w
    using that assms(3) d t by auto
  have g: "gc_addr v = a" using assms(3) by (auto simp: kinds addr)
  have c: "\<not> is_number v" "\<not> is_nil v" "\<not> is_bool v" "is_gcv v" "is_truthy v"
    using assms(3) t
    by (auto simp: is_number_def is_nil_def is_bool_def is_false_def is_true_def is_gcv_def is_truthy_def) (simp_all add: itype_defs)
  show ?thesis
    using c by (simp add: eq t as_string_def as_table_def as_func_def as_thread_def as_cdata_def as_userdata_def
        is_string_def is_table_def is_func_def is_thread_def is_cdata_def is_userdata_def g ptr)
qed

theorem boxed_pointer_roundtrip_witness:
  "as_table (lua_table_value 0x7f0000001000) = Some 0x7f0000001000 \<and> as_func (lua_table_value 0x7f0000001000) = None \<and>
   as_func (lua_func_value 0x7f0000001000) = Some 0x7f0000001000 \<and> as_table (lua_func_value 0x7f0000001000) = None"
  using boxed_pointer_roundtrip [of "0x7f0000001000" "lua_table_value 0x7f0000001000"]
    boxed_pointer_roundtrip [of "0x7f0000001000" "lua_func_value 0x7f0000001000"]
  by (simp add: LJ_GCVMASK_def lua_table_value_def lua_func_value_def gcval_def gcv_def itype_defs)

text \<open>Every 64-bit pattern decodes to exactly what was encoded: re-boxing the tag and
  payload gives the value back, and a value that is not a number is a NaN as a double, so
  tagged values never collide with an arithmetic result that is a number.\<close>

theorem value_decode_total:
  "gcv (itype v) (gc_addr v) = v \<and> (is_number v \<or> f64_is_nan v)"
  using gcv_inverse tagged_is_nan [of v] linear [of "itype v" LJ_TNUMX]
  by (auto simp: is_number_def LJ_TISNUM_def)

text \<open>C29. Boxing a double always yields a number value, whatever NaN payload or sign it
  has, and two boxed doubles are the same key exactly when they are equal as IEEE numbers
  (so \<open>-0.0\<close> and \<open>0.0\<close> are one key) or both NaN.\<close>

theorem number_canonical:
  "is_number (number a) \<and>
   (number a = number b \<longleftrightarrow> f64_eq a b \<or> f64_is_nan a \<and> f64_is_nan b)"
  using is_number_number number_eq_iff by blast

text \<open>C30. The exact conversion to \<open>i32\<close> used for array keys succeeds on a boxed double with
  result \<open>k\<close> exactly when \<open>k\<close> is in range and \<open>k\<close>, converted back, is that double.\<close>

theorem as_int32_exact_correct:
  "as_int32_exact (number n) = Some k \<longleftrightarrow>
     - (2 ^ 31) \<le> k \<and> k < 2 ^ 31 \<and> f64_eq (int_to_f64 k) n"
proof (cases "f64_is_nan n")
  case True
  then show ?thesis by (simp add: as_int32_exact_eq number_simps f64_eq_def)
next
  case False
  then show ?thesis by (simp add: as_int32_exact_eq f64_eq_number is_number_number)
qed

end
