(* ===== verification/LJ_Table.thy ===== *)
theory LJ_Table
  imports LJ_Value
begin

unbundle bit_operations_syntax

text \<open>
  The hybrid array and chained-hash table, \<open>runtime/table.rs\<close>: the definitions. The
  record keeps the fields of \<open>LuaTable\<close> that its own operations read: the array and
  node vectors, \<open>asize\<close>, \<open>hmask\<close>, \<open>freetop\<close>, \<open>nomm\<close> and \<open>metatable\<close>. The JIT mirror
  \<open>aptr\<close> is the address of the array vector and carries no information of its own. The
  pointers \<open>heap\<close> and \<open>table_extra\<close> are null, as \<open>LuaTable::new\<close> and \<open>dup\<close> leave them, so
  that \<open>barrier()\<close> returns at once and \<open>resize\<close> skips the GC-debt update; for a
  registered table those two only touch the collector's state, never the table's.

  Every operation takes \<open>sid\<close>, the read of an interned string's id that \<open>hash_key\<close>
  performs. Walks along \<open>next\<close> links are fuelled with the number of nodes plus one and
  give \<open>Diverges\<close> when it runs out; slice accesses are checked and give \<open>IndexPanic\<close>.
\<close>

definition LJ_MAX_ABITS :: nat where "LJ_MAX_ABITS = 28"
definition LJ_MAX_ASIZE :: nat where "LJ_MAX_ASIZE = 2 ^ (LJ_MAX_ABITS - 1) + 1"
definition LJ_MAX_HBITS :: nat where "LJ_MAX_HBITS = 26"
definition NIL_NODE :: nat where "NIL_NODE = 0xffffffff"

record node =
  n_val :: lua_value
  n_key :: lua_value
  n_next :: nat

definition EMPTY_NODE :: node where
  "EMPTY_NODE = \<lparr>n_val = NIL, n_key = NIL, n_next = NIL_NODE\<rparr>"

definition fls :: "nat \<Rightarrow> nat" where
  "fls x = 31 - leading_zeros32 (word_of_nat x)"

definition hsize2hbits :: "nat \<Rightarrow> nat" where
  "hsize2hbits s =
     (if s = 0 then 0 else if s = 1 then 1
      else 1 + (31 - leading_zeros32 (word_of_nat (s - 1))))"

record ltable =
  arr :: "lua_value list"
  nodes :: "node list"
  asize :: nat
  hmask :: nat
  freetop :: nat
  nomm :: u8
  metatable :: "gc_ref option"

type_synonym sids = "lua_value \<Rightarrow> u32"

section \<open>Construction and node access\<close>

definition new_hpart :: "ltable \<Rightarrow> nat \<Rightarrow> panic + ltable" where
  "new_hpart t hbits =
     (if hbits \<le> LJ_MAX_HBITS
      then let hsize = 2 ^ hbits
           in Inr (t\<lparr>nodes := replicate hsize EMPTY_NODE, hmask := hsize - 1, freetop := hsize\<rparr>)
      else Inl (AssertPanic ''table overflow''))"

definition tab_new :: "nat \<Rightarrow> nat \<Rightarrow> panic + ltable" where
  "tab_new asz hbits =
     (if asz \<le> LJ_MAX_ASIZE \<and> hbits \<le> LJ_MAX_HBITS
      then let t = \<lparr>arr = replicate asz NIL, nodes = [], asize = asz, hmask = 0, freetop = 0,
                    nomm = NOT 0, metatable = None\<rparr>
           in if hbits \<noteq> 0 then new_hpart t hbits else Inr t
      else Inl (AssertPanic ''table overflow''))"

definition has_hpart :: "ltable \<Rightarrow> bool" where
  "has_hpart t \<longleftrightarrow> hmask t \<noteq> 0"

definition node_slot :: "ltable \<Rightarrow> nat \<Rightarrow> panic + node" where
  "node_slot t i = (if hmask t > 0 then idx_panic (nodes t) i else Inr EMPTY_NODE)"

definition node_slot_mut :: "ltable \<Rightarrow> nat \<Rightarrow> (node \<Rightarrow> node) \<Rightarrow> panic + ltable" where
  "node_slot_mut t i f =
     rbind (idx_panic (nodes t) i) (\<lambda>nd. Inr (t\<lparr>nodes := (nodes t)[i := f nd]\<rparr>))"

definition node_len :: "ltable \<Rightarrow> nat" where
  "node_len t = (if hmask t > 0 then length (nodes t) else 0)"

definition hbits :: "ltable \<Rightarrow> nat" where
  "hbits t = (if hmask t = 0 then 0 else fls (hmask t) + 1)"

section \<open>Lookup\<close>

definition hash_slot :: "sids \<Rightarrow> ltable \<Rightarrow> lua_value \<Rightarrow> nat" where
  "hash_slot sid t key = unat (hash_key sid key AND word_of_nat (hmask t))"

definition array_key :: "lua_value \<Rightarrow> nat option" where
  "array_key key =
     (case as_int32_exact key of
        None \<Rightarrow> None
      | Some k \<Rightarrow> if 0 \<le> k \<and> nat k < LJ_MAX_ASIZE then Some (nat k) else None)"

text \<open>The chain walk that \<open>get\<close>, \<open>get_str\<close>, \<open>set_str\<close>, \<open>key_index\<close> and \<open>set\<close> repeat: the
  index of the first node from \<open>n\<close> along \<open>next\<close> whose key has the bits of \<open>key\<close>.\<close>

primrec find_chain :: "nat \<Rightarrow> ltable \<Rightarrow> lua_value \<Rightarrow> nat \<Rightarrow> panic + nat option" where
  "find_chain 0 t key n = Inl Diverges"
| "find_chain (Suc fuel) t key n =
     rbind (node_slot t n) (\<lambda>nd.
       if n_key nd = key then Inr (Some n)
       else if n_next nd = NIL_NODE then Inr None
       else find_chain fuel t key (n_next nd))"

definition find_node :: "sids \<Rightarrow> ltable \<Rightarrow> lua_value \<Rightarrow> panic + nat option" where
  "find_node sid t key = find_chain (Suc (length (nodes t))) t key (hash_slot sid t key)"

definition node_val :: "ltable \<Rightarrow> nat option \<Rightarrow> panic + lua_value" where
  "node_val t r =
     (case r of None \<Rightarrow> Inr NIL | Some i \<Rightarrow> rbind (node_slot t i) (\<lambda>nd. Inr (n_val nd)))"

definition tab_get :: "sids \<Rightarrow> ltable \<Rightarrow> lua_value \<Rightarrow> panic + lua_value" where
  "tab_get sid t key =
     (case array_key key of
        Some i \<Rightarrow>
          if i < asize t then idx_panic (arr t) i
          else if is_nil key \<or> \<not> has_hpart t then Inr NIL
          else rbind (find_node sid t key) (node_val t)
      | None \<Rightarrow>
          if is_nil key \<or> \<not> has_hpart t then Inr NIL
          else rbind (find_node sid t key) (node_val t))"

definition tab_get_int :: "sids \<Rightarrow> ltable \<Rightarrow> int \<Rightarrow> panic + lua_value" where
  "tab_get_int sid t k =
     (if 0 \<le> k \<and> nat k < asize t then idx_panic (arr t) (nat k)
      else tab_get sid t (number (int_to_f64 k)))"

definition tab_get_str :: "sids \<Rightarrow> ltable \<Rightarrow> lua_value \<Rightarrow> panic + lua_value" where
  "tab_get_str sid t key = rbind (find_node sid t key) (node_val t)"

section \<open>Insertion, rehashing and resizing\<close>

definition normalize_key :: "lua_value \<Rightarrow> lua_value" where
  "normalize_key key = (case as_number key of Some n \<Rightarrow> number n | None \<Rightarrow> key)"

text \<open>The downward scan for a node whose key is nil, starting below \<open>freenode\<close>.\<close>

primrec scan_free :: "ltable \<Rightarrow> nat \<Rightarrow> panic + nat option" where
  "scan_free t 0 = Inr None"
| "scan_free t (Suc freenode) =
     rbind (node_slot t freenode) (\<lambda>nd.
       if is_nil (n_key nd) then Inr (Some freenode) else scan_free t freenode)"

text \<open>The walk to the predecessor of node \<open>n\<close> in the chain that starts at \<open>pred\<close>.\<close>

primrec find_pred :: "nat \<Rightarrow> ltable \<Rightarrow> nat \<Rightarrow> nat \<Rightarrow> panic + nat" where
  "find_pred 0 t pred n = Inl Diverges"
| "find_pred (Suc fuel) t pred n =
     rbind (node_slot t pred) (\<lambda>nd.
       if n_next nd = n then Inr pred else find_pred fuel t (n_next nd) n)"

definition move_node :: "sids \<Rightarrow> ltable \<Rightarrow> nat \<Rightarrow> nat \<Rightarrow> nat \<Rightarrow> lua_value \<Rightarrow> panic + ltable" where
  "move_node sid t collide n freenode key =
     rbind (find_pred (Suc (length (nodes t))) t collide n) (\<lambda>pred.
     rbind (node_slot t n) (\<lambda>nd.
     rbind (node_slot_mut t pred (\<lambda>p. p\<lparr>n_next := freenode\<rparr>)) (\<lambda>t.
     rbind (node_slot_mut t freenode (\<lambda>_. nd)) (\<lambda>t.
     node_slot_mut t n (\<lambda>x. x\<lparr>n_next := NIL_NODE, n_val := NIL, n_key := normalize_key key\<rparr>)))))"

definition link_node :: "ltable \<Rightarrow> nat \<Rightarrow> nat \<Rightarrow> lua_value \<Rightarrow> panic + ltable" where
  "link_node t n freenode key =
     rbind (node_slot t n) (\<lambda>nd.
     rbind (node_slot_mut t freenode (\<lambda>f. f\<lparr>n_next := n_next nd\<rparr>)) (\<lambda>t.
     rbind (node_slot_mut t n (\<lambda>x. x\<lparr>n_next := freenode\<rparr>)) (\<lambda>t.
     node_slot_mut t freenode (\<lambda>f. f\<lparr>n_key := normalize_key key\<rparr>))))"

text \<open>\<open>try_new_key\<close>, with the \<open>rehash\<close> it may call as an argument (the two are mutually
  recursive through \<open>resize\<close> and \<open>set\<close>). \<open>None\<close> in the result: the table was rehashed and
  the caller retries.\<close>

definition try_new_key ::
  "(ltable \<Rightarrow> lua_value \<Rightarrow> panic + ltable) \<Rightarrow> sids \<Rightarrow> ltable \<Rightarrow> lua_value \<Rightarrow>
     panic + (nat option \<times> ltable)" where
  "try_new_key rehash_f sid t0 key =
     (let t = t0\<lparr>nomm := 0\<rparr>
      in if \<not> has_hpart t then rbind (rehash_f t key) (\<lambda>t'. Inr (None, t'))
         else let n = hash_slot sid t key
              in rbind (node_slot t n) (\<lambda>nd.
                if is_nil (n_val nd)
                then rbind (node_slot_mut t n (\<lambda>x. x\<lparr>n_key := normalize_key key\<rparr>))
                       (\<lambda>t'. Inr (Some n, t'))
                else rbind (scan_free t (freetop t)) (\<lambda>r.
                  case r of
                    None \<Rightarrow> rbind (rehash_f t key) (\<lambda>t'. Inr (None, t'))
                  | Some freenode \<Rightarrow>
                      let t = t\<lparr>freetop := freenode\<rparr>;
                          collide = hash_slot sid t (n_key nd)
                      in if collide \<noteq> n
                         then rbind (move_node sid t collide n freenode key)
                                (\<lambda>t'. Inr (Some n, t'))
                         else rbind (link_node t n freenode key)
                                (\<lambda>t'. Inr (Some freenode, t')))))"

text \<open>\<open>resize\<close>, with the setter it reinserts entries with as an argument.\<close>

type_synonym setter = "ltable \<Rightarrow> lua_value \<Rightarrow> lua_value \<Rightarrow> panic + ltable"

primrec reinsert :: "setter \<Rightarrow> ltable \<Rightarrow> (lua_value \<times> lua_value) list \<Rightarrow> panic + ltable" where
  "reinsert S t [] = Inr t"
| "reinsert S t (kv # kvs) = rbind (S t (fst kv) (snd kv)) (\<lambda>t'. reinsert S t' kvs)"

definition resize :: "setter \<Rightarrow> ltable \<Rightarrow> nat \<Rightarrow> nat \<Rightarrow> panic + ltable" where
  "resize S t asz hb =
     (if LJ_MAX_ASIZE < asz then Inl (AssertPanic ''table overflow'') else
      let oldasize = asize t;
          oldnode = nodes t;
          oldhmask = hmask t;
          t0 = t\<lparr>nodes := []\<rparr>;
          t1 = (if oldasize < asz
                then t0\<lparr>arr := take asz (arr t) @ replicate (asz - length (arr t)) NIL, asize := asz\<rparr>
                else t0)
      in rbind (if hb \<noteq> 0 then new_hpart t1 hb
                else if oldhmask \<noteq> 0 then Inr (t1\<lparr>hmask := 0, freetop := 0\<rparr>)
                else Inr t1) (\<lambda>t2.
         rbind (if asz < oldasize
                then (if length (arr t2) < oldasize then Inl IndexPanic
                      else let dropped = map (\<lambda>i. (number (nat_to_f64 i), arr t2 ! i))
                                  (filter (\<lambda>i. \<not> is_nil (arr t2 ! i)) [asz..<oldasize])
                           in reinsert S (t2\<lparr>asize := asz, arr := take asz (arr t2)\<rparr>) dropped)
                else Inr t2) (\<lambda>t3.
         if 0 < oldhmask
         then reinsert S t3
                (map (\<lambda>nd. (n_key nd, n_val nd)) (filter (\<lambda>nd. \<not> is_nil (n_val nd)) oldnode))
         else Inr t3)))"

text \<open>The histogram of integer keys per power of two: \<open>count_array\<close>, \<open>count_int\<close>,
  \<open>count_hash\<close>. The bins are a list of \<open>LJ_MAX_ABITS\<close> counters.\<close>

definition bump :: "nat list \<Rightarrow> nat \<Rightarrow> nat \<Rightarrow> nat list" where
  "bump bins b n = bins[b := bins ! b + n]"

primrec count_array_loop :: "ltable \<Rightarrow> nat list \<Rightarrow> nat \<Rightarrow> nat list \<Rightarrow> nat \<Rightarrow> nat list \<times> nat" where
  "count_array_loop t [] i bins na = (bins, na)"
| "count_array_loop t (b # bs) i bins na =
     (let top = 2 * 2 ^ b;
          capped = asize t \<le> top;
          top' = (if capped then asize t - 1 else top)
      in if capped \<and> top' < i then (bins, na)
         else let n = length (filter (\<lambda>j. \<not> is_nil (arr t ! j)) [i..<Suc top'])
              in count_array_loop t bs (max i (Suc top')) (bump bins b n) (na + n))"

definition count_array :: "ltable \<Rightarrow> nat list \<Rightarrow> nat list \<times> nat" where
  "count_array t bins =
     (if asize t = 0 then (bins, 0) else count_array_loop t [0..<LJ_MAX_ABITS] 0 bins 0)"

definition int_bin :: "nat \<Rightarrow> nat" where
  "int_bin k = (if 2 < k then fls (k - 1) else 0)"

definition count_int :: "lua_value \<Rightarrow> nat list \<Rightarrow> nat list \<times> nat" where
  "count_int key bins =
     (case array_key key of
        Some k \<Rightarrow> (bump bins (int_bin k) 1, 1)
      | None \<Rightarrow> (bins, 0))"

primrec count_hash_loop :: "node list \<Rightarrow> nat list \<Rightarrow> nat \<Rightarrow> nat \<Rightarrow> nat list \<times> nat \<times> nat" where
  "count_hash_loop [] bins na tot = (bins, na, tot)"
| "count_hash_loop (nd # nds) bins na tot =
     (if is_nil (n_val nd) then count_hash_loop nds bins na tot
      else case count_int (n_key nd) bins of
             (bins', c) \<Rightarrow> count_hash_loop nds bins' (na + c) (tot + 1))"

definition count_hash :: "ltable \<Rightarrow> nat list \<Rightarrow> nat \<Rightarrow> nat list \<times> nat \<times> nat" where
  "count_hash t bins narray =
     (if has_hpart t
      then (case count_hash_loop (nodes t) bins 0 0 of
              (bins', na, tot) \<Rightarrow> (bins', narray + na, tot))
      else (bins, narray, 0))"

text \<open>\<open>best_asize\<close>: the loop over the bins from \<open>b\<close> on; reading past the last bin panics.\<close>

primrec best_asize_loop :: "nat \<Rightarrow> nat list \<Rightarrow> nat \<Rightarrow> nat \<Rightarrow> nat \<Rightarrow> nat \<Rightarrow> panic + (nat \<times> nat)" where
  "best_asize_loop nn [] b acc na sz =
     (if 2 ^ b < 2 * nn \<and> acc \<noteq> nn then Inl IndexPanic else Inr (sz, na))"
| "best_asize_loop nn (x # xs) b acc na sz =
     (if 2 ^ b < 2 * nn \<and> acc \<noteq> nn
      then if 0 < x
           then let acc' = acc + x
                in if 2 ^ b < 2 * acc'
                   then best_asize_loop nn xs (Suc b) acc' acc' (2 * 2 ^ b + 1)
                   else best_asize_loop nn xs (Suc b) acc' na sz
           else best_asize_loop nn xs (Suc b) acc na sz
      else Inr (sz, na))"

definition best_asize :: "nat list \<Rightarrow> nat \<Rightarrow> panic + (nat \<times> nat)" where
  "best_asize bins narray = best_asize_loop narray bins 0 0 0 0"

definition rehash :: "setter \<Rightarrow> ltable \<Rightarrow> lua_value \<Rightarrow> panic + ltable" where
  "rehash S t ek =
     (let (bins1, asize1) = count_array t (replicate LJ_MAX_ABITS 0);
          (bins2, asize2, htot) = count_hash t bins1 asize1;
          tot = 1 + asize1 + htot;
          (bins3, c) = count_int ek bins2
      in rbind (best_asize bins3 (asize2 + c)) (\<lambda>(asz, na).
         if tot < na then Inl ArithPanic else resize S t asz (hsize2hbits (tot - na))))"

text \<open>\<open>set\<close>. The retry loop and the recursion through \<open>rehash\<close>, \<open>resize\<close> and \<open>set\<close> share
  one fuel; \<open>SET_FUEL\<close> is enough for every well-formed table: the first attempt, the
  reinsertions of one rehash, and the retry.\<close>

definition nomm_reset :: "lua_value \<Rightarrow> ltable \<Rightarrow> ltable" where
  "nomm_reset key t = (if is_string key then t\<lparr>nomm := 0\<rparr> else t)"

definition array_store :: "ltable \<Rightarrow> nat \<Rightarrow> lua_value \<Rightarrow> panic + ltable" where
  "array_store t i v =
     (if i < length (arr t) then Inr (t\<lparr>arr := (arr t)[i := v]\<rparr>) else Inl IndexPanic)"

definition in_array :: "ltable \<Rightarrow> lua_value \<Rightarrow> nat option" where
  "in_array t key =
     (case array_key key of Some i \<Rightarrow> if i < asize t then Some i else None | None \<Rightarrow> None)"

primrec set_loop :: "nat \<Rightarrow> sids \<Rightarrow> ltable \<Rightarrow> lua_value \<Rightarrow> lua_value \<Rightarrow> panic + ltable" where
  "set_loop 0 sid t key val = Inl Diverges"
| "set_loop (Suc fuel) sid t key val =
     (case in_array t key of
        Some i \<Rightarrow> array_store t i val
      | None \<Rightarrow>
          rbind (if has_hpart t then find_node sid t key else Inr None) (\<lambda>r.
            case r of
              Some n \<Rightarrow> node_slot_mut t n (\<lambda>nd. nd\<lparr>n_val := val\<rparr>)
            | None \<Rightarrow>
                rbind (try_new_key
                    (rehash (\<lambda>t k v. set_loop fuel sid (nomm_reset k t) k v)) sid t key)
                  (\<lambda>(slot, t'). case slot of
                     Some n \<Rightarrow> node_slot_mut t' n (\<lambda>nd. nd\<lparr>n_val := val\<rparr>)
                   | None \<Rightarrow> set_loop fuel sid t' key val)))"

definition SET_FUEL :: nat where "SET_FUEL = 3"

definition tab_set :: "sids \<Rightarrow> setter" where
  "tab_set sid t key val = set_loop SET_FUEL sid (nomm_reset key t) key val"

definition tab_resize :: "sids \<Rightarrow> ltable \<Rightarrow> nat \<Rightarrow> nat \<Rightarrow> panic + ltable" where
  "tab_resize sid = resize (tab_set sid)"

definition next_power_of_two :: "nat \<Rightarrow> nat" where
  "next_power_of_two n = (if n \<le> 1 then 1 else 2 ^ Suc (floor_log2 (n - 1)))"

definition reasize :: "sids \<Rightarrow> ltable \<Rightarrow> nat \<Rightarrow> panic + ltable" where
  "reasize sid t nasize =
     (let hb = (if 0 < hmask t then fls (hmask t) + 1 else 0);
          asz = min (next_power_of_two (nasize + 1)) LJ_MAX_ASIZE
      in tab_resize sid t asz hb)"

definition tab_set_str :: "sids \<Rightarrow> setter" where
  "tab_set_str sid t0 key val =
     (let t = t0\<lparr>nomm := 0\<rparr>
      in if \<not> has_hpart t then tab_set sid t key val
         else rbind (find_node sid t key) (\<lambda>r.
           case r of
             Some n \<Rightarrow> node_slot_mut t n (\<lambda>nd. nd\<lparr>n_val := val\<rparr>)
           | None \<Rightarrow> tab_set sid t key val))"

definition tab_set_int :: "sids \<Rightarrow> ltable \<Rightarrow> int \<Rightarrow> lua_value \<Rightarrow> panic + ltable" where
  "tab_set_int sid t k v =
     (if 0 < k \<and> nat k < asize t then array_store t (nat k) v
      else if 0 < k \<and> nat k < LJ_MAX_ASIZE
      then if \<not> is_nil v \<and> nat k = asize t
           then rbind (reasize sid t (nat k)) (\<lambda>t'. array_store t' (nat k) v)
           else tab_set sid t (number (int_to_f64 k)) v
      else tab_set sid t (number (int_to_f64 k)) v)"

section \<open>Traversal, length, duplication\<close>

text \<open>\<open>key_index\<close>: \<open>None\<close> stands for the invalid-key marker \<open>!0\<close>.\<close>

definition key_index :: "sids \<Rightarrow> ltable \<Rightarrow> lua_value \<Rightarrow> panic + nat option" where
  "key_index sid t key =
     (if is_nil key then Inr (Some 0)
      else case in_array t key of
        Some k \<Rightarrow> Inr (Some (k + 1))
      | None \<Rightarrow>
          if has_hpart t
          then rbind (find_node sid t key) (\<lambda>r.
                 Inr (case r of Some n \<Rightarrow> Some (asize t + n + 1) | None \<Rightarrow> None))
          else Inr None)"

definition is_valid_key :: "sids \<Rightarrow> ltable \<Rightarrow> lua_value \<Rightarrow> panic + bool" where
  "is_valid_key sid t key = rbind (key_index sid t key) (\<lambda>r. Inr (r \<noteq> None))"

definition tab_next :: "sids \<Rightarrow> ltable \<Rightarrow> lua_value \<Rightarrow> panic + (lua_value \<times> lua_value) option" where
  "tab_next sid t key =
     rbind (key_index sid t key) (\<lambda>ki.
       case ki of
         None \<Rightarrow> Inr None
       | Some i0 \<Rightarrow>
           if length (arr t) < asize t then Inl IndexPanic else
           (case find (\<lambda>i. \<not> is_nil (arr t ! i)) [i0..<asize t] of
              Some i \<Rightarrow> Inr (Some (number (nat_to_f64 i), arr t ! i))
            | None \<Rightarrow>
                if \<not> has_hpart t then Inr None
                else if length (nodes t) \<le> hmask t then Inl IndexPanic
                else Inr (map_option (\<lambda>i. (n_key (nodes t ! i), n_val (nodes t ! i)))
                       (find (\<lambda>i. \<not> is_nil (n_val (nodes t ! i)))
                          [(max i0 (asize t) - asize t)..<Suc (hmask t)]))))"

text \<open>\<open>len\<close>: binary searches over the array part and, beyond it, over the hash part. \<open>p\<close>
  tells whether a slot is nil.\<close>

function len_bsearch :: "(nat \<Rightarrow> panic + bool) \<Rightarrow> nat \<Rightarrow> nat \<Rightarrow> panic + nat" where
  "len_bsearch p lo hi =
     (if 1 < hi - lo
      then let mid = (lo + hi) div 2
           in rbind (p mid) (\<lambda>b. if b then len_bsearch p lo mid else len_bsearch p mid hi)
      else Inr lo)"
  by pat_completeness auto
termination
  by (relation "measure (\<lambda>(p, lo, hi). hi - lo)") auto

declare len_bsearch.simps [simp del]

definition arr_nil :: "ltable \<Rightarrow> nat \<Rightarrow> panic + bool" where
  "arr_nil t i = rbind (idx_panic (arr t) i) (\<lambda>v. Inr (is_nil v))"

definition int_nil :: "sids \<Rightarrow> ltable \<Rightarrow> nat \<Rightarrow> panic + bool" where
  "int_nil sid t i = rbind (tab_get_int sid t (int i)) (\<lambda>v. Inr (is_nil v))"

text \<open>The linear fallback of \<open>len_hash\<close> (\<open>while !get_int(i).is_nil() { i += 1 }\<close>); \<open>i as i32\<close>
  stays in range because the fuel bounds it.\<close>

primrec len_linear :: "nat \<Rightarrow> sids \<Rightarrow> ltable \<Rightarrow> nat \<Rightarrow> panic + nat" where
  "len_linear 0 sid t i = Inl Diverges"
| "len_linear (Suc fuel) sid t i =
     rbind (int_nil sid t i) (\<lambda>b. if b then Inr (i - 1) else len_linear fuel sid t (Suc i))"

text \<open>The doubling loop of \<open>len_hash\<close>: at most 32 doublings fit below \<open>i32::MAX\<close>.\<close>

primrec len_hash_loop :: "nat \<Rightarrow> sids \<Rightarrow> ltable \<Rightarrow> nat \<Rightarrow> nat \<Rightarrow> panic + nat" where
  "len_hash_loop 0 sid t lo hi = Inl Diverges"
| "len_hash_loop (Suc fuel) sid t lo hi =
     rbind (int_nil sid t hi) (\<lambda>b.
       if b then len_bsearch (int_nil sid t) lo hi
       else if (0x7fffffff - 2) div 2 < hi then len_linear (2 ^ 31) sid t 1
       else len_hash_loop fuel sid t hi (hi * 2))"

definition len_hash :: "sids \<Rightarrow> ltable \<Rightarrow> nat \<Rightarrow> panic + nat" where
  "len_hash sid t hi = len_hash_loop 32 sid t hi (hi + 1)"

definition tab_len :: "sids \<Rightarrow> ltable \<Rightarrow> panic + nat" where
  "tab_len sid t =
     (let hi = asize t - 1
      in rbind (if 0 < hi then arr_nil t hi else Inr False) (\<lambda>b.
         if 0 < hi \<and> b then len_bsearch (arr_nil t) 0 hi
         else if \<not> has_hpart t then Inr hi
         else len_hash sid t hi))"

definition tab_dup :: "ltable \<Rightarrow> ltable" where
  "tab_dup t =
     \<lparr>arr = map (\<lambda>v. if is_table v then NIL else v) (arr t),
      nodes = map (\<lambda>nd. if is_table (n_val nd) then nd\<lparr>n_val := NIL\<rparr> else nd)
                (if 0 < hmask t then nodes t else []),
      asize = asize t, hmask = hmask t, freetop = freetop t, nomm = 0, metatable = None\<rparr>"

end
