(* ===== verification/LJ_Chain.thy ===== *)
theory LJ_Chain
  imports LJ_Prelude
begin

text \<open>
  Collision chains of an index-linked hash part, independently of the table record: \<open>N\<close>
  nodes, \<open>K i\<close> the key of node \<open>i\<close>, \<open>X i\<close> its \<open>next\<close> link, \<open>E\<close> the test for an unused
  (nil) key and \<open>M\<close> the main position of a key. \<open>chain_inv\<close> is the invariant that
  Brent's variation keeps, and the three lemmas \<open>chain_inv_main\<close>, \<open>chain_inv_link\<close> and
  \<open>chain_inv_move\<close> say that the three ways of placing a new key keep it.
\<close>

definition hop :: "nat \<Rightarrow> (nat \<Rightarrow> nat) \<Rightarrow> nat \<Rightarrow> nat \<Rightarrow> bool" where
  "hop N X a b \<longleftrightarrow> a < N \<and> b < N \<and> X a = b"

abbreviation reach :: "nat \<Rightarrow> (nat \<Rightarrow> nat) \<Rightarrow> nat \<Rightarrow> nat \<Rightarrow> bool" where
  "reach N X \<equiv> (hop N X)\<^sup>*\<^sup>*"

text \<open>Links stay in range, no two nodes share a successor, unused nodes are isolated.\<close>

definition links_ok :: "nat \<Rightarrow> nat \<Rightarrow> ('k \<Rightarrow> bool) \<Rightarrow> (nat \<Rightarrow> 'k) \<Rightarrow> (nat \<Rightarrow> nat) \<Rightarrow> bool" where
  "links_ok N nil E K X \<longleftrightarrow>
     N \<le> nil \<and>
     (\<forall>i<N. X i = nil \<or> X i < N) \<and>
     (\<forall>i<N. \<forall>j<N. X i = X j \<longrightarrow> X i < N \<longrightarrow> i = j) \<and>
     (\<forall>i<N. E (K i) \<longrightarrow> X i = nil \<and> (\<forall>j<N. X j \<noteq> i))"

definition ranked :: "nat \<Rightarrow> (nat \<Rightarrow> nat) \<Rightarrow> (nat \<Rightarrow> nat) \<Rightarrow> bool" where
  "ranked N X r \<longleftrightarrow> (\<forall>i<N. X i < N \<longrightarrow> r (X i) < r i)"

definition homed :: "nat \<Rightarrow> ('k \<Rightarrow> nat) \<Rightarrow> ('k \<Rightarrow> bool) \<Rightarrow> (nat \<Rightarrow> 'k) \<Rightarrow> (nat \<Rightarrow> nat) \<Rightarrow> bool" where
  "homed N M E K X \<longleftrightarrow>
     (\<forall>i<N. \<not> E (K i) \<longrightarrow>
        M (K i) < N \<and> \<not> E (K (M (K i))) \<and> M (K (M (K i))) = M (K i) \<and> reach N X (M (K i)) i)"

definition keys_unique :: "nat \<Rightarrow> ('k \<Rightarrow> bool) \<Rightarrow> (nat \<Rightarrow> 'k) \<Rightarrow> bool" where
  "keys_unique N E K \<longleftrightarrow> (\<forall>i<N. \<forall>j<N. K i = K j \<longrightarrow> \<not> E (K i) \<longrightarrow> i = j)"

definition chain_inv ::
  "nat \<Rightarrow> nat \<Rightarrow> ('k \<Rightarrow> nat) \<Rightarrow> ('k \<Rightarrow> bool) \<Rightarrow> (nat \<Rightarrow> 'k) \<Rightarrow> (nat \<Rightarrow> nat) \<Rightarrow> bool" where
  "chain_inv N nil M E K X \<longleftrightarrow>
     links_ok N nil E K X \<and> (\<exists>r. ranked N X r) \<and> homed N M E K X \<and> keys_unique N E K"

lemma chain_inv_cong:
  assumes "chain_inv N nil M E K X"
    and "\<And>i. i < N \<Longrightarrow> K' i = K i" and "\<And>i. i < N \<Longrightarrow> X' i = X i"
  shows "chain_inv N nil M E K' X'"
proof -
  have "hop N X' = hop N X" using assms(3) by (auto simp: hop_def fun_eq_iff)
  moreover have "X' i = X i \<and> K' i = K i" if "i < N" for i using assms that by simp
  ultimately show ?thesis
    using assms(1) unfolding chain_inv_def links_ok_def ranked_def homed_def keys_unique_def
    by auto
qed

lemma chain_inv_empty:
  assumes "N \<le> nil" and "\<And>i. i < N \<Longrightarrow> E (K i)" and "\<And>i. i < N \<Longrightarrow> X i = nil"
  shows "chain_inv N nil M E K X"
  using assms by (auto simp: chain_inv_def links_ok_def ranked_def homed_def keys_unique_def)

lemma reach_less: "reach N X a b \<Longrightarrow> a < N \<Longrightarrow> b < N"
  by (induction rule: rtranclp_induct) (auto simp: hop_def)

lemma reach_step: "reach N X n i \<Longrightarrow> i \<noteq> n \<Longrightarrow> X n < N \<and> reach N X (X n) i"
  by (erule converse_rtranclpE) (auto simp: hop_def)

lemma reach_next: "X n < N \<Longrightarrow> n < N \<Longrightarrow> reach N X (X n) i \<Longrightarrow> reach N X n i"
  by (rule converse_rtranclp_into_rtranclp) (auto simp: hop_def)

text \<open>A walk from \<open>n\<close> visits nodes of smaller and smaller rank, so it is over after at most
  as many steps as there are nodes of smaller rank.\<close>

definition below :: "nat \<Rightarrow> (nat \<Rightarrow> nat) \<Rightarrow> nat \<Rightarrow> nat" where
  "below N r n = card {i. i < N \<and> r i < r n}"

lemma below_le: "n < N \<Longrightarrow> below N r n < N"
proof -
  assume "n < N"
  have "{i. i < N \<and> r i < r n} \<subset> {..<N}" using \<open>n < N\<close> by auto
  then show ?thesis unfolding below_def using psubset_card_mono[of "{..<N}"] by auto
qed

lemma below_next: "ranked N X r \<Longrightarrow> n < N \<Longrightarrow> X n < N \<Longrightarrow> below N r (X n) < below N r n"
  unfolding below_def ranked_def
  by (rule psubset_card_mono) force+

text \<open>Placing a new key in its own main position.\<close>

lemma chain_inv_main:
  assumes inv: "chain_inv N nil M E K X" and n: "n < N" "M k = n" and k: "\<not> E k"
    and new: "\<forall>i<N. K i \<noteq> k"
  shows "chain_inv N nil M E (K(n := k)) X"
proof -
  have "links_ok N nil E (K(n := k)) X"
    using inv k by (auto simp: chain_inv_def links_ok_def)
  moreover have "homed N M E (K(n := k)) X"
    using inv n k by (auto simp: chain_inv_def homed_def)
  moreover have "keys_unique N E (K(n := k))"
    using inv new by (auto simp: chain_inv_def keys_unique_def)
  ultimately show ?thesis using inv by (auto simp: chain_inv_def)
qed

text \<open>Linking a new key into an unused node \<open>f\<close> behind its main position \<open>n\<close>.\<close>

lemma ranked_link:
  assumes "ranked N X r" "n < N" "f < N" "f \<noteq> n" "\<forall>j<N. X j \<noteq> f"
  shows "ranked N (X(f := X n, n := f)) (\<lambda>i. if i = f then 2 * r n + 1 else 2 * r i + 2)"
proof -
  have "\<And>i. i < N \<Longrightarrow> X i < N \<Longrightarrow> r (X i) < r i" using assms(1) by (simp add: ranked_def)
  then show ?thesis using assms(2-) by (fastforce simp: ranked_def)
qed

lemma reach_link:
  assumes "reach N X a b" "n < N" "f < N" "X f \<ge> N" "\<forall>j<N. X j \<noteq> f" "a \<noteq> f"
  shows "reach N (X(f := X n, n := f)) a b"
  using assms(1)
proof (induction rule: rtranclp_induct)
  case base
  show ?case by simp
next
  case (step y z)
  let ?X = "X(f := X n, n := f)"
  from step(2) have yz: "y < N" "z < N" "X y = z" by (auto simp: hop_def)
  then have "y \<noteq> f" using assms(4) by auto
  have "reach N ?X y z"
  proof (cases "y = n")
    case True
    with \<open>y \<noteq> f\<close> have "hop N ?X y f" "hop N ?X f z" using yz assms by (auto simp: hop_def)
    then show ?thesis by (rule rtranclp.rtrancl_into_rtrancl [OF r_into_rtranclp])
  next
    case False
    then show ?thesis using yz \<open>y \<noteq> f\<close> by (auto simp: hop_def)
  qed
  with step.IH show ?case by (rule rtranclp_trans)
qed

lemma chain_inv_link:
  assumes inv: "chain_inv N nil M E K X" and n: "n < N" "M k = n" "\<not> E (K n)" "M (K n) = n"
    and f: "f < N" "E (K f)" and k: "\<not> E k" and new: "\<forall>i<N. K i \<noteq> k"
  shows "chain_inv N nil M E (K(f := k)) (X(f := X n, n := f))"
proof -
  let ?X = "X(f := X n, n := f)" and ?K = "K(f := k)"
  have nf: "f \<noteq> n" using f(2) n(3) by auto
  have iso: "X f = nil" "\<forall>j<N. X j \<noteq> f" and le: "N \<le> nil"
    using inv f by (auto simp: chain_inv_def links_ok_def)
  have links: "links_ok N nil E ?K ?X"
    unfolding links_ok_def
  proof (intro conjI allI impI)
    show "N \<le> nil" by (rule le)
    show "?X i = nil \<or> ?X i < N" if "i < N" for i
      using inv that n(1) f(1) by (auto simp: chain_inv_def links_ok_def)
    show "i = j" if "i < N" "j < N" "?X i = ?X j" "?X i < N" for i j
    proof -
      have "\<forall>i<N. \<forall>j<N. X i = X j \<longrightarrow> X i < N \<longrightarrow> i = j"
        using inv by (simp add: chain_inv_def links_ok_def)
      then show ?thesis using that iso(2) n(1) by (metis fun_upd_apply)
    qed
    have un: "X i = nil \<and> (\<forall>j<N. X j \<noteq> i)" if "i < N" "E (K i)" for i
      using inv that by (simp add: chain_inv_def links_ok_def)
    show "?X i = nil" if "i < N" "E (?K i)" for i
      using un [of i] that k n(3) by (auto split: if_splits)
    show "?X j \<noteq> i" if "i < N" "E (?K i)" "j < N" for i j
      using un [of i] that k n(1) by (auto split: if_splits)
  qed
  have "\<exists>r. ranked N ?X r"
    using inv ranked_link[OF _ n(1) f(1) nf iso(2)] by (auto simp: chain_inv_def)
  moreover have "homed N M E ?K ?X"
    unfolding homed_def
  proof (intro allI impI)
    fix i assume i: "i < N" "\<not> E (?K i)"
    show "M (?K i) < N \<and> \<not> E (?K (M (?K i))) \<and> M (?K (M (?K i))) = M (?K i) \<and> reach N ?X (M (?K i)) i"
    proof (cases "i = f")
      case True
      have "hop N ?X n f" using n f nf by (simp add: hop_def)
      then show ?thesis using True n nf by auto
    next
      case False
      let ?p = "M (K i)"
      have p: "?p < N" "\<not> E (K ?p)" "M (K ?p) = ?p" "reach N X ?p i"
        using inv i False by (auto simp: chain_inv_def homed_def)
      then have "?p \<noteq> f" using f(2) by auto
      moreover have "reach N ?X ?p i"
        by (rule reach_link[OF p(4) n(1) f(1)]) (use iso le \<open>?p \<noteq> f\<close> in auto)
      ultimately show ?thesis using p False by auto
    qed
  qed
  moreover have "keys_unique N E ?K"
    using inv new by (auto simp: chain_inv_def keys_unique_def)
  ultimately show ?thesis using links by (auto simp: chain_inv_def)
qed

text \<open>Moving the node \<open>n\<close>, which is not in its main position, to the unused node \<open>f\<close>
  and giving \<open>n\<close> to the new key: the links are those of the old chain with \<open>n\<close> and \<open>f\<close>
  exchanged.\<close>

definition swp :: "nat \<Rightarrow> nat \<Rightarrow> nat \<Rightarrow> nat" where
  "swp n f i = (if i = n then f else if i = f then n else i)"

lemma swp_simps [simp]: "swp n f n = f" "swp n f f = n" "swp n f (swp n f i) = i"
  "i \<noteq> n \<Longrightarrow> i \<noteq> f \<Longrightarrow> swp n f i = i"
  by (auto simp: swp_def)

lemma swp_less: "n < N \<Longrightarrow> f < N \<Longrightarrow> swp n f i < N \<longleftrightarrow> i < N"
  by (auto simp: swp_def)

lemma swp_inj [simp]: "swp n f i = swp n f j \<longleftrightarrow> i = j"
  by (auto simp: swp_def)

definition swapped :: "nat \<Rightarrow> nat \<Rightarrow> nat \<Rightarrow> (nat \<Rightarrow> nat) \<Rightarrow> nat \<Rightarrow> nat" where
  "swapped N n f X i = (if X (swp n f i) < N then swp n f (X (swp n f i)) else X (swp n f i))"

lemma hop_swapped:
  assumes "n < N" "f < N"
  shows "hop N X a b \<Longrightarrow> hop N (swapped N n f X) (swp n f a) (swp n f b)"
  using assms by (auto simp: hop_def swapped_def swp_less)

lemma reach_swapped:
  assumes "n < N" "f < N" "reach N X a b"
  shows "reach N (swapped N n f X) (swp n f a) (swp n f b)"
  using assms(3)
proof (induction rule: rtranclp_induct)
  case base
  show ?case by simp
next
  case (step y z)
  from hop_swapped[OF assms(1,2) step(2)] step.IH show ?case
    by (rule rtranclp.rtrancl_into_rtrancl [rotated])
qed

lemma chain_inv_move:
  assumes inv: "chain_inv N nil M E K X" and n: "n < N" "M k = n" "\<not> E (K n)" "M (K n) \<noteq> n"
    and f: "f < N" "E (K f)" and k: "\<not> E k" and new: "\<forall>i<N. K i \<noteq> k"
  shows "chain_inv N nil M E (K(f := K n, n := k)) (swapped N n f X)"
proof -
  let ?X = "swapped N n f X" and ?K = "K(f := K n, n := k)"
  have nf: "f \<noteq> n" using f(2) n(3) by auto
  have lk: "links_ok N nil E K X" and ho: "homed N M E K X" and ku: "keys_unique N E K"
    using inv by (auto simp: chain_inv_def)
  have iso: "X f = nil" "\<forall>j<N. X j \<noteq> f" and le: "N \<le> nil"
    using lk f by (auto simp: links_ok_def)
  have no_home: "M (K i) \<noteq> n" if "i < N" "\<not> E (K i)" for i
    using ho that n(4) by (auto simp: homed_def)
  have links: "links_ok N nil E ?K ?X"
    unfolding links_ok_def
  proof (intro conjI allI impI)
    show "N \<le> nil" by (rule le)
    show "?X i = nil \<or> ?X i < N" if "i < N" for i
    proof -
      have "swp n f i < N" using that n(1) f(1) by (simp add: swp_less)
      then have "X (swp n f i) = nil \<or> X (swp n f i) < N" using lk by (auto simp: links_ok_def)
      then show ?thesis using n(1) f(1) by (auto simp: swapped_def swp_less)
    qed
    show "i = j" if "i < N" "j < N" "?X i = ?X j" "?X i < N" for i j
    proof -
      have "\<forall>i<N. \<forall>j<N. X i = X j \<longrightarrow> X i < N \<longrightarrow> i = j"
        using lk by (simp add: links_ok_def)
      moreover have "X (swp n f i) = X (swp n f j)" "X (swp n f i) < N"
        using that n(1) f(1) by (auto simp: swapped_def swp_less split: if_splits)
      ultimately have "swp n f i = swp n f j" using that n(1) f(1) by (metis swp_less)
      then show ?thesis by simp
    qed
    have un: "X i = nil \<and> (\<forall>j<N. X j \<noteq> i)" if "i < N" "E (K i)" for i
      using lk that by (simp add: links_ok_def)
    show "?X i = nil" if "i < N" "E (?K i)" for i
      using un [of i] that k n(3) le by (auto simp: swapped_def split: if_splits)
    show "?X j \<noteq> i" if "i < N" "E (?K i)" "j < N" for i j
    proof -
      have i: "i \<noteq> n" "i \<noteq> f" "E (K i)" using that(2) k n(3) by (auto split: if_splits)
      have "swp n f j < N" using that(3) n(1) f(1) by (simp add: swp_less)
      with un [OF that(1) i(3)] have "X (swp n f j) \<noteq> i" by blast
      then show ?thesis using i(1,2) by (auto simp: swapped_def swp_def)
    qed
  qed
  have "ranked N ?X (r \<circ> swp n f)" if "ranked N X r" for r
    using that n(1) f(1) by (auto simp: ranked_def swapped_def swp_less)
  then have rk: "\<exists>r. ranked N ?X r" using inv by (auto simp: chain_inv_def)
  have "homed N M E ?K ?X"
    unfolding homed_def
  proof (intro allI impI)
    fix i assume i: "i < N" "\<not> E (?K i)"
    show "M (?K i) < N \<and> \<not> E (?K (M (?K i))) \<and> M (?K (M (?K i))) = M (?K i) \<and> reach N ?X (M (?K i)) i"
    proof (cases "i = n")
      case True
      then show ?thesis using n k by auto
    next
      case False
      define j where "j = swp n f i"
      have j: "j < N" "?K i = K j" "\<not> E (K j)" "j \<noteq> f"
        using False i n f nf by (auto simp: j_def swp_def)
      let ?p = "M (K j)"
      have p: "?p < N" "\<not> E (K ?p)" "M (K ?p) = ?p" "reach N X ?p j"
        using ho j(1,3) by (auto simp: homed_def)
      have pn: "?p \<noteq> n" using no_home j by blast
      have pf: "?p \<noteq> f" using p(2) f(2) by auto
      have "reach N ?X ?p i"
        using reach_swapped[OF n(1) f(1) p(4)] pn pf by (simp add: j_def)
      moreover have "?K ?p = K ?p" using pn pf by simp
      ultimately show ?thesis using p j(2) by simp
    qed
  qed
  moreover have "keys_unique N E ?K"
    unfolding keys_unique_def
  proof (intro allI impI)
    fix i j assume ij: "i < N" "j < N" "?K i = ?K j" "\<not> E (?K i)"
    show "i = j" using ku ij new nf n(1,3) f(2) unfolding keys_unique_def
      by (metis fun_upd_apply)
  qed
  ultimately show ?thesis using links rk by (auto simp: chain_inv_def)
qed

end
