(* ===== verification/LJ_Table_Inv.thy ===== *)
theory LJ_Table_Inv
  imports LJ_Table LJ_Chain
begin

unbundle bit_operations_syntax

text \<open>
  The well-formedness invariant of tables, their content as a map from keys to values, and
  the behaviour of lookup and of an insertion that needs no rehash.
\<close>

section \<open>Invariant and content\<close>

definition proper_val :: "lua_value \<Rightarrow> bool" where
  "proper_val v \<longleftrightarrow> (is_nil v \<longrightarrow> v = NIL)"

definition proper_key :: "lua_value \<Rightarrow> bool" where
  "proper_key k \<longleftrightarrow> \<not> is_nil k \<and> normalize_key k = k"

abbreviation tkey :: "ltable \<Rightarrow> nat \<Rightarrow> lua_value" where "tkey t i \<equiv> n_key (nodes t ! i)"
abbreviation tval :: "ltable \<Rightarrow> nat \<Rightarrow> lua_value" where "tval t i \<equiv> n_val (nodes t ! i)"
abbreviation tnext :: "ltable \<Rightarrow> nat \<Rightarrow> nat" where "tnext t i \<equiv> n_next (nodes t ! i)"

definition wf_array :: "ltable \<Rightarrow> bool" where
  "wf_array t \<longleftrightarrow> length (arr t) = asize t \<and> asize t \<le> LJ_MAX_ASIZE \<and> (\<forall>v\<in>set (arr t). proper_val v)"

definition wf_node :: "ltable \<Rightarrow> node \<Rightarrow> bool" where
  "wf_node t nd \<longleftrightarrow> proper_val (n_val nd) \<and> (\<not> is_nil (n_val nd) \<longrightarrow> \<not> is_nil (n_key nd)) \<and>
     (\<not> is_nil (n_key nd) \<longrightarrow> proper_key (n_key nd) \<and> in_array t (n_key nd) = None)"

definition hash_size_ok :: "ltable \<Rightarrow> bool" where
  "hash_size_ok t \<longleftrightarrow> (\<exists>b. 1 \<le> b \<and> b \<le> LJ_MAX_HBITS \<and> hmask t = 2 ^ b - 1 \<and> length (nodes t) = 2 ^ b)"

definition wf_hash :: "sids \<Rightarrow> ltable \<Rightarrow> bool" where
  "wf_hash sid t \<longleftrightarrow>
     (if hmask t = 0 then nodes t = []
      else hash_size_ok t \<and> freetop t \<le> length (nodes t) \<and>
        (\<forall>i<length (nodes t). freetop t \<le> i \<longrightarrow> \<not> is_nil (tkey t i)) \<and>
        chain_inv (length (nodes t)) NIL_NODE (hash_slot sid t) is_nil (tkey t) (tnext t) \<and>
        (\<forall>i<length (nodes t). wf_node t (nodes t ! i)))"

definition wf_tab :: "sids \<Rightarrow> ltable \<Rightarrow> bool" where
  "wf_tab sid t \<longleftrightarrow> wf_array t \<and> wf_hash sid t"

text \<open>The content: the specification that the operations implement.\<close>

definition hcont :: "ltable \<Rightarrow> lua_value \<Rightarrow> lua_value" where
  "hcont t k = (case find (\<lambda>nd. n_key nd = k) (nodes t) of Some nd \<Rightarrow> n_val nd | None \<Rightarrow> NIL)"

definition cont :: "ltable \<Rightarrow> lua_value \<Rightarrow> lua_value" where
  "cont t k = (case in_array t k of Some i \<Rightarrow> arr t ! i | None \<Rightarrow> hcont t k)"

definition used :: "ltable \<Rightarrow> nat" where
  "used t = length (filter (\<lambda>nd. \<not> is_nil (n_key nd)) (nodes t))"

lemma proper_NIL [simp]: "proper_val NIL"
  by (simp add: proper_val_def)

lemma hash_slot_cong: "hmask t' = hmask t \<Longrightarrow> hash_slot sid t' = hash_slot sid t"
  by (simp add: hash_slot_def fun_eq_iff)

lemma in_array_cong: "asize t' = asize t \<Longrightarrow> in_array t' = in_array t"
  by (auto simp: in_array_def fun_eq_iff split: option.split)

lemma hash_size_okD:
  assumes "hash_size_ok t"
  shows "length (nodes t) = Suc (hmask t)" "0 < hmask t" "length (nodes t) \<le> NIL_NODE"
    "1 < length (nodes t)"
proof -
  obtain b where b: "1 \<le> b" "b \<le> 26" "hmask t = 2 ^ b - 1" "length (nodes t) = 2 ^ b"
    using assms by (auto simp: hash_size_ok_def LJ_MAX_HBITS_def)
  have "(2::nat) ^ 1 \<le> 2 ^ b" using b(1) by (intro power_increasing) auto
  moreover have "(2::nat) ^ b \<le> 2 ^ 26" using b(2) by (intro power_increasing) auto
  ultimately show "length (nodes t) = Suc (hmask t)" "0 < hmask t" "length (nodes t) \<le> NIL_NODE"
    "1 < length (nodes t)"
    using b(3,4) by (auto simp: NIL_NODE_def)
qed

lemma hash_slot_le: "hash_slot sid t k \<le> hmask t"
proof -
  have "unat (hash_key sid k AND word_of_nat (hmask t)) \<le> unat (word_of_nat (hmask t) :: u32)"
    using word_and_le1 word_le_nat_alt by blast
  also have "\<dots> \<le> hmask t" by (simp add: unat_of_nat)
  finally show ?thesis by (simp add: hash_slot_def)
qed

lemma hash_slot_less: "hash_size_ok t \<Longrightarrow> hash_slot sid t k < length (nodes t)"
  using hash_slot_le [of sid t k] hash_size_okD(1) [of t] by simp

lemma wf_hashD:
  assumes "wf_hash sid t" "has_hpart t"
  shows "hash_size_ok t" "freetop t \<le> length (nodes t)"
    "\<And>i. i < length (nodes t) \<Longrightarrow> freetop t \<le> i \<Longrightarrow> \<not> is_nil (tkey t i)"
    "chain_inv (length (nodes t)) NIL_NODE (hash_slot sid t) is_nil (tkey t) (tnext t)"
    "\<And>i. i < length (nodes t) \<Longrightarrow> wf_node t (nodes t ! i)"
  using assms by (auto simp: wf_hash_def has_hpart_def)

lemma node_slot_ok: "has_hpart t \<Longrightarrow> i < length (nodes t) \<Longrightarrow> node_slot t i = Inr (nodes t ! i)"
  by (simp add: node_slot_def has_hpart_def)

section \<open>Lookup\<close>

lemma find_chain_correct:
  assumes h: "has_hpart t" and r: "ranked (length (nodes t)) (tnext t) r"
    and rng: "\<forall>i<length (nodes t). tnext t i = NIL_NODE \<or> tnext t i < length (nodes t)"
    and le: "length (nodes t) \<le> NIL_NODE"
  shows "n < length (nodes t) \<Longrightarrow> below (length (nodes t)) r n < fuel \<Longrightarrow>
    \<exists>x. find_chain fuel t key n = Inr x \<and>
      (case x of Some i \<Rightarrow> i < length (nodes t) \<and> tkey t i = key
       | None \<Rightarrow> \<forall>i. reach (length (nodes t)) (tnext t) n i \<longrightarrow> tkey t i \<noteq> key)"
proof (induction fuel arbitrary: n)
  case 0
  then show ?case by simp
next
  case (Suc fuel)
  let ?N = "length (nodes t)"
  note slot = node_slot_ok[OF h Suc.prems(1)]
  show ?case
  proof (cases "tkey t n = key")
    case True
    then show ?thesis using slot Suc.prems by auto
  next
    case False
    show ?thesis
    proof (cases "tnext t n = NIL_NODE")
      case True
      have "i = n" if "reach ?N (tnext t) n i" for i
        using reach_step[OF that] True le by auto
      with False have "\<forall>i. reach ?N (tnext t) n i \<longrightarrow> tkey t i \<noteq> key" by blast
      then show ?thesis using slot False True by simp
    next
      case nxt: False
      then have lt: "tnext t n < ?N" using rng Suc.prems(1) by auto
      have "below ?N r (tnext t n) < fuel"
        using below_next[OF r Suc.prems(1) lt] Suc.prems(2) by simp
      from Suc.IH[OF lt this] obtain x where x: "find_chain fuel t key (tnext t n) = Inr x"
        "case x of Some i \<Rightarrow> i < ?N \<and> tkey t i = key
          | None \<Rightarrow> \<forall>i. reach ?N (tnext t) (tnext t n) i \<longrightarrow> tkey t i \<noteq> key" by blast
      have "find_chain (Suc fuel) t key n = Inr x" using slot False nxt x(1) by simp
      moreover have "tkey t i \<noteq> key"
        if "x = None" "reach ?N (tnext t) n i" for i
        using that x(2) reach_step[OF that(2)] False by (cases "i = n") auto
      ultimately show ?thesis using x(2) by (cases x) auto
    qed
  qed
qed

lemma find_node_correct:
  assumes wf: "wf_hash sid t" and h: "has_hpart t" and k: "\<not> is_nil key"
  shows "\<exists>x. find_node sid t key = Inr x \<and>
    (case x of Some i \<Rightarrow> i < length (nodes t) \<and> tkey t i = key
     | None \<Rightarrow> \<forall>i<length (nodes t). tkey t i \<noteq> key)"
proof -
  let ?N = "length (nodes t)"
  note w = wf_hashD[OF wf h]
  obtain r where r: "ranked ?N (tnext t) r" using w(4) by (auto simp: chain_inv_def)
  have rng: "\<forall>i<?N. tnext t i = NIL_NODE \<or> tnext t i < ?N" "?N \<le> NIL_NODE"
    using w(4) by (auto simp: chain_inv_def links_ok_def)
  have s: "hash_slot sid t key < ?N" by (rule hash_slot_less[OF w(1)])
  have "below ?N r (hash_slot sid t key) < Suc ?N" using below_le[OF s, of r] by simp
  from find_chain_correct[OF h r rng s this, of key] obtain x where x:
    "find_node sid t key = Inr x"
    "case x of Some i \<Rightarrow> i < ?N \<and> tkey t i = key
      | None \<Rightarrow> \<forall>i. reach ?N (tnext t) (hash_slot sid t key) i \<longrightarrow> tkey t i \<noteq> key"
    by (auto simp: find_node_def)
  have "tkey t i \<noteq> key" if "x = None" "i < ?N" for i
  proof
    assume e: "tkey t i = key"
    then have "reach ?N (tnext t) (hash_slot sid t key) i"
      using w(4) that(2) k by (auto simp: chain_inv_def homed_def)
    with x(2) that(1) e show False by simp
  qed
  with x show ?thesis by (cases x) auto
qed

lemma keys_uniqueD:
  assumes "wf_hash sid t" "has_hpart t" "i < length (nodes t)" "j < length (nodes t)"
    "tkey t i = tkey t j" "\<not> is_nil (tkey t i)"
  shows "i = j"
proof -
  have "keys_unique (length (nodes t)) is_nil (tkey t)"
    using wf_hashD(4)[OF assms(1,2)] by (simp add: chain_inv_def)
  then show ?thesis using assms(3-6) by (auto simp: keys_unique_def)
qed

lemma hcont_absent: "\<forall>i<length (nodes t). tkey t i \<noteq> k \<Longrightarrow> hcont t k = NIL"
  by (auto simp: hcont_def find_None_iff in_set_conv_nth split: option.splits dest!: find_Some_iff [THEN iffD1])

lemma hcont_present:
  assumes "wf_hash sid t" "i < length (nodes t)" "tkey t i = k" "\<not> is_nil k"
  shows "hcont t k = tval t i"
proof -
  have h: "has_hpart t" using assms(1,2) by (auto simp: wf_hash_def has_hpart_def split: if_splits)
  have "find (\<lambda>nd. n_key nd = k) (nodes t) \<noteq> None"
    using assms(2,3) nth_mem[OF assms(2)] unfolding find_None_iff by blast
  then obtain j where j: "j < length (nodes t)" "tkey t j = k"
    "find (\<lambda>nd. n_key nd = k) (nodes t) = Some (nodes t ! j)"
    by (auto simp: find_Some_iff)
  then have "j = i" using keys_uniqueD[OF assms(1) h j(1) assms(2)] assms(3,4) by simp
  then show ?thesis using j(3) by (simp add: hcont_def)
qed

lemma find_node_hcont:
  assumes "wf_hash sid t" "has_hpart t" "\<not> is_nil key"
  shows "rbind (find_node sid t key) (node_val t) = Inr (hcont t key)"
proof -
  obtain x where x: "find_node sid t key = Inr x"
    "case x of Some i \<Rightarrow> i < length (nodes t) \<and> tkey t i = key
     | None \<Rightarrow> \<forall>i<length (nodes t). tkey t i \<noteq> key"
    using find_node_correct[OF assms] by blast
  show ?thesis
  proof (cases x)
    case None
    then show ?thesis using x by (simp add: node_val_def hcont_absent)
  next
    case (Some i)
    then show ?thesis
      using x hcont_present[OF assms(1), of i key] assms(3)
      by (simp add: node_val_def node_slot_ok[OF assms(2)])
  qed
qed

lemma tab_get_cont:
  assumes "wf_tab sid t" "\<not> is_nil key"
  shows "tab_get sid t key = Inr (cont t key)"
proof -
  have len: "length (arr t) = asize t" and wf: "wf_hash sid t"
    using assms(1) by (auto simp: wf_tab_def wf_array_def)
  have no_hash: "hcont t key = NIL" if "\<not> has_hpart t"
    using that wf by (simp add: wf_hash_def has_hpart_def hcont_def)
  show ?thesis
    using len no_hash find_node_hcont[OF wf _ assms(2)] assms(2)
    by (auto simp: tab_get_def cont_def in_array_def split: option.splits)
qed

section \<open>Updating nodes\<close>

lemma array_key_bound: "array_key k = Some i \<Longrightarrow> i < LJ_MAX_ASIZE"
  by (auto simp: array_key_def split: option.splits if_splits)

lemma normalize_key_number: "is_number k \<Longrightarrow> normalize_key k = number k"
  by (simp add: normalize_key_def as_number_def)

lemma array_key_number: "array_key k = Some i \<Longrightarrow> is_number k"
  by (auto simp: array_key_def as_int32_exact_def as_number_def split: option.splits if_splits)

lemma array_key_inj:
  assumes "array_key k = Some i" "proper_key k"
  shows "k = number (int_to_f64 (int i))"
proof -
  have "as_int32_exact k = Some (int i)"
    using assms(1) by (auto simp: array_key_def split: option.splits if_splits)
  moreover have "number k = k"
    using assms(2) array_key_number[OF assms(1)] by (simp add: proper_key_def normalize_key_number)
  ultimately show ?thesis by (rule as_int32_exact_inj)
qed

lemma array_key_nat:
  assumes "i < LJ_MAX_ASIZE"
  shows "array_key (number (nat_to_f64 i)) = Some i" "proper_key (number (nat_to_f64 i))"
proof -
  have e: "int_to_f64 (int i) = nat_to_f64 i" by (simp add: int_to_f64_def)
  have "as_int32_exact (number (int_to_f64 (int i))) = Some (int i)"
    using assms by (intro as_int32_exact_number_int) (auto simp: LJ_MAX_ASIZE_def LJ_MAX_ABITS_def)
  then show "array_key (number (nat_to_f64 i)) = Some i"
    using assms by (simp add: array_key_def e)
  show "proper_key (number (nat_to_f64 i))"
    using is_number_not_nil [OF is_number_number]
    by (simp add: proper_key_def normalize_key_number is_number_number number_idem)
qed

text \<open>The facts that make up \<open>wf_hash\<close> for a table with the same sizes and new nodes.\<close>

lemma wf_hash_update:
  assumes "wf_hash sid t" "has_hpart t"
    and "hmask t' = hmask t" "asize t' = asize t" "length (nodes t') = length (nodes t)"
    and "freetop t' \<le> length (nodes t)"
    and "\<And>i. i < length (nodes t) \<Longrightarrow> freetop t' \<le> i \<Longrightarrow> \<not> is_nil (tkey t' i)"
    and "chain_inv (length (nodes t)) NIL_NODE (hash_slot sid t) is_nil (tkey t') (tnext t')"
    and "\<And>i. i < length (nodes t) \<Longrightarrow> wf_node t (nodes t' ! i)"
  shows "wf_hash sid t'"
proof -
  have "hash_size_ok t'" using wf_hashD(1)[OF assms(1,2)] assms(3,5) by (simp add: hash_size_ok_def)
  moreover have "wf_node t' nd = wf_node t nd" for nd
    using in_array_cong[OF assms(4)] by (simp add: wf_node_def)
  ultimately show ?thesis
    using assms(2-) hash_slot_cong[OF assms(3), of sid] by (simp add: wf_hash_def has_hpart_def)
qed

definition store_node :: "ltable \<Rightarrow> nat \<Rightarrow> lua_value \<Rightarrow> ltable" where
  "store_node t i v = t\<lparr>nodes := (nodes t)[i := (nodes t ! i)\<lparr>n_val := v\<rparr>]\<rparr>"

lemma node_slot_mut_val:
  "i < length (nodes t) \<Longrightarrow> node_slot_mut t i (\<lambda>nd. nd\<lparr>n_val := v\<rparr>) = Inr (store_node t i v)"
  by (simp add: node_slot_mut_def store_node_def)

lemma store_node_simps [simp]:
  "hmask (store_node t i v) = hmask t" "asize (store_node t i v) = asize t"
  "arr (store_node t i v) = arr t" "length (nodes (store_node t i v)) = length (nodes t)"
  "freetop (store_node t i v) = freetop t" "has_hpart (store_node t i v) = has_hpart t"
  by (simp_all add: store_node_def has_hpart_def)

lemma store_node_nth:
  "j < length (nodes t) \<Longrightarrow> tkey (store_node t i v) j = tkey t j"
  "j < length (nodes t) \<Longrightarrow> tnext (store_node t i v) j = tnext t j"
  "j < length (nodes t) \<Longrightarrow> tval (store_node t i v) j = (if j = i then v else tval t j)"
  by (cases "i = j"; simp add: store_node_def)+

lemma wf_hash_store_node:
  assumes wf: "wf_hash sid t" and h: "has_hpart t" and i: "i < length (nodes t)"
    and k: "\<not> is_nil (tkey t i)" and v: "proper_val v"
  shows "wf_hash sid (store_node t i v)"
proof (rule wf_hash_update[OF wf h])
  note w = wf_hashD[OF wf h]
  show "chain_inv (length (nodes t)) NIL_NODE (hash_slot sid t) is_nil
      (tkey (store_node t i v)) (tnext (store_node t i v))"
    by (rule chain_inv_cong[OF w(4)]) (simp_all add: store_node_nth)
  show "wf_node t (nodes (store_node t i v) ! j)" if "j < length (nodes t)" for j
    using w(5)[OF that] that k v unfolding wf_node_def
    by (auto simp: store_node_nth)
  show "\<not> is_nil (tkey (store_node t i v) j)" if "j < length (nodes t)" "freetop (store_node t i v) \<le> j" for j
    using w(3) that by (simp add: store_node_nth)
qed (use wf_hashD(2)[OF wf h] in simp_all)

lemma hcont_store_node:
  assumes wf: "wf_hash sid t" and h: "has_hpart t" and i: "i < length (nodes t)"
    and k: "\<not> is_nil (tkey t i)" and v: "proper_val v" and k': "\<not> is_nil k'"
  shows "hcont (store_node t i v) k' = (if k' = tkey t i then v else hcont t k')"
proof -
  note wf' = wf_hash_store_node[OF wf h i k v]
  let ?t = "store_node t i v"
  show ?thesis
  proof (cases "\<exists>j<length (nodes t). tkey t j = k'")
    case True
    then obtain j where j: "j < length (nodes t)" "tkey t j = k'" by blast
    have "hcont ?t k' = tval ?t j"
      using hcont_present[OF wf', of j k'] j k' by (simp add: store_node_nth)
    moreover have "hcont t k' = tval t j" using hcont_present[OF wf j k'] .
    moreover have "j = i \<longleftrightarrow> k' = tkey t i"
      using keys_uniqueD[OF wf h j(1) i] j(2) k' by auto
    ultimately show ?thesis using j(1) by (auto simp: store_node_nth)
  next
    case False
    then have "hcont ?t k' = NIL" "hcont t k' = NIL"
      by (auto intro!: hcont_absent simp: store_node_nth)
    moreover have "k' \<noteq> tkey t i" using False i by blast
    ultimately show ?thesis by simp
  qed
qed

section \<open>Placing a new key\<close>

text \<open>\<open>live t k v\<close>: some node holds the non-nil value \<open>v\<close> under key \<open>k\<close>.\<close>

definition live :: "ltable \<Rightarrow> lua_value \<Rightarrow> lua_value \<Rightarrow> bool" where
  "live t k v \<longleftrightarrow> \<not> is_nil v \<and> (\<exists>i<length (nodes t). tkey t i = k \<and> tval t i = v)"

lemma wf_node_nth:
  assumes "wf_hash sid t" "i < length (nodes t)"
  shows "wf_node t (nodes t ! i)"
  using assms by (auto simp: wf_hash_def split: if_splits)

lemma hcont_proper: "wf_hash sid t \<Longrightarrow> proper_val (hcont t k)"
proof -
  assume wf: "wf_hash sid t"
  show ?thesis
  proof (cases "find (\<lambda>nd. n_key nd = k) (nodes t)")
    case (Some nd)
    then obtain i where "i < length (nodes t)" "nd = nodes t ! i" by (auto simp: find_Some_iff)
    then show ?thesis using wf_node_nth[OF wf] Some by (auto simp: hcont_def wf_node_def)
  qed (simp add: hcont_def)
qed

lemma hcont_live: "wf_hash sid t \<Longrightarrow> \<not> is_nil k \<Longrightarrow> \<not> is_nil v \<Longrightarrow> hcont t k = v \<longleftrightarrow> live t k v"
proof -
  assume a: "wf_hash sid t" "\<not> is_nil k" "\<not> is_nil v"
  show ?thesis
  proof (cases "\<exists>i<length (nodes t). tkey t i = k")
    case True
    then obtain i where i: "i < length (nodes t)" "tkey t i = k" by blast
    have h: "has_hpart t" using a(1) i(1) by (auto simp: wf_hash_def has_hpart_def split: if_splits)
    have "j = i" if "j < length (nodes t)" "tkey t j = k" for j
      using keys_uniqueD[OF a(1) h that(1) i(1)] i(2) that(2) a(2) by simp
    then have "live t k v \<longleftrightarrow> tval t i = v" using i a(3) unfolding live_def by blast
    then show ?thesis using hcont_present[OF a(1) i a(2)] by simp
  next
    case False
    then have "hcont t k = NIL" by (intro hcont_absent) blast
    moreover have "\<not> live t k v" using False unfolding live_def by blast
    moreover have "NIL \<noteq> v" using a(3) by auto
    ultimately show ?thesis by simp
  qed
qed

lemma hcont_eq_by_live:
  assumes "wf_hash sid t" "wf_hash sid t'" "\<not> is_nil k" "\<And>v. live t k v \<longleftrightarrow> live t' k v"
  shows "hcont t k = hcont t' k"
proof (cases "is_nil (hcont t k)")
  case True
  then have "is_nil (hcont t' k)"
    using hcont_live[OF assms(1,3)] hcont_live[OF assms(2,3)] assms(4) by metis
  then show ?thesis
    using True hcont_proper[OF assms(1), of k] hcont_proper[OF assms(2), of k]
    by (simp add: proper_val_def)
next
  case False
  then show ?thesis
    using hcont_live[OF assms(1,3)] hcont_live[OF assms(2,3)] assms(4) by metis
qed

lemma used_card: "used t = card {i. i < length (nodes t) \<and> \<not> is_nil (tkey t i)}"
  by (simp add: used_def length_filter_conv_card)

lemma used_le_Suc:
  assumes "length (nodes t') = length (nodes t)"
    and "\<And>i. i < length (nodes t) \<Longrightarrow> i \<noteq> s \<Longrightarrow> \<not> is_nil (tkey t' i) \<Longrightarrow> \<not> is_nil (tkey t i)"
  shows "used t' \<le> Suc (used t)"
proof -
  have "{i. i < length (nodes t') \<and> \<not> is_nil (tkey t' i)} \<subseteq>
      insert s {i. i < length (nodes t) \<and> \<not> is_nil (tkey t i)}"
    using assms by auto
  then have "used t' \<le> card (insert s {i. i < length (nodes t) \<and> \<not> is_nil (tkey t i)})"
    unfolding used_card by (rule card_mono [rotated]) simp
  also have "\<dots> \<le> Suc (used t)" unfolding used_card by (rule card_insert_le_m1) simp_all
  finally show ?thesis .
qed

definition placed :: "sids \<Rightarrow> ltable \<Rightarrow> lua_value \<Rightarrow> nat \<Rightarrow> ltable \<Rightarrow> bool" where
  "placed sid t key s t' \<longleftrightarrow>
     hmask t' = hmask t \<and> asize t' = asize t \<and> arr t' = arr t \<and>
     length (nodes t') = length (nodes t) \<and> wf_hash sid t' \<and>
     s < length (nodes t) \<and> tkey t' s = key \<and> is_nil (tval t' s) \<and>
     (\<forall>k. \<not> is_nil k \<longrightarrow> k \<noteq> key \<longrightarrow> hcont t' k = hcont t k) \<and> used t' \<le> Suc (used t)"

lemma placed_main:
  assumes wf: "wf_hash sid t" and h: "has_hpart t" and key: "proper_key key" "in_array t key = None"
    and new: "\<forall>i<length (nodes t). tkey t i \<noteq> key"
    and n: "hash_slot sid t key = n" "is_nil (tval t n)"
  shows "placed sid t key n (t\<lparr>nodes := (nodes t)[n := (nodes t ! n)\<lparr>n_key := key\<rparr>]\<rparr>)"
proof -
  let ?N = "length (nodes t)" and ?t = "t\<lparr>nodes := (nodes t)[n := (nodes t ! n)\<lparr>n_key := key\<rparr>]\<rparr>"
  note w = wf_hashD[OF wf h]
  have nN: "n < ?N" using hash_slot_less[OF w(1)] n(1) by blast
  have kn: "\<not> is_nil key" using key(1) by (simp add: proper_key_def)
  have nth: "tkey ?t i = ((tkey t)(n := key)) i" "tnext ?t i = tnext t i" "tval ?t i = tval t i"
    if "i < ?N" for i using that by (cases "n = i"; simp)+
  have wf': "wf_hash sid ?t"
  proof (rule wf_hash_update[OF wf h])
    have "chain_inv ?N NIL_NODE (hash_slot sid t) is_nil ((tkey t)(n := key)) (tnext t)"
      by (rule chain_inv_main[OF w(4) nN n(1) kn new])
    then show "chain_inv ?N NIL_NODE (hash_slot sid t) is_nil (tkey ?t) (tnext ?t)"
      by (rule chain_inv_cong) (simp_all only: nth)
    show "wf_node t (nodes ?t ! i)" if "i < ?N" for i
      using w(5)[OF that] that key kn n(2) nN by (auto simp: wf_node_def nth_list_update)
    show "\<not> is_nil (tkey ?t i)" if "i < ?N" "freetop ?t \<le> i" for i
      using w(3) that kn by (simp only: nth) auto
  qed (use w(2) in simp_all)
  have "live ?t k v \<longleftrightarrow> live t k v" if "k \<noteq> key" for k v
  proof -
    have "tkey ?t i = k \<and> tval ?t i = v \<longleftrightarrow> tkey t i = k \<and> tval t i = v"
      if "i < ?N" "\<not> is_nil v" for i
      using that nth[OF that(1)] \<open>k \<noteq> key\<close> n(2) by (cases "i = n") auto
    then show ?thesis by (auto simp: live_def)
  qed
  then have "hcont ?t k = hcont t k" if "\<not> is_nil k" "k \<noteq> key" for k
    using hcont_eq_by_live[OF wf' wf that(1)] that(2) by blast
  moreover have "used ?t \<le> Suc (used t)"
    by (rule used_le_Suc[where s = n]) (auto simp: nth_list_update)
  ultimately show ?thesis using wf' nN n(2) by (simp add: placed_def)
qed

lemma free_node:
  assumes "wf_hash sid t" "has_hpart t" "f < length (nodes t)" "is_nil (tkey t f)"
  shows "tnext t f = NIL_NODE" "\<forall>j<length (nodes t). tnext t j \<noteq> f" "is_nil (tval t f)" "tval t f = NIL"
proof -
  show "tnext t f = NIL_NODE" "\<forall>j<length (nodes t). tnext t j \<noteq> f"
    using wf_hashD(4)[OF assms(1,2)] assms(3,4) by (auto simp: chain_inv_def links_ok_def)
  show "is_nil (tval t f)" "tval t f = NIL"
    using wf_hashD(5)[OF assms(1-3)] assms(4) by (auto simp: wf_node_def proper_val_def)
qed

end
