(* ===== verification/LJ_Table_Set.thy ===== *)
theory LJ_Table_Set
  imports LJ_Table_Inv
begin

unbundle bit_operations_syntax

text \<open>
  \<open>try_new_key\<close> with a free node, and \<open>set\<close> on a table that has room: the invariant is
  kept and the content is the old one updated at the key.
\<close>

section \<open>Linking and moving\<close>

lemma placedI:
  assumes wf: "wf_hash sid t" and h: "has_hpart t"
    and same: "hmask t' = hmask t" "asize t' = asize t" "arr t' = arr t"
      "length (nodes t') = length (nodes t)"
    and ft: "freetop t' \<le> length (nodes t)"
      "\<And>i. i < length (nodes t) \<Longrightarrow> freetop t' \<le> i \<Longrightarrow> \<not> is_nil (tkey t' i)"
    and ci: "chain_inv (length (nodes t)) NIL_NODE (hash_slot sid t) is_nil (tkey t') (tnext t')"
    and wn: "\<And>i. i < length (nodes t) \<Longrightarrow> wf_node t (nodes t' ! i)"
    and s: "s < length (nodes t)" "tkey t' s = key" "is_nil (tval t' s)"
    and lv: "\<And>k v. k \<noteq> key \<Longrightarrow> \<not> is_nil v \<Longrightarrow> live t' k v \<longleftrightarrow> live t k v"
    and us: "used t' \<le> Suc (used t)"
  shows "placed sid t key s t'"
proof -
  have wf': "wf_hash sid t'" by (rule wf_hash_update[OF wf h same(1,2,4) ft ci wn])
  have "hcont t' k = hcont t k" if "\<not> is_nil k" "k \<noteq> key" for k
    by (rule hcont_eq_by_live[OF wf' wf that(1)]) (use lv that(2) in \<open>auto simp: live_def\<close>)
  then show ?thesis using wf' same s us by (simp add: placed_def)
qed

definition linked :: "ltable \<Rightarrow> nat \<Rightarrow> nat \<Rightarrow> lua_value \<Rightarrow> node list" where
  "linked t n f key = (nodes t)[f := (nodes t ! f)\<lparr>n_next := tnext t n, n_key := key\<rparr>,
     n := (nodes t ! n)\<lparr>n_next := f\<rparr>]"

lemma link_node_eq:
  assumes "has_hpart t" "n < length (nodes t)" "f < length (nodes t)" "f \<noteq> n" "normalize_key key = key"
  shows "link_node t n f key = Inr (t\<lparr>nodes := linked t n f key\<rparr>)"
  using assms by (simp add: link_node_def linked_def node_slot_ok node_slot_mut_def
      list_update_swap [of f n])

lemma linked_nth:
  assumes "n < length (nodes t)" "f < length (nodes t)" "f \<noteq> n" "i < length (nodes t)"
  shows "n_key (linked t n f key ! i) = ((tkey t)(f := key)) i"
    "n_next (linked t n f key ! i) = ((tnext t)(f := tnext t n, n := f)) i"
    "n_val (linked t n f key ! i) = tval t i" "length (linked t n f key) = length (nodes t)"
  using assms by (cases "i = n"; cases "i = f"; simp add: linked_def)+

lemma placed_link:
  assumes wf: "wf_hash sid t" and h: "has_hpart t" and key: "proper_key key" "in_array t key = None"
    and new: "\<forall>i<length (nodes t). tkey t i \<noteq> key"
    and n: "hash_slot sid t key = n" "\<not> is_nil (tval t n)" "hash_slot sid t (tkey t n) = n"
    and f: "f < length (nodes t)" "is_nil (tkey t f)"
      "\<And>i. i < length (nodes t) \<Longrightarrow> f < i \<Longrightarrow> \<not> is_nil (tkey t i)"
  shows "placed sid t key f (t\<lparr>nomm := 0, freetop := f, nodes := linked t n f key\<rparr>)" (is "placed _ _ _ _ ?t")
proof -
  let ?N = "length (nodes t)"
  note w = wf_hashD[OF wf h] and fn = free_node[OF wf h f(1,2)]
  have nN: "n < ?N" using hash_slot_less[OF w(1)] n(1) by blast
  have kn: "\<not> is_nil key" using key(1) by (simp add: proper_key_def)
  have fk: "\<not> is_nil (tkey t n)" using w(5)[OF nN] n(2) by (simp add: wf_node_def)
  have nf: "f \<noteq> n" using f(2) fk by auto
  note nth = linked_nth[OF nN f(1) nf, of _ key]
  show ?thesis
  proof (rule placedI[OF wf h])
    have "chain_inv ?N NIL_NODE (hash_slot sid t) is_nil ((tkey t)(f := key)) ((tnext t)(f := tnext t n, n := f))"
      by (rule chain_inv_link[OF w(4) nN n(1) fk n(3) f(1,2) kn new])
    then show "chain_inv ?N NIL_NODE (hash_slot sid t) is_nil (tkey ?t) (tnext ?t)"
      by (rule chain_inv_cong) (simp_all add: nth del: fun_upd_apply)
    show "wf_node t (nodes ?t ! i)" if "i < ?N" for i
      using w(5)[OF that] key kn fn(3) nth[OF that] by (cases "i = f") (auto simp: wf_node_def)
    show "\<not> is_nil (tkey ?t i)" if "i < ?N" "freetop ?t \<le> i" for i
      using f(3)[OF that(1)] that kn nth[OF that(1)] by (cases "i = f") auto
    show "live ?t k v \<longleftrightarrow> live t k v" if "k \<noteq> key" "\<not> is_nil v" for k v
    proof -
      have "tkey ?t i = k \<and> tval ?t i = v \<longleftrightarrow> tkey t i = k \<and> tval t i = v" if "i < ?N" for i
        using that nth[OF that] \<open>k \<noteq> key\<close> \<open>\<not> is_nil v\<close> fn(3) by (cases "i = f") auto
      moreover have "length (nodes ?t) = ?N" using nth(4)[OF nN] by simp
      ultimately show ?thesis unfolding live_def by auto
    qed
    show "used ?t \<le> Suc (used t)"
      by (rule used_le_Suc[where s = f]) (use nth nN in \<open>auto simp del: fun_upd_apply, auto\<close>)
    show "tkey ?t f = key" "is_nil (tval ?t f)" using nth[OF f(1)] fn(3) by simp_all
  qed (use f(1) nth(4)[OF nN] in simp_all)
qed

lemma find_pred_correct:
  assumes h: "has_hpart t" and r: "ranked (length (nodes t)) (tnext t) r"
  shows "p < length (nodes t) \<Longrightarrow> p \<noteq> n \<Longrightarrow> reach (length (nodes t)) (tnext t) p n \<Longrightarrow>
    below (length (nodes t)) r p < fuel \<Longrightarrow>
    \<exists>q. find_pred fuel t p n = Inr q \<and> q < length (nodes t) \<and> tnext t q = n"
proof (induction fuel arbitrary: p)
  case (Suc fuel)
  let ?N = "length (nodes t)"
  have st: "tnext t p < ?N" "reach ?N (tnext t) (tnext t p) n"
    using reach_step[OF Suc.prems(3)] Suc.prems(2) by auto
  show ?case
  proof (cases "tnext t p = n")
    case True
    then show ?thesis using node_slot_ok[OF h Suc.prems(1)] Suc.prems by simp
  next
    case False
    have "below ?N r (tnext t p) < fuel" using below_next[OF r Suc.prems(1) st(1)] Suc.prems(4) by simp
    from Suc.IH[OF st(1) False st(2) this] show ?thesis
      using node_slot_ok[OF h Suc.prems(1)] False by simp
  qed
qed simp

definition moved :: "ltable \<Rightarrow> nat \<Rightarrow> nat \<Rightarrow> nat \<Rightarrow> lua_value \<Rightarrow> node list" where
  "moved t p n f key = (nodes t)[p := (nodes t ! p)\<lparr>n_next := f\<rparr>, f := nodes t ! n,
     n := (nodes t ! n)\<lparr>n_next := NIL_NODE, n_val := NIL, n_key := key\<rparr>]"

lemma moved_nth:
  assumes "n < length (nodes t)" "f < length (nodes t)" "p < length (nodes t)"
    "f \<noteq> n" "p \<noteq> n" "p \<noteq> f" "i < length (nodes t)"
  shows "n_key (moved t p n f key ! i) = ((tkey t)(f := tkey t n, n := key)) i"
    "n_next (moved t p n f key ! i) = ((tnext t)(p := f, f := tnext t n, n := NIL_NODE)) i"
    "n_val (moved t p n f key ! i) = ((tval t)(f := tval t n, n := NIL)) i"
    "length (moved t p n f key) = length (nodes t)"
  using assms by (cases "i = n"; cases "i = f"; cases "i = p"; simp add: moved_def)+

lemma move_node_eq:
  assumes ci: "chain_inv (length (nodes t)) NIL_NODE (hash_slot sid t) is_nil (tkey t) (tnext t)"
    and h: "has_hpart t" and n: "n < length (nodes t)" "\<not> is_nil (tkey t n)"
    and c: "hash_slot sid t (tkey t n) = c" "c \<noteq> n"
    and f: "f < length (nodes t)" "f \<noteq> n" "tnext t f = NIL_NODE" and k: "normalize_key key = key"
  shows "\<exists>p. move_node sid t c n f key = Inr (t\<lparr>nodes := moved t p n f key\<rparr>) \<and>
    p < length (nodes t) \<and> tnext t p = n \<and> p \<noteq> n \<and> p \<noteq> f"
proof -
  let ?N = "length (nodes t)"
  obtain r where r: "ranked ?N (tnext t) r" using ci by (auto simp: chain_inv_def)
  have re: "reach ?N (tnext t) c n" "c < ?N"
    using ci n c(1) by (auto simp: chain_inv_def homed_def)
  have "below ?N r c < Suc ?N" using below_le[OF re(2), of r] by simp
  from find_pred_correct[OF h r re(2) c(2) re(1) this] obtain p
    where p: "find_pred (Suc ?N) t c n = Inr p" "p < ?N" "tnext t p = n" by blast
  have "?N \<le> NIL_NODE" using ci by (simp add: chain_inv_def links_ok_def)
  then have pf: "p \<noteq> f" using p(3) f(3) n(1) by auto
  have pn: "p \<noteq> n" using r p n(1) by (auto simp: ranked_def)
  have "move_node sid t c n f key = Inr (t\<lparr>nodes := moved t p n f key\<rparr>)"
    using p n f pf pn k
    by (simp add: move_node_def moved_def node_slot_ok[OF h] node_slot_mut_def del: find_pred.simps)
  then show ?thesis using p pf pn by blast
qed

lemma wf_hash_nomm [simp]: "wf_hash sid (t\<lparr>nomm := x\<rparr>) = wf_hash sid t"
proof -
  have "in_array (t\<lparr>nomm := x\<rparr>) = in_array t" "hash_slot sid (t\<lparr>nomm := x\<rparr>) = hash_slot sid t"
    by (rule in_array_cong hash_slot_cong, simp)+
  then show ?thesis by (simp add: wf_hash_def hash_size_ok_def wf_node_def)
qed

lemma moved_swapped:
  assumes lk: "links_ok N NIL_NODE E K X" and "n < N" "f < N" "p < N" "X p = n" "p \<noteq> n" "p \<noteq> f" "f \<noteq> n"
    and iso: "X f = NIL_NODE" "\<forall>j<N. X j \<noteq> f" and nn: "X n \<noteq> n" and i: "i < N"
  shows "(X(p := f, f := X n, n := NIL_NODE)) i = swapped N n f X i"
proof -
  have le: "N \<le> NIL_NODE" using lk by (simp add: links_ok_def)
  have un: "\<And>j. j < N \<Longrightarrow> X j = n \<Longrightarrow> j = p" using lk assms(2,4,5) by (auto simp: links_ok_def)
  consider "i = n" | "i = f" | "i = p" | "i \<noteq> n" "i \<noteq> f" "i \<noteq> p" by blast
  then show ?thesis
  proof cases
    case 4
    then have "X i \<noteq> n" "X i \<noteq> f" using un[OF i] iso(2) i by auto
    then show ?thesis using 4 by (simp add: swapped_def)
  next
    case 2
    have "X n \<noteq> f" using iso(2) assms(2) by blast
    then show ?thesis using 2 assms nn by (simp add: swapped_def)
  qed (use assms le in \<open>simp_all add: swapped_def\<close>)
qed

lemma placed_move:
  assumes wf: "wf_hash sid t" and h: "has_hpart t" and key: "proper_key key" "in_array t key = None"
    and new: "\<forall>i<length (nodes t). tkey t i \<noteq> key"
    and n: "hash_slot sid t key = n" "\<not> is_nil (tval t n)" "hash_slot sid t (tkey t n) \<noteq> n"
    and f: "f < length (nodes t)" "is_nil (tkey t f)"
      "\<And>i. i < length (nodes t) \<Longrightarrow> f < i \<Longrightarrow> \<not> is_nil (tkey t i)"
    and p: "p < length (nodes t)" "tnext t p = n" "p \<noteq> n" "p \<noteq> f"
  shows "placed sid t key n (t\<lparr>nomm := 0, freetop := f, nodes := moved t p n f key\<rparr>)" (is "placed _ _ _ _ ?t")
proof -
  let ?N = "length (nodes t)"
  note w = wf_hashD[OF wf h] and fn = free_node[OF wf h f(1,2)]
  have nN: "n < ?N" using hash_slot_less[OF w(1)] n(1) by blast
  have kn: "\<not> is_nil key" using key(1) by (simp add: proper_key_def)
  have fk: "\<not> is_nil (tkey t n)" using w(5)[OF nN] n(2) by (simp add: wf_node_def)
  have nf: "f \<noteq> n" using f(2) fk by auto
  obtain r where "ranked ?N (tnext t) r" using w(4) by (auto simp: chain_inv_def)
  then have nn: "tnext t n \<noteq> n" using nN by (auto simp: ranked_def)
  have lk: "links_ok ?N NIL_NODE is_nil (tkey t) (tnext t)" using w(4) by (simp add: chain_inv_def)
  note nth = moved_nth[OF nN f(1) p(1) nf p(3,4), of _ key]
  show ?thesis
  proof (rule placedI[OF wf h])
    have "chain_inv ?N NIL_NODE (hash_slot sid t) is_nil ((tkey t)(f := tkey t n, n := key))
        (swapped ?N n f (tnext t))"
      by (rule chain_inv_move[OF w(4) nN n(1) fk n(3) f(1,2) kn new])
    then show "chain_inv ?N NIL_NODE (hash_slot sid t) is_nil (tkey ?t) (tnext ?t)"
      by (rule chain_inv_cong)
        (simp_all add: nth moved_swapped[OF lk nN f(1) p nf fn(1,2) nn] del: fun_upd_apply)
    show "wf_node t (nodes ?t ! i)" if "i < ?N" for i
      using w(5)[OF that] w(5)[OF nN] key kn nth[OF that]
      by (cases "i = n"; cases "i = f") (auto simp: wf_node_def)
    show "\<not> is_nil (tkey ?t i)" if "i < ?N" "freetop ?t \<le> i" for i
      using f(3)[OF that(1)] that kn fk nth[OF that(1)] by (cases "i = n"; cases "i = f") auto
    show "live ?t k v \<longleftrightarrow> live t k v" if "k \<noteq> key" "\<not> is_nil v" for k v
    proof -
      have "tkey ?t i = k \<and> tval ?t i = v \<longleftrightarrow> tkey t (swp n f i) = k \<and> tval t (swp n f i) = v"
        if "i < ?N" for i
        using nth[OF that] \<open>k \<noteq> key\<close> \<open>\<not> is_nil v\<close> fn(3) nf
        by (cases "i = n"; cases "i = f") auto
      moreover have "length (nodes ?t) = ?N" using nth(4)[OF nN] by simp
      moreover have "swp n f (swp n f i) = i" "swp n f i < ?N \<longleftrightarrow> i < ?N" for i
        using swp_less[OF nN f(1)] by simp_all
      ultimately show ?thesis unfolding live_def by metis
    qed
    show "used ?t \<le> Suc (used t)"
    proof (rule used_le_Suc[where s = f])
      show "\<not> is_nil (tkey t i)" if "i < ?N" "i \<noteq> f" "\<not> is_nil (tkey ?t i)" for i
        using nth[OF that(1)] that fk by (cases "i = n") auto
    qed (use nth(4)[OF nN] in simp)
    show "tkey ?t n = key" "is_nil (tval ?t n)" using nth[OF nN] by simp_all
  qed (use f(1) nN nth(4)[OF nN] in simp_all)
qed

section \<open>Finding a free node\<close>

lemma scan_free_correct:
  "has_hpart t \<Longrightarrow> m \<le> length (nodes t) \<Longrightarrow>
   \<exists>x. scan_free t m = Inr x \<and>
     (case x of None \<Rightarrow> \<forall>i<m. \<not> is_nil (tkey t i)
      | Some f \<Rightarrow> f < m \<and> is_nil (tkey t f) \<and> (\<forall>i<m. f < i \<longrightarrow> \<not> is_nil (tkey t i)))"
proof (induction m)
  case (Suc m)
  then have slot: "node_slot t m = Inr (nodes t ! m)" by (simp add: node_slot_ok)
  show ?case
  proof (cases "is_nil (tkey t m)")
    case True
    then show ?thesis using slot by simp
  next
    case False
    obtain x where x: "scan_free t m = Inr x"
      "case x of None \<Rightarrow> \<forall>i<m. \<not> is_nil (tkey t i)
        | Some f \<Rightarrow> f < m \<and> is_nil (tkey t f) \<and> (\<forall>i<m. f < i \<longrightarrow> \<not> is_nil (tkey t i))"
      using Suc by auto
    have "scan_free t (Suc m) = Inr x" using slot False x(1) by simp
    moreover have "case x of None \<Rightarrow> \<forall>i<Suc m. \<not> is_nil (tkey t i)
        | Some f \<Rightarrow> f < Suc m \<and> is_nil (tkey t f) \<and> (\<forall>i<Suc m. f < i \<longrightarrow> \<not> is_nil (tkey t i))"
      using x(2) False by (cases x) (auto simp: less_Suc_eq)
    ultimately show ?thesis by blast
  qed
qed simp

lemma used_less_ex: "used t < length (nodes t) \<Longrightarrow> \<exists>i<length (nodes t). is_nil (tkey t i)"
proof (rule ccontr)
  assume "used t < length (nodes t)" "\<not> (\<exists>i<length (nodes t). is_nil (tkey t i))"
  then have "{i. i < length (nodes t) \<and> \<not> is_nil (tkey t i)} = {..<length (nodes t)}" by auto
  then show False using \<open>used t < length (nodes t)\<close> by (simp add: used_card)
qed

lemma try_new_key_free:
  assumes wf: "wf_hash sid t" and h: "has_hpart t" and key: "proper_key key" "in_array t key = None"
    and new: "\<forall>i<length (nodes t). tkey t i \<noteq> key" and val: "\<not> is_nil (tval t (hash_slot sid t key))"
    and x: "scan_free (t\<lparr>nomm := 0\<rparr>) (freetop t) = Inr (Some f)"
    and f: "f < freetop t \<and> is_nil (tkey t f) \<and> (\<forall>i<freetop t. f < i \<longrightarrow> \<not> is_nil (tkey t i))"
  shows "\<exists>s t'. try_new_key R sid t key = Inr (Some s, t') \<and> placed sid t key s t'"
proof -
  let ?N = "length (nodes t)" and ?n = "hash_slot sid t key"
  note w = wf_hashD[OF wf h]
  have nN: "?n < ?N" by (rule hash_slot_less[OF w(1)])
  have nk: "normalize_key key = key" using key(1) by (simp add: proper_key_def)
  have hp: "has_hpart (t\<lparr>nomm := 0\<rparr>)" "has_hpart (t\<lparr>nomm := 0, freetop := x\<rparr>)" for x
    using h by (simp_all add: has_hpart_def)
  have hs: "hash_slot sid (t\<lparr>nomm := 0\<rparr>) k = hash_slot sid t k"
    "hash_slot sid (t\<lparr>nomm := 0, freetop := x\<rparr>) k = hash_slot sid t k" for k x
    by (simp_all add: hash_slot_def)
  have fnil: "is_nil (tkey t f)" and fab: "\<forall>i<freetop t. f < i \<longrightarrow> \<not> is_nil (tkey t i)"
    using f by auto
  have fN: "f < ?N" using f [THEN conjunct1] w(2) by simp
  have fa: "\<not> is_nil (tkey t i)" if "i < ?N" "f < i" for i
    using fab w(3)[OF that(1)] that(2) by (cases "i < freetop t") auto
  let ?c = "hash_slot sid t (tkey t ?n)" and ?t1 = "t\<lparr>nomm := 0, freetop := f\<rparr>"
  have step: "try_new_key R sid t key =
     (if ?c \<noteq> ?n then rbind (move_node sid ?t1 ?c ?n f key) (\<lambda>t'. Inr (Some ?n, t'))
      else rbind (link_node ?t1 ?n f key) (\<lambda>t'. Inr (Some f, t')))"
    using val nN x by (simp add: try_new_key_def Let_def hp hs node_slot_ok)
  have fk: "\<not> is_nil (tkey t ?n)" using w(5)[OF nN] val by (simp add: wf_node_def)
  have nf: "f \<noteq> ?n" using fnil fk by auto
  show ?thesis
  proof (cases "?c = ?n")
    case True
    have "link_node ?t1 ?n f key = Inr (?t1\<lparr>nodes := linked ?t1 ?n f key\<rparr>)"
      by (rule link_node_eq) (use hp nN fN nf nk in simp_all)
    moreover have "linked ?t1 ?n f key = linked t ?n f key" by (simp add: linked_def)
    ultimately show ?thesis
      using placed_link[OF wf h key new refl val True fN fnil fa] step True by auto
  next
    case c: False
    note fn = free_node[OF wf h fN fnil]
    have "chain_inv ?N NIL_NODE (hash_slot sid ?t1) is_nil (tkey t) (tnext t)"
      using w(4) by (simp add: hs(2) [abs_def])
    then obtain p where p: "move_node sid ?t1 ?c ?n f key = Inr (?t1\<lparr>nodes := moved ?t1 p ?n f key\<rparr>)"
      "p < ?N" "tnext t p = ?n" "p \<noteq> ?n" "p \<noteq> f"
      using move_node_eq[of ?t1 sid ?n ?c f key] hp(2) nN fk c fN nf fn(1) nk hs(2) by auto
    moreover have "moved ?t1 p ?n f key = moved t p ?n f key" by (simp add: moved_def)
    ultimately show ?thesis
      using placed_move[OF wf h key new refl val c fN fnil fa p(2-)] step c by auto
  qed
qed

text \<open>\<open>try_new_key\<close> places the key or, when every node has a key, rehashes.\<close>

lemma try_new_key_cases:
  assumes wf: "wf_hash sid t" and h: "has_hpart t" and key: "proper_key key" "in_array t key = None"
    and new: "\<forall>i<length (nodes t). tkey t i \<noteq> key"
  shows "(\<exists>s t'. try_new_key R sid t key = Inr (Some s, t') \<and> placed sid t key s t') \<or>
    \<not> used t < length (nodes t) \<and>
    try_new_key R sid t key = rbind (R (t\<lparr>nomm := 0\<rparr>) key) (\<lambda>t'. Inr (None, t'))"
proof -
  let ?N = "length (nodes t)" and ?n = "hash_slot sid t key"
  note w = wf_hashD[OF wf h]
  have nN: "?n < ?N" by (rule hash_slot_less[OF w(1)])
  have nk: "normalize_key key = key" using key(1) by (simp add: proper_key_def)
  have hp: "has_hpart (t\<lparr>nomm := 0\<rparr>)" "has_hpart (t\<lparr>nomm := 0, freetop := x\<rparr>)" for x
    using h by (simp_all add: has_hpart_def)
  have hs: "hash_slot sid (t\<lparr>nomm := 0\<rparr>) k = hash_slot sid t k"
    "hash_slot sid (t\<lparr>nomm := 0, freetop := x\<rparr>) k = hash_slot sid t k" for k x
    by (simp_all add: hash_slot_def)
  show ?thesis
  proof (cases "is_nil (tval t ?n)")
    case True
    let ?t = "t\<lparr>nodes := (nodes t)[?n := (nodes t ! ?n)\<lparr>n_key := key\<rparr>]\<rparr>"
    have "placed sid t key ?n ?t" by (rule placed_main[OF wf h key new refl True])
    then have "placed sid t key ?n (?t\<lparr>nomm := 0\<rparr>)"
      unfolding placed_def wf_hash_nomm using True nN by (simp add: hcont_def used_def)
    moreover have "try_new_key R sid t key = Inr (Some ?n, ?t\<lparr>nomm := 0\<rparr>)"
      using True nN nk by (simp add: try_new_key_def Let_def hp hs node_slot_ok node_slot_mut_def)
    ultimately show ?thesis by blast
  next
    case False
    obtain x where x: "scan_free (t\<lparr>nomm := 0\<rparr>) (freetop t) = Inr x"
      "case x of None \<Rightarrow> \<forall>i<freetop t. \<not> is_nil (tkey t i)
        | Some f \<Rightarrow> f < freetop t \<and> is_nil (tkey t f) \<and> (\<forall>i<freetop t. f < i \<longrightarrow> \<not> is_nil (tkey t i))"
      using scan_free_correct[OF hp(1), of "freetop t"] w(2) by (auto split: option.splits)
    show ?thesis
    proof (cases x)
      case None
      with x(2) have "\<not> is_nil (tkey t i)" if "i < ?N" for i
        using w(3)[OF that] by (cases "i < freetop t") auto
      then have "\<not> used t < ?N" using used_less_ex[of t] by blast
      moreover have "try_new_key R sid t key = rbind (R (t\<lparr>nomm := 0\<rparr>) key) (\<lambda>t'. Inr (None, t'))"
        using False nN x(1) None by (simp add: try_new_key_def Let_def hp hs node_slot_ok)
      ultimately show ?thesis by blast
    next
      case (Some f)
      then show ?thesis using try_new_key_free[OF wf h key new False] x by simp
    qed
  qed
qed

section \<open>Setting a key when there is room\<close>

definition stored :: "sids \<Rightarrow> ltable \<Rightarrow> lua_value \<Rightarrow> lua_value \<Rightarrow> ltable \<Rightarrow> bool" where
  "stored sid t key v t' \<longleftrightarrow>
     wf_tab sid t' \<and> asize t' = asize t \<and> hmask t' = hmask t \<and> length (nodes t') = length (nodes t) \<and>
     used t' \<le> used t + (if in_array t key = None then 1 else 0) \<and>
     (\<forall>k. proper_key k \<longrightarrow> cont t' k = (if k = key then v else cont t k))"

definition room_for :: "ltable \<Rightarrow> lua_value \<Rightarrow> bool" where
  "room_for t key \<longleftrightarrow> in_array t key \<noteq> None \<or>
     has_hpart t \<and> ((\<exists>i<length (nodes t). tkey t i = key) \<or> used t < length (nodes t))"

lemma wf_tab_has_arr: "wf_tab sid t \<Longrightarrow> in_array t key = Some i \<Longrightarrow> i < length (arr t)"
  by (auto simp: wf_tab_def wf_array_def in_array_def split: option.splits if_splits)

lemma wf_hash_arr [simp]: "wf_hash sid (t\<lparr>arr := a\<rparr>) = wf_hash sid t"
proof -
  have "in_array (t\<lparr>arr := a\<rparr>) = in_array t" "hash_slot sid (t\<lparr>arr := a\<rparr>) = hash_slot sid t"
    by (rule in_array_cong hash_slot_cong, simp)+
  then show ?thesis by (simp add: wf_hash_def hash_size_ok_def wf_node_def)
qed

lemma in_array_inj:
  "in_array t k = Some i \<Longrightarrow> in_array t k' = Some i \<Longrightarrow> proper_key k \<Longrightarrow> proper_key k' \<Longrightarrow> k = k'"
  using array_key_inj [of k i] array_key_inj [of k' i]
  by (auto simp: in_array_def split: option.splits if_splits)

lemma array_store_stored:
  assumes wf: "wf_tab sid t" and i: "in_array t key = Some i" and key: "proper_key key" and v: "proper_val v"
  shows "\<exists>t'. array_store t i v = Inr t' \<and> stored sid t key v t'"
proof -
  let ?t = "t\<lparr>arr := (arr t)[i := v]\<rparr>"
  have il: "i < length (arr t)" using wf_tab_has_arr[OF wf i] .
  have ia: "in_array ?t = in_array t" by (rule in_array_cong) simp
  have "wf_array ?t"
    using wf v set_update_subset_insert [of "arr t" i v] by (auto simp: wf_tab_def wf_array_def)
  then have "wf_tab sid ?t" using wf by (simp add: wf_tab_def)
  moreover have "cont ?t k = (if k = key then v else cont t k)" if k: "proper_key k" for k
  proof (cases "in_array t k")
    case None
    then show ?thesis using i ia by (auto simp: cont_def hcont_def)
  next
    case (Some j)
    then show ?thesis using in_array_inj[OF i _ key k] i il ia by (cases "i = j") (auto simp: cont_def)
  qed
  ultimately have "stored sid t key v ?t" by (simp add: stored_def used_def)
  then show ?thesis using il by (simp add: array_store_def)
qed

text \<open>Writing the value into the node that holds the key.\<close>

lemma store_node_stored:
  assumes wf: "wf_hash sid t" and wa: "wf_array t" and h: "has_hpart t"
    and i: "i < length (nodes t)" "tkey t i = key"
    and key: "proper_key key" "in_array t key = None" and v: "proper_val v"
  shows "stored sid t key v (store_node t i v)" "used (store_node t i v) = used t"
proof -
  let ?t = "store_node t i v"
  have kn: "\<not> is_nil (tkey t i)" using key(1) i(2) by (simp add: proper_key_def)
  have ia: "in_array ?t = in_array t" by (rule in_array_cong) simp
  have "wf_array ?t" using wa by (simp add: wf_array_def)
  then have "wf_tab sid ?t" using wf_hash_store_node[OF wf h i(1) kn v] by (simp add: wf_tab_def)
  moreover have "cont ?t k = (if k = key then v else cont t k)" if k: "proper_key k" for k
  proof -
    have "hcont ?t k = (if k = key then v else hcont t k)"
      using hcont_store_node[OF wf h i(1) kn v, of k] k i(2) by (simp add: proper_key_def)
    then show ?thesis using ia key(2) by (auto simp: cont_def split: option.split)
  qed
  moreover show us: "used ?t = used t"
  proof -
    have "{j. j < length (nodes ?t) \<and> \<not> is_nil (tkey ?t j)} = {j. j < length (nodes t) \<and> \<not> is_nil (tkey t j)}"
      by (auto simp: store_node_nth)
    then show ?thesis by (simp add: used_card)
  qed
  ultimately show "stored sid t key v ?t" by (simp add: stored_def)
qed

lemma placed_stored:
  assumes p: "placed sid t key s t'" and wa: "wf_array t" and h: "has_hpart t"
    and key: "proper_key key" "in_array t key = None" and v: "proper_val v"
  shows "stored sid t key v (store_node t' s v)"
proof -
  have same: "hmask t' = hmask t" "asize t' = asize t" "arr t' = arr t" "length (nodes t') = length (nodes t)"
    and wf': "wf_hash sid t'" and s: "s < length (nodes t')" "tkey t' s = key"
    and hc: "\<And>k. \<not> is_nil k \<Longrightarrow> k \<noteq> key \<Longrightarrow> hcont t' k = hcont t k" and us: "used t' \<le> Suc (used t)"
    using p by (auto simp: placed_def)
  have ia: "in_array t' = in_array t" by (rule in_array_cong[OF same(2)])
  have "wf_array t'" using wa same by (simp add: wf_array_def)
  moreover have "has_hpart t'" using h same by (simp add: has_hpart_def)
  ultimately have st: "stored sid t' key v (store_node t' s v)" "used (store_node t' s v) = used t'"
    using store_node_stored[OF wf' _ _ s key(1) _ v] ia key(2) by simp_all
  have "cont t' k = cont t k" if "proper_key k" "k \<noteq> key" for k
    using hc[of k] that same(3) ia by (simp add: cont_def proper_key_def split: option.split)
  then show ?thesis using st us same ia key(2) by (auto simp: stored_def)
qed

lemma set_loop_room:
  assumes wf: "wf_tab sid t" and key: "proper_key key" and v: "proper_val v" and room: "room_for t key"
  shows "\<exists>t'. set_loop (Suc fuel) sid t key v = Inr t' \<and> stored sid t key v t'"
proof (cases "in_array t key")
  case (Some i)
  then show ?thesis using array_store_stored[OF wf Some key v] by simp
next
  case None
  then have h: "has_hpart t"
    and r: "(\<exists>i<length (nodes t). tkey t i = key) \<or> used t < length (nodes t)"
    using room by (auto simp: room_for_def)
  have wa: "wf_array t" and wh: "wf_hash sid t" using wf by (auto simp: wf_tab_def)
  have kn: "\<not> is_nil key" using key by (simp add: proper_key_def)
  obtain x where x: "find_node sid t key = Inr x"
    "case x of Some i \<Rightarrow> i < length (nodes t) \<and> tkey t i = key
     | None \<Rightarrow> \<forall>i<length (nodes t). tkey t i \<noteq> key"
    using find_node_correct[OF wh h kn] by blast
  show ?thesis
  proof (cases x)
    case (Some i)
    then show ?thesis using x None h store_node_stored(1)[OF wh wa h _ _ key None v, of i]
      by (simp add: node_slot_mut_val)
  next
    case n: None
    then have new: "\<forall>i<length (nodes t). tkey t i \<noteq> key" using x by simp
    with r have "used t < length (nodes t)" by blast
    with try_new_key_cases[OF wh h key None new] obtain s t' where
      st: "try_new_key (rehash (\<lambda>t k v. set_loop fuel sid (nomm_reset k t) k v)) sid t key = Inr (Some s, t')"
        "placed sid t key s t'" by blast
    then have "s < length (nodes t')" by (simp add: placed_def)
    then have "set_loop (Suc fuel) sid t key v = Inr (store_node t' s v)"
      using st(1) x(1) n None h by (simp add: node_slot_mut_val)
    then show ?thesis using placed_stored[OF st(2) wa h key None v] by blast
  qed
qed

end
