(* ===== verification/LJ_Table_Resize.thy ===== *)
theory LJ_Table_Resize
  imports LJ_Table_Set
begin

text \<open>
  \<open>resize\<close>: moving every live entry into an array of another size and a fresh hash part
  keeps the content, provided the entries outside the new array fit the new hash part.
\<close>

section \<open>Reinsertion\<close>

text \<open>What \<open>resize\<close> asks of the setter it is given.\<close>

definition setter_ok :: "sids \<Rightarrow> setter \<Rightarrow> bool" where
  "setter_ok sid S \<longleftrightarrow>
     (\<forall>t k v. wf_tab sid t \<longrightarrow> proper_key k \<longrightarrow> proper_val v \<longrightarrow> room_for t k \<longrightarrow>
        (\<exists>t'. S t k v = Inr t' \<and> stored sid t k v t'))"

lemma nomm_frame:
  "wf_tab sid (t\<lparr>nomm := x\<rparr>) = wf_tab sid t" "cont (t\<lparr>nomm := x\<rparr>) = cont t"
  "in_array (t\<lparr>nomm := x\<rparr>) = in_array t" "used (t\<lparr>nomm := x\<rparr>) = used t"
  "has_hpart (t\<lparr>nomm := x\<rparr>) = has_hpart t" "room_for (t\<lparr>nomm := x\<rparr>) = room_for t"
proof -
  show ia: "in_array (t\<lparr>nomm := x\<rparr>) = in_array t" by (rule in_array_cong) simp
  show "wf_tab sid (t\<lparr>nomm := x\<rparr>) = wf_tab sid t" by (simp add: wf_tab_def wf_array_def)
  show "cont (t\<lparr>nomm := x\<rparr>) = cont t"
    by (rule ext) (simp add: cont_def ia hcont_def split: option.split)
  show "used (t\<lparr>nomm := x\<rparr>) = used t" "has_hpart (t\<lparr>nomm := x\<rparr>) = has_hpart t"
    by (simp_all add: used_def has_hpart_def)
  then show "room_for (t\<lparr>nomm := x\<rparr>) = room_for t"
    by (intro ext) (simp add: room_for_def ia)
qed

lemma stored_nomm: "stored sid (t\<lparr>nomm := x\<rparr>) = stored sid t"
  by (intro ext) (simp add: stored_def nomm_frame)

lemma set_loop_setter_ok: "setter_ok sid (\<lambda>t k v. set_loop (Suc fuel) sid (nomm_reset k t) k v)"
proof -
  have "\<exists>t'. set_loop (Suc fuel) sid (nomm_reset k t) k v = Inr t' \<and> stored sid t k v t'"
    if "wf_tab sid t" "proper_key k" "proper_val v" "room_for t k" for t k v
  proof (cases "is_string k")
    case True
    then show ?thesis
      using set_loop_room[of sid "t\<lparr>nomm := 0\<rparr>" k v fuel] that
      by (simp add: nomm_reset_def nomm_frame stored_nomm del: set_loop.simps)
  next
    case False
    then show ?thesis using set_loop_room[OF that] by (simp add: nomm_reset_def del: set_loop.simps)
  qed
  then show ?thesis unfolding setter_ok_def by blast
qed

abbreviation outside :: "ltable \<Rightarrow> (lua_value \<times> lua_value) list \<Rightarrow> nat" where
  "outside t kvs \<equiv> length (filter (\<lambda>kv. in_array t (fst kv) = None) kvs)"

lemma outside_cong: "asize t' = asize t \<Longrightarrow> outside t' kvs = outside t kvs"
  using in_array_cong by metis

definition entry_ok :: "lua_value \<times> lua_value \<Rightarrow> bool" where
  "entry_ok kv \<longleftrightarrow> proper_key (fst kv) \<and> proper_val (snd kv) \<and> \<not> is_nil (snd kv)"

lemma reinsert_append:
  "reinsert S t (xs @ ys) = rbind (reinsert S t xs) (\<lambda>t'. reinsert S t' ys)"
proof (induction xs arbitrary: t)
  case (Cons a xs)
  then show ?case by (cases "S t (fst a) (snd a)") simp_all
qed simp

lemma reinsert_ok:
  assumes S: "setter_ok sid S"
  shows "wf_tab sid t \<Longrightarrow> \<forall>kv\<in>set kvs. entry_ok kv \<Longrightarrow> distinct (map fst kvs) \<Longrightarrow>
    used t + outside t kvs \<le> length (nodes t) \<Longrightarrow>
    \<exists>t'. reinsert S t kvs = Inr t' \<and> wf_tab sid t' \<and> asize t' = asize t \<and> hmask t' = hmask t \<and>
      length (nodes t') = length (nodes t) \<and> used t' \<le> used t + outside t kvs \<and>
      (\<forall>k. proper_key k \<longrightarrow> cont t' k = (case map_of kvs k of Some v \<Rightarrow> v | None \<Rightarrow> cont t k))"
proof (induction kvs arbitrary: t)
  case (Cons kv kvs)
  obtain k v where kv: "kv = (k, v)" by (cases kv)
  have k: "proper_key k" "proper_val v" using Cons.prems(2) kv by (auto simp: entry_ok_def)
  have "room_for t k"
  proof (cases "in_array t k")
    case None
    then have "used t < length (nodes t)" using Cons.prems(4) kv by simp
    moreover from this have "has_hpart t"
      using Cons.prems(1) by (auto simp: wf_tab_def wf_hash_def has_hpart_def split: if_splits)
    ultimately show ?thesis by (simp add: room_for_def)
  qed (simp add: room_for_def)
  then obtain t1 where t1: "S t k v = Inr t1" "stored sid t k v t1"
    using S Cons.prems(1) k unfolding setter_ok_def by blast
  have st: "wf_tab sid t1" "asize t1 = asize t" "hmask t1 = hmask t" "length (nodes t1) = length (nodes t)"
    "used t1 \<le> used t + (if in_array t k = None then 1 else 0)"
    "\<And>k'. proper_key k' \<Longrightarrow> cont t1 k' = (if k' = k then v else cont t k')"
    using t1(2) by (auto simp: stored_def)
  have out: "outside t1 kvs = outside t kvs" using outside_cong[OF st(2)] .
  have "used t1 + outside t1 kvs \<le> length (nodes t1)"
    using Cons.prems(4) st(4,5) out kv by (auto split: if_splits)
  with Cons.IH[OF st(1)] Cons.prems(2,3) obtain t2 where t2: "reinsert S t1 kvs = Inr t2" "wf_tab sid t2"
    "asize t2 = asize t1" "hmask t2 = hmask t1" "length (nodes t2) = length (nodes t1)"
    "used t2 \<le> used t1 + outside t1 kvs"
    "\<And>k'. proper_key k' \<Longrightarrow> cont t2 k' = (case map_of kvs k' of Some v \<Rightarrow> v | None \<Rightarrow> cont t1 k')"
    by auto
  have "map_of kvs k = None" using Cons.prems(3) kv by (auto simp: map_of_eq_None_iff)
  then have "cont t2 k' = (case map_of (kv # kvs) k' of Some v \<Rightarrow> v | None \<Rightarrow> cont t k')"
    if "proper_key k'" for k'
    using t2(7)[OF that] st(6)[OF that] kv by (auto split: option.split)
  moreover have "reinsert S t (kv # kvs) = Inr t2" using t1(1) t2(1) kv by simp
  moreover have "used t2 \<le> used t + outside t (kv # kvs)"
    using t2(6) st(5) out kv by (auto split: if_splits)
  ultimately show ?case using t2 st by auto
qed simp

section \<open>The entries of a table\<close>

definition hash_entries :: "ltable \<Rightarrow> (lua_value \<times> lua_value) list" where
  "hash_entries t = map (\<lambda>nd. (n_key nd, n_val nd)) (filter (\<lambda>nd. \<not> is_nil (n_val nd)) (nodes t))"

definition arr_entries :: "ltable \<Rightarrow> nat \<Rightarrow> nat \<Rightarrow> (lua_value \<times> lua_value) list" where
  "arr_entries t lo hi =
     map (\<lambda>i. (number (nat_to_f64 i), arr t ! i)) (filter (\<lambda>i. \<not> is_nil (arr t ! i)) [lo..<hi])"

lemma hash_entries_iff:
  "(k, v) \<in> set (hash_entries t) \<longleftrightarrow> live t k v"
  unfolding live_def hash_entries_def by (auto simp: in_set_conv_nth image_iff)

lemma live_key:
  assumes wf: "wf_tab sid t" and l: "live t k v"
  shows "proper_key k" "proper_val v" "\<not> is_nil v" "in_array t k = None"
proof -
  obtain i where i: "i < length (nodes t)" "tkey t i = k" "tval t i = v" and v: "\<not> is_nil v"
    using l unfolding live_def by blast
  have "wf_node t (nodes t ! i)" using wf_node_nth[OF _ i(1)] wf by (auto simp: wf_tab_def)
  then show "proper_key k" "proper_val v" "\<not> is_nil v" "in_array t k = None"
    using i v by (auto simp: wf_node_def)
qed

lemma distinct_keys_nodes:
  assumes "wf_hash sid t"
  shows "distinct (map fst (hash_entries t))"
proof -
  let ?P = "\<lambda>nd. \<not> is_nil (n_val nd)"
  have "distinct (map n_key (filter ?P (nodes t)))"
  proof (rule distinct_map_filterI)
    fix i j assume ij: "i < length (nodes t)" "j < length (nodes t)" "i \<noteq> j" "?P (nodes t ! i)" "?P (nodes t ! j)"
    have h: "has_hpart t" using assms ij(1) by (auto simp: wf_hash_def has_hpart_def split: if_splits)
    have "\<not> is_nil (tkey t i)" using wf_node_nth[OF assms ij(1)] ij(4) by (simp add: wf_node_def)
    then show "tkey t i \<noteq> tkey t j" using keys_uniqueD[OF assms h ij(1,2)] ij(3) by blast
  qed
  then show ?thesis by (simp add: hash_entries_def comp_def)
qed

lemma number_nat_inj: "i < LJ_MAX_ASIZE \<Longrightarrow> j < LJ_MAX_ASIZE \<Longrightarrow>
   number (nat_to_f64 i) = number (nat_to_f64 j) \<longleftrightarrow> i = j"
  by (metis array_key_nat(1) option.inject)

lemma array_key_eq_iff:
  assumes "proper_key k"
  shows "array_key k = Some i \<longleftrightarrow> i < LJ_MAX_ASIZE \<and> k = number (nat_to_f64 i)"
proof
  assume a: "array_key k = Some i"
  then show "i < LJ_MAX_ASIZE \<and> k = number (nat_to_f64 i)"
    using array_key_inj[OF a assms] array_key_bound[OF a] by (simp add: int_to_f64_def)
qed (use array_key_nat(1) in blast)

lemma arr_entries_iff:
  assumes "hi \<le> LJ_MAX_ASIZE"
  shows "(k, v) \<in> set (arr_entries t lo hi) \<longleftrightarrow>
    (\<exists>i. lo \<le> i \<and> i < hi \<and> k = number (nat_to_f64 i) \<and> v = arr t ! i \<and> \<not> is_nil v)"
  by (auto simp: arr_entries_def image_iff)

lemma arr_entries_distinct: "hi \<le> LJ_MAX_ASIZE \<Longrightarrow> distinct (map fst (arr_entries t lo hi))"
  by (auto simp: arr_entries_def comp_def distinct_map inj_on_def number_nat_inj)

lemma hcont_all_nil: "\<forall>nd\<in>set (nodes t). n_val nd = NIL \<Longrightarrow> hcont t k = NIL"
  by (auto simp: hcont_def split: option.split dest!: find_Some_iff [THEN iffD1] nth_mem)

lemma arr_hash_disjoint:
  assumes wf: "wf_tab sid t" and k: "k \<in> fst ` set (arr_entries t lo (asize t))"
  shows "k \<notin> fst ` set (hash_entries t)"
proof
  have amax: "asize t \<le> LJ_MAX_ASIZE" using wf by (simp add: wf_tab_def wf_array_def)
  assume "k \<in> fst ` set (hash_entries t)"
  then obtain v where "live t k v" using hash_entries_iff by force
  then have n: "in_array t k = None" by (rule live_key[OF wf])
  from k obtain w where "(k, w) \<in> set (arr_entries t lo (asize t))" by force
  then obtain i where "i < asize t" "k = number (nat_to_f64 i)"
    unfolding arr_entries_iff[OF amax] by blast
  then show False using n array_key_nat(1)[of i] amax by (simp add: in_array_def)
qed

section \<open>The table before reinsertion\<close>

definition hash_cap :: "nat \<Rightarrow> nat" where
  "hash_cap hb = (if hb = 0 then 0 else 2 ^ hb)"

definition base :: "ltable \<Rightarrow> nat \<Rightarrow> nat \<Rightarrow> ltable" where
  "base t asz hb = t\<lparr>arr := take asz (arr t) @ replicate (asz - length (arr t)) NIL,
     nodes := replicate (hash_cap hb) EMPTY_NODE, asize := asz, hmask := hash_cap hb - 1,
     freetop := (if hb = 0 then if hmask t = 0 then freetop t else 0 else 2 ^ hb)\<rparr>"

lemma resize_reinsert:
  assumes wf: "wf_tab sid t" and b: "asz \<le> LJ_MAX_ASIZE" "hb \<le> LJ_MAX_HBITS"
  shows "resize S t asz hb = reinsert S (base t asz hb) (arr_entries t asz (asize t) @ hash_entries t)"
proof -
  have len: "length (arr t) = asize t" and hash: "hmask t = 0 \<Longrightarrow> hash_entries t = []"
    using wf by (auto simp: wf_tab_def wf_array_def wf_hash_def hash_entries_def)
  let ?t2 = "if asize t < asz then base t asz hb else (base t asz hb)\<lparr>arr := arr t, asize := asize t\<rparr>"
  let ?t1 = "if asize t < asz
      then t\<lparr>nodes := [], arr := take asz (arr t) @ replicate (asz - length (arr t)) NIL, asize := asz\<rparr>
      else t\<lparr>nodes := []\<rparr>"
  have t2: "(if hb \<noteq> 0 then new_hpart ?t1 hb
      else if hmask t \<noteq> 0 then Inr (?t1\<lparr>hmask := 0, freetop := 0\<rparr>) else Inr ?t1) = Inr ?t2"
    using b(2) by (auto simp: new_hpart_def base_def hash_cap_def Let_def)
  have ent: "map (\<lambda>i. (number (nat_to_f64 i), arr t ! i)) (filter (\<lambda>i. \<not> is_nil (arr t ! i)) [asz..<asize t])
      = arr_entries t asz (asize t)" by (simp add: arr_entries_def)
  have tail: "(if 0 < hmask t then reinsert S t3
      (map (\<lambda>nd. (n_key nd, n_val nd)) (filter (\<lambda>nd. \<not> is_nil (n_val nd)) (nodes t))) else Inr t3)
      = reinsert S t3 (hash_entries t)" for t3
    using hash by (auto simp: hash_entries_def)
  show ?thesis
  proof (cases "asz < asize t")
    case True
    then have "?t2\<lparr>asize := asz, arr := take asz (arr ?t2)\<rparr> = base t asz hb" "arr ?t2 = arr t"
      using len by (auto simp: base_def)
    then show ?thesis using True b(1) t2 len ent
      by (auto simp: resize_def Let_def reinsert_append tail)
  next
    case False
    then have "arr_entries t asz (asize t) = []" "?t2 = base t asz hb"
      using len by (auto simp: arr_entries_def base_def)
    then show ?thesis using False b(1) t2
      by (auto simp: resize_def Let_def tail)
  qed
qed

lemma base_wf:
  assumes wf: "wf_tab sid t" and b: "asz \<le> LJ_MAX_ASIZE" "hb \<le> LJ_MAX_HBITS"
  shows "wf_tab sid (base t asz hb)" "used (base t asz hb) = 0"
    "length (nodes (base t asz hb)) = hash_cap hb"
proof -
  let ?t = "base t asz hb"
  show len: "length (nodes ?t) = hash_cap hb" by (simp add: base_def)
  have nd: "nodes ?t ! i = EMPTY_NODE" if "i < hash_cap hb" for i using that by (simp add: base_def)
  have "wf_array ?t"
    using wf b(1) by (auto simp: wf_tab_def wf_array_def base_def dest: in_set_takeD)
  moreover have "wf_hash sid ?t"
  proof (cases "hb = 0")
    case False
    have p: "(2::nat) ^ 1 \<le> 2 ^ hb" "(2::nat) ^ hb \<le> 2 ^ 26"
      using False b(2) by (intro power_increasing; simp add: LJ_MAX_HBITS_def)+
    have "hash_size_ok ?t"
      unfolding hash_size_ok_def using False b(2) by (intro exI [of _ hb]) (simp add: base_def hash_cap_def)
    moreover have "chain_inv (hash_cap hb) NIL_NODE (hash_slot sid ?t) is_nil (tkey ?t) (tnext ?t)"
      by (rule chain_inv_empty)
        (use p False in \<open>auto simp: nd EMPTY_NODE_def NIL_NODE_def hash_cap_def\<close>)
    moreover have "wf_node ?t EMPTY_NODE" by (simp add: wf_node_def EMPTY_NODE_def)
    moreover have "hmask ?t \<noteq> 0" "freetop ?t = hash_cap hb"
      using p False by (auto simp: base_def hash_cap_def)
    ultimately show ?thesis using len nd by (simp add: wf_hash_def)
  qed (simp add: wf_hash_def base_def hash_cap_def)
  ultimately show "wf_tab sid ?t" by (simp add: wf_tab_def)
  show "used ?t = 0" by (simp add: used_def base_def EMPTY_NODE_def)
qed

lemma base_cont:
  assumes "wf_tab sid t"
  shows "cont (base t asz hb) k =
    (case array_key k of Some i \<Rightarrow> if i < asz \<and> i < asize t then arr t ! i else NIL | None \<Rightarrow> NIL)"
proof -
  have "hcont (base t asz hb) k = NIL" by (rule hcont_all_nil) (simp add: base_def EMPTY_NODE_def)
  moreover have "length (arr t) = asize t" using assms by (simp add: wf_tab_def wf_array_def)
  moreover have "asize (base t asz hb) = asz"
    "arr (base t asz hb) = take asz (arr t) @ replicate (asz - length (arr t)) NIL"
    by (simp_all add: base_def)
  ultimately show ?thesis by (auto simp: cont_def in_array_def nth_append split: option.split)
qed

section \<open>Resizing keeps the content\<close>

lemma in_array_base: "in_array (base t asz hb) k =
    (case array_key k of Some i \<Rightarrow> if i < asz then Some i else None | None \<Rightarrow> None)"
  by (simp add: in_array_def base_def split: option.split)

lemma map_of_hash_entries:
  assumes wf: "wf_hash sid t" and k: "\<not> is_nil k"
  shows "map_of (hash_entries t) k = (if is_nil (hcont t k) then None else Some (hcont t k))"
proof -
  have d: "distinct (map fst (hash_entries t))" by (rule distinct_keys_nodes[OF wf])
  have iff: "map_of (hash_entries t) k = Some v \<longleftrightarrow> \<not> is_nil v \<and> hcont t k = v" for v
  proof (cases "is_nil v")
    case True
    then have "\<not> live t k v" by (simp add: live_def)
    then show ?thesis using True map_of_eq_Some_iff[OF d, of k v] hash_entries_iff[of k v t] by simp
  next
    case False
    then show ?thesis
      using hcont_live[OF wf k False] map_of_eq_Some_iff[OF d, of k v] hash_entries_iff[of k v t] by simp
  qed
  show ?thesis
  proof (cases "map_of (hash_entries t) k")
    case None
    then show ?thesis using iff[of "hcont t k"] by simp
  next
    case (Some v)
    then show ?thesis using iff[of v] by simp
  qed
qed

lemma map_of_arr_entries:
  assumes hi: "hi \<le> LJ_MAX_ASIZE" and k: "proper_key k"
  shows "map_of (arr_entries t lo hi) k =
    (case array_key k of None \<Rightarrow> None
     | Some i \<Rightarrow> if lo \<le> i \<and> i < hi \<and> \<not> is_nil (arr t ! i) then Some (arr t ! i) else None)"
proof -
  have d: "distinct (map fst (arr_entries t lo hi))" by (rule arr_entries_distinct[OF hi])
  have iff: "map_of (arr_entries t lo hi) k = Some v \<longleftrightarrow>
      (\<exists>i. array_key k = Some i \<and> lo \<le> i \<and> i < hi \<and> \<not> is_nil (arr t ! i) \<and> v = arr t ! i)" for v
    unfolding map_of_eq_Some_iff[OF d] arr_entries_iff[OF hi] array_key_eq_iff[OF k]
    by (rule ex_cong1) (use hi in auto)
  show ?thesis
  proof (cases "map_of (arr_entries t lo hi) k")
    case None
    then show ?thesis using iff by (auto split: option.split)
  next
    case (Some v)
    then show ?thesis using iff[of v] by auto
  qed
qed

text \<open>The entries of \<open>t\<close> that an array part of size \<open>asz\<close> does not hold.\<close>

definition overflow :: "ltable \<Rightarrow> nat \<Rightarrow> nat" where
  "overflow t asz = length (filter (\<lambda>kv. case array_key (fst kv) of Some i \<Rightarrow> asz \<le> i | None \<Rightarrow> True)
     (arr_entries t asz (asize t) @ hash_entries t))"

lemma resize_content:
  assumes wf: "wf_tab sid t" and k: "proper_key k" and amax: "asize t \<le> LJ_MAX_ASIZE"
  shows "(case map_of (arr_entries t asz (asize t) @ hash_entries t) k of Some v \<Rightarrow> v
    | None \<Rightarrow> cont (base t asz hb) k) = cont t k"
proof -
  have wh: "wf_hash sid t" and wa: "wf_array t" using wf by (auto simp: wf_tab_def)
  have kn: "\<not> is_nil k" using k by (simp add: proper_key_def)
  note hm = map_of_hash_entries[OF wh kn] and am = map_of_arr_entries[OF amax k, of t asz]
  show ?thesis
  proof (cases "in_array t k")
    case (Some i)
    then have ik: "array_key k = Some i" "i < asize t"
      by (auto simp: in_array_def split: option.splits if_splits)
    have "is_nil (hcont t k)"
    proof (rule ccontr)
      assume "\<not> is_nil (hcont t k)"
      then have "live t k (hcont t k)" using hcont_live[OF wh kn] by blast
      then show False using live_key(4)[OF wf] Some by simp
    qed
    moreover have "is_nil (arr t ! i) \<longrightarrow> arr t ! i = NIL"
      using wa ik(2) nth_mem[of i "arr t"] by (auto simp: wf_array_def proper_val_def)
    ultimately show ?thesis
      using hm am ik base_cont[OF wf, of asz hb k] Some
      by (auto simp: map_add_def cont_def)
  next
    case None
    then have "map_of (arr_entries t asz (asize t)) k = None"
      using am by (auto simp: in_array_def split: option.splits if_splits)
    moreover have "cont (base t asz hb) k = NIL"
      using base_cont[OF wf, of asz hb k] None by (auto simp: in_array_def split: option.splits if_splits)
    moreover have "is_nil (hcont t k) \<longrightarrow> hcont t k = NIL"
      using hcont_proper[OF wh] by (simp add: proper_val_def)
    ultimately show ?thesis using hm None by (auto simp: map_add_def cont_def)
  qed
qed

lemma resize_ok:
  assumes S: "setter_ok sid S" and wf: "wf_tab sid t"
    and b: "asz \<le> LJ_MAX_ASIZE" "hb \<le> LJ_MAX_HBITS" and fit: "overflow t asz \<le> hash_cap hb"
  shows "\<exists>t'. resize S t asz hb = Inr t' \<and> wf_tab sid t' \<and> asize t' = asz \<and> hmask t' = hash_cap hb - 1 \<and>
    length (nodes t') = hash_cap hb \<and> used t' \<le> overflow t asz \<and>
    (\<forall>k. proper_key k \<longrightarrow> cont t' k = cont t k)"
proof -
  let ?b = "base t asz hb" and ?kvs = "arr_entries t asz (asize t) @ hash_entries t"
  have amax: "asize t \<le> LJ_MAX_ASIZE" and wh: "wf_hash sid t" and wa: "wf_array t"
    using wf by (auto simp: wf_tab_def wf_array_def)
  note bw = base_wf[OF wf b]
  have out: "outside ?b ?kvs = overflow t asz"
    unfolding overflow_def by (rule arg_cong [where f = length], rule filter_cong)
      (auto simp: in_array_base not_less split: option.split)
  have ok: "\<forall>kv\<in>set ?kvs. entry_ok kv"
  proof
    fix kv assume "kv \<in> set ?kvs"
    then consider "(fst kv, snd kv) \<in> set (arr_entries t asz (asize t))" | "live t (fst kv) (snd kv)"
      using hash_entries_iff[of "fst kv" "snd kv" t] by auto
    then show "entry_ok kv"
    proof cases
      case 1
      then obtain i where i: "i < asize t" "fst kv = number (nat_to_f64 i)" "snd kv = arr t ! i" "\<not> is_nil (snd kv)"
        unfolding arr_entries_iff[OF amax] by blast
      moreover have "proper_val (arr t ! i)" using wa i(1) by (auto simp: wf_array_def)
      ultimately show ?thesis using array_key_nat(2)[of i] amax by (simp add: entry_ok_def)
    next
      case 2
      then show ?thesis using live_key[OF wf 2] by (simp add: entry_ok_def)
    qed
  qed
  have dis: "distinct (map fst ?kvs)"
  proof -
    have "k \<notin> fst ` set (hash_entries t)" if "k \<in> fst ` set (arr_entries t asz (asize t))" for k
      by (rule arr_hash_disjoint[OF wf that])
    then show ?thesis using arr_entries_distinct[OF amax] distinct_keys_nodes[OF wh] by auto
  qed
  obtain t' where t': "reinsert S ?b ?kvs = Inr t'" "wf_tab sid t'" "asize t' = asize ?b" "hmask t' = hmask ?b"
    "length (nodes t') = length (nodes ?b)" "used t' \<le> used ?b + outside ?b ?kvs"
    "\<And>k. proper_key k \<Longrightarrow> cont t' k = (case map_of ?kvs k of Some v \<Rightarrow> v | None \<Rightarrow> cont ?b k)"
    using reinsert_ok[OF S bw(1) ok dis] fit bw(2,3) out by auto
  have "cont t' k = cont t k" if k: "proper_key k" for k
    unfolding t'(7)[OF k] by (rule resize_content[OF wf k amax])
  then show ?thesis
    using t' bw out resize_reinsert[OF wf b, of S] by (auto simp: base_def)
qed

end
