(* ===== verification/LJ_Table_Rehash.thy ===== *)
theory LJ_Table_Rehash
  imports LJ_Table_Resize
begin

unbundle bit_operations_syntax

text \<open>
  \<open>rehash\<close>: the histogram of integer keys, the choice of the array size, and the proof that
  the new table holds every old entry and has room for the key that forced the rehash. With
  it, \<open>set\<close> is total and correct on every table of fewer than \<open>2 ^ LJ_MAX_HBITS\<close> entries.
\<close>

section \<open>Logarithms\<close>

lemma floor_log2_unique: "2 ^ p \<le> n \<Longrightarrow> n < 2 ^ Suc p \<Longrightarrow> floor_log2 n = p"
proof -
  assume n: "2 ^ p \<le> n" "n < 2 ^ Suc p"
  have "0 < n" using n(1) by (metis gr0I not_le zero_less_numeral zero_less_power)
  note b = floor_log2_bounds[OF this]
  have "(2::nat) ^ p < 2 ^ Suc (floor_log2 n)" "(2::nat) ^ floor_log2 n < 2 ^ Suc p"
    using n b by linarith+
  then have "p < Suc (floor_log2 n)" "floor_log2 n < Suc p"
    by (simp_all only: power_strict_increasing_iff)
  then show ?thesis by simp
qed

lemma leading_zeros32_nat:
  assumes "0 < n" "n < 2 ^ 32"
  shows "leading_zeros32 (word_of_nat n) = 31 - floor_log2 n"
proof -
  let ?p = "floor_log2 n" and ?w = "word_of_nat n :: u32"
  note b = floor_log2_bounds[OF assms(1)]
  have "(2::nat) ^ ?p < 2 ^ 32" using b assms(2) by (meson le_less_trans)
  then have p: "?p < 32" by (simp only: power_strict_increasing_iff)
  have wb: "bit ?w i \<longleftrightarrow> bit n i" if "i < 32" for i using that by (simp add: bit_simps)
  have hi: "\<not> bit n i" if "?p < i" for i
  proof -
    have "(2::nat) ^ Suc ?p \<le> 2 ^ i" using that by (intro power_increasing) auto
    then have "n < 2 ^ i" using b by linarith
    then show ?thesis by (simp add: bit_iff_odd)
  qed
  have "n div 2 ^ ?p = 1" using b by (intro div_nat_eqI) simp_all
  then have at: "bit n ?p" by (simp add: bit_iff_odd)
  have "[0..<32] = [0..<?p] @ ?p # [Suc ?p..<32]" by (rule upt_split_at[OF p])
  then have "rev (map (bit ?w) [0..<32]) = rev (map (bit ?w) [Suc ?p..<32]) @ True # rev (map (bit ?w) [0..<?p])"
    using at wb[OF p] by simp
  moreover have "\<forall>x\<in>set (rev (map (bit ?w) [Suc ?p..<32])). \<not> x" using wb hi by auto
  ultimately have "takeWhile Not (rev (map (bit ?w) [0..<32])) = rev (map (bit ?w) [Suc ?p..<32])"
    by (subst \<open>rev (map (bit ?w) [0..<32]) = _\<close>, subst takeWhile_append2) auto
  then show ?thesis by (simp add: leading_zeros32_def)
qed

lemma fls_log2: "0 < n \<Longrightarrow> n < 2 ^ 32 \<Longrightarrow> fls n = floor_log2 n"
proof -
  assume n: "0 < n" "n < 2 ^ 32"
  have "(2::nat) ^ floor_log2 n < 2 ^ 32" using floor_log2_bounds[OF n(1)] n(2) by (meson le_less_trans)
  then have "floor_log2 n < 32" by (simp only: power_strict_increasing_iff)
  then show ?thesis by (simp add: fls_def leading_zeros32_nat[OF n])
qed

lemma hsize2hbits_log2: "1 < s \<Longrightarrow> s \<le> 2 ^ 32 \<Longrightarrow> hsize2hbits s = Suc (floor_log2 (s - 1))"
  using fls_log2[of "s - 1"] by (simp add: hsize2hbits_def fls_def)

lemma hsize2hbits_cap: "s \<le> 2 ^ 32 \<Longrightarrow> s \<le> hash_cap (hsize2hbits s)"
proof -
  assume s: "s \<le> 2 ^ 32"
  consider "s = 0" | "s = 1" | "1 < s" by linarith
  then show ?thesis
  proof cases
    case 3
    have "s - 1 < 2 ^ Suc (floor_log2 (s - 1))" using floor_log2_bounds[of "s - 1"] 3 by simp
    then show ?thesis using hsize2hbits_log2[OF 3 s] by (simp add: hash_cap_def)
  qed (simp_all add: hsize2hbits_def hash_cap_def)
qed

lemma hsize2hbits_le: "1 \<le> h \<Longrightarrow> h \<le> 32 \<Longrightarrow> s \<le> 2 ^ h \<Longrightarrow> hsize2hbits s \<le> h"
proof -
  assume h: "1 \<le> h" "h \<le> 32" "s \<le> 2 ^ h"
  consider "s = 0" | "s = 1" | "1 < s" by linarith
  then show ?thesis
  proof cases
    case 3
    have "(2::nat) ^ h \<le> 2 ^ 32" using h(2) by (intro power_increasing) auto
    then have s: "s \<le> 2 ^ 32" using h(3) by linarith
    have "2 ^ floor_log2 (s - 1) \<le> s - 1" using floor_log2_bounds[of "s - 1"] 3 by simp
    also have "\<dots> < 2 ^ h" using h(3) 3 by simp
    finally have "floor_log2 (s - 1) < h" by (simp only: power_strict_increasing_iff)
    then show ?thesis using hsize2hbits_log2[OF 3 s] by simp
  qed (use h in \<open>simp_all add: hsize2hbits_def\<close>)
qed

lemma hsize2hbits_pos: "0 < s \<Longrightarrow> 0 < hsize2hbits s"
  by (simp add: hsize2hbits_def)

text \<open>\<open>int_bin k \<le> b\<close> says that \<open>k\<close> is at most \<open>2 ^ (b + 1)\<close>.\<close>

lemma int_bin_le:
  assumes "k \<le> 2 ^ 32"
  shows "int_bin k \<le> b \<longleftrightarrow> k \<le> 2 ^ Suc b"
proof (cases "2 < k")
  case True
  then have f: "int_bin k = floor_log2 (k - 1)" using fls_log2[of "k - 1"] assms by (simp add: int_bin_def)
  note lb = floor_log2_bounds[of "k - 1"]
  show ?thesis
  proof
    assume "int_bin k \<le> b"
    then have "(2::nat) ^ Suc (floor_log2 (k - 1)) \<le> 2 ^ Suc b" using f by (intro power_increasing) auto
    then show "k \<le> 2 ^ Suc b" using lb True by linarith
  next
    assume "k \<le> 2 ^ Suc b"
    then have "2 ^ floor_log2 (k - 1) < (2::nat) ^ Suc b" using lb True by linarith
    then have "floor_log2 (k - 1) < Suc b" by (simp only: power_strict_increasing_iff)
    then show "int_bin k \<le> b" using f by simp
  qed
next
  case False
  have "(2::nat) \<le> 2 ^ Suc b" by simp
  then have "k \<le> 2 ^ Suc b" using False by linarith
  then show ?thesis using False by (simp add: int_bin_def)
qed

section \<open>The histogram\<close>

definition hist :: "nat list \<Rightarrow> nat list" where
  "hist ks = map (\<lambda>b. length (filter (\<lambda>k. int_bin k = b) ks)) [0..<LJ_MAX_ABITS]"

lemma hist_Nil: "hist [] = replicate LJ_MAX_ABITS 0"
  by (simp add: hist_def map_replicate_const)

lemma hist_length [simp]: "length (hist ks) = LJ_MAX_ABITS"
  by (simp add: hist_def)

lemma hist_nth: "b < LJ_MAX_ABITS \<Longrightarrow> hist ks ! b = length (filter (\<lambda>k. int_bin k = b) ks)"
  by (simp add: hist_def)

lemma bump_hist:
  assumes "\<forall>k\<in>set ks'. int_bin k = b" "b < LJ_MAX_ABITS"
  shows "bump (hist ks) b (length ks') = hist (ks @ ks')"
proof (rule nth_equalityI)
  fix i assume "i < length (bump (hist ks) b (length ks'))"
  then have i: "i < LJ_MAX_ABITS" by (simp add: bump_def)
  show "bump (hist ks) b (length ks') ! i = hist (ks @ ks') ! i"
  proof (cases "i = b")
    case True
    have "filter (\<lambda>k. int_bin k = b) ks' = ks'" using assms(1) by (simp add: filter_id_conv)
    then show ?thesis using True i by (simp add: bump_def hist_nth)
  next
    case False
    have "filter (\<lambda>k. int_bin k = i) ks' = []" using assms(1) False by (auto simp: filter_empty_conv)
    then show ?thesis using False i by (simp add: bump_def hist_nth)
  qed
qed (simp add: bump_def)

lemma LJ_MAX_ASIZE_val: "LJ_MAX_ASIZE = 2 ^ 27 + 1" "LJ_MAX_ABITS = 28"
  by (simp_all add: LJ_MAX_ASIZE_def LJ_MAX_ABITS_def)

lemma int_bin_bound: "k < LJ_MAX_ASIZE \<Longrightarrow> int_bin k \<le> 26"
  by (subst int_bin_le) (simp_all add: LJ_MAX_ASIZE_val)

lemma bump_hist_int: "k < LJ_MAX_ASIZE \<Longrightarrow> bump (hist ks) (int_bin k) 1 = hist (ks @ [k])"
  using bump_hist[of "[k]" "int_bin k" ks] int_bin_bound[of k] by (simp add: LJ_MAX_ASIZE_val)

abbreviation live_slots :: "ltable \<Rightarrow> nat \<Rightarrow> nat \<Rightarrow> nat list" where
  "live_slots t lo hi \<equiv> filter (\<lambda>j. \<not> is_nil (arr t ! j)) [lo..<hi]"

definition bin_start :: "ltable \<Rightarrow> nat \<Rightarrow> nat" where
  "bin_start t b = (if b = 0 then 0 else min (2 ^ b + 1) (asize t))"

lemma int_bin_slot:
  assumes "b < 28" "bin_start t b \<le> j" "j < asize t" "j \<le> 2 ^ Suc b"
  shows "int_bin j = b"
proof -
  have "(2::nat) ^ Suc b \<le> 2 ^ 28" using assms(1) by (intro power_increasing) auto
  then have j: "j \<le> 2 ^ 32" using assms(4) by simp
  have "int_bin j \<le> b" using int_bin_le[OF j] assms(4) by simp
  moreover have "b \<le> int_bin j"
  proof (cases b)
    case (Suc c)
    then have "2 ^ Suc c < j" using assms(2,3) by (simp add: bin_start_def min_def split: if_splits)
    then have "\<not> int_bin j \<le> c" using int_bin_le[OF j, of c] by simp
    then show ?thesis using Suc by simp
  qed simp
  ultimately show ?thesis by simp
qed

lemma count_array_loop_hist:
  assumes a: "0 < asize t" "asize t \<le> LJ_MAX_ASIZE"
  shows "b \<le> 28 \<Longrightarrow> i = bin_start t b \<Longrightarrow>
    count_array_loop t [b..<28] i (hist (live_slots t 0 i)) (length (live_slots t 0 i)) =
      (hist (live_slots t 0 (asize t)), length (live_slots t 0 (asize t)))"
proof (induction "28 - b" arbitrary: b i)
  case 0
  then have "i = asize t" using a(2) by (simp add: bin_start_def LJ_MAX_ASIZE_val)
  then show ?case using 0 by simp
next
  case (Suc n)
  then have b: "b < 28" by simp
  define hi where "hi = (if asize t \<le> 2 * 2 ^ b then asize t else 2 * 2 ^ b + 1)"
  have hi: "hi = bin_start t (Suc b)" by (auto simp: hi_def bin_start_def)
  have i: "i = bin_start t b" by (rule Suc.prems)
  have le: "i \<le> hi"
    unfolding hi i bin_start_def using a(1) by (auto simp: min_def)
  have bins: "int_bin j = b" if "i \<le> j" "j < hi" for j
    by (rule int_bin_slot[OF b, of t]) (use that i in \<open>auto simp: hi_def split: if_splits\<close>)
  have sp: "live_slots t 0 hi = live_slots t 0 i @ live_slots t i hi"
    using le by (metis filter_append le0 le_add_diff_inverse upt_add_eq_append)
  have bh: "bump (hist (live_slots t 0 i)) b (length (live_slots t i hi)) = hist (live_slots t 0 hi)"
    unfolding sp by (rule bump_hist) (use bins b in \<open>auto simp: LJ_MAX_ASIZE_val\<close>)
  have IH: "count_array_loop t [Suc b..<28] hi (hist (live_slots t 0 hi)) (length (live_slots t 0 hi)) =
      (hist (live_slots t 0 (asize t)), length (live_slots t 0 (asize t)))"
    by (rule Suc.hyps(1)) (use Suc.hyps(2) hi in auto)
  have lst: "[b..<28] = b # [Suc b..<28]" using b by (rule upt_conv_Cons)
  show ?case
  proof (cases "asize t \<le> 2 * 2 ^ b \<and> asize t \<le> i")
    case True
    then have "i = asize t" using le by (simp add: hi_def)
    then show ?thesis using True a(1) unfolding lst by simp
  next
    case False
    have top: "Suc (if asize t \<le> 2 * 2 ^ b then asize t - 1 else 2 * 2 ^ b) = hi"
      using a(1) by (simp add: hi_def)
    have "count_array_loop t (b # [Suc b..<28]) i (hist (live_slots t 0 i)) (length (live_slots t 0 i)) =
       count_array_loop t [Suc b..<28] (max i hi) (bump (hist (live_slots t 0 i)) b (length (live_slots t i hi)))
         (length (live_slots t 0 i) + length (live_slots t i hi))"
      using False a(1) top by (auto simp: Let_def)
    then show ?thesis using IH bh le sp unfolding lst by (simp add: max_def)
  qed
qed

lemma count_array_hist:
  assumes "asize t \<le> LJ_MAX_ASIZE"
  shows "count_array t (replicate LJ_MAX_ABITS 0) =
    (hist (live_slots t 0 (asize t)), length (live_slots t 0 (asize t)))"
proof (cases "asize t = 0")
  case True
  then show ?thesis by (simp add: count_array_def hist_Nil)
next
  case False
  then show ?thesis
    using count_array_loop_hist[OF _ assms, of 0 0]
    by (simp add: count_array_def hist_Nil bin_start_def LJ_MAX_ASIZE_val)
qed

text \<open>The integer keys of the live entries of the hash part.\<close>

definition int_keys :: "(lua_value \<times> lua_value) list \<Rightarrow> nat list" where
  "int_keys kvs = List.map_filter (\<lambda>kv. array_key (fst kv)) kvs"

lemma int_keys_simps [simp]:
  "int_keys [] = []"
  "int_keys (kv # kvs) = (case array_key (fst kv) of Some i \<Rightarrow> i # int_keys kvs | None \<Rightarrow> int_keys kvs)"
  by (simp_all add: int_keys_def map_filter_simps split: option.split)

lemma int_keys_bound: "k \<in> set (int_keys kvs) \<Longrightarrow> k < LJ_MAX_ASIZE"
  by (induction kvs) (auto split: option.splits dest: array_key_bound)

lemma count_hash_loop_hist:
  "count_hash_loop nds (hist ks) na tot =
    (let kvs = map (\<lambda>nd. (n_key nd, n_val nd)) (filter (\<lambda>nd. \<not> is_nil (n_val nd)) nds)
     in (hist (ks @ int_keys kvs), na + length (int_keys kvs), tot + length kvs))"
proof (induction nds arbitrary: ks na tot)
  case (Cons nd nds)
  show ?case
  proof (cases "is_nil (n_val nd) \<or> array_key (n_key nd) = None")
    case True
    then show ?thesis using Cons.IH by (auto simp: count_int_def Let_def)
  next
    case False
    then obtain k where "array_key (n_key nd) = Some k" by auto
    then show ?thesis
      using False Cons.IH[of "ks @ [k]"] bump_hist_int[OF array_key_bound, of "n_key nd" k ks]
      by (simp add: count_int_def Let_def)
  qed
qed simp

lemma count_hash_hist:
  assumes "wf_hash sid t"
  shows "count_hash t (hist ks) na =
    (hist (ks @ int_keys (hash_entries t)), na + length (int_keys (hash_entries t)), length (hash_entries t))"
  using assms count_hash_loop_hist[of "nodes t" ks 0 0]
  by (auto simp: count_hash_def has_hpart_def wf_hash_def hash_entries_def Let_def)

section \<open>Choosing the array size\<close>

definition count_below :: "nat list \<Rightarrow> nat \<Rightarrow> nat" where
  "count_below ks m = length (filter (\<lambda>k. k < m) ks)"

lemma length_filter_Suc_bin:
  "length (filter (\<lambda>k. int_bin k < b) ks) + length (filter (\<lambda>k. int_bin k = b) ks) =
   length (filter (\<lambda>k. int_bin k < Suc b) ks)"
  by (induction ks) auto

lemma count_below_bin:
  assumes "\<forall>k\<in>set ks. k < LJ_MAX_ASIZE"
  shows "length (filter (\<lambda>k. int_bin k < Suc b) ks) = count_below ks (2 * 2 ^ b + 1)"
  unfolding count_below_def
proof (rule arg_cong [where f = length], rule filter_cong)
  fix k assume "k \<in> set ks"
  then have "k \<le> 2 ^ 32" using assms by (auto simp: LJ_MAX_ASIZE_val)
  from int_bin_le[OF this, of b] show "int_bin k < Suc b \<longleftrightarrow> k < 2 * 2 ^ b + 1" by (simp add: less_Suc_eq_le)
qed simp

definition good_size :: "nat list \<Rightarrow> nat \<Rightarrow> nat \<Rightarrow> bool" where
  "good_size ks sz na \<longleftrightarrow> na = count_below ks sz \<and> sz \<le> LJ_MAX_ASIZE \<and> (sz = 0 \<or> sz - 1 < 4 * na)"

lemma best_asize_loop_correct:
  assumes ks: "\<forall>k\<in>set ks. k < LJ_MAX_ASIZE"
  shows "b \<le> 28 \<Longrightarrow> good_size ks sz na \<Longrightarrow>
    \<exists>sz' na'. best_asize_loop (length ks) (drop b (hist ks)) b
      (length (filter (\<lambda>k. int_bin k < b) ks)) na sz = Inr (sz', na') \<and> good_size ks sz' na'"
proof (induction "28 - b" arbitrary: b na sz)
  case 0
  then have "filter (\<lambda>k. int_bin k < b) ks = ks"
    using ks int_bin_bound by (fastforce simp: filter_id_conv)
  then show ?case using 0 by (simp add: LJ_MAX_ASIZE_val)
next
  case (Suc n)
  then have b: "b < 28" by simp
  let ?acc = "length (filter (\<lambda>k. int_bin k < b) ks)"
    and ?acc' = "length (filter (\<lambda>k. int_bin k < Suc b) ks)"
  have dr: "drop b (hist ks) = hist ks ! b # drop (Suc b) (hist ks)"
    using b by (simp add: Cons_nth_drop_Suc LJ_MAX_ASIZE_val)
  have x: "hist ks ! b = length (filter (\<lambda>k. int_bin k = b) ks)" using b by (simp add: hist_nth LJ_MAX_ASIZE_val)
  have acc': "?acc + hist ks ! b = ?acc'" unfolding x by (rule length_filter_Suc_bin)
  have IH: "\<exists>sz' na'. best_asize_loop (length ks) (drop (Suc b) (hist ks)) (Suc b) ?acc' na sz =
      Inr (sz', na') \<and> good_size ks sz' na'" if "good_size ks sz na" for sz na
    by (rule Suc.hyps(1)[OF _ _ that]) (use Suc.hyps(2) b in auto)
  have good: "good_size ks (2 * 2 ^ b + 1) ?acc'" if dense: "2 ^ b < 2 * ?acc'" and pos: "0 < hist ks ! b"
  proof -
    obtain k where k: "k \<in> set ks" "int_bin k = b" using pos unfolding x by (auto simp: filter_empty_conv)
    then have "b \<le> 26" using ks int_bin_bound by blast
    then have "(2::nat) ^ b \<le> 2 ^ 26" by (intro power_increasing) auto
    then show ?thesis
      using dense count_below_bin[OF ks, of b] by (simp add: good_size_def LJ_MAX_ASIZE_val)
  qed
  show ?case
  proof (cases "2 ^ b < 2 * length ks \<and> ?acc \<noteq> length ks")
    case False
    then show ?thesis using Suc.prems(2) unfolding dr by auto
  next
    case True
    then show ?thesis
      using IH[OF Suc.prems(2)] IH[OF good] acc' unfolding dr by (auto simp: Let_def)
  qed
qed

lemma best_asize_correct:
  assumes "\<forall>k\<in>set ks. k < LJ_MAX_ASIZE"
  shows "\<exists>sz na. best_asize (hist ks) (length ks) = Inr (sz, na) \<and> good_size ks sz na"
  using best_asize_loop_correct[OF assms, of 0 0 0]
  by (simp add: best_asize_def good_size_def count_below_def)

section \<open>Rehash\<close>

definition outside_key :: "nat \<Rightarrow> lua_value \<Rightarrow> bool" where
  "outside_key sz k \<longleftrightarrow> (case array_key k of Some i \<Rightarrow> sz \<le> i | None \<Rightarrow> True)"

definition entries :: "ltable \<Rightarrow> (lua_value \<times> lua_value) list" where
  "entries t = arr_entries t 0 (asize t) @ hash_entries t"

definition ekeys :: "lua_value \<Rightarrow> nat list" where
  "ekeys ek = (case array_key ek of Some i \<Rightarrow> [i] | None \<Rightarrow> [])"

lemma outside_int_keys:
  "length (filter (\<lambda>kv. outside_key sz (fst kv)) kvs) + count_below (int_keys kvs) sz = length kvs"
  by (induction kvs) (auto simp: count_below_def outside_key_def split: option.split)

lemma live_slots_from: "filter (\<lambda>k. \<not> k < sz) (live_slots t 0 a) = live_slots t sz a"
  by (induction a) (auto simp: not_less)

lemma count_live_slots: "count_below (live_slots t 0 a) sz + length (live_slots t sz a) = length (live_slots t 0 a)"
  using sum_length_filter_compl[of "\<lambda>k. k < sz" "live_slots t 0 a"]
  by (simp only: live_slots_from count_below_def)

lemma overflow_count:
  assumes "asize t \<le> LJ_MAX_ASIZE"
  shows "overflow t sz + count_below (live_slots t 0 (asize t) @ int_keys (hash_entries t)) sz = length (entries t)"
proof -
  have "outside_key sz (fst kv)" if kv: "kv \<in> set (arr_entries t sz (asize t))" for kv
  proof -
    obtain i where "sz \<le> i" "i < asize t" "fst kv = number (nat_to_f64 i)"
      using kv arr_entries_iff[OF assms, of "fst kv" "snd kv" t sz] by auto
    then show ?thesis using array_key_nat(1)[of i] assms by (simp add: outside_key_def)
  qed
  then have f: "filter (\<lambda>kv. outside_key sz (fst kv)) (arr_entries t sz (asize t)) = arr_entries t sz (asize t)"
    by (simp add: filter_id_conv)
  have "overflow t sz = length (live_slots t sz (asize t)) +
      length (filter (\<lambda>kv. outside_key sz (fst kv)) (hash_entries t))"
    unfolding overflow_def outside_key_def [symmetric] by (simp add: f) (simp add: arr_entries_def)
  moreover have "length (entries t) = length (live_slots t 0 (asize t)) + length (hash_entries t)"
    by (simp add: entries_def arr_entries_def)
  ultimately show ?thesis
    using outside_int_keys[of sz "hash_entries t"] count_live_slots[of t "asize t" sz]
    by (simp add: count_below_def)
qed

lemma count_int_hist: "count_int ek (hist ks) = (hist (ks @ ekeys ek), length (ekeys ek))"
  using bump_hist_int[OF array_key_bound, of ek] by (simp add: count_int_def ekeys_def split: option.split)

lemma count_below_append: "count_below (xs @ ys) m = count_below xs m + count_below ys m"
  by (simp add: count_below_def)

text \<open>What a rehash computes: an array size, and a hash part for all that it does not hold.\<close>

lemma rehash_sizes:
  assumes wf: "wf_tab sid t"
  shows "\<exists>sz na. good_size (live_slots t 0 (asize t) @ int_keys (hash_entries t) @ ekeys ek) sz na \<and>
    overflow t sz + (if outside_key sz ek then 1 else 0) + na = Suc (length (entries t)) \<and>
    rehash S t ek = resize S t sz (hsize2hbits (overflow t sz + (if outside_key sz ek then 1 else 0)))"
proof -
  let ?ks = "live_slots t 0 (asize t) @ int_keys (hash_entries t) @ ekeys ek"
  have amax: "asize t \<le> LJ_MAX_ASIZE" and wh: "wf_hash sid t"
    using wf by (auto simp: wf_tab_def wf_array_def)
  have "\<forall>k\<in>set ?ks. k < LJ_MAX_ASIZE"
    using amax int_keys_bound array_key_bound by (auto simp: ekeys_def split: option.splits)
  from best_asize_correct[OF this] obtain sz na
    where b: "best_asize (hist ?ks) (length ?ks) = Inr (sz, na)" "good_size ?ks sz na" by blast
  have ek: "count_below (ekeys ek) sz + (if outside_key sz ek then 1 else 0) = 1"
    by (auto simp: ekeys_def outside_key_def count_below_def split: option.split)
  have tot: "overflow t sz + (if outside_key sz ek then 1 else 0) + na = Suc (length (entries t))"
    using b(2) overflow_count[OF amax, of sz] ek by (simp add: good_size_def count_below_append)
  have len: "length (entries t) = length (live_slots t 0 (asize t)) + length (hash_entries t)"
    by (simp add: entries_def arr_entries_def)
  have "rehash S t ek =
      (if Suc (length (entries t)) < na then Inl ArithPanic
       else resize S t sz (hsize2hbits (Suc (length (entries t)) - na)))"
    using b(1) len by (simp add: rehash_def count_array_hist[OF amax] count_hash_hist[OF wh] count_int_hist add.assoc)
  moreover have "Suc (length (entries t)) - na = overflow t sz + (if outside_key sz ek then 1 else 0)"
    using tot by simp
  moreover have "\<not> Suc (length (entries t)) < na" using tot by linarith
  ultimately have "rehash S t ek =
      resize S t sz (hsize2hbits (overflow t sz + (if outside_key sz ek then 1 else 0)))" by metis
  then show ?thesis using b(2) tot by blast
qed

lemma int_keys_append: "int_keys (xs @ ys) = int_keys xs @ int_keys ys"
  by (induction xs) (auto split: option.split)

lemma int_keys_arr: "a \<le> LJ_MAX_ASIZE \<Longrightarrow> int_keys (arr_entries t 0 a) = live_slots t 0 a"
  by (induction a) (auto simp: arr_entries_def int_keys_append array_key_nat(1))

lemma hash_cap_ge2: "0 < hb \<Longrightarrow> 2 \<le> hash_cap hb"
  using power_increasing[of 1 hb "2::nat"] by (simp add: hash_cap_def)

lemma rehash_ok:
  assumes S: "setter_ok sid S" and wf: "wf_tab sid t" and small: "length (entries t) < 2 ^ LJ_MAX_HBITS"
  shows "\<exists>t'. rehash S t ek = Inr t' \<and> wf_tab sid t' \<and> room_for t' ek \<and>
    (asize t' = 0 \<or> asize t' - 1 < 4 * count_below (int_keys (entries t) @ ekeys ek) (asize t')) \<and>
    (\<forall>k. proper_key k \<longrightarrow> cont t' k = cont t k)"
proof -
  obtain sz na where sz: "good_size (live_slots t 0 (asize t) @ int_keys (hash_entries t) @ ekeys ek) sz na"
    "overflow t sz + (if outside_key sz ek then 1 else 0) + na = Suc (length (entries t))"
    "rehash S t ek = resize S t sz (hsize2hbits (overflow t sz + (if outside_key sz ek then 1 else 0)))"
    using rehash_sizes[OF wf] by blast
  let ?n = "overflow t sz + (if outside_key sz ek then 1 else 0)" let ?hb = "hsize2hbits ?n"
  have n: "?n \<le> 2 ^ LJ_MAX_HBITS" using sz(2) small by linarith
  have hb: "?hb \<le> LJ_MAX_HBITS" using n by (intro hsize2hbits_le) (simp_all add: LJ_MAX_HBITS_def)
  have cap: "?n \<le> hash_cap ?hb" using n by (intro hsize2hbits_cap) (simp add: LJ_MAX_HBITS_def)
  have asz: "sz \<le> LJ_MAX_ASIZE" using sz(1) by (simp add: good_size_def)
  have "overflow t sz \<le> hash_cap ?hb" using cap by linarith
  from resize_ok[OF S wf asz hb this] obtain t' where t': "rehash S t ek = Inr t'" "wf_tab sid t'"
    "asize t' = sz" "hmask t' = hash_cap ?hb - 1" "length (nodes t') = hash_cap ?hb"
    "used t' \<le> overflow t sz" "\<forall>k. proper_key k \<longrightarrow> cont t' k = cont t k"
    unfolding sz(3) by blast
  have "room_for t' ek"
  proof (cases "outside_key sz ek")
    case True
    have "2 \<le> hash_cap ?hb" using True by (intro hash_cap_ge2 hsize2hbits_pos) simp
    then show ?thesis using True cap t' by (simp add: room_for_def has_hpart_def)
  next
    case False
    then show ?thesis using t'(3)
      by (auto simp: room_for_def in_array_def outside_key_def split: option.splits)
  qed
  moreover have "int_keys (entries t) = live_slots t 0 (asize t) @ int_keys (hash_entries t)"
    using wf by (auto simp: entries_def int_keys_append int_keys_arr wf_tab_def wf_array_def)
  ultimately show ?thesis using t' sz(1) by (auto simp: good_size_def)
qed

section \<open>Setting a key\<close>

lemma entries_nomm [simp]: "entries (t\<lparr>nomm := x\<rparr>) = entries t"
  by (simp add: entries_def arr_entries_def hash_entries_def)

text \<open>\<open>updated\<close>: the result of a successful \<open>set\<close>.\<close>

definition updated :: "sids \<Rightarrow> ltable \<Rightarrow> lua_value \<Rightarrow> lua_value \<Rightarrow> ltable \<Rightarrow> bool" where
  "updated sid t key v t' \<longleftrightarrow>
     wf_tab sid t' \<and> (\<forall>k. proper_key k \<longrightarrow> cont t' k = (if k = key then v else cont t k))"

lemma stored_updated: "stored sid t key v t' \<Longrightarrow> updated sid t key v t'"
  by (simp add: stored_def updated_def)

lemma set_loop_total:
  assumes wf: "wf_tab sid t" and key: "proper_key key" and v: "proper_val v"
    and small: "length (entries t) < 2 ^ LJ_MAX_HBITS"
  shows "\<exists>t'. set_loop (Suc (Suc fuel)) sid t key v = Inr t' \<and> updated sid t key v t'"
proof (cases "room_for t key")
  case True
  then show ?thesis using set_loop_room[OF wf key v True] stored_updated by blast
next
  case False
  let ?R = "rehash (\<lambda>t k v. set_loop (Suc fuel) sid (nomm_reset k t) k v)"
  have wh: "wf_hash sid t" and kn: "\<not> is_nil key" and none: "in_array t key = None"
    using wf key False by (auto simp: wf_tab_def proper_key_def room_for_def)
  obtain t1 where t1: "?R (t\<lparr>nomm := 0\<rparr>) key = Inr t1" "wf_tab sid t1" "room_for t1 key"
    "\<forall>k. proper_key k \<longrightarrow> cont t1 k = cont t k"
    using rehash_ok[OF set_loop_setter_ok, of sid "t\<lparr>nomm := 0\<rparr>" fuel key] wf small
    by (auto simp: nomm_frame simp del: set_loop.simps)
  obtain t2 where t2: "set_loop (Suc fuel) sid t1 key v = Inr t2" "stored sid t1 key v t2"
    using set_loop_room[OF t1(2) key v t1(3)] by blast
  have up: "updated sid t key v t2" using t1(4) t2(2) by (simp add: stored_def updated_def)
  have retry: ?thesis if "(if has_hpart t then find_node sid t key else Inr None) = Inr None"
      "try_new_key ?R sid t key = Inr (None, t1)"
  proof -
    have "set_loop (Suc (Suc fuel)) sid t key v = set_loop (Suc fuel) sid t1 key v"
      unfolding set_loop.simps(2)[of "Suc fuel"] using none that by (simp del: set_loop.simps)
    then show ?thesis using t2(1) up by auto
  qed
  show ?thesis
  proof (cases "has_hpart t")
    case h: True
    then have new: "\<forall>i<length (nodes t). tkey t i \<noteq> key" using False none by (auto simp: room_for_def)
    have fn: "find_node sid t key = Inr None"
      using find_node_correct[OF wh h kn] new by (auto split: option.splits)
    from try_new_key_cases[OF wh h key none new, of ?R] show ?thesis
    proof (elim disjE exE conjE)
      fix s t' assume p: "try_new_key ?R sid t key = Inr (Some s, t')" "placed sid t key s t'"
      then have "s < length (nodes t')" by (simp add: placed_def)
      then have "set_loop (Suc (Suc fuel)) sid t key v = Inr (store_node t' s v)"
        unfolding set_loop.simps(2)[of "Suc fuel"] using p(1) fn none h
        by (simp add: node_slot_mut_val del: set_loop.simps)
      moreover have "wf_array t" using wf by (simp add: wf_tab_def)
      ultimately show ?thesis using placed_stored[OF p(2) _ h key none v] stored_updated by blast
    next
      assume "try_new_key ?R sid t key = rbind (?R (t\<lparr>nomm := 0\<rparr>) key) (\<lambda>t'. Inr (None, t'))"
      then have "try_new_key ?R sid t key = Inr (None, t1)" unfolding t1(1) by simp
      then show ?thesis using retry h fn by simp
    qed
  next
    case h: False
    then have "\<not> has_hpart (t\<lparr>nomm := 0\<rparr>)" by (simp add: has_hpart_def)
    then have "try_new_key ?R sid t key = Inr (None, t1)"
      using t1(1) by (simp add: try_new_key_def Let_def del: set_loop.simps)
    then show ?thesis using retry h by simp
  qed
qed

end
