(* ===== verification/LJ_Table_Spec.thy ===== *)
theory LJ_Table_Spec
  imports LJ_Table_Rehash
begin

unbundle bit_operations_syntax

text \<open>
  What a table promises its clients: a locale \<open>value_store\<close> with the laws of lookup and
  update, its interpretation on the table operations, and the properties of the individual
  operations over the content of the table.
\<close>

section \<open>The contract\<close>

locale value_store =
  fixes inv :: "'t \<Rightarrow> bool"
    and key_ok :: "'k \<Rightarrow> bool"
    and val_ok :: "'v \<Rightarrow> bool"
    and content :: "'t \<Rightarrow> 'k \<Rightarrow> 'v"
    and entry_count :: "'t \<Rightarrow> nat"
    and capacity :: nat
    and lookup :: "'t \<Rightarrow> 'k \<Rightarrow> 'e + 'v"
    and update :: "'t \<Rightarrow> 'k \<Rightarrow> 'v \<Rightarrow> 'e + 't"
  assumes lookup_content: "inv t \<Longrightarrow> key_ok k \<Longrightarrow> lookup t k = Inr (content t k)"
    and update_total: "inv t \<Longrightarrow> key_ok k \<Longrightarrow> val_ok v \<Longrightarrow> entry_count t < capacity \<Longrightarrow>
      \<exists>t'. update t k v = Inr t'"
    and update_inv: "inv t \<Longrightarrow> key_ok k \<Longrightarrow> val_ok v \<Longrightarrow> entry_count t < capacity \<Longrightarrow>
      update t k v = Inr t' \<Longrightarrow> inv t' \<and> entry_count t' \<le> Suc (entry_count t)"
    and update_content: "inv t \<Longrightarrow> key_ok k \<Longrightarrow> val_ok v \<Longrightarrow> entry_count t < capacity \<Longrightarrow>
      update t k v = Inr t' \<Longrightarrow> key_ok k' \<Longrightarrow>
      content t' k' = (if k' = k then v else content t k')"
begin

lemma update_ok:
  assumes "inv t" "key_ok k" "val_ok v" "entry_count t < capacity"
  obtains t' where "update t k v = Inr t'" "inv t'" "entry_count t' \<le> Suc (entry_count t)"
    "\<And>k'. key_ok k' \<Longrightarrow> content t' k' = (if k' = k then v else content t k')"
proof -
  obtain t' where t': "update t k v = Inr t'" using update_total[OF assms] by blast
  show ?thesis using that[OF t'] update_inv[OF assms t'] update_content[OF assms t'] by blast
qed

lemma lookup_update:
  assumes "inv t" "key_ok k" "val_ok v" "entry_count t < capacity"
  shows "\<exists>t'. update t k v = Inr t' \<and> inv t' \<and>
    (\<forall>k'. key_ok k' \<longrightarrow> lookup t' k' = (if k' = k then Inr v else lookup t k'))"
proof -
  obtain t' where t': "update t k v = Inr t'" "inv t'"
    "\<And>k'. key_ok k' \<Longrightarrow> content t' k' = (if k' = k then v else content t k')"
    using update_ok[OF assms] by blast
  have "lookup t' k' = (if k' = k then Inr v else lookup t k')" if "key_ok k'" for k'
    using t'(3)[OF that] lookup_content[OF t'(2) that] lookup_content[OF assms(1) that] by simp
  then show ?thesis using t'(1,2) by blast
qed

text \<open>A sequence of updates, in order, stopping at the first failure.\<close>

primrec update_all :: "'t \<Rightarrow> ('k \<times> 'v) list \<Rightarrow> 'e + 't" where
  "update_all t [] = Inr t"
| "update_all t (kv # kvs) = rbind (update t (fst kv) (snd kv)) (\<lambda>t'. update_all t' kvs)"

lemma update_all_ok:
  "inv t \<Longrightarrow> \<forall>kv\<in>set kvs. key_ok (fst kv) \<and> val_ok (snd kv) \<Longrightarrow> entry_count t + length kvs \<le> capacity \<Longrightarrow>
   \<exists>t'. update_all t kvs = Inr t' \<and> inv t' \<and>
     (\<forall>k. key_ok k \<longrightarrow> lookup t' k = (case map_of (rev kvs) k of Some v \<Rightarrow> Inr v | None \<Rightarrow> lookup t k))"
proof (induction kvs arbitrary: t)
  case (Cons kv kvs)
  obtain k v where kv: "kv = (k, v)" by (cases kv)
  obtain t1 where t1: "update t k v = Inr t1" "inv t1" "entry_count t1 \<le> Suc (entry_count t)"
    "\<And>k'. key_ok k' \<Longrightarrow> content t1 k' = (if k' = k then v else content t k')"
    using update_ok[of t k v] Cons.prems kv by auto
  have l1: "lookup t1 k' = (if k' = k then Inr v else lookup t k')" if "key_ok k'" for k'
    using t1(4)[OF that] lookup_content[OF t1(2) that] lookup_content[OF Cons.prems(1) that] by simp
  obtain t2 where t2: "update_all t1 kvs = Inr t2" "inv t2"
    "\<forall>k. key_ok k \<longrightarrow> lookup t2 k = (case map_of (rev kvs) k of Some v \<Rightarrow> Inr v | None \<Rightarrow> lookup t1 k)"
    using Cons.IH[OF t1(2)] Cons.prems(2,3) t1(3) by auto
  have "lookup t2 k' = (case map_of (rev (kv # kvs)) k' of Some v \<Rightarrow> Inr v | None \<Rightarrow> lookup t k')"
    if "key_ok k'" for k'
    using t2(3)[rule_format, OF that] l1[OF that] kv
    by (cases "map_of (rev kvs) k'") (auto simp: map_add_def)
  then show ?case using t1(1) t2(1,2) kv by auto
qed simp

end

section \<open>Entries and content\<close>

lemma entries_map_of:
  assumes wf: "wf_tab sid t" and k: "proper_key k"
  shows "map_of (entries t) k = (if is_nil (cont t k) then None else Some (cont t k))"
proof -
  have amax: "asize t \<le> LJ_MAX_ASIZE" and wa: "wf_array t" and wh: "wf_hash sid t"
    using wf by (auto simp: wf_tab_def wf_array_def)
  have b: "cont (base t 0 0) k = NIL" using base_cont[OF wf, of 0 0 k] by (simp split: option.splits)
  have c: "(case map_of (entries t) k of Some v \<Rightarrow> v | None \<Rightarrow> NIL) = cont t k"
    using resize_content[OF wf k amax, of 0 0] unfolding b entries_def .
  have "\<not> is_nil v" if "map_of (entries t) k = Some v" for v
  proof -
    have "(k, v) \<in> set (entries t)" using that by (rule map_of_SomeD)
    then consider "(k, v) \<in> set (arr_entries t 0 (asize t))" | "(k, v) \<in> set (hash_entries t)"
      by (auto simp: entries_def)
    then show ?thesis
    proof cases
      case 1
      then show ?thesis using arr_entries_iff[OF amax] by blast
    next
      case 2
      then show ?thesis using hash_entries_iff live_def by blast
    qed
  qed
  then show ?thesis using c by (cases "map_of (entries t) k") auto
qed

lemma entries_distinct: "wf_tab sid t \<Longrightarrow> distinct (map fst (entries t))"
proof -
  assume wf: "wf_tab sid t"
  then have amax: "asize t \<le> LJ_MAX_ASIZE" and wh: "wf_hash sid t"
    by (auto simp: wf_tab_def wf_array_def)
  have "k \<notin> fst ` set (hash_entries t)" if "k \<in> fst ` set (arr_entries t 0 (asize t))" for k
    by (rule arr_hash_disjoint[OF wf that])
  then show ?thesis using arr_entries_distinct[OF amax] distinct_keys_nodes[OF wh]
    by (auto simp: entries_def)
qed

lemma entries_proper:
  assumes wf: "wf_tab sid t" and kv: "(k, v) \<in> set (entries t)"
  shows "proper_key k"
proof -
  have amax: "asize t \<le> LJ_MAX_ASIZE" using wf by (simp add: wf_tab_def wf_array_def)
  from kv consider "(k, v) \<in> set (arr_entries t 0 (asize t))" | "live t k v"
    using hash_entries_iff by (auto simp: entries_def)
  then show ?thesis
  proof cases
    case 1
    then obtain i where "i < asize t" "k = number (nat_to_f64 i)" unfolding arr_entries_iff[OF amax] by blast
    then show ?thesis using array_key_nat(2)[of i] amax by simp
  qed (rule live_key[OF wf])
qed

lemma entries_iff:
  assumes wf: "wf_tab sid t"
  shows "(k, v) \<in> set (entries t) \<longleftrightarrow> proper_key k \<and> \<not> is_nil v \<and> cont t k = v"
proof
  assume kv: "(k, v) \<in> set (entries t)"
  then have "proper_key k" by (rule entries_proper[OF wf])
  moreover have "map_of (entries t) k = Some v" using kv map_of_eq_Some_iff[OF entries_distinct[OF wf]] by blast
  ultimately show "proper_key k \<and> \<not> is_nil v \<and> cont t k = v"
    using entries_map_of[OF wf] by (auto split: if_splits)
next
  assume "proper_key k \<and> \<not> is_nil v \<and> cont t k = v"
  then have "map_of (entries t) k = Some v" using entries_map_of[OF wf, of k] by simp
  then show "(k, v) \<in> set (entries t)" by (rule map_of_SomeD)
qed

definition live_keys :: "ltable \<Rightarrow> lua_value set" where
  "live_keys t = {k. proper_key k \<and> \<not> is_nil (cont t k)}"

lemma live_keys_entries:
  assumes "wf_tab sid t"
  shows "live_keys t = set (map fst (entries t))" "card (live_keys t) = length (entries t)"
    "finite (live_keys t)"
proof -
  show e: "live_keys t = set (map fst (entries t))"
  proof -
    have "k \<in> live_keys t \<longleftrightarrow> (\<exists>v. (k, v) \<in> set (entries t))" for k
      unfolding entries_iff[OF assms] live_keys_def by auto
    then show ?thesis by force
  qed
  show "card (live_keys t) = length (entries t)"
    unfolding e using distinct_card[OF entries_distinct[OF assms]] by simp
  show "finite (live_keys t)" unfolding e by simp
qed

lemma updated_count:
  assumes "wf_tab sid t" "updated sid t key v t'"
  shows "length (entries t') \<le> Suc (length (entries t))"
proof -
  have wf': "wf_tab sid t'" using assms(2) by (simp add: updated_def)
  have "live_keys t' \<subseteq> insert key (live_keys t)"
    using assms(2) by (auto simp: live_keys_def updated_def split: if_splits)
  then have "card (live_keys t') \<le> card (insert key (live_keys t))"
    using live_keys_entries(3)[OF assms(1)] by (intro card_mono) simp_all
  also have "\<dots> \<le> Suc (card (live_keys t))" by (rule card_insert_le_m1) simp_all
  finally show ?thesis using live_keys_entries(2)[OF assms(1)] live_keys_entries(2)[OF wf'] by simp
qed

lemma tab_set_unfold: "tab_set sid t k v = set_loop (Suc 2) sid (nomm_reset k t) k v"
  by (simp only: tab_set_def SET_FUEL_def numeral_3_eq_3 numeral_2_eq_2)

lemma tab_set_setter_ok: "setter_ok sid (tab_set sid)"
  using set_loop_setter_ok[of sid 2] by (simp only: tab_set_unfold [abs_def])

lemma tab_set_updated:
  assumes "wf_tab sid t" "proper_key key" "proper_val v" "length (entries t) < 2 ^ LJ_MAX_HBITS"
  shows "\<exists>t'. tab_set sid t key v = Inr t' \<and> updated sid t key v t'"
proof -
  have u: "wf_tab sid (nomm_reset key t)" "length (entries (nomm_reset key t)) < 2 ^ LJ_MAX_HBITS"
    "cont (nomm_reset key t) = cont t"
    using assms by (simp_all add: nomm_reset_def nomm_frame)
  show ?thesis
    using set_loop_total[OF u(1) assms(2,3) u(2), of 1] u(3)
    by (simp only: tab_set_unfold updated_def numeral_2_eq_2 One_nat_def)
qed

interpretation tab: value_store "wf_tab sid" proper_key proper_val cont "\<lambda>t. length (entries t)"
  "2 ^ LJ_MAX_HBITS" "tab_get sid" "tab_set sid" for sid
proof
  fix t k v t'
  assume a: "wf_tab sid t" "proper_key k"
  show "tab_get sid t k = Inr (cont t k)"
    using tab_get_cont[OF a(1)] a(2) by (simp add: proper_key_def)
  assume b: "proper_val v" "length (entries t) < 2 ^ LJ_MAX_HBITS"
  note s = tab_set_updated[OF a b]
  then show "\<exists>t'. tab_set sid t k v = Inr t'" by blast
  assume "tab_set sid t k v = Inr t'"
  then have u: "updated sid t k v t'" using s by auto
  show "wf_tab sid t' \<and> length (entries t') \<le> Suc (length (entries t))"
    using u updated_count[OF a(1) u] by (simp add: updated_def)
  fix k' assume "proper_key k'"
  then show "cont t' k' = (if k' = k then v else cont t k')" using u by (simp add: updated_def)
qed

lemma update_all_reinsert: "tab.update_all sid t kvs = reinsert (tab_set sid) t kvs"
  by (induction kvs arbitrary: t) (simp_all add: tab.update_all.simps)

section \<open>Properties of the operations\<close>

definition empty_table :: ltable where
  "empty_table = \<lparr>arr = [], nodes = [], asize = 0, hmask = 0, freetop = 0, nomm = NOT 0, metatable = None\<rparr>"

lemma tab_new_base:
  "asz \<le> LJ_MAX_ASIZE \<Longrightarrow> hb \<le> LJ_MAX_HBITS \<Longrightarrow> tab_new asz hb = Inr (base empty_table asz hb)"
  by (simp add: tab_new_def new_hpart_def base_def hash_cap_def Let_def empty_table_def)

lemma empty_wf: "wf_tab sid empty_table" "entries empty_table = []"
  by (simp_all add: wf_tab_def wf_array_def wf_hash_def empty_table_def entries_def arr_entries_def hash_entries_def)

lemma proper_key_number: "proper_key (number n)"
  using is_number_not_nil [OF is_number_number]
  by (simp add: proper_key_def normalize_key_number is_number_number number_idem)

lemma proper_TRUE: "proper_val TRUE"
  by (simp add: proper_val_def is_nil_def itype_defs)

lemma tab_new_ok:
  assumes "asz \<le> LJ_MAX_ASIZE" "hb \<le> LJ_MAX_HBITS"
  shows "\<exists>t. tab_new asz hb = Inr t \<and> wf_tab sid t \<and> asize t = asz \<and> length (nodes t) = hash_cap hb \<and>
    (\<forall>k. cont t k = NIL)"
proof -
  have "cont (base empty_table asz hb) k = NIL" for k
    using base_cont[OF empty_wf(1), of asz hb k] by (auto simp: empty_table_def split: option.splits)
  moreover have "asize (base empty_table asz hb) = asz" by (simp add: base_def)
  ultimately show ?thesis using base_wf[OF empty_wf(1) assms] tab_new_base[OF assms] by blast
qed

text \<open>A new table is well formed, has the sizes asked for, and every lookup in it gives nil;
  sizes beyond the limits are refused with the overflow panic.\<close>

theorem tab_new_empty:
  "if asz \<le> LJ_MAX_ASIZE \<and> hb \<le> LJ_MAX_HBITS
   then \<exists>t. tab_new asz hb = Inr t \<and> wf_tab sid t \<and> asize t = asz \<and> length (nodes t) = hash_cap hb \<and>
     (\<forall>k. tab_get sid t k = Inr NIL)
   else tab_new asz hb = Inl (AssertPanic ''table overflow'')"
proof (cases "asz \<le> LJ_MAX_ASIZE \<and> hb \<le> LJ_MAX_HBITS")
  case True
  then obtain t where t: "tab_new asz hb = Inr t" "wf_tab sid t" "asize t = asz"
    "length (nodes t) = hash_cap hb" "\<And>k. cont t k = NIL"
    using tab_new_ok[of asz hb sid] by blast
  have "tab_get sid t k = Inr NIL" for k
  proof (cases "is_nil k")
    case False
    then show ?thesis using tab_get_cont[OF t(2) False] t(5) by simp
  next
    case nil: True
    have "array_key k = None"
    proof (cases "array_key k")
      case (Some i)
      then show ?thesis using is_number_not_nil[OF array_key_number[OF Some]] nil by simp
    qed
    then show ?thesis using nil by (simp add: tab_get_def)
  qed
  then show ?thesis using t True by auto
qed (auto simp: tab_new_def)

text \<open>C1. The central law of tables: on a well-formed table with fewer than \<open>2 ^ LJ_MAX_HBITS\<close>
  live entries, \<open>set\<close> returns (it neither panics nor loops, whatever collisions, node moves and
  rehashes it goes through), the result is well formed, and afterwards \<open>get\<close> gives the new
  value at the key and the old value at every other key.\<close>

theorem tab_set_get:
  assumes "wf_tab sid t" and "proper_key key" and "proper_val v"
    and "length (entries t) < 2 ^ LJ_MAX_HBITS"
  shows "\<exists>t'. tab_set sid t key v = Inr t' \<and> wf_tab sid t' \<and>
    (\<forall>k. proper_key k \<longrightarrow> tab_get sid t' k = (if k = key then Inr v else tab_get sid t k))"
  by (rule tab.lookup_update[OF assms])

theorem tab_set_get_witness:
  "\<exists>t'. tab_set (\<lambda>_. 0) empty_table (number 0x3ff0000000000000) TRUE = Inr t' \<and> wf_tab (\<lambda>_. 0) t' \<and>
    (\<forall>k. proper_key k \<longrightarrow> tab_get (\<lambda>_. 0) t' k =
       (if k = number 0x3ff0000000000000 then Inr TRUE else tab_get (\<lambda>_. 0) empty_table k))"
  by (rule tab_set_get[OF empty_wf(1) proper_key_number proper_TRUE]) (simp add: empty_wf)

text \<open>A sequence of assignments: after storing the pairs of a list one after the other,
  \<open>get\<close> gives, for every key, the value of its last assignment in the list, and the old value
  where the list has none.\<close>

theorem tab_set_sequence:
  assumes "wf_tab sid t" and "\<forall>kv\<in>set kvs. proper_key (fst kv) \<and> proper_val (snd kv)"
    and "length (entries t) + length kvs \<le> 2 ^ LJ_MAX_HBITS"
  shows "\<exists>t'. reinsert (tab_set sid) t kvs = Inr t' \<and> wf_tab sid t' \<and>
    (\<forall>k. proper_key k \<longrightarrow>
       tab_get sid t' k = (case map_of (rev kvs) k of Some v \<Rightarrow> Inr v | None \<Rightarrow> tab_get sid t k))"
  unfolding update_all_reinsert [symmetric] by (rule tab.update_all_ok[OF assms])

theorem tab_set_sequence_witness:
  "\<exists>t'. reinsert (tab_set (\<lambda>_. 0)) empty_table [(number 1, TRUE), (number 2, TRUE), (number 1, NIL)] = Inr t' \<and>
    wf_tab (\<lambda>_. 0) t' \<and> (\<forall>k. proper_key k \<longrightarrow> tab_get (\<lambda>_. 0) t' k =
       (case map_of (rev [(number 1, TRUE), (number 2, TRUE), (number 1, NIL)]) k of
          Some v \<Rightarrow> Inr v | None \<Rightarrow> tab_get (\<lambda>_. 0) empty_table k))"
  by (rule tab_set_sequence[OF empty_wf(1)])
    (simp_all add: empty_wf proper_key_number proper_TRUE LJ_MAX_HBITS_def)

text \<open>C24. \<open>resize\<close> keeps every entry: with room for the entries that the new array does not
  hold, every lookup gives what it gave before, and the sizes are those asked for.\<close>

theorem tab_resize_content:
  assumes "wf_tab sid t" and "asz \<le> LJ_MAX_ASIZE" and "hb \<le> LJ_MAX_HBITS"
    and "overflow t asz \<le> hash_cap hb"
  shows "\<exists>t'. tab_resize sid t asz hb = Inr t' \<and> wf_tab sid t' \<and> asize t' = asz \<and>
    length (nodes t') = hash_cap hb \<and> (\<forall>k. proper_key k \<longrightarrow> tab_get sid t' k = tab_get sid t k)"
proof -
  from resize_ok[OF tab_set_setter_ok assms] obtain t' where t': "tab_resize sid t asz hb = Inr t'" "wf_tab sid t'"
    "asize t' = asz" "length (nodes t') = hash_cap hb" "\<forall>k. proper_key k \<longrightarrow> cont t' k = cont t k"
    by (auto simp: tab_resize_def)
  then have "\<forall>k. proper_key k \<longrightarrow> tab_get sid t' k = tab_get sid t k"
    using tab.lookup_content[OF assms(1)] tab.lookup_content[OF t'(2)] by auto
  then show ?thesis using t' by blast
qed

theorem tab_resize_content_witness:
  "\<exists>t'. tab_resize (\<lambda>_. 0) empty_table 4 2 = Inr t' \<and> wf_tab (\<lambda>_. 0) t' \<and> asize t' = 4 \<and>
    length (nodes t') = hash_cap 2 \<and>
    (\<forall>k. proper_key k \<longrightarrow> tab_get (\<lambda>_. 0) t' k = tab_get (\<lambda>_. 0) empty_table k)"
  by (rule tab_resize_content[OF empty_wf(1)])
    (simp_all add: LJ_MAX_ASIZE_val LJ_MAX_HBITS_def overflow_def empty_table_def arr_entries_def hash_entries_def)

text \<open>C8. \<open>rehash\<close> never fails on a table within the limits: it keeps every entry, leaves room
  for the key that forced it, and picks an array part that is empty or more than a quarter
  full, counting that key.\<close>

theorem tab_rehash_correct:
  assumes "wf_tab sid t" and "length (entries t) < 2 ^ LJ_MAX_HBITS"
  shows "\<exists>t'. rehash (tab_set sid) t ek = Inr t' \<and> wf_tab sid t' \<and> room_for t' ek \<and>
    (asize t' = 0 \<or> asize t' - 1 < 4 * count_below (int_keys (entries t) @ ekeys ek) (asize t')) \<and>
    (\<forall>k. proper_key k \<longrightarrow> tab_get sid t' k = tab_get sid t k)"
proof -
  from rehash_ok[OF tab_set_setter_ok assms] obtain t' where t': "rehash (tab_set sid) t ek = Inr t'" "wf_tab sid t'"
    "room_for t' ek"
    "asize t' = 0 \<or> asize t' - 1 < 4 * count_below (int_keys (entries t) @ ekeys ek) (asize t')"
    "\<forall>k. proper_key k \<longrightarrow> cont t' k = cont t k" by blast
  then have "\<forall>k. proper_key k \<longrightarrow> tab_get sid t' k = tab_get sid t k"
    using tab.lookup_content[OF assms(1)] tab.lookup_content[OF t'(2)] by auto
  then show ?thesis using t' by blast
qed

theorem tab_rehash_correct_witness:
  "\<exists>t'. rehash (tab_set (\<lambda>_. 0)) empty_table (number 0x3ff0000000000000) = Inr t' \<and> wf_tab (\<lambda>_. 0) t' \<and>
    room_for t' (number 0x3ff0000000000000) \<and>
    (asize t' = 0 \<or> asize t' - 1 <
      4 * count_below (int_keys (entries empty_table) @ ekeys (number 0x3ff0000000000000)) (asize t')) \<and>
    (\<forall>k. proper_key k \<longrightarrow> tab_get (\<lambda>_. 0) t' k = tab_get (\<lambda>_. 0) empty_table k)"
  by (rule tab_rehash_correct[OF empty_wf(1)]) (simp add: empty_wf)

end
