(* ===== verification/LJ_Table_Ops.thy ===== *)
theory LJ_Table_Ops
  imports LJ_Table_Spec
begin

unbundle bit_operations_syntax

text \<open>
  The specialised entry points of the table (\<open>get_int\<close>, \<open>get_str\<close>, \<open>set_int\<close>, \<open>set_str\<close>)
  agree with \<open>get\<close> and \<open>set\<close>; \<open>next\<close> enumerates the entries; \<open>len\<close> is a border; \<open>dup\<close>
  copies; and the behaviour of a negative-zero key.
\<close>

section \<open>Specialised lookups\<close>

lemma array_key_int:
  assumes "- (2 ^ 31) \<le> k" "k < 2 ^ 31"
  shows "array_key (number (int_to_f64 k)) = (if 0 \<le> k \<and> nat k < LJ_MAX_ASIZE then Some (nat k) else None)"
  using as_int32_exact_number_int[OF assms] by (simp add: array_key_def)

lemma tab_get_int_eq:
  assumes "asize t \<le> LJ_MAX_ASIZE" "- (2 ^ 31) \<le> k" "k < 2 ^ 31"
  shows "tab_get_int sid t k = tab_get sid t (number (int_to_f64 k))"
  using assms(1) array_key_int[OF assms(2,3)] by (simp add: tab_get_int_def tab_get_def)

lemma string_key:
  assumes "is_string key"
  shows "\<not> is_nil key" "array_key key = None" "proper_key key" "\<not> is_number key"
proof -
  show n: "\<not> is_number key" and k: "\<not> is_nil key"
    using assms by (auto simp: is_string_def is_number_def is_nil_def itype_defs)
  show "array_key key = None" using n array_key_number[of key] by (cases "array_key key") auto
  show "proper_key key" using n k by (simp add: proper_key_def normalize_key_def as_number_def)
qed

lemma tab_get_str_eq:
  assumes "is_string key"
  shows "tab_get_str sid t key = tab_get sid t key"
proof (cases "has_hpart t")
  case True
  then show ?thesis using string_key[OF assms] by (simp add: tab_get_str_def tab_get_def)
next
  case False
  have "key \<noteq> NIL" using string_key(1)[OF assms] by auto
  then show ?thesis using False string_key[OF assms]
    by (simp add: tab_get_str_def tab_get_def find_node_def node_slot_def has_hpart_def EMPTY_NODE_def node_val_def)
qed

text \<open>The specialised lookups are lookups: \<open>get_int\<close> is \<open>get\<close> at the number with that
  integer value for every 32-bit integer, and \<open>get_str\<close> is \<open>get\<close> at the string.\<close>

theorem specialised_lookups:
  assumes "wf_tab sid t" and "- (2 ^ 31) \<le> k" and "k < 2 ^ 31" and "is_string s"
  shows "tab_get_int sid t k = tab_get sid t (number (int_to_f64 k)) \<and>
    tab_get_str sid t s = tab_get sid t s"
  using tab_get_int_eq[OF _ assms(2,3)] tab_get_str_eq[OF assms(4)] assms(1)
  by (simp add: wf_tab_def wf_array_def)

lemma string_key_witness: "is_string (lua_string_value 0x1000)"
  by (simp add: is_string_def lua_string_value_def gcval_def itype_gcv tags_high LJ_GCVMASK_def)

theorem specialised_lookups_witness:
  "tab_get_int (\<lambda>_. 0) empty_table 7 = tab_get (\<lambda>_. 0) empty_table (number (int_to_f64 7)) \<and>
   tab_get_str (\<lambda>_. 0) empty_table (lua_string_value 0x1000) =
     tab_get (\<lambda>_. 0) empty_table (lua_string_value 0x1000)"
  by (rule specialised_lookups[OF empty_wf(1)]) (simp_all add: string_key_witness)

section \<open>Specialised stores\<close>

lemma tab_set_str_updated:
  assumes wf: "wf_tab sid t" and s: "is_string key" and v: "proper_val v"
    and small: "length (entries t) < 2 ^ LJ_MAX_HBITS"
  shows "\<exists>t'. tab_set_str sid t key v = Inr t' \<and> updated sid t key v t'"
proof -
  let ?t = "t\<lparr>nomm := 0\<rparr>"
  note k = string_key[OF s]
  have wf': "wf_tab sid ?t" "wf_hash sid ?t" "wf_array ?t" using wf
    by (simp_all add: nomm_frame wf_tab_def wf_array_def)
  have ia: "in_array ?t key = None" using k(2) by (simp add: in_array_def)
  have slow: "\<exists>t'. tab_set sid ?t key v = Inr t' \<and> updated sid t key v t'"
    using tab_set_updated[OF wf'(1) k(3) v] small by (simp only: updated_def nomm_frame entries_nomm)
  show ?thesis
  proof (cases "has_hpart ?t")
    case True
    obtain x where x: "find_node sid ?t key = Inr x"
      "case x of Some i \<Rightarrow> i < length (nodes ?t) \<and> tkey ?t i = key
       | None \<Rightarrow> \<forall>i<length (nodes ?t). tkey ?t i \<noteq> key"
      using find_node_correct[OF wf'(2) True k(1)] by blast
    show ?thesis
    proof (cases x)
      case None
      then show ?thesis using slow x(1) True by (simp add: tab_set_str_def Let_def)
    next
      case (Some i)
      then have i: "i < length (nodes ?t)" "tkey ?t i = key" using x(2) by simp_all
      have "stored sid ?t key v (store_node ?t i v)"
        by (rule store_node_stored(1)[OF wf'(2,3) True i k(3) ia v])
      then have "updated sid t key v (store_node ?t i v)"
        unfolding stored_nomm by (rule stored_updated)
      then show ?thesis using x(1) Some True i(1) node_slot_mut_val[of i ?t v]
        by (simp add: tab_set_str_def Let_def)
    qed
  next
    case False
    then show ?thesis using slow by (simp add: tab_set_str_def Let_def)
  qed
qed

lemma next_power_of_two_ge: "n \<le> next_power_of_two n"
proof (cases "n \<le> 1")
  case False
  then have "n - 1 < 2 ^ Suc (floor_log2 (n - 1))" using floor_log2_bounds[of "n - 1"] by simp
  then show ?thesis using False by (simp add: next_power_of_two_def)
qed (simp add: next_power_of_two_def)

lemma reasize_hbits:
  assumes "wf_hash sid t" "hmask t > 0"
  shows "fls (hmask t) + 1 \<le> LJ_MAX_HBITS" "hash_cap (fls (hmask t) + 1) = length (nodes t)"
proof -
  have "hash_size_ok t" using assms by (auto simp: wf_hash_def)
  then obtain b where b: "1 \<le> b" "b \<le> LJ_MAX_HBITS" "hmask t = 2 ^ b - 1" "length (nodes t) = 2 ^ b"
    by (auto simp: hash_size_ok_def)
  obtain c where c: "b = Suc c" using b(1) by (cases b) auto
  have p: "(2::nat) ^ c \<ge> 1" by simp
  have "floor_log2 (hmask t) = c" unfolding b(3) c by (rule floor_log2_unique) (use p in simp_all)
  moreover have "(2::nat) ^ b \<le> 2 ^ 26" using b(2) by (intro power_increasing) (auto simp: LJ_MAX_HBITS_def)
  then have "hmask t < 2 ^ 32" using b(3) by simp
  ultimately have "fls (hmask t) = c" using fls_log2[OF assms(2)] by simp
  then show "fls (hmask t) + 1 \<le> LJ_MAX_HBITS" "hash_cap (fls (hmask t) + 1) = length (nodes t)"
    using b c by (simp_all add: hash_cap_def)
qed

lemma overflow_grow:
  assumes "asize t \<le> asz"
  shows "overflow t asz \<le> length (nodes t)"
proof -
  have "arr_entries t asz (asize t) = []" using assms by (simp add: arr_entries_def)
  then have "overflow t asz \<le> length (hash_entries t)" unfolding overflow_def by simp
  also have "\<dots> \<le> length (nodes t)" by (simp add: hash_entries_def)
  finally show ?thesis .
qed

lemma reasize_ok:
  assumes wf: "wf_tab sid t" and n: "asize t \<le> n" "n < LJ_MAX_ASIZE"
  shows "\<exists>t'. reasize sid t n = Inr t' \<and> wf_tab sid t' \<and> n < asize t' \<and>
    (\<forall>k. proper_key k \<longrightarrow> cont t' k = cont t k)"
proof -
  let ?hb = "if 0 < hmask t then fls (hmask t) + 1 else 0"
    and ?asz = "min (next_power_of_two (n + 1)) LJ_MAX_ASIZE"
  have wh: "wf_hash sid t" using wf by (simp add: wf_tab_def)
  have hb: "?hb \<le> LJ_MAX_HBITS" "hash_cap ?hb = length (nodes t)"
    using reasize_hbits[OF wh] wh by (auto simp: wf_hash_def hash_cap_def)
  have asz: "n < ?asz" using next_power_of_two_ge[of "n + 1"] n(2) by simp
  have "overflow t ?asz \<le> hash_cap ?hb" using overflow_grow[of t ?asz] asz n(1) hb(2) by simp
  from resize_ok[OF tab_set_setter_ok wf _ hb(1) this]
  obtain t' where "tab_resize sid t ?asz ?hb = Inr t'" "wf_tab sid t'" "asize t' = ?asz"
    "\<forall>k. proper_key k \<longrightarrow> cont t' k = cont t k"
    by (auto simp: tab_resize_def)
  then show ?thesis using asz by (auto simp: reasize_def)
qed

lemma array_store_updated:
  assumes "wf_tab sid t" "0 \<le> k" "nat k < asize t" "proper_val v"
  shows "\<exists>t'. array_store t (nat k) v = Inr t' \<and> updated sid t (number (int_to_f64 k)) v t'"
proof -
  have amax: "asize t \<le> LJ_MAX_ASIZE" using assms(1) by (simp add: wf_tab_def wf_array_def)
  then have "k < 2 ^ 31" using assms(2,3) by (simp add: LJ_MAX_ASIZE_val)
  then have "in_array t (number (int_to_f64 k)) = Some (nat k)"
    using array_key_int[of k] assms(2,3) amax by (simp add: in_array_def)
  from array_store_stored[OF assms(1) this proper_key_number assms(4)] show ?thesis
    using stored_updated by blast
qed

lemma tab_set_int_updated:
  assumes wf: "wf_tab sid t" and v: "proper_val v"
    and small: "length (entries t) < 2 ^ LJ_MAX_HBITS"
  shows "\<exists>t'. tab_set_int sid t k v = Inr t' \<and> updated sid t (number (int_to_f64 k)) v t'"
proof -
  have slow: "\<exists>t'. tab_set sid t (number (int_to_f64 k)) v = Inr t' \<and> updated sid t (number (int_to_f64 k)) v t'"
    by (rule tab_set_updated[OF wf proper_key_number v small])
  consider (arr) "0 < k" "nat k < asize t"
    | (grow) "0 < k" "nat k < LJ_MAX_ASIZE" "\<not> is_nil v" "nat k = asize t"
    | (slow) "tab_set_int sid t k v = tab_set sid t (number (int_to_f64 k)) v"
    by (cases "0 < k \<and> nat k < asize t";
      cases "0 < k \<and> nat k < LJ_MAX_ASIZE \<and> \<not> is_nil v \<and> nat k = asize t")
      (auto simp: tab_set_int_def)
  then show ?thesis
  proof cases
    case arr
    then show ?thesis using array_store_updated[OF wf _ _ v, of k] by (simp add: tab_set_int_def)
  next
    case grow
    then obtain t1 where t1: "reasize sid t (nat k) = Inr t1" "wf_tab sid t1" "nat k < asize t1"
      "\<forall>k. proper_key k \<longrightarrow> cont t1 k = cont t k"
      using reasize_ok[OF wf, of "nat k"] by auto
    obtain t2 where t2: "array_store t1 (nat k) v = Inr t2" "updated sid t1 (number (int_to_f64 k)) v t2"
      using array_store_updated[OF t1(2) _ t1(3) v] grow(1) by auto
    have "updated sid t (number (int_to_f64 k)) v t2" using t2(2) t1(4) by (simp add: updated_def)
    then show ?thesis using grow t1(1) t2(1) by (auto simp: tab_set_int_def)
  next
    case slow
    then show ?thesis using \<open>\<exists>t'. tab_set sid t _ v = Inr t' \<and> _\<close> by simp
  qed
qed

lemma updated_get:
  assumes "wf_tab sid t" "updated sid t key v t'" "proper_key k"
  shows "tab_get sid t' k = (if k = key then Inr v else tab_get sid t k)"
  using assms tab.lookup_content[OF assms(1,3)] tab.lookup_content[of sid t' k] by (simp add: updated_def)

text \<open>C25. The specialised stores are stores: \<open>set_int\<close>, including the path that grows the
  array by powers of two when appending, and \<open>set_str\<close>, including its in-place fast path,
  return a well-formed table in which exactly the named key has changed.\<close>

theorem specialised_stores:
  assumes "wf_tab sid t" and "proper_val v" and "length (entries t) < 2 ^ LJ_MAX_HBITS" and "is_string s"
  shows "(\<exists>t'. tab_set_int sid t i v = Inr t' \<and> wf_tab sid t' \<and>
      (\<forall>k. proper_key k \<longrightarrow> tab_get sid t' k = (if k = number (int_to_f64 i) then Inr v else tab_get sid t k))) \<and>
    (\<exists>t'. tab_set_str sid t s v = Inr t' \<and> wf_tab sid t' \<and>
      (\<forall>k. proper_key k \<longrightarrow> tab_get sid t' k = (if k = s then Inr v else tab_get sid t k)))"
proof
  obtain t1 where t1: "tab_set_int sid t i v = Inr t1" "updated sid t (number (int_to_f64 i)) v t1"
    using tab_set_int_updated[OF assms(1-3)] by blast
  then show "\<exists>t'. tab_set_int sid t i v = Inr t' \<and> wf_tab sid t' \<and>
      (\<forall>k. proper_key k \<longrightarrow> tab_get sid t' k = (if k = number (int_to_f64 i) then Inr v else tab_get sid t k))"
    using updated_get[OF assms(1) t1(2)] by (auto simp: updated_def)
  obtain t2 where t2: "tab_set_str sid t s v = Inr t2" "updated sid t s v t2"
    using tab_set_str_updated[OF assms(1,4,2,3)] by blast
  then show "\<exists>t'. tab_set_str sid t s v = Inr t' \<and> wf_tab sid t' \<and>
      (\<forall>k. proper_key k \<longrightarrow> tab_get sid t' k = (if k = s then Inr v else tab_get sid t k))"
    using updated_get[OF assms(1) t2(2)] by (auto simp: updated_def)
qed

theorem specialised_stores_witness:
  "(\<exists>t'. tab_set_int (\<lambda>_. 0) empty_table 1 TRUE = Inr t' \<and> wf_tab (\<lambda>_. 0) t' \<and>
      (\<forall>k. proper_key k \<longrightarrow> tab_get (\<lambda>_. 0) t' k =
        (if k = number (int_to_f64 1) then Inr TRUE else tab_get (\<lambda>_. 0) empty_table k))) \<and>
   (\<exists>t'. tab_set_str (\<lambda>_. 0) empty_table (lua_string_value 0x1000) TRUE = Inr t' \<and> wf_tab (\<lambda>_. 0) t' \<and>
      (\<forall>k. proper_key k \<longrightarrow> tab_get (\<lambda>_. 0) t' k =
        (if k = lua_string_value 0x1000 then Inr TRUE else tab_get (\<lambda>_. 0) empty_table k)))"
  by (rule specialised_stores[OF empty_wf(1) proper_TRUE]) (simp_all add: empty_wf string_key_witness)

end
