(* ===== verification/LJ_Table_Iter.thy ===== *)
theory LJ_Table_Iter
  imports LJ_Table_Ops
begin

text \<open>
  Traversal with \<open>next\<close>, the length operator, and template duplication. \<open>next\<close> is described
  over the positions of a table: the array slots followed by the nodes.
\<close>

section \<open>Traversal\<close>

definition slot :: "ltable \<Rightarrow> nat \<Rightarrow> lua_value \<times> lua_value" where
  "slot t p = (if p < asize t then (number (nat_to_f64 p), arr t ! p)
     else (tkey t (p - asize t), tval t (p - asize t)))"

abbreviation positions :: "ltable \<Rightarrow> nat \<Rightarrow> nat list" where
  "positions t lo \<equiv> filter (\<lambda>p. \<not> is_nil (snd (slot t p))) [lo..<asize t + length (nodes t)]"

lemma find_filter: "find P xs = idx (filter P xs) 0"
  by (induction xs) (auto simp: idx_def)

lemma idx_append0: "idx (xs @ ys) 0 = (case idx xs 0 of Some x \<Rightarrow> Some x | None \<Rightarrow> idx ys 0)"
  by (cases xs) (simp_all add: idx_def)

lemma idx_map: "idx (map f xs) i = map_option f (idx xs i)"
  by (simp add: idx_def)

lemma idx_drop: "idx (drop n xs) i = idx xs (n + i)"
  by (auto simp: idx_def)

lemma filter_upt_split:
  fixes a k N :: nat
  shows "filter P [i..<k + N] = filter P [i..<k] @ map (\<lambda>j. j + k) (filter (\<lambda>j. P (j + k)) [max i k - k..<N])"
proof -
  have "filter P [max i k..<k + N] = map (\<lambda>j. j + k) (filter (\<lambda>j. P (j + k)) [max i k - k..<N])"
    using upt_shift[of "max i k - k" k N] by (simp add: filter_map comp_def add.commute)
  moreover have "[i..<k + N] = [i..<k] @ [max i k..<k + N]"
  proof (cases "i \<le> k")
    case True
    then show ?thesis using upt_add_eq_append[of i k N] by (simp add: max_absorb2)
  qed (simp add: max_def)
  ultimately show ?thesis by simp
qed

lemma positions_split:
  "positions t i = live_slots t i (asize t) @
     map (\<lambda>j. j + asize t) (filter (\<lambda>j. \<not> is_nil (tval t j)) [max i (asize t) - asize t..<length (nodes t)])"
proof -
  have "filter (\<lambda>p. \<not> is_nil (snd (slot t p))) [i..<asize t] = live_slots t i (asize t)"
    by (rule filter_cong) (auto simp: slot_def)
  then show ?thesis unfolding filter_upt_split[of _ i] by (simp add: slot_def)
qed

lemma filter_nodes:
  "filter P xs = map (\<lambda>j. xs ! j) (filter (\<lambda>j. P (xs ! j)) [0..<length xs])"
  using filter_map[of P "\<lambda>j. xs ! j" "[0..<length xs]"] by (simp add: map_nth comp_def)

lemma entries_positions: "entries t = map (slot t) (positions t 0)"
proof -
  have "hash_entries t = map (\<lambda>j. (tkey t j, tval t j))
      (filter (\<lambda>j. \<not> is_nil (tval t j)) [0..<length (nodes t)])"
    unfolding hash_entries_def by (subst filter_nodes) (simp add: comp_def)
  moreover have "map (slot t) (live_slots t 0 (asize t)) = arr_entries t 0 (asize t)"
    by (auto simp: arr_entries_def slot_def)
  ultimately show ?thesis
    unfolding entries_def positions_split by (simp add: slot_def comp_def)
qed

lemma tab_next_positions:
  assumes wf: "wf_tab sid t" and ki: "key_index sid t key = Inr (Some i)"
  shows "tab_next sid t key = Inr (map_option (slot t) (idx (positions t i) 0))"
proof -
  let ?N = "length (nodes t)" and ?j = "max i (asize t) - asize t"
  let ?A = "filter (\<lambda>p. \<not> is_nil (arr t ! p)) [i..<asize t]"
    and ?H = "filter (\<lambda>j. \<not> is_nil (tval t j)) [?j..<?N]"
  have len: "length (arr t) = asize t" and wh: "wf_hash sid t"
    using wf by (auto simp: wf_tab_def wf_array_def)
  have N: "?N = (if has_hpart t then Suc (hmask t) else 0)"
    using wh hash_size_okD(1)[of t] by (auto simp: wf_hash_def has_hpart_def split: if_splits)
  have pos: "positions t i = ?A @ map (\<lambda>j. j + asize t) ?H"
    by (rule positions_split)
  show ?thesis
  proof (cases ?A)
    case Nil
    then have "find (\<lambda>p. \<not> is_nil (arr t ! p)) [i..<asize t] = None"
      unfolding find_filter by (simp add: idx_def)
    moreover have "map_option (slot t) (idx (positions t i) 0) =
        map_option (\<lambda>j. (tkey t j, tval t j)) (idx ?H 0)"
      unfolding pos Nil by (simp add: idx_map option.map_comp comp_def slot_def)
    moreover have "idx ?H 0 = None" if "\<not> has_hpart t" using that N by (simp add: idx_def)
    ultimately show ?thesis
      using ki len N by (auto simp: tab_next_def find_filter split: if_splits)
  next
    case (Cons p ps)
    then have "find (\<lambda>p. \<not> is_nil (arr t ! p)) [i..<asize t] = Some p"
      unfolding find_filter by (simp add: idx_def)
    moreover have "p < asize t" using Cons filter_is_subset[of _ "[i..<asize t]"]
      by (metis atLeastLessThan_iff list.set_intros(1) set_upt subset_iff)
    moreover have "idx (positions t i) 0 = Some p" unfolding pos Cons by (simp add: idx_def)
    ultimately show ?thesis using ki len by (simp add: tab_next_def slot_def)
  qed
qed

lemma filter_upt_Suc_nth:
  assumes L: "L = filter P [0..<M]" and i: "i < length L" and p: "p = L ! i"
  shows "filter P [Suc p..<M] = drop (Suc i) L"
proof -
  have pM: "p < M" "P p" using nth_mem[OF i] by (auto simp: L p)
  let ?A = "filter P [0..<p]" and ?B = "filter P [Suc p..<M]"
  have LA: "L = ?A @ p # ?B" unfolding L upt_split_at[OF pM(1)] using pM(2) by simp
  have "L ! length ?A = p" by (subst LA) (rule nth_append_length)
  moreover have "length ?A < length L" by (subst LA) simp
  moreover have "distinct L" by (simp add: L)
  ultimately have "length ?A = i" using i p nth_eq_iff_index_eq by metis
  then show ?thesis by (subst LA) simp
qed

lemma positions_Suc:
  "i < length (positions t 0) \<Longrightarrow> positions t (Suc (positions t 0 ! i)) = drop (Suc i) (positions t 0)"
  by (rule filter_upt_Suc_nth) simp_all

lemma key_index_slot:
  assumes wf: "wf_tab sid t" and p: "p < asize t + length (nodes t)" "\<not> is_nil (snd (slot t p))"
  shows "key_index sid t (fst (slot t p)) = Inr (Some (Suc p))"
proof (cases "p < asize t")
  case True
  have "asize t \<le> LJ_MAX_ASIZE" using wf by (simp add: wf_tab_def wf_array_def)
  then have "array_key (number (nat_to_f64 p)) = Some p" "proper_key (number (nat_to_f64 p))"
    using True array_key_nat[of p] by simp_all
  then show ?thesis using True by (simp add: slot_def key_index_def in_array_def proper_key_def)
next
  case False
  let ?n = "p - asize t"
  have n: "?n < length (nodes t)" "\<not> is_nil (tval t ?n)" using p False by (auto simp: slot_def)
  have wh: "wf_hash sid t" using wf by (simp add: wf_tab_def)
  have h: "has_hpart t" using wh n(1) by (auto simp: wf_hash_def has_hpart_def split: if_splits)
  have k: "\<not> is_nil (tkey t ?n)" "in_array t (tkey t ?n) = None"
    using wf_node_nth[OF wh n(1)] n(2) by (auto simp: wf_node_def)
  obtain x where x: "find_node sid t (tkey t ?n) = Inr x"
    "case x of Some i \<Rightarrow> i < length (nodes t) \<and> tkey t i = tkey t ?n
     | None \<Rightarrow> \<forall>i<length (nodes t). tkey t i \<noteq> tkey t ?n"
    using find_node_correct[OF wh h k(1)] by blast
  have "x = Some ?n"
  proof (cases x)
    case None
    then show ?thesis using x(2) n(1) by auto
  next
    case (Some i)
    then show ?thesis using x(2) keys_uniqueD[OF wh h _ n(1), of i] k(1) by auto
  qed
  then show ?thesis using x(1) h k False by (simp add: slot_def key_index_def)
qed

text \<open>C4. Traversal with \<open>next\<close>: starting from nil and always passing the last key received,
  it visits the entries of the table one after the other and then ends; the entries are
  pairwise distinct keys, and they are exactly the keys whose lookup is not nil, with the
  value that the lookup gives.\<close>

theorem tab_next_enumerates:
  assumes "wf_tab sid t"
  shows "tab_next sid t NIL = Inr (idx (entries t) 0) \<and>
    (\<forall>i<length (entries t). tab_next sid t (fst (entries t ! i)) = Inr (idx (entries t) (Suc i))) \<and>
    distinct (map fst (entries t)) \<and>
    (\<forall>k v. (k, v) \<in> set (entries t) \<longleftrightarrow> proper_key k \<and> \<not> is_nil v \<and> tab_get sid t k = Inr v)"
proof (intro conjI allI impI)
  have "key_index sid t NIL = Inr (Some 0)" by (simp add: key_index_def)
  from tab_next_positions[OF assms this] show "tab_next sid t NIL = Inr (idx (entries t) 0)"
    by (simp add: entries_positions idx_map)
  show "tab_next sid t (fst (entries t ! i)) = Inr (idx (entries t) (Suc i))" if "i < length (entries t)" for i
  proof -
    have i: "i < length (positions t 0)" using that by (simp add: entries_positions)
    let ?p = "positions t 0 ! i"
    have "?p < asize t + length (nodes t)" "\<not> is_nil (snd (slot t ?p))" using nth_mem[OF i] by auto
    then have "key_index sid t (fst (slot t ?p)) = Inr (Some (Suc ?p))" by (rule key_index_slot[OF assms])
    from tab_next_positions[OF assms this] show ?thesis
      using i by (simp add: entries_positions positions_Suc idx_drop idx_map)
  qed
  show "distinct (map fst (entries t))" by (rule entries_distinct[OF assms])
  show "(k, v) \<in> set (entries t) \<longleftrightarrow> proper_key k \<and> \<not> is_nil v \<and> tab_get sid t k = Inr v" for k v
    unfolding entries_iff[OF assms] using tab.lookup_content[OF assms, of k] by auto
qed

theorem tab_next_enumerates_witness:
  "tab_next (\<lambda>_. 0) empty_table NIL = Inr (idx (entries empty_table) 0)"
  using tab_next_enumerates[OF empty_wf(1)] by blast

section \<open>Length\<close>

definition nil_at :: "ltable \<Rightarrow> nat \<Rightarrow> bool" where
  "nil_at t i = is_nil (cont t (number (int_to_f64 (int i))))"

definition border :: "(nat \<Rightarrow> bool) \<Rightarrow> nat \<Rightarrow> bool" where
  "border q n \<longleftrightarrow> (n = 0 \<or> \<not> q n) \<and> q (Suc n)"

lemma len_bsearch_border:
  "lo < hi \<Longrightarrow> (\<And>i. lo < i \<Longrightarrow> i < hi \<Longrightarrow> p i = Inr (q i)) \<Longrightarrow> lo = 0 \<or> \<not> q lo \<Longrightarrow> q hi \<Longrightarrow>
   \<exists>n. len_bsearch p lo hi = Inr n \<and> n < hi \<and> border q n"
proof (induction p lo hi rule: len_bsearch.induct)
  case (1 p lo hi)
  let ?mid = "(lo + hi) div 2"
  show ?case
  proof (cases "1 < hi - lo")
    case True
    then have mid: "lo < ?mid" "?mid < hi" by auto
    then have pm: "p ?mid = Inr (q ?mid)" using "1.prems"(2) by blast
    show ?thesis
    proof (cases "q ?mid")
      case q: True
      have "\<exists>n. len_bsearch p lo ?mid = Inr n \<and> n < ?mid \<and> border q n"
        by (rule "1.IH"(1)[OF True refl pm q]) (use "1.prems" mid q in auto)
      then show ?thesis using True pm q mid by (subst len_bsearch.simps) auto
    next
      case q: False
      have "\<exists>n. len_bsearch p ?mid hi = Inr n \<and> n < hi \<and> border q n"
        by (rule "1.IH"(2)[OF True refl pm q]) (use "1.prems" mid q in auto)
      then show ?thesis using True pm q by (subst len_bsearch.simps) simp
    qed
  next
    case False
    then have "hi = Suc lo" using "1.prems"(1) by simp
    then show ?thesis using "1.prems" False by (subst len_bsearch.simps) (auto simp: border_def)
  qed
qed

lemma cont_proper:
  assumes "wf_tab sid t"
  shows "proper_val (cont t k)"
proof (cases "in_array t k")
  case (Some i)
  then show ?thesis using assms wf_tab_has_arr[OF assms Some]
    by (auto simp: cont_def wf_tab_def wf_array_def)
qed (use assms hcont_proper in \<open>auto simp: cont_def wf_tab_def\<close>)

lemma int_nil_nil_at:
  assumes "wf_tab sid t" "i < 2 ^ 31"
  shows "int_nil sid t i = Inr (nil_at t i)"
proof -
  have "asize t \<le> LJ_MAX_ASIZE" using assms(1) by (simp add: wf_tab_def wf_array_def)
  then have "tab_get_int sid t (int i) = tab_get sid t (number (int_to_f64 (int i)))"
    by (rule tab_get_int_eq) (use assms(2) in auto)
  then show ?thesis
    using tab.lookup_content[OF assms(1) proper_key_number, of "int_to_f64 (int i)"]
    by (simp add: int_nil_def nil_at_def)
qed

lemma nil_at_array:
  assumes "wf_tab sid t" "i < asize t"
  shows "arr_nil t i = Inr (nil_at t i)"
proof -
  have a: "asize t \<le> LJ_MAX_ASIZE" "length (arr t) = asize t" using assms(1) by (auto simp: wf_tab_def wf_array_def)
  then have "in_array t (number (int_to_f64 (int i))) = Some i"
    using assms(2) array_key_int[of "int i"] by (simp add: in_array_def LJ_MAX_ASIZE_val)
  then show ?thesis using assms(2) a(2) by (simp add: arr_nil_def nil_at_def cont_def)
qed

lemma entries_bound: "wf_tab sid t \<Longrightarrow> length (entries t) < 2 ^ 30"
proof -
  assume wf: "wf_tab sid t"
  have "length (entries t) \<le> asize t + length (nodes t)"
    unfolding entries_positions using length_filter_le[of _ "[0..<asize t + length (nodes t)]"] by simp
  moreover have "asize t \<le> 2 ^ 27 + 1" using wf by (simp add: wf_tab_def wf_array_def LJ_MAX_ASIZE_val)
  moreover have "length (nodes t) \<le> 2 ^ 26"
  proof (cases "hmask t = 0")
    case False
    then obtain b where b: "b \<le> 26" "length (nodes t) = 2 ^ b"
      using wf by (auto simp: wf_tab_def wf_hash_def hash_size_ok_def LJ_MAX_HBITS_def)
    then show ?thesis using power_increasing[of b 26 "2::nat"] by simp
  qed (use wf in \<open>simp add: wf_tab_def wf_hash_def\<close>)
  ultimately show ?thesis by simp
qed

lemma ex_nil_at:
  assumes wf: "wf_tab sid t"
  shows "\<exists>j. 1 \<le> j \<and> j \<le> 2 ^ 30 \<and> nil_at t j"
proof (rule ccontr)
  assume "\<not> ?thesis"
  then have live: "\<not> nil_at t j" if "j \<in> {1..2 ^ 30}" for j using that by auto
  let ?f = "\<lambda>j. number (int_to_f64 (int j))"
  have "?f ` {1..2 ^ 30} \<subseteq> live_keys t"
    using live proper_key_number by (auto simp: live_keys_def nil_at_def)
  moreover have "inj_on ?f {1..2 ^ 30}"
  proof (rule inj_onI)
    fix i j :: nat assume ij: "i \<in> {1..2 ^ 30}" "j \<in> {1..2 ^ 30}" and e: "?f i = ?f j"
    have "as_int32_exact (?f i) = Some (int i)" by (rule as_int32_exact_number_int) (use ij(1) in auto)
    moreover have "as_int32_exact (?f j) = Some (int j)" by (rule as_int32_exact_number_int) (use ij(2) in auto)
    ultimately show "i = j" unfolding e by simp
  qed
  ultimately have "card {1..2 ^ 30::nat} \<le> card (live_keys t)"
    using live_keys_entries(3)[OF wf] by (metis card_image card_mono)
  then show False using live_keys_entries(2)[OF wf] entries_bound[OF wf] by simp
qed

lemma len_linear_border:
  assumes wf: "wf_tab sid t" and j: "nil_at t j" "j \<le> 2 ^ 30" "\<And>i. 1 \<le> i \<Longrightarrow> i < j \<Longrightarrow> \<not> nil_at t i"
  shows "1 \<le> i \<Longrightarrow> i \<le> j \<Longrightarrow> j - i < fuel \<Longrightarrow> len_linear fuel sid t i = Inr (j - 1)"
proof (induction fuel arbitrary: i)
  case (Suc fuel)
  have "int_nil sid t i = Inr (nil_at t i)" by (rule int_nil_nil_at[OF wf]) (use Suc.prems j(2) in simp)
  then show ?case using Suc j(1,3) by (cases "i = j") auto
qed simp

lemma len_hash_loop_border:
  assumes wf: "wf_tab sid t"
  shows "lo < hi \<Longrightarrow> hi < 2 ^ 31 \<Longrightarrow> lo = 0 \<or> \<not> nil_at t lo \<Longrightarrow> 2 ^ 31 \<le> hi * 2 ^ fuel \<Longrightarrow>
    \<exists>n. len_hash_loop fuel sid t lo hi = Inr n \<and> n < 2 ^ 31 \<and> border (nil_at t) n"
proof (induction fuel arbitrary: lo hi)
  case (Suc fuel)
  have nil: "int_nil sid t i = Inr (nil_at t i)" if "i \<le> hi" for i
    using int_nil_nil_at[OF wf] that Suc.prems(2) by simp
  consider (bs) "nil_at t hi" | (lin) "\<not> nil_at t hi" "2 ^ 30 - 2 < hi" | (dbl) "\<not> nil_at t hi" "hi \<le> 2 ^ 30 - 2"
    by linarith
  then show ?case
  proof cases
    case bs
    have "\<exists>n. len_bsearch (int_nil sid t) lo hi = Inr n \<and> n < hi \<and> border (nil_at t) n"
      by (rule len_bsearch_border) (use Suc.prems bs nil in auto)
    then show ?thesis using bs nil[of hi] Suc.prems(2) by fastforce
  next
    case lin
    define j where "j = (LEAST j. 1 \<le> j \<and> nil_at t j)"
    obtain k where k: "1 \<le> k \<and> nil_at t k" "k \<le> 2 ^ 30" using ex_nil_at[OF wf] by blast
    have j: "1 \<le> j" "nil_at t j" "j \<le> 2 ^ 30"
      using LeastI[of "\<lambda>j. 1 \<le> j \<and> nil_at t j", OF k(1)] Least_le[of "\<lambda>j. 1 \<le> j \<and> nil_at t j", OF k(1)] k(2)
      by (auto simp: j_def)
    have below: "\<not> nil_at t i" if "1 \<le> i" "i < j" for i
      using not_less_Least[of i "\<lambda>j. 1 \<le> j \<and> nil_at t j"] that by (auto simp: j_def)
    have "len_linear (2 ^ 31) sid t 1 = Inr (j - 1)"
      by (rule len_linear_border[OF wf j(2,3) below]) (use j in auto)
    moreover have "border (nil_at t) (j - 1)" using j below[of "j - 1"] by (cases "j = 1") (auto simp: border_def)
    ultimately show ?thesis using lin nil[of hi] j(3) by (simp del: len_linear.simps)
  next
    case dbl
    have "\<exists>n. len_hash_loop fuel sid t hi (hi * 2) = Inr n \<and> n < 2 ^ 31 \<and> border (nil_at t) n"
      by (rule Suc.IH) (use Suc.prems dbl in auto)
    then show ?thesis using dbl nil[of hi] by simp
  qed
qed simp

lemma tab_len_nil_at:
  assumes "wf_tab sid t"
  shows "\<exists>n. tab_len sid t = Inr n \<and> n < 2 ^ 31 \<and> border (nil_at t) n"
proof -
  let ?hi = "asize t - 1"
  have am: "asize t \<le> LJ_MAX_ASIZE" and wh: "wf_hash sid t"
    using assms by (auto simp: wf_tab_def wf_array_def)
  show ?thesis
  proof (cases "0 < ?hi \<and> nil_at t ?hi")
    case True
    then have "arr_nil t ?hi = Inr True" using nil_at_array[OF assms, of ?hi] by auto
    moreover have "\<exists>n. len_bsearch (arr_nil t) 0 ?hi = Inr n \<and> n < ?hi \<and> border (nil_at t) n"
      by (rule len_bsearch_border) (use True nil_at_array[OF assms] in auto)
    moreover have "?hi < 2 ^ 31" using am by (simp add: LJ_MAX_ASIZE_val)
    ultimately show ?thesis using True by (auto simp: tab_len_def Let_def)
  next
    case False
    then have "(if 0 < ?hi then arr_nil t ?hi else Inr False) = Inr False"
      using nil_at_array[OF assms, of ?hi] by auto
    then have eq: "tab_len sid t = (if \<not> has_hpart t then Inr ?hi else len_hash sid t ?hi)"
      by (cases "0 < ?hi") (simp_all add: tab_len_def Let_def)
    show ?thesis
    proof (cases "has_hpart t")
      case True
      have "\<exists>n. len_hash_loop 32 sid t ?hi (?hi + 1) = Inr n \<and> n < 2 ^ 31 \<and> border (nil_at t) n"
        by (rule len_hash_loop_border[OF assms]) (use False am in \<open>auto simp: LJ_MAX_ASIZE_val\<close>)
      then show ?thesis using eq True by (simp add: len_hash_def)
    next
      case no: False
      have "nodes t = []" using wh no by (simp add: wf_hash_def has_hpart_def)
      moreover have "in_array t (number (int_to_f64 (int (Suc ?hi)))) = None"
        using array_key_int[of "int (Suc ?hi)"] am by (auto simp: in_array_def LJ_MAX_ASIZE_val)
      ultimately have "nil_at t (Suc ?hi)" by (simp add: nil_at_def cont_def hcont_def)
      then show ?thesis using eq no False am by (auto simp: border_def LJ_MAX_ASIZE_val)
    qed
  qed
qed

text \<open>C9. The length operator returns a border on every well-formed table: an \<open>n\<close> such that
  \<open>n\<close> is 0 or \<open>t[n]\<close> is not nil, and \<open>t[n + 1]\<close> is nil. All three searches (binary search in the
  array, doubling in the hash part, the linear fallback) end.\<close>

theorem tab_len_border:
  assumes "wf_tab sid t"
  shows "\<exists>n. tab_len sid t = Inr n \<and> border (\<lambda>i. tab_get sid t (number (int_to_f64 (int i))) = Inr NIL) n"
proof -
  have "tab_get sid t (number (int_to_f64 (int i))) = Inr NIL \<longleftrightarrow> nil_at t i" for i
    using tab.lookup_content[OF assms proper_key_number] cont_proper[OF assms]
    by (auto simp: nil_at_def proper_val_def)
  then show ?thesis using tab_len_nil_at[OF assms] by auto
qed

theorem tab_len_border_witness:
  "\<exists>n. tab_len (\<lambda>_. 0) empty_table = Inr n \<and>
     border (\<lambda>i. tab_get (\<lambda>_. 0) empty_table (number (int_to_f64 (int i))) = Inr NIL) n"
  by (rule tab_len_border[OF empty_wf(1)])

end
