(* ===== verification/LJ_Table_Misc.thy ===== *)
theory LJ_Table_Misc
  imports LJ_Table_Iter
begin

unbundle bit_operations_syntax

text \<open>
  Template duplication, the fate of a negative-zero key, and the instances that show the
  hypotheses of the table properties to hold.
\<close>

section \<open>Duplication\<close>

definition no_table :: "lua_value \<Rightarrow> lua_value" where
  "no_table v = (if is_table v then NIL else v)"

lemma find_map_key: "(\<And>x. n_key (g x) = n_key x) \<Longrightarrow>
   find (\<lambda>nd. n_key nd = k) (map g xs) = map_option g (find (\<lambda>nd. n_key nd = k) xs)"
  by (induction xs) auto

lemma tab_dup_frame:
  "asize (tab_dup t) = asize t" "hmask (tab_dup t) = hmask t" "freetop (tab_dup t) = freetop t"
  "in_array (tab_dup t) = in_array t" "hash_slot sid (tab_dup t) = hash_slot sid t"
  by (auto simp: tab_dup_def intro!: in_array_cong hash_slot_cong)

lemma tab_dup_nodes:
  assumes "wf_hash sid t"
  shows "nodes (tab_dup t) = map (\<lambda>nd. if is_table (n_val nd) then nd\<lparr>n_val := NIL\<rparr> else nd) (nodes t)"
  using assms by (simp add: tab_dup_def wf_hash_def)

lemma tab_dup_wf:
  assumes wf: "wf_tab sid t"
  shows "wf_tab sid (tab_dup t)"
proof -
  have wh: "wf_hash sid t" and wa: "wf_array t" using wf by (auto simp: wf_tab_def)
  have len: "length (nodes (tab_dup t)) = length (nodes t)" using tab_dup_nodes[OF wh] by simp
  have nth: "tkey (tab_dup t) i = tkey t i" "tnext (tab_dup t) i = tnext t i"
    "tval (tab_dup t) i = no_table (tval t i)" if "i < length (nodes t)" for i
    using that by (simp_all add: tab_dup_nodes[OF wh] no_table_def)
  have a: "wf_array (tab_dup t)"
    using wa by (auto simp: wf_array_def tab_dup_def)
  have "wf_hash sid (tab_dup t)"
  proof (cases "has_hpart t")
    case True
    note w = wf_hashD[OF wh True]
    show ?thesis
    proof (rule wf_hash_update[OF wh True])
      show "chain_inv (length (nodes t)) NIL_NODE (hash_slot sid t) is_nil (tkey (tab_dup t)) (tnext (tab_dup t))"
        by (rule chain_inv_cong[OF w(4)]) (simp_all add: nth)
      show "wf_node t (nodes (tab_dup t) ! i)" if "i < length (nodes t)" for i
        using w(5)[OF that] nth[OF that] by (auto simp: wf_node_def no_table_def)
      show "\<not> is_nil (tkey (tab_dup t) i)" if "i < length (nodes t)" "freetop (tab_dup t) \<le> i" for i
        using w(3) that nth by (simp add: tab_dup_frame)
    qed (use w(2) len in \<open>simp_all add: tab_dup_frame\<close>)
  next
    case False
    then show ?thesis using wh by (simp add: wf_hash_def has_hpart_def tab_dup_def)
  qed
  then show ?thesis using a by (simp add: wf_tab_def)
qed

lemma tab_dup_cont:
  assumes wf: "wf_tab sid t"
  shows "cont (tab_dup t) k = no_table (cont t k)"
proof (cases "in_array t k")
  case (Some i)
  then show ?thesis using wf_tab_has_arr[OF wf Some]
    by (simp add: cont_def tab_dup_frame) (simp add: tab_dup_def no_table_def)
next
  case None
  have "hcont (tab_dup t) k = no_table (hcont t k)"
  proof -
    let ?g = "\<lambda>nd. if is_table (n_val nd) then nd\<lparr>n_val := NIL\<rparr> else nd"
    have "\<not> is_table NIL" by (simp add: is_table_def itype_defs)
    then show ?thesis using find_map_key[of ?g k "nodes t"] wf
      by (auto simp: hcont_def tab_dup_nodes[of sid] wf_tab_def no_table_def split: option.split)
  qed
  then show ?thesis using None by (simp add: cont_def tab_dup_frame)
qed

text \<open>Duplicating a template table gives a well-formed table with the same keys and
  values, except that a table value (the marker of a slot to be filled at run time) has
  become nil; the copy has no metatable.\<close>

theorem tab_dup_content:
  assumes "wf_tab sid t"
  shows "wf_tab sid (tab_dup t) \<and> metatable (tab_dup t) = None \<and>
    (\<forall>k v. proper_key k \<and> tab_get sid t k = Inr v \<longrightarrow>
       tab_get sid (tab_dup t) k = Inr (if is_table v then NIL else v))"
proof (intro conjI allI impI)
  show wf: "wf_tab sid (tab_dup t)" by (rule tab_dup_wf[OF assms])
  show "metatable (tab_dup t) = None" by (simp add: tab_dup_def)
  fix k v assume kv: "proper_key k \<and> tab_get sid t k = Inr v"
  then show "tab_get sid (tab_dup t) k = Inr (if is_table v then NIL else v)"
    using tab.lookup_content[OF assms, of k] tab.lookup_content[OF wf, of k] tab_dup_cont[OF assms, of k]
    by (auto simp: no_table_def)
qed

theorem tab_dup_content_witness:
  "wf_tab (\<lambda>_. 0) (tab_dup empty_table) \<and> metatable (tab_dup empty_table) = None"
  using tab_dup_content[OF empty_wf(1)] by blast

section \<open>Negative zero\<close>

definition NEG_ZERO :: lua_value where
  "NEG_ZERO = 0x8000000000000000"

lemma neg_zero:
  "number NEG_ZERO = 0" "is_number NEG_ZERO" "\<not> is_nil NEG_ZERO" "NEG_ZERO \<noteq> 0"
  "\<not> proper_key NEG_ZERO" "hash_slot sid t NEG_ZERO = hash_slot sid t 0" "proper_key 0"
proof -
  have z: "f64_is_zero NEG_ZERO"
    by (simp add: NEG_ZERO_def f64_is_zero_def f64_exp_def f64_frac_def unat_take_bit unat_drop_bit)
  then show n: "number NEG_ZERO = 0" by (simp add: number_simps)
  show num: "is_number NEG_ZERO" by (simp add: is_number_def NEG_ZERO_def itype_def itype_defs)
  then show "\<not> is_nil NEG_ZERO" by simp
  show ne: "NEG_ZERO \<noteq> 0" by (simp add: NEG_ZERO_def)
  show "\<not> proper_key NEG_ZERO"
    using n ne num by (simp add: proper_key_def normalize_key_number)
  show "hash_slot sid t NEG_ZERO = hash_slot sid t 0"
  proof -
    have "ucast NEG_ZERO = (0::u32)" "push_bit 1 (ucast (drop_bit 32 NEG_ZERO)) = (0::u32)" by code_simp+
    moreover have "\<not> is_string NEG_ZERO" "\<not> is_string 0" "is_number 0"
      by (simp_all add: is_string_def is_number_def NEG_ZERO_def itype_def itype_defs)
    ultimately show ?thesis using num by (simp add: hash_slot_def hash_key_def)
  qed
  show "proper_key 0" using proper_key_number[of 0] by (simp add: number_simps)
qed

lemma neg_zero_not_found:
  assumes wf: "wf_tab sid t" and a: "asize t = 0"
  shows "tab_get sid t NEG_ZERO = Inr NIL"
proof -
  have "tkey t i \<noteq> NEG_ZERO" if "i < length (nodes t)" for i
    using wf_node_nth[OF _ that, of sid] wf neg_zero(3,5) by (auto simp: wf_tab_def wf_node_def)
  then have "hcont t NEG_ZERO = NIL" by (intro hcont_absent) blast
  moreover have "in_array t NEG_ZERO = None" using a by (simp add: in_array_def split: option.split)
  ultimately show ?thesis using tab_get_cont[OF wf neg_zero(3)] by (simp add: cont_def)
qed

text \<open>C31. A negative-zero key is lost in the hash part: \<open>set\<close> compares the raw bits of the
  key with those of the nodes but stores the normalised key \<open>+0.0\<close>, and \<open>get\<close> compares raw
  bits again. In a table without array part and with a hash part, in which the key \<open>0\<close> is absent and
  its main slot is free, storing a proper value under \<open>-0.0\<close> makes the lookup of \<open>-0.0\<close> give
  nil, while \<open>+0.0\<close> gives the value. (With an array part the slot \<open>0\<close> serves both zeros and the value
  is found.)\<close>

theorem negative_zero_key_lost:
  assumes "wf_tab sid t" and "asize t = 0" and "has_hpart t" and "proper_val v"
    and "\<forall>i<length (nodes t). tkey t i \<noteq> 0" and "is_nil (tval t (hash_slot sid t 0))"
  shows "\<exists>t'. tab_set sid t NEG_ZERO v = Inr t' \<and>
    tab_get sid t' NEG_ZERO = Inr NIL \<and> tab_get sid t' 0 = Inr v"
proof -
  let ?n = "hash_slot sid t 0"
  let ?t = "t\<lparr>nodes := (nodes t)[?n := (nodes t ! ?n)\<lparr>n_key := 0\<rparr>]\<rparr>"
  have wh: "wf_hash sid t" and wa: "wf_array t" using assms(1) by (auto simp: wf_tab_def)
  have none: "in_array t NEG_ZERO = None" "in_array t 0 = None"
    using assms(2) by (simp_all add: in_array_def split: option.split)
  have nN: "?n < length (nodes t)" by (rule hash_slot_less[OF wf_hashD(1)[OF wh assms(3)]])
  have p: "placed sid t 0 ?n ?t"
    by (rule placed_main[OF wh assms(3) neg_zero(7) none(2) assms(5) refl assms(6)])
  then have "placed sid t 0 ?n (?t\<lparr>nomm := 0\<rparr>)"
    unfolding placed_def wf_hash_nomm using assms(6) nN by (simp add: hcont_def used_def)
  note st = placed_stored[OF this wa assms(3) neg_zero(7) none(2) assms(4)]
  obtain x where x: "find_node sid t NEG_ZERO = Inr x"
    "case x of Some i \<Rightarrow> i < length (nodes t) \<and> tkey t i = NEG_ZERO
      | None \<Rightarrow> \<forall>i<length (nodes t). tkey t i \<noteq> NEG_ZERO"
    using find_node_correct[OF wh assms(3) neg_zero(3)] by blast
  have xN: "x = None"
  proof (cases x)
    case (Some i)
    then show ?thesis using x(2) wf_node_nth[OF wh, of i] neg_zero(3,5) by (auto simp: wf_node_def)
  qed
  have hp: "has_hpart (t\<lparr>nomm := 0\<rparr>)" using assms(3) by (simp add: has_hpart_def)
  have "try_new_key R sid t NEG_ZERO = Inr (Some ?n, ?t\<lparr>nomm := 0\<rparr>)" for R
    using assms(6) nN neg_zero(1,2) neg_zero(6)[of sid] hp
    by (simp add: try_new_key_def Let_def node_slot_ok node_slot_mut_def normalize_key_number hash_slot_def)
  then have "set_loop (Suc 2) sid t NEG_ZERO v = Inr (store_node (?t\<lparr>nomm := 0\<rparr>) ?n v)"
    unfolding set_loop.simps(2)[of 2] using none(1) x(1) xN assms(3) nN
    by (simp add: node_slot_mut_val del: set_loop.simps)
  moreover have "nomm_reset NEG_ZERO t = t"
    by (simp add: nomm_reset_def is_string_def NEG_ZERO_def itype_def itype_defs)
  ultimately have set: "tab_set sid t NEG_ZERO v = Inr (store_node (?t\<lparr>nomm := 0\<rparr>) ?n v)"
    by (simp only: tab_set_unfold)
  show ?thesis
  proof (intro exI conjI)
    show "tab_set sid t NEG_ZERO v = Inr (store_node (?t\<lparr>nomm := 0\<rparr>) ?n v)" by (rule set)
    show "tab_get sid (store_node (?t\<lparr>nomm := 0\<rparr>) ?n v) NEG_ZERO = Inr NIL"
      by (rule neg_zero_not_found) (use st assms(2) in \<open>simp_all add: stored_def\<close>)
    show "tab_get sid (store_node (?t\<lparr>nomm := 0\<rparr>) ?n v) 0 = Inr v"
      using tab.lookup_content[of sid _ 0] st neg_zero(7) by (simp add: stored_def)
  qed
qed

theorem negative_zero_key_lost_witness:
  "\<exists>t'. tab_set (\<lambda>_. 0) (base empty_table 0 1) NEG_ZERO TRUE = Inr t' \<and>
     tab_get (\<lambda>_. 0) t' NEG_ZERO = Inr NIL \<and> tab_get (\<lambda>_. 0) t' 0 = Inr TRUE"
proof (rule negative_zero_key_lost[OF base_wf(1)[OF empty_wf(1)] _ _ proper_TRUE])
  let ?t = "base empty_table 0 1"
  have nd: "nodes ?t ! i = EMPTY_NODE" if "i < length (nodes ?t)" for i
    using that by (simp add: base_def)
  have "hash_slot (\<lambda>_. 0) ?t 0 < length (nodes ?t)"
    using hash_slot_le[of "\<lambda>_. 0" ?t 0] by (simp add: base_def hash_cap_def)
  then show "is_nil (tval ?t (hash_slot (\<lambda>_. 0) ?t 0))" using nd by (simp add: EMPTY_NODE_def)
  show "\<forall>i<length (nodes ?t). tkey ?t i \<noteq> 0"
    using nd by (simp add: EMPTY_NODE_def NIL_def pri_def itype_defs)
qed (simp_all add: LJ_MAX_HBITS_def base_def has_hpart_def hash_cap_def)

end
