(* ===== verification/LJ_Gc.thy ===== *)
theory LJ_Gc
  imports LJ_Prelude "HOL-Library.Multiset"
begin

unbundle bit_operations_syntax

text \<open>
  The object header and the object pools of \<open>runtime/gc.rs\<close>: colour and age bits, allocation
  with a free list, and the limited (incremental) sweep.

  A pool is a record over an explicit memory: \<open>mem a\<close> is the object and the header of the
  block at address \<open>a\<close> (the data address; the header sits at a fixed offset before it). The
  free list has its end, where \<open>push\<close> and \<open>pop\<close> work, at the head. The operating system's
  allocator is the argument \<open>os\<close>: given the addresses in use it returns a block.
\<close>

section \<open>Headers\<close>

record gc_header =
  marked :: bool
  bits :: u8

definition BIT_WHITE0 :: u8 where "BIT_WHITE0 = 0b00001000"
definition BIT_WHITE1 :: u8 where "BIT_WHITE1 = 0b00010000"
definition BIT_BLACK :: u8 where "BIT_BLACK = 0b00100000"
definition BIT_FINALIZED :: u8 where "BIT_FINALIZED = 0b01000000"
definition COLOR_MASK :: u8 where "COLOR_MASK = (BIT_WHITE0 OR BIT_WHITE1) OR BIT_BLACK"
definition AGE_MASK :: u8 where "AGE_MASK = 0b00000111"

lemmas bit_defs [lj_defs] =
  BIT_WHITE0_def BIT_WHITE1_def BIT_BLACK_def BIT_FINALIZED_def COLOR_MASK_def AGE_MASK_def

definition header_new :: "u8 \<Rightarrow> gc_header" where
  "header_new current_white =
     \<lparr>marked = False, bits = (if current_white = 0 then BIT_WHITE0 else BIT_WHITE1)\<rparr>"

definition is_black :: "gc_header \<Rightarrow> bool" where
  "is_black h \<longleftrightarrow> bits h AND BIT_BLACK \<noteq> 0"

definition change_white :: "gc_header \<Rightarrow> gc_header" where
  "change_white h =
     (if bits h AND BIT_WHITE0 \<noteq> 0
      then h\<lparr>bits := (bits h AND NOT COLOR_MASK) OR BIT_WHITE1\<rparr>
      else h\<lparr>bits := (bits h AND NOT COLOR_MASK) OR BIT_WHITE0\<rparr>)"

definition nw2black :: "gc_header \<Rightarrow> gc_header" where
  "nw2black h = h\<lparr>bits := (bits h AND NOT COLOR_MASK) OR BIT_BLACK\<rparr>"

definition make_gray :: "gc_header \<Rightarrow> gc_header" where
  "make_gray h = h\<lparr>bits := bits h AND NOT COLOR_MASK\<rparr>"

definition is_dead :: "gc_header \<Rightarrow> u8 \<Rightarrow> bool" where
  "is_dead h current_white \<longleftrightarrow>
     (if current_white = 0 then bits h AND BIT_WHITE1 \<noteq> 0 else bits h AND BIT_WHITE0 \<noteq> 0)"

definition otherwhite :: "u8 \<Rightarrow> u8" where
  "otherwhite current_white = (if current_white = 0 then BIT_WHITE1 else BIT_WHITE0)"

definition is_finalized :: "gc_header \<Rightarrow> bool" where
  "is_finalized h \<longleftrightarrow> bits h AND BIT_FINALIZED \<noteq> 0"

definition set_finalized :: "gc_header \<Rightarrow> gc_header" where
  "set_finalized h = h\<lparr>bits := bits h OR BIT_FINALIZED\<rparr>"

definition make_undead :: "gc_header \<Rightarrow> gc_header" where
  "make_undead h = h\<lparr>bits := bits h AND NOT COLOR_MASK\<rparr>"

definition make_dead_next :: "gc_header \<Rightarrow> u8 \<Rightarrow> gc_header" where
  "make_dead_next h current_white =
     (let color = (if current_white = 0 then BIT_WHITE0 else BIT_WHITE1)
      in h\<lparr>bits := ((bits h AND NOT COLOR_MASK) OR BIT_FINALIZED) OR color\<rparr>)"

datatype age = New | Survival | Old0 | Old1 | Old | Touched1 | Touched2

definition age_is_old :: "age \<Rightarrow> bool" where
  "age_is_old a \<longleftrightarrow> a = Old \<or> a = Touched1 \<or> a = Touched2"

primrec age_code :: "age \<Rightarrow> u8" where
  "age_code New = 0" | "age_code Survival = 1" | "age_code Old0 = 2" | "age_code Old1 = 3"
| "age_code Old = 4" | "age_code Touched1 = 5" | "age_code Touched2 = 6"

definition header_age :: "gc_header \<Rightarrow> age" where
  "header_age h =
     (let a = bits h AND AGE_MASK
      in if a = 0 then New else if a = 1 then Survival else if a = 2 then Old0
         else if a = 3 then Old1 else if a = 4 then Old else if a = 5 then Touched1
         else if a = 6 then Touched2 else Old)"

definition set_age :: "gc_header \<Rightarrow> age \<Rightarrow> gc_header" where
  "set_age h a = h\<lparr>bits := (bits h AND NOT AGE_MASK) OR age_code a\<rparr>"

definition header_is_old :: "gc_header \<Rightarrow> bool" where
  "header_is_old h = age_is_old (header_age h)"

definition set_marked :: "gc_header \<Rightarrow> gc_header" where
  "set_marked h = nw2black (h\<lparr>marked := True\<rparr>)"

section \<open>Pools\<close>

definition ADDR_MAX :: nat where "ADDR_MAX = 2 ^ 47"
definition DEFAULT_TRIM_THRESHOLD :: nat where "DEFAULT_TRIM_THRESHOLD = 2 * 1024 * 1024"

type_synonym addr = nat
type_synonym os_alloc = "addr list \<Rightarrow> addr \<times> bool"

record 'a pool =
  objects :: "addr list"
  mapped :: "bool list"
  live_count :: nat
  current_white :: u8
  freelist :: "(addr \<times> bool) list"
  free_bytes :: nat
  trim_check :: nat
  mem :: "addr \<Rightarrow> 'a \<times> gc_header"

definition pool_new :: "(addr \<Rightarrow> 'a \<times> gc_header) \<Rightarrow> 'a pool" where
  "pool_new m = \<lparr>objects = [], mapped = [], live_count = 0, current_white = 0, freelist = [],
     free_bytes = 0, trim_check = DEFAULT_TRIM_THRESHOLD, mem = m\<rparr>"

definition pool_alloc :: "os_alloc \<Rightarrow> nat \<Rightarrow> 'a pool \<Rightarrow> 'a \<Rightarrow> addr \<times> 'a pool" where
  "pool_alloc os sz p v =
     (let cw = current_white p;
          (a, m, fl, fb) =
            (case freelist p of
               (raw, mp) # rest \<Rightarrow> (raw, mp, rest, free_bytes p - sz)
             | [] \<Rightarrow> (case os (objects p) of (a, mp) \<Rightarrow> (a, mp, [], free_bytes p)))
      in (a, p\<lparr>objects := objects p @ [a], mapped := mapped p @ [m],
               live_count := live_count p + 1, freelist := fl, free_bytes := fb,
               mem := (mem p)(a := (v, header_new cw))\<rparr>))"

text \<open>\<open>retire\<close>: the trim loop pops blocks until the reserve is reached.\<close>

primrec trim :: "nat \<Rightarrow> nat \<Rightarrow> (addr \<times> bool) list \<Rightarrow> nat \<Rightarrow> (addr \<times> bool) list \<times> nat" where
  "trim sz reserve [] fb = ([], fb)"
| "trim sz reserve (x # xs) fb =
     (if reserve < fb then trim sz reserve xs (fb - sz) else (x # xs, fb))"

definition retire :: "nat \<Rightarrow> 'a pool \<Rightarrow> addr \<Rightarrow> bool \<Rightarrow> 'a pool" where
  "retire sz p a m =
     (let fl = (a, m) # freelist p;
          fb = free_bytes p + sz
      in if trim_check p < fb
         then (case trim sz (trim_check p div 2) fl fb of
                 (fl', fb') \<Rightarrow> p\<lparr>freelist := fl', free_bytes := fb'\<rparr>)
         else p\<lparr>freelist := fl, free_bytes := fb\<rparr>)"

definition swap_remove :: "'b list \<Rightarrow> nat \<Rightarrow> 'b list" where
  "swap_remove xs i = butlast (xs[i := last xs])"

definition remove_obj :: "'a pool \<Rightarrow> nat \<Rightarrow> 'a pool" where
  "remove_obj p i = p\<lparr>objects := swap_remove (objects p) i, mapped := swap_remove (mapped p) i\<rparr>"

definition survives :: "u8 \<Rightarrow> gc_header \<Rightarrow> bool" where
  "survives cw h \<longleftrightarrow> marked h \<or> \<not> is_dead h cw \<and> \<not> is_black h"

definition survivor_header :: "gc_header \<Rightarrow> gc_header" where
  "survivor_header h = (if marked h then change_white h else h)\<lparr>marked := False\<rparr>"

definition bad_addr :: "addr \<Rightarrow> bool" where
  "bad_addr a \<longleftrightarrow> a \<le> 0x1000 \<or> ADDR_MAX \<le> a"

text \<open>One iteration of the loop of \<open>sweep_limited\<close> at index \<open>i\<close>, and the loop, bounded by the
  number of objects still to be scanned. \<open>on_free\<close> is the callback on each freed object; \<open>s\<close> is
  the state it updates.\<close>

definition sweep_step ::
  "nat \<Rightarrow> u8 \<Rightarrow> ('a \<Rightarrow> 's \<Rightarrow> 's) \<Rightarrow> 'a pool \<times> nat \<times> 's \<Rightarrow> 'a pool \<times> nat \<times> 's" where
  "sweep_step sz cw on_free = (\<lambda>(p, i, s).
     let a = objects p ! i;
         h = snd (mem p a)
     in if bad_addr a then (remove_obj p i, i, s)
        else if survives cw h
        then (p\<lparr>mem := (mem p)(a := (fst (mem p a), survivor_header h))\<rparr>, Suc i, s)
        else (remove_obj (retire sz p a (mapped p ! i)) i, i, on_free (fst (mem p a)) s))"

primrec sweep_loop ::
  "nat \<Rightarrow> nat \<Rightarrow> u8 \<Rightarrow> ('a \<Rightarrow> 's \<Rightarrow> 's) \<Rightarrow> 'a pool \<times> nat \<times> 's \<Rightarrow> 'a pool \<times> nat \<times> 's" where
  "sweep_loop 0 sz cw on_free st = st"
| "sweep_loop (Suc n) sz cw on_free st =
     (if fst (snd st) < length (objects (fst st))
      then sweep_loop n sz cw on_free (sweep_step sz cw on_free st)
      else st)"

definition sweep_limited ::
  "nat \<Rightarrow> u8 \<Rightarrow> ('a \<Rightarrow> 's \<Rightarrow> 's) \<Rightarrow> nat \<Rightarrow> nat \<Rightarrow> 'a pool \<times> 's \<Rightarrow> ('a pool \<times> 's) \<times> bool \<times> nat" where
  "sweep_limited sz cw on_free limit start ps =
     (case sweep_loop limit sz cw on_free (fst ps, start, snd ps) of
        (p, i, s) \<Rightarrow> ((p\<lparr>live_count := length (objects p)\<rparr>, s), length (objects p) \<le> i, i))"

definition USIZE_MAX :: nat where "USIZE_MAX = 2 ^ 64 - 1"

definition sweep_tricolor ::
  "nat \<Rightarrow> u8 \<Rightarrow> ('a \<Rightarrow> 's \<Rightarrow> 's) \<Rightarrow> 'a pool \<times> 's \<Rightarrow> 'a pool \<times> 's" where
  "sweep_tricolor sz cw on_free ps = fst (sweep_limited sz cw on_free USIZE_MAX 0 ps)"

definition reset_marked :: "'a pool \<Rightarrow> 'a pool" where
  "reset_marked p = p\<lparr>mem := (\<lambda>a. if a \<in> set (objects p)
     then (fst (mem p a), (snd (mem p a))\<lparr>marked := False\<rparr>) else mem p a)\<rparr>"

definition update_current_white :: "'a pool \<Rightarrow> u8 \<Rightarrow> 'a pool" where
  "update_current_white p cw = p\<lparr>current_white := cw\<rparr>"

definition ptr_set_marked :: "'a pool \<Rightarrow> addr \<Rightarrow> 'a pool" where
  "ptr_set_marked p a = p\<lparr>mem := (mem p)(a := (fst (mem p a), set_marked (snd (mem p a))))\<rparr>"

section \<open>Header fields\<close>

lemma and_other_field:
  fixes a b c w :: "'a::len word"
  assumes "c AND a = 0" "w AND a = 0"
  shows "((b AND NOT c) OR w) AND a = b AND a" "(b AND NOT c) AND a = b AND a" "(b OR w) AND a = b AND a"
proof -
  have "bit c n \<longrightarrow> \<not> bit a n" "bit w n \<longrightarrow> \<not> bit a n" for n
    using assms by (metis bit_and_iff bit_0_eq bot_apply bot_bool_def)+
  then show "((b AND NOT c) OR w) AND a = b AND a" "(b AND NOT c) AND a = b AND a" "(b OR w) AND a = b AND a"
    by (auto intro!: bit_word_eqI simp: bit_simps)
qed

lemma and_clear_other:
  fixes a b c :: "'a::len word"
  assumes "c AND a = 0"
  shows "(b AND NOT c) AND a = b AND a"
  using and_other_field(2)[OF assms, of 0] by simp

lemma and_same_field:
  fixes a b c w :: "'a::len word"
  assumes "a AND NOT c = 0"
  shows "((b AND NOT c) OR w) AND a = w AND a" "(b AND NOT c) AND a = 0"
proof -
  have "bit a n \<longrightarrow> n < LENGTH('a) \<longrightarrow> bit c n" for n
    using assms by (metis bit_and_iff bit_not_iff bit_0_eq bot_apply bot_bool_def impossible_bit)
  then show "((b AND NOT c) OR w) AND a = w AND a" "(b AND NOT c) AND a = 0"
    by (auto intro!: bit_word_eqI simp: bit_simps)
qed

lemma field_consts:
  "COLOR_MASK AND AGE_MASK = 0" "AGE_MASK AND BIT_BLACK = 0" "AGE_MASK AND BIT_WHITE0 = 0"
  "AGE_MASK AND BIT_WHITE1 = 0" "AGE_MASK AND BIT_FINALIZED = 0" "COLOR_MASK AND BIT_FINALIZED = 0"
  "BIT_WHITE0 AND AGE_MASK = 0" "BIT_WHITE1 AND AGE_MASK = 0" "BIT_BLACK AND AGE_MASK = 0"
  "BIT_WHITE0 AND BIT_FINALIZED = 0" "BIT_WHITE1 AND BIT_FINALIZED = 0" "BIT_BLACK AND BIT_FINALIZED = 0"
  "BIT_BLACK AND NOT COLOR_MASK = 0" "BIT_WHITE0 AND NOT COLOR_MASK = 0" "BIT_WHITE1 AND NOT COLOR_MASK = 0"
  "BIT_WHITE0 AND BIT_BLACK = 0" "BIT_WHITE1 AND BIT_BLACK = 0" "BIT_BLACK AND BIT_BLACK \<noteq> 0"
  "BIT_BLACK AND BIT_WHITE0 = 0" "BIT_BLACK AND BIT_WHITE1 = 0" "BIT_WHITE0 AND BIT_WHITE1 = 0"
  "BIT_WHITE1 AND BIT_WHITE0 = 0" "BIT_WHITE0 AND BIT_WHITE0 \<noteq> 0" "BIT_WHITE1 AND BIT_WHITE1 \<noteq> 0"
  "AGE_MASK AND NOT AGE_MASK = 0" "BIT_BLACK \<noteq> 0" "BIT_WHITE0 \<noteq> 0" "BIT_WHITE1 \<noteq> 0"
  by (simp_all add: bit_defs)

lemma age_code_field:
  "age_code a AND BIT_BLACK = 0" "age_code a AND BIT_WHITE0 = 0" "age_code a AND BIT_WHITE1 = 0"
  "age_code a AND BIT_FINALIZED = 0" "age_code a AND AGE_MASK = age_code a"
  by (cases a; simp add: bit_defs)+

lemma header_age_code: "bits h AND AGE_MASK = age_code a \<Longrightarrow> header_age h = a"
  by (cases a) (simp_all add: header_age_def Let_def)

lemma recolor_age:
  "header_age (change_white h) = header_age h" "header_age (nw2black h) = header_age h"
  "header_age (make_gray h) = header_age h"
  by (simp_all add: header_age_def change_white_def nw2black_def make_gray_def and_other_field and_clear_other field_consts)

lemma recolor_finalized:
  "is_finalized (change_white h) = is_finalized h" "is_finalized (nw2black h) = is_finalized h"
  by (simp_all add: is_finalized_def change_white_def nw2black_def and_other_field field_consts)

lemma set_age_fields:
  "header_age (set_age h a) = a" "is_black (set_age h a) = is_black h"
  "is_dead (set_age h a) cw = is_dead h cw" "is_finalized (set_age h a) = is_finalized h"
proof -
  show "header_age (set_age h a) = a"
    by (rule header_age_code) (simp add: set_age_def and_same_field field_consts age_code_field)
qed (simp_all add: set_age_def is_black_def is_dead_def is_finalized_def and_other_field field_consts age_code_field)

lemma recolored:
  "is_black (nw2black h)" "\<not> is_dead (nw2black h) cw" "\<not> is_black (change_white h)"
  "is_dead (change_white h) 0 \<longleftrightarrow> \<not> is_dead (change_white h) 1"
  "\<not> is_black (make_gray h)" "\<not> is_dead (make_gray h) cw"
  by (simp_all add: is_black_def is_dead_def nw2black_def change_white_def make_gray_def and_same_field field_consts)

text \<open>The bit fields of a header are independent. Recolouring (to the other white, to
  black, to grey) keeps the age and the finalized flag; setting the age is read back and keeps
  the colour and the flag; a black header is neither white; a recoloured white header is dead
  for exactly one of the two current whites.\<close>

theorem header_fields:
  "header_age (set_age h a) = a \<and>
   (is_black (set_age h a) \<longleftrightarrow> is_black h) \<and> (is_dead (set_age h a) cw \<longleftrightarrow> is_dead h cw) \<and>
   (is_finalized (set_age h a) \<longleftrightarrow> is_finalized h) \<and>
   header_age (change_white h) = header_age h \<and> header_age (nw2black h) = header_age h \<and>
   header_age (make_gray h) = header_age h \<and>
   (is_finalized (change_white h) \<longleftrightarrow> is_finalized h) \<and> (is_finalized (nw2black h) \<longleftrightarrow> is_finalized h) \<and>
   is_black (nw2black h) \<and> \<not> is_dead (nw2black h) cw \<and>
   \<not> is_black (change_white h) \<and> (is_dead (change_white h) 0 \<longleftrightarrow> \<not> is_dead (change_white h) 1) \<and>
   \<not> is_black (make_gray h) \<and> \<not> is_dead (make_gray h) cw"
  using recolored(4)[of h] by (simp add: set_age_fields recolor_age recolor_finalized recolored(1-3,5,6))

section \<open>Sweeping\<close>

lemma swap_remove_snoc:
  "swap_remove (ys @ [z]) i = (if i < length ys then ys[i := z] else ys)"
  by (auto simp: swap_remove_def list_update_append split: nat.split)

lemma swap_remove_facts:
  assumes "i < length xs"
  shows "mset (swap_remove xs i) = mset xs - {#xs ! i#}" "take i (swap_remove xs i) = take i xs"
    "length (swap_remove xs i) = length xs - 1"
proof -
  obtain ys z where xs: "xs = ys @ [z]" using assms by (cases xs rule: rev_cases) auto
  show "mset (swap_remove xs i) = mset xs - {#xs ! i#}"
  proof (cases "i < length ys")
    case True
    then show ?thesis unfolding xs swap_remove_snoc by (simp add: mset_update nth_append)
  next
    case False
    then have "i = length ys" using assms xs by simp
    then show ?thesis unfolding xs swap_remove_snoc by simp
  qed
  show "take i (swap_remove xs i) = take i xs" "length (swap_remove xs i) = length xs - 1"
    using assms unfolding xs swap_remove_snoc by auto
qed

lemma sweep_loop_done: "length (objects (fst st)) \<le> fst (snd st) \<Longrightarrow> sweep_loop n sz cw f st = st"
  by (cases n) simp_all

lemma sweep_loop_add: "sweep_loop (m + n) sz cw f st = sweep_loop n sz cw f (sweep_loop m sz cw f st)"
proof (induction m arbitrary: st)
  case (Suc m)
  then show ?case by (simp add: sweep_loop_done not_less)
qed simp

lemma sweep_step_live_count:
  "sweep_step sz cw f (p\<lparr>live_count := x\<rparr>, i, s) =
     (case sweep_step sz cw f (p, i, s) of (p', i', s') \<Rightarrow> (p'\<lparr>live_count := x\<rparr>, i', s'))"
  by (simp add: sweep_step_def Let_def remove_obj_def retire_def split: prod.split)

lemma sweep_loop_live_count:
  "sweep_loop n sz cw f (p\<lparr>live_count := x\<rparr>, i, s) =
     (case sweep_loop n sz cw f (p, i, s) of (p', i', s') \<Rightarrow> (p'\<lparr>live_count := x\<rparr>, i', s'))"
proof (induction n arbitrary: p i s)
  case (Suc n)
  obtain p' i' s' where st: "sweep_step sz cw f (p, i, s) = (p', i', s')" by (metis prod_cases3)
  then show ?case using Suc sweep_step_live_count[of sz cw f x p i s] by simp
qed simp

text \<open>The incremental sweep: a sweep limited to \<open>m\<close> objects, continued at the index it
  returns with a limit of \<open>n\<close>, is the sweep limited to \<open>m + n\<close> objects; how the work is cut
  into steps does not matter.\<close>

theorem sweep_limited_resume:
  "sweep_limited sz cw on_free (m + n) start ps =
     (case sweep_limited sz cw on_free m start ps of
        (ps', pool_done, i) \<Rightarrow> sweep_limited sz cw on_free n i ps')"
proof -
  obtain p i s where l: "sweep_loop m sz cw on_free (fst ps, start, snd ps) = (p, i, s)"
    by (metis prod_cases3)
  obtain p' i' s' where l': "sweep_loop n sz cw on_free (p, i, s) = (p', i', s')"
    by (metis prod_cases3)
  show ?thesis
    by (simp add: sweep_limited_def sweep_loop_add l l' sweep_loop_live_count)
qed

definition pool_wf :: "'a pool \<Rightarrow> bool" where
  "pool_wf p \<longleftrightarrow> distinct (objects p) \<and> length (mapped p) = length (objects p) \<and>
     live_count p = length (objects p) \<and> (\<forall>a\<in>set (objects p). \<not> bad_addr a) \<and>
     distinct (map fst (freelist p)) \<and> set (map fst (freelist p)) \<inter> set (objects p) = {} \<and>
     (\<forall>a\<in>set (map fst (freelist p)). \<not> bad_addr a)"

lemma trim_prefix: "\<exists>ys. xs = ys @ fst (trim sz r xs fb)"
proof (induction xs arbitrary: fb)
  case (Cons x xs)
  show ?case
  proof (cases "r < fb")
    case True
    obtain ys where "xs = ys @ fst (trim sz r xs (fb - sz))" using Cons.IH by blast
    then have "x # xs = (x # ys) @ fst (trim sz r (x # xs) fb)" using True by simp
    then show ?thesis by blast
  qed simp
qed simp

lemma retire_facts:
  "objects (retire sz p a m) = objects p" "mapped (retire sz p a m) = mapped p"
  "mem (retire sz p a m) = mem p" "live_count (retire sz p a m) = live_count p"
  "current_white (retire sz p a m) = current_white p"
  "\<exists>ys. (a, m) # freelist p = ys @ freelist (retire sz p a m)"
proof -
  show "\<exists>ys. (a, m) # freelist p = ys @ freelist (retire sz p a m)"
    using trim_prefix[of "(a, m) # freelist p" sz "trim_check p div 2" "free_bytes p + sz"]
    by (auto simp: retire_def Let_def simp del: trim.simps split: prod.split)
qed (simp_all add: retire_def Let_def split: prod.split)

text \<open>The state of a sweep of \<open>p0\<close>: the first \<open>i\<close> objects survived and were whitened, the others
  are still to be scanned, the objects in \<open>D\<close> were freed in that order.\<close>

definition sweep_inv ::
  "u8 \<Rightarrow> ('a \<Rightarrow> 's \<Rightarrow> 's) \<Rightarrow> 'a pool \<Rightarrow> 's \<Rightarrow> addr list \<Rightarrow> 'a pool \<times> nat \<times> 's \<Rightarrow> bool" where
  "sweep_inv cw on_free p0 s0 D = (\<lambda>(p, i, s).
     i \<le> length (objects p) \<and> mset (objects p0) = mset (objects p) + mset D \<and>
     length (mapped p) = length (objects p) \<and>
     (\<forall>a\<in>set (take i (objects p)). survives cw (snd (mem p0 a)) \<and>
        mem p a = (fst (mem p0 a), survivor_header (snd (mem p0 a)))) \<and>
     (\<forall>a. a \<notin> set (take i (objects p)) \<longrightarrow> mem p a = mem p0 a) \<and>
     (\<forall>a\<in>set D. \<not> survives cw (snd (mem p0 a))) \<and>
     s = fold on_free (map (\<lambda>a. fst (mem p0 a)) D) s0 \<and> current_white p = current_white p0 \<and>
     distinct (map fst (freelist p)) \<and> set (map fst (freelist p)) \<subseteq> set (map fst (freelist p0)) \<union> set D)"

lemma sweep_inv_objects:
  assumes "pool_wf p0" "sweep_inv cw f p0 s0 D (p, i, s)"
  shows "distinct (objects p @ D)" "set (objects p @ D) = set (objects p0)"
    "a \<in> set (objects p) \<Longrightarrow> \<not> bad_addr a"
proof -
  have e: "mset (objects p0) = mset (objects p @ D)" using assms(2) by (simp add: sweep_inv_def)
  then show "distinct (objects p @ D)" using assms(1) mset_eq_imp_distinct_iff[OF e] by (simp add: pool_wf_def)
  show st: "set (objects p @ D) = set (objects p0)" using e by (metis mset_eq_setD)
  show "\<not> bad_addr a" if "a \<in> set (objects p)" using that st assms(1) by (auto simp: pool_wf_def)
qed

lemma sweep_step_inv:
  assumes wf: "pool_wf p0" and inv: "sweep_inv cw f p0 s0 D (p, i, s)" and i: "i < length (objects p)"
  shows "\<exists>D'. sweep_inv cw f p0 s0 D' (sweep_step sz cw f (p, i, s)) \<and>
    length (objects (fst (sweep_step sz cw f (p, i, s)))) - fst (snd (sweep_step sz cw f (p, i, s))) <
    length (objects p) - i"
proof -
  let ?a = "objects p ! i"
  note so = sweep_inv_objects[OF wf inv]
  have na: "?a \<notin> set (take i (objects p))"
    using so(1) i by (auto simp: in_set_conv_nth nth_eq_iff_index_eq)
  have m: "mem p ?a = mem p0 ?a" using inv na by (simp add: sweep_inv_def)
  have nb: "\<not> bad_addr ?a" using so(3) i by simp
  show ?thesis
  proof (cases "survives cw (snd (mem p0 ?a))")
    case True
    have "sweep_inv cw f p0 s0 D (p\<lparr>mem := (mem p)(?a := (fst (mem p ?a), survivor_header (snd (mem p ?a))))\<rparr>, Suc i, s)"
      using inv True m i na by (auto simp: sweep_inv_def take_Suc_conv_app_nth)
    then show ?thesis using True m nb i by (auto simp: sweep_step_def Let_def)
  next
    case False
    let ?p = "retire sz p ?a (mapped p ! i)"
    have lm: "i < length (mapped p)" using inv i by (simp add: sweep_inv_def)
    have mem_a: "?a \<in># mset (objects p)" using i by simp
    have fl: "distinct (map fst (freelist ?p))" "set (map fst (freelist ?p)) \<subseteq> set (map fst (freelist p0)) \<union> set (D @ [?a])"
    proof -
      obtain ys where "(?a, mapped p ! i) # freelist p = ys @ freelist ?p" using retire_facts(6) by blast
      then have e: "?a # map fst (freelist p) = map fst ys @ map fst (freelist ?p)" by (metis fst_conv list.map(2) map_append)
      have "?a \<notin> set D" "?a \<in> set (objects p0)" using so(1,2) nth_mem[OF i] by auto
      moreover have "set (map fst (freelist p)) \<subseteq> set (map fst (freelist p0)) \<union> set D"
        using inv by (simp add: sweep_inv_def)
      moreover have "set (map fst (freelist p0)) \<inter> set (objects p0) = {}" using wf by (simp add: pool_wf_def)
      ultimately have "?a \<notin> set (map fst (freelist p))" by blast
      moreover have "distinct (map fst (freelist p))" using inv by (simp add: sweep_inv_def)
      ultimately have "distinct (?a # map fst (freelist p))" by simp
      then show "distinct (map fst (freelist ?p))" unfolding e by simp
      have "set (map fst (freelist ?p)) \<subseteq> insert ?a (set (map fst (freelist p)))"
        using arg_cong[OF e, of set] by auto
      moreover have "set (map fst (freelist p)) \<subseteq> set (map fst (freelist p0)) \<union> set D"
        using inv by (simp add: sweep_inv_def)
      moreover have "set (D @ [?a]) = insert ?a (set D)" by simp
      ultimately show "set (map fst (freelist ?p)) \<subseteq> set (map fst (freelist p0)) \<union> set (D @ [?a])"
        by blast
    qed
    have "sweep_inv cw f p0 s0 (D @ [?a]) (remove_obj ?p i, i, f (fst (mem p ?a)) s)"
      using inv False m fl i lm mem_a
      by (simp add: sweep_inv_def remove_obj_def retire_facts swap_remove_facts)
    then show ?thesis using False m nb i by (auto simp: sweep_step_def Let_def remove_obj_def retire_facts swap_remove_facts)
  qed
qed

lemma sweep_loop_inv:
  assumes wf: "pool_wf p0"
  shows "sweep_inv cw f p0 s0 D (p, i, s) \<Longrightarrow> length (objects p) - i \<le> n \<Longrightarrow>
    \<exists>D' p' s'. sweep_loop n sz cw f (p, i, s) = (p', length (objects p'), s') \<and>
      sweep_inv cw f p0 s0 D' (p', length (objects p'), s')"
proof (induction n arbitrary: D p i s)
  case 0
  then have "i = length (objects p)" by (auto simp: sweep_inv_def)
  then show ?case using 0 by auto
next
  case (Suc n)
  show ?case
  proof (cases "i < length (objects p)")
    case True
    obtain p1 i1 s1 where st: "sweep_step sz cw f (p, i, s) = (p1, i1, s1)" by (metis prod_cases3)
    obtain D1 where "sweep_inv cw f p0 s0 D1 (p1, i1, s1)" "length (objects p1) - i1 < length (objects p) - i"
      using sweep_step_inv[OF wf Suc.prems(1) True, of sz] by (auto simp: st)
    then show ?thesis using Suc.IH[of D1 p1 i1 s1] Suc.prems(2) True st by simp
  next
    case False
    then have "i = length (objects p)" using Suc.prems(1) by (auto simp: sweep_inv_def)
    then show ?thesis using Suc.prems(1) by auto
  qed
qed

lemma sweep_tricolor_ok:
  assumes wf: "pool_wf p" and n: "length (objects p) \<le> USIZE_MAX"
  shows "\<exists>p' D. sweep_tricolor sz cw on_free (p, s) = (p', fold on_free (map (\<lambda>a. fst (mem p a)) D) s) \<and>
    pool_wf p' \<and> mset (objects p) = mset (objects p') + mset D \<and> current_white p' = current_white p \<and>
    (\<forall>a\<in>set D. \<not> survives cw (snd (mem p a))) \<and>
    (\<forall>a\<in>set (objects p'). survives cw (snd (mem p a)) \<and>
       mem p' a = (fst (mem p a), survivor_header (snd (mem p a))))"
proof -
  have "sweep_inv cw on_free p s [] (p, 0, s)" using wf by (simp add: sweep_inv_def pool_wf_def)
  from sweep_loop_inv[OF wf this, of USIZE_MAX sz] n obtain D p' s' where
    l: "sweep_loop USIZE_MAX sz cw on_free (p, 0, s) = (p', length (objects p'), s')"
    and inv: "sweep_inv cw on_free p s D (p', length (objects p'), s')" by auto
  let ?p = "p'\<lparr>live_count := length (objects p')\<rparr>"
  note so = sweep_inv_objects[OF wf inv]
  have fl: "distinct (map fst (freelist p'))" "set (map fst (freelist p')) \<subseteq> set (map fst (freelist p)) \<union> set D"
    using inv by (auto simp: sweep_inv_def)
  have pw: "set (map fst (freelist p)) \<inter> set (objects p) = {}" "\<forall>a\<in>set (objects p). \<not> bad_addr a"
    "\<forall>a\<in>set (map fst (freelist p)). \<not> bad_addr a" using wf by (simp_all add: pool_wf_def)
  have pd: "set (objects p') \<inter> set D = {}" "set (objects p') \<union> set D = set (objects p)" using so(1,2) by auto
  have "set (map fst (freelist p')) \<inter> set (objects p') = {}" using fl(2) pw(1) pd by blast
  moreover have "\<forall>a\<in>set (map fst (freelist p')). \<not> bad_addr a" using fl(2) pw(2,3) pd(2) by blast
  ultimately have "pool_wf ?p" using so fl(1) inv unfolding pool_wf_def by (simp add: sweep_inv_def)
  then show ?thesis
    using l inv by (intro exI[of _ ?p] exI[of _ D])
      (simp add: sweep_tricolor_def sweep_limited_def sweep_inv_def)
qed

text \<open>C5. A full sweep of a well-formed pool frees exactly the objects that do not survive
  (unmarked ones that are black or carry the dead white), calling the callback once on each,
  keeps the others with their content, and leaves every survivor unmarked; the pool stays well
  formed, and in particular a freed block is never also an object. This is what the test
  \<open>was_marked || (!is_dead && !is_black)\<close> does; the comment above it, which says that objects left
  black by an interrupted earlier cycle are kept alive here, describes the opposite.\<close>

theorem sweep_tricolor_correct:
  assumes "pool_wf p" and "length (objects p) \<le> USIZE_MAX"
  shows "\<exists>p' D. sweep_tricolor sz cw on_free (p, s) = (p', fold on_free (map (\<lambda>a. fst (mem p a)) D) s) \<and>
    pool_wf p' \<and> mset (objects p) = mset (objects p') + mset D \<and>
    (\<forall>a\<in>set D. \<not> survives cw (snd (mem p a))) \<and>
    (\<forall>a\<in>set (objects p'). survives cw (snd (mem p a)) \<and>
       fst (mem p' a) = fst (mem p a) \<and> \<not> marked (snd (mem p' a)))"
proof -
  have "\<not> marked (survivor_header h)" for h by (simp add: survivor_header_def)
  then show ?thesis using sweep_tricolor_ok[OF assms, of sz cw on_free s] by fastforce
qed

definition one_object :: "nat pool" where
  "one_object = (pool_new (\<lambda>_. (7, header_new 1)))\<lparr>objects := [0x2000], mapped := [False], live_count := 1\<rparr>"

theorem sweep_tricolor_correct_witness:
  "\<exists>p' D. sweep_tricolor 8 0 (#) (one_object, []) =
      (p', fold (#) (map (\<lambda>a. fst (mem one_object a)) D) []) \<and>
    pool_wf p' \<and> mset (objects one_object) = mset (objects p') + mset D \<and>
    (\<forall>a\<in>set D. \<not> survives 0 (snd (mem one_object a))) \<and>
    (\<forall>a\<in>set (objects p'). survives 0 (snd (mem one_object a)) \<and>
       fst (mem p' a) = fst (mem one_object a) \<and> \<not> marked (snd (mem p' a)))"
  by (rule sweep_tricolor_correct)
    (simp_all add: one_object_def pool_new_def pool_wf_def bad_addr_def ADDR_MAX_def USIZE_MAX_def)

section \<open>Allocation\<close>

text \<open>What the code relies on of the allocator: while fewer than \<open>2 ^ 32\<close> blocks are in use it
  returns one that is not, at an address below the limit of the value encoding.\<close>

definition os_ok :: "os_alloc \<Rightarrow> bool" where
  "os_ok os \<longleftrightarrow> (\<forall>used. length used < 2 ^ 32 \<longrightarrow> fst (os used) \<notin> set used \<and> \<not> bad_addr (fst (os used)))"

definition first_fit :: os_alloc where
  "first_fit used = (case find (\<lambda>a. a \<notin> set used) [0x2000..<ADDR_MAX] of Some a \<Rightarrow> (a, False) | None \<Rightarrow> (0, False))"

lemma first_fit_ok: "os_ok first_fit"
  unfolding os_ok_def
proof (intro allI impI)
  fix used :: "addr list" assume len: "length used < 2 ^ 32"
  have "\<not> {0x2000..<ADDR_MAX} \<subseteq> set used"
  proof
    assume "{0x2000..<ADDR_MAX} \<subseteq> set used"
    then have "card {0x2000..<ADDR_MAX} \<le> card (set used)" by (rule card_mono [OF finite_set])
    also have "\<dots> \<le> length used" by (rule card_length)
    finally show False using len by (simp add: ADDR_MAX_def)
  qed
  then have "find (\<lambda>a. a \<notin> set used) [0x2000..<ADDR_MAX] \<noteq> None" unfolding find_None_iff by auto
  then obtain a where a: "find (\<lambda>a. a \<notin> set used) [0x2000..<ADDR_MAX] = Some a" by blast
  then have "a \<notin> set used" "a \<in> set [0x2000..<ADDR_MAX]" unfolding find_Some_iff by (metis nth_mem)+
  then show "fst (first_fit used) \<notin> set used \<and> \<not> bad_addr (fst (first_fit used))"
    using a by (simp add: first_fit_def bad_addr_def)
qed

lemma pool_alloc_ok:
  assumes os: "os_ok os" and wf: "pool_wf p" and few: "length (objects p) < 2 ^ 32"
  shows "\<exists>a p'. pool_alloc os sz p v = (a, p') \<and> pool_wf p' \<and> a \<notin> set (objects p) \<and>
    objects p' = objects p @ [a] \<and> mem p' = (mem p)(a := (v, header_new (current_white p))) \<and>
    current_white p' = current_white p"
proof (cases "freelist p")
  case Nil
  obtain a m where am: "os (objects p) = (a, m)" by fastforce
  then have "a \<notin> set (objects p)" "\<not> bad_addr a" using os few unfolding os_ok_def by (metis fst_conv)+
  then show ?thesis using Nil am wf by (auto simp: pool_alloc_def Let_def pool_wf_def)
next
  case (Cons x rest)
  obtain a m where x: "x = (a, m)" by fastforce
  then show ?thesis using Cons wf by (auto simp: pool_alloc_def Let_def pool_wf_def)
qed

end
