(* ===== verification/LJ_String.thy ===== *)
theory LJ_String
  imports LJ_Gc
begin

unbundle bit_operations_syntax

text \<open>
  String hashing and interning, \<open>runtime/string.rs\<close>: the FNV-1a stream hash with its unrolled
  loop, the two representations of a string, and the open-addressed intern table with
  tombstones over a pool of strings. Pointers are addresses in the pool's memory. Probe loops
  are fuelled with the number of slots plus one and give \<open>Diverges\<close> when it runs out (the
  removal probe of the sweep, which has no other failure, then gives \<open>None\<close>; it is shown to
  find its entry). A string id is the length of the id table cast to 32 bits.
\<close>

section \<open>Hashing\<close>

definition FNV_OFFSET :: u64 where "FNV_OFFSET = 0xcbf29ce484222325"
definition FNV_PRIME :: u64 where "FNV_PRIME = 0x100000001b3"

definition fnv_step :: "u64 \<Rightarrow> u8 \<Rightarrow> u64" where
  "fnv_step h b = (h XOR ucast b) * FNV_PRIME"

definition fnv_8 :: "u64 \<Rightarrow> u8 list \<Rightarrow> u64" where
  "fnv_8 h s =
     (let h = fnv_step h (s ! 0);
          h = fnv_step h (s ! 1);
          h = fnv_step h (s ! 2);
          h = fnv_step h (s ! 3);
          h = fnv_step h (s ! 4);
          h = fnv_step h (s ! 5);
          h = fnv_step h (s ! 6)
      in fnv_step h (s ! 7))"

text \<open>The two loops of \<open>fnv1a_state\<close> and \<open>fnv1a_cont\<close>, from index \<open>i\<close> on.\<close>

function fnv_tail :: "u8 list \<Rightarrow> nat \<Rightarrow> u64 \<Rightarrow> u64" where
  "fnv_tail s i h = (if i < length s then fnv_tail s (i + 1) (fnv_step h (s ! i)) else h)"
  by pat_completeness auto
termination by (relation "measure (\<lambda>(s, i, h). length s - i)") auto

function fnv_loop :: "u8 list \<Rightarrow> nat \<Rightarrow> u64 \<Rightarrow> u64" where
  "fnv_loop s i h =
     (if i + 8 \<le> length s then fnv_loop s (i + 8) (fnv_8 h (take 8 (drop i s)))
      else fnv_tail s i h)"
  by pat_completeness auto
termination by (relation "measure (\<lambda>(s, i, h). length s - i)") auto

declare fnv_tail.simps [simp del] fnv_loop.simps [simp del]

definition fnv1a_state :: "u8 list \<Rightarrow> u64" where
  "fnv1a_state s = fnv_loop s 0 FNV_OFFSET"

definition fnv1a_cont :: "u64 \<Rightarrow> u8 list \<Rightarrow> u64" where
  "fnv1a_cont state s = fnv_loop s 0 state"

definition fnv1a_fold :: "u64 \<Rightarrow> u32" where
  "fnv1a_fold state = ucast state XOR ucast (drop_bit 32 state)"

definition str_hash :: "u8 list \<Rightarrow> u32" where
  "str_hash s = fnv1a_fold (fnv1a_state s)"

section \<open>Strings\<close>

definition INLINE_CAP :: nat where "INLINE_CAP = 40"

datatype repr = Inline u8 "u8 list" | Heap "u8 list"

record lua_string =
  ls_sid :: nat
  ls_hash :: u32
  ls_repr :: repr

definition string_new :: "u8 list \<Rightarrow> nat \<Rightarrow> u32 \<Rightarrow> lua_string" where
  "string_new bytes i h =
     \<lparr>ls_sid = i, ls_hash = h,
      ls_repr = (if length bytes \<le> INLINE_CAP
              then Inline (word_of_nat (length bytes)) (bytes @ replicate (INLINE_CAP - length bytes) 0)
              else Heap bytes)\<rparr>"

definition as_bytes :: "lua_string \<Rightarrow> u8 list" where
  "as_bytes s = (case ls_repr s of Inline len buf \<Rightarrow> take (unat len) buf | Heap b \<Rightarrow> b)"

definition string_len :: "lua_string \<Rightarrow> nat" where
  "string_len s = (case ls_repr s of Inline len buf \<Rightarrow> unat len | Heap b \<Rightarrow> length b)"

definition string_gc_size :: "nat \<Rightarrow> lua_string \<Rightarrow> nat" where
  "string_gc_size sz s = sz + (case ls_repr s of Inline _ _ \<Rightarrow> 0 | Heap b \<Rightarrow> length b)"

section \<open>The interner\<close>

datatype slot = Empty | Tombstone | Occupied addr

record interner =
  slots :: "slot list"
  nuse :: nat
  ndead :: nat
  by_id :: "addr option list"
  free_ids :: "nat list"
  ipool :: "lua_string pool"
  ibytes :: nat
  empty_sid :: nat

definition MAX_LOAD_NUM :: nat where "MAX_LOAD_NUM = 7"
definition MAX_LOAD_DEN :: nat where "MAX_LOAD_DEN = 10"

abbreviation str_at :: "interner \<Rightarrow> addr \<Rightarrow> lua_string" where
  "str_at st a \<equiv> fst (mem (ipool st) a)"

definition should_grow :: "interner \<Rightarrow> bool" where
  "should_grow st \<longleftrightarrow> length (slots st) * MAX_LOAD_NUM \<le> (nuse st + ndead st) * MAX_LOAD_DEN"

text \<open>\<open>grow\<close>: rehash the occupied slots into a table of twice the size.\<close>

primrec probe_empty :: "nat \<Rightarrow> slot list \<Rightarrow> nat \<Rightarrow> panic + nat" where
  "probe_empty 0 sl i = Inl Diverges"
| "probe_empty (Suc fuel) sl i =
     rbind (idx_panic sl i) (\<lambda>x.
       if x = Empty then Inr i else probe_empty fuel sl ((i + 1) AND (length sl - 1)))"

primrec grow_loop :: "(addr \<Rightarrow> u32) \<Rightarrow> slot list \<Rightarrow> slot list \<Rightarrow> panic + slot list" where
  "grow_loop H [] new_slots = Inr new_slots"
| "grow_loop H (s # rest) new_slots =
     (case s of
        Occupied p \<Rightarrow>
          rbind (probe_empty (Suc (length new_slots)) new_slots (unat (H p) AND (length new_slots - 1)))
            (\<lambda>i. grow_loop H rest (new_slots[i := Occupied p]))
      | _ \<Rightarrow> grow_loop H rest new_slots)"

definition grow :: "interner \<Rightarrow> panic + interner" where
  "grow st =
     rbind (grow_loop (\<lambda>p. ls_hash (str_at st p)) (slots st) (replicate (length (slots st) * 2) Empty))
       (\<lambda>new_slots. Inr (st\<lparr>slots := new_slots, ndead := 0\<rparr>))"

text \<open>The re-probe of \<open>insert_new\<close> after \<open>grow\<close>.\<close>

primrec probe_free :: "nat \<Rightarrow> slot list \<Rightarrow> nat \<Rightarrow> panic + nat" where
  "probe_free 0 sl i = Inl Diverges"
| "probe_free (Suc fuel) sl i =
     rbind (idx_panic sl i) (\<lambda>x.
       case x of Occupied _ \<Rightarrow> probe_free fuel sl ((i + 1) AND (length sl - 1)) | _ \<Rightarrow> Inr i)"

definition insert_new :: "os_alloc \<Rightarrow> nat \<Rightarrow> interner \<Rightarrow> u8 list \<Rightarrow> u32 \<Rightarrow> nat \<Rightarrow> panic + (nat \<times> interner)" where
  "insert_new os sz st s h slot0 =
     rbind (if should_grow st
            then rbind (grow st) (\<lambda>st.
                   rbind (probe_free (Suc (length (slots st))) (slots st) (unat h AND (length (slots st) - 1)))
                     (\<lambda>sl. Inr (sl, st)))
            else Inr (slot0, st)) (\<lambda>(sl, st).
     let (i, st) = (case free_ids st of
                      x # rest \<Rightarrow> (x, st\<lparr>free_ids := rest\<rparr>)
                    | [] \<Rightarrow> (length (by_id st) mod 2 ^ 32, st\<lparr>by_id := by_id st @ [None]\<rparr>));
         (p, pl) = pool_alloc os sz (ipool st) (string_new s i h);
         st = st\<lparr>ipool := pl, ibytes := ibytes st + string_gc_size sz (fst (mem pl p))\<rparr>
     in if i < length (by_id st)
        then rbind (idx_panic (slots st) sl) (\<lambda>x.
               let st = st\<lparr>by_id := (by_id st)[i := Some p]\<rparr>;
                   st = (if x = Tombstone then st\<lparr>ndead := ndead st - 1\<rparr> else st)
               in Inr (i, st\<lparr>slots := (slots st)[sl := Occupied p], nuse := nuse st + 1\<rparr>))
        else Inl IndexPanic)"

text \<open>The probe of \<open>intern_with_hash\<close>: an existing entry (\<open>Inl p\<close>) or an insertion slot.\<close>

primrec intern_probe ::
  "nat \<Rightarrow> interner \<Rightarrow> u8 list \<Rightarrow> u32 \<Rightarrow> nat \<Rightarrow> nat option \<Rightarrow> panic + (addr + nat)" where
  "intern_probe 0 st s h i fd = Inl Diverges"
| "intern_probe (Suc fuel) st s h i fd =
     rbind (idx_panic (slots st) i) (\<lambda>x.
       let nxt = (i + 1) AND (length (slots st) - 1)
       in case x of
            Empty \<Rightarrow> Inr (Inr (case fd of Some d \<Rightarrow> d | None \<Rightarrow> i))
          | Tombstone \<Rightarrow> intern_probe fuel st s h nxt (case fd of None \<Rightarrow> Some i | Some d \<Rightarrow> Some d)
          | Occupied p \<Rightarrow>
              if ls_hash (str_at st p) = h \<and> as_bytes (str_at st p) = s
              then Inr (Inl p)
              else intern_probe fuel st s h nxt fd)"

definition intern_with_hash :: "os_alloc \<Rightarrow> nat \<Rightarrow> interner \<Rightarrow> u8 list \<Rightarrow> u32 \<Rightarrow> panic + (nat \<times> interner)" where
  "intern_with_hash os sz st s h =
     rbind (intern_probe (Suc (length (slots st))) st s h (unat h AND (length (slots st) - 1)) None) (\<lambda>r.
       case r of
         Inl p \<Rightarrow> Inr (ls_sid (str_at st p), st\<lparr>ipool := ptr_set_marked (ipool st) p\<rparr>)
       | Inr ins \<Rightarrow> insert_new os sz st s h ins)"

definition intern :: "os_alloc \<Rightarrow> nat \<Rightarrow> interner \<Rightarrow> u8 list \<Rightarrow> panic + (nat \<times> interner)" where
  "intern os sz st s = intern_with_hash os sz st s (fnv1a_fold (fnv1a_state s))"

definition interner_new :: "os_alloc \<Rightarrow> nat \<Rightarrow> (addr \<Rightarrow> lua_string \<times> gc_header) \<Rightarrow> panic + interner" where
  "interner_new os sz m =
     rbind (intern os sz
       \<lparr>slots = replicate 512 Empty, nuse = 0, ndead = 0, by_id = [], free_ids = [],
        ipool = pool_new m, ibytes = 0, empty_sid = 0\<rparr> [])
       (\<lambda>(i, st). Inr (st\<lparr>empty_sid := i\<rparr>))"

definition try_lookup :: "interner \<Rightarrow> nat \<Rightarrow> addr option" where
  "try_lookup st i = (if i < length (by_id st) then by_id st ! i else None)"

text \<open>\<open>lookup_ptr\<close>: the \<open>unwrap\<close> of the fallback panics when "" is gone.\<close>

definition lookup_ptr :: "interner \<Rightarrow> nat \<Rightarrow> panic + addr" where
  "lookup_ptr st i =
     (case try_lookup st i of
        Some p \<Rightarrow> Inr p
      | None \<Rightarrow> (case try_lookup st (empty_sid st) of
                   Some p \<Rightarrow> Inr p
                 | None \<Rightarrow> Inl (AssertPanic ''unwrap'')))"

definition lookup :: "interner \<Rightarrow> nat \<Rightarrow> panic + lua_string" where
  "lookup st i = rbind (lookup_ptr st i) (\<lambda>p. Inr (str_at st p))"

definition interner_get :: "interner \<Rightarrow> nat \<Rightarrow> panic + u8 list" where
  "interner_get st i = rbind (lookup st i) (\<lambda>s. Inr (as_bytes s))"

definition interner_is_empty :: "interner \<Rightarrow> bool" where
  "interner_is_empty st \<longleftrightarrow> by_id st = []"

section \<open>Sweeping the interner\<close>

text \<open>The state of the callback: slots, counters and the id table. The probe stops at the entry
  with the same hash and bytes, or at an empty slot.\<close>

type_synonym istate = "slot list \<times> nat \<times> nat \<times> addr option list"

primrec kill_probe :: "(addr \<Rightarrow> lua_string) \<Rightarrow> nat \<Rightarrow> slot list \<Rightarrow> u8 list \<Rightarrow> u32 \<Rightarrow> nat \<Rightarrow> nat option" where
  "kill_probe S 0 sl bs h i = None"
| "kill_probe S (Suc fuel) sl bs h i =
     (case sl ! i of
        Occupied p \<Rightarrow>
          if ls_hash (S p) = h \<and> as_bytes (S p) = bs then Some i
          else kill_probe S fuel sl bs h ((i + 1) AND (length sl - 1))
      | Tombstone \<Rightarrow> kill_probe S fuel sl bs h ((i + 1) AND (length sl - 1))
      | Empty \<Rightarrow> None)"

definition on_free_string :: "(addr \<Rightarrow> lua_string) \<Rightarrow> lua_string \<Rightarrow> istate \<Rightarrow> istate" where
  "on_free_string S s = (\<lambda>(sl, nu, nd, ids).
     let ids' = ids[ls_sid s := None]
     in case kill_probe S (Suc (length sl)) sl (as_bytes s) (ls_hash s) (unat (ls_hash s) AND (length sl - 1)) of
          Some i \<Rightarrow> (sl[i := Tombstone], nu - 1, nd + 1, ids')
        | None \<Rightarrow> (sl, nu, nd, ids'))"

definition mark_empty :: "interner \<Rightarrow> lua_string pool" where
  "mark_empty st =
     fold (\<lambda>x pl. case x of
         Occupied p \<Rightarrow> if as_bytes (fst (mem pl p)) = [] then ptr_set_marked pl p else pl
       | _ \<Rightarrow> pl) (slots st) (ipool st)"

definition interner_sweep :: "nat \<Rightarrow> interner \<Rightarrow> u8 \<Rightarrow> interner" where
  "interner_sweep sz st cw =
     (let pl = mark_empty st in
      case sweep_tricolor sz cw (on_free_string (\<lambda>a. fst (mem pl a)))
             (pl, slots st, nuse st, ndead st, by_id st) of
        (pl', sl, nu, nd, ids) \<Rightarrow>
          st\<lparr>slots := sl, nuse := nu, ndead := nd, by_id := ids, ipool := pl',
             ibytes := sum_list (map (\<lambda>a. string_gc_size sz (fst (mem pl' a))) (objects pl'))\<rparr>)"

end
