(* ===== verification/LJ_Probe.thy ===== *)
theory LJ_Probe
  imports LJ_String
begin

unbundle bit_operations_syntax

text \<open>
  Linear probing over a circular slot list, as the interner does it: the invariant that every
  entry is reached from its hash without crossing an empty slot, and what the probe loops of
  \<open>intern_with_hash\<close>, \<open>insert_new\<close>, \<open>grow\<close> and \<open>sweep\<close> find.
\<close>

section \<open>Circular positions\<close>

lemma and_mask_mod: "n AND (2 ^ b - 1) = n mod (2::nat) ^ b"
  using take_bit_eq_mask[of b n] by (simp add: take_bit_eq_mod mask_eq_exp_minus_1)

definition pow2_len :: "slot list \<Rightarrow> bool" where
  "pow2_len sl \<longleftrightarrow> (\<exists>b. length sl = 2 ^ b)"

lemma pow2_len_and: "pow2_len sl \<Longrightarrow> n AND (length sl - 1) = n mod length sl"
  using and_mask_mod by (auto simp: pow2_len_def)

lemma pow2_len_pos: "pow2_len sl \<Longrightarrow> 0 < length sl"
  by (auto simp: pow2_len_def)

lemma pow2_len_update [simp]: "pow2_len (sl[i := x]) = pow2_len sl"
  by (simp add: pow2_len_def)

abbreviation pos :: "slot list \<Rightarrow> nat \<Rightarrow> nat \<Rightarrow> nat" where
  "pos sl h k \<equiv> (h + k) mod length sl"

lemma pos_next: "pow2_len sl \<Longrightarrow> (pos sl h k + 1) AND (length sl - 1) = pos sl h (Suc k)"
  by (simp only: pow2_len_and) (simp add: mod_simps)

lemma pos_start: "pow2_len sl \<Longrightarrow> h AND (length sl - 1) = pos sl h 0"
  by (simp only: pow2_len_and add_0_right)

lemma pos_less: "pow2_len sl \<Longrightarrow> pos sl h k < length sl"
  by (rule mod_less_divisor[OF pow2_len_pos])

lemma pos_surj:
  assumes "e < length sl"
  shows "\<exists>k<length sl. pos sl h k = e"
proof -
  let ?N = "length sl" and ?r = "h mod length sl"
  have r: "?r < ?N" using assms by (intro mod_less_divisor) auto
  have eq: "pos sl h k = (?r + k) mod ?N" for k by (simp add: mod_simps)
  show ?thesis
  proof (cases "?r \<le> e")
    case True
    then have "(?r + (e - ?r)) mod ?N = e" using assms by (simp only: le_add_diff_inverse mod_less)
    then show ?thesis using assms unfolding eq by (intro exI[of _ "e - ?r"] conjI less_imp_diff_less)
  next
    case False
    have "?r + (?N - ?r + e) = ?N + e" using r by linarith
    then have "(?r + (?N - ?r + e)) mod ?N = e" using assms by (simp only: mod_add_self1 mod_less)
    moreover have "?N - ?r + e < ?N" using False r by linarith
    ultimately show ?thesis unfolding eq by blast
  qed
qed

text \<open>\<open>open_path sl h k\<close>: the first \<open>k\<close> positions from \<open>h\<close> on are not empty.\<close>

definition open_path :: "slot list \<Rightarrow> nat \<Rightarrow> nat \<Rightarrow> bool" where
  "open_path sl h k \<longleftrightarrow> (\<forall>j<k. sl ! pos sl h j \<noteq> Empty)"

definition probe_inv :: "(addr \<Rightarrow> nat) \<Rightarrow> slot list \<Rightarrow> bool" where
  "probe_inv H sl \<longleftrightarrow>
     (\<forall>i<length sl. \<forall>p. sl ! i = Occupied p \<longrightarrow> (\<exists>k. i = pos sl (H p) k \<and> open_path sl (H p) k))"

lemma open_path_update: "open_path sl h k \<Longrightarrow> x \<noteq> Empty \<Longrightarrow> open_path (sl[i := x]) h k"
  unfolding open_path_def by (metis length_list_update nth_list_update_eq nth_list_update_neq list_update_beyond not_le)

lemma open_path_Suc: "open_path sl h (Suc k) \<longleftrightarrow> open_path sl h k \<and> sl ! pos sl h k \<noteq> Empty"
  by (auto simp: open_path_def less_Suc_eq)

lemma probe_inv_update:
  assumes inv: "probe_inv H sl" and x: "x \<noteq> Empty"
    and new: "\<And>p. x = Occupied p \<Longrightarrow> \<exists>k. i = pos sl (H p) k \<and> open_path sl (H p) k"
  shows "probe_inv H (sl[i := x])"
  unfolding probe_inv_def
proof (intro allI impI)
  fix j p assume j: "j < length (sl[i := x])" "sl[i := x] ! j = Occupied p"
  have "\<exists>k. j = pos sl (H p) k \<and> open_path sl (H p) k"
  proof (cases "j = i")
    case True
    then have "x = Occupied p" using j by simp
    then show ?thesis using new True by simp
  next
    case False
    then show ?thesis using inv j by (simp add: probe_inv_def)
  qed
  then show "\<exists>k. j = pos (sl[i := x]) (H p) k \<and> open_path (sl[i := x]) (H p) k"
    using open_path_update[OF _ x] by (metis length_list_update)
qed

lemma probe_inv_replicate: "probe_inv H (replicate n Empty)"
  by (simp add: probe_inv_def)

text \<open>The first empty position from \<open>h\<close> on; every entry lies before it.\<close>

definition first_empty :: "slot list \<Rightarrow> nat \<Rightarrow> nat" where
  "first_empty sl h = (LEAST k. sl ! pos sl h k = Empty)"

lemma first_empty:
  assumes "\<exists>e<length sl. sl ! e = Empty"
  shows "sl ! pos sl h (first_empty sl h) = Empty" "open_path sl h (first_empty sl h)"
    "first_empty sl h < length sl"
proof -
  obtain e k where e: "e < length sl" "sl ! e = Empty" "k < length sl" "pos sl h k = e"
    using assms pos_surj by metis
  then have k: "sl ! pos sl h k = Empty" by simp
  show "sl ! pos sl h (first_empty sl h) = Empty" unfolding first_empty_def by (rule LeastI) (rule k)
  have "first_empty sl h \<le> k" unfolding first_empty_def by (rule Least_le) (rule k)
  then show "first_empty sl h < length sl" using e(3) by simp
  show "open_path sl h (first_empty sl h)"
    unfolding open_path_def first_empty_def using not_less_Least by blast
qed

lemma open_path_before_empty:
  assumes "sl ! pos sl h m = Empty" "open_path sl h k" shows "k \<le> m"
  using assms by (metis open_path_def not_le)

lemma entry_before_empty:
  assumes "probe_inv H sl" "\<exists>e<length sl. sl ! e = Empty" "i < length sl" "sl ! i = Occupied p"
  shows "\<exists>k<first_empty sl (H p). i = pos sl (H p) k"
proof -
  obtain k where k: "i = pos sl (H p) k" "open_path sl (H p) k"
    using assms(1,3,4) by (auto simp: probe_inv_def)
  note fe = first_empty[OF assms(2), of "H p"]
  have "k \<le> first_empty sl (H p)" by (rule open_path_before_empty[OF fe(1) k(2)])
  moreover have "k \<noteq> first_empty sl (H p)" using fe(1) k(1) assms(4) by auto
  ultimately show ?thesis using k(1) by (intro exI[of _ k]) simp
qed

section \<open>The probe loops\<close>

lemma probe_empty_ok:
  assumes p2: "pow2_len sl" and e: "\<exists>e<length sl. sl ! e = Empty"
  shows "k \<le> first_empty sl h \<Longrightarrow> first_empty sl h - k < fuel \<Longrightarrow>
    probe_empty fuel sl (pos sl h k) = Inr (pos sl h (first_empty sl h))"
proof (induction fuel arbitrary: k)
  case (Suc fuel)
  note fe = first_empty[OF e, of h]
  show ?case
  proof (cases "k = first_empty sl h")
    case True
    then show ?thesis using pos_less[OF p2] fe(1) by simp
  next
    case False
    then have "sl ! pos sl h k \<noteq> Empty" using fe(2) Suc.prems(1) by (simp add: open_path_def)
    moreover have "probe_empty fuel sl (pos sl h (Suc k)) = Inr (pos sl h (first_empty sl h))"
      by (rule Suc.IH) (use False Suc.prems in auto)
    ultimately show ?thesis using pos_less[OF p2] pos_next[OF p2] by simp
  qed
qed simp

lemma probe_free_ok:
  assumes p2: "pow2_len sl" and e: "\<exists>e<length sl. sl ! e = Empty"
  shows "k \<le> first_empty sl h \<Longrightarrow> first_empty sl h - k < fuel \<Longrightarrow>
    \<exists>m\<le>first_empty sl h. probe_free fuel sl (pos sl h k) = Inr (pos sl h m) \<and>
      (\<forall>p. sl ! pos sl h m \<noteq> Occupied p)"
proof (induction fuel arbitrary: k)
  case (Suc fuel)
  note fe = first_empty[OF e, of h]
  show ?case
  proof (cases "\<exists>p. sl ! pos sl h k = Occupied p")
    case False
    then show ?thesis using pos_less[OF p2] Suc.prems by (cases "sl ! pos sl h k") (auto intro!: exI[of _ k])
  next
    case True
    then have "k \<noteq> first_empty sl h" using fe(1) by auto
    then have "\<exists>m\<le>first_empty sl h. probe_free fuel sl (pos sl h (Suc k)) = Inr (pos sl h m) \<and>
        (\<forall>p. sl ! pos sl h m \<noteq> Occupied p)"
      by (intro Suc.IH) (use Suc.prems in auto)
    then show ?thesis using True pos_less[OF p2] pos_next[OF p2] by auto
  qed
qed simp

lemma intern_probe_ok:
  fixes st :: interner and s :: "u8 list" and h :: u32
  defines "sl \<equiv> slots st"
    and "M \<equiv> \<lambda>p. ls_hash (str_at st p) = h \<and> as_bytes (str_at st p) = s"
  assumes p2: "pow2_len sl" and e: "\<exists>e<length sl. sl ! e = Empty"
  shows "k \<le> first_empty sl (unat h) \<Longrightarrow> first_empty sl (unat h) - k < fuel \<Longrightarrow>
    \<forall>j<k. \<forall>p. sl ! pos sl (unat h) j = Occupied p \<longrightarrow> \<not> M p \<Longrightarrow>
    \<forall>d. fd = Some d \<longrightarrow> (\<exists>m<k. d = pos sl (unat h) m \<and> sl ! d = Tombstone) \<Longrightarrow>
    \<exists>r. intern_probe fuel st s h (pos sl (unat h) k) fd = Inr r \<and>
      (case r of Inl p \<Rightarrow> (\<exists>i<length sl. sl ! i = Occupied p) \<and> M p
       | Inr ins \<Rightarrow> (\<exists>m\<le>first_empty sl (unat h). ins = pos sl (unat h) m) \<and> (\<forall>p. sl ! ins \<noteq> Occupied p) \<and>
           (\<forall>j<first_empty sl (unat h). \<forall>p. sl ! pos sl (unat h) j = Occupied p \<longrightarrow> \<not> M p))"
proof (induction fuel arbitrary: k fd)
  case (Suc fuel)
  let ?i = "pos sl (unat h) k"
  note fe = first_empty[OF e, of "unat h"]
  have slot: "idx_panic (slots st) ?i = Inr (sl ! ?i)" using pos_less[OF p2] by (simp add: sl_def)
  have nxt: "(?i + 1) AND (length (slots st) - 1) = pos sl (unat h) (Suc k)"
    using pos_next[OF p2] by (simp only: sl_def)
  show ?case
  proof (cases "sl ! ?i")
    case Empty
    then have k: "k = first_empty sl (unat h)"
      using fe(2) Suc.prems(1) by (metis le_neq_implies_less open_path_def)
    show ?thesis
    proof (cases fd)
      case None
      then show ?thesis using Empty slot k Suc.prems(3) by auto
    next
      case (Some d)
      then obtain m where "m < k" "d = pos sl (unat h) m" "sl ! d = Tombstone" using Suc.prems(4) by auto
      then show ?thesis using Some Empty slot k Suc.prems(3) by (auto intro!: exI[of _ m])
    qed
  next
    case Tombstone
    then have "k \<noteq> first_empty sl (unat h)" using fe(1) by auto
    then have lt: "k < first_empty sl (unat h)" using Suc.prems(1) by simp
    let ?fd = "case fd of None \<Rightarrow> Some ?i | Some d \<Rightarrow> Some d"
    have fuel: "first_empty sl (unat h) - Suc k < fuel" using lt Suc.prems(2) by linarith
    have nm: "\<forall>j<Suc k. \<forall>p. sl ! pos sl (unat h) j = Occupied p \<longrightarrow> \<not> M p"
      using Suc.prems(3) Tombstone by (auto simp: less_Suc_eq)
    have eq: "intern_probe (Suc fuel) st s h ?i fd = intern_probe fuel st s h (pos sl (unat h) (Suc k)) ?fd"
      using Tombstone slot by (simp only: intern_probe.simps rbind_simps Let_def nxt slot.case)
    have "\<forall>d. ?fd = Some d \<longrightarrow> (\<exists>m<Suc k. d = pos sl (unat h) m \<and> sl ! d = Tombstone)"
      using Suc.prems(4) Tombstone by (cases fd) (auto intro: less_SucI)
    then show ?thesis unfolding eq by (rule Suc.IH[OF Suc_leI[OF lt] fuel nm])
  next
    case (Occupied p)
    then have "k \<noteq> first_empty sl (unat h)" using fe(1) by auto
    then have lt: "k < first_empty sl (unat h)" using Suc.prems(1) by simp
    show ?thesis
    proof (cases "M p")
      case True
      then show ?thesis using Occupied slot pos_less[OF p2] by (auto simp: M_def)
    next
      case False
      have fuel: "first_empty sl (unat h) - Suc k < fuel" using lt Suc.prems(2) by linarith
      have nm: "\<forall>j<Suc k. \<forall>p. sl ! pos sl (unat h) j = Occupied p \<longrightarrow> \<not> M p"
        using Suc.prems(3) Occupied False by (auto simp: less_Suc_eq)
      have eq: "intern_probe (Suc fuel) st s h ?i fd = intern_probe fuel st s h (pos sl (unat h) (Suc k)) fd"
        using Occupied slot False
        by (simp only: intern_probe.simps rbind_simps Let_def nxt slot.case M_def if_False)
      have "\<forall>d. fd = Some d \<longrightarrow> (\<exists>m<Suc k. d = pos sl (unat h) m \<and> sl ! d = Tombstone)"
        using Suc.prems(4) by (auto intro: less_SucI)
      then show ?thesis unfolding eq by (rule Suc.IH[OF Suc_leI[OF lt] fuel nm])
    qed
  qed
qed simp

lemma kill_probe_ok:
  assumes p2: "pow2_len sl" and path: "open_path sl hh m" and at: "sl ! pos sl hh m = Occupied p"
    and match: "ls_hash (S p) = h \<and> as_bytes (S p) = bs"
  shows "k \<le> m \<Longrightarrow> m - k < fuel \<Longrightarrow>
    \<exists>i q. kill_probe S fuel sl bs h (pos sl hh k) = Some i \<and> i < length sl \<and> sl ! i = Occupied q \<and>
      ls_hash (S q) = h \<and> as_bytes (S q) = bs"
proof (induction fuel arbitrary: k)
  case (Suc fuel)
  have step: ?case if "k < m" "\<forall>q. sl ! pos sl hh k = Occupied q \<longrightarrow> \<not> (ls_hash (S q) = h \<and> as_bytes (S q) = bs)"
  proof -
    have ne: "sl ! pos sl hh k \<noteq> Empty" using path that(1) by (simp add: open_path_def)
    have "kill_probe S (Suc fuel) sl bs h (pos sl hh k) = kill_probe S fuel sl bs h (pos sl hh (Suc k))"
      using ne that(2) by (cases "sl ! pos sl hh k") (simp_all only: kill_probe.simps slot.case pos_next[OF p2], auto)
    moreover have "m - Suc k < fuel" using Suc.prems(2) that(1) by linarith
    ultimately show ?thesis using Suc.IH[OF Suc_leI[OF that(1)]] by metis
  qed
  show ?case
  proof (cases "\<exists>q. sl ! pos sl hh k = Occupied q \<and> ls_hash (S q) = h \<and> as_bytes (S q) = bs")
    case True
    then obtain q where q: "sl ! pos sl hh k = Occupied q" "ls_hash (S q) = h \<and> as_bytes (S q) = bs" by blast
    then have "kill_probe S (Suc fuel) sl bs h (pos sl hh k) = Some (pos sl hh k)" by simp
    then show ?thesis using q pos_less[OF p2] by blast
  next
    case False
    then have "k \<noteq> m" using at match by auto
    then show ?thesis using step False Suc.prems(1) by (metis le_neq_implies_less)
  qed
qed simp

section \<open>Counting slots\<close>

definition occ :: "slot \<Rightarrow> addr list" where
  "occ x = (case x of Occupied p \<Rightarrow> [p] | _ \<Rightarrow> [])"

definition occs :: "slot list \<Rightarrow> addr list" where
  "occs sl = concat (map occ sl)"

lemma occ_simps [simp]: "occ Empty = []" "occ Tombstone = []" "occ (Occupied p) = [p]"
  by (simp_all add: occ_def)

lemma occs_simps [simp]: "occs [] = []" "occs (x # sl) = occ x @ occs sl" "occs (replicate n Empty) = []"
  by (simp_all add: occs_def)

lemma set_occs: "p \<in> set (occs sl) \<longleftrightarrow> (\<exists>i<length sl. sl ! i = Occupied p)"
proof -
  have "p \<in> set (occ x) \<longleftrightarrow> x = Occupied p" for x by (cases x) auto
  then show ?thesis unfolding occs_def by (auto simp: in_set_conv_nth) 
qed

lemma occs_update:
  "i < length sl \<Longrightarrow> mset (occ (sl ! i) @ occs (sl[i := x])) = mset (occ x @ occs sl)"
proof (induction sl arbitrary: i)
  case (Cons a sl)
  show ?case
  proof (cases i)
    case (Suc j)
    then have "mset (occ (sl ! j) @ occs (sl[j := x])) = mset (occ x @ occs sl)" using Cons by simp
    then show ?thesis using Suc by simp
  qed simp
qed simp

lemma count_update:
  "i < length sl \<Longrightarrow> (if sl ! i = y then 1 else 0) + count_list (sl[i := x]) y =
     (if x = y then 1 else 0) + count_list sl y"
proof (induction sl arbitrary: i)
  case (Cons a sl)
  show ?case
  proof (cases i)
    case (Suc j)
    then have "(if sl ! j = y then 1 else 0) + count_list (sl[j := x]) y =
        (if x = y then 1 else 0) + count_list sl y" using Cons by simp
    then show ?thesis using Suc by simp
  qed simp
qed simp

lemma slots_count: "length sl = length (occs sl) + count_list sl Tombstone + count_list sl Empty"
proof (induction sl)
  case (Cons x sl)
  then show ?case by (cases x) simp_all
qed simp

lemma ex_empty: "length (occs sl) + count_list sl Tombstone < length sl \<Longrightarrow> \<exists>e<length sl. sl ! e = Empty"
proof -
  assume "length (occs sl) + count_list sl Tombstone < length sl"
  then have "count_list sl Empty \<noteq> 0" using slots_count[of sl] by simp
  then show ?thesis by (metis count_notin in_set_conv_nth)
qed

end
