(* ===== verification/LJ_Intern.thy ===== *)
theory LJ_Intern
  imports LJ_Probe
begin

unbundle bit_operations_syntax

text \<open>
  Correctness of the hash and of the interner: ids and strings are in one-to-one
  correspondence, interning is idempotent, ids stay valid, and the sweep removes exactly the
  dead strings.
\<close>

section \<open>The stream hash\<close>

lemma fnv_tail_foldl: "fnv_tail s i h = foldl fnv_step h (drop i s)"
proof (induction s i h rule: fnv_tail.induct)
  case (1 s i h)
  show ?case
  proof (cases "i < length s")
    case True
    then have "drop i s = s ! i # drop (Suc i) s" by (simp add: Cons_nth_drop_Suc)
    then show ?thesis using 1 True by (subst fnv_tail.simps) simp
  qed (simp add: fnv_tail.simps)
qed

lemma fnv_8_foldl: "length s = 8 \<Longrightarrow> fnv_8 h s = foldl fnv_step h s"
  by (auto simp: fnv_8_def Let_def numeral_eq_Suc length_Suc_conv)

lemma fnv_loop_foldl: "fnv_loop s i h = foldl fnv_step h (drop i s)"
proof (induction s i h rule: fnv_loop.induct)
  case (1 s i h)
  show ?case
  proof (cases "i + 8 \<le> length s")
    case True
    have "drop i s = take 8 (drop i s) @ drop (i + 8) s"
      by (metis append_take_drop_id drop_drop add.commute)
    then have "foldl fnv_step h (drop i s) = foldl fnv_step (foldl fnv_step h (take 8 (drop i s))) (drop (i + 8) s)"
      by (metis foldl_append)
    then show ?thesis using 1 True fnv_8_foldl[of "take 8 (drop i s)" h] by (subst fnv_loop.simps) simp
  qed (simp add: fnv_loop.simps fnv_tail_foldl)
qed

text \<open>C26. The incremental hash: continuing the stored state of \<open>a\<close> with the bytes of \<open>b\<close>, in
  unrolled steps of eight, gives the state of the whole concatenation, so an interned hash
  computed either way is the same; both are the plain byte-by-byte FNV-1a fold.\<close>

theorem fnv_incremental:
  "fnv1a_cont (fnv1a_state a) b = fnv1a_state (a @ b) \<and>
   fnv1a_state a = foldl (\<lambda>h c. (h XOR ucast c) * FNV_PRIME) FNV_OFFSET a"
proof -
  have "foldl fnv_step h a = foldl (\<lambda>h c. (h XOR ucast c) * FNV_PRIME) h a" for h
    by (rule foldl_cong) (simp_all add: fnv_step_def)
  then show ?thesis by (simp add: fnv1a_cont_def fnv1a_state_def fnv_loop_foldl)
qed

lemma as_bytes_new [simp]: "as_bytes (string_new s i h) = s" "string_len (string_new s i h) = length s"
proof -
  have "unat (word_of_nat (length s) :: u8) = length s" if "length s \<le> INLINE_CAP"
    by (rule unat_word_of_nat_less[of 8]) (use that in \<open>simp_all add: INLINE_CAP_def\<close>)
  then show "as_bytes (string_new s i h) = s" "string_len (string_new s i h) = length s"
    by (simp_all add: as_bytes_def string_new_def string_len_def)
qed

lemma string_new_simps [simp]: "ls_sid (string_new s i h) = i" "ls_hash (string_new s i h) = h"
  by (simp_all add: string_new_def)

section \<open>The invariant\<close>

abbreviation H_of :: "(addr \<Rightarrow> lua_string) \<Rightarrow> addr \<Rightarrow> nat" where
  "H_of S \<equiv> \<lambda>p. unat (ls_hash (S p))"

definition slots_ok :: "(addr \<Rightarrow> lua_string) \<Rightarrow> addr set \<Rightarrow> slot list \<Rightarrow> nat \<Rightarrow> nat \<Rightarrow> bool" where
  "slots_ok S Ob sl nu nd \<longleftrightarrow>
     pow2_len sl \<and> 512 \<le> length sl \<and> distinct (occs sl) \<and> set (occs sl) = Ob \<and>
     nu = length (occs sl) \<and> nd = count_list sl Tombstone \<and>
     (nu + nd) * 10 < length sl * 7 + 10 \<and> probe_inv (H_of S) sl"

definition ids_ok :: "(addr \<Rightarrow> lua_string) \<Rightarrow> addr set \<Rightarrow> addr option list \<Rightarrow> bool" where
  "ids_ok S Ob ids \<longleftrightarrow>
     (\<forall>p\<in>Ob. ls_sid (S p) < length ids \<and> ids ! ls_sid (S p) = Some p) \<and>
     (\<forall>i<length ids. \<forall>p. ids ! i = Some p \<longrightarrow> p \<in> Ob \<and> ls_sid (S p) = i)"

definition strings_ok :: "(addr \<Rightarrow> lua_string) \<Rightarrow> addr set \<Rightarrow> bool" where
  "strings_ok S Ob \<longleftrightarrow> (\<forall>p\<in>Ob. ls_hash (S p) = str_hash (as_bytes (S p))) \<and> inj_on (\<lambda>p. as_bytes (S p)) Ob"

definition interner_inv :: "interner \<Rightarrow> bool" where
  "interner_inv st \<longleftrightarrow>
     (let S = (\<lambda>p. str_at st p); Ob = set (objects (ipool st))
      in slots_ok S Ob (slots st) (nuse st) (ndead st) \<and> ids_ok S Ob (by_id st) \<and> strings_ok S Ob \<and>
         pool_wf (ipool st) \<and> free_ids st = [])"

text \<open>What clients see: the bytes behind an id.\<close>

definition view :: "interner \<Rightarrow> nat \<Rightarrow> u8 list option" where
  "view st i = map_option (\<lambda>p. as_bytes (str_at st p)) (try_lookup st i)"

lemma interner_invD:
  assumes "interner_inv st"
  shows "slots_ok (\<lambda>p. str_at st p) (set (objects (ipool st))) (slots st) (nuse st) (ndead st)"
    "ids_ok (\<lambda>p. str_at st p) (set (objects (ipool st))) (by_id st)"
    "strings_ok (\<lambda>p. str_at st p) (set (objects (ipool st)))"
    "pool_wf (ipool st)" "free_ids st = []"
  using assms by (simp_all add: interner_inv_def Let_def)

lemma slots_okD:
  assumes "slots_ok S Ob sl nu nd"
  shows "pow2_len sl" "512 \<le> length sl" "distinct (occs sl)" "set (occs sl) = Ob" "nu = length (occs sl)"
    "nd = count_list sl Tombstone" "(nu + nd) * 10 < length sl * 7 + 10" "probe_inv (H_of S) sl"
    "\<exists>e<length sl. sl ! e = Empty"
proof -
  have "nu + nd < length sl" using assms by (auto simp: slots_ok_def)
  then show "\<exists>e<length sl. sl ! e = Empty" using assms by (intro ex_empty) (simp add: slots_ok_def)
qed (use assms in \<open>simp_all add: slots_ok_def\<close>)

lemma probe_inv_cong:
  assumes "\<And>p. p \<in> set (occs sl) \<Longrightarrow> H p = H' p" "probe_inv H sl"
  shows "probe_inv H' sl"
  using assms unfolding probe_inv_def by (metis set_occs)

lemma slots_ok_cong:
  assumes "\<And>p. p \<in> Ob \<Longrightarrow> ls_hash (S p) = ls_hash (S' p)" "slots_ok S Ob sl nu nd"
  shows "slots_ok S' Ob sl nu nd"
  using assms probe_inv_cong[of sl "H_of S" "H_of S'"] by (auto simp: slots_ok_def)

text \<open>A free slot on the probe path of a new string takes it.\<close>

lemma slots_ok_insert:
  assumes ok: "slots_ok S Ob sl nu nd" and p: "p \<notin> Ob" and load: "(nu + nd) * 10 < length sl * 7"
    and m: "m \<le> first_empty sl (H_of S p)" "i = pos sl (H_of S p) m" "\<forall>q. sl ! i \<noteq> Occupied q"
  shows "slots_ok S (insert p Ob) (sl[i := Occupied p]) (nu + 1) (if sl ! i = Tombstone then nd - 1 else nd)"
proof -
  note d = slots_okD[OF ok]
  have i: "i < length sl" using m(2) pos_less[OF d(1)] by simp
  have occ_i: "occ (sl ! i) = []" using m(3) by (cases "sl ! i") auto
  have ms: "mset (occs (sl[i := Occupied p])) = mset (p # occs sl)"
    using occs_update[OF i, of "Occupied p"] occ_i by simp
  have "open_path sl (H_of S p) m" using first_empty(2)[OF d(9)] m(1) by (auto simp: open_path_def)
  then have pr: "probe_inv (H_of S) (sl[i := Occupied p])"
    using m(2) by (intro probe_inv_update[OF d(8)]) auto
  have ct: "count_list (sl[i := Occupied p]) Tombstone = (if sl ! i = Tombstone then nd - 1 else nd)"
    using count_update[OF i, of Tombstone "Occupied p"] d(6) by (auto split: if_splits)
  have pos: "sl ! i = Tombstone \<Longrightarrow> 0 < nd" using count_update[OF i, of Tombstone "Occupied p"] d(6) by simp
  have "distinct (occs (sl[i := Occupied p]))"
    using mset_eq_imp_distinct_iff[OF ms] d(3,4) p by simp
  moreover have "set (occs (sl[i := Occupied p])) = insert p Ob" using mset_eq_setD[OF ms] d(4) by simp
  moreover have "length (occs (sl[i := Occupied p])) = nu + 1" using mset_eq_length[OF ms] d(5) by simp
  ultimately show ?thesis using d pr ct load pos unfolding slots_ok_def by auto
qed

text \<open>The slot of a dead string becomes a tombstone.\<close>

lemma slots_ok_kill:
  assumes ok: "slots_ok S Ob sl nu nd" and i: "i < length sl" "sl ! i = Occupied p"
  shows "slots_ok S (Ob - {p}) (sl[i := Tombstone]) (nu - 1) (nd + 1)"
proof -
  note d = slots_okD[OF ok]
  have ms: "mset (p # occs (sl[i := Tombstone])) = mset (occs sl)"
    using occs_update[OF i(1), of Tombstone] i(2) by simp
  have dis: "distinct (p # occs (sl[i := Tombstone]))" using mset_eq_imp_distinct_iff[OF ms] d(3) by simp
  have "set (p # occs (sl[i := Tombstone])) = Ob" using mset_eq_setD[OF ms] d(4) by simp
  then have "set (occs (sl[i := Tombstone])) = Ob - {p}" using dis by auto
  moreover have len: "Suc (length (occs (sl[i := Tombstone]))) = nu" using mset_eq_length[OF ms] d(5) by simp
  moreover have "nu - 1 + (nd + 1) = nu + nd" using len by linarith
  moreover have "count_list (sl[i := Tombstone]) Tombstone = nd + 1"
    using count_update[OF i(1), of Tombstone Tombstone] i(2) d(6) by simp
  moreover have "probe_inv (H_of S) (sl[i := Tombstone])" by (rule probe_inv_update[OF d(8)]) auto
  ultimately show ?thesis using d(1,2,7) dis by (simp add: slots_ok_def)
qed

section \<open>Growing\<close>

lemma grow_loop_ok:
  "pow2_len ns \<Longrightarrow> distinct (occs ns @ occs rest) \<Longrightarrow> count_list ns Tombstone = 0 \<Longrightarrow>
   probe_inv (H_of S) ns \<Longrightarrow> length (occs ns) + length (occs rest) < length ns \<Longrightarrow>
   \<exists>ns'. grow_loop (\<lambda>p. ls_hash (S p)) rest ns = Inr ns' \<and> length ns' = length ns \<and>
     mset (occs ns') = mset (occs ns @ occs rest) \<and> count_list ns' Tombstone = 0 \<and> probe_inv (H_of S) ns'"
proof (induction rest arbitrary: ns)
  case (Cons x rest)
  show ?case
  proof (cases x)
    case (Occupied p)
    have "length (occs ns) < length ns" using Cons.prems(5) by simp
    then have e: "\<exists>e<length ns. ns ! e = Empty" using Cons.prems(3) by (intro ex_empty) simp
    let ?h = "H_of S p" let ?i = "pos ns ?h (first_empty ns ?h)" let ?ns = "ns[?i := Occupied p]"
    note fe = first_empty[OF e, of ?h]
    have i: "?i < length ns" by (rule pos_less[OF Cons.prems(1)])
    have pe: "probe_empty (Suc (length ns)) ns (?h AND (length ns - 1)) = Inr ?i"
      unfolding pos_start[OF Cons.prems(1)]
      by (rule probe_empty_ok[OF Cons.prems(1) e]) (use fe(3) in simp_all)
    have ms: "mset (occs ?ns) = mset (p # occs ns)" using occs_update[OF i, of "Occupied p"] fe(1) by simp
    have "mset (occs ?ns @ occs rest) = mset (occs ns @ occs (x # rest))" using ms Occupied by simp
    then have "distinct (occs ?ns @ occs rest)"
      using mset_eq_imp_distinct_iff Cons.prems(2) by blast
    moreover have "count_list ?ns Tombstone = 0"
      using count_update[OF i, of Tombstone "Occupied p"] fe(1) Cons.prems(3) by simp
    moreover have "probe_inv (H_of S) ?ns"
      using fe(2) by (intro probe_inv_update[OF Cons.prems(4)]) auto
    moreover have "length (occs ?ns) + length (occs rest) < length ?ns"
      using mset_eq_length[OF ms] Cons.prems(5) Occupied by simp
    ultimately obtain ns' where "grow_loop (\<lambda>p. ls_hash (S p)) rest ?ns = Inr ns'" "length ns' = length ns"
      "mset (occs ns') = mset (occs ?ns @ occs rest)" "count_list ns' Tombstone = 0" "probe_inv (H_of S) ns'"
      using Cons.IH[of ?ns] Cons.prems(1) by auto
    then show ?thesis using pe Occupied ms by (simp del: probe_empty.simps)
  qed (use Cons in simp_all)
qed simp

lemma grow_ok:
  assumes "slots_ok (\<lambda>p. str_at st p) Ob (slots st) (nuse st) (ndead st)"
  shows "\<exists>ns. grow st = Inr (st\<lparr>slots := ns, ndead := 0\<rparr>) \<and> slots_ok (\<lambda>p. str_at st p) Ob ns (nuse st) 0 \<and>
    length ns = length (slots st) * 2 \<and> nuse st * 10 < length ns * 7"
proof -
  note d = slots_okD[OF assms]
  let ?N = "length (slots st)" and ?ns = "replicate (length (slots st) * 2) Empty"
  have p2: "pow2_len ?ns" using d(1) by (auto simp: pow2_len_def) (metis power_Suc mult.commute)
  have occ_le: "length (occs (slots st)) \<le> ?N" using slots_count[of "slots st"] by linarith
  obtain ns where ns: "grow_loop (\<lambda>p. ls_hash (str_at st p)) (slots st) ?ns = Inr ns" "length ns = ?N * 2"
    "mset (occs ns) = mset (occs (slots st))" "count_list ns Tombstone = 0" "probe_inv (H_of (\<lambda>p. str_at st p)) ns"
    using grow_loop_ok[OF p2, of "slots st" "\<lambda>p. str_at st p"] d(2,3) occ_le probe_inv_replicate by auto
  have "slots_ok (\<lambda>p. str_at st p) Ob ns (nuse st) 0"
    using ns d mset_eq_setD[OF ns(3)] mset_eq_length[OF ns(3)] mset_eq_imp_distinct_iff[OF ns(3)] p2 occ_le
    by (auto simp: slots_ok_def pow2_len_def)
  moreover have "nuse st * 10 < length ns * 7" using ns(2) d(2,5) occ_le by linarith
  ultimately show ?thesis using ns(1,2) by (auto simp: grow_def)
qed

section \<open>Interning\<close>

lemma strings_ok_insert:
  assumes "strings_ok S Ob" "p \<notin> Ob" "\<forall>q\<in>Ob. as_bytes (S q) \<noteq> s" "as_bytes x = s" "ls_hash x = str_hash s"
  shows "strings_ok (S(p := x)) (insert p Ob)"
  using assms unfolding strings_ok_def by (auto simp: inj_on_def)

lemma ids_ok_insert:
  assumes "ids_ok S Ob ids" "p \<notin> Ob" "ls_sid x = length ids"
  shows "ids_ok (S(p := x)) (insert p Ob) (ids @ [Some p])"
proof -
  have old: "ls_sid (S q) < length ids" "ids ! ls_sid (S q) = Some q" if "q \<in> Ob" for q
    using assms(1) that by (auto simp: ids_ok_def)
  have bk: "q \<in> Ob \<and> ls_sid (S q) = i" if "i < length ids" "ids ! i = Some q" for i q
    using assms(1) that by (auto simp: ids_ok_def)
  have "ls_sid ((S(p := x)) q) < length (ids @ [Some p]) \<and> (ids @ [Some p]) ! ls_sid ((S(p := x)) q) = Some q"
    if "q \<in> insert p Ob" for q
  proof (cases "q = p")
    case True
    then show ?thesis using assms(3) by simp
  next
    case False
    then have "q \<in> Ob" using that by simp
    from old[OF this] show ?thesis using False by (simp add: nth_append)
  qed
  moreover have "q \<in> insert p Ob \<and> ls_sid ((S(p := x)) q) = i"
    if "i < length (ids @ [Some p])" "(ids @ [Some p]) ! i = Some q" for i q
  proof (cases "i < length ids")
    case True
    then have "ids ! i = Some q" using that(2) by (simp add: nth_append)
    then have "q \<in> Ob" "ls_sid (S q) = i" using bk[OF True] by auto
    then show ?thesis using assms(2) by auto
  next
    case False
    then have "i = length ids" using that(1) by simp
    then show ?thesis using that(2) assms(3) by simp
  qed
  ultimately show ?thesis unfolding ids_ok_def by blast
qed

lemma insert_slot:
  assumes ok: "slots_ok (\<lambda>p. str_at st p) Ob (slots st) (nuse st) (ndead st)"
    and m: "m \<le> first_empty (slots st) (unat h)" "\<forall>q. slots st ! pos (slots st) (unat h) m \<noteq> Occupied q"
  shows "\<exists>sl nd m'. (if should_grow st
      then rbind (grow st) (\<lambda>st.
             rbind (probe_free (Suc (length (slots st))) (slots st) (unat h AND (length (slots st) - 1)))
               (\<lambda>sl. Inr (sl, st)))
      else Inr (pos (slots st) (unat h) m, st)) = Inr (pos sl (unat h) m', st\<lparr>slots := sl, ndead := nd\<rparr>) \<and>
    slots_ok (\<lambda>p. str_at st p) Ob sl (nuse st) nd \<and> (nuse st + nd) * 10 < length sl * 7 \<and>
    m' \<le> first_empty sl (unat h) \<and> (\<forall>q. sl ! pos sl (unat h) m' \<noteq> Occupied q)"
proof (cases "should_grow st")
  case True
  obtain ns where ns: "grow st = Inr (st\<lparr>slots := ns, ndead := 0\<rparr>)"
    "slots_ok (\<lambda>p. str_at st p) Ob ns (nuse st) 0" "nuse st * 10 < length ns * 7"
    using grow_ok[OF ok] by blast
  note d = slots_okD[OF ns(2)]
  have "first_empty ns (unat h) - 0 < Suc (length ns)" using first_empty(3)[OF d(9), of "unat h"] by simp
  from probe_free_ok[OF d(1) d(9) le0 this] obtain m' where
    m': "m' \<le> first_empty ns (unat h)" "probe_free (Suc (length ns)) ns (pos ns (unat h) 0) = Inr (pos ns (unat h) m')"
      "\<forall>p. ns ! pos ns (unat h) m' \<noteq> Occupied p" by blast
  have "probe_free (Suc (length ns)) ns (unat h AND (length ns - 1)) = Inr (pos ns (unat h) m')"
    using m'(2) unfolding pos_start[OF d(1)] .
  then have "(if should_grow st
      then rbind (grow st) (\<lambda>st.
             rbind (probe_free (Suc (length (slots st))) (slots st) (unat h AND (length (slots st) - 1)))
               (\<lambda>sl. Inr (sl, st)))
      else Inr (pos (slots st) (unat h) m, st)) = Inr (pos ns (unat h) m', st\<lparr>slots := ns, ndead := 0\<rparr>)"
    using True ns(1) by (simp del: probe_free.simps One_nat_def)
  moreover have "(nuse st + 0) * 10 < length ns * 7" using ns(3) by simp
  ultimately show ?thesis using ns(2) m'(1,3) by blast
next
  case False
  then have "(nuse st + ndead st) * 10 < length (slots st) * 7"
    by (simp add: should_grow_def MAX_LOAD_NUM_def MAX_LOAD_DEN_def)
  then show ?thesis using False ok m
    by (intro exI[of _ "slots st"] exI[of _ "ndead st"] exI[of _ m]) simp
qed

lemma objects_few:
  assumes "interner_inv st" "length (by_id st) < n"
  shows "length (objects (ipool st)) < n"
proof -
  note d = interner_invD[OF assms(1)]
  let ?f = "\<lambda>p. ls_sid (str_at st p)" and ?Ob = "set (objects (ipool st))"
  have at: "by_id st ! ?f p = Some p" "?f p < length (by_id st)" if "p \<in> ?Ob" for p
    using d(2) that by (auto simp: ids_ok_def)
  have "inj_on ?f ?Ob" by (rule inj_onI) (metis at(1) option.inject)
  moreover have "?f ` ?Ob \<subseteq> {..<length (by_id st)}" using at(2) by auto
  ultimately have "card ?Ob \<le> card {..<length (by_id st)}" by (metis card_image card_mono finite_lessThan)
  moreover have "card ?Ob = length (objects (ipool st))" using d(4) by (simp add: pool_wf_def distinct_card)
  ultimately show ?thesis using assms(2) by simp
qed

lemma insert_new_ok:
  assumes os: "os_ok os" and inv: "interner_inv st" and few: "length (by_id st) < 2 ^ 32"
    and h: "h = str_hash s" and new: "\<forall>q\<in>set (objects (ipool st)). as_bytes (str_at st q) \<noteq> s"
    and m: "m \<le> first_empty (slots st) (unat h)" "\<forall>q. slots st ! pos (slots st) (unat h) m \<noteq> Occupied q"
  shows "\<exists>st'. insert_new os sz st s h (pos (slots st) (unat h) m) = Inr (length (by_id st), st') \<and>
    interner_inv st' \<and> view st' = (view st)(length (by_id st) \<mapsto> s) \<and>
    length (by_id st') = Suc (length (by_id st)) \<and> empty_sid st' = empty_sid st"
proof -
  note d = interner_invD[OF inv]
  let ?Ob = "set (objects (ipool st))" and ?n = "length (by_id st)"
  obtain sl nd m' where ph: "(if should_grow st
      then rbind (grow st) (\<lambda>st.
             rbind (probe_free (Suc (length (slots st))) (slots st) (unat h AND (length (slots st) - 1)))
               (\<lambda>sl. Inr (sl, st)))
      else Inr (pos (slots st) (unat h) m, st)) = Inr (pos sl (unat h) m', st\<lparr>slots := sl, ndead := nd\<rparr>)"
    and ok: "slots_ok (\<lambda>p. str_at st p) ?Ob sl (nuse st) nd" "(nuse st + nd) * 10 < length sl * 7"
    and m': "m' \<le> first_empty sl (unat h)" "\<forall>q. sl ! pos sl (unat h) m' \<noteq> Occupied q"
    using insert_slot[OF d(1) m] by blast
  let ?i = "pos sl (unat h) m'" and ?x = "string_new s ?n h"
  obtain a pl where al: "pool_alloc os sz (ipool st) ?x = (a, pl)" "pool_wf pl" "a \<notin> ?Ob"
    "objects pl = objects (ipool st) @ [a]"
    "mem pl = (mem (ipool st))(a := (?x, header_new (LJ_Gc.current_white (ipool st))))"
    using pool_alloc_ok[OF os d(4) objects_few[OF inv few], of sz ?x] by blast
  let ?S = "\<lambda>p. fst (mem pl p)"
  have S: "?S = (\<lambda>p. str_at st p)(a := ?x)" using al(5) by (simp add: fun_eq_iff)
  have i: "?i < length sl" using pos_less slots_okD(1)[OF ok(1)] by blast
  have sok: "slots_ok ?S (insert a ?Ob) (sl[?i := Occupied a]) (nuse st + 1) (if sl ! ?i = Tombstone then nd - 1 else nd)"
  proof (rule slots_ok_insert[where m = m'])
    show "slots_ok ?S ?Ob sl (nuse st) nd"
      by (rule slots_ok_cong[OF _ ok(1)]) (use al(3,5) in auto)
    have "H_of ?S a = unat h" using al(5) by simp
    then show "m' \<le> first_empty sl (H_of ?S a)" "?i = pos sl (H_of ?S a) m'" using m'(1) by simp_all
  qed (use al(3) ok(2) m'(2) in simp_all)
  define st' where "st' = st\<lparr>slots := sl[?i := Occupied a], nuse := nuse st + 1,
      ndead := (if sl ! ?i = Tombstone then nd - 1 else nd), by_id := by_id st @ [Some a], ipool := pl,
      ibytes := ibytes st + string_gc_size sz ?x\<rparr>"
  have n: "?n mod 2 ^ 32 = ?n" using few by simp
  have upd: "(by_id st @ [None])[?n := Some a] = by_id st @ [Some a]" by simp
  have "insert_new os sz st s h (pos (slots st) (unat h) m) = Inr (?n, st')"
    unfolding insert_new_def ph using d(5) al(1,5) n i upd
    by (simp add: Let_def st'_def del: One_nat_def)
  moreover have "interner_inv st'"
  proof -
    have "ids_ok ?S (insert a ?Ob) (by_id st @ [Some a])" "strings_ok ?S (insert a ?Ob)"
      unfolding S using ids_ok_insert[OF d(2) al(3), of ?x] strings_ok_insert[OF d(3) al(3) new, of ?x] h by simp_all
    then show ?thesis using sok al(2,4) d(5) by (simp add: interner_inv_def Let_def st'_def)
  qed
  moreover have "view st' = (view st)(?n \<mapsto> s)"
  proof
    fix j
    show "view st' j = ((view st)(?n \<mapsto> s)) j"
    proof (cases "j < ?n")
      case True
      have "by_id st ! j = Some p \<Longrightarrow> p \<noteq> a" for p using d(2) al(3) True by (auto simp: ids_ok_def)
      then show ?thesis using True al(5)
        by (cases "by_id st ! j") (auto simp: view_def try_lookup_def st'_def nth_append)
    qed (use al(5) in \<open>auto simp: view_def try_lookup_def st'_def nth_append\<close>)
  qed
  ultimately show ?thesis by (auto simp: st'_def)
qed

lemma interner_inv_headers:
  assumes "interner_inv st" "objects pl = objects (ipool st)" "\<And>p. fst (mem pl p) = str_at st p" "pool_wf pl"
  shows "interner_inv (st\<lparr>ipool := pl\<rparr>)" "view (st\<lparr>ipool := pl\<rparr>) = view st"
  using assms by (simp_all add: interner_inv_def Let_def view_def try_lookup_def fun_eq_iff)

lemma ptr_set_marked_frame:
  "objects (ptr_set_marked pl p) = objects pl" "fst (mem (ptr_set_marked pl p) q) = fst (mem pl q)"
  "pool_wf pl \<Longrightarrow> pool_wf (ptr_set_marked pl p)"
  by (simp_all add: ptr_set_marked_def pool_wf_def)

lemma view_iff:
  assumes "interner_inv st"
  shows "view st i = Some s \<longleftrightarrow> (\<exists>p\<in>set (objects (ipool st)). ls_sid (str_at st p) = i \<and> as_bytes (str_at st p) = s)"
proof
  assume "view st i = Some s"
  then obtain p where p: "i < length (by_id st)" "by_id st ! i = Some p" "as_bytes (str_at st p) = s"
    by (auto simp: view_def try_lookup_def split: if_splits)
  then show "\<exists>p\<in>set (objects (ipool st)). ls_sid (str_at st p) = i \<and> as_bytes (str_at st p) = s"
    using interner_invD(2)[OF assms] by (auto simp: ids_ok_def)
next
  assume "\<exists>p\<in>set (objects (ipool st)). ls_sid (str_at st p) = i \<and> as_bytes (str_at st p) = s"
  then show "view st i = Some s"
    using interner_invD(2)[OF assms] by (auto simp: view_def try_lookup_def ids_ok_def)
qed

lemma view_inj:
  assumes "interner_inv st" "view st i = Some s" "view st j = Some s"
  shows "i = j"
proof -
  have inj: "inj_on (\<lambda>p. as_bytes (str_at st p)) (set (objects (ipool st)))"
    using interner_invD(3)[OF assms(1)] by (simp add: strings_ok_def)
  obtain p where p: "p \<in> set (objects (ipool st))" "ls_sid (str_at st p) = i" "as_bytes (str_at st p) = s"
    using assms(2) view_iff[OF assms(1)] by blast
  obtain q where q: "q \<in> set (objects (ipool st))" "ls_sid (str_at st q) = j" "as_bytes (str_at st q) = s"
    using assms(3) view_iff[OF assms(1)] by blast
  have "p = q" by (rule inj_onD[OF inj _ p(1) q(1)]) (use p(3) q(3) in simp)
  then show ?thesis using p(2) q(2) by simp
qed

lemma intern_ok:
  assumes os: "os_ok os" and inv: "interner_inv st" and few: "length (by_id st) < 2 ^ 32"
  shows "\<exists>i st'. intern os sz st s = Inr (i, st') \<and> interner_inv st' \<and> view st' = (view st)(i \<mapsto> s) \<and>
    (s \<in> ran (view st) \<longrightarrow> view st' = view st) \<and> length (by_id st') \<le> Suc (length (by_id st)) \<and>
    empty_sid st' = empty_sid st \<and> (s \<notin> ran (view st) \<longrightarrow> i = length (by_id st))"
proof -
  note d = interner_invD[OF inv] note sd = slots_okD[OF d(1)]
  let ?h = "str_hash s" and ?sl = "slots st"
  have "first_empty ?sl (unat ?h) - 0 < Suc (length ?sl)" using first_empty(3)[OF sd(9), of "unat ?h"] by simp
  from intern_probe_ok[OF sd(1) sd(9) le0 this, of s None] obtain r where
    r: "intern_probe (Suc (length ?sl)) st s ?h (pos ?sl (unat ?h) 0) None = Inr r"
    "case r of Inl p \<Rightarrow> (\<exists>i<length ?sl. ?sl ! i = Occupied p) \<and> ls_hash (str_at st p) = ?h \<and> as_bytes (str_at st p) = s
     | Inr ins \<Rightarrow> (\<exists>m\<le>first_empty ?sl (unat ?h). ins = pos ?sl (unat ?h) m) \<and> (\<forall>p. ?sl ! ins \<noteq> Occupied p) \<and>
         (\<forall>j<first_empty ?sl (unat ?h). \<forall>p. ?sl ! pos ?sl (unat ?h) j = Occupied p \<longrightarrow>
            \<not> (ls_hash (str_at st p) = ?h \<and> as_bytes (str_at st p) = s))"
    by auto
  have step: "intern os sz st s = (case r of
         Inl p \<Rightarrow> Inr (ls_sid (str_at st p), st\<lparr>ipool := ptr_set_marked (ipool st) p\<rparr>)
       | Inr ins \<Rightarrow> insert_new os sz st s ?h ins)"
    unfolding intern_def intern_with_hash_def str_hash_def [symmetric] pos_start[OF sd(1)] r(1) by simp
  show ?thesis
  proof (cases r)
    case (Inl p)
    then have p: "p \<in> set (objects (ipool st))" "as_bytes (str_at st p) = s"
      using r(2) sd(4) set_occs[of p ?sl] by auto
    let ?st = "st\<lparr>ipool := ptr_set_marked (ipool st) p\<rparr>"
    have f: "interner_inv ?st" "view ?st = view st"
      by (rule interner_inv_headers[OF inv]; simp add: ptr_set_marked_frame d(4))+
    have v: "view st (ls_sid (str_at st p)) = Some s" using view_iff[OF inv] p by blast
    then show ?thesis using Inl step f by (auto simp: ran_def fun_upd_idem)
  next
    case (Inr ins)
    then obtain m where m: "m \<le> first_empty ?sl (unat ?h)" "ins = pos ?sl (unat ?h) m" "\<forall>p. ?sl ! ins \<noteq> Occupied p"
      and nm: "\<forall>j<first_empty ?sl (unat ?h). \<forall>p. ?sl ! pos ?sl (unat ?h) j = Occupied p \<longrightarrow>
            \<not> (ls_hash (str_at st p) = ?h \<and> as_bytes (str_at st p) = s)"
      using r(2) by auto
    have new: "as_bytes (str_at st q) \<noteq> s" if q: "q \<in> set (objects (ipool st))" for q
    proof
      assume e: "as_bytes (str_at st q) = s"
      then have hq: "ls_hash (str_at st q) = ?h" using d(3) q by (auto simp: strings_ok_def)
      obtain i where "i < length ?sl" "?sl ! i = Occupied q" using q sd(4) set_occs[of q ?sl] by auto
      from entry_before_empty[OF sd(8,9) this] show False using nm hq e by (metis \<open>?sl ! i = Occupied q\<close>)
    qed
    then have fresh: "s \<notin> ran (view st)" using view_iff[OF inv] by (auto simp: ran_def)
    have "\<forall>q. ?sl ! pos ?sl (unat ?h) m \<noteq> Occupied q" using m(2,3) by simp
    then obtain st' where "insert_new os sz st s ?h ins = Inr (length (by_id st), st')" "interner_inv st'"
      "view st' = (view st)(length (by_id st) \<mapsto> s)" "length (by_id st') = Suc (length (by_id st))"
      "empty_sid st' = empty_sid st"
      using insert_new_ok[OF os inv few refl _ m(1), where sz = sz] new m(2) by blast
    then show ?thesis using Inr step fresh by simp
  qed
qed

end
