(* ===== verification/LJ_Intern_Spec.thy ===== *)
theory LJ_Intern_Spec
  imports LJ_Intern
begin

unbundle bit_operations_syntax

text \<open>
  The contract of the interner as a locale, its interpretation, the sweep of the interner and
  the properties of the component.
\<close>

section \<open>The contract\<close>

locale interning =
  fixes inv :: "'st \<Rightarrow> bool"
    and seen :: "'st \<Rightarrow> nat \<Rightarrow> 's option"
    and used_ids :: "'st \<Rightarrow> nat"
    and max_ids :: nat
    and put :: "'st \<Rightarrow> 's \<Rightarrow> 'e + (nat \<times> 'st)"
  assumes seen_inj: "inv st \<Longrightarrow> seen st i = Some s \<Longrightarrow> seen st j = Some s \<Longrightarrow> i = j"
    and put_ok: "inv st \<Longrightarrow> used_ids st < max_ids \<Longrightarrow>
      \<exists>i st'. put st s = Inr (i, st') \<and> inv st' \<and> seen st' = (seen st)(i \<mapsto> s) \<and>
        (s \<in> ran (seen st) \<longrightarrow> seen st' = seen st) \<and> (s \<notin> ran (seen st) \<longrightarrow> seen st i = None) \<and>
        used_ids st' \<le> Suc (used_ids st)"
begin

lemma put_again:
  assumes "inv st" "used_ids st < max_ids" "seen st i = Some s"
  shows "\<exists>st'. put st s = Inr (i, st') \<and> inv st' \<and> seen st' = seen st"
proof -
  obtain j st' where st': "put st s = Inr (j, st')" "inv st'" "seen st' = (seen st)(j \<mapsto> s)"
    "s \<in> ran (seen st) \<longrightarrow> seen st' = seen st"
    using put_ok[OF assms(1,2)] by blast
  have "seen st' = seen st" using st'(4) assms(3) by (auto simp: ran_def)
  then have "seen st j = Some s" using st'(3) by (metis fun_upd_same)
  then have "j = i" using seen_inj[OF assms(1)] assms(3) by blast
  then show ?thesis using st' \<open>seen st' = seen st\<close> by blast
qed

lemma put_keeps:
  assumes "inv st" "used_ids st < max_ids" "put st s = Inr (i, st')" "seen st j = Some u"
  shows "seen st' j = Some u"
proof -
  have st': "seen st' = (seen st)(i \<mapsto> s)" "s \<in> ran (seen st) \<longrightarrow> seen st' = seen st"
    "s \<notin> ran (seen st) \<longrightarrow> seen st i = None"
    using put_ok[OF assms(1,2), of s] assms(3) by auto
  then show ?thesis using assms(4) by (cases "s \<in> ran (seen st)") (auto split: if_splits)
qed

primrec put_all :: "'st \<Rightarrow> 's list \<Rightarrow> 'e + (nat list \<times> 'st)" where
  "put_all st [] = Inr ([], st)"
| "put_all st (s # ss) =
     rbind (put st s) (\<lambda>(i, st'). rbind (put_all st' ss) (\<lambda>(is, st''). Inr (i # is, st'')))"

lemma put_all_ok:
  "inv st \<Longrightarrow> used_ids st + length ss \<le> max_ids \<Longrightarrow>
   \<exists>is st'. put_all st ss = Inr (is, st') \<and> inv st' \<and> map (seen st') is = map Some ss \<and>
     (\<forall>j u. seen st j = Some u \<longrightarrow> seen st' j = Some u)"
proof (induction ss arbitrary: st)
  case (Cons s ss)
  obtain i st1 where st1: "put st s = Inr (i, st1)" "inv st1" "seen st1 = (seen st)(i \<mapsto> s)"
    "used_ids st1 \<le> Suc (used_ids st)"
    using put_ok[OF Cons.prems(1), of s] Cons.prems(2) by auto
  have keep: "seen st j = Some u \<Longrightarrow> seen st1 j = Some u" for j u
    using put_keeps[OF Cons.prems(1) _ st1(1)] Cons.prems(2) by simp
  obtain "is" st2 where st2: "put_all st1 ss = Inr (is, st2)" "inv st2" "map (seen st2) is = map Some ss"
    "\<forall>j u. seen st1 j = Some u \<longrightarrow> seen st2 j = Some u"
    using Cons.IH[OF st1(2)] Cons.prems(2) st1(4) by auto
  have "seen st2 i = Some s" using st2(4) st1(3) by simp
  then show ?case using st1(1) st2 keep by auto
qed simp

end

interpretation strs: interning "\<lambda>st. os_ok os \<and> interner_inv st" view "\<lambda>st. length (by_id st)"
  "2 ^ 32" "intern os sz" for os sz
proof
  show "os_ok os \<and> interner_inv st \<Longrightarrow> view st i = Some s \<Longrightarrow> view st j = Some s \<Longrightarrow> i = j" for st i s j
    using view_inj by blast
  fix st s assume a: "os_ok os \<and> interner_inv st" "length (by_id st) < 2 ^ 32"
  have fresh: "view st (length (by_id st)) = None" by (simp add: view_def try_lookup_def)
  from intern_ok[OF _ _ a(2), of os sz s] show "\<exists>i st'. intern os sz st s = Inr (i, st') \<and>
      (os_ok os \<and> interner_inv st') \<and>
      view st' = (view st)(i \<mapsto> s) \<and> (s \<in> ran (view st) \<longrightarrow> view st' = view st) \<and>
      (s \<notin> ran (view st) \<longrightarrow> view st i = None) \<and> length (by_id st') \<le> Suc (length (by_id st))"
    using fresh a(1) by auto
qed

section \<open>Sweeping\<close>

lemma ids_ok_kill:
  assumes "ids_ok S Ob ids" "p \<in> Ob"
  shows "ids_ok S (Ob - {p}) (ids[ls_sid (S p) := None])"
proof -
  have old: "ls_sid (S q) < length ids" "ids ! ls_sid (S q) = Some q" if "q \<in> Ob" for q
    using assms(1) that by (auto simp: ids_ok_def)
  have "ls_sid (S q) \<noteq> ls_sid (S p)" if "q \<in> Ob" "q \<noteq> p" for q
    using old[OF that(1)] old[OF assms(2)] that(2) by (metis option.inject)
  then have "ls_sid (S q) < length (ids[ls_sid (S p) := None]) \<and> ids[ls_sid (S p) := None] ! ls_sid (S q) = Some q"
    if "q \<in> Ob - {p}" for q
    using old[of q] that by (metis DiffD1 DiffD2 length_list_update nth_list_update_neq singletonI)
  moreover have "q \<in> Ob - {p} \<and> ls_sid (S q) = i"
    if "i < length (ids[ls_sid (S p) := None])" "ids[ls_sid (S p) := None] ! i = Some q" for i q
  proof -
    have "i \<noteq> ls_sid (S p)" using that by (metis length_list_update nth_list_update_eq option.distinct(1))
    then have "ids ! i = Some q" "i < length ids" using that by simp_all
    then have "q \<in> Ob" "ls_sid (S q) = i" using assms(1) by (auto simp: ids_ok_def)
    then show ?thesis using \<open>i \<noteq> ls_sid (S p)\<close> by auto
  qed
  ultimately show ?thesis unfolding ids_ok_def by blast
qed

lemma on_free_ok:
  assumes ok: "slots_ok S Ob sl nu nd" and ids: "ids_ok S Ob ids" and strs: "strings_ok S Ob" and p: "p \<in> Ob"
  shows "\<exists>sl' nu' nd' ids'. on_free_string S (S p) (sl, nu, nd, ids) = (sl', nu', nd', ids') \<and>
    slots_ok S (Ob - {p}) sl' nu' nd' \<and> ids_ok S (Ob - {p}) ids' \<and> length ids' = length ids"
proof -
  note d = slots_okD[OF ok]
  let ?h = "H_of S p"
  obtain j where j: "j < length sl" "sl ! j = Occupied p" using p d(4) set_occs[of p sl] by auto
  obtain m where m: "m < first_empty sl ?h" "j = pos sl ?h m" using entry_before_empty[OF d(8,9) j] by blast
  have path: "open_path sl ?h m" using first_empty(2)[OF d(9), of ?h] m(1) by (simp add: open_path_def)
  have at: "sl ! pos sl ?h m = Occupied p" using j(2) m(2) by simp
  have fuel: "m - 0 < Suc (length sl)" using m(1) first_empty(3)[OF d(9), of ?h] by simp
  obtain i q where i: "kill_probe S (Suc (length sl)) sl (as_bytes (S p)) (ls_hash (S p)) (pos sl ?h 0) = Some i"
    "i < length sl" "sl ! i = Occupied q" "as_bytes (S q) = as_bytes (S p)"
    using kill_probe_ok[OF d(1) path at _ le0 fuel, of S "ls_hash (S p)" "as_bytes (S p)"] by auto
  have "q \<in> Ob" using i(2,3) d(4) set_occs[of q sl] by auto
  then have q: "q = p" using strs p i(4) by (auto simp: strings_ok_def inj_on_def)
  have "on_free_string S (S p) (sl, nu, nd, ids) = (sl[i := Tombstone], nu - 1, nd + 1, ids[ls_sid (S p) := None])"
    using i(1) unfolding on_free_string_def pos_start[OF d(1), symmetric]
    by (simp add: Let_def del: kill_probe.simps One_nat_def)
  then show ?thesis using slots_ok_kill[OF ok i(2), of p] i(3) q ids_ok_kill[OF ids p] by auto
qed

lemma on_free_fold:
  "slots_ok S Ob sl nu nd \<Longrightarrow> ids_ok S Ob ids \<Longrightarrow> strings_ok S Ob \<Longrightarrow> distinct D \<Longrightarrow> set D \<subseteq> Ob \<Longrightarrow>
   \<exists>sl' nu' nd' ids'. fold (on_free_string S) (map S D) (sl, nu, nd, ids) = (sl', nu', nd', ids') \<and>
     slots_ok S (Ob - set D) sl' nu' nd' \<and> ids_ok S (Ob - set D) ids' \<and> length ids' = length ids"
proof (induction D arbitrary: Ob sl nu nd ids)
  case (Cons p D)
  obtain sl1 nu1 nd1 ids1 where s1: "on_free_string S (S p) (sl, nu, nd, ids) = (sl1, nu1, nd1, ids1)"
    "slots_ok S (Ob - {p}) sl1 nu1 nd1" "ids_ok S (Ob - {p}) ids1" "length ids1 = length ids"
    using on_free_ok[OF Cons.prems(1-3), of p] Cons.prems(5) by auto
  have "strings_ok S (Ob - {p})" using Cons.prems(3) by (auto simp: strings_ok_def inj_on_def)
  moreover have "set D \<subseteq> Ob - {p}" "distinct D" using Cons.prems(4,5) by auto
  moreover have "Ob - {p} - set D = Ob - set (p # D)" by auto
  ultimately show ?case using Cons.IH[OF s1(2,3)] s1(1,4) by simp
qed auto

lemma mark_fold:
  fixes sl :: "slot list" and pl :: "lua_string pool"
  defines "F \<equiv> fold (\<lambda>x pl. case x of
         Occupied p \<Rightarrow> if as_bytes (fst (mem pl p)) = [] then ptr_set_marked pl p else pl
       | _ \<Rightarrow> pl)"
  shows "objects (F sl pl) = objects pl \<and> (\<forall>p. fst (mem (F sl pl) p) = fst (mem pl p)) \<and>
    (pool_wf pl \<longrightarrow> pool_wf (F sl pl)) \<and>
    (\<forall>p. as_bytes (fst (mem pl p)) \<noteq> [] \<longrightarrow> mem (F sl pl) p = mem pl p) \<and>
    (\<forall>p. as_bytes (fst (mem pl p)) = [] \<and> (marked (snd (mem pl p)) \<or> Occupied p \<in> set sl) \<longrightarrow>
       marked (snd (mem (F sl pl) p)))"
proof (induction sl arbitrary: pl)
  case (Cons x sl)
  let ?pl = "case x of Occupied p \<Rightarrow> if as_bytes (fst (mem pl p)) = [] then ptr_set_marked pl p else pl | _ \<Rightarrow> pl"
  have F: "F (x # sl) pl = F sl ?pl" by (simp add: F_def)
  have step: "objects ?pl = objects pl" "fst (mem ?pl p) = fst (mem pl p)" "pool_wf pl \<longrightarrow> pool_wf ?pl"
    "as_bytes (fst (mem pl p)) \<noteq> [] \<longrightarrow> mem ?pl p = mem pl p"
    "as_bytes (fst (mem pl p)) = [] \<and> (marked (snd (mem pl p)) \<or> x = Occupied p) \<longrightarrow> marked (snd (mem ?pl p))" for p
    by (cases x; simp add: ptr_set_marked_def set_marked_def nw2black_def pool_wf_def)+
  show ?case unfolding F using Cons.IH[of ?pl] step by auto
qed (simp add: F_def)

lemma pool_objects_bound: "pool_wf pl \<Longrightarrow> length (objects pl) \<le> USIZE_MAX"
proof -
  assume wf: "pool_wf pl"
  have "set (objects pl) \<subseteq> {..<2 ^ 47}" using wf by (auto simp: pool_wf_def bad_addr_def ADDR_MAX_def)
  then have "card (set (objects pl)) \<le> card {..<2 ^ 47::nat}" by (intro card_mono) simp_all
  moreover have "length (objects pl) = card (set (objects pl))" using wf by (simp add: pool_wf_def distinct_card)
  ultimately show ?thesis by (simp add: USIZE_MAX_def)
qed

text \<open>Sweeping keeps the invariant; an id keeps its string exactly when the string is empty or
  survives.\<close>

definition kept :: "interner \<Rightarrow> u8 \<Rightarrow> nat \<Rightarrow> bool" where
  "kept st cw i = (case try_lookup st i of
     None \<Rightarrow> False | Some p \<Rightarrow> as_bytes (str_at st p) = [] \<or> survives cw (snd (mem (ipool st) p)))"

lemma interner_sweep_ok:
  assumes inv: "interner_inv st"
  shows "interner_inv (interner_sweep sz st cw)"
    "view (interner_sweep sz st cw) i = (if kept st cw i then view st i else None)"
    "length (by_id (interner_sweep sz st cw)) = length (by_id st)"
    "set (objects (ipool (interner_sweep sz st cw))) =
       {p \<in> set (objects (ipool st)). as_bytes (str_at st p) = [] \<or> survives cw (snd (mem (ipool st) p))}"
    "p \<in> set (objects (ipool (interner_sweep sz st cw))) \<Longrightarrow> str_at (interner_sweep sz st cw) p = str_at st p"
proof -
  note d = interner_invD[OF inv]
  let ?pl = "mark_empty st" and ?S = "\<lambda>a. fst (mem (mark_empty st) a)" and ?Ob = "set (objects (ipool st))"
  note mk = mark_fold[of "slots st" "ipool st", folded mark_empty_def]
  have S: "?S = (\<lambda>p. str_at st p)" using mk by simp
  have wf: "pool_wf ?pl" and ob: "objects ?pl = objects (ipool st)" using mk d(4) by auto
  obtain pl' D where sw: "sweep_tricolor sz cw (on_free_string ?S) (?pl, slots st, nuse st, ndead st, by_id st) =
      (pl', fold (on_free_string ?S) (map ?S D) (slots st, nuse st, ndead st, by_id st))"
    and pl': "pool_wf pl'" "mset (objects ?pl) = mset (objects pl') + mset D"
      "\<forall>a\<in>set D. \<not> survives cw (snd (mem ?pl a))"
      "\<forall>a\<in>set (objects pl'). survives cw (snd (mem ?pl a)) \<and> mem pl' a = (?S a, survivor_header (snd (mem ?pl a)))"
    using sweep_tricolor_ok[OF wf pool_objects_bound[OF wf], of sz cw "on_free_string ?S" "(slots st, nuse st, ndead st, by_id st)"]
    by auto
  have e: "mset (objects (ipool st)) = mset (objects pl' @ D)" using pl'(2) ob by simp
  have dis: "distinct (objects pl' @ D)" using mset_eq_imp_distinct_iff[OF e] d(4) by (simp add: pool_wf_def)
  have st_eq: "set (objects pl') \<union> set D = ?Ob" using mset_eq_setD[OF e] by simp
  have Ob': "set (objects pl') = ?Ob - set D" using dis st_eq by auto
  have DO: "distinct D" "set D \<subseteq> ?Ob" using dis st_eq by auto
  obtain sl nu nd ids where f: "fold (on_free_string ?S) (map ?S D) (slots st, nuse st, ndead st, by_id st) = (sl, nu, nd, ids)"
    "slots_ok ?S (?Ob - set D) sl nu nd" "ids_ok ?S (?Ob - set D) ids" "length ids = length (by_id st)"
    using on_free_fold[of ?S ?Ob "slots st" "nuse st" "ndead st" "by_id st" D] d(1-3) DO
    unfolding S by blast
  let ?st = "interner_sweep sz st cw"
  have eq: "?st = st\<lparr>slots := sl, nuse := nu, ndead := nd, by_id := ids, ipool := pl',
       ibytes := sum_list (map (\<lambda>a. string_gc_size sz (fst (mem pl' a))) (objects pl'))\<rparr>"
    unfolding interner_sweep_def Let_def sw f(1) by simp
  have agree: "fst (mem pl' a) = ?S a" if "a \<in> ?Ob - set D" for a using pl'(4) Ob' that by auto
  have agree': "fst (mem pl' a) = str_at st a" if "a \<in> ?Ob - set D" for a
    using agree[OF that] fun_cong[OF S, of a] by simp
  have str: "strings_ok (\<lambda>p. fst (mem pl' p)) (?Ob - set D)"
    using d(3) agree' by (auto simp: strings_ok_def inj_on_def)
  have slo: "slots_ok (\<lambda>p. fst (mem pl' p)) (?Ob - set D) sl nu nd"
    by (rule slots_ok_cong[OF _ f(2)]) (use agree in auto)
  have "ids_ok (\<lambda>p. fst (mem pl' p)) (?Ob - set D) ids"
    using f(3) agree unfolding ids_ok_def by (metis (no_types, lifting))
  then show inv': "interner_inv ?st"
    using slo str pl'(1) d(5) Ob' by (simp add: eq interner_inv_def Let_def)
  show "length (by_id ?st) = length (by_id st)" using f(4) by (simp add: eq)
  have live: "p \<in> ?Ob - set D \<longleftrightarrow> as_bytes (str_at st p) = [] \<or> survives cw (snd (mem (ipool st) p))" if p: "p \<in> ?Ob" for p
  proof -
    have "p \<notin> set D \<longleftrightarrow> survives cw (snd (mem ?pl p))" using pl'(3,4) p st_eq by auto
    moreover have "survives cw (snd (mem ?pl p))" if "as_bytes (str_at st p) = []"
    proof -
      have "Occupied p \<in> set (slots st)"
        using p slots_okD(4)[OF d(1)] set_occs[of p "slots st"] by (auto simp: in_set_conv_nth)
      then show ?thesis using mk that by (auto simp: survives_def)
    qed
    moreover have "mem ?pl p = mem (ipool st) p" if "as_bytes (str_at st p) \<noteq> []" using mk that by auto
    ultimately show ?thesis using p by (cases "as_bytes (str_at st p) = []") auto
  qed
  show "set (objects (ipool ?st)) = {p \<in> ?Ob. as_bytes (str_at st p) = [] \<or> survives cw (snd (mem (ipool st) p))}"
    using live Ob' by (auto simp: eq)
  show "str_at ?st p = str_at st p" if "p \<in> set (objects (ipool ?st))" using that agree' Ob' by (simp add: eq)
  have vw: "view ?st i = Some s \<longleftrightarrow> (\<exists>p\<in>?Ob - set D. ls_sid (str_at st p) = i \<and> as_bytes (str_at st p) = s)" for s
  proof -
    have o: "set (objects (ipool ?st)) = ?Ob - set D" and m: "\<And>p. str_at ?st p = fst (mem pl' p)"
      using Ob' by (simp_all add: eq)
    show ?thesis unfolding view_iff[OF inv'] o m by (rule bex_cong[OF refl]) (simp only: agree')
  qed
  have at: "try_lookup st i = Some p" if "p \<in> ?Ob" "ls_sid (str_at st p) = i" for p
    using d(2) that by (auto simp: ids_ok_def try_lookup_def)
  have none: "view ?st i = None" if "\<forall>p\<in>?Ob - set D. try_lookup st i \<noteq> Some p"
  proof (cases "view ?st i")
    case (Some s)
    then obtain p where "p \<in> ?Ob - set D" "ls_sid (str_at st p) = i" using vw by blast
    then show ?thesis using at[of p] that by blast
  qed
  show "view ?st i = (if kept st cw i then view st i else None)"
  proof (cases "try_lookup st i")
    case None
    then show ?thesis using none by (simp add: kept_def)
  next
    case (Some p)
    then have pi: "p \<in> ?Ob" "ls_sid (str_at st p) = i"
      using d(2) by (auto simp: try_lookup_def ids_ok_def split: if_splits)
    show ?thesis
    proof (cases "kept st cw i")
      case True
      then have "p \<in> ?Ob - set D" using live[OF pi(1)] Some by (simp add: kept_def)
      then have "view ?st i = Some (as_bytes (str_at st p))" using vw pi(2) by blast
      then show ?thesis using True Some by (simp add: view_def)
    next
      case False
      then have "p \<in> set D" using live[OF pi(1)] Some pi(1) by (auto simp: kept_def)
      then have "\<forall>q\<in>?Ob - set D. try_lookup st i \<noteq> Some q" using Some by auto
      then show ?thesis using False none by simp
    qed
  qed
qed

section \<open>A new interner\<close>

definition blank :: "(addr \<Rightarrow> lua_string \<times> gc_header) \<Rightarrow> interner" where
  "blank m = \<lparr>slots = replicate 512 Empty, nuse = 0, ndead = 0, by_id = [], free_ids = [],
     ipool = pool_new m, ibytes = 0, empty_sid = 0\<rparr>"

lemma blank_inv: "interner_inv (blank m)" "view (blank m) = Map.empty" "by_id (blank m) = []"
proof -
  have "count_list (replicate 512 Empty) Tombstone = 0" by (rule count_notin) simp
  moreover have "pow2_len (replicate 512 Empty)" unfolding pow2_len_def by (rule exI[of _ 9]) simp
  ultimately show "interner_inv (blank m)"
    by (simp add: interner_inv_def blank_def pool_new_def slots_ok_def ids_ok_def strings_ok_def pool_wf_def
        probe_inv_replicate)
  show "view (blank m) = Map.empty" by (simp add: view_def blank_def try_lookup_def fun_eq_iff)
  show "by_id (blank m) = []" by (simp add: blank_def)
qed

text \<open>An interner in which the empty string is at its id, as \<open>Interner::new\<close> leaves it.\<close>

definition interner_ok :: "interner \<Rightarrow> bool" where
  "interner_ok st \<longleftrightarrow> interner_inv st \<and> view st (empty_sid st) = Some []"

lemma interner_new_ok:
  assumes "os_ok os"
  shows "\<exists>st. interner_new os sz m = Inr st \<and> interner_ok st \<and> view st = [empty_sid st \<mapsto> []] \<and>
    length (by_id st) \<le> 1"
proof -
  obtain i st where st: "intern os sz (blank m) [] = Inr (i, st)" "interner_inv st" "view st = [i \<mapsto> []]"
    "length (by_id st) \<le> 1"
    using intern_ok[OF assms blank_inv(1), of m sz "[]"] blank_inv(2,3)[of m] by auto
  let ?st = "st\<lparr>empty_sid := i\<rparr>"
  have "interner_inv ?st" "view ?st = view st"
    using st(2) by (simp_all add: interner_inv_def Let_def view_def try_lookup_def fun_eq_iff)
  moreover have "interner_new os sz m = Inr ?st" using st(1) by (simp add: interner_new_def blank_def)
  ultimately show ?thesis using st(3,4) by (simp add: interner_ok_def)
qed

lemma get_view:
  assumes "interner_ok st"
  shows "interner_get st i = Inr (case view st i of Some s \<Rightarrow> s | None \<Rightarrow> [])"
proof -
  have "\<exists>p. try_lookup st (empty_sid st) = Some p \<and> as_bytes (str_at st p) = []"
    using assms by (auto simp: interner_ok_def view_def)
  then show ?thesis
    by (auto simp: interner_get_def lookup_def lookup_ptr_def view_def split: option.split)
qed

section \<open>Properties\<close>

definition no_mem :: "addr \<Rightarrow> lua_string \<times> gc_header" where
  "no_mem a = (string_new [] 0 0, header_new 0)"

text \<open>A new interner holds exactly the empty string, at its distinguished id; reading any
  id, valid or not, returns a string (the bytes of the id, or the empty string) and never
  panics.\<close>

theorem interner_new_correct:
  assumes "os_ok os"
  shows "\<exists>st. interner_new os sz m = Inr st \<and> interner_ok st \<and> view st = [empty_sid st \<mapsto> []] \<and>
    (\<forall>i. interner_get st i = Inr [])"
proof -
  obtain st where st: "interner_new os sz m = Inr st" "interner_ok st" "view st = [empty_sid st \<mapsto> []]"
    using interner_new_ok[OF assms] by blast
  have "interner_get st i = Inr []" for i using get_view[OF st(2)] st(3) by simp
  then show ?thesis using st by blast
qed

theorem interner_new_correct_witness:
  "\<exists>st. interner_new first_fit 56 no_mem = Inr st \<and> interner_ok st \<and> view st = [empty_sid st \<mapsto> []] \<and>
    (\<forall>i. interner_get st i = Inr [])"
  by (rule interner_new_correct[OF first_fit_ok])

text \<open>C2. Interning is total and faithful: the probe ends (through collisions, tombstones and
  growth of the table), reading back the id gives the interned bytes, every id that was valid
  keeps its bytes, and a string already present gets its old id and changes no id.\<close>

theorem intern_correct:
  assumes "os_ok os" and "interner_ok st" and "length (by_id st) < 2 ^ 32"
  shows "\<exists>i st'. intern os sz st s = Inr (i, st') \<and> interner_ok st' \<and> interner_get st' i = Inr s \<and>
    (\<forall>j u. view st j = Some u \<longrightarrow> interner_get st' j = Inr u) \<and>
    (\<forall>j. view st j = Some s \<longrightarrow> i = j \<and> view st' = view st)"
proof -
  have inv: "os_ok os \<and> interner_inv st" using assms(1,2) by (simp add: interner_ok_def)
  obtain i st' where st': "intern os sz st s = Inr (i, st')" "interner_inv st'" "view st' = (view st)(i \<mapsto> s)"
    "empty_sid st' = empty_sid st"
    using intern_ok[OF assms(1) _ assms(3), of sz s] inv by blast
  have keep: "view st j = Some u \<Longrightarrow> view st' j = Some u" for j u
    using strs.put_keeps[OF inv assms(3) st'(1)] .
  have ok: "interner_ok st'" using st'(2,4) keep assms(2) by (simp add: interner_ok_def)
  have "i = j \<and> view st' = view st" if "view st j = Some s" for j
    using strs.put_again[OF inv assms(3) that, of sz] st'(1) by auto
  moreover have "interner_get st' i = Inr s" "view st j = Some u \<Longrightarrow> interner_get st' j = Inr u" for j u
    using get_view[OF ok] st'(3) keep[of j u] by simp_all
  ultimately show ?thesis using st'(1) ok by blast
qed

theorem intern_correct_witness:
  "\<exists>st i st'. interner_new first_fit 56 no_mem = Inr st \<and> intern first_fit 56 st [104, 105] = Inr (i, st') \<and>
    interner_get st' i = Inr [104, 105]"
proof -
  obtain st where st: "interner_new first_fit 56 no_mem = Inr st" "interner_ok st" "length (by_id st) \<le> 1"
    using interner_new_ok[OF first_fit_ok] by blast
  then have "length (by_id st) < 2 ^ 32" by simp
  from intern_correct[OF first_fit_ok st(2) this, of 56 "[104, 105]"] show ?thesis using st(1) by blast
qed

text \<open>Two ids of an interner never stand for the same bytes, so comparing ids compares
  strings.\<close>

theorem string_ids_unique:
  assumes "interner_ok st" and "view st i \<noteq> None" and "view st j \<noteq> None"
  shows "i = j \<longleftrightarrow> interner_get st i = interner_get st j"
proof -
  obtain s u where su: "view st i = Some s" "view st j = Some u" using assms(2,3) by auto
  have "interner_inv st" using assms(1) by (simp add: interner_ok_def)
  then show ?thesis using su view_inj[of st i s j] get_view[OF assms(1)] by auto
qed

theorem string_ids_unique_witness:
  "\<exists>st. interner_new first_fit 56 no_mem = Inr st \<and>
    (empty_sid st = empty_sid st \<longleftrightarrow> interner_get st (empty_sid st) = interner_get st (empty_sid st))"
proof -
  obtain st where st: "interner_new first_fit 56 no_mem = Inr st" "interner_ok st"
    using interner_new_ok[OF first_fit_ok] by blast
  then have "view st (empty_sid st) \<noteq> None" by (simp add: interner_ok_def)
  from string_ids_unique[OF st(2) this this] show ?thesis using st(1) by blast
qed

text \<open>C10. The sweep of the interner keeps its invariant, keeps every string that is empty or
  survives under the current white at its id, and makes the other ids read as the empty
  string; the entry of a dead string is always found and turned into a tombstone.\<close>

theorem interner_sweep_correct:
  assumes "interner_ok st"
  shows "interner_ok (interner_sweep sz st cw) \<and>
    (\<forall>i. interner_get (interner_sweep sz st cw) i =
       (if kept st cw i then interner_get st i else Inr []))"
proof -
  have inv: "interner_inv st" using assms by (simp add: interner_ok_def)
  note sw = interner_sweep_ok[OF inv]
  have es: "empty_sid (interner_sweep sz st cw) = empty_sid st"
    by (simp add: interner_sweep_def Let_def split: prod.split)
  have "kept st cw (empty_sid st)"
    using assms by (auto simp: interner_ok_def kept_def view_def)
  then have ok: "interner_ok (interner_sweep sz st cw)"
    using sw(1) sw(2)[of sz cw "empty_sid st"] es assms by (simp add: interner_ok_def)
  then show ?thesis using get_view[OF ok] get_view[OF assms] sw(2)[of sz cw] by simp
qed

theorem interner_sweep_correct_witness:
  "\<exists>st. interner_new first_fit 56 no_mem = Inr st \<and> interner_ok (interner_sweep 56 st 0)"
proof -
  obtain st where st: "interner_new first_fit 56 no_mem = Inr st" "interner_ok st"
    using interner_new_ok[OF first_fit_ok] by blast
  then show ?thesis using interner_sweep_correct[OF st(2), of 56 0] by blast
qed

text \<open>Interning a list of strings returns one id per string, and afterwards each id reads
  back as its string while all earlier ids are unchanged.\<close>

theorem intern_all_correct:
  assumes "os_ok os" and "interner_ok st" and "length (by_id st) + length ss \<le> 2 ^ 32"
  shows "\<exists>is st'. strs.put_all os sz st ss = Inr (is, st') \<and> map (view st') is = map Some ss \<and>
    (\<forall>j u. view st j = Some u \<longrightarrow> view st' j = Some u)"
proof -
  have "os_ok os \<and> interner_inv st" using assms(1,2) by (simp add: interner_ok_def)
  from strs.put_all_ok[OF this assms(3), of sz] show ?thesis by blast
qed

theorem intern_all_correct_witness:
  "\<exists>st is st'. interner_new first_fit 56 no_mem = Inr st \<and>
    strs.put_all first_fit 56 st [[97], [98], [97]] = Inr (is, st') \<and> map (view st') is = map Some [[97], [98], [97]]"
proof -
  obtain st where st: "interner_new first_fit 56 no_mem = Inr st" "interner_ok st" "length (by_id st) \<le> 1"
    using interner_new_ok[OF first_fit_ok] by blast
  then have "length (by_id st) + length [[97], [98], [97::u8]] \<le> 2 ^ 32" by simp
  from intern_all_correct[OF first_fit_ok st(2) this, of 56] show ?thesis using st(1) by blast
qed

end
