(* ===== verification/LJ_Pattern.thy ===== *)
theory LJ_Pattern
  imports LJ_Prelude
begin

text \<open>
  The Lua pattern matcher (\<open>stdlib/pattern/class.rs\<close>, \<open>stdlib/pattern/engine.rs\<close>): character
  classes and sets, validation of a pattern, the backtracking matcher, and the entry points
  \<open>find\<close>, \<open>find_all_matches\<close> and \<open>gsub\<close> with their plain-text fast paths.

  The text and the pattern are borrowed slices that nothing changes, so they are arguments
  (\<open>T\<close>, \<open>P\<close>) and the record \<open>mstate\<close> holds what the matcher does change. The field \<open>depth\<close> of
  \<open>MatchState\<close> counts the nested calls of \<open>match_impl\<close> and is restored on return; the model
  passes the number of calls that are still allowed. A function of the source that calls
  \<open>match_impl\<close> takes it as the argument \<open>rc\<close>.
\<close>

section \<open>Bytes\<close>

abbreviation (input) PERCENT :: u8 where "PERCENT \<equiv> 0x25"
abbreviation (input) DOLLAR :: u8 where "DOLLAR \<equiv> 0x24"
abbreviation (input) LPAREN :: u8 where "LPAREN \<equiv> 0x28"
abbreviation (input) RPAREN :: u8 where "RPAREN \<equiv> 0x29"
abbreviation (input) STAR :: u8 where "STAR \<equiv> 0x2A"
abbreviation (input) PLUS :: u8 where "PLUS \<equiv> 0x2B"
abbreviation (input) MINUS :: u8 where "MINUS \<equiv> 0x2D"
abbreviation (input) DOT :: u8 where "DOT \<equiv> 0x2E"
abbreviation (input) QUESTION :: u8 where "QUESTION \<equiv> 0x3F"
abbreviation (input) LBRACKET :: u8 where "LBRACKET \<equiv> 0x5B"
abbreviation (input) RBRACKET :: u8 where "RBRACKET \<equiv> 0x5D"
abbreviation (input) CARET :: u8 where "CARET \<equiv> 0x5E"
abbreviation (input) LOWER_B :: u8 where "LOWER_B \<equiv> 0x62"
abbreviation (input) LOWER_F :: u8 where "LOWER_F \<equiv> 0x66"

text \<open>The ASCII predicates of Rust's \<open>u8\<close>.\<close>

definition is_ascii_uppercase :: "u8 \<Rightarrow> bool" where
  "is_ascii_uppercase c \<longleftrightarrow> 0x41 \<le> c \<and> c \<le> 0x5A"

definition is_ascii_lowercase :: "u8 \<Rightarrow> bool" where
  "is_ascii_lowercase c \<longleftrightarrow> 0x61 \<le> c \<and> c \<le> 0x7A"

definition is_ascii_digit :: "u8 \<Rightarrow> bool" where
  "is_ascii_digit c \<longleftrightarrow> 0x30 \<le> c \<and> c \<le> 0x39"

definition is_ascii_alphabetic :: "u8 \<Rightarrow> bool" where
  "is_ascii_alphabetic c \<longleftrightarrow> is_ascii_uppercase c \<or> is_ascii_lowercase c"

definition is_ascii_alphanumeric :: "u8 \<Rightarrow> bool" where
  "is_ascii_alphanumeric c \<longleftrightarrow> is_ascii_alphabetic c \<or> is_ascii_digit c"

definition is_ascii_hexdigit :: "u8 \<Rightarrow> bool" where
  "is_ascii_hexdigit c \<longleftrightarrow> is_ascii_digit c \<or> 0x41 \<le> c \<and> c \<le> 0x46 \<or> 0x61 \<le> c \<and> c \<le> 0x66"

definition is_ascii_control :: "u8 \<Rightarrow> bool" where
  "is_ascii_control c \<longleftrightarrow> c \<le> 0x1F \<or> c = 0x7F"

definition is_ascii_graphic :: "u8 \<Rightarrow> bool" where
  "is_ascii_graphic c \<longleftrightarrow> 0x21 \<le> c \<and> c \<le> 0x7E"

definition is_ascii_punctuation :: "u8 \<Rightarrow> bool" where
  "is_ascii_punctuation c \<longleftrightarrow> is_ascii_graphic c \<and> \<not> is_ascii_alphanumeric c"

definition is_ascii_whitespace :: "u8 \<Rightarrow> bool" where
  "is_ascii_whitespace c \<longleftrightarrow> c = 0x20 \<or> c = 0x09 \<or> c = 0x0A \<or> c = 0x0C \<or> c = 0x0D"

definition to_ascii_lowercase :: "u8 \<Rightarrow> u8" where
  "to_ascii_lowercase c = (if is_ascii_uppercase c then c + 0x20 else c)"

text \<open>Slicing \<open>&xs[a..b]\<close> and the decimal digits that \<open>format!\<close> prints.\<close>

definition slice :: "'a list \<Rightarrow> nat \<Rightarrow> nat \<Rightarrow> panic + 'a list" where
  "slice xs a b = (if a \<le> b \<and> b \<le> length xs then Inr (take (b - a) (drop a xs)) else Inl IndexPanic)"

fun decimal :: "nat \<Rightarrow> bytes" where
  "decimal n = (if n < 10 then [word_of_nat (48 + n)]
                else decimal (n div 10) @ [word_of_nat (48 + n mod 10)])"

declare decimal.simps [simp del]

section \<open>Character classes and sets\<close>

definition match_class :: "u8 \<Rightarrow> u8 \<Rightarrow> bool" where
  "match_class c cl =
     (if cl = 0x61 then is_ascii_alphabetic c
      else if cl = 0x63 then is_ascii_control c
      else if cl = 0x64 then is_ascii_digit c
      else if cl = 0x67 then is_ascii_graphic c
      else if cl = 0x6C then is_ascii_lowercase c
      else if cl = 0x70 then is_ascii_punctuation c
      else if cl = 0x73 then is_ascii_whitespace c
      else if cl = 0x75 then is_ascii_uppercase c
      else if cl = 0x77 then is_ascii_alphanumeric c
      else if cl = 0x78 then is_ascii_hexdigit c
      else if cl = 0x7A then c = 0
      else c = cl)"

definition is_class_letter :: "u8 \<Rightarrow> bool" where
  "is_class_letter cl \<longleftrightarrow>
     cl \<in> {0x61, 0x63, 0x64, 0x67, 0x6C, 0x70, 0x73, 0x75, 0x77, 0x78, 0x7A,
           0x41, 0x43, 0x44, 0x47, 0x4C, 0x50, 0x53, 0x55, 0x57, 0x58, 0x5A}"

text \<open>The test of a class letter, as \<open>singlematch\<close> and \<open>matchset\<close> write it.\<close>

definition class_test :: "u8 \<Rightarrow> u8 \<Rightarrow> bool" where
  "class_test c cl =
     (if is_ascii_uppercase cl \<and> is_class_letter cl
      then \<not> match_class c (to_ascii_lowercase cl)
      else match_class c cl)"

text \<open>The loop of \<open>matchset\<close> over the members of the set, from index \<open>i\<close>.\<close>

function matchset_loop :: "u8 \<Rightarrow> bytes \<Rightarrow> nat \<Rightarrow> bool \<Rightarrow> bool" where
  "matchset_loop c P i matched =
     (if i < length P \<and> P ! i \<noteq> RBRACKET
      then if P ! i = PERCENT \<and> i + 1 < length P
           then matchset_loop c P (i + 2) (matched \<or> class_test c (P ! (i + 1)))
           else if i + 2 < length P \<and> P ! (i + 1) = MINUS \<and> P ! (i + 2) \<noteq> RBRACKET
           then matchset_loop c P (i + 3) (matched \<or> P ! i \<le> c \<and> c \<le> P ! (i + 2))
           else matchset_loop c P (i + 1) (matched \<or> c = P ! i)
      else matched)"
  by pat_completeness auto
termination by (relation "measure (\<lambda>(c, P, i, m). length P - i)") auto

declare matchset_loop.simps [simp del]

definition matchset :: "u8 \<Rightarrow> bytes \<Rightarrow> nat \<Rightarrow> bool" where
  "matchset c P pp =
     (let i = pp + 1;
          negated = (i < length P \<and> P ! i = CARET);
          i = (if negated then i + 1 else i);
          first = (i < length P \<and> P ! i = RBRACKET);
          matched = (first \<and> c = RBRACKET);
          matched = matchset_loop c P (if first then i + 1 else i) matched
      in if negated then \<not> matched else matched)"

definition singlematch :: "u8 \<Rightarrow> bytes \<Rightarrow> nat \<Rightarrow> panic + bool" where
  "singlematch c P pp =
     rbind (idx_panic P pp) (\<lambda>x.
       if x = DOT then Inr True
       else if x = PERCENT then rbind (idx_panic P (pp + 1)) (\<lambda>cl. Inr (class_test c cl))
       else if x = LBRACKET then Inr (matchset c P pp)
       else Inr (c = x))"

text \<open>The scan of \<open>element_end\<close> for the end of a set, and \<open>element_end\<close>.\<close>

function set_scan :: "bytes \<Rightarrow> nat \<Rightarrow> nat" where
  "set_scan P i =
     (if i < length P \<and> P ! i \<noteq> RBRACKET
      then set_scan P (if P ! i = PERCENT \<and> i + 1 < length P then i + 2 else i + 1)
      else i)"
  by pat_completeness auto
termination by (relation "measure (\<lambda>(P, i). length P - i)") auto

declare set_scan.simps [simp del]

definition set_first :: "bytes \<Rightarrow> nat \<Rightarrow> nat" where
  "set_first P pp =
     (let i = pp + 1;
          i = (if i < length P \<and> P ! i = CARET then i + 1 else i)
      in if i < length P \<and> P ! i = RBRACKET then i + 1 else i)"

definition element_end :: "bytes \<Rightarrow> nat \<Rightarrow> panic + nat" where
  "element_end P pp =
     rbind (idx_panic P pp) (\<lambda>x.
       if x = PERCENT then Inr (pp + 2)
       else if x = LBRACKET then Inr (set_scan P (set_first P pp) + 1)
       else Inr (pp + 1))"

section \<open>Validation\<close>

datatype perr = EndsWithPercent | MissingBalance | MissingFrontierSet | MissingBracket | TooComplex
  | InvalidPatternCapture | InvalidCaptureIndex nat | UnfinishedCapture | InvalidPercentUse

definition is_plain_pattern :: "bytes \<Rightarrow> bool" where
  "is_plain_pattern P \<longleftrightarrow>
     \<not> list_ex (\<lambda>c. c \<in> {PERCENT, DOT, LBRACKET, STAR, PLUS, MINUS, QUESTION, CARET, DOLLAR, LPAREN}) P"

function validate_set_loop :: "bytes \<Rightarrow> nat \<Rightarrow> perr + nat" where
  "validate_set_loop P j =
     (if j < length P \<and> P ! j \<noteq> RBRACKET
      then if P ! j = PERCENT
           then if length P \<le> j + 1 then Inl EndsWithPercent else validate_set_loop P (j + 2)
           else validate_set_loop P (j + 1)
      else Inr j)"
  by pat_completeness auto
termination by (relation "measure (\<lambda>(P, j). length P - j)") auto

declare validate_set_loop.simps [simp del]

definition validate_set :: "bytes \<Rightarrow> nat \<Rightarrow> perr + nat" where
  "validate_set P i =
     rbind (validate_set_loop P (set_first P i)) (\<lambda>j.
       if length P \<le> j then Inl MissingBracket else Inr (j + 1))"

definition is_suffix_byte :: "u8 \<Rightarrow> bool" where
  "is_suffix_byte c \<longleftrightarrow> c \<in> {STAR, PLUS, MINUS, QUESTION}"

text \<open>The index after the element at \<open>i\<close>, as \<open>validate_pattern\<close> moves on, without the suffix.\<close>

definition validate_element :: "bytes \<Rightarrow> nat \<Rightarrow> perr + nat" where
  "validate_element P i =
     (if P ! i = PERCENT
      then if length P \<le> i + 1 then Inl EndsWithPercent
           else if P ! (i + 1) = LOWER_B
           then if length P \<le> i + 3 then Inl MissingBalance else Inr (i + 4)
           else if P ! (i + 1) = LOWER_F
           then if length P \<le> i + 2 \<or> P ! (i + 2) \<noteq> LBRACKET then Inl MissingFrontierSet
                else validate_set P (i + 2)
           else Inr (i + 2)
      else if P ! i = LBRACKET then validate_set P i
      else Inr (i + 1))"

lemma set_first_gt: "i < set_first P i"
  by (simp add: set_first_def Let_def)

lemma validate_set_loop_ge: "validate_set_loop P j = Inr k \<Longrightarrow> j \<le> k"
proof (induction P j rule: validate_set_loop.induct)
  case (1 P j)
  have "P ! j = 37 \<Longrightarrow> Suc j < length P \<Longrightarrow> validate_set_loop P (Suc (Suc j)) = Inr k \<Longrightarrow> Suc (Suc j) \<le> k"
    and "P ! j \<noteq> 37 \<Longrightarrow> P ! j \<noteq> 93 \<Longrightarrow> j < length P \<Longrightarrow> validate_set_loop P (Suc j) = Inr k \<Longrightarrow> Suc j \<le> k"
    using "1.IH" by simp_all
  with "1.prems" show ?case
    by (auto simp: validate_set_loop.simps[of P j] split: if_splits)
qed

lemma validate_set_gt: "validate_set P i = Inr k \<Longrightarrow> i < k"
  using set_first_gt[of i P] validate_set_loop_ge
  by (fastforce simp: validate_set_def rbind_eq_Inr split: if_splits)

lemma validate_element_gt: "validate_element P i = Inr k \<Longrightarrow> i < k"
  using validate_set_gt[of P i k] validate_set_gt[of P "i + 2" k]
  by (auto simp: validate_element_def split: if_splits)

function validate_loop :: "bytes \<Rightarrow> nat \<Rightarrow> perr + unit" where
  "validate_loop P i =
     (if i < length P
      then rbind (validate_element P i) (\<lambda>j.
        validate_loop P (if j < length P \<and> is_suffix_byte (P ! j) then j + 1 else j))
      else Inr ())"
  by pat_completeness auto
termination
  by (relation "measure (\<lambda>(P, i). length P - i)") (auto dest!: validate_element_gt)

declare validate_loop.simps [simp del]

definition pp_start :: "bytes \<Rightarrow> nat" where
  "pp_start P = (if P \<noteq> [] \<and> P ! 0 = CARET then 1 else 0)"

definition validate_pattern :: "bytes \<Rightarrow> perr + unit" where
  "validate_pattern P = validate_loop P (pp_start P)"

section \<open>Match state\<close>

datatype cap_kind = KUnfinished | KPosition | KClosed

datatype capture_len = Len nat | PositionLen | UnfinishedLen

record capture =
  cap_start :: nat
  cap_len :: capture_len
  kind :: cap_kind

record mstate =
  captures :: "capture list"
  num_captures :: nat
  merror :: "perr option"

definition LUA_MAXCAPTURES :: nat where "LUA_MAXCAPTURES = 32"
definition MAXCCALLS :: nat where "MAXCCALLS = 200"

definition mstate_new :: mstate where
  "mstate_new =
     \<lparr>captures = replicate LUA_MAXCAPTURES \<lparr>cap_start = 0, cap_len = UnfinishedLen, kind = KUnfinished\<rparr>,
      num_captures = 0, merror = None\<rparr>"

definition mstate_reset :: "mstate \<Rightarrow> mstate" where
  "mstate_reset ms = ms\<lparr>num_captures := 0, merror := None\<rparr>"

type_synonym match_result = "panic + (nat option \<times> mstate)"
type_synonym matcher = "mstate \<Rightarrow> nat \<Rightarrow> nat \<Rightarrow> match_result"

section \<open>The backtracking matcher\<close>

text \<open>The counting loops \<open>while i < text.len() && p(text[i])\<close>, started at \<open>si\<close>.\<close>

definition count_while :: "(u8 \<Rightarrow> bool) \<Rightarrow> bytes \<Rightarrow> nat \<Rightarrow> nat" where
  "count_while p T si = length (takeWhile p (drop si T))"

definition count_max_repetition :: "bytes \<Rightarrow> nat \<Rightarrow> bytes \<Rightarrow> nat \<Rightarrow> panic + nat" where
  "count_max_repetition T si P pp =
     (if length T \<le> si then Inr 0 else
      rbind (idx_panic P pp) (\<lambda>x.
        if x = DOT then Inr (length T - si)
        else if x = PERCENT \<and> pp + 1 < length P
        then let cl = P ! (pp + 1)
             in if is_class_letter cl
                then Inr (count_while
                       (\<lambda>c. match_class c (to_ascii_lowercase cl) \<noteq> is_ascii_uppercase cl) T si)
                else Inr (count_while (\<lambda>c. c = cl) T si)
        else if x = LBRACKET then Inr (count_while (\<lambda>c. matchset c P pp) T si)
        else Inr (count_while (\<lambda>c. c = x) T si)))"

text \<open>Greedy repetition: the loop from the longest repetition down to \<open>mn\<close>.\<close>

primrec greedy_loop :: "matcher \<Rightarrow> nat \<Rightarrow> nat \<Rightarrow> nat \<Rightarrow> nat \<Rightarrow> mstate \<Rightarrow> match_result" where
  "greedy_loop rc si rp mn 0 ms = (if mn = 0 then rc ms si rp else Inr (None, ms))"
| "greedy_loop rc si rp mn (Suc n) ms =
     (if mn \<le> Suc n
      then rbind (rc ms (si + Suc n) rp) (\<lambda>(r, ms').
             case r of Some e \<Rightarrow> Inr (Some e, ms') | None \<Rightarrow> greedy_loop rc si rp mn n ms')
      else Inr (None, ms))"

definition match_greedy ::
  "matcher \<Rightarrow> bytes \<Rightarrow> bytes \<Rightarrow> mstate \<Rightarrow> nat \<Rightarrow> nat \<Rightarrow> nat \<Rightarrow> nat \<Rightarrow> match_result" where
  "match_greedy rc T P ms si pp rp mn =
     rbind (count_max_repetition T si P pp) (\<lambda>count. greedy_loop rc si rp mn count ms)"

function match_lazy ::
  "matcher \<Rightarrow> bytes \<Rightarrow> bytes \<Rightarrow> mstate \<Rightarrow> nat \<Rightarrow> nat \<Rightarrow> nat \<Rightarrow> match_result" where
  "match_lazy rc T P ms i pp rp =
     rbind (rc ms i rp) (\<lambda>(r, ms').
       case r of
         Some e \<Rightarrow> Inr (Some e, ms')
       | None \<Rightarrow>
           if i < length T
           then rbind (singlematch (T ! i) P pp) (\<lambda>b.
                  if b then match_lazy rc T P ms' (i + 1) pp rp else Inr (None, ms'))
           else Inr (None, ms'))"
  by pat_completeness auto
termination by (relation "measure (\<lambda>(rc, T, P, ms, i, pp, rp). length T - i)") auto

declare match_lazy.simps [simp del]

definition match_optional ::
  "matcher \<Rightarrow> bytes \<Rightarrow> bytes \<Rightarrow> mstate \<Rightarrow> nat \<Rightarrow> nat \<Rightarrow> nat \<Rightarrow> match_result" where
  "match_optional rc T P ms si pp rp =
     (if si < length T
      then rbind (singlematch (T ! si) P pp) (\<lambda>b.
        if b
        then rbind (rc ms (si + 1) rp) (\<lambda>(r, ms').
               case r of Some e \<Rightarrow> Inr (Some e, ms') | None \<Rightarrow> rc ms' si rp)
        else rc ms si rp)
      else rc ms si rp)"

text \<open>Writing a capture slot; the array has a fixed size.\<close>

definition put_capture :: "mstate \<Rightarrow> nat \<Rightarrow> capture \<Rightarrow> panic + mstate" where
  "put_capture ms n c =
     (if n < length (captures ms) then Inr (ms\<lparr>captures := (captures ms)[n := c]\<rparr>)
      else Inl IndexPanic)"

text \<open>\<open>match_open_capture\<close> and \<open>match_position_capture\<close> differ in the slot they write.\<close>

definition push_capture :: "matcher \<Rightarrow> capture \<Rightarrow> mstate \<Rightarrow> nat \<Rightarrow> nat \<Rightarrow> match_result" where
  "push_capture rc c ms si pp =
     (let n = num_captures ms
      in if LUA_MAXCAPTURES \<le> n then Inr (None, ms)
         else rbind (put_capture ms n c) (\<lambda>ms1.
              rbind (rc (ms1\<lparr>num_captures := n + 1\<rparr>) si pp) (\<lambda>(r, ms2).
                Inr (r, if r = None then ms2\<lparr>num_captures := n\<rparr> else ms2))))"

definition match_open_capture :: "matcher \<Rightarrow> mstate \<Rightarrow> nat \<Rightarrow> nat \<Rightarrow> match_result" where
  "match_open_capture rc ms si pp =
     push_capture rc \<lparr>cap_start = si, cap_len = UnfinishedLen, kind = KUnfinished\<rparr> ms si pp"

definition match_position_capture :: "matcher \<Rightarrow> mstate \<Rightarrow> nat \<Rightarrow> nat \<Rightarrow> match_result" where
  "match_position_capture rc ms si pp =
     push_capture rc \<lparr>cap_start = si, cap_len = PositionLen, kind = KPosition\<rparr> ms si pp"

text \<open>The downward search for the last unfinished capture below \<open>n\<close>.\<close>

primrec last_unfinished :: "capture list \<Rightarrow> nat \<Rightarrow> panic + nat option" where
  "last_unfinished cs 0 = Inr None"
| "last_unfinished cs (Suc n) =
     rbind (idx_panic cs n) (\<lambda>c.
       if cap_len c = UnfinishedLen then Inr (Some n) else last_unfinished cs n)"

definition match_close_capture :: "matcher \<Rightarrow> mstate \<Rightarrow> nat \<Rightarrow> nat \<Rightarrow> match_result" where
  "match_close_capture rc ms si pp =
     rbind (last_unfinished (captures ms) (num_captures ms)) (\<lambda>f.
       case f of
         None \<Rightarrow> Inr (None, ms\<lparr>merror := Some InvalidPatternCapture\<rparr>)
       | Some n \<Rightarrow>
           let c = captures ms ! n
           in if si < cap_start c then Inl ArithPanic
              else rbind (put_capture ms n (c\<lparr>cap_len := Len (si - cap_start c), kind := KClosed\<rparr>)) (\<lambda>ms1.
                   rbind (rc ms1 si pp) (\<lambda>(r, ms2).
                     case r of
                       Some e \<Rightarrow> Inr (Some e, ms2)
                     | None \<Rightarrow>
                         rbind (idx_panic (captures ms2) n) (\<lambda>c2.
                         rbind (put_capture ms2 n (c2\<lparr>cap_len := UnfinishedLen, kind := KUnfinished\<rparr>)) (\<lambda>ms3.
                           Inr (None, ms3))))))"

text \<open>The scan of \<open>match_balanced\<close>: the end of the balanced text, if it ends.\<close>

primrec balance_scan :: "u8 \<Rightarrow> u8 \<Rightarrow> bytes \<Rightarrow> nat \<Rightarrow> nat \<Rightarrow> nat option" where
  "balance_scan op cl [] i d = (if d = 0 then Some i else None)"
| "balance_scan op cl (c # cs) i d =
     (if d = 0 then Some i
      else balance_scan op cl cs (i + 1) (if c = cl then d - 1 else if c = op then d + 1 else d))"

definition match_balanced :: "matcher \<Rightarrow> bytes \<Rightarrow> bytes \<Rightarrow> mstate \<Rightarrow> nat \<Rightarrow> nat \<Rightarrow> match_result" where
  "match_balanced rc T P ms si pp =
     (if length P \<le> pp + 3 then Inr (None, ms)
      else if length T \<le> si \<or> T ! si \<noteq> P ! (pp + 2) then Inr (None, ms)
      else case balance_scan (P ! (pp + 2)) (P ! (pp + 3)) (drop (si + 1) T) (si + 1) 1 of
             None \<Rightarrow> Inr (None, ms)
           | Some i \<Rightarrow> rc ms i (pp + 4))"

definition match_frontier :: "matcher \<Rightarrow> bytes \<Rightarrow> bytes \<Rightarrow> mstate \<Rightarrow> nat \<Rightarrow> nat \<Rightarrow> match_result" where
  "match_frontier rc T P ms si pp =
     (if length P \<le> pp + 2 \<or> P ! (pp + 2) \<noteq> LBRACKET then Inr (None, ms)
      else rbind (element_end P (pp + 2)) (\<lambda>set_end.
           rbind (if 0 < si then idx_panic T (si - 1) else Inr 0) (\<lambda>prev_char.
           rbind (singlematch prev_char P (pp + 2)) (\<lambda>prev_matches.
           rbind (singlematch (if si < length T then T ! si else 0) P (pp + 2)) (\<lambda>curr_matches.
             if \<not> prev_matches \<and> curr_matches then rc ms si set_end else Inr (None, ms))))))"

text \<open>The byte comparison of \<open>match_backref\<close>; it stops at the first difference.\<close>

primrec same_bytes :: "bytes \<Rightarrow> nat \<Rightarrow> nat \<Rightarrow> nat \<Rightarrow> panic + bool" where
  "same_bytes T a b 0 = Inr True"
| "same_bytes T a b (Suc n) =
     rbind (idx_panic T a) (\<lambda>x. rbind (idx_panic T b) (\<lambda>y.
       if x \<noteq> y then Inr False else same_bytes T (a + 1) (b + 1) n))"

definition match_backref :: "matcher \<Rightarrow> bytes \<Rightarrow> bytes \<Rightarrow> mstate \<Rightarrow> nat \<Rightarrow> nat \<Rightarrow> match_result" where
  "match_backref rc T P ms si pp =
     rbind (idx_panic P (pp + 1)) (\<lambda>x.
       let n = unat (x - 0x30)
       in if n = 0 \<or> num_captures ms < n
          then Inr (None, ms\<lparr>merror := Some (InvalidCaptureIndex n)\<rparr>)
          else rbind (idx_panic (captures ms) (n - 1)) (\<lambda>c.
            case cap_len c of
              Len l \<Rightarrow>
                if length T < si + l then Inr (None, ms)
                else rbind (same_bytes T si (cap_start c) l) (\<lambda>eq.
                       if eq then rc ms (si + l) (pp + 2) else Inr (None, ms))
            | PositionLen \<Rightarrow> Inr (None, ms\<lparr>merror := Some (InvalidCaptureIndex n)\<rparr>)
            | UnfinishedLen \<Rightarrow> Inr (None, ms\<lparr>merror := Some (InvalidCaptureIndex n)\<rparr>)))"

lemma set_scan_ge: "i \<le> set_scan P i"
proof (induction P i rule: set_scan.induct)
  case (1 P i)
  then show ?case by (auto simp: set_scan.simps[of P i])
qed

lemma element_end_gt: "element_end P pp = Inr ep \<Longrightarrow> pp < ep"
  using set_scan_ge[of "set_first P pp" P] set_first_gt[of pp P]
  by (auto simp: element_end_def rbind_eq_Inr split: if_splits)

text \<open>The loop of \<open>match_inner\<close>: consecutive single elements are matched without recursion.\<close>

function match_inner :: "matcher \<Rightarrow> bytes \<Rightarrow> bytes \<Rightarrow> matcher" where
  "match_inner rc T P ms si pp =
     (if length P \<le> pp then Inr (Some si, ms)
      else if P ! pp = LPAREN
      then if pp + 1 < length P \<and> P ! (pp + 1) = RPAREN
           then match_position_capture rc ms si (pp + 2)
           else match_open_capture rc ms si (pp + 1)
      else if P ! pp = RPAREN then match_close_capture rc ms si (pp + 1)
      else if P ! pp = DOLLAR \<and> length P \<le> pp + 1
      then Inr (if si = length T then Some si else None, ms)
      else if P ! pp = PERCENT \<and> pp + 1 < length P \<and> P ! (pp + 1) = LOWER_B
      then match_balanced rc T P ms si pp
      else if P ! pp = PERCENT \<and> pp + 1 < length P \<and> P ! (pp + 1) = LOWER_F
      then match_frontier rc T P ms si pp
      else if P ! pp = PERCENT \<and> pp + 1 < length P \<and> is_ascii_digit (P ! (pp + 1))
      then match_backref rc T P ms si pp
      else rbind (element_end P pp) (\<lambda>ep.
        if ep < length P \<and> P ! ep = STAR then match_greedy rc T P ms si pp (ep + 1) 0
        else if ep < length P \<and> P ! ep = PLUS then match_greedy rc T P ms si pp (ep + 1) 1
        else if ep < length P \<and> P ! ep = MINUS then match_lazy rc T P ms si pp (ep + 1)
        else if ep < length P \<and> P ! ep = QUESTION then match_optional rc T P ms si pp (ep + 1)
        else if si < length T
        then rbind (singlematch (T ! si) P pp) (\<lambda>b.
               if b then match_inner rc T P ms (si + 1) ep else Inr (None, ms))
        else Inr (None, ms)))"
  by pat_completeness auto
termination
proof (relation "measure (\<lambda>(rc, T, P, ms, si, pp). length P - pp)", goal_cases)
  case 1
  show ?case by simp
next
  case (2 rc T P ms si pp ep b)
  from element_end_gt[OF 2(8)] 2(1) show ?case by simp
qed

declare match_inner.simps [simp del]

text \<open>\<open>match_impl\<close> with \<open>d\<close> nested calls still allowed.\<close>

primrec match_impl :: "bytes \<Rightarrow> bytes \<Rightarrow> nat \<Rightarrow> matcher" where
  "match_impl T P 0 =
     (\<lambda>ms si pp. if merror ms \<noteq> None then Inr (None, ms)
                 else Inr (None, ms\<lparr>merror := Some TooComplex\<rparr>))"
| "match_impl T P (Suc d) =
     (\<lambda>ms si pp. if merror ms \<noteq> None then Inr (None, ms)
                 else match_inner (match_impl T P d) T P ms si pp)"

section \<open>Results\<close>

datatype capture_value = Substring nat nat | Position nat

text \<open>\<open>CaptureResults\<close> is an array with a count; the model keeps the first \<open>count\<close> values.\<close>

record match_info =
  mi_start :: nat
  mi_end :: nat
  mi_captures :: "capture_value list"

text \<open>Reading the first \<open>num_captures\<close> slots; the array bound is checked.\<close>

definition live_captures :: "mstate \<Rightarrow> panic + capture list" where
  "live_captures ms = slice (captures ms) 0 (num_captures ms)"

definition check_captures :: "mstate \<Rightarrow> panic + (perr + unit)" where
  "check_captures ms =
     rbind (live_captures ms) (\<lambda>cs.
       if list_ex (\<lambda>c. cap_len c = UnfinishedLen) cs then Inr (Inl UnfinishedCapture) else Inr (Inr ()))"

primrec extract_loop :: "capture list \<Rightarrow> capture_value list" where
  "extract_loop [] = []"
| "extract_loop (c # cs) =
     (case cap_len c of
        PositionLen \<Rightarrow> Position (cap_start c + 1) # extract_loop cs
      | Len l \<Rightarrow> Substring (cap_start c) (cap_start c + l) # extract_loop cs
      | UnfinishedLen \<Rightarrow> extract_loop cs)"

definition extract_captures :: "mstate \<Rightarrow> panic + capture_value list" where
  "extract_captures ms = rbind (live_captures ms) (\<lambda>cs. Inr (extract_loop cs))"

text \<open>Sequencing of a call that may panic or return an error of its own (\<open>?\<close>).\<close>

definition ebind :: "panic + (perr + 'a) \<Rightarrow> ('a \<Rightarrow> panic + (perr + 'b)) \<Rightarrow> panic + (perr + 'b)" where
  "ebind r f = rbind r (\<lambda>x. case x of Inl e \<Rightarrow> Inr (Inl e) | Inr y \<Rightarrow> f y)"

section \<open>Plain search\<close>

function find_loop :: "bytes \<Rightarrow> u8 \<Rightarrow> bytes \<Rightarrow> nat \<Rightarrow> nat option" where
  "find_loop H first rest i =
     (if i + Suc (length rest) \<le> length H
      then if H ! i = first \<and> take (length rest) (drop (i + 1) H) = rest
           then Some i else find_loop H first rest (i + 1)
      else None)"
  by pat_completeness auto
termination by (relation "measure (\<lambda>(H, f, r, i). length H - i)") auto

declare find_loop.simps [simp del]

primrec position_of :: "u8 \<Rightarrow> bytes \<Rightarrow> nat option" where
  "position_of b [] = None"
| "position_of b (c # cs) = (if c = b then Some 0 else map_option Suc (position_of b cs))"

definition find_bytes_in_slice :: "bytes \<Rightarrow> bytes \<Rightarrow> nat option" where
  "find_bytes_in_slice H N =
     (if N = [] then Some 0
      else if length H < length N then None
      else if length N = 1 then position_of (hd N) H
      else find_loop H (hd N) (tl N) 0)"

section \<open>find\<close>

type_synonym find_result = "(nat \<times> nat \<times> capture_value list) option"

function find_engine :: "bytes \<Rightarrow> bytes \<Rightarrow> mstate \<Rightarrow> nat \<Rightarrow> panic + (perr + find_result)" where
  "find_engine T P ms si =
     rbind (match_impl T P MAXCCALLS (mstate_reset ms) si (pp_start P)) (\<lambda>(r, ms').
       case r of
         Some e \<Rightarrow>
           ebind (check_captures ms') (\<lambda>_.
           rbind (extract_captures ms') (\<lambda>caps. Inr (Inr (Some (si, e, caps)))))
       | None \<Rightarrow>
           (case merror ms' of
              Some err \<Rightarrow> Inr (Inl err)
            | None \<Rightarrow>
                if pp_start P = 1 \<or> length T \<le> si then Inr (Inr None)
                else find_engine T P ms' (si + 1)))"
  by pat_completeness auto
termination by (relation "measure (\<lambda>(T, P, ms, si). length T - si)") auto

declare find_engine.simps [simp del]

definition find_impl :: "bytes \<Rightarrow> bytes \<Rightarrow> nat \<Rightarrow> bool \<Rightarrow> panic + (perr + find_result)" where
  "find_impl T P init should_validate =
     (if length T < init then Inr (Inr None)
      else if is_plain_pattern P
      then (case find_bytes_in_slice (drop init T) P of
              Some pos \<Rightarrow> Inr (Inr (Some (init + pos, init + pos + length P, [])))
            | None \<Rightarrow> Inr (Inr None))
      else ebind (if should_validate then Inr (validate_pattern P) else Inr (Inr ())) (\<lambda>_.
             find_engine T P mstate_new init))"

definition pat_find :: "bytes \<Rightarrow> bytes \<Rightarrow> nat \<Rightarrow> panic + (perr + find_result)" where
  "pat_find T P init = find_impl T P init True"

definition find_assume_valid :: "bytes \<Rightarrow> bytes \<Rightarrow> nat \<Rightarrow> panic + (perr + find_result)" where
  "find_assume_valid T P init = find_impl T P init False"

section \<open>find_all_matches\<close>

definition reached :: "nat option \<Rightarrow> nat \<Rightarrow> bool" where
  "reached mx n \<longleftrightarrow> (case mx of Some m \<Rightarrow> m \<le> n | None \<Rightarrow> False)"

primrec find_all_plain_loop ::
  "nat \<Rightarrow> bytes \<Rightarrow> bytes \<Rightarrow> nat option \<Rightarrow> nat \<Rightarrow> match_info list \<Rightarrow> panic + (perr + match_info list)" where
  "find_all_plain_loop 0 T P mx pos acc = Inl Diverges"
| "find_all_plain_loop (Suc fuel) T P mx pos acc =
     (if pos \<le> length T \<and> \<not> reached mx (length acc)
      then (case find_bytes_in_slice (drop pos T) P of
              Some found \<Rightarrow>
                find_all_plain_loop fuel T P mx (pos + found + length P)
                  (acc @ [\<lparr>mi_start = pos + found, mi_end = pos + found + length P, mi_captures = []\<rparr>])
            | None \<Rightarrow> Inr (Inr acc))
      else Inr (Inr acc))"

definition find_all_matches_plain ::
  "bytes \<Rightarrow> bytes \<Rightarrow> nat \<Rightarrow> nat option \<Rightarrow> panic + (perr + match_info list)" where
  "find_all_matches_plain T P init mx = find_all_plain_loop (length T + 2) T P mx init []"

primrec find_all_loop ::
  "nat \<Rightarrow> bytes \<Rightarrow> bytes \<Rightarrow> nat option \<Rightarrow> mstate \<Rightarrow> nat \<Rightarrow> bool \<Rightarrow> match_info list \<Rightarrow>
     panic + (perr + match_info list)" where
  "find_all_loop 0 T P mx ms si lastne acc = Inl Diverges"
| "find_all_loop (Suc fuel) T P mx ms si lastne acc =
     (if length T < si \<or> reached mx (length acc) then Inr (Inr acc) else
      rbind (match_impl T P MAXCCALLS (mstate_reset ms) si (pp_start P)) (\<lambda>(r, ms').
        case r of
          Some e \<Rightarrow>
            ebind (check_captures ms') (\<lambda>_.
              if e = si \<and> lastne
              then find_all_loop fuel T P mx ms' (if si < length T then si + 1 else si) False acc
              else rbind (extract_captures ms') (\<lambda>caps.
                let acc' = acc @ [\<lparr>mi_start = si, mi_end = e, mi_captures = caps\<rparr>]
                in if e = si
                   then if si < length T then find_all_loop fuel T P mx ms' (si + 1) False acc'
                        else Inr (Inr acc')
                   else find_all_loop fuel T P mx ms' e True acc'))
        | None \<Rightarrow>
            (case merror ms' of
               Some err \<Rightarrow> Inr (Inl err)
             | None \<Rightarrow>
                 if pp_start P = 1 \<or> length T \<le> si then Inr (Inr acc)
                 else find_all_loop fuel T P mx ms' (si + 1) False acc)))"

definition find_all_matches ::
  "bytes \<Rightarrow> bytes \<Rightarrow> nat \<Rightarrow> nat option \<Rightarrow> panic + (perr + match_info list)" where
  "find_all_matches T P init mx =
     (if is_plain_pattern P \<and> P \<noteq> [] then find_all_matches_plain T P init mx
      else ebind (Inr (validate_pattern P)) (\<lambda>_.
             find_all_loop (2 * length T + 3) T P mx mstate_new init False []))"

section \<open>gsub\<close>

text \<open>The replacement string: \<open>%0\<close> to \<open>%9\<close> and \<open>%%\<close>. The loop stands at index \<open>i\<close>.\<close>

definition capture_text :: "bytes \<Rightarrow> mstate \<Rightarrow> bytes \<Rightarrow> nat \<Rightarrow> panic + (perr + bytes)" where
  "capture_text T ms full n =
     (if n = 0 then Inr (Inr full)
      else if n \<le> num_captures ms
      then rbind (idx_panic (captures ms) (n - 1)) (\<lambda>c.
             case cap_len c of
               Len l \<Rightarrow> rbind (slice T (cap_start c) (cap_start c + l)) (\<lambda>x. Inr (Inr x))
             | PositionLen \<Rightarrow> Inr (Inr (decimal (cap_start c + 1)))
             | UnfinishedLen \<Rightarrow> Inr (Inr []))
      else if num_captures ms = 0 \<and> n = 1 then Inr (Inr full)
      else Inr (Inl (InvalidCaptureIndex n)))"

function subst_loop :: "(nat \<Rightarrow> panic + (perr + bytes)) \<Rightarrow> bytes \<Rightarrow> nat \<Rightarrow> bytes \<Rightarrow> panic + (perr + bytes)" where
  "subst_loop cap R i acc =
     (if i < length R
      then if R ! i = PERCENT
           then if i + 1 < length R
                then if R ! (i + 1) = PERCENT then subst_loop cap R (i + 2) (acc @ [PERCENT])
                     else if is_ascii_digit (R ! (i + 1))
                     then ebind (cap (unat (R ! (i + 1) - 0x30))) (\<lambda>x.
                            subst_loop cap R (i + 2) (acc @ x))
                     else Inr (Inl InvalidPercentUse)
                else subst_loop cap R (i + 1) (acc @ [PERCENT])
           else let seg = takeWhile (\<lambda>c. c \<noteq> PERCENT) (drop i R)
                in subst_loop cap R (i + length seg) (acc @ seg)
      else Inr (Inr acc))"
  by pat_completeness auto
termination
proof (relation "measure (\<lambda>(cap, R, i, acc). length R - i)", goal_cases)
  case (5 cap R i acc seg)
  from 5(1,2) have "drop i R = R ! i # drop (Suc i) R" by (simp add: Cons_nth_drop_Suc)
  with 5 show ?case by simp
qed auto

declare subst_loop.simps [simp del]

definition substitute_captures_bytes ::
  "bytes \<Rightarrow> bytes \<Rightarrow> bytes \<Rightarrow> mstate \<Rightarrow> panic + (perr + bytes)" where
  "substitute_captures_bytes R full T ms = subst_loop (capture_text T ms full) R 0 []"

text \<open>\<open>substitute_plain_bytes\<close> has the same loop; a plain pattern has no captures.\<close>

definition plain_capture :: "bytes \<Rightarrow> nat \<Rightarrow> panic + (perr + bytes)" where
  "plain_capture full n =
     (if n = 0 \<or> n = 1 then Inr (Inr full) else Inr (Inl (InvalidCaptureIndex n)))"

definition substitute_plain_bytes :: "bytes \<Rightarrow> bytes \<Rightarrow> bytes \<Rightarrow> panic + (perr + bytes)" where
  "substitute_plain_bytes acc R full = subst_loop (plain_capture full) R 0 acc"

primrec gsub_plain_loop ::
  "nat \<Rightarrow> bytes \<Rightarrow> bytes \<Rightarrow> bytes \<Rightarrow> nat option \<Rightarrow> nat \<Rightarrow> bytes \<Rightarrow> nat \<Rightarrow> panic + (perr + bytes \<times> nat)" where
  "gsub_plain_loop 0 T P R mx pos acc count = Inl Diverges"
| "gsub_plain_loop (Suc fuel) T P R mx pos acc count =
     (let finish = rbind (slice T pos (length T)) (\<lambda>x. Inr (Inr (acc @ x, count)))
      in if pos \<le> length T \<and> \<not> reached mx count
         then (case find_bytes_in_slice (drop pos T) P of
                 Some found \<Rightarrow>
                   rbind (slice T pos (pos + found)) (\<lambda>pre.
                   ebind (if PERCENT \<in> set R
                          then rbind (slice T (pos + found) (pos + found + length P)) (\<lambda>m.
                                 substitute_plain_bytes (acc @ pre) R m)
                          else Inr (Inr (acc @ pre @ R))) (\<lambda>acc'.
                     gsub_plain_loop fuel T P R mx (pos + found + length P) acc' (count + 1)))
               | None \<Rightarrow> finish)
         else finish)"

definition gsub_plain :: "bytes \<Rightarrow> bytes \<Rightarrow> bytes \<Rightarrow> nat option \<Rightarrow> panic + (perr + bytes \<times> nat)" where
  "gsub_plain T P R mx = gsub_plain_loop (length T + 2) T P R mx 0 [] 0"

primrec gsub_loop ::
  "nat \<Rightarrow> bytes \<Rightarrow> bytes \<Rightarrow> bytes \<Rightarrow> nat option \<Rightarrow> mstate \<Rightarrow> nat \<Rightarrow> bool \<Rightarrow> nat \<Rightarrow> bytes \<Rightarrow> nat \<Rightarrow>
     panic + (perr + bytes \<times> nat)" where
  "gsub_loop 0 T P R mx ms si lastne lbe acc count = Inl Diverges"
| "gsub_loop (Suc fuel) T P R mx ms si lastne lbe acc count =
     (let finish = rbind (slice T lbe (length T)) (\<lambda>x. Inr (Inr (acc @ x, count)))
      in if length T < si \<or> reached mx count then finish else
         rbind (match_impl T P MAXCCALLS (mstate_reset ms) si (pp_start P)) (\<lambda>(r, ms').
           case r of
             Some e \<Rightarrow>
               ebind (check_captures ms') (\<lambda>_.
                 if e = si \<and> lastne
                 then if si < length T
                      then gsub_loop fuel T P R mx ms' (si + 1) False (si + 1) (acc @ [T ! si]) count
                      else gsub_loop fuel T P R mx ms' (si + 1) False lbe acc count
                 else rbind (slice T lbe si) (\<lambda>pre.
                      ebind (if PERCENT \<in> set R
                             then rbind (slice T si e) (\<lambda>m. substitute_captures_bytes R m T ms')
                             else Inr (Inr R)) (\<lambda>rep.
                        let acc' = acc @ pre @ rep
                        in if e = si
                           then if si < length T
                                then gsub_loop fuel T P R mx ms' (si + 1) False (si + 1)
                                       (acc' @ [T ! si]) (count + 1)
                                else gsub_loop fuel T P R mx ms' (si + 1) False e acc' (count + 1)
                           else gsub_loop fuel T P R mx ms' e True e acc' (count + 1))))
           | None \<Rightarrow>
               (case merror ms' of
                  Some err \<Rightarrow> Inr (Inl err)
                | None \<Rightarrow>
                    if pp_start P = 1 \<or> length T \<le> si then finish
                    else gsub_loop fuel T P R mx ms' (si + 1) False lbe acc count)))"

definition gsub :: "bytes \<Rightarrow> bytes \<Rightarrow> bytes \<Rightarrow> nat option \<Rightarrow> panic + (perr + bytes \<times> nat)" where
  "gsub T P R mx =
     (if is_plain_pattern P \<and> P \<noteq> [] then gsub_plain T P R mx
      else ebind (Inr (validate_pattern P)) (\<lambda>_.
             gsub_loop (length T + 2) T P R mx mstate_new 0 False 0 [] 0))"

end
