(* ===== verification/LJ_Pattern_Match.thy ===== *)
theory LJ_Pattern_Match
  imports LJ_Pattern
begin

text \<open>
  What a pattern means, as the inductive relation \<open>pmatch\<close> (independent of the search order, the
  recursion limit and the mutable capture array), and the proof that the backtracking matcher
  computes it: on a validated pattern it never panics; when it succeeds the relation holds; when
  it fails without an error no match exists and the captures are restored. The contract of the
  recursive call is the locale \<open>match_contract\<close>.
\<close>

section \<open>Patterns that can be scanned\<close>

definition set_end :: "bytes \<Rightarrow> nat \<Rightarrow> nat" where
  "set_end P i = set_scan P (set_first P i) + 1"

lemma set_end_gt: "i < set_end P i"
  using set_scan_ge[of "set_first P i" P] set_first_gt[of i P] by (simp add: set_end_def)

function wfp :: "bytes \<Rightarrow> nat \<Rightarrow> bool" where
  "wfp P i =
     (if length P \<le> i then True
      else if P ! i = PERCENT
      then i + 1 < length P \<and>
        (if P ! (i + 1) = LOWER_B then i + 3 < length P \<and> wfp P (i + 4)
         else if P ! (i + 1) = LOWER_F
         then i + 2 < length P \<and> P ! (i + 2) = LBRACKET \<and> wfp P (set_end P (i + 2))
         else wfp P (i + 2))
      else if P ! i = LBRACKET then wfp P (set_end P i)
      else wfp P (i + 1))"
  by pat_completeness auto
termination
proof (relation "measure (\<lambda>(P, i). length P - i)", goal_cases)
  case (3 P i)
  then show ?case using set_end_gt[of "i + 2" P] by simp
next
  case (5 P i)
  then show ?case using set_end_gt[of i P] by simp
qed auto

declare wfp.simps [simp del]

lemma wfp_beyond [simp]: "length P \<le> i \<Longrightarrow> wfp P i"
  by (simp add: wfp.simps)

lemma wfp_suffix: "i < length P \<Longrightarrow> is_suffix_byte (P ! i) \<Longrightarrow> wfp P (Suc i) \<longleftrightarrow> wfp P i"
  by (auto simp: wfp.simps[of P i] is_suffix_byte_def)

lemma validate_set_scan: "validate_set_loop P j = Inr k \<Longrightarrow> set_scan P j = k"
proof (induction P j rule: validate_set_loop.induct)
  case (1 P j)
  have "P ! j = 37 \<Longrightarrow> Suc j < length P \<Longrightarrow> validate_set_loop P (Suc (Suc j)) = Inr k \<Longrightarrow> set_scan P (Suc (Suc j)) = k"
    and "P ! j \<noteq> 37 \<Longrightarrow> P ! j \<noteq> 93 \<Longrightarrow> j < length P \<Longrightarrow> validate_set_loop P (Suc j) = Inr k \<Longrightarrow> set_scan P (Suc j) = k"
    using "1.IH" by simp_all
  with "1.prems" show ?case
    by (auto simp: validate_set_loop.simps[of P j] set_scan.simps[of P j] split: if_splits)
qed

lemma validate_set_end: "validate_set P i = Inr k \<Longrightarrow> k = set_end P i"
  by (auto simp: validate_set_def set_end_def rbind_eq_Inr split: if_splits dest: validate_set_scan)

lemma validate_element_wfp:
  assumes "i < length P" and "validate_element P i = Inr j" and "wfp P j"
  shows "wfp P i"
  using assms validate_set_end[of P i j] validate_set_end[of P "i + 2" j]
  by (auto simp: wfp.simps[of P i] validate_element_def split: if_splits)

lemma validate_loop_wfp: "validate_loop P i = Inr () \<Longrightarrow> wfp P i"
proof (induction P i rule: validate_loop.induct)
  case (1 P i)
  show ?case
  proof (cases "i < length P")
    case True
    with "1.prems" obtain j where j: "validate_element P i = Inr j"
      "validate_loop P (if j < length P \<and> is_suffix_byte (P ! j) then j + 1 else j) = Inr ()"
      by (auto simp: validate_loop.simps[of P i] rbind_eq_Inr)
    with "1.IH"[OF True] have "wfp P (if j < length P \<and> is_suffix_byte (P ! j) then j + 1 else j)"
      by blast
    then have "wfp P j" using wfp_suffix[of j P] by (auto split: if_splits)
    with True j(1) show ?thesis by (rule validate_element_wfp)
  qed simp
qed

lemma validate_pattern_wfp: "validate_pattern P = Inr u \<Longrightarrow> wfp P (pp_start P)"
  by (simp add: validate_pattern_def validate_loop_wfp)

section \<open>The meaning of a pattern\<close>

text \<open>An element that is matched against one byte: not a capture, an end anchor, \<open>%b\<close>, \<open>%f\<close> or
  a back reference.\<close>

definition ordinary :: "bytes \<Rightarrow> nat \<Rightarrow> bool" where
  "ordinary P pp \<longleftrightarrow> pp < length P \<and> P ! pp \<noteq> LPAREN \<and> P ! pp \<noteq> RPAREN \<and>
     \<not> (P ! pp = DOLLAR \<and> length P \<le> pp + 1) \<and>
     \<not> (P ! pp = PERCENT \<and> pp + 1 < length P \<and>
        (P ! (pp + 1) = LOWER_B \<or> P ! (pp + 1) = LOWER_F \<or> is_ascii_digit (P ! (pp + 1))))"

text \<open>The repetitions a suffix allows; without a suffix exactly one.\<close>

definition rep_allowed :: "bytes \<Rightarrow> nat \<Rightarrow> nat \<Rightarrow> bool" where
  "rep_allowed P ep n \<longleftrightarrow>
     (if ep < length P \<and> (P ! ep = STAR \<or> P ! ep = MINUS) then True
      else if ep < length P \<and> P ! ep = PLUS then 1 \<le> n
      else if ep < length P \<and> P ! ep = QUESTION then n \<le> 1
      else n = 1)"

definition after_suffix :: "bytes \<Rightarrow> nat \<Rightarrow> nat" where
  "after_suffix P ep = (if ep < length P \<and> is_suffix_byte (P ! ep) then ep + 1 else ep)"

definition elem :: "bytes \<Rightarrow> nat \<Rightarrow> u8 \<Rightarrow> bool" where
  "elem P pp c \<longleftrightarrow> singlematch c P pp = Inr True"

definition reps :: "bytes \<Rightarrow> bytes \<Rightarrow> nat \<Rightarrow> nat \<Rightarrow> nat \<Rightarrow> bool" where
  "reps T P pp si n \<longleftrightarrow> si + n \<le> length T \<and> (\<forall>j<n. elem P pp (T ! (si + j)))"

text \<open>The nesting level after a text that follows one opening byte; \<open>[si, i)\<close> is balanced when
  the level first reaches zero at \<open>i\<close>.\<close>

primrec level :: "u8 \<Rightarrow> u8 \<Rightarrow> int \<Rightarrow> bytes \<Rightarrow> int" where
  "level op cl d [] = d"
| "level op cl d (c # cs) = level op cl (if c = cl then d - 1 else if c = op then d + 1 else d) cs"

definition balanced :: "bytes \<Rightarrow> u8 \<Rightarrow> u8 \<Rightarrow> nat \<Rightarrow> nat \<Rightarrow> bool" where
  "balanced T op cl si i \<longleftrightarrow> si < i \<and> i \<le> length T \<and> T ! si = op \<and>
     level op cl 1 (take (i - (si + 1)) (drop (si + 1) T)) = 0 \<and>
     (\<forall>k < i - (si + 1). level op cl 1 (take k (drop (si + 1) T)) > 0)"

definition frontier :: "bytes \<Rightarrow> bytes \<Rightarrow> nat \<Rightarrow> nat \<Rightarrow> bool" where
  "frontier T P si pp \<longleftrightarrow>
     \<not> matchset (if 0 < si then T ! (si - 1) else 0) P pp \<and>
     matchset (if si < length T then T ! si else 0) P pp"

definition open_at :: "capture list \<Rightarrow> nat \<Rightarrow> bool" where
  "open_at cs k \<longleftrightarrow> k < length cs \<and> cap_len (cs ! k) = UnfinishedLen \<and>
     (\<forall>j<length cs. k < j \<longrightarrow> cap_len (cs ! j) \<noteq> UnfinishedLen)"

inductive pmatch :: "bytes \<Rightarrow> bytes \<Rightarrow> capture list \<Rightarrow> nat \<Rightarrow> nat \<Rightarrow> capture list \<Rightarrow> nat \<Rightarrow> bool"
  for T P where
  pm_end: "length P \<le> pp \<Longrightarrow> pmatch T P cs si pp cs si"
| pm_position: "pp + 1 < length P \<Longrightarrow> P ! pp = LPAREN \<Longrightarrow> P ! (pp + 1) = RPAREN \<Longrightarrow>
    length cs < LUA_MAXCAPTURES \<Longrightarrow>
    pmatch T P (cs @ [\<lparr>cap_start = si, cap_len = PositionLen, kind = KPosition\<rparr>]) si (pp + 2) cs' e \<Longrightarrow>
    pmatch T P cs si pp cs' e"
| pm_open: "pp < length P \<Longrightarrow> P ! pp = LPAREN \<Longrightarrow> \<not> (pp + 1 < length P \<and> P ! (pp + 1) = RPAREN) \<Longrightarrow>
    length cs < LUA_MAXCAPTURES \<Longrightarrow>
    pmatch T P (cs @ [\<lparr>cap_start = si, cap_len = UnfinishedLen, kind = KUnfinished\<rparr>]) si (pp + 1) cs' e \<Longrightarrow>
    pmatch T P cs si pp cs' e"
| pm_close: "pp < length P \<Longrightarrow> P ! pp = RPAREN \<Longrightarrow> open_at cs k \<Longrightarrow>
    pmatch T P (cs[k := (cs ! k)\<lparr>cap_len := Len (si - cap_start (cs ! k)), kind := KClosed\<rparr>])
      si (pp + 1) cs' e \<Longrightarrow>
    pmatch T P cs si pp cs' e"
| pm_dollar: "pp + 1 = length P \<Longrightarrow> P ! pp = DOLLAR \<Longrightarrow> si = length T \<Longrightarrow> pmatch T P cs si pp cs si"
| pm_balanced: "pp + 3 < length P \<Longrightarrow> P ! pp = PERCENT \<Longrightarrow> P ! (pp + 1) = LOWER_B \<Longrightarrow>
    balanced T (P ! (pp + 2)) (P ! (pp + 3)) si i \<Longrightarrow> pmatch T P cs i (pp + 4) cs' e \<Longrightarrow>
    pmatch T P cs si pp cs' e"
| pm_frontier: "pp + 2 < length P \<Longrightarrow> P ! pp = PERCENT \<Longrightarrow> P ! (pp + 1) = LOWER_F \<Longrightarrow>
    P ! (pp + 2) = LBRACKET \<Longrightarrow> frontier T P si (pp + 2) \<Longrightarrow>
    pmatch T P cs si (set_end P (pp + 2)) cs' e \<Longrightarrow> pmatch T P cs si pp cs' e"
| pm_backref: "pp + 1 < length P \<Longrightarrow> P ! pp = PERCENT \<Longrightarrow> is_ascii_digit (P ! (pp + 1)) \<Longrightarrow>
    n = unat (P ! (pp + 1) - 0x30) \<Longrightarrow> 0 < n \<Longrightarrow> n \<le> length cs \<Longrightarrow>
    cap_len (cs ! (n - 1)) = Len l \<Longrightarrow> si + l \<le> length T \<Longrightarrow>
    take l (drop si T) = take l (drop (cap_start (cs ! (n - 1))) T) \<Longrightarrow>
    pmatch T P cs (si + l) (pp + 2) cs' e \<Longrightarrow> pmatch T P cs si pp cs' e"
| pm_element: "ordinary P pp \<Longrightarrow> element_end P pp = Inr ep \<Longrightarrow> rep_allowed P ep n \<Longrightarrow>
    reps T P pp si n \<Longrightarrow> pmatch T P cs (si + n) (after_suffix P ep) cs' e \<Longrightarrow>
    pmatch T P cs si pp cs' e"

inductive_cases pmatchE: "pmatch T P cs si pp cs' e"

section \<open>States and outcomes\<close>

definition live :: "mstate \<Rightarrow> capture list" where
  "live ms = take (num_captures ms) (captures ms)"

definition cap_ok :: "nat \<Rightarrow> capture \<Rightarrow> bool" where
  "cap_ok si c \<longleftrightarrow> cap_start c \<le> si \<and> (\<forall>l. cap_len c = Len l \<longrightarrow> cap_start c + l \<le> si) \<and>
     (cap_len c = UnfinishedLen \<longrightarrow> kind c = KUnfinished)"

definition mok :: "bytes \<Rightarrow> mstate \<Rightarrow> nat \<Rightarrow> bool" where
  "mok T ms si \<longleftrightarrow> length (captures ms) = LUA_MAXCAPTURES \<and> num_captures ms \<le> LUA_MAXCAPTURES \<and>
     si \<le> length T \<and> (\<forall>c\<in>set (live ms). cap_ok si c)"

text \<open>The outcome of a search for the solutions \<open>Q\<close> (final captures and end index) from \<open>ms\<close>.\<close>

definition outcome :: "bytes \<Rightarrow> mstate \<Rightarrow> (capture list \<Rightarrow> nat \<Rightarrow> bool) \<Rightarrow> nat option \<Rightarrow> mstate \<Rightarrow> bool" where
  "outcome T ms Q r ms' \<longleftrightarrow> length (captures ms') = LUA_MAXCAPTURES \<and>
     (case r of
        Some e \<Rightarrow> merror ms' = None \<and> mok T ms' e \<and> Q (live ms') e
      | None \<Rightarrow> merror ms' = None \<longrightarrow>
          num_captures ms' = num_captures ms \<and> live ms' = live ms \<and> (\<forall>cs e. \<not> Q cs e))"

definition runs :: "bytes \<Rightarrow> mstate \<Rightarrow> (capture list \<Rightarrow> nat \<Rightarrow> bool) \<Rightarrow> match_result \<Rightarrow> bool" where
  "runs T ms Q f \<longleftrightarrow> (\<exists>r ms'. f = Inr (r, ms') \<and> outcome T ms Q r ms')"

lemma runs_cong: "runs T ms Q f \<Longrightarrow> (\<And>cs e. Q' cs e \<longleftrightarrow> Q cs e) \<Longrightarrow> runs T ms Q' f"
proof -
  assume f: "runs T ms Q f" and "\<And>cs e. Q' cs e \<longleftrightarrow> Q cs e"
  then have "Q' = Q" by (intro ext) simp
  with f show ?thesis by simp
qed

lemma runs_fail:
  "length (captures ms) = LUA_MAXCAPTURES \<Longrightarrow> (\<And>cs e. \<not> Q cs e) \<Longrightarrow> runs T ms Q (Inr (None, ms))"
  by (simp add: runs_def outcome_def)

lemma runs_error:
  "length (captures ms) = LUA_MAXCAPTURES \<Longrightarrow> runs T ms Q (Inr (None, ms\<lparr>merror := Some err\<rparr>))"
  by (simp add: runs_def outcome_def)

lemma runs_done:
  "mok T ms e \<Longrightarrow> merror ms = None \<Longrightarrow> Q (live ms) e \<Longrightarrow> runs T ms Q (Inr (Some e, ms))"
  by (auto simp: runs_def outcome_def mok_def)

lemma mok_captures: "mok T ms si \<Longrightarrow> length (captures ms) = LUA_MAXCAPTURES"
  by (simp add: mok_def)

lemma mok_len: "mok T ms si \<Longrightarrow> si \<le> length T"
  by (simp add: mok_def)

lemma cap_ok_mono: "cap_ok si c \<Longrightarrow> si \<le> si' \<Longrightarrow> cap_ok si' c"
  by (auto simp: cap_ok_def)

lemma mok_advance: "mok T ms si \<Longrightarrow> si \<le> si' \<Longrightarrow> si' \<le> length T \<Longrightarrow> mok T ms si'"
  by (auto simp: mok_def intro: cap_ok_mono)

lemma mok_same:
  "mok T ms si \<Longrightarrow> length (captures ms') = LUA_MAXCAPTURES \<Longrightarrow> num_captures ms' = num_captures ms \<Longrightarrow>
   live ms' = live ms \<Longrightarrow> mok T ms' si"
  by (simp add: mok_def)

lemma length_live: "mok T ms si \<Longrightarrow> length (live ms) = num_captures ms"
  by (simp add: mok_def live_def)

lemma live_nth: "n < num_captures ms \<Longrightarrow> live ms ! n = captures ms ! n"
  by (simp add: live_def)

text \<open>Trying one alternative after another.\<close>

lemma runs_orelse:
  assumes "runs T ms Q1 f" and "mok T ms si"
    and stuck: "\<And>ms'. merror ms' \<noteq> None \<Longrightarrow> g ms' = Inr (None, ms')"
    and go: "\<And>ms'. merror ms' = None \<Longrightarrow> mok T ms' si \<Longrightarrow> live ms' = live ms \<Longrightarrow> runs T ms' Q2 (g ms')"
  shows "runs T ms (\<lambda>cs e. Q1 cs e \<or> Q2 cs e)
    (rbind f (\<lambda>(r, ms'). case r of Some e \<Rightarrow> Inr (Some e, ms') | None \<Rightarrow> g ms'))"
proof -
  from assms(1) obtain r ms1 where f: "f = Inr (r, ms1)" and o: "outcome T ms Q1 r ms1"
    by (auto simp: runs_def)
  show ?thesis
  proof (cases r)
    case (Some e)
    with f o show ?thesis by (auto simp: runs_def outcome_def)
  next
    case None
    show ?thesis
    proof (cases "merror ms1")
      case (Some err)
      with f o None stuck[of ms1] show ?thesis by (auto simp: runs_def outcome_def)
    next
      case n: None
      with o None have same: "num_captures ms1 = num_captures ms" "live ms1 = live ms"
        "\<And>cs e. \<not> Q1 cs e" "length (captures ms1) = LUA_MAXCAPTURES"
        by (auto simp: outcome_def)
      from go[OF n mok_same[OF assms(2) same(4,1,2)] same(2)] obtain r2 ms2
        where g: "g ms1 = Inr (r2, ms2)" and "outcome T ms1 Q2 r2 ms2" by (auto simp: runs_def)
      then have "outcome T ms (\<lambda>cs e. Q1 cs e \<or> Q2 cs e) r2 ms2"
        using same by (cases r2) (auto simp: outcome_def)
      with f None g show ?thesis by (simp add: runs_def)
    qed
  qed
qed

section \<open>Elements\<close>

lemma element_end_wfp:
  assumes "ordinary P pp" and "wfp P pp"
  shows "\<exists>ep. element_end P pp = Inr ep \<and> wfp P ep"
  using assms by (auto simp: ordinary_def element_end_def wfp.simps[of P pp] set_end_def)

lemma after_suffix_wfp: "wfp P ep \<Longrightarrow> wfp P (after_suffix P ep)"
  using wfp_suffix[of ep P] by (simp add: after_suffix_def)

lemma singlematch_total:
  assumes "pp < length P" and "wfp P pp"
  shows "singlematch c P pp = Inr (elem P pp c)"
  using assms by (auto simp: elem_def singlematch_def wfp.simps[of P pp])

lemma reps_0 [simp]: "reps T P pp si 0 \<longleftrightarrow> si \<le> length T"
  by (simp add: reps_def)

lemma reps_Suc: "reps T P pp si (Suc n) \<longleftrightarrow> si < length T \<and> elem P pp (T ! si) \<and> reps T P pp (Suc si) n"
  by (auto simp: reps_def All_less_Suc2)

lemma reps_1: "reps T P pp si 1 \<longleftrightarrow> si < length T \<and> elem P pp (T ! si)"
  using reps_Suc[of T P pp si 0] by auto

lemma count_while_reps:
  assumes "\<And>c. p c \<longleftrightarrow> elem P pp c" and "si \<le> length T"
  shows "reps T P pp si n \<longleftrightarrow> n \<le> count_while p T si"
proof -
  have "reps T P pp si n \<longleftrightarrow> si + n \<le> length T \<and> (\<forall>j<n. p (drop si T ! j))"
    using assms by (auto simp: reps_def)
  also have "\<dots> \<longleftrightarrow> n \<le> length (takeWhile p (drop si T))"
  proof
    assume a: "si + n \<le> length T \<and> (\<forall>j<n. p (drop si T ! j))"
    then have "takeWhile p (drop si T) = take n (drop si T) @ takeWhile p (drop n (drop si T))"
      by (subst append_take_drop_id[of n "drop si T", symmetric], subst takeWhile_append2)
        (auto simp: in_set_conv_nth)
    moreover have "length (take n (drop si T)) = n"
    proof -
      have "n \<le> length T - si" using a by arith
      then show ?thesis by simp
    qed
    ultimately show "n \<le> length (takeWhile p (drop si T))" by (metis le_add1 length_append)
  next
    assume n: "n \<le> length (takeWhile p (drop si T))"
    have "p (drop si T ! j)" if "j < n" for j
    proof -
      have "j < length (takeWhile p (drop si T))" using that n by simp
      then show ?thesis by (metis nth_mem set_takeWhileD takeWhile_nth)
    qed
    moreover have "si + n \<le> length T"
      using n length_takeWhile_le[of p "drop si T"] assms(2) by simp
    ultimately show "si + n \<le> length T \<and> (\<forall>j<n. p (drop si T ! j))" by blast
  qed
  finally show ?thesis by (simp add: count_while_def)
qed

lemma match_class_upper:
  assumes "is_class_letter cl"
  shows "class_test c cl \<longleftrightarrow> match_class c (to_ascii_lowercase cl) \<noteq> is_ascii_uppercase cl"
  using assms by (auto simp: class_test_def to_ascii_lowercase_def)

lemma match_class_literal:
  assumes "\<not> is_class_letter cl"
  shows "class_test c cl \<longleftrightarrow> c = cl"
  using assms by (auto simp: class_test_def match_class_def is_class_letter_def)

lemma count_max_repetition_reps:
  assumes "pp < length P" and "wfp P pp" and "si \<le> length T"
  shows "\<exists>m. count_max_repetition T si P pp = Inr m \<and> (\<forall>n. reps T P pp si n \<longleftrightarrow> n \<le> m)"
proof (cases "length T \<le> si")
  case True
  then have "reps T P pp si n \<longleftrightarrow> n \<le> 0" for n using assms(3) by (auto simp: reps_def)
  with True show ?thesis by (simp add: count_max_repetition_def)
next
  case False
  have el: "elem P pp c = (if P ! pp = DOT then True else if P ! pp = PERCENT then class_test c (P ! (pp + 1))
      else if P ! pp = LBRACKET then matchset c P pp else c = P ! pp)" for c
    using assms by (auto simp: elem_def singlematch_def wfp.simps[of P pp])
  have pc: "P ! pp = PERCENT \<Longrightarrow> pp + 1 < length P" using assms by (simp add: wfp.simps[of P pp])
  have w: "(\<And>c. p c \<longleftrightarrow> elem P pp c) \<Longrightarrow> \<forall>n. reps T P pp si n \<longleftrightarrow> n \<le> count_while p T si" for p
    using count_while_reps assms(3) by blast
  consider (dot) "P ! pp = DOT" | (cls) "P ! pp = PERCENT" "is_class_letter (P ! (pp + 1))"
    | (lit) "P ! pp = PERCENT" "\<not> is_class_letter (P ! (pp + 1))"
    | (set) "P ! pp = LBRACKET" | (other) "P ! pp \<notin> {DOT, PERCENT, LBRACKET}" by blast
  then show ?thesis
  proof cases
    case dot
    then have "reps T P pp si n \<longleftrightarrow> n \<le> length T - si" for n
      using False el by (auto simp: reps_def)
    with dot False assms(1) show ?thesis by (simp add: count_max_repetition_def)
  next
    case cls
    with False assms(1) pc show ?thesis
      using w[of "\<lambda>c. match_class c (to_ascii_lowercase (P ! (pp + 1))) \<noteq> is_ascii_uppercase (P ! (pp + 1))"]
      by (simp add: count_max_repetition_def el match_class_upper Let_def)
  next
    case lit
    with False assms(1) pc show ?thesis
      using w[of "\<lambda>c. c = P ! (pp + 1)"]
      by (simp add: count_max_repetition_def el match_class_literal Let_def)
  next
    case set
    with False assms(1) show ?thesis
      using w[of "\<lambda>c. matchset c P pp"] by (simp add: count_max_repetition_def el)
  next
    case other
    with False assms(1) show ?thesis
      using w[of "\<lambda>c. c = P ! pp"] by (simp add: count_max_repetition_def el)
  qed
qed

section \<open>Inversion of the relation\<close>

lemma pmatch_at_end: "length P \<le> pp \<Longrightarrow> pmatch T P cs si pp cs' e \<longleftrightarrow> cs' = cs \<and> e = si"
  by (auto elim: pmatchE intro: pmatch.intros simp: ordinary_def)

lemma pmatch_at_position:
  assumes "pp + 1 < length P" "P ! pp = LPAREN" "P ! (pp + 1) = RPAREN"
  shows "pmatch T P cs si pp cs' e \<longleftrightarrow> length cs < LUA_MAXCAPTURES \<and>
    pmatch T P (cs @ [\<lparr>cap_start = si, cap_len = PositionLen, kind = KPosition\<rparr>]) si (pp + 2) cs' e"
  using assms by (auto elim: pmatchE intro: pmatch.intros simp: ordinary_def)

lemma pmatch_at_open:
  assumes "pp < length P" "P ! pp = LPAREN" "\<not> (pp + 1 < length P \<and> P ! (pp + 1) = RPAREN)"
  shows "pmatch T P cs si pp cs' e \<longleftrightarrow> length cs < LUA_MAXCAPTURES \<and>
    pmatch T P (cs @ [\<lparr>cap_start = si, cap_len = UnfinishedLen, kind = KUnfinished\<rparr>]) si (pp + 1) cs' e"
  using assms by (auto elim: pmatchE intro: pmatch.intros simp: ordinary_def)

lemma pmatch_at_close:
  assumes "pp < length P" "P ! pp = RPAREN"
  shows "pmatch T P cs si pp cs' e \<longleftrightarrow> (\<exists>k. open_at cs k \<and>
    pmatch T P (cs[k := (cs ! k)\<lparr>cap_len := Len (si - cap_start (cs ! k)), kind := KClosed\<rparr>]) si (pp + 1) cs' e)"
  using assms by (auto elim: pmatchE intro: pmatch.intros simp: ordinary_def)

lemma pmatch_at_dollar:
  assumes "pp + 1 = length P" "P ! pp = DOLLAR"
  shows "pmatch T P cs si pp cs' e \<longleftrightarrow> si = length T \<and> cs' = cs \<and> e = si"
  using assms by (auto elim: pmatchE intro: pmatch.intros simp: ordinary_def)

lemma pmatch_at_balanced:
  assumes "pp + 3 < length P" "P ! pp = PERCENT" "P ! (pp + 1) = LOWER_B"
  shows "pmatch T P cs si pp cs' e \<longleftrightarrow>
    (\<exists>i. balanced T (P ! (pp + 2)) (P ! (pp + 3)) si i \<and> pmatch T P cs i (pp + 4) cs' e)"
  using assms by (auto elim: pmatchE intro: pmatch.intros simp: ordinary_def is_ascii_digit_def)

lemma pmatch_at_frontier:
  assumes "pp + 2 < length P" "P ! pp = PERCENT" "P ! (pp + 1) = LOWER_F" "P ! (pp + 2) = LBRACKET"
  shows "pmatch T P cs si pp cs' e \<longleftrightarrow>
    frontier T P si (pp + 2) \<and> pmatch T P cs si (set_end P (pp + 2)) cs' e"
  using assms by (auto elim: pmatchE intro: pmatch.intros simp: ordinary_def is_ascii_digit_def)

lemma pmatch_at_backref:
  assumes "pp + 1 < length P" "P ! pp = PERCENT" "is_ascii_digit (P ! (pp + 1))"
    and "n = unat (P ! (pp + 1) - 0x30)"
  shows "pmatch T P cs si pp cs' e \<longleftrightarrow> (\<exists>l. 0 < n \<and> n \<le> length cs \<and>
    cap_len (cs ! (n - 1)) = Len l \<and> si + l \<le> length T \<and>
    take l (drop si T) = take l (drop (cap_start (cs ! (n - 1))) T) \<and>
    pmatch T P cs (si + l) (pp + 2) cs' e)"
  using assms by (auto elim: pmatchE intro: pmatch.intros simp: ordinary_def is_ascii_digit_def)

lemma pmatch_at_element:
  assumes "ordinary P pp" "element_end P pp = Inr ep"
  shows "pmatch T P cs si pp cs' e \<longleftrightarrow> (\<exists>n. rep_allowed P ep n \<and> reps T P pp si n \<and>
    pmatch T P cs (si + n) (after_suffix P ep) cs' e)"
proof
  assume "pmatch T P cs si pp cs' e"
  then show "\<exists>n. rep_allowed P ep n \<and> reps T P pp si n \<and> pmatch T P cs (si + n) (after_suffix P ep) cs' e"
  proof (cases rule: pmatch.cases)
    case (pm_element ep' n)
    then show ?thesis using assms(2) by auto
  qed (use assms(1) in \<open>auto simp: ordinary_def\<close>)
qed (use assms pm_element in blast)

section \<open>The scans of the special elements\<close>

lemma balance_scan_level:
  "balance_scan op cl xs i d = Some j \<longleftrightarrow> i \<le> j \<and> j \<le> i + length xs \<and>
     level op cl (int d) (take (j - i) xs) = 0 \<and> (\<forall>k<j - i. 0 < level op cl (int d) (take k xs))"
proof (induction xs arbitrary: i d)
  case Nil
  show ?case by auto
next
  case (Cons c cs)
  show ?case
  proof (cases "d = 0")
    case True
    show ?thesis
    proof (cases "j \<le> i")
      case False
      then have "\<exists>k<j - i. \<not> 0 < level op cl (int d) (take k (c # cs))"
        using True by (intro exI[of _ 0]) simp
      with True False show ?thesis by auto
    qed (use True in auto)
  next
    case False
    let ?d = "if c = cl then d - 1 else if c = op then d + 1 else d"
    have d: "int ?d = (if c = cl then int d - 1 else if c = op then int d + 1 else int d)"
      using False by auto
    show ?thesis
    proof (cases "i < j")
      case True
      then obtain m where m: "j - i = Suc m" "j - (i + 1) = m" by (metis Suc_diff_Suc Suc_eq_plus1)
      have "(\<forall>k<Suc m. 0 < level op cl (int d) (take k (c # cs))) \<longleftrightarrow>
          (\<forall>k<m. 0 < level op cl (int ?d) (take k cs))"
        using False d by (simp add: All_less_Suc2)
      moreover have "level op cl (int d) (take (Suc m) (c # cs)) = level op cl (int ?d) (take m cs)"
        using d by simp
      moreover have "balance_scan op cl (c # cs) i d = balance_scan op cl cs (i + 1) ?d"
        using False by simp
      ultimately show ?thesis unfolding m(1) using True Cons[of "i + 1" ?d] m by auto
    next
      case nl: False
      then have "balance_scan op cl (c # cs) i d \<noteq> Some j"
        using False Cons[of "i + 1" ?d] by simp
      with nl False show ?thesis by auto
    qed
  qed
qed

lemma balance_scan_balanced:
  assumes "si < length T" and "T ! si = op"
  shows "balance_scan op cl (drop (si + 1) T) (si + 1) 1 = Some i \<longleftrightarrow> balanced T op cl si i"
  using assms by (auto simp: balance_scan_level balanced_def)

lemma same_bytes_take:
  "a + n \<le> length T \<Longrightarrow> b + n \<le> length T \<Longrightarrow>
   same_bytes T a b n = Inr (take n (drop a T) = take n (drop b T))"
proof (induction n arbitrary: a b)
  case (Suc n)
  then have "drop a T = T ! a # drop (Suc a) T" "drop b T = T ! b # drop (Suc b) T"
    by (simp_all add: Cons_nth_drop_Suc)
  with Suc show ?case by auto
qed simp

lemma last_unfinished_spec:
  "n \<le> length cs \<Longrightarrow> \<exists>f. last_unfinished cs n = Inr f \<and>
     (case f of None \<Rightarrow> \<forall>k. \<not> open_at (take n cs) k | Some k \<Rightarrow> open_at (take n cs) k)"
proof (induction n)
  case 0
  show ?case by (simp add: open_at_def)
next
  case (Suc n)
  show ?case
  proof (cases "cap_len (cs ! n) = UnfinishedLen")
    case True
    with Suc.prems show ?thesis by (auto simp: open_at_def)
  next
    case False
    have "open_at (take (Suc n) cs) k \<longleftrightarrow> open_at (take n cs) k" for k
      using False Suc.prems by (auto simp: open_at_def less_Suc_eq nth_take)
    with Suc False show ?thesis by (auto simp: idx_panic_def split: option.splits)
  qed
qed

lemma open_at_unique: "open_at cs k \<Longrightarrow> open_at cs k' \<Longrightarrow> k = k'"
  by (metis linorder_neqE_nat open_at_def)

end
