(* ===== verification/LJ_Pattern_Sound.thy ===== *)
theory LJ_Pattern_Sound
  imports LJ_Pattern_Match
begin

text \<open>
  The contract of the recursive call of the matcher as the locale \<open>match_contract\<close>, the proof
  that every operation of the engine keeps it, and its interpretation on \<open>match_impl\<close> at every
  recursion depth.
\<close>

locale match_contract =
  fixes T P :: bytes and rc :: matcher
  assumes stuck: "merror ms \<noteq> None \<Longrightarrow> rc ms si pp = Inr (None, ms)"
    and step: "merror ms = None \<Longrightarrow> mok T ms si \<Longrightarrow> wfp P pp \<Longrightarrow>
      runs T ms (pmatch T P (live ms) si pp) (rc ms si pp)"
begin

subsection \<open>Repetitions\<close>

lemma greedy_stuck: "merror ms \<noteq> None \<Longrightarrow> greedy_loop rc si rp mn n ms = Inr (None, ms)"
  by (induction n) (simp_all add: stuck)

lemma greedy_loop_runs:
  assumes "merror ms = None" "mok T ms si" "si + n \<le> length T" "wfp P rp"
  shows "runs T ms (\<lambda>cs e. \<exists>k. mn \<le> k \<and> k \<le> n \<and> pmatch T P (live ms) (si + k) rp cs e)
    (greedy_loop rc si rp mn n ms)"
  using assms(1-3)
proof (induction n arbitrary: ms)
  case 0
  show ?case
  proof (cases "mn = 0")
    case True
    have "runs T ms (pmatch T P (live ms) si rp) (rc ms si rp)" using 0 assms(4) step by blast
    then show ?thesis using True by (simp add: runs_cong)
  next
    case False
    then show ?thesis using 0 by (simp add: runs_fail mok_captures[OF 0(2)])
  qed
next
  case (Suc n)
  show ?case
  proof (cases "mn \<le> Suc n")
    case True
    let ?Q1 = "pmatch T P (live ms) (si + Suc n) rp"
    let ?Q2 = "\<lambda>cs e. \<exists>k. mn \<le> k \<and> k \<le> n \<and> pmatch T P (live ms) (si + k) rp cs e"
    have "runs T ms ?Q1 (rc ms (si + Suc n) rp)"
      using Suc.prems assms(4) by (intro step mok_advance[OF Suc.prems(2)]) auto
    moreover have "runs T ms' ?Q2 (greedy_loop rc si rp mn n ms')"
      if "merror ms' = None" "mok T ms' si" "live ms' = live ms" for ms'
      using Suc.IH[OF that(1,2)] Suc.prems(3) that(3) by simp
    ultimately have "runs T ms (\<lambda>cs e. ?Q1 cs e \<or> ?Q2 cs e) (greedy_loop rc si rp mn (Suc n) ms)"
      using True runs_orelse[OF _ Suc.prems(2), of ?Q1 "rc ms (si + Suc n) rp" "greedy_loop rc si rp mn n" ?Q2]
        greedy_stuck by simp
    then show ?thesis
    proof (rule runs_cong)
      fix cs e
      show "(\<exists>k. mn \<le> k \<and> k \<le> Suc n \<and> pmatch T P (live ms) (si + k) rp cs e) \<longleftrightarrow> ?Q1 cs e \<or> ?Q2 cs e"
        using True by (metis le_Suc_eq)
    qed
  next
    case False
    then have "\<not> (\<exists>k. mn \<le> k \<and> k \<le> Suc n \<and> pmatch T P (live ms) (si + k) rp cs e)" for cs e by auto
    then show ?thesis using False by (simp add: runs_fail mok_captures[OF Suc.prems(2)])
  qed
qed

lemma match_greedy_runs:
  assumes "merror ms = None" "mok T ms si" "pp < length P" "wfp P pp" "wfp P rp"
  shows "runs T ms (\<lambda>cs e. \<exists>k. mn \<le> k \<and> reps T P pp si k \<and> pmatch T P (live ms) (si + k) rp cs e)
    (match_greedy rc T P ms si pp rp mn)"
proof -
  from count_max_repetition_reps[OF assms(3,4) mok_len[OF assms(2)]] obtain m
    where m: "count_max_repetition T si P pp = Inr m" "\<And>n. reps T P pp si n \<longleftrightarrow> n \<le> m" by blast
  from m(2)[of m] have "si + m \<le> length T" by (simp add: reps_def)
  from greedy_loop_runs[OF assms(1,2) this assms(5), of mn] show ?thesis
    unfolding match_greedy_def m by simp
qed

lemma lazy_stuck:
  assumes "merror ms \<noteq> None" "pp < length P" "wfp P pp"
  shows "match_lazy rc T P ms i pp rp = Inr (None, ms)"
proof (induction "length T - i" arbitrary: i)
  case 0
  then show ?case using assms(1) by (subst match_lazy.simps) (simp add: stuck)
next
  case (Suc n)
  from Suc(2) have "n = length T - Suc i" by simp
  from Suc(1)[OF this] show ?case
    using assms by (subst match_lazy.simps) (simp add: stuck singlematch_total)
qed

lemma match_lazy_runs:
  assumes "merror ms = None" "mok T ms i" "pp < length P" "wfp P pp" "wfp P rp"
  shows "runs T ms (\<lambda>cs e. \<exists>k. reps T P pp i k \<and> pmatch T P (live ms) (i + k) rp cs e)
    (match_lazy rc T P ms i pp rp)"
  using assms(1,2)
proof (induction "length T - i" arbitrary: i ms rule: less_induct)
  case (less i ms)
  let ?g = "\<lambda>ms'. if i < length T
           then rbind (singlematch (T ! i) P pp) (\<lambda>b.
                  if b then match_lazy rc T P ms' (i + 1) pp rp else Inr (None, ms'))
           else Inr (None, ms')"
  let ?Q2 = "\<lambda>cs e. \<exists>k. reps T P pp i (Suc k) \<and> pmatch T P (live ms) (i + Suc k) rp cs e"
  have "runs T ms (pmatch T P (live ms) i rp) (rc ms i rp)"
    using less.prems assms(5) step by blast
  moreover have "?g ms' = Inr (None, ms')" if "merror ms' \<noteq> None" for ms'
    using lazy_stuck[OF that assms(3,4)] by (simp add: singlematch_total assms(3,4))
  moreover have "runs T ms' ?Q2 (?g ms')"
    if m: "merror ms' = None" "mok T ms' i" "live ms' = live ms" for ms'
  proof (cases "i < length T \<and> elem P pp (T ! i)")
    case True
    then have "mok T ms' (i + 1)" using mok_advance[OF m(2), of "i + 1"] by simp
    moreover have "length T - (i + 1) < length T - i" using True by arith
    ultimately have
      "runs T ms' (\<lambda>cs e. \<exists>k. reps T P pp (i + 1) k \<and> pmatch T P (live ms') (i + 1 + k) rp cs e)
        (match_lazy rc T P ms' (i + 1) pp rp)" using less.hyps m(1) by blast
    then have "runs T ms' ?Q2 (match_lazy rc T P ms' (i + 1) pp rp)"
      by (rule runs_cong) (use True m(3) in \<open>simp add: reps_Suc\<close>)
    then show ?thesis using True by (simp add: singlematch_total assms(3,4))
  next
    case False
    then have "runs T ms' ?Q2 (Inr (None, ms'))"
      by (intro runs_fail mok_captures[OF m(2)]) (auto simp: reps_Suc)
    then show ?thesis using False by (auto simp: singlematch_total assms(3,4))
  qed
  ultimately have "runs T ms (\<lambda>cs e. pmatch T P (live ms) i rp cs e \<or> ?Q2 cs e) (match_lazy rc T P ms i pp rp)"
    by (subst match_lazy.simps) (rule runs_orelse[OF _ less.prems(2)])
  then show ?case
  proof (rule runs_cong)
    fix cs e
    have "(\<exists>k. reps T P pp i k \<and> pmatch T P (live ms) (i + k) rp cs e) \<longleftrightarrow>
      (reps T P pp i 0 \<and> pmatch T P (live ms) (i + 0) rp cs e) \<or> ?Q2 cs e"
      by (metis not0_implies_Suc)
    then show "(\<exists>k. reps T P pp i k \<and> pmatch T P (live ms) (i + k) rp cs e) \<longleftrightarrow>
      pmatch T P (live ms) i rp cs e \<or> ?Q2 cs e"
      using mok_len[OF less.prems(2)] by simp
  qed
qed

lemma match_optional_runs:
  assumes "merror ms = None" "mok T ms si" "pp < length P" "wfp P pp" "wfp P rp"
  shows "runs T ms (\<lambda>cs e. \<exists>k. k \<le> 1 \<and> reps T P pp si k \<and> pmatch T P (live ms) (si + k) rp cs e)
    (match_optional rc T P ms si pp rp)"
proof -
  let ?Q1 = "pmatch T P (live ms) (si + 1) rp" and ?Q2 = "pmatch T P (live ms) si rp"
  have k: "(\<exists>k. k \<le> 1 \<and> reps T P pp si k \<and> pmatch T P (live ms) (si + k) rp cs e) \<longleftrightarrow>
    (si < length T \<and> elem P pp (T ! si)) \<and> ?Q1 cs e \<or> ?Q2 cs e" for cs e
    using mok_len[OF assms(2)] by (auto simp: le_Suc_eq reps_Suc)
  have none: "runs T ms ?Q2 (rc ms si rp)" using assms step by blast
  show ?thesis
  proof (cases "si < length T \<and> elem P pp (T ! si)")
    case True
    then have "mok T ms (si + 1)" using mok_advance[OF assms(2), of "si + 1"] by simp
    then have "runs T ms ?Q1 (rc ms (si + 1) rp)" using assms(1,5) step by blast
    moreover have "runs T ms' ?Q2 (rc ms' si rp)"
      if "merror ms' = None" "mok T ms' si" "live ms' = live ms" for ms'
      using step[OF that(1,2) assms(5)] that(3) by simp
    ultimately have "runs T ms (\<lambda>cs e. ?Q1 cs e \<or> ?Q2 cs e) (match_optional rc T P ms si pp rp)"
      using runs_orelse[OF _ assms(2), of ?Q1 "rc ms (si + 1) rp" "\<lambda>ms'. rc ms' si rp" ?Q2] True stuck
      by (simp add: match_optional_def singlematch_total assms(3,4))
    then show ?thesis by (rule runs_cong) (use k True in blast)
  next
    case False
    then have "match_optional rc T P ms si pp rp = rc ms si rp"
      by (auto simp: match_optional_def singlematch_total assms(3,4))
    with none have "runs T ms ?Q2 (match_optional rc T P ms si pp rp)" by simp
    then show ?thesis by (rule runs_cong) (use k False in blast)
  qed
qed

subsection \<open>Captures\<close>

lemma push_capture_runs:
  assumes "merror ms = None" "mok T ms si" "wfp P pp" "cap_ok si c"
  shows "runs T ms (\<lambda>cs e. length (live ms) < LUA_MAXCAPTURES \<and> pmatch T P (live ms @ [c]) si pp cs e)
    (push_capture rc c ms si pp)"
proof (cases "LUA_MAXCAPTURES \<le> num_captures ms")
  case True
  then have "\<not> length (live ms) < LUA_MAXCAPTURES" using length_live[OF assms(2)] by simp
  then have "runs T ms (\<lambda>cs e. length (live ms) < LUA_MAXCAPTURES \<and> pmatch T P (live ms @ [c]) si pp cs e)
    (Inr (None, ms))" by (intro runs_fail mok_captures[OF assms(2)]) simp
  with True show ?thesis by (simp add: push_capture_def)
next
  case False
  define n where "n = num_captures ms"
  define ms1 where "ms1 = ms\<lparr>captures := (captures ms)[n := c], num_captures := n + 1\<rparr>"
  have len: "length (captures ms) = LUA_MAXCAPTURES" "n < LUA_MAXCAPTURES"
    using False mok_captures[OF assms(2)] by (simp_all add: n_def)
  have live1: "live ms1 = live ms @ [c]"
    using len by (simp add: live_def ms1_def n_def take_Suc_conv_app_nth)
  have "mok T ms1 si"
    using assms(2,4) len by (simp add: mok_def live1) (simp add: ms1_def)
  then have "runs T ms1 (pmatch T P (live ms @ [c]) si pp) (rc ms1 si pp)"
    using step[of ms1 si pp] assms(1,3) by (simp add: live1) (simp add: ms1_def)
  then obtain r ms2 where r: "rc ms1 si pp = Inr (r, ms2)"
    and o: "outcome T ms1 (pmatch T P (live ms @ [c]) si pp) r ms2" by (auto simp: runs_def)
  have eq: "push_capture rc c ms si pp = Inr (r, if r = None then ms2\<lparr>num_captures := n\<rparr> else ms2)"
    using False len r by (simp add: push_capture_def put_capture_def n_def ms1_def)
  have small: "length (live ms) < LUA_MAXCAPTURES" using length_live[OF assms(2)] False by simp
  have "take n (captures ms2) = live ms" if "num_captures ms2 = n + 1" "live ms2 = live ms1"
  proof -
    have "take n (take (n + 1) (captures ms2)) = take n (live ms @ [c])"
      using that live1 by (simp add: live_def)
    then show ?thesis using length_live[OF assms(2)] by (simp add: n_def)
  qed
  with o small show ?thesis
    unfolding runs_def eq
    by (cases r) (auto simp: outcome_def ms1_def n_def live_def)
qed

lemma match_close_runs:
  assumes "merror ms = None" "mok T ms si" "wfp P pp"
  shows "runs T ms (\<lambda>cs e. \<exists>k. open_at (live ms) k \<and>
      pmatch T P ((live ms)[k := (live ms ! k)\<lparr>cap_len := Len (si - cap_start (live ms ! k)), kind := KClosed\<rparr>])
        si pp cs e)
    (match_close_capture rc ms si pp)"
proof -
  have len: "length (captures ms) = LUA_MAXCAPTURES" "num_captures ms \<le> LUA_MAXCAPTURES"
    using assms(2) by (simp_all add: mok_def)
  have "num_captures ms \<le> length (captures ms)" using len by simp
  from last_unfinished_spec[OF this, folded live_def] obtain f
    where f: "last_unfinished (captures ms) (num_captures ms) = Inr f"
      and sf: "case f of None \<Rightarrow> \<forall>k. \<not> open_at (live ms) k | Some k \<Rightarrow> open_at (live ms) k"
    by blast
  show ?thesis
  proof (cases f)
    case None
    then show ?thesis using f len by (simp add: match_close_capture_def runs_error)
  next
    case (Some k)
    with sf have op: "open_at (live ms) k" by simp
    then have k: "k < num_captures ms" "live ms ! k = captures ms ! k"
      using length_live[OF assms(2)] by (auto simp: open_at_def live_nth)
    define c where "c = live ms ! k"
    define c' where "c' = c\<lparr>cap_len := Len (si - cap_start c), kind := KClosed\<rparr>"
    have "c \<in> set (live ms)" using op by (simp add: c_def open_at_def)
    then have c: "cap_ok si c" "cap_start c \<le> si" using assms(2) by (auto simp: mok_def cap_ok_def)
    have cu: "cap_len c = UnfinishedLen" "kind c = KUnfinished"
      using c(1) op by (auto simp: cap_ok_def c_def open_at_def)
    then have restore: "c'\<lparr>cap_len := UnfinishedLen, kind := KUnfinished\<rparr> = c" by (simp add: c'_def)
    define ms1 where "ms1 = ms\<lparr>captures := (captures ms)[k := c']\<rparr>"
    have live1: "live ms1 = (live ms)[k := c']" by (simp add: live_def ms1_def take_update_swap)
    have "cap_ok si c'" using c(2) by (simp add: cap_ok_def c'_def)
    then have "mok T ms1 si"
      using assms(2) by (auto simp: mok_def live1 dest!: set_update_subset_insert[THEN subsetD]) (simp_all add: ms1_def)
    then have "runs T ms1 (pmatch T P ((live ms)[k := c']) si pp) (rc ms1 si pp)"
      using step[of ms1 si pp] assms(1,3) by (simp add: live1) (simp add: ms1_def)
    then obtain r ms2 where r: "rc ms1 si pp = Inr (r, ms2)"
      and o: "outcome T ms1 (pmatch T P ((live ms)[k := c']) si pp) r ms2" by (auto simp: runs_def)
    define ms3 where "ms3 = ms2\<lparr>captures := (captures ms2)[k := (captures ms2 ! k)\<lparr>cap_len := UnfinishedLen, kind := KUnfinished\<rparr>]\<rparr>"
    have len2: "k < length (captures ms2)" using o k(1) len by (simp add: outcome_def)
    have eq: "match_close_capture rc ms si pp = Inr (r, if r = None then ms3 else ms2)"
      using f Some k c(2) len len2 r
      by (cases r) (simp_all add: match_close_capture_def Let_def put_capture_def ms3_def c'_def c_def ms1_def idx_panic_def)
    have Q: "(\<exists>k. open_at (live ms) k \<and>
        pmatch T P ((live ms)[k := (live ms ! k)\<lparr>cap_len := Len (si - cap_start (live ms ! k)), kind := KClosed\<rparr>]) si pp cs e) \<longleftrightarrow>
        pmatch T P ((live ms)[k := c']) si pp cs e" for cs e
    proof -
      have "open_at (live ms) j \<longleftrightarrow> j = k" for j using op open_at_unique by blast
      then show ?thesis by (simp add: c'_def c_def)
    qed
    have "live ms3 = live ms" if "num_captures ms2 = num_captures ms" "live ms2 = live ms1"
    proof -
      have "captures ms2 ! k = live ms2 ! k" using that(1) k(1) by (simp add: live_nth)
      also have "\<dots> = c'" using that(2) live1 op by (simp add: open_at_def)
      finally have "captures ms2 ! k = c'" .
      then have "live ms3 = (live ms2)[k := c]" by (simp add: live_def ms3_def take_update_swap restore)
      also have "\<dots> = live ms" using that(2) live1 by (simp add: c_def)
      finally show ?thesis .
    qed
    with o show ?thesis
      unfolding runs_def eq outcome_def Q
      by (cases r) (auto simp: ms1_def ms3_def)
  qed
qed

subsection \<open>Balanced text, frontiers, back references\<close>

lemma match_balanced_runs:
  assumes "merror ms = None" "mok T ms si" "wfp P (pp + 4)" "pp + 3 < length P"
  shows "runs T ms (\<lambda>cs e. \<exists>i. balanced T (P ! (pp + 2)) (P ! (pp + 3)) si i \<and>
      pmatch T P (live ms) i (pp + 4) cs e) (match_balanced rc T P ms si pp)"
proof (cases "\<exists>i. balanced T (P ! (pp + 2)) (P ! (pp + 3)) si i")
  case True
  then obtain i where i: "balanced T (P ! (pp + 2)) (P ! (pp + 3)) si i" by blast
  then have si: "si < length T" "T ! si = P ! (pp + 2)" "si \<le> i" "i \<le> length T"
    by (auto simp: balanced_def)
  have scan: "balance_scan (P ! (pp + 2)) (P ! (pp + 3)) (drop (si + 1) T) (si + 1) 1 = Some i"
    using balance_scan_balanced[OF si(1,2)] i by blast
  then have "balanced T (P ! (pp + 2)) (P ! (pp + 3)) si j \<longleftrightarrow> j = i" for j
    using balance_scan_balanced[OF si(1,2), of "P ! (pp + 3)" j] by auto
  moreover have "runs T ms (pmatch T P (live ms) i (pp + 4)) (rc ms i (pp + 4))"
    using assms(1,3) si by (intro step mok_advance[OF assms(2)]) auto
  ultimately show ?thesis using assms(4) si scan by (simp add: match_balanced_def)
next
  case False
  have "match_balanced rc T P ms si pp = Inr (None, ms)"
  proof (cases "si < length T \<and> T ! si = P ! (pp + 2)")
    case True
    then have "balance_scan (P ! (pp + 2)) (P ! (pp + 3)) (drop (si + 1) T) (si + 1) 1 = None"
      using False balance_scan_balanced[of si T "P ! (pp + 2)" "P ! (pp + 3)"] by (meson not_None_eq)
    then show ?thesis by (simp add: match_balanced_def)
  qed (auto simp: match_balanced_def)
  moreover have "runs T ms (\<lambda>cs e. \<exists>i. balanced T (P ! (pp + 2)) (P ! (pp + 3)) si i \<and>
      pmatch T P (live ms) i (pp + 4) cs e) (Inr (None, ms))"
    using False by (intro runs_fail mok_captures[OF assms(2)]) blast
  ultimately show ?thesis by simp
qed

lemma match_frontier_runs:
  assumes "merror ms = None" "mok T ms si" "pp + 2 < length P" "P ! (pp + 2) = LBRACKET"
    "wfp P (set_end P (pp + 2))"
  shows "runs T ms (\<lambda>cs e. frontier T P si (pp + 2) \<and> pmatch T P (live ms) si (set_end P (pp + 2)) cs e)
    (match_frontier rc T P ms si pp)"
proof -
  have m: "singlematch c P (pp + 2) = Inr (matchset c P (pp + 2))" for c
    using assms(3,4) by (simp add: singlematch_def)
  have e: "element_end P (pp + 2) = Inr (set_end P (pp + 2))"
    using assms(3,4) by (simp add: element_end_def set_end_def)
  have p: "(if 0 < si then idx_panic T (si - 1) else Inr 0) = Inr (if 0 < si then T ! (si - 1) else 0)"
    using mok_len[OF assms(2)] by simp
  have eq: "match_frontier rc T P ms si pp =
      (if frontier T P si (pp + 2) then rc ms si (set_end P (pp + 2)) else Inr (None, ms))"
    using assms(3,4) unfolding match_frontier_def e p m frontier_def by simp
  show ?thesis
  proof (cases "frontier T P si (pp + 2)")
    case True
    then show ?thesis using step[OF assms(1,2,5)] by (simp add: eq)
  next
    case False
    then show ?thesis by (simp add: eq runs_fail mok_captures[OF assms(2)])
  qed
qed

lemma match_backref_runs:
  assumes "merror ms = None" "mok T ms si" "pp + 1 < length P" "wfp P (pp + 2)"
    and n: "n = unat (P ! (pp + 1) - 0x30)"
  shows "runs T ms (\<lambda>cs e. \<exists>l. 0 < n \<and> n \<le> length (live ms) \<and>
      cap_len (live ms ! (n - 1)) = Len l \<and> si + l \<le> length T \<and>
      take l (drop si T) = take l (drop (cap_start (live ms ! (n - 1))) T) \<and>
      pmatch T P (live ms) (si + l) (pp + 2) cs e) (match_backref rc T P ms si pp)"
    (is "runs T ms ?Q _")
proof (cases "n = 0 \<or> num_captures ms < n")
  case True
  then have "match_backref rc T P ms si pp = Inr (None, ms\<lparr>merror := Some (InvalidCaptureIndex n)\<rparr>)"
    using assms(3) by (simp add: match_backref_def n)
  then show ?thesis by (simp add: runs_error mok_captures[OF assms(2)])
next
  case False
  then have i: "n - 1 < num_captures ms" "live ms ! (n - 1) = captures ms ! (n - 1)" by (auto simp: live_nth)
  define c where "c = live ms ! (n - 1)"
  have cap: "idx_panic (captures ms) (n - 1) = Inr c"
    using assms(2) i by (simp add: mok_def c_def)
  have "c \<in> set (live ms)" using i(1) length_live[OF assms(2)] by (simp add: c_def)
  then have c: "cap_ok si c" using assms(2) by (simp add: mok_def)
  have eq: "match_backref rc T P ms si pp = (case cap_len c of
      Len l \<Rightarrow> if length T < si + l then Inr (None, ms)
        else rbind (same_bytes T si (cap_start c) l) (\<lambda>eq. if eq then rc ms (si + l) (pp + 2) else Inr (None, ms))
    | PositionLen \<Rightarrow> Inr (None, ms\<lparr>merror := Some (InvalidCaptureIndex n)\<rparr>)
    | UnfinishedLen \<Rightarrow> Inr (None, ms\<lparr>merror := Some (InvalidCaptureIndex n)\<rparr>))"
    using False assms(3) cap by (cases "cap_len c") (simp_all add: match_backref_def n Let_def)
  show ?thesis
  proof (cases "cap_len c")
    case (Len l)
    show ?thesis
    proof (cases "si + l \<le> length T \<and> take l (drop si T) = take l (drop (cap_start c) T)")
      case True
      have "cap_start c + l \<le> length T" using c Len mok_len[OF assms(2)] by (auto simp: cap_ok_def)
      then have "match_backref rc T P ms si pp = rc ms (si + l) (pp + 2)"
        using True Len by (simp add: eq same_bytes_take)
      moreover have "runs T ms (pmatch T P (live ms) (si + l) (pp + 2)) (rc ms (si + l) (pp + 2))"
        using True assms(1,4) by (intro step mok_advance[OF assms(2)]) auto
      moreover have "?Q cs e \<longleftrightarrow> pmatch T P (live ms) (si + l) (pp + 2) cs e" for cs e
        using True Len False length_live[OF assms(2)] by (simp add: c_def)
      ultimately show ?thesis by (simp add: runs_cong)
    next
      case f: False
      have "cap_start c + l \<le> length T" using c Len mok_len[OF assms(2)] by (auto simp: cap_ok_def)
      then have "match_backref rc T P ms si pp = Inr (None, ms)"
        using f Len by (auto simp: eq same_bytes_take not_less)
      moreover have "runs T ms ?Q (Inr (None, ms))"
        using f Len by (intro runs_fail mok_captures[OF assms(2)]) (auto simp: c_def)
      ultimately show ?thesis by simp
    qed
  qed (simp_all add: eq runs_error mok_captures[OF assms(2)])
qed

subsection \<open>The loop over the elements\<close>

lemma match_inner_element:
  assumes "ordinary P pp" and "element_end P pp = Inr ep" and "wfp P pp"
  shows "match_inner rc T P ms si pp =
    (if ep < length P \<and> P ! ep = STAR then match_greedy rc T P ms si pp (ep + 1) 0
     else if ep < length P \<and> P ! ep = PLUS then match_greedy rc T P ms si pp (ep + 1) 1
     else if ep < length P \<and> P ! ep = MINUS then match_lazy rc T P ms si pp (ep + 1)
     else if ep < length P \<and> P ! ep = QUESTION then match_optional rc T P ms si pp (ep + 1)
     else if si < length T \<and> elem P pp (T ! si) then match_inner rc T P ms (si + 1) ep
     else Inr (None, ms))"
proof -
  have "pp < length P" using assms(1) by (simp add: ordinary_def)
  note sm = singlematch_total[OF this assms(3)]
  have o: "\<not> length P \<le> pp" "P ! pp \<noteq> LPAREN" "P ! pp \<noteq> RPAREN" "\<not> (P ! pp = DOLLAR \<and> length P \<le> pp + 1)"
    "\<not> (P ! pp = PERCENT \<and> pp + 1 < length P \<and> P ! (pp + 1) = LOWER_B)"
    "\<not> (P ! pp = PERCENT \<and> pp + 1 < length P \<and> P ! (pp + 1) = LOWER_F)"
    "\<not> (P ! pp = PERCENT \<and> pp + 1 < length P \<and> is_ascii_digit (P ! (pp + 1)))"
    using assms(1) by (auto simp: ordinary_def)
  show ?thesis
    by (subst match_inner.simps) (simp only: o if_False assms(2) rbind_simps sm, simp)
qed

lemma element_runs:
  assumes ord: "ordinary P pp" and w: "wfp P pp" and ms: "merror ms = None" "mok T ms si"
    and IH: "\<And>si' ep. pp < ep \<Longrightarrow> mok T ms si' \<Longrightarrow> wfp P ep \<Longrightarrow>
      runs T ms (pmatch T P (live ms) si' ep) (match_inner rc T P ms si' ep)"
  shows "runs T ms (pmatch T P (live ms) si pp) (match_inner rc T P ms si pp)"
proof -
  from element_end_wfp[OF ord w] obtain ep where ep: "element_end P pp = Inr ep" "wfp P ep" by blast
  note after = after_suffix_wfp[OF ep(2)]
  have pp: "pp < length P" using ord by (simp add: ordinary_def)
  note at = pmatch_at_element[OF ord ep(1)]
  let ?as = "after_suffix P ep"
  have greedy: "runs T ms (pmatch T P (live ms) si pp) (match_greedy rc T P ms si pp (ep + 1) mn)"
    if "?as = ep + 1" "\<And>k. rep_allowed P ep k \<longleftrightarrow> mn \<le> k" for mn
  proof -
    have "wfp P (ep + 1)" using after that(1) by simp
    from match_greedy_runs[OF ms pp w this, of mn] show ?thesis
      by (rule runs_cong) (simp only: at that)
  qed
  consider (star) "ep < length P" "P ! ep = STAR" | (plus) "ep < length P" "P ! ep = PLUS"
    | (minus) "ep < length P" "P ! ep = MINUS" | (quest) "ep < length P" "P ! ep = QUESTION"
    | (none) "\<not> (ep < length P \<and> is_suffix_byte (P ! ep))"
    by (auto simp: is_suffix_byte_def)
  then show ?thesis
  proof cases
    case star
    with greedy[of 0] show ?thesis
      by (simp add: match_inner_element[OF ord ep(1) w] after_suffix_def is_suffix_byte_def rep_allowed_def)
  next
    case plus
    with greedy[of 1] show ?thesis
      by (simp add: match_inner_element[OF ord ep(1) w] after_suffix_def is_suffix_byte_def rep_allowed_def)
  next
    case minus
    then have as: "?as = ep + 1" "\<And>k. rep_allowed P ep k"
      by (simp_all add: after_suffix_def is_suffix_byte_def rep_allowed_def)
    then have "wfp P (ep + 1)" using after by simp
    from match_lazy_runs[OF ms pp w this]
    have "runs T ms (pmatch T P (live ms) si pp) (match_lazy rc T P ms si pp (ep + 1))"
      by (rule runs_cong) (simp add: at as)
    with minus show ?thesis by (simp add: match_inner_element[OF ord ep(1) w])
  next
    case quest
    then have as: "?as = ep + 1" "\<And>k. rep_allowed P ep k \<longleftrightarrow> k \<le> 1"
      by (simp_all add: after_suffix_def is_suffix_byte_def rep_allowed_def)
    then have "wfp P (ep + 1)" using after by simp
    from match_optional_runs[OF ms pp w this]
    have "runs T ms (pmatch T P (live ms) si pp) (match_optional rc T P ms si pp (ep + 1))"
      by (rule runs_cong) (simp only: at as)
    with quest show ?thesis by (simp add: match_inner_element[OF ord ep(1) w])
  next
    case none
    then have as: "?as = ep" "\<And>k. rep_allowed P ep k \<longleftrightarrow> k = 1"
      by (auto simp: after_suffix_def is_suffix_byte_def rep_allowed_def)
    have at1: "pmatch T P (live ms) si pp cs e \<longleftrightarrow>
        (si < length T \<and> elem P pp (T ! si)) \<and> pmatch T P (live ms) (si + 1) ep cs e" for cs e
      unfolding at as using reps_1[of T P pp si] by blast
    have eq: "match_inner rc T P ms si pp =
        (if si < length T \<and> elem P pp (T ! si) then match_inner rc T P ms (si + 1) ep else Inr (None, ms))"
      using none by (auto simp: match_inner_element[OF ord ep(1) w] is_suffix_byte_def)
    show ?thesis
    proof (cases "si < length T \<and> elem P pp (T ! si)")
      case True
      then have "mok T ms (si + 1)" using mok_advance[OF ms(2), of "si + 1"] by simp
      from IH[OF element_end_gt[OF ep(1)] this ep(2)] True show ?thesis
        unfolding eq by (simp only: if_True) (rule runs_cong, auto simp: at1)
    next
      case False
      then have "runs T ms (pmatch T P (live ms) si pp) (Inr (None, ms))"
        by (intro runs_fail mok_captures[OF ms(2)]) (simp only: at1, blast)
      with False show ?thesis unfolding eq by (simp only: if_False)
    qed
  qed
qed

lemma match_inner_runs:
  assumes "merror ms = None" "mok T ms si" "wfp P pp"
  shows "runs T ms (pmatch T P (live ms) si pp) (match_inner rc T P ms si pp)"
  using assms(2,3)
proof (induction "length P - pp" arbitrary: si pp rule: less_induct)
  case (less pp si)
  note ms = assms(1) less.prems(1) and w = less.prems(2)
  have a: "length P \<le> pp \<longleftrightarrow> \<not> pp < length P" "length P \<le> pp + 1 \<longleftrightarrow> \<not> pp + 1 < length P"
    "pp + 1 = length P \<longleftrightarrow> pp < length P \<and> \<not> pp + 1 < length P" by auto
  consider (fin) "length P \<le> pp"
    | (posn) "pp + 1 < length P" "P ! pp = LPAREN" "P ! (pp + 1) = RPAREN"
    | (opn) "pp < length P" "P ! pp = LPAREN" "\<not> (pp + 1 < length P \<and> P ! (pp + 1) = RPAREN)"
    | (cls) "pp < length P" "P ! pp = RPAREN"
    | (dollar) "pp + 1 = length P" "P ! pp = DOLLAR"
    | (bal) "pp + 1 < length P" "P ! pp = PERCENT" "P ! (pp + 1) = LOWER_B"
    | (fron) "pp + 1 < length P" "P ! pp = PERCENT" "P ! (pp + 1) = LOWER_F"
    | (bref) "pp + 1 < length P" "P ! pp = PERCENT" "is_ascii_digit (P ! (pp + 1))"
    | (elt) "ordinary P pp"
    unfolding ordinary_def a by blast
  then show ?case
  proof cases
    case fin
    then have "runs T ms (pmatch T P (live ms) si pp) (Inr (Some si, ms))"
      using ms by (intro runs_done) (simp_all add: pmatch_at_end)
    with fin show ?thesis by (simp add: match_inner.simps[of rc T P ms si pp])
  next
    case posn
    have "wfp P (pp + 2)" using w posn by (simp add: wfp.simps[of P pp] wfp.simps[of P "Suc pp"])
    moreover have "cap_ok si \<lparr>cap_start = si, cap_len = PositionLen, kind = KPosition\<rparr>" by (simp add: cap_ok_def)
    ultimately have "runs T ms (pmatch T P (live ms) si pp) (match_position_capture rc ms si (pp + 2))"
      unfolding match_position_capture_def pmatch_at_position[OF posn] using push_capture_runs ms by blast
    with posn show ?thesis by (subst match_inner.simps) simp
  next
    case opn
    have "wfp P (pp + 1)" using w opn by (simp add: wfp.simps[of P pp])
    moreover have "cap_ok si \<lparr>cap_start = si, cap_len = UnfinishedLen, kind = KUnfinished\<rparr>" by (simp add: cap_ok_def)
    ultimately have "runs T ms (pmatch T P (live ms) si pp) (match_open_capture rc ms si (pp + 1))"
      unfolding match_open_capture_def pmatch_at_open[OF opn] using push_capture_runs ms by blast
    with opn show ?thesis by (subst match_inner.simps) auto
  next
    case cls
    have "wfp P (pp + 1)" using w cls by (simp add: wfp.simps[of P pp])
    then have "runs T ms (pmatch T P (live ms) si pp) (match_close_capture rc ms si (pp + 1))"
      unfolding pmatch_at_close[OF cls] using match_close_runs ms by blast
    with cls show ?thesis by (subst match_inner.simps) simp
  next
    case dollar
    have "runs T ms (pmatch T P (live ms) si pp) (Inr (if si = length T then Some si else None, ms))"
      using ms by (auto intro!: runs_done runs_fail mok_captures[OF ms(2)] simp: pmatch_at_dollar[OF dollar])
    with dollar show ?thesis by (subst match_inner.simps) simp
  next
    case bal
    have b: "pp + 3 < length P" "wfp P (pp + 4)" using w bal by (simp_all add: wfp.simps[of P pp])
    have "runs T ms (pmatch T P (live ms) si pp) (match_balanced rc T P ms si pp)"
      unfolding pmatch_at_balanced[OF b(1) bal(2,3)] using match_balanced_runs ms b by blast
    with bal show ?thesis by (subst match_inner.simps) simp
  next
    case fron
    have f: "pp + 2 < length P" "P ! (pp + 2) = LBRACKET" "wfp P (set_end P (pp + 2))"
      using w fron by (simp_all add: wfp.simps[of P pp])
    have "runs T ms (pmatch T P (live ms) si pp) (match_frontier rc T P ms si pp)"
      unfolding pmatch_at_frontier[OF f(1) fron(2,3) f(2)] using match_frontier_runs ms f by blast
    with fron show ?thesis by (subst match_inner.simps) simp
  next
    case bref
    have "P ! (pp + 1) \<noteq> LOWER_B" "P ! (pp + 1) \<noteq> LOWER_F" using bref(3) by (auto simp: is_ascii_digit_def)
    moreover from this have "wfp P (pp + 2)" using w bref by (simp add: wfp.simps[of P pp])
    then have "runs T ms (pmatch T P (live ms) si pp) (match_backref rc T P ms si pp)"
      unfolding pmatch_at_backref[OF bref refl] by (intro match_backref_runs ms bref) simp_all
    ultimately show ?thesis using bref by (subst match_inner.simps) simp
  next
    case elt
    then have "pp < length P" by (simp add: ordinary_def)
    then have "runs T ms (pmatch T P (live ms) si' ep) (match_inner rc T P ms si' ep)"
      if "pp < ep" "mok T ms si'" "wfp P ep" for si' ep
      using less.hyps[of ep si'] that by simp
    with elt w ms show ?thesis by (rule element_runs)
  qed
qed

end

section \<open>The matcher keeps the contract at every depth\<close>

lemma match_impl_contract: "match_contract T P (match_impl T P d)"
proof (induction d)
  case 0
  show ?case
    by unfold_locales (auto simp: mok_captures intro!: runs_error)
next
  case (Suc d)
  show ?case
    by unfold_locales
      (simp_all add: match_contract.match_inner_runs[OF Suc])
qed

interpretation engine: match_contract T P "match_impl T P d" for T P d
  by (rule match_impl_contract)

end
