(* ===== verification/LJ_Pattern_Spec.thy ===== *)
theory LJ_Pattern_Spec
  imports LJ_Pattern_Sound
begin

text \<open>
  The entry points of the pattern library: \<open>find\<close> returns the leftmost match, the plain-text
  fast path agrees with the engine, \<open>find_all_matches\<close> and \<open>gsub\<close> always return, and the output
  of \<open>gsub\<close> is the text with an increasing sequence of matches replaced.
\<close>

section \<open>Matches at a position\<close>

definition matches_at :: "bytes \<Rightarrow> bytes \<Rightarrow> nat \<Rightarrow> capture list \<Rightarrow> nat \<Rightarrow> bool" where
  "matches_at T P si = pmatch T P [] si (pp_start P)"

lemma pmatch_ge: "pmatch T P cs si pp cs' e \<Longrightarrow> si \<le> e"
  by (induction rule: pmatch.induct) (auto simp: balanced_def)

lemma pmatch_starts:
  "pmatch T P cs si pp cs' e \<Longrightarrow> s \<le> si \<Longrightarrow> \<forall>c\<in>set cs. s \<le> cap_start c \<Longrightarrow> \<forall>c\<in>set cs'. s \<le> cap_start c"
proof (induction rule: pmatch.induct)
  case (pm_close pp cs k si cs' e)
  have "\<forall>c\<in>set (cs[k := (cs ! k)\<lparr>cap_len := Len (si - cap_start (cs ! k)), kind := KClosed\<rparr>]). s \<le> cap_start c"
    using pm_close.prems pm_close.hyps(3) by (auto simp: open_at_def dest!: set_update_subset_insert[THEN subsetD])
  with pm_close show ?case by blast
qed (auto simp: balanced_def)

lemma match_impl_at:
  assumes "length (captures ms) = LUA_MAXCAPTURES" "si \<le> length T" "wfp P (pp_start P)"
  shows "runs T (mstate_reset ms) (matches_at T P si) (match_impl T P d (mstate_reset ms) si (pp_start P))"
proof -
  have l: "live (mstate_reset ms) = []" by (simp add: live_def mstate_reset_def)
  have "mok T (mstate_reset ms) si" "merror (mstate_reset ms) = None"
    using assms by (simp_all add: mok_def l) (simp_all add: mstate_reset_def)
  from engine.step[OF this(2,1) assms(3), of d] show ?thesis
    unfolding l matches_at_def .
qed

lemma live_captures_ok: "mok T ms e \<Longrightarrow> live_captures ms = Inr (live ms)"
  by (simp add: live_captures_def slice_def live_def mok_def)

lemma check_captures_ok:
  "mok T ms e \<Longrightarrow> check_captures ms =
     Inr (if list_ex (\<lambda>c. cap_len c = UnfinishedLen) (live ms) then Inl UnfinishedCapture else Inr ())"
  by (simp add: check_captures_def live_captures_ok)

lemma extract_captures_ok: "mok T ms e \<Longrightarrow> extract_captures ms = Inr (extract_loop (live ms))"
  by (simp add: extract_captures_def live_captures_ok)

text \<open>One attempt of an entry point at index \<open>si\<close>: an error, no match, or a match.\<close>

lemma attempt_cases:
  assumes "length (captures ms) = LUA_MAXCAPTURES" "si \<le> length T" "wfp P (pp_start P)"
  obtains (error) ms' err where "match_impl T P d (mstate_reset ms) si (pp_start P) = Inr (None, ms')"
      "merror ms' = Some err"
  | (fail) ms' where "match_impl T P d (mstate_reset ms) si (pp_start P) = Inr (None, ms')"
      "merror ms' = None" "\<And>cs e. \<not> matches_at T P si cs e" "length (captures ms') = LUA_MAXCAPTURES"
  | (match) ms' e where "match_impl T P d (mstate_reset ms) si (pp_start P) = Inr (Some e, ms')"
      "matches_at T P si (live ms') e" "mok T ms' e" "si \<le> e" "e \<le> length T"
      "length (captures ms') = LUA_MAXCAPTURES"
proof -
  from match_impl_at[OF assms, of d] obtain r ms'
    where r: "match_impl T P d (mstate_reset ms) si (pp_start P) = Inr (r, ms')"
      and o: "outcome T (mstate_reset ms) (matches_at T P si) r ms'" by (auto simp: runs_def)
  show ?thesis
  proof (cases r)
    case None
    show ?thesis
    proof (cases "merror ms'")
      case n: None
      with None o r fail show ?thesis by (simp add: outcome_def)
    qed (use None r error in simp)
  next
    case (Some e)
    with o have "matches_at T P si (live ms') e" "mok T ms' e" "length (captures ms') = LUA_MAXCAPTURES"
      by (simp_all add: outcome_def)
    with match Some r show ?thesis by (simp add: matches_at_def pmatch_ge mok_len)
  qed
qed

section \<open>find\<close>

definition finished :: "capture list \<Rightarrow> bool" where
  "finished cs \<longleftrightarrow> (\<forall>c\<in>set cs. cap_len c \<noteq> UnfinishedLen)"

lemma list_ex_finished: "list_ex (\<lambda>c. cap_len c = UnfinishedLen) cs \<longleftrightarrow> \<not> finished cs"
  by (auto simp: finished_def list_ex_iff)

definition within :: "nat \<Rightarrow> nat \<Rightarrow> capture_value \<Rightarrow> bool" where
  "within s e v = (case v of Substring a b \<Rightarrow> s \<le> a \<and> a \<le> b \<and> b \<le> e | Position p \<Rightarrow> s < p \<and> p \<le> e + 1)"

lemma extract_loop_within:
  "\<forall>c\<in>set cs. s \<le> cap_start c \<and> cap_ok e c \<Longrightarrow> \<forall>v\<in>set (extract_loop cs). within s e v"
  by (induction cs) (auto simp: within_def cap_ok_def split: capture_len.splits)

lemma extract_within:
  assumes "mok T ms e" "matches_at T P s (live ms) e"
  shows "\<forall>v\<in>set (extract_loop (live ms)). within s e v"
  using assms pmatch_starts[of T P "[]" s "pp_start P" "live ms" e s]
  by (intro extract_loop_within) (auto simp: matches_at_def mok_def)

definition anchored :: "bytes \<Rightarrow> bool" where
  "anchored P \<longleftrightarrow> pp_start P = 1"

text \<open>What the search from \<open>init\<close> promises.\<close>

definition find_ok :: "bytes \<Rightarrow> bytes \<Rightarrow> nat \<Rightarrow> perr + find_result \<Rightarrow> bool" where
  "find_ok T P init r =
     (case r of
        Inl err \<Rightarrow> True
      | Inr None \<Rightarrow> \<forall>s cs e. init \<le> s \<and> s \<le> length T \<and> (anchored P \<longrightarrow> s = init) \<longrightarrow> \<not> matches_at T P s cs e
      | Inr (Some (s, e, caps)) \<Rightarrow>
          init \<le> s \<and> s \<le> e \<and> e \<le> length T \<and> (anchored P \<longrightarrow> s = init) \<and> (\<forall>v\<in>set caps. within s e v) \<and>
          (\<exists>cs. matches_at T P s cs e \<and> finished cs \<and> caps = extract_loop cs) \<and>
          (\<forall>s' cs' e'. init \<le> s' \<and> s' < s \<longrightarrow> \<not> matches_at T P s' cs' e'))"

lemma find_engine_ok:
  assumes "wfp P (pp_start P)" "length (captures ms) = LUA_MAXCAPTURES" "si \<le> length T"
  shows "\<exists>r. find_engine T P ms si = Inr r \<and> find_ok T P si r"
  using assms(2,3)
proof (induction "length T - si" arbitrary: ms si rule: less_induct)
  case (less si ms)
  from less.prems(1,2) assms(1) show ?case
  proof (cases rule: attempt_cases[where d = MAXCCALLS])
    case (error ms' err)
    then show ?thesis by (subst find_engine.simps) (simp add: find_ok_def)
  next
    case (match ms' e)
    show ?thesis
    proof (cases "finished (live ms')")
      case True
      have "find_engine T P ms si = Inr (Inr (Some (si, e, extract_loop (live ms'))))"
        using True match(1,3) by (subst find_engine.simps)
          (simp add: ebind_def check_captures_ok extract_captures_ok list_ex_finished)
      moreover have "find_ok T P si (Inr (Some (si, e, extract_loop (live ms'))))"
        using match True extract_within[OF match(3,2)] by (auto simp: find_ok_def)
      ultimately show ?thesis by blast
    next
      case False
      have "find_engine T P ms si = Inr (Inl UnfinishedCapture)"
        using False match(1,3) by (subst find_engine.simps)
          (simp add: ebind_def check_captures_ok list_ex_finished)
      then show ?thesis by (simp add: find_ok_def)
    qed
  next
    case (fail ms')
    show ?thesis
    proof (cases "pp_start P = 1 \<or> length T \<le> si")
      case True
      have "find_engine T P ms si = Inr (Inr None)"
        using True fail(1,2) by (subst find_engine.simps) simp
      moreover have "find_ok T P si (Inr None)"
        using True fail(3) less.prems(2) by (auto simp: find_ok_def anchored_def)
      ultimately show ?thesis by blast
    next
      case False
      then have "length T - (si + 1) < length T - si" "si + 1 \<le> length T" by arith+
      from less.hyps[OF this(1) fail(4) this(2)] obtain r
        where r: "find_engine T P ms' (si + 1) = Inr r" "find_ok T P (si + 1) r" by blast
      have "find_engine T P ms si = Inr r"
        using False fail(1,2) r(1) by (subst find_engine.simps) simp
      moreover have "find_ok T P si r"
      proof -
        have step: "si \<le> s \<longleftrightarrow> s = si \<or> si + 1 \<le> s" for s by auto
        have na: "\<not> anchored P" using False by (simp add: anchored_def)
        show ?thesis
          using r(2) fail(3) na unfolding find_ok_def step
          by (auto split: sum.splits option.splits)
      qed
      ultimately show ?thesis by blast
    qed
  qed
qed

text \<open>C11. \<open>find\<close> on a pattern with special characters never panics and always returns; unless it
  reports an error, it returns the leftmost match at or after \<open>init\<close> (only \<open>init\<close> itself when the
  pattern is anchored), with captures that lie inside the match, or none if there is no match.
  What a match is, is the relation \<open>pmatch\<close>, which knows nothing of the search.\<close>

theorem pattern_find_leftmost:
  assumes "\<not> is_plain_pattern P" and "init \<le> length T"
  shows "\<exists>r. pat_find T P init = Inr r \<and> find_ok T P init r"
proof (cases "validate_pattern P")
  case (Inl err)
  then show ?thesis using assms by (simp add: pat_find_def find_impl_def ebind_def find_ok_def)
next
  case (Inr u)
  have "length (captures mstate_new) = LUA_MAXCAPTURES" by (simp add: mstate_new_def)
  from find_engine_ok[OF validate_pattern_wfp[OF Inr] this assms(2)] Inr assms show ?thesis
    by (simp add: pat_find_def find_impl_def ebind_def)
qed

theorem pattern_find_leftmost_witness:
  "\<not> is_plain_pattern [0x61, 0x2B] \<and> 1 \<le> length [0x62, 0x61, 0x61 :: u8] \<and>
   (\<exists>r. pat_find [0x62, 0x61, 0x61] [0x61, 0x2B] 1 = Inr r \<and> find_ok [0x62, 0x61, 0x61] [0x61, 0x2B] 1 r)"
  using pattern_find_leftmost[of "[0x61, 0x2B]" 1 "[0x62, 0x61, 0x61]"]
  by (simp add: is_plain_pattern_def)

section \<open>Plain patterns\<close>

definition occurs_at :: "bytes \<Rightarrow> bytes \<Rightarrow> nat \<Rightarrow> bool" where
  "occurs_at H N i \<longleftrightarrow> i + length N \<le> length H \<and> take (length N) (drop i H) = N"

definition first_from :: "(nat \<Rightarrow> bool) \<Rightarrow> nat \<Rightarrow> nat option \<Rightarrow> bool" where
  "first_from Q a r = (case r of Some i \<Rightarrow> a \<le> i \<and> Q i \<and> (\<forall>j. a \<le> j \<and> j < i \<longrightarrow> \<not> Q j) | None \<Rightarrow> \<forall>j\<ge>a. \<not> Q j)"

lemma first_from_unique: "first_from Q a r \<Longrightarrow> first_from Q a r' \<Longrightarrow> r = r'"
  by (auto simp: first_from_def split: option.splits) (metis linorder_neqE_nat)

lemma first_from_step: "\<not> Q a \<Longrightarrow> first_from Q (a + 1) r \<Longrightarrow> first_from Q a r"
  by (auto simp: first_from_def split: option.splits) (metis Suc_leI le_neq_implies_less)+

lemma occurs_at_Cons:
  assumes "i < length H"
  shows "occurs_at H (n # ns) i \<longleftrightarrow>
    i + Suc (length ns) \<le> length H \<and> H ! i = n \<and> take (length ns) (drop (i + 1) H) = ns"
  using Cons_nth_drop_Suc[OF assms, symmetric] by (auto simp: occurs_at_def)

lemma find_loop_first: "first_from (occurs_at H (n # ns)) i (find_loop H n ns i)"
proof (induction "length H - i" arbitrary: i rule: less_induct)
  case (less i)
  show ?case
  proof (cases "i + Suc (length ns) \<le> length H")
    case True
    then have i: "i < length H" "length H - (i + 1) < length H - i" by arith+
    show ?thesis
    proof (cases "H ! i = n \<and> take (length ns) (drop (i + 1) H) = ns")
      case m: True
      then have "find_loop H n ns i = Some i" using True by (subst find_loop.simps) simp
      moreover have "occurs_at H (n # ns) i" using m True occurs_at_Cons[OF i(1)] by blast
      ultimately show ?thesis by (auto simp: first_from_def)
    next
      case False
      then have "find_loop H n ns i = find_loop H n ns (i + 1)" using True by (subst find_loop.simps) auto
      moreover have "\<not> occurs_at H (n # ns) i" using False occurs_at_Cons[OF i(1)] by blast
      ultimately show ?thesis using first_from_step less(1)[OF i(2)] by simp
    qed
  next
    case False
    then have "find_loop H n ns i = None" by (subst find_loop.simps) simp
    then show ?thesis using False by (auto simp: first_from_def occurs_at_def)
  qed
qed

lemma position_of_spec:
  "case position_of b H of Some i \<Rightarrow> i < length H \<and> H ! i = b \<and> (\<forall>j<i. H ! j \<noteq> b) | None \<Rightarrow> b \<notin> set H"
  by (induction H) (auto split: option.splits simp: All_less_Suc2)

lemma occurs_at_single: "occurs_at H [b] i \<longleftrightarrow> i < length H \<and> H ! i = b"
proof (cases "i < length H")
  case True
  then show ?thesis using occurs_at_Cons[OF True, of b "[]"] by auto
qed (simp add: occurs_at_def)

lemma find_bytes_first: "first_from (occurs_at H N) 0 (find_bytes_in_slice H N)"
proof (cases N)
  case Nil
  then show ?thesis by (simp add: find_bytes_in_slice_def first_from_def occurs_at_def)
next
  case (Cons n ns)
  consider (long) "length H < length N" | (one) "\<not> length H < length N" "ns = []"
    | (many) "\<not> length H < length N" "ns \<noteq> []" by blast
  then show ?thesis
  proof cases
    case long
    then show ?thesis using Cons by (auto simp: find_bytes_in_slice_def first_from_def occurs_at_def)
  next
    case one
    then show ?thesis
      using Cons position_of_spec[of n H]
      by (auto simp: find_bytes_in_slice_def first_from_def occurs_at_single in_set_conv_nth split: option.splits)
  next
    case many
    then show ?thesis using Cons find_loop_first[of H n ns 0] by (simp add: find_bytes_in_slice_def)
  qed
qed

lemma occurs_at_drop: "a \<le> length T \<Longrightarrow> occurs_at (drop a T) N i \<longleftrightarrow> occurs_at T N (a + i)"
  by (auto simp: occurs_at_def add.commute)

lemma find_bytes_from:
  assumes "a \<le> length T"
  shows "first_from (occurs_at T N) a (map_option ((+) a) (find_bytes_in_slice (drop a T) N))"
proof -
  have *: "(\<forall>j\<ge>a. Q j) \<longleftrightarrow> (\<forall>j. Q (a + j))" for Q :: "nat \<Rightarrow> bool"
    by (metis le_add1 le_iff_add)
  have **: "(\<forall>j. a \<le> j \<and> j < a + i \<longrightarrow> Q j) \<longleftrightarrow> (\<forall>j<i. Q (a + j))" for i and Q :: "nat \<Rightarrow> bool"
    by (metis le_add1 le_iff_add nat_add_left_cancel_less)
  show ?thesis
    using find_bytes_first[of "drop a T" N]
    by (auto simp: first_from_def occurs_at_drop[OF assms] * ** split: option.splits)
qed

text \<open>A plain pattern without a closing parenthesis, in the engine.\<close>

definition literal :: "bytes \<Rightarrow> bool" where
  "literal P \<longleftrightarrow> is_plain_pattern P \<and> RPAREN \<notin> set P"

lemma literal_byte:
  assumes "literal P" "pp < length P"
  shows "P ! pp \<noteq> PERCENT" "P ! pp \<noteq> DOT" "P ! pp \<noteq> LBRACKET" "P ! pp \<noteq> STAR" "P ! pp \<noteq> PLUS"
    "P ! pp \<noteq> MINUS" "P ! pp \<noteq> QUESTION" "P ! pp \<noteq> CARET" "P ! pp \<noteq> DOLLAR" "P ! pp \<noteq> LPAREN" "P ! pp \<noteq> RPAREN"
proof -
  have m: "P ! pp \<in> set P" using assms(2) by simp
  have "P ! pp \<notin> {PERCENT, DOT, LBRACKET, STAR, PLUS, MINUS, QUESTION, CARET, DOLLAR, LPAREN}"
    using assms(1) m unfolding literal_def is_plain_pattern_def list_ex_iff by blast
  then show "P ! pp \<noteq> PERCENT" "P ! pp \<noteq> DOT" "P ! pp \<noteq> LBRACKET" "P ! pp \<noteq> STAR" "P ! pp \<noteq> PLUS"
    "P ! pp \<noteq> MINUS" "P ! pp \<noteq> QUESTION" "P ! pp \<noteq> CARET" "P ! pp \<noteq> DOLLAR" "P ! pp \<noteq> LPAREN" by blast+
  show "P ! pp \<noteq> RPAREN" using assms(1) m unfolding literal_def by metis
qed

lemma literal_element:
  assumes "literal P" "pp < length P"
  shows "ordinary P pp" "element_end P pp = Inr (pp + 1)" "elem P pp c \<longleftrightarrow> c = P ! pp"
    "\<not> is_suffix_byte (P ! pp)"
  using assms(2)
  by (simp_all add: ordinary_def element_end_def elem_def singlematch_def is_suffix_byte_def literal_byte[OF assms])

lemma literal_wfp: "literal P \<Longrightarrow> wfp P i"
proof (induction "length P - i" arbitrary: i)
  case (Suc n)
  then have i: "i < length P" by simp
  have "wfp P (i + 1)" using Suc by (intro Suc.hyps(1)) simp_all
  then show ?case using i by (subst wfp.simps) (simp add: literal_byte[OF Suc.prems i])
qed simp

lemma literal_match_inner:
  assumes "literal P"
  shows "match_inner (match_impl T P d) T P ms si pp =
    Inr (if occurs_at T (drop pp P) si \<or> length P \<le> pp then Some (si + (length P - pp)) else None, ms)"
proof (induction "length P - pp" arbitrary: si pp)
  case 0
  then show ?case by (subst match_inner.simps) simp
next
  case (Suc n)
  then have pp: "pp < length P" by simp
  note el = literal_element[OF assms pp]
  have suf: "\<not> (pp + 1 < length P \<and> is_suffix_byte (P ! (pp + 1)))" using literal_element(4)[OF assms, of "pp + 1"] by blast
  have m: "match_inner (match_impl T P d) T P ms si pp =
    (if si < length T \<and> T ! si = P ! pp then match_inner (match_impl T P d) T P ms (si + 1) (pp + 1) else Inr (None, ms))"
    using suf by (subst engine.match_inner_element[OF el(1,2) literal_wfp[OF assms]]) (auto simp: is_suffix_byte_def el(3))
  have d: "drop pp P = P ! pp # drop (pp + 1) P" using pp by (simp add: Cons_nth_drop_Suc)
  have occ: "occurs_at T (drop pp P) si \<longleftrightarrow> si < length T \<and> T ! si = P ! pp \<and>
      (occurs_at T (drop (pp + 1) P) (si + 1) \<or> length P \<le> pp + 1)"
  proof (cases "si < length T")
    case True
    then show ?thesis unfolding d occurs_at_Cons[OF True] using pp by (auto simp: occurs_at_def)
  qed (use pp in \<open>auto simp: occurs_at_def\<close>)
  have "n = length P - (pp + 1)" using Suc(2) by simp
  from Suc(1)[OF this, of "si + 1"] show ?case
    using pp unfolding m occ by auto
qed

lemma literal_pp_start: "literal P \<Longrightarrow> pp_start P = 0"
  by (cases P) (auto simp: pp_start_def literal_def is_plain_pattern_def)

lemma literal_match_impl:
  assumes "literal P" "si \<le> length T"
  shows "match_impl T P MAXCCALLS (mstate_reset ms) si (pp_start P) =
    Inr (if occurs_at T P si then Some (si + length P) else None, mstate_reset ms)"
proof -
  have S: "match_impl T P MAXCCALLS = match_impl T P (Suc 199)" by (simp add: MAXCCALLS_def)
  have e: "merror (mstate_reset ms) = None" by (simp add: mstate_reset_def)
  have "match_impl T P MAXCCALLS (mstate_reset ms) si (pp_start P) =
      match_inner (match_impl T P 199) T P (mstate_reset ms) si 0"
    unfolding S match_impl.simps literal_pp_start[OF assms(1)] e by simp
  moreover have "length P \<le> 0 \<Longrightarrow> occurs_at T P si" using assms(2) by (simp add: occurs_at_def)
  ultimately show ?thesis
    using literal_match_inner[OF assms(1), of T 199 "mstate_reset ms" si 0] by auto
qed

lemma literal_find_engine:
  assumes "literal P" "si \<le> length T"
  shows "\<exists>r. find_engine T P ms si = Inr (Inr (map_option (\<lambda>i. (i, i + length P, [])) r)) \<and>
    first_from (occurs_at T P) si r"
  using assms(2)
proof (induction "length T - si" arbitrary: ms si rule: less_induct)
  case (less si ms)
  note m = literal_match_impl[OF assms(1) less.prems, of ms]
  show ?case
  proof (cases "occurs_at T P si")
    case True
    have "find_engine T P ms si = Inr (Inr (Some (si, si + length P, [])))"
      by (subst find_engine.simps, subst m)
        (simp add: True ebind_def check_captures_def extract_captures_def live_captures_def slice_def mstate_reset_def)
    then show ?thesis using True by (intro exI[of _ "Some si"]) (auto simp: first_from_def)
  next
    case False
    show ?thesis
    proof (cases "length T \<le> si")
      case True
      have "find_engine T P ms si = Inr (Inr None)"
        using True by (subst find_engine.simps, subst m) (simp add: False mstate_reset_def)
      moreover have "first_from (occurs_at T P) si None"
        using True False by (auto simp: first_from_def occurs_at_def)
      ultimately show ?thesis by (intro exI[of _ None]) simp
    next
      case lt: False
      then have "length T - (si + 1) < length T - si" "si + 1 \<le> length T" by arith+
      from less.hyps[OF this, of "mstate_reset ms"] obtain r
        where r: "find_engine T P (mstate_reset ms) (si + 1) = Inr (Inr (map_option (\<lambda>i. (i, i + length P, [])) r))"
          "first_from (occurs_at T P) (si + 1) r" by blast
      have "find_engine T P ms si = find_engine T P (mstate_reset ms) (si + 1)"
        using lt by (subst find_engine.simps, subst m) (simp add: False literal_pp_start[OF assms(1)], simp add: mstate_reset_def)
      with r first_from_step[OF False r(2)] show ?thesis by auto
    qed
  qed
qed

text \<open>C16. The plain-text fast path of \<open>find\<close> is equivalent to the backtracking engine on every
  pattern without special characters (and without a closing parenthesis, which the test for
  special characters overlooks), and it returns the first occurrence.\<close>

theorem plain_find_equiv:
  assumes "is_plain_pattern P" and "RPAREN \<notin> set P" and "init \<le> length T"
  shows "pat_find T P init = find_engine T P mstate_new init \<and>
    (\<exists>r. pat_find T P init = Inr (Inr (map_option (\<lambda>i. (i, i + length P, [])) r)) \<and>
         first_from (occurs_at T P) init r)"
proof -
  have lit: "literal P" using assms by (simp add: literal_def)
  let ?r = "map_option ((+) init) (find_bytes_in_slice (drop init T) P)"
  have f: "pat_find T P init = Inr (Inr (map_option (\<lambda>i. (i, i + length P, [])) ?r))"
    using assms by (simp add: pat_find_def find_impl_def split: option.splits)
  obtain r where r: "find_engine T P mstate_new init = Inr (Inr (map_option (\<lambda>i. (i, i + length P, [])) r))"
    "first_from (occurs_at T P) init r" using literal_find_engine[OF lit assms(3)] by blast
  from first_from_unique[OF r(2) find_bytes_from[OF assms(3)]] r f show ?thesis by auto
qed

theorem plain_find_equiv_witness:
  "is_plain_pattern [0x61, 0x62] \<and> RPAREN \<notin> set [0x61, 0x62] \<and> 0 \<le> length [0x63, 0x61, 0x62 :: u8] \<and>
   pat_find [0x63, 0x61, 0x62] [0x61, 0x62] 0 = find_engine [0x63, 0x61, 0x62] [0x61, 0x62] mstate_new 0"
  using plain_find_equiv[of "[0x61, 0x62]" 0 "[0x63, 0x61, 0x62]"] by (simp add: is_plain_pattern_def)

end
