(* ===== verification/LJ_Pattern_Gsub.thy ===== *)
theory LJ_Pattern_Gsub
  imports LJ_Pattern_Spec
begin

text \<open>
  Substitution: the replacement string as a byte-wise specification (\<open>expand\<close>), the text that a
  sequence of replaced matches gives (\<open>assemble\<close>), and the proof that \<open>gsub\<close> and
  \<open>find_all_matches\<close>, in the engine and on the plain-text path, always return and produce it.
\<close>

section \<open>Replacement strings\<close>

fun expand :: "(nat \<Rightarrow> bytes option) \<Rightarrow> bytes \<Rightarrow> bytes option" where
  "expand cap [] = Some []"
| "expand cap [c] = Some [c]"
| "expand cap (c # d # R) =
     (if c \<noteq> PERCENT then map_option ((#) c) (expand cap (d # R))
      else if d = PERCENT then map_option ((#) PERCENT) (expand cap R)
      else if is_ascii_digit d
      then (case cap (unat (d - 0x30)) of
              None \<Rightarrow> None
            | Some x \<Rightarrow> map_option ((@) x) (expand cap R))
      else None)"

definition cap_string :: "bytes \<Rightarrow> bytes \<Rightarrow> capture list \<Rightarrow> nat \<Rightarrow> bytes option" where
  "cap_string T full cs n =
     (if n = 0 \<or> n = 1 \<and> cs = [] then Some full
      else if n \<le> length cs
      then Some (case cap_len (cs ! (n - 1)) of
                   Len l \<Rightarrow> take l (drop (cap_start (cs ! (n - 1))) T)
                 | PositionLen \<Rightarrow> decimal (cap_start (cs ! (n - 1)) + 1)
                 | UnfinishedLen \<Rightarrow> [])
      else None)"

text \<open>A capture lookup of the source, seen as the partial function of the specification.\<close>

definition lookup_ok :: "(nat \<Rightarrow> panic + (perr + bytes)) \<Rightarrow> (nat \<Rightarrow> bytes option) \<Rightarrow> bool" where
  "lookup_ok cap f \<longleftrightarrow> (\<forall>n. cap n = Inr (case f n of Some x \<Rightarrow> Inr x | None \<Rightarrow> Inl (InvalidCaptureIndex n)))"

lemma capture_text_ok:
  assumes "mok T ms e"
  shows "lookup_ok (capture_text T ms full) (cap_string T full (live ms))"
  unfolding lookup_ok_def
proof
  fix n
  have len: "length (live ms) = num_captures ms" "num_captures ms \<le> length (captures ms)"
    using assms by (simp_all add: length_live) (simp add: mok_def)
  show "capture_text T ms full n =
    Inr (case cap_string T full (live ms) n of Some x \<Rightarrow> Inr x | None \<Rightarrow> Inl (InvalidCaptureIndex n))"
  proof (cases "0 < n \<and> n \<le> num_captures ms")
    case True
    then have n: "n - 1 < num_captures ms" "live ms ! (n - 1) = captures ms ! (n - 1)" by (auto simp: live_nth)
    have "live ms ! (n - 1) \<in> set (live ms)" using n(1) len by simp
    then have ok: "cap_ok e (captures ms ! (n - 1))" and "e \<le> length T"
      using assms n(2) by (auto simp: mok_def)
    then have "cap_len (captures ms ! (n - 1)) = Len l \<Longrightarrow> cap_start (captures ms ! (n - 1)) + l \<le> length T" for l
      by (auto simp: cap_ok_def)
    with True n len show ?thesis
      by (auto simp: capture_text_def cap_string_def slice_def idx_panic_def split: capture_len.splits)
  next
    case False
    have "live ms = [] \<longleftrightarrow> num_captures ms = 0" using len(1) by auto
    then show ?thesis using False len by (auto simp: capture_text_def cap_string_def)
  qed
qed

lemma plain_capture_ok: "lookup_ok (plain_capture full) (cap_string T full [])"
  by (auto simp: lookup_ok_def plain_capture_def cap_string_def)

lemma expand_segment:
  "PERCENT \<notin> set seg \<Longrightarrow> rest = [] \<or> hd rest = PERCENT \<Longrightarrow>
   expand cap (seg @ rest) = map_option ((@) seg) (expand cap rest)"
proof (induction seg)
  case (Cons c seg)
  then show ?case
    by (cases "seg @ rest") (auto simp: option.map_comp comp_def)
qed (cases "expand cap rest"; simp)

definition subst_result :: "bytes \<Rightarrow> bytes option \<Rightarrow> (panic + (perr + bytes)) \<Rightarrow> bool" where
  "subst_result acc x r \<longleftrightarrow>
     (case x of Some y \<Rightarrow> r = Inr (Inr (acc @ y)) | None \<Rightarrow> \<exists>err. r = Inr (Inl err))"

lemma subst_result_map:
  "subst_result (acc @ p) x r \<Longrightarrow> subst_result acc (map_option ((@) p) x) r"
  by (cases x) (simp_all add: subst_result_def)

lemma subst_loop_expand:
  assumes "lookup_ok cap f"
  shows "subst_result acc (expand f (drop i R)) (subst_loop cap R i acc)"
proof (induction "length R - i" arbitrary: i acc rule: less_induct)
  case (less i acc)
  show ?case
  proof (cases "i < length R")
    case False
    then show ?thesis by (subst subst_loop.simps) (simp add: subst_result_def)
  next
    case True
    then have d1: "drop i R = R ! i # drop (i + 1) R" by (simp add: Cons_nth_drop_Suc)
    have m: "length R - (i + k) < length R - i" if "0 < k" for k using True that by arith
    consider (seg) "R ! i \<noteq> PERCENT" | (last) "R ! i = PERCENT" "\<not> i + 1 < length R"
      | (pair) "R ! i = PERCENT" "i + 1 < length R" by blast
    then show ?thesis
    proof cases
      case seg
      define w where "w = takeWhile (\<lambda>c. c \<noteq> PERCENT) (drop i R)"
      have w: "w \<noteq> []" using seg by (simp add: w_def d1)
      have split: "drop i R = w @ drop (i + length w) R"
        using takeWhile_dropWhile_id[of "\<lambda>c. c \<noteq> PERCENT" "drop i R"]
        by (simp add: w_def dropWhile_eq_drop add.commute)
      have "PERCENT \<notin> set w" by (auto simp: w_def dest: set_takeWhileD)
      moreover have "drop (i + length w) R = [] \<or> hd (drop (i + length w) R) = PERCENT"
        using hd_dropWhile[of "\<lambda>c. c \<noteq> PERCENT" "drop i R"]
        by (auto simp: w_def dropWhile_eq_drop add.commute)
      ultimately have e: "expand f (drop i R) = map_option ((@) w) (expand f (drop (i + length w) R))"
        by (subst split) (rule expand_segment)
      have "subst_loop cap R i acc = subst_loop cap R (i + length w) (acc @ w)"
        using seg True by (subst subst_loop.simps) (simp add: Let_def w_def)
      then show ?thesis
        unfolding e using subst_result_map less(1)[OF m, of "length w" "acc @ w"] w by simp
    next
      case last
      then have d: "drop i R = [PERCENT]" using d1 by simp
      have "subst_loop cap R i acc = Inr (Inr (acc @ [PERCENT]))"
        using last True by (subst subst_loop.simps) (simp add: subst_loop.simps[of cap R "Suc i"])
      then show ?thesis by (simp add: d subst_result_def)
    next
      case pair
      then have d: "drop i R = PERCENT # R ! (i + 1) # drop (i + 2) R"
        using d1 Cons_nth_drop_Suc[of "i + 1" R] by simp
      let ?d = "R ! (i + 1)" and ?n = "unat (R ! (i + 1) - 0x30)"
      have l: "subst_loop cap R i acc =
          (if ?d = PERCENT then subst_loop cap R (i + 2) (acc @ [PERCENT])
           else if is_ascii_digit ?d then ebind (cap ?n) (\<lambda>x. subst_loop cap R (i + 2) (acc @ x))
           else Inr (Inl InvalidPercentUse))"
        using pair True by (subst subst_loop.simps) simp
      have IH: "subst_result (acc @ x) (expand f (drop (i + 2) R)) (subst_loop cap R (i + 2) (acc @ x))" for x
        by (rule less(1)[OF m]) simp
      have c: "map_option ((#) PERCENT) x = map_option ((@) [PERCENT]) x" for x :: "bytes option"
        by (cases x) simp_all
      consider (pct) "?d = PERCENT" | (dig) "?d \<noteq> PERCENT" "is_ascii_digit ?d"
        | (bad) "?d \<noteq> PERCENT" "\<not> is_ascii_digit ?d" by blast
      then show ?thesis
      proof cases
        case pct
        have "subst_result acc (map_option ((@) [PERCENT]) (expand f (drop (i + 2) R)))
            (subst_loop cap R (i + 2) (acc @ [PERCENT]))" by (rule subst_result_map[OF IH])
        then show ?thesis unfolding l d expand.simps c using pct by simp
      next
        case dig
        show ?thesis
        proof (cases "f ?n")
          case None
          then have "cap ?n = Inr (Inl (InvalidCaptureIndex ?n))" using assms by (simp add: lookup_ok_def)
          then show ?thesis unfolding l d expand.simps using dig None by (simp add: ebind_def subst_result_def)
        next
          case (Some x)
          then have "cap ?n = Inr (Inr x)" using assms by (simp add: lookup_ok_def)
          moreover have "subst_result acc (map_option ((@) x) (expand f (drop (i + 2) R)))
            (subst_loop cap R (i + 2) (acc @ x))" by (rule subst_result_map[OF IH])
          ultimately show ?thesis unfolding l d expand.simps using dig Some by (simp add: ebind_def)
        qed
      next
        case bad
        then show ?thesis unfolding l d expand.simps by (simp add: subst_result_def)
      qed
    qed
  qed
qed

section \<open>Assembled output\<close>

type_synonym segment = "nat \<times> nat \<times> bytes"

fun assemble :: "bytes \<Rightarrow> nat \<Rightarrow> segment list \<Rightarrow> bytes" where
  "assemble T pos [] = drop pos T"
| "assemble T pos ((s, e, r) # ms) = take (s - pos) (drop pos T) @ r @ assemble T e ms"

definition expanded :: "bytes \<Rightarrow> bytes \<Rightarrow> nat \<Rightarrow> nat \<Rightarrow> capture list \<Rightarrow> bytes \<Rightarrow> bool" where
  "expanded T R s e cs r \<longleftrightarrow>
     (if PERCENT \<in> set R then expand (cap_string T (take (e - s) (drop s T)) cs) R = Some r else r = R)"

text \<open>A match at \<open>s\<close> that ends at \<open>e\<close>: an occurrence for a plain pattern, a match in the sense of
  \<open>pmatch\<close> otherwise.\<close>

definition plain :: "bytes \<Rightarrow> bool" where
  "plain P \<longleftrightarrow> is_plain_pattern P \<and> P \<noteq> []"

definition hit :: "bytes \<Rightarrow> bytes \<Rightarrow> nat \<Rightarrow> capture list \<Rightarrow> nat \<Rightarrow> bool" where
  "hit T P s cs e \<longleftrightarrow> (if plain P then cs = [] \<and> e = s + length P \<and> occurs_at T P s else matches_at T P s cs e)"

text \<open>Where a scan that stands at \<open>si\<close> may pass over \<open>s\<close>: nothing matches there (and the pattern is not
  anchored), or a match has just ended there and the pattern matches the empty string.\<close>

definition passes :: "bytes \<Rightarrow> bytes \<Rightarrow> bool \<Rightarrow> nat \<Rightarrow> nat \<Rightarrow> bool" where
  "passes T P lastne si s \<longleftrightarrow>
     \<not> anchored P \<and> (\<forall>cs e. \<not> hit T P s cs e) \<or> lastne \<and> s = si \<and> (\<exists>cs. hit T P s cs s \<and> finished cs)"

definition passes_to :: "bytes \<Rightarrow> bytes \<Rightarrow> bool \<Rightarrow> nat \<Rightarrow> nat \<Rightarrow> bool" where
  "passes_to T P lastne si t \<longleftrightarrow> si \<le> t \<and> (\<forall>s. si \<le> s \<and> s < t \<longrightarrow> passes T P lastne si s)"

text \<open>The replacements of a complete scan from \<open>si\<close>, \<open>count\<close> of them done; \<open>lastne\<close> tells that a match that is
  not empty ended at \<open>si\<close>. The scan stops at the limit, or when no position is left (none but the next for an
  anchored pattern); each replaced match is the first that the scan meets.\<close>

fun gsub_run :: "bytes \<Rightarrow> bytes \<Rightarrow> bytes \<Rightarrow> nat option \<Rightarrow> bool \<Rightarrow> nat \<Rightarrow> nat \<Rightarrow> segment list \<Rightarrow> bool" where
  "gsub_run T P R mx lastne si count [] \<longleftrightarrow>
     reached mx count \<or>
     (\<exists>t. passes_to T P lastne si t \<and> (length T < t \<or> anchored P \<and> (\<forall>cs e. \<not> hit T P t cs e)))"
| "gsub_run T P R mx lastne si count ((s, e, r) # ms) \<longleftrightarrow>
     \<not> reached mx count \<and> passes_to T P lastne si s \<and> s \<le> e \<and> e \<le> length T \<and> \<not> (lastne \<and> s = si \<and> e = s) \<and>
     (\<exists>cs. hit T P s cs e \<and> finished cs \<and> expanded T R s e cs r) \<and>
     gsub_run T P R mx (s < e) (if s = e then s + 1 else e) (count + 1) ms"

lemma passes_shift: "passes T P False si' s \<Longrightarrow> passes T P lastne si s"
  by (auto simp: passes_def)

lemma passes_to_refl [simp]: "passes_to T P lastne si si"
  by (auto simp: passes_to_def)

lemma passes_to_ge: "passes_to T P lastne si t \<Longrightarrow> si \<le> t"
  by (simp add: passes_to_def)

lemma passes_to_step:
  assumes "passes T P lastne si si" "passes_to T P False (si + 1) t"
  shows "passes_to T P lastne si t"
  unfolding passes_to_def
proof (intro conjI allI impI)
  show "si \<le> t" using assms(2) by (simp add: passes_to_def)
  fix s assume "si \<le> s \<and> s < t"
  then have "s = si \<or> si + 1 \<le> s \<and> s < t" by auto
  then show "passes T P lastne si s" using assms passes_shift[of T P "si + 1" s] by (auto simp: passes_to_def)
qed

lemma gsub_run_skip:
  assumes "passes T P lastne si si" "gsub_run T P R mx False (si + 1) count ms"
  shows "gsub_run T P R mx lastne si count ms"
proof (cases ms)
  case Nil
  have "\<And>t. passes_to T P False (si + 1) t \<Longrightarrow> passes_to T P lastne si t" by (rule passes_to_step[OF assms(1)])
  then show ?thesis using assms(2) unfolding Nil gsub_run.simps(1) by blast
next
  case (Cons m ms')
  obtain s e r where m: "m = (s, e, r)" by (cases m)
  have "passes_to T P False (si + 1) s" using assms(2) by (simp add: Cons m)
  then have "passes_to T P lastne si s" "si < s" using passes_to_step[OF assms(1)] passes_to_ge by fastforce+
  then show ?thesis using assms(2) by (simp add: Cons m)
qed

lemma gsub_run_first: "gsub_run T P R mx lastne si count ((s, e, r) # ms) \<Longrightarrow> si \<le> s"
  by (auto dest: passes_to_ge)

lemma assemble_next:
  assumes "si < length T" "gsub_run T P R mx lastne (si + 1) count ms"
  shows "T ! si # assemble T (si + 1) ms = assemble T si ms"
proof -
  have d: "drop si T = T ! si # drop (Suc si) T" using assms(1) by (simp add: Cons_nth_drop_Suc)
  show ?thesis
  proof (cases ms)
    case (Cons m ms')
    obtain s e r where m: "m = (s, e, r)" by (cases m)
    with assms Cons gsub_run_first obtain k where "s - si = Suc k" "s - Suc si = k"
      by (metis Suc_diff_Suc Suc_eq_plus1 Suc_le_eq)
    with Cons m d show ?thesis by simp
  qed (simp add: d)
qed

text \<open>The errors: an invalid pattern, one that the matcher refuses at some position (a malformed capture, too
  deep a recursion), a match with an open capture, or a replacement string that is invalid for a match.\<close>

definition gsub_error :: "bytes \<Rightarrow> bytes \<Rightarrow> bytes \<Rightarrow> perr \<Rightarrow> bool" where
  "gsub_error T P R err \<longleftrightarrow>
     \<not> plain P \<and>
       (validate_pattern P = Inl err \<or>
        (\<exists>s ms ms'. s \<le> length T \<and> match_impl T P MAXCCALLS (mstate_reset ms) s (pp_start P) = Inr (None, ms') \<and>
           merror ms' = Some err) \<or>
        err = UnfinishedCapture \<and> (\<exists>s cs e. matches_at T P s cs e \<and> \<not> finished cs)) \<or>
     (\<exists>s cs e. hit T P s cs e \<and> PERCENT \<in> set R \<and> expand (cap_string T (take (e - s) (drop s T)) cs) R = None)"

text \<open>What a run of the loop promises from its accumulator on.\<close>

definition gsub_ok ::
  "bytes \<Rightarrow> bytes \<Rightarrow> bytes \<Rightarrow> nat option \<Rightarrow> bool \<Rightarrow> nat \<Rightarrow> nat \<Rightarrow> bytes \<Rightarrow> nat \<Rightarrow> perr + bytes \<times> nat \<Rightarrow> bool" where
  "gsub_ok T P R mx lastne lbe si acc count r =
     (case r of
        Inl err \<Rightarrow> gsub_error T P R err
      | Inr (out, n) \<Rightarrow> \<exists>ms. out = acc @ assemble T lbe ms \<and> n = count + length ms \<and> gsub_run T P R mx lastne si count ms)"

lemma gsub_ok_finish:
  assumes "lbe \<le> length T" "gsub_run T P R mx lastne si count []"
  shows "\<exists>r. rbind (slice T lbe (length T)) (\<lambda>x. Inr (Inr (acc @ x, count))) = Inr r \<and> gsub_ok T P R mx lastne lbe si acc count r"
  using assms by (auto simp: slice_def gsub_ok_def simp del: gsub_run.simps intro!: exI[of _ "[]"])

lemma gsub_ok_skip:
  "gsub_ok T P R mx False lbe (si + 1) acc count r \<Longrightarrow> passes T P lastne si si \<Longrightarrow> gsub_ok T P R mx lastne lbe si acc count r"
  using gsub_run_skip[of T P lastne si R mx count]
  by (auto simp: gsub_ok_def split: sum.splits)

lemma gsub_ok_push:
  assumes "gsub_ok T P R mx l (si + 1) (si + 1) (acc @ [T ! si]) count r" "si < length T"
  shows "gsub_ok T P R mx l si (si + 1) acc count r"
  using assms assemble_next[OF assms(2), of P R mx l count]
  by (auto simp: gsub_ok_def split: sum.splits)

lemma gsub_ok_segment:
  assumes "gsub_ok T P R mx (s < e) e (if s = e then s + 1 else e) (acc @ pre @ x) (count + 1) r"
    and "hit T P s cs e" "finished cs" "expanded T R s e cs x" "passes_to T P lastne si s" "\<not> (lastne \<and> s = si \<and> e = s)"
    and "s \<le> e" "e \<le> length T" "pre = take (s - lbe) (drop lbe T)" "\<not> reached mx count"
  shows "gsub_ok T P R mx lastne lbe si acc count r"
proof (cases r)
  case (Inr p)
  obtain out n where p: "p = (out, n)" by (cases p)
  from assms(1) Inr p obtain ms where ms: "out = acc @ pre @ x @ assemble T e ms" "n = count + 1 + length ms"
    "gsub_run T P R mx (s < e) (if s = e then s + 1 else e) (count + 1) ms"
    by (auto simp: gsub_ok_def)
  have "gsub_run T P R mx lastne si count ((s, e, x) # ms)" unfolding gsub_run.simps using ms(3) assms(2-10) by blast
  then show ?thesis unfolding gsub_ok_def Inr p using ms assms(9)
    by (auto simp del: gsub_run.simps intro!: exI[of _ "(s, e, x) # ms"])
qed (use assms(1) in \<open>simp add: gsub_ok_def\<close>)

section \<open>gsub in the engine\<close>

lemma replacement_total:
  assumes "mok T ms' e" "s \<le> e"
  obtains (err) err where "(if PERCENT \<in> set R
      then rbind (slice T s e) (\<lambda>m. substitute_captures_bytes R m T ms') else Inr (Inr R)) = Inr (Inl err)"
      "PERCENT \<in> set R" "expand (cap_string T (take (e - s) (drop s T)) (live ms')) R = None"
  | (ok) x where "(if PERCENT \<in> set R
      then rbind (slice T s e) (\<lambda>m. substitute_captures_bytes R m T ms') else Inr (Inr R)) = Inr (Inr x)"
      "expanded T R s e (live ms') x"
proof (cases "PERCENT \<in> set R")
  case True
  have sl: "slice T s e = Inr (take (e - s) (drop s T))" using assms mok_len by (auto simp: slice_def)
  from subst_loop_expand[OF capture_text_ok[OF assms(1), of "take (e - s) (drop s T)"], of "[]" 0 R]
  show ?thesis using True sl err ok
    by (auto simp: substitute_captures_bytes_def subst_result_def expanded_def split: option.splits)
qed (use ok in \<open>simp add: expanded_def\<close>)

lemma gsub_loop_ok:
  assumes "wfp P (pp_start P)" "\<not> plain P"
  shows "length (captures ms) = LUA_MAXCAPTURES \<Longrightarrow> lbe \<le> length T \<Longrightarrow> lbe \<le> si \<Longrightarrow>
    (lastne \<longrightarrow> lbe = si) \<Longrightarrow> length T + 1 - si < fuel \<Longrightarrow>
    \<exists>r. gsub_loop fuel T P R mx ms si lastne lbe acc count = Inr r \<and> gsub_ok T P R mx lastne lbe si acc count r"
proof (induction fuel arbitrary: ms si lastne lbe acc count)
  case (Suc fuel)
  note inv = Suc.prems
  have hit: "hit T P = matches_at T P" using assms(2) by (simp add: hit_def fun_eq_iff)
  have finish: "\<exists>r. rbind (slice T lbe (length T)) (\<lambda>x. Inr (Inr (acc @ x, count))) = Inr r \<and>
      gsub_ok T P R mx lastne lbe si acc count r" if "gsub_run T P R mx lastne si count []"
    by (rule gsub_ok_finish[OF inv(2) that])
  show ?case
  proof (cases "length T < si \<or> reached mx count")
    case True
    have "gsub_run T P R mx lastne si count []" using True passes_to_refl by auto
    from finish[OF this] show ?thesis using True by simp
  next
    case False
    then have si: "si \<le> length T" and fuel: "length T + 1 - (si + 1) < fuel" using inv(5) by auto
    from inv(1) si assms(1) show ?thesis
    proof (cases rule: attempt_cases[where d = MAXCCALLS])
      case (error ms' err)
      have "gsub_error T P R err" using error si assms(2) unfolding gsub_error_def by blast
      then show ?thesis using False error by (simp add: gsub_ok_def)
    next
      case (fail ms')
      have no: "\<not> hit T P si cs e" for cs e using fail(3) by (simp add: hit)
      show ?thesis
      proof (cases "pp_start P = 1 \<or> length T \<le> si")
        case True
        have "gsub_run T P R mx lastne si count []"
        proof (cases "anchored P")
          case a: True
          then have "passes_to T P lastne si si \<and> (length T < si \<or> anchored P \<and> (\<forall>cs e. \<not> hit T P si cs e))" using no by simp
          then show ?thesis unfolding gsub_run.simps by blast
        next
          case na: False
          then have "passes T P lastne si si" using no by (simp add: passes_def)
          then have "passes_to T P lastne si (si + 1)" by (rule passes_to_step) simp
          moreover have "length T < si + 1" using True na by (simp add: anchored_def)
          ultimately show ?thesis unfolding gsub_run.simps by blast
        qed
        from finish[OF this] show ?thesis using True False fail(1,2) by (auto simp: Let_def)
      next
        case go: False
        then obtain r where r: "gsub_loop fuel T P R mx ms' (si + 1) False lbe acc count = Inr r"
          "gsub_ok T P R mx False lbe (si + 1) acc count r"
          using Suc.IH[OF fail(4) inv(2) _ _ fuel] inv(3) by fastforce
        have "passes T P lastne si si" using go no by (simp add: passes_def anchored_def)
        from gsub_ok_skip[OF r(2) this] go False fail(1,2) r(1) show ?thesis by (simp add: Let_def)
      qed
    next
      case (match ms' e)
      show ?thesis
      proof (cases "finished (live ms')")
        case nf: False
        have "gsub_error T P R UnfinishedCapture" using nf match(2) assms(2) unfolding gsub_error_def by blast
        then show ?thesis using nf False match(1,3)
          by (simp add: Let_def ebind_def check_captures_ok list_ex_finished gsub_ok_def)
      next
        case fin: True
        have chk: "check_captures ms' = Inr (Inr ())" using fin match(3) by (simp add: check_captures_ok list_ex_finished)
        have h: "hit T P si (live ms') e" using match(2) by (simp add: hit)
        have empty_next: "\<exists>r. gsub_loop fuel T P R mx ms' (si + 1) False (si + 1) (A @ [T ! si]) n = Inr r \<and>
            gsub_ok T P R mx False si (si + 1) A n r" if "si < length T" for A n
          using Suc.IH[OF match(6) _ _ _ fuel, of "si + 1"] that gsub_ok_push[OF _ that] by fastforce
        have end_next: "\<exists>r. gsub_loop fuel T P R mx ms' (si + 1) False l A n = Inr r \<and>
            gsub_ok T P R mx False l (si + 1) A n r" if "l \<le> si" "l \<le> length T" for l A n
          using Suc.IH[OF match(6) _ _ _ fuel, of l] that by fastforce
        show ?thesis
        proof (cases "e = si \<and> lastne")
          case True
          then have "lbe = si" and p: "passes T P lastne si si" using inv(4) h fin by (auto simp: passes_def)
          with True show ?thesis
            using False match(1) chk empty_next[of acc count] end_next[of lbe acc count] inv(2) gsub_ok_skip[OF _ p]
            by (cases "si < length T") (auto simp: Let_def ebind_def)
        next
          case ne: False
          have pre: "slice T lbe si = Inr (take (si - lbe) (drop lbe T))"
            using inv(3) si by (simp add: slice_def)
          let ?pre = "take (si - lbe) (drop lbe T)"
          from match(3,4) show ?thesis
          proof (cases rule: replacement_total[where R = R])
            case (err err)
            have "gsub_error T P R err" using err(2,3) h unfolding gsub_error_def by blast
            moreover have "gsub_loop (Suc fuel) T P R mx ms si lastne lbe acc count = Inr (Inl err)"
              using False match(1) chk ne pre err(1) by (auto simp: Let_def ebind_def)
            ultimately show ?thesis by (simp add: gsub_ok_def)
          next
            case (ok x)
            have eq: "gsub_loop (Suc fuel) T P R mx ms si lastne lbe acc count =
                (if e = si
                 then if si < length T
                      then gsub_loop fuel T P R mx ms' (si + 1) False (si + 1) ((acc @ ?pre @ x) @ [T ! si]) (count + 1)
                      else gsub_loop fuel T P R mx ms' (si + 1) False e (acc @ ?pre @ x) (count + 1)
                 else gsub_loop fuel T P R mx ms' e True e (acc @ ?pre @ x) (count + 1))"
              using False match(1) chk ne pre ok(1) by (simp add: Let_def ebind_def)
            have "\<exists>r. gsub_loop (Suc fuel) T P R mx ms si lastne lbe acc count = Inr r \<and>
                gsub_ok T P R mx (si < e) e (if si = e then si + 1 else e) (acc @ ?pre @ x) (count + 1) r"
            proof (cases "e = si")
              case True
              then show ?thesis unfolding eq
                using empty_next[of "acc @ ?pre @ x" "count + 1"] end_next[of e "acc @ ?pre @ x" "count + 1"] match(5)
                by (cases "si < length T") simp_all
            next
              case lt: False
              then have "length T + 1 - e < fuel" "si < e" "si \<noteq> e" using fuel match(4,5) by arith+
              from Suc.IH[OF match(6) match(5) _ _ this(1), of True] this(2,3) lt show ?thesis unfolding eq by simp
            qed
            moreover have "\<not> (lastne \<and> si = si \<and> e = si)" "\<not> reached mx count" using ne False by auto
            ultimately show ?thesis
              using gsub_ok_segment[OF _ h fin ok(2) passes_to_refl _ match(4,5) refl] by blast
          qed
        qed
      qed
    qed
  qed
qed simp

section \<open>gsub on plain text\<close>

lemma plain_replacement_total:
  obtains (err) err where "(if PERCENT \<in> set R then substitute_plain_bytes acc R full else Inr (Inr (acc @ R))) = Inr (Inl err)"
      "PERCENT \<in> set R" "expand (cap_string T full []) R = None"
  | (ok) x where "(if PERCENT \<in> set R then substitute_plain_bytes acc R full else Inr (Inr (acc @ R))) = Inr (Inr (acc @ x))"
      "if PERCENT \<in> set R then expand (cap_string T full []) R = Some x else x = R"
proof (cases "PERCENT \<in> set R")
  case True
  from subst_loop_expand[OF plain_capture_ok[of full T], of acc 0 R] show ?thesis
    using True err ok by (auto simp: substitute_plain_bytes_def subst_result_def split: option.splits)
qed (use ok in simp)

lemma plain_not_anchored: "plain P \<Longrightarrow> \<not> anchored P"
  by (cases P) (auto simp: plain_def anchored_def pp_start_def is_plain_pattern_def split: if_splits)

lemma gsub_plain_loop_ok:
  assumes "plain P"
  shows "pos \<le> length T \<Longrightarrow> length T + 1 - pos < fuel \<Longrightarrow>
    \<exists>r. gsub_plain_loop fuel T P R mx pos acc count = Inr r \<and> gsub_ok T P R mx lastne pos pos acc count r"
proof (induction fuel arbitrary: pos acc count lastne)
  case (Suc fuel)
  have hit: "hit T P s cs e \<longleftrightarrow> cs = [] \<and> e = s + length P \<and> occurs_at T P s" for s cs e using assms by (simp add: hit_def)
  note first = find_bytes_from[OF Suc.prems(1), of P]
  have pass: "passes T P lastne pos s" if "\<not> occurs_at T P s" for s
    using that plain_not_anchored[OF assms] by (simp add: passes_def hit)
  show ?case
  proof (cases "\<not> reached mx count \<and> find_bytes_in_slice (drop pos T) P \<noteq> None")
    case False
    have "gsub_run T P R mx lastne pos count []"
    proof (cases "reached mx count")
      case f: False
      then have "\<forall>s\<ge>pos. \<not> occurs_at T P s" using False first by (simp add: first_from_def)
      then have "passes_to T P lastne pos (length T + 1)" using pass Suc.prems(1) by (simp add: passes_to_def)
      then show ?thesis unfolding gsub_run.simps by (metis less_add_one)
    qed simp
    from gsub_ok_finish[OF Suc.prems(1) this, of acc] show ?thesis using False by (auto simp: Let_def)
  next
    case True
    then obtain k where k: "find_bytes_in_slice (drop pos T) P = Some k" by blast
    let ?s = "pos + k" and ?e = "pos + k + length P"
    have occ: "occurs_at T P ?s" and no: "\<forall>s. pos \<le> s \<and> s < ?s \<longrightarrow> \<not> occurs_at T P s"
      using first k by (simp_all add: first_from_def)
    then have e: "?e \<le> length T" by (simp add: occurs_at_def)
    have P: "0 < length P" using assms by (simp add: plain_def)
    have to: "passes_to T P lastne pos ?s" using no pass by (simp add: passes_to_def)
    have sl: "slice T pos ?s = Inr (take k (drop pos T))" "slice T ?s ?e = Inr (take (length P) (drop ?s T))"
      using e by (simp_all add: slice_def)
    let ?pre = "take k (drop pos T)" and ?full = "take (length P) (drop ?s T)"
    have eq: "gsub_plain_loop (Suc fuel) T P R mx pos acc count =
        ebind (if PERCENT \<in> set R then substitute_plain_bytes (acc @ ?pre) R ?full else Inr (Inr ((acc @ ?pre) @ R)))
          (\<lambda>acc'. gsub_plain_loop fuel T P R mx ?e acc' (count + 1))"
      using True k sl Suc.prems(1) by (simp add: Let_def)
    have h: "hit T P ?s [] ?e" using occ by (simp add: hit)
    show ?thesis
    proof (cases rule: plain_replacement_total[where R = R and acc = "acc @ ?pre" and full = ?full and T = T])
      case (err err)
      have "expand (cap_string T (take (?e - ?s) (drop ?s T)) []) R = None" using err(3) by simp
      then have "gsub_error T P R err" using err(2) h unfolding gsub_error_def by blast
      then show ?thesis unfolding eq using err(1) by (simp add: ebind_def gsub_ok_def)
    next
      case (ok x)
      have "length T + 1 - ?e < fuel" using Suc.prems(2) P e by arith
      from Suc.IH[OF e this, of "acc @ ?pre @ x" "count + 1" True] obtain r
        where r: "gsub_plain_loop fuel T P R mx ?e (acc @ ?pre @ x) (count + 1) = Inr r"
          "gsub_ok T P R mx True ?e ?e (acc @ ?pre @ x) (count + 1) r" by auto
      have "expanded T R ?s ?e [] x" using ok(2) by (simp add: expanded_def)
      moreover have "gsub_ok T P R mx (?s < ?e) ?e (if ?s = ?e then ?s + 1 else ?e) (acc @ ?pre @ x) (count + 1) r"
        using r(2) P by simp
      moreover have "finished []" "\<not> (lastne \<and> ?s = pos \<and> ?e = ?s)" using P by (auto simp: finished_def)
      ultimately have "gsub_ok T P R mx lastne pos pos acc count r"
        using gsub_ok_segment[OF _ h _ _ to _ _ e] True by simp
      then show ?thesis unfolding eq ok(1) using r(1) by (simp add: ebind_def)
    qed
  qed
qed simp

lemma gsub_returns: "\<exists>r. gsub T P R mx = Inr r \<and> gsub_ok T P R mx False 0 0 [] 0 r"
proof (cases "plain P")
  case True
  then show ?thesis using gsub_plain_loop_ok[OF True, of 0 T "length T + 2" R mx "[]" 0 False]
    by (simp add: gsub_def gsub_plain_def plain_def)
next
  case False
  then have g: "gsub T P R mx = ebind (Inr (validate_pattern P)) (\<lambda>_. gsub_loop (length T + 2) T P R mx mstate_new 0 False 0 [] 0)"
    by (auto simp: gsub_def plain_def)
  show ?thesis
  proof (cases "validate_pattern P")
    case (Inl err)
    then have "gsub_error T P R err" using False by (simp add: gsub_error_def)
    then show ?thesis using Inl by (simp add: g ebind_def gsub_ok_def)
  next
    case (Inr u)
    have "length (captures mstate_new) = LUA_MAXCAPTURES" by (simp add: mstate_new_def)
    from gsub_loop_ok[OF validate_pattern_wfp[OF Inr] False this, of 0 T 0 False "length T + 2" R mx "[]" 0]
    show ?thesis using Inr by (simp add: g ebind_def)
  qed
qed

text \<open>C12. \<open>gsub\<close> never panics and always returns, for every text, pattern, replacement and limit. Its
  result is the text with the matches of one complete scan (\<open>gsub_run\<close>) replaced by the expansion of the
  replacement string and everything between them copied, and the count is their number: the scan replaces the
  first match that it meets, passes over a position only if the pattern does not match there (or matches only
  the empty string where the last match ended), and stops only at the limit, at the end of the text or, for an
  anchored pattern, at the first position without a match. An error is reported only for an invalid pattern, a
  position at which the matcher itself gives up, a match with an open capture, or a replacement string that is
  invalid for some match.\<close>

theorem gsub_correct:
  "\<exists>r. gsub T P R mx = Inr r \<and>
     (case r of
        Inl err \<Rightarrow> gsub_error T P R err
      | Inr (out, n) \<Rightarrow> \<exists>ms. out = assemble T 0 ms \<and> n = length ms \<and> gsub_run T P R mx False 0 0 ms)"
proof -
  obtain r where r: "gsub T P R mx = Inr r" "gsub_ok T P R mx False 0 0 [] 0 r" using gsub_returns by blast
  show ?thesis unfolding r(1) using r(2) by (auto simp: gsub_ok_def split: sum.splits)
qed

section \<open>find\_all\_matches\<close>

fun chained :: "bytes \<Rightarrow> nat \<Rightarrow> match_info list \<Rightarrow> bool" where
  "chained T pos [] \<longleftrightarrow> True"
| "chained T pos (m # ms) \<longleftrightarrow>
     pos \<le> mi_start m \<and> mi_start m \<le> mi_end m \<and> mi_end m \<le> length T \<and> chained T (mi_end m) ms"

definition info_ok :: "bytes \<Rightarrow> bytes \<Rightarrow> match_info \<Rightarrow> bool" where
  "info_ok T P m =
     (if is_plain_pattern P \<and> P \<noteq> []
      then mi_end m = mi_start m + length P \<and> occurs_at T P (mi_start m) \<and> mi_captures m = []
      else \<exists>cs. matches_at T P (mi_start m) cs (mi_end m) \<and> finished cs \<and> mi_captures m = extract_loop cs)"

definition all_ok :: "bytes \<Rightarrow> bytes \<Rightarrow> nat option \<Rightarrow> nat \<Rightarrow> match_info list \<Rightarrow> perr + match_info list \<Rightarrow> bool" where
  "all_ok T P mx pos acc r =
     (case r of
        Inl err \<Rightarrow> True
      | Inr out \<Rightarrow> \<exists>ms. out = acc @ ms \<and> chained T pos ms \<and> list_all (info_ok T P) ms \<and>
          (\<forall>m. mx = Some m \<and> length acc \<le> m \<longrightarrow> length out \<le> m))"

lemma all_ok_done: "all_ok T P mx pos acc (Inr acc)"
  by (auto simp: all_ok_def intro!: exI[of _ "[]"])

lemma chained_mono: "chained T q ms \<Longrightarrow> p \<le> q \<Longrightarrow> chained T p ms"
  by (cases ms) auto

lemma all_ok_mono: "all_ok T P mx q acc r \<Longrightarrow> p \<le> q \<Longrightarrow> all_ok T P mx p acc r"
  by (auto simp: all_ok_def split: sum.splits intro: chained_mono)

lemma all_ok_match:
  assumes "all_ok T P mx (mi_end m) (acc @ [m]) r" "info_ok T P m" "pos \<le> mi_start m"
    "mi_start m \<le> mi_end m" "mi_end m \<le> length T" "\<not> reached mx (length acc)"
  shows "all_ok T P mx pos acc r"
proof (cases r)
  case (Inr out)
  from assms(1) Inr obtain ms where ms: "out = acc @ m # ms" "chained T (mi_end m) ms" "list_all (info_ok T P) ms"
    "\<forall>k. mx = Some k \<and> length (acc @ [m]) \<le> k \<longrightarrow> length out \<le> k"
    by (auto simp: all_ok_def)
  have "\<forall>k. mx = Some k \<and> length acc \<le> k \<longrightarrow> length out \<le> k" using ms(4) assms(6) by (auto simp: reached_def)
  with ms assms show ?thesis unfolding all_ok_def Inr by (auto intro!: exI[of _ "m # ms"])
qed (simp add: all_ok_def)

lemma find_all_loop_ok:
  assumes "wfp P (pp_start P)" "\<not> (is_plain_pattern P \<and> P \<noteq> [])"
  shows "length (captures ms) = LUA_MAXCAPTURES \<Longrightarrow> 2 * (length T + 1 - si) + (if lastne then 1 else 0) < fuel \<Longrightarrow>
    \<exists>r. find_all_loop fuel T P mx ms si lastne acc = Inr r \<and> all_ok T P mx si acc r"
proof (induction fuel arbitrary: ms si lastne acc)
  case (Suc fuel)
  show ?case
  proof (cases "length T < si \<or> reached mx (length acc)")
    case True
    then show ?thesis using all_ok_done by auto
  next
    case False
    then have si: "si \<le> length T" by simp
    have fuel: "2 * (length T + 1 - (si + 1)) + (if False then 1 else 0) < fuel"
      using Suc.prems(2) si by (auto split: if_splits)
    have nxt: "\<exists>r. find_all_loop fuel T P mx ms' (si + 1) False A = Inr r \<and> all_ok T P mx si A r"
      if "length (captures ms') = LUA_MAXCAPTURES" for ms' A
      using Suc.IH[OF that fuel, of A] all_ok_mono by (meson le_add1)
    from Suc.prems(1) si assms(1) show ?thesis
    proof (cases rule: attempt_cases[where d = MAXCCALLS])
      case (error ms' err)
      then show ?thesis using False by (simp add: all_ok_def)
    next
      case (fail ms')
      then show ?thesis using False nxt[OF fail(4), of acc] all_ok_done by (cases "pp_start P = 1 \<or> length T \<le> si") auto
    next
      case (match ms' e)
      show ?thesis
      proof (cases "finished (live ms')")
        case nf: False
        then show ?thesis using False match(1,3)
          by (simp add: ebind_def check_captures_ok list_ex_finished all_ok_def)
      next
        case fin: True
        have chk: "check_captures ms' = Inr (Inr ())" "extract_captures ms' = Inr (extract_loop (live ms'))"
          using fin match(3) by (simp_all add: check_captures_ok extract_captures_ok list_ex_finished)
        show ?thesis
        proof (cases "e = si \<and> lastne")
          case True
          then have "2 * (length T + 1 - si) + (if False then 1 else 0) < fuel" using Suc.prems(2) by simp
          from Suc.IH[OF match(6) this, of acc] nxt[OF match(6), of acc] show ?thesis
            using True False match(1) chk by (cases "si < length T") (auto simp: ebind_def)
        next
          case ne: False
          define m where "m = \<lparr>mi_start = si, mi_end = e, mi_captures = extract_loop (live ms')\<rparr>"
          have eq: "find_all_loop (Suc fuel) T P mx ms si lastne acc =
              (if e = si then if si < length T then find_all_loop fuel T P mx ms' (si + 1) False (acc @ [m])
                  else Inr (Inr (acc @ [m]))
               else find_all_loop fuel T P mx ms' e True (acc @ [m]))"
            using False match(1) chk ne by (simp add: ebind_def m_def)
          have m: "info_ok T P m" "mi_start m = si" "mi_end m = e"
            using match(2) fin assms(2) by (auto simp: info_ok_def m_def)
          have "\<exists>r. find_all_loop (Suc fuel) T P mx ms si lastne acc = Inr r \<and> all_ok T P mx e (acc @ [m]) r"
          proof (cases "e = si")
            case True
            then show ?thesis unfolding eq using nxt[OF match(6), of "acc @ [m]"] all_ok_done
              by (cases "si < length T") auto
          next
            case lt: False
            then have "2 * (length T + 1 - e) + (if True then 1 else 0) < fuel"
              using Suc.prems(2) match(4,5) by (simp split: if_splits)
            from Suc.IH[OF match(6) this] lt show ?thesis unfolding eq by simp
          qed
          moreover have "all_ok T P mx si acc r" if "all_ok T P mx e (acc @ [m]) r" for r
            by (rule all_ok_match[of T P mx m acc r si]) (use that m match(4,5) False in simp_all)
          ultimately show ?thesis by blast
        qed
      qed
    qed
  qed
qed simp

lemma find_all_plain_ok:
  assumes "is_plain_pattern P" "P \<noteq> []"
  shows "length T + 1 - pos < fuel \<Longrightarrow>
    \<exists>r. find_all_plain_loop fuel T P mx pos acc = Inr r \<and> all_ok T P mx pos acc r"
proof (induction fuel arbitrary: pos acc)
  case (Suc fuel)
  show ?case
  proof (cases "pos \<le> length T \<and> \<not> reached mx (length acc) \<and> find_bytes_in_slice (drop pos T) P \<noteq> None")
    case False
    then show ?thesis using all_ok_done by auto
  next
    case True
    then obtain k where k: "find_bytes_in_slice (drop pos T) P = Some k" by blast
    have occ: "occurs_at T P (pos + k)"
      using find_bytes_from[of pos T P] k True by (simp add: first_from_def)
    define m where "m = \<lparr>mi_start = pos + k, mi_end = pos + k + length P, mi_captures = []\<rparr>"
    have m: "info_ok T P m" "mi_end m \<le> length T"
      using occ assms by (simp_all add: info_ok_def m_def occurs_at_def)
    have "length T + 1 - mi_end m < fuel" using Suc.prems m(2) assms(2) by (cases P) (auto simp: m_def)
    from Suc.IH[OF this, of "acc @ [m]"] obtain r
      where r: "find_all_plain_loop fuel T P mx (mi_end m) (acc @ [m]) = Inr r"
        "all_ok T P mx (mi_end m) (acc @ [m]) r" by blast
    then show ?thesis using all_ok_match[OF r(2) m(1), of pos] m(2) True k by (simp add: m_def)
  qed
qed simp

text \<open>\<open>find_all_matches\<close> never panics and always returns (also where it retries an empty match
  at the end of the text); unless it reports an error, it returns matches from \<open>init\<close> on, in
  order and without overlap, at most as many as the limit allows.\<close>

theorem find_all_correct:
  "\<exists>r. find_all_matches T P init mx = Inr r \<and>
     (case r of
        Inl err \<Rightarrow> True
      | Inr ms \<Rightarrow> chained T init ms \<and> list_all (info_ok T P) ms \<and>
          (case mx of Some m \<Rightarrow> length ms \<le> m | None \<Rightarrow> True))"
proof -
  have "\<exists>r. find_all_matches T P init mx = Inr r \<and> all_ok T P mx init [] r"
  proof (cases "is_plain_pattern P \<and> P \<noteq> []")
    case True
    then show ?thesis using find_all_plain_ok[of P T init "length T + 2" mx "[]"]
      by (simp add: find_all_matches_def find_all_matches_plain_def)
  next
    case False
    show ?thesis
    proof (cases "validate_pattern P")
      case (Inl err)
      then show ?thesis using False by (auto simp: find_all_matches_def ebind_def all_ok_def)
    next
      case (Inr u)
      have "length (captures mstate_new) = LUA_MAXCAPTURES" by (simp add: mstate_new_def)
      from find_all_loop_ok[OF validate_pattern_wfp[OF Inr] False this, of T init False "2 * length T + 3" mx "[]"]
      show ?thesis using False Inr by (auto simp: find_all_matches_def ebind_def)
    qed
  qed
  then obtain r where r: "find_all_matches T P init mx = Inr r" "all_ok T P mx init [] r" by blast
  show ?thesis unfolding r(1) using r(2) by (auto simp: all_ok_def split: sum.splits option.splits)
qed

section \<open>Anchored patterns\<close>

lemma gsub_anchored_example:
  "gsub [0x61, 0x61, 0x61] [CARET, 0x61] [0x78] None = Inr (Inr ([0x78, 0x78, 0x78], 3))"
proof -
  let ?T = "[0x61, 0x61, 0x61] :: bytes" and ?P = "[CARET, 0x61] :: bytes"
  have S: "match_impl ?T ?P MAXCCALLS = match_impl ?T ?P (Suc 199)" by (simp add: MAXCCALLS_def)
  have pps: "pp_start ?P = 1" by (simp add: pp_start_def)
  have m: "match_impl ?T ?P MAXCCALLS (mstate_reset ms) si 1 =
      Inr (if si < 3 then Some (si + 1) else None, mstate_reset ms)" if "si \<le> 3" for ms si
  proof -
    have si: "si < 3 \<Longrightarrow> ?T ! si = 0x61" by (auto simp: nth_Cons' numeral_3_eq_3 less_Suc_eq)
    have "merror (mstate_reset ms) = None" by (simp add: mstate_reset_def)
    then show ?thesis
      unfolding S match_impl.simps
      using si
      by (simp add: match_inner.simps[of _ ?T ?P _ si] match_inner.simps[of _ ?T ?P _ "Suc si"]
          element_end_def singlematch_def)
  qed
  have ok: "check_captures (mstate_reset ms) = Inr (Inr ())" for ms
    by (simp add: check_captures_def live_captures_def slice_def mstate_reset_def)
  have r: "mstate_reset (mstate_reset ms) = mstate_reset ms" for ms by (simp add: mstate_reset_def)
  have v: "validate_pattern ?P = Inr ()"
    unfolding validate_pattern_def pps
    by (simp add: validate_loop.simps[of ?P "Suc 0"] validate_loop.simps[of ?P "Suc (Suc 0)"] validate_element_def)
  have e: "merror (mstate_reset ms) = None" for ms by (simp add: mstate_reset_def)
  have np: "\<not> is_plain_pattern ?P" by (simp add: is_plain_pattern_def)
  have fuel: "length ?T + 2 = Suc (Suc (Suc (Suc (Suc 0))))" by simp
  have "PERCENT \<notin> set [0x78 :: u8]" by simp
  then show ?thesis
    unfolding gsub_def fuel
    by (simp add: np v ebind_def pps[simplified] m[simplified] ok slice_def reached_def e
        numeral_3_eq_3 numeral_2_eq_2 del: One_nat_def)
qed

lemma caret_a_matches:
  "matches_at T [CARET, 0x61] si cs e \<longleftrightarrow> si < length T \<and> T ! si = 0x61 \<and> cs = [] \<and> e = si + 1"
proof
  let ?P = "[CARET, 0x61] :: bytes"
  have last: "cs' = cs \<and> e' = si'" if "pmatch T ?P cs si' 2 cs' e'" for cs si' cs' e'
    using that by (cases rule: pmatch.cases) (auto simp: ordinary_def)
  assume "matches_at T ?P si cs e"
  then have "pmatch T ?P [] si 1 cs e" by (simp add: matches_at_def pp_start_def)
  then show "si < length T \<and> T ! si = 0x61 \<and> cs = [] \<and> e = si + 1"
  proof (cases rule: pmatch.cases)
    case (pm_element ep n)
    have ep: "ep = 2" using pm_element(2) by (simp add: element_end_def)
    then have "n = 1" using pm_element(3) by (simp add: rep_allowed_def)
    with pm_element(4,5) ep last[of "[]" "si + 1" cs e] show ?thesis
      by (auto simp: reps_def elem_def singlematch_def after_suffix_def)
  qed (auto simp: ordinary_def)
next
  let ?P = "[CARET, 0x61] :: bytes"
  assume a: "si < length T \<and> T ! si = 0x61 \<and> cs = [] \<and> e = si + 1"
  have el: "ordinary ?P 1" "element_end ?P 1 = Inr 2" "rep_allowed ?P 2 1"
    by (simp_all add: ordinary_def element_end_def rep_allowed_def)
  have "after_suffix ?P 2 = 2" by (simp add: after_suffix_def)
  then have "pmatch T ?P [] (si + 1) (after_suffix ?P 2) [] (si + 1)" by (simp add: pm_end)
  moreover have "reps T ?P 1 si 1" using a by (simp add: reps_def elem_def singlematch_def)
  ultimately have "pmatch T ?P [] si 1 [] (si + 1)" by (intro pm_element[OF el])
  then show "matches_at T ?P si cs e" using a by (simp add: matches_at_def pp_start_def)
qed

text \<open>C32. \<open>gsub\<close> does not stop after the first match of an anchored pattern: it tries the pattern again
  at the end of each match. Whenever an anchored pattern matches a non-empty beginning of the text, in one
  way only, and matches again, not empty, where that match ends, a successful \<open>gsub\<close> without a limit replaces
  at least two matches, although only the first is at the start of the text.\<close>

theorem gsub_anchored_repeats:
  assumes "anchored P" and "gsub T P R None = Inr (Inr (out, n))"
    and "matches_at T P 0 cs e" and "\<And>cs' e'. matches_at T P 0 cs' e' \<Longrightarrow> e' = e" and "0 < e"
    and "matches_at T P e cs2 e2" and "\<And>cs' e'. matches_at T P e cs' e' \<Longrightarrow> e < e'"
  shows "2 \<le> n"
proof -
  have hit: "hit T P = matches_at T P" using plain_not_anchored assms(1) by (auto simp: hit_def fun_eq_iff)
  obtain ms where ms: "n = length ms" "gsub_run T P R None False 0 0 ms"
    using gsub_returns[of T P R None] assms(2) by (auto simp: gsub_ok_def)
  have stay: "t = si" if "passes_to T P l si t" "\<And>cs. l \<Longrightarrow> \<not> matches_at T P si cs si" for l si t
  proof (rule ccontr)
    assume "t \<noteq> si"
    then have "passes T P l si si" using that(1) by (simp add: passes_to_def)
    then show False using that(2) assms(1) by (auto simp: passes_def hit)
  qed
  have more: "xs \<noteq> []" if xs: "gsub_run T P R None l si k xs" "\<And>cs. l \<Longrightarrow> \<not> matches_at T P si cs si"
    "si \<le> length T" "matches_at T P si cs' e'" for xs l si k cs' e'
  proof
    assume "xs = []"
    then obtain t where t: "passes_to T P l si t" "length T < t \<or> (\<forall>cs e. \<not> matches_at T P t cs e)"
      using xs(1) by (auto simp: reached_def hit)
    have "t = si" by (rule stay[OF t(1) xs(2)])
    then show False using t(2) xs(3,4) by auto
  qed
  have "ms \<noteq> []" by (rule more[OF ms(2) _ _ assms(3)]) simp_all
  then obtain s e' r ms' where m: "ms = (s, e', r) # ms'" by (cases ms) auto
  then have "s = 0" "\<exists>cs. matches_at T P s cs e'" "e' \<le> length T"
    "gsub_run T P R None (s < e') (if s = e' then s + 1 else e') 1 ms'"
    using ms(2) stay[of False 0 s] by (auto simp: hit)
  then have g: "gsub_run T P R None True e 1 ms'" "e \<le> length T" using assms(4,5) by (auto split: if_splits)
  have "ms' \<noteq> []" by (rule more[OF g(1) _ g(2) assms(6)]) (use assms(7) in blast)
  then show ?thesis using ms(1) m by (cases ms') auto
qed

theorem gsub_anchored_repeats_witness:
  "gsub [0x61, 0x61, 0x61] [CARET, 0x61] [0x78] None = Inr (Inr ([0x78, 0x78, 0x78], 3)) \<and> (2 :: nat) \<le> 3"
proof (rule conjI)
  show "gsub [0x61, 0x61, 0x61] [CARET, 0x61] [0x78] None = Inr (Inr ([0x78, 0x78, 0x78], 3))" by (rule gsub_anchored_example)
  show "(2 :: nat) \<le> 3"
    by (rule gsub_anchored_repeats[OF _ gsub_anchored_example, of "[]" 1 "[]" 2])
      (simp_all add: anchored_def pp_start_def caret_a_matches)
qed

end
