(* ===== verification/LJ_Bytecode.thy ===== *)
theory LJ_Bytecode
  imports LJ_Prelude
begin

text \<open>
  The bytecode format (\<open>compiler/bc.rs\<close>): operand modes, opcodes, the instruction definition
  table, and the packing of an instruction into 32 bits. The properties are the round trips of
  the packed fields and of the packed operand modes.
\<close>

section \<open>Opcodes and operand modes\<close>

definition BCMAX_A :: u32 where "BCMAX_A = 0xff"
definition BCMAX_B :: u32 where "BCMAX_B = 0xff"
definition BCMAX_C :: u32 where "BCMAX_C = 0xff"
definition BCMAX_D :: u32 where "BCMAX_D = 0xffff"
definition BCBIAS_J :: u32 where "BCBIAS_J = 0x8000"
definition NO_REG :: u32 where "NO_REG = BCMAX_A"
definition NO_JMP :: u32 where "NO_JMP = NOT 0"

datatype bcmode =
    MNone | MDst | MBase | MVar | MRbase | MUv | MLit | MLits | MPri | MNum | MStr | MTab |
    MFunc | MJump | MCdata

primrec mode_code :: "bcmode \<Rightarrow> u16" where
  "mode_code MNone = 0"
| "mode_code MDst = 1"
| "mode_code MBase = 2"
| "mode_code MVar = 3"
| "mode_code MRbase = 4"
| "mode_code MUv = 5"
| "mode_code MLit = 6"
| "mode_code MLits = 7"
| "mode_code MPri = 8"
| "mode_code MNum = 9"
| "mode_code MStr = 10"
| "mode_code MTab = 11"
| "mode_code MFunc = 12"
| "mode_code MJump = 13"
| "mode_code MCdata = 14"

datatype (plugins only: size) bcop =
    BC_ISLT | BC_ISGE | BC_ISLE | BC_ISGT | BC_ISEQV | BC_ISNEV | BC_ISEQS | BC_ISNES |
    BC_ISEQN | BC_ISNEN | BC_ISEQP | BC_ISNEP | BC_ISTC | BC_ISFC | BC_IST | BC_ISF |
    BC_ISTYPE | BC_ISNUM | BC_MOV | BC_NOT | BC_UNM | BC_LEN | BC_ADDVN | BC_SUBVN |
    BC_MULVN | BC_DIVVN | BC_MODVN | BC_ADDNV | BC_SUBNV | BC_MULNV | BC_DIVNV | BC_MODNV |
    BC_ADDVV | BC_SUBVV | BC_MULVV | BC_DIVVV | BC_MODVV | BC_POW | BC_CAT | BC_KSTR |
    BC_KCDATA | BC_KSHORT | BC_KNUM | BC_KPRI | BC_KNIL | BC_UGET | BC_USETV | BC_USETS |
    BC_USETN | BC_USETP | BC_UCLO | BC_FNEW | BC_TNEW | BC_TDUP | BC_GGET | BC_GSET |
    BC_TGETV | BC_TGETS | BC_TGETB | BC_TGETR | BC_TSETV | BC_TSETS | BC_TSETB | BC_TSETM |
    BC_TSETR | BC_CALLM | BC_CALL | BC_CALLMT | BC_CALLT | BC_ITERC | BC_ITERN | BC_VARG |
    BC_ISNEXT | BC_RETM | BC_RET | BC_RET0 | BC_RET1 | BC_FORI | BC_JFORI | BC_FORL |
    BC_IFORL | BC_JFORL | BC_ITERL | BC_IITERL | BC_JITERL | BC_LOOP | BC_ILOOP | BC_JLOOP |
    BC_JMP | BC_BNOT | BC_BAND | BC_BOR | BC_BXOR | BC_BSHL | BC_BSHR | BC_BSAR | BC_FUNCF |
    BC_IFUNCF | BC_JFUNCF | BC_FUNCV | BC_IFUNCV | BC_JFUNCV | BC_FUNCC | BC_FUNCCW

text \<open>The instruction definition table: opcode, mode of A, of B, of C or D.\<close>

definition bcdef :: "(bcop \<times> bcmode \<times> bcmode \<times> bcmode) list" where
  "bcdef = [
    (BC_ISLT, MVar, MNone, MVar),
    (BC_ISGE, MVar, MNone, MVar),
    (BC_ISLE, MVar, MNone, MVar),
    (BC_ISGT, MVar, MNone, MVar),
    (BC_ISEQV, MVar, MNone, MVar),
    (BC_ISNEV, MVar, MNone, MVar),
    (BC_ISEQS, MVar, MNone, MStr),
    (BC_ISNES, MVar, MNone, MStr),
    (BC_ISEQN, MVar, MNone, MNum),
    (BC_ISNEN, MVar, MNone, MNum),
    (BC_ISEQP, MVar, MNone, MPri),
    (BC_ISNEP, MVar, MNone, MPri),
    (BC_ISTC, MDst, MNone, MVar),
    (BC_ISFC, MDst, MNone, MVar),
    (BC_IST, MNone, MNone, MVar),
    (BC_ISF, MNone, MNone, MVar),
    (BC_ISTYPE, MVar, MNone, MLit),
    (BC_ISNUM, MVar, MNone, MLit),
    (BC_MOV, MDst, MNone, MVar),
    (BC_NOT, MDst, MNone, MVar),
    (BC_UNM, MDst, MNone, MVar),
    (BC_LEN, MDst, MNone, MVar),
    (BC_ADDVN, MDst, MVar, MNum),
    (BC_SUBVN, MDst, MVar, MNum),
    (BC_MULVN, MDst, MVar, MNum),
    (BC_DIVVN, MDst, MVar, MNum),
    (BC_MODVN, MDst, MVar, MNum),
    (BC_ADDNV, MDst, MVar, MNum),
    (BC_SUBNV, MDst, MVar, MNum),
    (BC_MULNV, MDst, MVar, MNum),
    (BC_DIVNV, MDst, MVar, MNum),
    (BC_MODNV, MDst, MVar, MNum),
    (BC_ADDVV, MDst, MVar, MVar),
    (BC_SUBVV, MDst, MVar, MVar),
    (BC_MULVV, MDst, MVar, MVar),
    (BC_DIVVV, MDst, MVar, MVar),
    (BC_MODVV, MDst, MVar, MVar),
    (BC_POW, MDst, MVar, MVar),
    (BC_CAT, MDst, MRbase, MRbase),
    (BC_KSTR, MDst, MNone, MStr),
    (BC_KCDATA, MDst, MNone, MCdata),
    (BC_KSHORT, MDst, MNone, MLits),
    (BC_KNUM, MDst, MNone, MNum),
    (BC_KPRI, MDst, MNone, MPri),
    (BC_KNIL, MBase, MNone, MBase),
    (BC_UGET, MDst, MNone, MUv),
    (BC_USETV, MUv, MNone, MVar),
    (BC_USETS, MUv, MNone, MStr),
    (BC_USETN, MUv, MNone, MNum),
    (BC_USETP, MUv, MNone, MPri),
    (BC_UCLO, MRbase, MNone, MJump),
    (BC_FNEW, MDst, MNone, MFunc),
    (BC_TNEW, MDst, MNone, MLit),
    (BC_TDUP, MDst, MNone, MTab),
    (BC_GGET, MDst, MNone, MStr),
    (BC_GSET, MVar, MNone, MStr),
    (BC_TGETV, MDst, MVar, MVar),
    (BC_TGETS, MDst, MVar, MStr),
    (BC_TGETB, MDst, MVar, MLit),
    (BC_TGETR, MDst, MVar, MVar),
    (BC_TSETV, MVar, MVar, MVar),
    (BC_TSETS, MVar, MVar, MStr),
    (BC_TSETB, MVar, MVar, MLit),
    (BC_TSETM, MBase, MNone, MNum),
    (BC_TSETR, MVar, MVar, MVar),
    (BC_CALLM, MBase, MLit, MLit),
    (BC_CALL, MBase, MLit, MLit),
    (BC_CALLMT, MBase, MNone, MLit),
    (BC_CALLT, MBase, MNone, MLit),
    (BC_ITERC, MBase, MLit, MLit),
    (BC_ITERN, MBase, MLit, MLit),
    (BC_VARG, MBase, MLit, MLit),
    (BC_ISNEXT, MBase, MNone, MJump),
    (BC_RETM, MBase, MNone, MLit),
    (BC_RET, MRbase, MNone, MLit),
    (BC_RET0, MRbase, MNone, MLit),
    (BC_RET1, MRbase, MNone, MLit),
    (BC_FORI, MBase, MNone, MJump),
    (BC_JFORI, MBase, MNone, MJump),
    (BC_FORL, MBase, MNone, MJump),
    (BC_IFORL, MBase, MNone, MJump),
    (BC_JFORL, MBase, MNone, MLit),
    (BC_ITERL, MBase, MNone, MJump),
    (BC_IITERL, MBase, MNone, MJump),
    (BC_JITERL, MBase, MNone, MLit),
    (BC_LOOP, MRbase, MNone, MJump),
    (BC_ILOOP, MRbase, MNone, MJump),
    (BC_JLOOP, MRbase, MNone, MLit),
    (BC_JMP, MRbase, MNone, MJump),
    (BC_BNOT, MDst, MNone, MVar),
    (BC_BAND, MDst, MVar, MVar),
    (BC_BOR, MDst, MVar, MVar),
    (BC_BXOR, MDst, MVar, MVar),
    (BC_BSHL, MDst, MVar, MVar),
    (BC_BSHR, MDst, MVar, MVar),
    (BC_BSAR, MDst, MVar, MVar),
    (BC_FUNCF, MRbase, MNone, MNone),
    (BC_IFUNCF, MRbase, MNone, MNone),
    (BC_JFUNCF, MRbase, MNone, MLit),
    (BC_FUNCV, MRbase, MNone, MNone),
    (BC_IFUNCV, MRbase, MNone, MNone),
    (BC_JFUNCV, MRbase, MNone, MLit),
    (BC_FUNCC, MRbase, MNone, MNone),
    (BC_FUNCCW, MRbase, MNone, MNone)]"

definition BC_OPS :: "bcop list" where
  "BC_OPS = map fst bcdef"

definition BC_MAX :: nat where
  "BC_MAX = length bcdef"

primrec op_code :: "bcop \<Rightarrow> u32" where
  "op_code BC_ISLT = 0"
| "op_code BC_ISGE = 1"
| "op_code BC_ISLE = 2"
| "op_code BC_ISGT = 3"
| "op_code BC_ISEQV = 4"
| "op_code BC_ISNEV = 5"
| "op_code BC_ISEQS = 6"
| "op_code BC_ISNES = 7"
| "op_code BC_ISEQN = 8"
| "op_code BC_ISNEN = 9"
| "op_code BC_ISEQP = 10"
| "op_code BC_ISNEP = 11"
| "op_code BC_ISTC = 12"
| "op_code BC_ISFC = 13"
| "op_code BC_IST = 14"
| "op_code BC_ISF = 15"
| "op_code BC_ISTYPE = 16"
| "op_code BC_ISNUM = 17"
| "op_code BC_MOV = 18"
| "op_code BC_NOT = 19"
| "op_code BC_UNM = 20"
| "op_code BC_LEN = 21"
| "op_code BC_ADDVN = 22"
| "op_code BC_SUBVN = 23"
| "op_code BC_MULVN = 24"
| "op_code BC_DIVVN = 25"
| "op_code BC_MODVN = 26"
| "op_code BC_ADDNV = 27"
| "op_code BC_SUBNV = 28"
| "op_code BC_MULNV = 29"
| "op_code BC_DIVNV = 30"
| "op_code BC_MODNV = 31"
| "op_code BC_ADDVV = 32"
| "op_code BC_SUBVV = 33"
| "op_code BC_MULVV = 34"
| "op_code BC_DIVVV = 35"
| "op_code BC_MODVV = 36"
| "op_code BC_POW = 37"
| "op_code BC_CAT = 38"
| "op_code BC_KSTR = 39"
| "op_code BC_KCDATA = 40"
| "op_code BC_KSHORT = 41"
| "op_code BC_KNUM = 42"
| "op_code BC_KPRI = 43"
| "op_code BC_KNIL = 44"
| "op_code BC_UGET = 45"
| "op_code BC_USETV = 46"
| "op_code BC_USETS = 47"
| "op_code BC_USETN = 48"
| "op_code BC_USETP = 49"
| "op_code BC_UCLO = 50"
| "op_code BC_FNEW = 51"
| "op_code BC_TNEW = 52"
| "op_code BC_TDUP = 53"
| "op_code BC_GGET = 54"
| "op_code BC_GSET = 55"
| "op_code BC_TGETV = 56"
| "op_code BC_TGETS = 57"
| "op_code BC_TGETB = 58"
| "op_code BC_TGETR = 59"
| "op_code BC_TSETV = 60"
| "op_code BC_TSETS = 61"
| "op_code BC_TSETB = 62"
| "op_code BC_TSETM = 63"
| "op_code BC_TSETR = 64"
| "op_code BC_CALLM = 65"
| "op_code BC_CALL = 66"
| "op_code BC_CALLMT = 67"
| "op_code BC_CALLT = 68"
| "op_code BC_ITERC = 69"
| "op_code BC_ITERN = 70"
| "op_code BC_VARG = 71"
| "op_code BC_ISNEXT = 72"
| "op_code BC_RETM = 73"
| "op_code BC_RET = 74"
| "op_code BC_RET0 = 75"
| "op_code BC_RET1 = 76"
| "op_code BC_FORI = 77"
| "op_code BC_JFORI = 78"
| "op_code BC_FORL = 79"
| "op_code BC_IFORL = 80"
| "op_code BC_JFORL = 81"
| "op_code BC_ITERL = 82"
| "op_code BC_IITERL = 83"
| "op_code BC_JITERL = 84"
| "op_code BC_LOOP = 85"
| "op_code BC_ILOOP = 86"
| "op_code BC_JLOOP = 87"
| "op_code BC_JMP = 88"
| "op_code BC_BNOT = 89"
| "op_code BC_BAND = 90"
| "op_code BC_BOR = 91"
| "op_code BC_BXOR = 92"
| "op_code BC_BSHL = 93"
| "op_code BC_BSHR = 94"
| "op_code BC_BSAR = 95"
| "op_code BC_FUNCF = 96"
| "op_code BC_IFUNCF = 97"
| "op_code BC_JFUNCF = 98"
| "op_code BC_FUNCV = 99"
| "op_code BC_IFUNCV = 100"
| "op_code BC_JFUNCV = 101"
| "op_code BC_FUNCC = 102"
| "op_code BC_FUNCCW = 103"

definition from_u32 :: "u32 \<Rightarrow> panic + bcop" where
  "from_u32 op = (if unat op < BC_MAX then Inr (BC_OPS ! unat op) else Inl (AssertPanic ''bad op''))"

definition op_offset :: "bcop \<Rightarrow> int \<Rightarrow> panic + bcop" where
  "op_offset o' delta = from_u32 (word_of_int (uint (op_code o') + delta))"

section \<open>Instruction words\<close>

type_synonym bcins = u32

definition bc_op :: "bcins \<Rightarrow> panic + bcop" where "bc_op i = from_u32 (i AND 0xff)"
definition bc_a :: "bcins \<Rightarrow> u32" where "bc_a i = drop_bit 8 i AND 0xff"
definition bc_b :: "bcins \<Rightarrow> u32" where "bc_b i = drop_bit 24 i"
definition bc_c :: "bcins \<Rightarrow> u32" where "bc_c i = drop_bit 16 i AND 0xff"
definition bc_d :: "bcins \<Rightarrow> u32" where "bc_d i = drop_bit 16 i"
definition bc_j :: "bcins \<Rightarrow> int" where "bc_j i = uint (bc_d i) - uint BCBIAS_J"

definition setbc_op :: "bcins \<Rightarrow> u32 \<Rightarrow> bcins" where
  "setbc_op p x = (p AND NOT 0xff) OR (x AND 0xff)"
definition setbc_a :: "bcins \<Rightarrow> u32 \<Rightarrow> bcins" where
  "setbc_a p x = (p AND NOT 0xff00) OR push_bit 8 (x AND 0xff)"
definition setbc_b :: "bcins \<Rightarrow> u32 \<Rightarrow> bcins" where
  "setbc_b p x = (p AND 0x00ffffff) OR push_bit 24 (x AND 0xff)"
definition setbc_c :: "bcins \<Rightarrow> u32 \<Rightarrow> bcins" where
  "setbc_c p x = (p AND NOT 0x00ff0000) OR push_bit 16 (x AND 0xff)"
definition setbc_d :: "bcins \<Rightarrow> u32 \<Rightarrow> bcins" where
  "setbc_d p x = (p AND 0xffff) OR push_bit 16 (x AND 0xffff)"
definition setbc_j :: "bcins \<Rightarrow> int \<Rightarrow> bcins" where
  "setbc_j p x = setbc_d p (word_of_int (x + uint BCBIAS_J))"

definition bcins_abc :: "bcop \<Rightarrow> u32 \<Rightarrow> u32 \<Rightarrow> u32 \<Rightarrow> bcins" where
  "bcins_abc o' a b c = ((op_code o' OR push_bit 8 a) OR push_bit 24 b) OR push_bit 16 c"
definition bcins_ad :: "bcop \<Rightarrow> u32 \<Rightarrow> u32 \<Rightarrow> bcins" where
  "bcins_ad o' a d = (op_code o' OR push_bit 8 a) OR push_bit 16 d"
definition bcins_aj :: "bcop \<Rightarrow> u32 \<Rightarrow> int \<Rightarrow> bcins" where
  "bcins_aj o' a j = bcins_ad o' a (word_of_int (j + uint BCBIAS_J))"

section \<open>Packed operand modes\<close>

definition BC_MODE :: "u16 list" where
  "BC_MODE = map (\<lambda>(o', ma, mb, mc).
     (mode_code ma OR push_bit 3 (mode_code mb)) OR push_bit 7 (mode_code mc)) bcdef"

definition mode_entry :: "bcop \<Rightarrow> panic + u16" where
  "mode_entry o' = idx_panic BC_MODE (unat (op_code o'))"

definition bcmode_a :: "bcop \<Rightarrow> panic + u32" where
  "bcmode_a o' = rbind (mode_entry o') (\<lambda>m. Inr (ucast (m AND 7)))"
definition bcmode_b :: "bcop \<Rightarrow> panic + u32" where
  "bcmode_b o' = rbind (mode_entry o') (\<lambda>m. Inr (ucast (drop_bit 3 m AND 15)))"
definition bcmode_c :: "bcop \<Rightarrow> panic + u32" where
  "bcmode_c o' = rbind (mode_entry o') (\<lambda>m. Inr (ucast (drop_bit 7 m AND 15)))"

definition bc_isret :: "bcop \<Rightarrow> bool" where
  "bc_isret o' \<longleftrightarrow> o' \<in> {BC_RETM, BC_RET, BC_RET0, BC_RET1}"
definition bc_isret_or_tail :: "bcop \<Rightarrow> bool" where
  "bc_isret_or_tail o' \<longleftrightarrow> o' \<in> {BC_CALLMT, BC_CALLT} \<or> bc_isret o'"

definition FORL_IDX :: u32 where "FORL_IDX = 0"
definition FORL_STOP :: u32 where "FORL_STOP = 1"
definition FORL_STEP :: u32 where "FORL_STEP = 2"
definition FORL_EXT :: u32 where "FORL_EXT = 3"

section \<open>The order of the opcodes\<close>

lemma BC_MAX_eq [simp]: "BC_MAX = 104"
  by (simp add: BC_MAX_def bcdef_def)

lemma op_codes: "map op_code BC_OPS = map word_of_nat [0..<BC_MAX]"
  by (simp add: BC_OPS_def bcdef_def upt_conv_Cons)

lemma op_in_table: "o' \<in> set BC_OPS"
  by (cases o') (simp_all add: BC_OPS_def bcdef_def)

lemma op_at_code:
  "unat (op_code o') < BC_MAX \<and> BC_OPS ! unat (op_code o') = o'"
proof -
  have len: "length BC_OPS = BC_MAX" by (simp add: BC_OPS_def BC_MAX_def del: BC_MAX_eq)
  have code: "op_code (BC_OPS ! i) = word_of_nat i" if "i < BC_MAX" for i
    using arg_cong[OF op_codes, of "\<lambda>xs. xs ! i"] that len by simp
  obtain i where "i < BC_MAX" "o' = BC_OPS ! i" using op_in_table[of o'] len by (metis in_set_conv_nth)
  then show ?thesis using code[of i] unat_word_of_nat_less[of 7 i, where 'a = 32] by simp
qed

lemma op_code_small: "unat (op_code o') < 2 ^ 8"
  using op_at_code[of o'] by simp

section \<open>Fields\<close>

lemma and_masks:
  "(x :: u32) AND 0xff = take_bit 8 x" "(x :: u32) AND 0xffff = take_bit 16 x"
  "(x :: u32) AND 0x00ffffff = take_bit 24 x"
  by (simp_all add: take_bit_eq_mask mask_eq_exp_minus_1)

lemma and_masks16:
  "(x :: u16) AND 7 = take_bit 3 x" "(x :: u16) AND 15 = take_bit 4 x"
  by (simp_all add: take_bit_eq_mask mask_eq_exp_minus_1)

lemma byte_small: "(x :: u32) \<le> 0xff \<Longrightarrow> unat x < 2 ^ 8"
  by (simp add: word_le_nat_alt)

lemma half_small: "(x :: u32) \<le> 0xffff \<Longrightarrow> unat x < 2 ^ 16"
  by (simp add: word_le_nat_alt)

lemma fields_abc:
  fixes o' a b c :: u32
  assumes "unat o' < 2 ^ 8" "unat a < 2 ^ 8" "unat b < 2 ^ 8" "unat c < 2 ^ 8"
  defines "i \<equiv> ((o' OR push_bit 8 a) OR push_bit 24 b) OR push_bit 16 c"
  shows "take_bit 8 i = o'" "take_bit 8 (drop_bit 8 i) = a" "drop_bit 24 i = b" "take_bit 8 (drop_bit 16 i) = c"
proof -
  have i: "i = ((take_bit 8 o' OR push_bit 8 (take_bit 8 a)) OR push_bit 24 (take_bit 8 b)) OR push_bit 16 (take_bit 8 c)"
    using assms by (simp add: take_bit_word_self)
  have "take_bit 8 i = take_bit 8 o'" "take_bit 8 (drop_bit 8 i) = take_bit 8 a"
    "drop_bit 24 i = take_bit 8 b" "take_bit 8 (drop_bit 16 i) = take_bit 8 c"
    unfolding i by (rule bit_word_eqI, auto simp: bit_simps)+
  then show "take_bit 8 i = o'" "take_bit 8 (drop_bit 8 i) = a" "drop_bit 24 i = b" "take_bit 8 (drop_bit 16 i) = c"
    using assms(1-4) by (simp_all add: take_bit_word_self)
qed

lemma fields_ad:
  fixes o' a d :: u32
  assumes "unat o' < 2 ^ 8" "unat a < 2 ^ 8" "unat d < 2 ^ 16"
  defines "i \<equiv> (o' OR push_bit 8 a) OR push_bit 16 d"
  shows "take_bit 8 i = o'" "take_bit 8 (drop_bit 8 i) = a" "drop_bit 16 i = d"
proof -
  have i: "i = (take_bit 8 o' OR push_bit 8 (take_bit 8 a)) OR push_bit 16 (take_bit 16 d)"
    using assms by (simp add: take_bit_word_self)
  have "take_bit 8 i = take_bit 8 o'" "take_bit 8 (drop_bit 8 i) = take_bit 8 a" "drop_bit 16 i = take_bit 16 d"
    unfolding i by (rule bit_word_eqI, auto simp: bit_simps)+
  then show "take_bit 8 i = o'" "take_bit 8 (drop_bit 8 i) = a" "drop_bit 16 i = d"
    using assms(1-3) by (simp_all add: take_bit_word_self)
qed

lemma from_op_code: "from_u32 (op_code o') = Inr o'"
  using op_at_code[of o'] by (simp add: from_u32_def)

lemma biased_jump:
  assumes "- 0x8000 \<le> j" "j \<le> 0x7fff"
  shows "uint (word_of_int (j + 0x8000) :: u32) = j + 0x8000" "unat (word_of_int (j + 0x8000) :: u32) < 2 ^ 16"
proof -
  have "uint (word_of_int (j + 0x8000) :: u32) = (j + 0x8000) mod 2 ^ 32"
    by (simp only: uint_word_of_int) simp
  also have "\<dots> = j + 0x8000" using assms by (intro mod_pos_pos_trivial) auto
  finally show u: "uint (word_of_int (j + 0x8000) :: u32) = j + 0x8000" .
  show "unat (word_of_int (j + 0x8000) :: u32) < 2 ^ 16"
    using u assms by (simp add: unat_eq_nat_uint)
qed

text \<open>C27. Assembling an instruction and reading its fields back gives the operands: opcode, A, B
  and C in the three-operand format, A and D in the two-operand format, and the signed jump
  distance in the biased format, for all operands within the field widths.\<close>

theorem bcins_roundtrip:
  assumes "a \<le> BCMAX_A" and "b \<le> BCMAX_B" and "c \<le> BCMAX_C" and "d \<le> BCMAX_D"
    and "- 0x8000 \<le> j" and "j \<le> 0x7fff"
  shows "bc_op (bcins_abc o' a b c) = Inr o' \<and> bc_a (bcins_abc o' a b c) = a \<and>
      bc_b (bcins_abc o' a b c) = b \<and> bc_c (bcins_abc o' a b c) = c \<and>
      bc_op (bcins_ad o' a d) = Inr o' \<and> bc_a (bcins_ad o' a d) = a \<and> bc_d (bcins_ad o' a d) = d \<and>
      bc_op (bcins_aj o' a j) = Inr o' \<and> bc_a (bcins_aj o' a j) = a \<and> bc_j (bcins_aj o' a j) = j"
proof -
  note small = byte_small[OF assms(1)[unfolded BCMAX_A_def]] byte_small[OF assms(2)[unfolded BCMAX_B_def]]
    byte_small[OF assms(3)[unfolded BCMAX_C_def]] half_small[OF assms(4)[unfolded BCMAX_D_def]]
  note abc = fields_abc[OF op_code_small[of o'] small(1,2,3)]
  note ad = fields_ad[OF op_code_small[of o'] small(1,4)]
  note aj = fields_ad[OF op_code_small[of o'] small(1) biased_jump(2)[OF assms(5,6)]]
  show ?thesis
    using abc ad aj biased_jump(1)[OF assms(5,6)]
    by (simp add: bc_op_def bc_a_def bc_b_def bc_c_def bc_d_def bc_j_def bcins_abc_def bcins_ad_def
        bcins_aj_def and_masks from_op_code BCBIAS_J_def)
qed

theorem bcins_roundtrip_witness:
  "(3::u32) \<le> BCMAX_A \<and> (7::u32) \<le> BCMAX_D \<and> - 0x8000 \<le> (- 5 :: int) \<and> (- 5 :: int) \<le> 0x7fff \<and>
   bc_a (bcins_ad BC_KSHORT 3 7) = 3 \<and> bc_d (bcins_ad BC_KSHORT 3 7) = 7 \<and> bc_j (bcins_aj BC_JMP 3 (- 5)) = - 5"
  using bcins_roundtrip[of 3 3 3 7 "- 5" BC_KSHORT] bcins_roundtrip[of 3 3 3 7 "- 5" BC_JMP]
  by (simp add: BCMAX_A_def BCMAX_B_def BCMAX_C_def BCMAX_D_def)

text \<open>Patching one field of an instruction changes that field only: each setter is read back
  by its getter and leaves the other fields as they were.\<close>

theorem setbc_frame:
  "bc_a (setbc_a i x) = take_bit 8 x \<and> bc_op (setbc_a i x) = bc_op i \<and> bc_d (setbc_a i x) = bc_d i \<and>
   bc_b (setbc_b i x) = take_bit 8 x \<and> bc_op (setbc_b i x) = bc_op i \<and> bc_a (setbc_b i x) = bc_a i \<and>
   bc_c (setbc_b i x) = bc_c i \<and>
   bc_c (setbc_c i x) = take_bit 8 x \<and> bc_op (setbc_c i x) = bc_op i \<and> bc_a (setbc_c i x) = bc_a i \<and>
   bc_b (setbc_c i x) = bc_b i \<and>
   bc_d (setbc_d i x) = take_bit 16 x \<and> bc_op (setbc_d i x) = bc_op i \<and> bc_a (setbc_d i x) = bc_a i \<and>
   bc_op (setbc_op i (op_code o')) = Inr o' \<and> bc_a (setbc_op i x) = bc_a i \<and> bc_d (setbc_op i x) = bc_d i"
proof -
  have n: "NOT (0xff :: u32) = NOT (mask 8)" "NOT (0xff00 :: u32) = NOT (push_bit 8 (mask 8))"
    "NOT (0x00ff0000 :: u32) = NOT (push_bit 16 (mask 8))"
    by (simp_all add: mask_eq_exp_minus_1 push_bit_eq_mult)
  have op: "take_bit 8 (op_code o') = op_code o'" by (rule take_bit_word_self[OF op_code_small])
  have e: "bc_a (setbc_a i x) = take_bit 8 x" "bc_d (setbc_a i x) = bc_d i"
    "bc_b (setbc_b i x) = take_bit 8 x" "bc_a (setbc_b i x) = bc_a i" "bc_c (setbc_b i x) = bc_c i"
    "bc_c (setbc_c i x) = take_bit 8 x" "bc_a (setbc_c i x) = bc_a i" "bc_b (setbc_c i x) = bc_b i"
    "bc_d (setbc_d i x) = take_bit 16 x" "bc_a (setbc_d i x) = bc_a i"
    "bc_a (setbc_op i x) = bc_a i" "bc_d (setbc_op i x) = bc_d i"
    unfolding bc_a_def bc_b_def bc_c_def bc_d_def setbc_a_def setbc_b_def setbc_c_def setbc_d_def setbc_op_def
      and_masks n
    by (rule bit_word_eqI, auto simp: bit_simps dest: bit_imp_le_length)+
  have o8: "take_bit 8 (setbc_a i x) = take_bit 8 i" "take_bit 8 (setbc_b i x) = take_bit 8 i"
    "take_bit 8 (setbc_c i x) = take_bit 8 i" "take_bit 8 (setbc_d i x) = take_bit 8 i"
    "take_bit 8 (setbc_op i (op_code o')) = take_bit 8 (op_code o')"
    unfolding setbc_a_def setbc_b_def setbc_c_def setbc_d_def setbc_op_def and_masks n
    by (rule bit_word_eqI, auto simp: bit_simps dest: bit_imp_le_length)+
  show ?thesis by (simp add: e bc_op_def and_masks o8 op from_op_code)
qed

section \<open>Operand modes\<close>

lemma mode_code_small: "unat (mode_code m) < 2 ^ 4"
  by (cases m) simp_all

lemma mode_a_small: "\<forall>(o', ma, mb, mc)\<in>set bcdef. unat (mode_code ma) < 2 ^ 3"
  by (simp add: bcdef_def)

lemma mode_fields:
  fixes a b c :: u16
  assumes "unat a < 2 ^ 3" "unat b < 2 ^ 4" "unat c < 2 ^ 4"
  defines "m \<equiv> (a OR push_bit 3 b) OR push_bit 7 c"
  shows "take_bit 3 m = a" "take_bit 4 (drop_bit 3 m) = b" "take_bit 4 (drop_bit 7 m) = c"
proof -
  have m: "m = (take_bit 3 a OR push_bit 3 (take_bit 4 b)) OR push_bit 7 (take_bit 4 c)"
    using assms by (simp add: take_bit_word_self)
  have "take_bit 3 m = take_bit 3 a" "take_bit 4 (drop_bit 3 m) = take_bit 4 b" "take_bit 4 (drop_bit 7 m) = take_bit 4 c"
    unfolding m by (rule bit_word_eqI, auto simp: bit_simps)+
  then show "take_bit 3 m = a" "take_bit 4 (drop_bit 3 m) = b" "take_bit 4 (drop_bit 7 m) = c"
    using assms(1-3) by (simp_all add: take_bit_word_self)
qed

text \<open>The packed mode table holds the instruction definitions: for every row of the table the
  three mode accessors return the modes of the row (each fits its bit field), and no opcode
  indexes outside the table.\<close>

theorem bcmode_roundtrip:
  "list_all (\<lambda>(o', ma, mb, mc). bcmode_a o' = Inr (ucast (mode_code ma)) \<and>
     bcmode_b o' = Inr (ucast (mode_code mb)) \<and> bcmode_c o' = Inr (ucast (mode_code mc))) bcdef"
  unfolding list_all_length
proof (intro allI impI)
  fix i assume i: "i < length bcdef"
  obtain o' ma mb mc where row: "bcdef ! i = (o', ma, mb, mc)" by (metis prod_cases4)
  have "op_code o' = word_of_nat i"
    using arg_cong[OF op_codes, of "\<lambda>xs. xs ! i"] i row by (simp add: BC_OPS_def BC_MAX_def del: BC_MAX_eq)
  moreover have "i < 2 ^ 7" using i by (simp add: bcdef_def)
  ultimately have "unat (op_code o') = i" using unat_word_of_nat_less[of 7 i, where 'a = 32] by simp
  then have "mode_entry o' = Inr ((mode_code ma OR push_bit 3 (mode_code mb)) OR push_bit 7 (mode_code mc))"
    using i row by (simp add: mode_entry_def BC_MODE_def idx_panic_def)
  moreover have "unat (mode_code ma) < 2 ^ 3" using mode_a_small nth_mem[OF i] row by auto
  note mode_fields[OF this mode_code_small[of mb] mode_code_small[of mc]]
  ultimately show "case bcdef ! i of (o', ma, mb, mc) \<Rightarrow> bcmode_a o' = Inr (ucast (mode_code ma)) \<and>
     bcmode_b o' = Inr (ucast (mode_code mb)) \<and> bcmode_c o' = Inr (ucast (mode_code mc))"
    by (simp add: row bcmode_a_def bcmode_b_def bcmode_c_def and_masks16)
qed

end
