(* ===== verification/LJ_Dump.thy ===== *)
theory LJ_Dump
  imports LJ_Table LJ_Intern_Spec LJ_Pattern
begin

unbundle bit_operations_syntax

text \<open>
  Function prototypes (\<open>runtime/proto.rs\<close>) and their binary form (\<open>compiler/dump.rs\<close>,
  \<open>compiler/undump.rs\<close>). Boxed and heap references to child prototypes, template tables and
  cdata are the objects they refer to. The reader recurses into child prototypes; its fuel is
  the length of the data, which the round trip shows to be enough.
\<close>

section \<open>Prototypes\<close>

record cdata =
  ctypeid :: u32
  cd_data :: bytes
  cd_base :: "nat option"
  cd_offset :: int

datatype kgc =
    KStr nat
  | KProto proto
  | KProtoRef proto
  | KTable ltable
  | KTableRef ltable
  | KCData cdata
and proto = Proto
  (p_bc: "u32 list") (p_lines: "u32 list") (p_kgc: "kgc list") (p_kn: "f64 list")
  (p_kstrv: "lua_value list") (p_uv: "u16 list") (p_flags: u16) (p_numparams: u8) (p_framesize: u8)
  (p_firstline: u32) (p_numline: u32) (p_uvnames: "bytes list")
  (p_varnames: "(u8 \<times> u32 \<times> u32 \<times> bytes) list") (p_source: "nat option")

section \<open>Writing\<close>

definition MAGIC :: bytes where "MAGIC = [0x1b, 0x4C, 0x4A]"
definition VERSION :: u8 where "VERSION = 1"

text \<open>\<open>to_le_bytes\<close> of an integer of \<open>n\<close> bytes.\<close>

definition le_bytes :: "nat \<Rightarrow> 'a::len word \<Rightarrow> bytes" where
  "le_bytes n w = map (\<lambda>i. ucast (drop_bit (8 * i) w)) [0..<n]"

definition w_u16 :: "u16 \<Rightarrow> bytes" where "w_u16 v = le_bytes 2 v"
definition w_u32 :: "u32 \<Rightarrow> bytes" where "w_u32 v = le_bytes 4 v"
definition w_f64 :: "f64 \<Rightarrow> bytes" where "w_f64 v = le_bytes 8 v"

definition w_len32 :: "nat \<Rightarrow> bytes" where "w_len32 n = w_u32 (word_of_nat n)"

definition write_str :: "interner \<Rightarrow> nat \<Rightarrow> panic + bytes" where
  "write_str strs sid = rbind (interner_get strs sid) (\<lambda>b. Inr (w_len32 (length b) @ b))"

definition write_source :: "interner \<Rightarrow> nat option \<Rightarrow> panic + bytes" where
  "write_source strs src =
     (case src of
        Some sid \<Rightarrow> rbind (write_str strs sid) (\<lambda>b. Inr (1 # b))
      | None \<Rightarrow> Inr [0])"

definition write_uvname :: "bytes \<Rightarrow> bytes" where
  "write_uvname b = w_u16 (word_of_nat (length b)) @ b"

definition write_header :: "proto \<Rightarrow> bytes" where
  "write_header pt =
     w_u16 (p_flags pt) @ [p_numparams pt] @ [p_framesize pt] @ w_len32 (length (p_bc pt)) @
     w_len32 (length (p_kgc pt)) @ w_len32 (length (p_kn pt)) @ w_u32 0 @
     w_len32 (length (p_uv pt)) @ w_len32 (length (p_uvnames pt)) @
     w_u32 (p_firstline pt) @ w_u32 (p_numline pt)"

definition write_arrays :: "proto \<Rightarrow> bytes" where
  "write_arrays pt =
     concat (map w_u32 (p_bc pt)) @ concat (map w_u32 (p_lines pt)) @ concat (map w_f64 (p_kn pt)) @
     concat (map w_u16 (p_uv pt)) @ concat (map write_uvname (p_uvnames pt))"

fun write_kgc :: "interner \<Rightarrow> kgc \<Rightarrow> panic + bytes"
  and write_proto :: "interner \<Rightarrow> proto \<Rightarrow> panic + bytes"
  and write_kgcs :: "interner \<Rightarrow> kgc list \<Rightarrow> panic + bytes" where
  "write_kgc strs (KStr sid) = rbind (write_str strs sid) (\<lambda>b. Inr (0 # b))"
| "write_kgc strs (KProto child) = rbind (write_proto strs child) (\<lambda>b. Inr (1 # b))"
| "write_kgc strs (KProtoRef r) = rbind (write_proto strs r) (\<lambda>b. Inr (1 # b))"
| "write_kgc strs (KTable t) = Inr [2]"
| "write_kgc strs (KTableRef t) = Inr [2]"
| "write_kgc strs (KCData c) = Inr [3]"
| "write_proto strs (Proto bc lines kgc kn kstrv uv flags np fs fl nl uvn vn src) =
     (let pt = Proto bc lines kgc kn kstrv uv flags np fs fl nl uvn vn src
      in rbind (write_source strs src) (\<lambda>s.
         rbind (write_kgcs strs kgc) (\<lambda>k.
           Inr (write_header pt @ s @ write_arrays pt @ k))))"
| "write_kgcs strs [] = Inr []"
| "write_kgcs strs (x # xs) =
     rbind (write_kgc strs x) (\<lambda>a. rbind (write_kgcs strs xs) (\<lambda>b. Inr (a @ b)))"

definition dump :: "proto \<Rightarrow> interner \<Rightarrow> panic + bytes" where
  "dump pt strs = rbind (write_proto strs pt) (\<lambda>b. Inr (MAGIC @ [VERSION] @ [0] @ b))"

section \<open>Reading\<close>

text \<open>A reader takes the data and a position, and returns a value and the new position.\<close>

type_synonym 'x reader = "bytes \<Rightarrow> nat \<Rightarrow> panic + ('x \<times> nat)"

definition read_bytes :: "nat \<Rightarrow> bytes reader" where
  "read_bytes n d q = rbind (slice d q (q + n)) (\<lambda>s. Inr (s, q + n))"

definition read_u8 :: "u8 reader" where
  "read_u8 d q = rbind (idx_panic d q) (\<lambda>v. Inr (v, q + 1))"

text \<open>\<open>from_le_bytes\<close>.\<close>

primrec from_le :: "bytes \<Rightarrow> 'a::len word" where
  "from_le [] = 0"
| "from_le (b # bs) = ucast b OR push_bit 8 (from_le bs)"

definition read_u16 :: "u16 reader" where
  "read_u16 d q = rbind (read_bytes 2 d q) (\<lambda>(b, q'). Inr (from_le b, q'))"
definition read_u32 :: "u32 reader" where
  "read_u32 d q = rbind (read_bytes 4 d q) (\<lambda>(b, q'). Inr (from_le b, q'))"
definition read_f64 :: "f64 reader" where
  "read_f64 d q = rbind (read_bytes 8 d q) (\<lambda>(b, q'). Inr (from_le b, q'))"

text \<open>The loops \<open>for _ in 0..n\<close>.\<close>

primrec read_many :: "nat \<Rightarrow> 'x reader \<Rightarrow> 'x list reader" where
  "read_many 0 rd d q = Inr ([], q)"
| "read_many (Suc n) rd d q =
     rbind (rd d q) (\<lambda>(x, q1). rbind (read_many n rd d q1) (\<lambda>(xs, q2). Inr (x # xs, q2)))"

definition read_kstrv :: "lua_value reader" where
  "read_kstrv d q = rbind (read_u32 d q) (\<lambda>(raw, q').
     Inr (if raw = 0xFFFFFFFF then NIL else ucast raw, q'))"

text \<open>\<open>String::from_utf8_lossy\<close>: the length of the well-formed character at the front, or of the
  maximal ill-formed prefix, which becomes U+FFFD.\<close>

definition is_cont :: "u8 \<Rightarrow> u8 \<Rightarrow> bytes \<Rightarrow> nat \<Rightarrow> bool" where
  "is_cont lo hi bs i \<longleftrightarrow> i < length bs \<and> lo \<le> bs ! i \<and> bs ! i \<le> hi"

definition utf8_chunk :: "bytes \<Rightarrow> bool \<times> nat" where
  "utf8_chunk bs =
     (let b = hd bs;
          c = is_cont 0x80 0xBF bs;
          three = (\<lambda>lo hi. if \<not> is_cont lo hi bs 1 then (False, 1) else if \<not> c 2 then (False, 2) else (True, 3));
          four = (\<lambda>lo hi. if \<not> is_cont lo hi bs 1 then (False, 1) else if \<not> c 2 then (False, 2)
                          else if \<not> c 3 then (False, 3) else (True, 4))
      in if b < 0x80 then (True, 1)
         else if 0xC2 \<le> b \<and> b \<le> 0xDF then (if c 1 then (True, 2) else (False, 1))
         else if b = 0xE0 then three 0xA0 0xBF
         else if b = 0xED then three 0x80 0x9F
         else if 0xE1 \<le> b \<and> b \<le> 0xEF then three 0x80 0xBF
         else if b = 0xF0 then four 0x90 0xBF
         else if 0xF1 \<le> b \<and> b \<le> 0xF3 then four 0x80 0xBF
         else if b = 0xF4 then four 0x80 0x8F
         else (False, 1))"

lemma utf8_chunk_pos: "0 < snd (utf8_chunk bs)"
  by (simp add: utf8_chunk_def Let_def)

function utf8_lossy :: "bytes \<Rightarrow> bytes" where
  "utf8_lossy bs =
     (if bs = [] then []
      else let (ok, n) = utf8_chunk bs
           in (if ok then take n bs else [0xEF, 0xBF, 0xBD]) @ utf8_lossy (drop n bs))"
  by pat_completeness auto
termination
  by (relation "measure length") (use utf8_chunk_pos in \<open>auto simp: prod_eq_iff dest!: sym[of "(_, _)"]\<close>)

declare utf8_lossy.simps [simp del]

definition read_uvname :: "bytes reader" where
  "read_uvname d q = rbind (read_u16 d q) (\<lambda>(n, q1).
     rbind (read_bytes (unat n) d q1) (\<lambda>(b, q2). Inr (utf8_lossy b, q2)))"

text \<open>Readers that intern strings also return the interner.\<close>

type_synonym 'x sreader = "bytes \<Rightarrow> nat \<Rightarrow> interner \<Rightarrow> panic + ('x \<times> nat \<times> interner)"

definition read_str :: "os_alloc \<Rightarrow> nat \<Rightarrow> nat sreader" where
  "read_str os sz d q st = rbind (read_u32 d q) (\<lambda>(n, q1).
     rbind (read_bytes (unat n) d q1) (\<lambda>(b, q2).
     rbind (intern os sz st b) (\<lambda>(i, st'). Inr (i, q2, st'))))"

definition read_source :: "os_alloc \<Rightarrow> nat \<Rightarrow> nat option sreader" where
  "read_source os sz d q st = rbind (read_u8 d q) (\<lambda>(has, q1).
     if has \<noteq> 0 then rbind (read_str os sz d q1 st) (\<lambda>(i, q2, st'). Inr (Some i, q2, st'))
     else Inr (None, q1, st))"

definition read_kgc :: "proto sreader \<Rightarrow> os_alloc \<Rightarrow> nat \<Rightarrow> kgc sreader" where
  "read_kgc rp os sz d q st = rbind (read_u8 d q) (\<lambda>(tag, q1).
     if tag = 0 then rbind (read_str os sz d q1 st) (\<lambda>(i, q2, st'). Inr (KStr i, q2, st'))
     else if tag = 1 then rbind (rp d q1 st) (\<lambda>(p, q2, st'). Inr (KProto p, q2, st'))
     else if tag = 2 then rbind (tab_new 0 0) (\<lambda>t. Inr (KTable t, q1, st))
     else if tag = 3
     then Inr (KCData \<lparr>ctypeid = 0, cd_data = [], cd_base = None, cd_offset = 0\<rparr>, q1, st)
     else Inl (AssertPanic ''bad kgc tag''))"

primrec read_many_s :: "nat \<Rightarrow> 'x sreader \<Rightarrow> 'x list sreader" where
  "read_many_s 0 rd d q st = Inr ([], q, st)"
| "read_many_s (Suc n) rd d q st =
     rbind (rd d q st) (\<lambda>(x, q1, st1).
     rbind (read_many_s n rd d q1 st1) (\<lambda>(xs, q2, st2). Inr (x # xs, q2, st2)))"

definition read_proto_with :: "kgc sreader \<Rightarrow> os_alloc \<Rightarrow> nat \<Rightarrow> proto sreader" where
  "read_proto_with rk os sz d q st =
     rbind (read_u16 d q) (\<lambda>(flags, q).
     rbind (read_u8 d q) (\<lambda>(np, q).
     rbind (read_u8 d q) (\<lambda>(fs, q).
     rbind (read_u32 d q) (\<lambda>(bc_len, q).
     rbind (read_u32 d q) (\<lambda>(kgc_len, q).
     rbind (read_u32 d q) (\<lambda>(kn_len, q).
     rbind (read_u32 d q) (\<lambda>(kstrv_len, q).
     rbind (read_u32 d q) (\<lambda>(uv_len, q).
     rbind (read_u32 d q) (\<lambda>(uvn_len, q).
     rbind (read_u32 d q) (\<lambda>(fl, q).
     rbind (read_u32 d q) (\<lambda>(nl, q).
     rbind (read_source os sz d q st) (\<lambda>(src, q, st).
     rbind (read_many (unat bc_len) read_u32 d q) (\<lambda>(bc, q).
     rbind (read_many (unat bc_len) read_u32 d q) (\<lambda>(lines, q).
     rbind (read_many (unat kn_len) read_f64 d q) (\<lambda>(kn, q).
     rbind (read_many (unat kstrv_len) read_kstrv d q) (\<lambda>(kstrv, q).
     rbind (read_many (unat uv_len) read_u16 d q) (\<lambda>(uv, q).
     rbind (read_many (unat uvn_len) read_uvname d q) (\<lambda>(uvn, q).
     rbind (read_many_s (unat kgc_len) rk d q st) (\<lambda>(kgc, q, st).
       Inr (Proto bc lines kgc kn kstrv uv flags np fs fl nl uvn [] src, q, st))))))))))))))))))))"

primrec read_proto :: "nat \<Rightarrow> os_alloc \<Rightarrow> nat \<Rightarrow> proto sreader" where
  "read_proto 0 os sz = (\<lambda>d q st. Inl Diverges)"
| "read_proto (Suc fuel) os sz = read_proto_with (read_kgc (read_proto fuel os sz) os sz) os sz"

datatype undump_error = NotBytecode | VersionMismatch u8

definition undump :: "os_alloc \<Rightarrow> nat \<Rightarrow> bytes \<Rightarrow> interner \<Rightarrow> panic + (undump_error + proto \<times> interner)" where
  "undump os sz d st =
     (if length d < 5 \<or> take 3 d \<noteq> MAGIC then Inr (Inl NotBytecode)
      else rbind (read_u8 d 3) (\<lambda>(version, q).
        if version \<noteq> VERSION then Inr (Inl (VersionMismatch version))
        else rbind (read_u8 d q) (\<lambda>(flags, q).
             rbind (read_proto (length d) os sz d q st) (\<lambda>(pt, q, st'). Inr (Inr (pt, st'))))))"

end
