(* ===== verification/LJ_Dump_Spec.thy ===== *)
theory LJ_Dump_Spec
  imports LJ_Dump LJ_Table_Spec
begin

unbundle bit_operations_syntax

text \<open>
  The binary form of a prototype can be read back: each reader undoes its writer (the locale
  \<open>codec\<close>, interpreted for the integers, doubles and names), and so does the reader of whole
  prototypes, up to what the format leaves out.
\<close>

section \<open>Little-endian integers\<close>

lemma le_bytes_Suc: "le_bytes (Suc n) w = ucast w # le_bytes n (drop_bit 8 w)"
  by (simp add: le_bytes_def upt_conv_Cons map_Suc_upt[symmetric] comp_def drop_bit_drop_bit add.commute
      del: upt_Suc)

lemma length_le_bytes [simp]: "length (le_bytes n w) = n"
  by (simp add: le_bytes_def)

lemma from_le_le_bytes: "from_le (le_bytes n w) = take_bit (8 * n) (w :: 'a::len word)"
proof (induction n arbitrary: w)
  case 0
  show ?case by (simp add: le_bytes_def)
next
  case (Suc n)
  have "(ucast (ucast w :: u8) :: 'a word) OR push_bit 8 (take_bit (8 * n) (drop_bit 8 w)) = take_bit (8 * Suc n) w"
    by (rule bit_word_eqI) (auto simp: bit_simps dest: bit_imp_le_length)
  then show ?case by (simp add: le_bytes_Suc Suc.IH)
qed

lemma from_le_full:
  "from_le (le_bytes 2 (a :: u16)) = a" "from_le (le_bytes 4 (b :: u32)) = b" "from_le (le_bytes 8 (c :: u64)) = c"
proof -
  have t: "take_bit LENGTH('l) w = w" for w :: "'l::len word" by simp
  show "from_le (le_bytes 2 a) = a" "from_le (le_bytes 4 b) = b" "from_le (le_bytes 8 c) = c"
    using t[of a] t[of b] t[of c] by (simp_all add: from_le_le_bytes)
qed

section \<open>Positions in the data\<close>

definition starts :: "bytes \<Rightarrow> nat \<Rightarrow> bytes \<Rightarrow> bool" where
  "starts d q s \<longleftrightarrow> q \<le> length d \<and> drop q d = s"

lemma starts_append: "starts d q (b @ r) \<Longrightarrow> starts d (q + length b) r"
  unfolding starts_def by (metis add.commute append_eq_conv_conj drop_drop length_append length_drop le_add1
      Nat.le_diff_conv2)

lemma starts_Cons: "starts d q (x # r) \<Longrightarrow> starts d (q + 1) r"
  using starts_append[of d q "[x]" r] by simp

lemma read_bytes_starts: "starts d q (b @ r) \<Longrightarrow> read_bytes (length b) d q = Inr (b, q + length b)"
proof -
  assume s: "starts d q (b @ r)"
  then have "length d - q = length b + length r" "q \<le> length d" by (auto simp: starts_def dest: arg_cong[where f = length])
  then have "q + length b \<le> length d" by simp
  then show ?thesis using s by (simp add: read_bytes_def slice_def starts_def)
qed

lemma read_u8_starts: "starts d q (x # r) \<Longrightarrow> read_u8 d q = Inr (x, q + 1)"
proof -
  assume s: "starts d q (x # r)"
  then have "q < length d" by (cases "q < length d") (auto simp: starts_def)
  moreover have "d ! q = x" using s \<open>q < length d\<close> by (simp add: starts_def Cons_nth_drop_Suc[symmetric])
  ultimately show ?thesis by (simp add: read_u8_def)
qed

section \<open>Codecs\<close>

locale codec =
  fixes enc :: "'x \<Rightarrow> bytes" and dec :: "'x reader" and ok :: "'x \<Rightarrow> bool"
  assumes dec_enc: "ok x \<Longrightarrow> starts d q (enc x @ r) \<Longrightarrow> dec d q = Inr (x, q + length (enc x))"
begin

lemma many:
  "list_all ok xs \<Longrightarrow> starts d q (concat (map enc xs) @ r) \<Longrightarrow>
   read_many (length xs) dec d q = Inr (xs, q + length (concat (map enc xs)))"
proof (induction xs arbitrary: q)
  case (Cons x xs)
  have a: "starts d q (enc x @ (concat (map enc xs) @ r))" using Cons.prems(2) by simp
  show ?case
    using Cons.IH[OF _ starts_append[OF a]] dec_enc[OF _ a] Cons.prems(1) by (simp add: add.assoc)
qed simp

end

lemma read_le_starts:
  assumes "starts d q (b @ r)" "length b = n"
  shows "rbind (read_bytes n d q) (\<lambda>(b, q'). Inr (f b, q')) = Inr (f b, q + n)"
  using read_bytes_starts[OF assms(1)] assms(2) by simp

interpretation c16: codec w_u16 read_u16 "\<lambda>_. True"
  by unfold_locales (simp add: read_u16_def w_u16_def read_le_starts from_le_full)

interpretation c32: codec w_u32 read_u32 "\<lambda>_. True"
  by unfold_locales (simp add: read_u32_def w_u32_def read_le_starts from_le_full)

interpretation c64: codec w_f64 read_f64 "\<lambda>_. True"
  by unfold_locales (simp add: read_f64_def w_f64_def read_le_starts from_le_full)

lemma length_w [simp]: "length (w_u16 a) = 2" "length (w_u32 b) = 4" "length (w_f64 c) = 8" "length (w_len32 n) = 4"
  by (simp_all add: w_u16_def w_u32_def w_f64_def w_len32_def)

text \<open>A name is a \<open>String\<close>: well-formed UTF-8; its length must fit the 16-bit field.\<close>

definition name_ok :: "bytes \<Rightarrow> bool" where
  "name_ok b \<longleftrightarrow> length b < 2 ^ 16 \<and> utf8_lossy b = b"

interpretation cname: codec write_uvname read_uvname name_ok
proof
  fix x d q r assume a: "name_ok x" "starts d q (write_uvname x @ r)"
  let ?n = "word_of_nat (length x) :: u16"
  have n: "unat ?n = length x" using a(1) unat_word_of_nat_less[of 16 "length x", where 'a = 16] by (simp add: name_ok_def)
  have s: "starts d q (w_u16 ?n @ (x @ r))" using a(2) by (simp add: write_uvname_def)
  have "read_u16 d q = Inr (?n, q + 2)" using c16.dec_enc[OF TrueI s] by simp
  moreover have "read_bytes (length x) d (q + 2) = Inr (x, q + 2 + length x)"
    using read_bytes_starts[OF starts_append[OF s]] by simp
  ultimately show "read_uvname d q = Inr (x, q + length (write_uvname x))"
    using a(1) by (simp add: read_uvname_def n name_ok_def write_uvname_def)
qed

section \<open>Strings\<close>

definition str_of :: "interner \<Rightarrow> nat \<Rightarrow> bytes" where
  "str_of st i = (case view st i of Some s \<Rightarrow> s | None \<Rightarrow> [])"

definition str_bytes :: "bytes \<Rightarrow> bytes" where
  "str_bytes s = w_len32 (length s) @ s"

lemma write_str_ok: "interner_ok st \<Longrightarrow> write_str st i = Inr (str_bytes (str_of st i))"
  by (simp add: write_str_def get_view str_of_def str_bytes_def)

text \<open>An interner with room for \<open>n\<close> more strings, and readers that consume exactly \<open>b\<close>, only
  add strings to the interner, and return a value that satisfies \<open>P\<close> there.\<close>

definition room :: "os_alloc \<Rightarrow> nat \<Rightarrow> interner \<Rightarrow> bool" where
  "room os n st \<longleftrightarrow> os_ok os \<and> interner_inv st \<and> length (by_id st) + n \<le> 2 ^ 32"

definition reads :: "os_alloc \<Rightarrow> 'x sreader \<Rightarrow> bytes \<Rightarrow> ((nat \<Rightarrow> bytes option) \<Rightarrow> 'x \<Rightarrow> bool) \<Rightarrow> bool" where
  "reads os rd b P \<longleftrightarrow> (\<forall>d q r st k. room os (length b + k) st \<longrightarrow> starts d q (b @ r) \<longrightarrow>
     (\<exists>x st'. rd d q st = Inr (x, q + length b, st') \<and> room os k st' \<and> view st \<subseteq>\<^sub>m view st' \<and> P (view st') x))"

lemma readsD:
  assumes "reads os rd b P" "room os (length b + k) st" "starts d q (b @ r)"
  obtains x st' where "rd d q st = Inr (x, q + length b, st')" "room os k st'" "view st \<subseteq>\<^sub>m view st'"
    "P (view st') x"
  using assms unfolding reads_def by blast

lemma w_len32_reads:
  assumes "starts d q (w_len32 n @ r)" "n < 2 ^ 32"
  shows "\<exists>w. read_u32 d q = Inr (w, q + 4) \<and> unat w = n \<and> starts d (q + 4) r"
proof -
  have "unat (word_of_nat n :: u32) = n" using assms(2) unat_word_of_nat_less[of 32 n, where 'a = 32] by simp
  then show ?thesis
    using c32.dec_enc[OF TrueI, of d q "word_of_nat n" r] starts_append[OF assms(1)] assms(1)
    by (simp add: w_len32_def)
qed

lemma read_str_reads: "reads os (read_str os sz) (str_bytes s) (\<lambda>v i. v i = Some s)"
  unfolding reads_def
proof (intro allI impI)
  fix d q r st k assume room: "room os (length (str_bytes s) + k) st" and at: "starts d q (str_bytes s @ r)"
  have len: "length (by_id st) + (4 + length s) + k \<le> 2 ^ 32" using room by (simp add: room_def str_bytes_def)
  have at': "starts d q (w_len32 (length s) @ (s @ r))" using at by (simp add: str_bytes_def)
  obtain w where w: "read_u32 d q = Inr (w, q + 4)" "unat w = length s" "starts d (q + 4) (s @ r)"
    using w_len32_reads[OF at'] len by auto
  note b = read_bytes_starts[OF w(3)]
  have inv: "os_ok os \<and> interner_inv st" "length (by_id st) < 2 ^ 32" using room len by (auto simp: room_def)
  obtain i st' where i: "intern os sz st s = Inr (i, st')" "interner_inv st'" "view st' i = Some s"
    "length (by_id st') \<le> Suc (length (by_id st))"
    using strs.put_ok[OF inv, of sz s] by auto
  have "view st \<subseteq>\<^sub>m view st'" using strs.put_keeps[OF inv i(1)] by (auto simp: map_le_def)
  moreover have "room os k st'" using i(2,4) inv(1) len by (simp add: room_def)
  ultimately show "\<exists>i st'. read_str os sz d q st = Inr (i, q + length (str_bytes s), st') \<and> room os k st' \<and>
      view st \<subseteq>\<^sub>m view st' \<and> view st' i = Some s"
    using i w b by (simp add: read_str_def str_bytes_def add.assoc)
qed

lemma read_source_reads:
  "reads os (read_source os sz) (case src of Some s \<Rightarrow> 1 # str_bytes s | None \<Rightarrow> [0])
     (\<lambda>v o'. case src of Some s \<Rightarrow> (\<exists>i. o' = Some i \<and> v i = Some s) | None \<Rightarrow> o' = None)"
  unfolding reads_def
proof (intro allI impI, goal_cases)
  case (1 d q r st k)
  show ?case
  proof (cases src)
    case None
    then have "starts d q (0 # r)" using 1 by simp
    moreover have "room os k st" using 1(1) by (simp add: room_def)
    ultimately show ?thesis using None read_u8_starts[of d q 0 r] by (simp add: read_source_def)
  next
    case (Some s)
    then have at: "starts d q (1 # str_bytes s @ r)" using 1 by simp
    have "room os (length (str_bytes s) + k) st" using 1(1) Some by (simp add: room_def)
    from readsD[OF read_str_reads this starts_Cons[OF at]] obtain i st' where
      "read_str os sz d (q + 1) st = Inr (i, q + 1 + length (str_bytes s), st')" "room os k st'"
      "view st \<subseteq>\<^sub>m view st'" "view st' i = Some s" by blast
    then show ?thesis using Some read_u8_starts[OF at] by (simp add: read_source_def)
  qed
qed

section \<open>Prototypes\<close>

text \<open>What a reloaded prototype shares with the dumped one: everything but the cached string
  values and the names of locals; strings have the same bytes, template tables and cdata
  constants come back empty.\<close>

fun same_kgc :: "(nat \<Rightarrow> bytes) \<Rightarrow> (nat \<Rightarrow> bytes option) \<Rightarrow> kgc \<Rightarrow> kgc \<Rightarrow> bool"
  and same_proto :: "(nat \<Rightarrow> bytes) \<Rightarrow> (nat \<Rightarrow> bytes option) \<Rightarrow> proto \<Rightarrow> proto \<Rightarrow> bool"
  and same_kgcs :: "(nat \<Rightarrow> bytes) \<Rightarrow> (nat \<Rightarrow> bytes option) \<Rightarrow> kgc list \<Rightarrow> kgc list \<Rightarrow> bool" where
  "same_kgc f v (KStr i) y = (case y of KStr j \<Rightarrow> v j = Some (f i) | _ \<Rightarrow> False)"
| "same_kgc f v (KProto c) y = (case y of KProto c' \<Rightarrow> same_proto f v c c' | _ \<Rightarrow> False)"
| "same_kgc f v (KProtoRef c) y = (case y of KProto c' \<Rightarrow> same_proto f v c c' | _ \<Rightarrow> False)"
| "same_kgc f v (KTable t) y = (case y of KTable t' \<Rightarrow> tab_new 0 0 = Inr t' | _ \<Rightarrow> False)"
| "same_kgc f v (KTableRef t) y = (case y of KTable t' \<Rightarrow> tab_new 0 0 = Inr t' | _ \<Rightarrow> False)"
| "same_kgc f v (KCData c) y = (case y of KCData c' \<Rightarrow> cd_data c' = [] | _ \<Rightarrow> False)"
| "same_proto f v (Proto bc lines kgc kn kstrv uv flags np fs fl nl uvn vn src) p' \<longleftrightarrow>
     p_bc p' = bc \<and> p_lines p' = lines \<and> same_kgcs f v kgc (p_kgc p') \<and> p_kn p' = kn \<and> p_kstrv p' = [] \<and>
     p_uv p' = uv \<and> p_flags p' = flags \<and> p_numparams p' = np \<and> p_framesize p' = fs \<and> p_firstline p' = fl \<and>
     p_numline p' = nl \<and> p_uvnames p' = uvn \<and> p_varnames p' = [] \<and>
     (case src of Some i \<Rightarrow> (\<exists>j. p_source p' = Some j \<and> v j = Some (f i)) | None \<Rightarrow> p_source p' = None)"
| "same_kgcs f v [] ys = (ys = [])"
| "same_kgcs f v (x # xs) ys = (case ys of y # ys' \<Rightarrow> same_kgc f v x y \<and> same_kgcs f v xs ys' | [] \<Rightarrow> False)"

lemma map_leD: "v \<subseteq>\<^sub>m v' \<Longrightarrow> v i = Some s \<Longrightarrow> v' i = Some s"
  by (auto simp: map_le_def dom_def)

lemma same_mono:
  "v \<subseteq>\<^sub>m v' \<Longrightarrow> same_kgc f v x y \<Longrightarrow> same_kgc f v' x y"
  "v \<subseteq>\<^sub>m v' \<Longrightarrow> same_proto f v c c' \<Longrightarrow> same_proto f v' c c'"
  "v \<subseteq>\<^sub>m v' \<Longrightarrow> same_kgcs f v xs ys \<Longrightarrow> same_kgcs f v' xs ys"
proof (induction f v x y and f v c c' and f v xs ys rule: same_kgc_same_proto_same_kgcs.induct)
  case (7 f v bc lines kgc kn kstrv uv flags np fs fl nl uvn vn src p')
  then show ?case by (auto split: option.splits dest: map_leD)
qed (auto split: kgc.splits list.splits dest: map_leD)

text \<open>The prototypes the compiler builds: one line per instruction, names that fit.\<close>

fun dumpable_kgc :: "kgc \<Rightarrow> bool" and dumpable :: "proto \<Rightarrow> bool" and dumpable_kgcs :: "kgc list \<Rightarrow> bool" where
  "dumpable_kgc (KProto c) = dumpable c"
| "dumpable_kgc (KProtoRef c) = dumpable c"
| "dumpable_kgc (KStr i) = True"
| "dumpable_kgc (KTable t) = True"
| "dumpable_kgc (KTableRef t) = True"
| "dumpable_kgc (KCData d) = True"
| "dumpable (Proto bc lines kgc kn kstrv uv flags np fs fl nl uvn vn src) \<longleftrightarrow>
     length lines = length bc \<and> list_all name_ok uvn \<and> dumpable_kgcs kgc"
| "dumpable_kgcs [] = True"
| "dumpable_kgcs (x # xs) \<longleftrightarrow> dumpable_kgc x \<and> dumpable_kgcs xs"

lemma tab_new_00: "\<exists>t. tab_new 0 0 = Inr t"
  using tab_new_base[of 0 0] by blast

lemma read_kgc_table: "reads os (read_kgc rp os sz) [2] (\<lambda>v y. same_kgc f v (KTable t) y)"
  unfolding reads_def
proof (intro allI impI, goal_cases)
  case (1 d q r st k)
  obtain t' where t': "tab_new 0 0 = Inr t'" using tab_new_00 by blast
  have "starts d q (2 # r)" "room os k st" using 1 by (simp_all add: room_def)
  then show ?case using t' read_u8_starts[of d q 2 r] by (simp add: read_kgc_def)
qed

lemma read_kgc_cdata: "reads os (read_kgc rp os sz) [3] (\<lambda>v y. same_kgc f v (KCData c) y)"
  unfolding reads_def
proof (intro allI impI, goal_cases)
  case (1 d q r st k)
  then have "starts d q (3 # r)" "room os k st" by (simp_all add: room_def)
  then show ?case using read_u8_starts[of d q 3 r] by (simp add: read_kgc_def)
qed

lemma read_kgc_str: "reads os (read_kgc rp os sz) (0 # str_bytes (f i)) (\<lambda>v y. same_kgc f v (KStr i) y)"
  unfolding reads_def
proof (intro allI impI, goal_cases)
  case (1 d q r st k)
  then have at: "starts d q (0 # str_bytes (f i) @ r)" by simp
  have "room os (length (str_bytes (f i)) + k) st" using 1(1) by (simp add: room_def)
  from readsD[OF read_str_reads this starts_Cons[OF at]] obtain j st' where
    "read_str os sz d (q + 1) st = Inr (j, q + 1 + length (str_bytes (f i)), st')" "room os k st'"
    "view st \<subseteq>\<^sub>m view st'" "view st' j = Some (f i)" by blast
  then show ?case using read_u8_starts[OF at] by (simp add: read_kgc_def)
qed

lemma read_kgc_proto:
  assumes "reads os rp b (\<lambda>v y. same_proto f v c y)"
  shows "reads os (read_kgc rp os sz) (1 # b) (\<lambda>v y. same_kgc f v (KProto c) y)"
  unfolding reads_def
proof (intro allI impI, goal_cases)
  case (1 d q r st k)
  then have at: "starts d q (1 # b @ r)" by simp
  have "room os (length b + k) st" using 1(1) by (simp add: room_def)
  from readsD[OF assms this starts_Cons[OF at]] obtain c' st' where
    "rp d (q + 1) st = Inr (c', q + 1 + length b, st')" "room os k st'"
    "view st \<subseteq>\<^sub>m view st'" "same_proto f (view st') c c'" by blast
  then show ?case using read_u8_starts[OF at] by (simp add: read_kgc_def)
qed

lemma read_kgcs_Nil: "reads os (read_many_s 0 rd) [] (\<lambda>v ys. same_kgcs f v [] ys)"
  by (simp add: reads_def)

lemma read_kgcs_Cons:
  assumes "reads os rd b (\<lambda>v y. same_kgc f v x y)" "reads os (read_many_s n rd) b' (\<lambda>v ys. same_kgcs f v xs ys)"
  shows "reads os (read_many_s (Suc n) rd) (b @ b') (\<lambda>v ys. same_kgcs f v (x # xs) ys)"
  unfolding reads_def
proof (intro allI impI, goal_cases)
  case (1 d q r st k)
  then have at: "starts d q (b @ (b' @ r))" by simp
  have "room os (length b + (length b' + k)) st" using 1(1) by (simp add: add.assoc)
  from readsD[OF assms(1) this at] obtain y st1 where y:
    "rd d q st = Inr (y, q + length b, st1)" "room os (length b' + k) st1"
    "view st \<subseteq>\<^sub>m view st1" "same_kgc f (view st1) x y" by blast
  from readsD[OF assms(2) y(2) starts_append[OF at]] obtain ys st2 where ys:
    "read_many_s n rd d (q + length b) st1 = Inr (ys, q + length b + length b', st2)" "room os k st2"
    "view st1 \<subseteq>\<^sub>m view st2" "same_kgcs f (view st2) xs ys" by blast
  have "view st \<subseteq>\<^sub>m view st2" using y(3) ys(3) by (rule map_le_trans)
  then show ?case using y ys same_mono(1)[OF ys(3) y(4)] by (simp add: add.assoc)
qed

lemma rd16: "starts d q (w_u16 v @ r) \<Longrightarrow> read_u16 d q = Inr (v, q + 2) \<and> starts d (q + 2) r"
  using c16.dec_enc[OF TrueI, of d q v r] starts_append[of d q "w_u16 v" r] by simp

lemma rd32: "starts d q (w_u32 v @ r) \<Longrightarrow> read_u32 d q = Inr (v, q + 4) \<and> starts d (q + 4) r"
  using c32.dec_enc[OF TrueI, of d q v r] starts_append[of d q "w_u32 v" r] by simp

lemma rd8: "starts d q (x # r) \<Longrightarrow> read_u8 d q = Inr (x, q + 1) \<and> starts d (q + 1) r"
  using read_u8_starts starts_Cons by blast

text \<open>One prototype, given a reader of its constants.\<close>

lemma read_proto_with_reads:
  assumes ok: "interner_ok strs" and len: "length lines = length bc" "list_all name_ok uvn"
    and kgcs: "reads os (read_many_s (length kgc) rk) bk (\<lambda>v ys. same_kgcs (str_of strs) v kgc ys)"
      "length kgc \<le> length bk"
    and pt: "pt = Proto bc lines kgc kn kstrv uv flags np fs fl nl uvn vn src"
    and s: "s = (case map_option (str_of strs) src of Some s \<Rightarrow> 1 # str_bytes s | None \<Rightarrow> [0])"
  shows "reads os (read_proto_with rk os sz) (write_header pt @ s @ write_arrays pt @ bk)
    (\<lambda>v y. same_proto (str_of strs) v pt y)"
  unfolding reads_def
proof (intro allI impI, goal_cases)
  case (1 d q r st k)
  let ?bs = "concat (map w_u32 bc)" and ?ls = "concat (map w_u32 lines)" and ?ks = "concat (map w_f64 kn)"
    and ?us = "concat (map w_u16 uv)" and ?ns = "concat (map write_uvname uvn)"
  have arr: "write_arrays pt = ?bs @ ?ls @ ?ks @ ?us @ ?ns" by (simp add: write_arrays_def pt)
  have hdr: "length (write_header pt) = 36" by (simp add: write_header_def)
  have cl: "length xs \<le> length (concat (map g xs))" if "\<And>x. 0 < length (g x)" for g :: "'z \<Rightarrow> bytes" and xs
    by (induction xs) (use that in \<open>auto simp: Suc_le_eq add_strict_increasing\<close>)
  have "length bc \<le> length ?bs" "length kn \<le> length ?ks" "length uv \<le> length ?us" "length uvn \<le> length ?ns"
    by (intro cl; simp add: write_uvname_def)+
  moreover have "36 + length ?bs + length ?ks + length ?us + length ?ns + length bk \<le> 2 ^ 32"
    using 1(1) hdr by (simp add: room_def arr)
  ultimately have fits: "length bc < 2 ^ 32" "length kn < 2 ^ 32" "length uv < 2 ^ 32" "length uvn < 2 ^ 32"
    "length kgc < 2 ^ 32" using kgcs(2) by linarith+
  let ?l = "\<lambda>xs. word_of_nat (length xs) :: u32"
  have un: "unat (?l bc) = length bc" "unat (?l kgc) = length kgc" "unat (?l kn) = length kn"
    "unat (?l uv) = length uv" "unat (?l uvn) = length uvn"
    using fits by (simp_all add: unat_word_of_nat_less[of 32])
  let ?rest = "s @ (?bs @ (?ls @ (?ks @ (?us @ (?ns @ (bk @ r))))))"
  have "starts d q (w_u16 flags @ (np # (fs # (w_u32 (?l bc) @ (w_u32 (?l kgc) @ (w_u32 (?l kn) @
      (w_u32 0 @ (w_u32 (?l uv) @ (w_u32 (?l uvn) @ (w_u32 fl @ (w_u32 nl @ ?rest)))))))))))"
    using 1(2) by (simp add: write_header_def write_arrays_def pt w_len32_def)
  note r0 = rd16[OF this]
  note r1 = rd8[OF conjunct2[OF r0]] note r2 = rd8[OF conjunct2[OF r1]]
  note r3 = rd32[OF conjunct2[OF r2]] note r4 = rd32[OF conjunct2[OF r3]] note r5 = rd32[OF conjunct2[OF r4]]
  note r6 = rd32[OF conjunct2[OF r5]] note r7 = rd32[OF conjunct2[OF r6]] note r8 = rd32[OF conjunct2[OF r7]]
  note r9 = rd32[OF conjunct2[OF r8]] note r10 = rd32[OF conjunct2[OF r9]]
  let ?q = "q + 2 + 1 + 1 + 4 + 4 + 4 + 4 + 4 + 4 + 4 + 4"
  have a: "starts d ?q ?rest" using r10 by blast
  have rm: "room os (length s + (length bk + k)) st" using 1(1) by (simp add: room_def)
  from readsD[OF read_source_reads[of os sz "map_option (str_of strs) src", folded s] rm a] obtain src' st1 where
    src': "read_source os sz d ?q st = Inr (src', ?q + length s, st1)" "room os (length bk + k) st1"
      "view st \<subseteq>\<^sub>m view st1"
      "case map_option (str_of strs) src of Some s \<Rightarrow> (\<exists>i. src' = Some i \<and> view st1 i = Some s) | None \<Rightarrow> src' = None"
    by blast
  note a1 = starts_append[OF a] note a2 = starts_append[OF a1] note a3 = starts_append[OF a2]
  note a4 = starts_append[OF a3] note a5 = starts_append[OF a4] note a6 = starts_append[OF a5]
  have all: "list_all (\<lambda>_. True) xs" for xs :: "'z list" by (simp add: list_all_iff)
  note m1 = c32.many[OF all a1] and m2 = c32.many[OF all a2, unfolded len(1)] and m3 = c64.many[OF all a3]
    and m4 = c16.many[OF all a4] and m5 = cname.many[OF len(2) a5]
  from readsD[OF kgcs(1) src'(2) a6] obtain ys st2 where ys:
    "read_many_s (length kgc) rk d (?q + length s + length ?bs + length ?ls + length ?ks + length ?us + length ?ns) st1 =
       Inr (ys, ?q + length s + length ?bs + length ?ls + length ?ks + length ?us + length ?ns + length bk, st2)"
    "room os k st2" "view st1 \<subseteq>\<^sub>m view st2" "same_kgcs (str_of strs) (view st2) kgc ys" by blast
  let ?p = "Proto bc lines ys kn [] uv flags np fs fl nl uvn [] src'"
  have "read_proto_with rk os sz d q st =
      Inr (?p, ?q + length s + length ?bs + length ?ls + length ?ks + length ?us + length ?ns + length bk, st2)"
    unfolding read_proto_with_def
    by (simp only: r0 r1 r2 r3 r4 r5 r6 r7 r8 r9 r10 src'(1) m1 m2 m3 m4 m5 ys(1) un rbind_simps prod.case
        unat_0 read_many.simps)
  moreover have "?q + length s + length ?bs + length ?ls + length ?ks + length ?us + length ?ns + length bk =
      q + length (write_header pt @ s @ write_arrays pt @ bk)"
    by (simp add: hdr arr)
  moreover have "same_proto (str_of strs) (view st2) pt ?p"
    using src'(4) ys(4) map_leD[OF ys(3)] by (auto simp: pt split: option.splits)
  ultimately show ?case using ys(2) map_le_trans[OF src'(3) ys(3)] by auto
qed

text \<open>All prototypes, by induction over the tree; the fuel is the length of the binary form.\<close>

lemma write_source_ok:
  "interner_ok strs \<Longrightarrow> write_source strs src =
     Inr (case map_option (str_of strs) src of Some s \<Rightarrow> 1 # str_bytes s | None \<Rightarrow> [0])"
  by (cases src) (simp_all add: write_source_def write_str_ok)

lemma write_reads:
  fixes os sz strs
  assumes ok: "interner_ok strs"
  shows "dumpable_kgc x \<Longrightarrow> \<exists>b. write_kgc strs x = Inr b \<and> b \<noteq> [] \<and> (\<forall>f. length b \<le> Suc f \<longrightarrow>
      reads os (read_kgc (read_proto f os sz) os sz) b (\<lambda>v y. same_kgc (str_of strs) v x y))"
    and "dumpable pt \<Longrightarrow> \<exists>b. write_proto strs pt = Inr b \<and> (\<forall>f. length b \<le> f \<longrightarrow>
      reads os (read_proto f os sz) b (\<lambda>v y. same_proto (str_of strs) v pt y))"
    and "dumpable_kgcs xs \<Longrightarrow> \<exists>b. write_kgcs strs xs = Inr b \<and> length xs \<le> length b \<and> (\<forall>f. length b \<le> Suc f \<longrightarrow>
      reads os (read_many_s (length xs) (read_kgc (read_proto f os sz) os sz)) b (\<lambda>v y. same_kgcs (str_of strs) v xs y))"
proof (induction x and pt and xs rule: dumpable_kgc_dumpable_dumpable_kgcs.induct)
  case (1 c)
  then obtain b where b: "write_proto strs c = Inr b"
    "\<And>f. length b \<le> f \<Longrightarrow> reads os (read_proto f os sz) b (\<lambda>v y. same_proto (str_of strs) v c y)" by auto
  then show ?case using read_kgc_proto[OF b(2)] by simp
next
  case (2 c)
  then obtain b where b: "write_proto strs c = Inr b"
    "\<And>f. length b \<le> f \<Longrightarrow> reads os (read_proto f os sz) b (\<lambda>v y. same_proto (str_of strs) v c y)" by auto
  then show ?case using read_kgc_proto[OF b(2)] by simp
next
  case (3 i)
  show ?case using read_kgc_str by (simp add: write_str_ok[OF ok])
next
  case (4 t)
  show ?case using read_kgc_table by simp
next
  case (5 t)
  show ?case using read_kgc_table by simp
next
  case (6 c)
  show ?case using read_kgc_cdata by simp
next
  case (7 bc lines kgc kn kstrv uv flags np fs fl nl uvn vn src)
  let ?pt = "Proto bc lines kgc kn kstrv uv flags np fs fl nl uvn vn src"
  let ?s = "case map_option (str_of strs) src of Some s \<Rightarrow> 1 # str_bytes s | None \<Rightarrow> [0]"
  obtain bk where bk: "write_kgcs strs kgc = Inr bk" "length kgc \<le> length bk" "\<And>f. length bk \<le> Suc f \<Longrightarrow>
      reads os (read_many_s (length kgc) (read_kgc (read_proto f os sz) os sz)) bk (\<lambda>v y. same_kgcs (str_of strs) v kgc y)"
    using 7 by auto
  let ?b = "write_header ?pt @ ?s @ write_arrays ?pt @ bk"
  have "reads os (read_proto f os sz) ?b (\<lambda>v y. same_proto (str_of strs) v ?pt y)" if f: "length ?b \<le> f" for f
  proof -
    have "length (write_header ?pt) = 36" by (simp add: write_header_def)
    then have "length bk + 36 \<le> f" using f by simp
    then obtain f' where f': "f = Suc f'" "length bk \<le> Suc f'" by (cases f) auto
    show ?thesis unfolding f'(1) read_proto.simps(2)
      using read_proto_with_reads[OF ok _ _ bk(3)[OF f'(2)] bk(2) refl refl] 7(2) by simp
  qed
  moreover have "write_proto strs ?pt = Inr ?b" using bk(1) by (simp add: write_source_ok[OF ok] Let_def)
  ultimately show ?case by blast
next
  case 8
  show ?case using read_kgcs_Nil[of os] by (auto simp del: read_many_s.simps same_kgcs.simps)
next
  case (9 x xs)
  obtain b where b: "write_kgc strs x = Inr b" "b \<noteq> []" "\<And>f. length b \<le> Suc f \<Longrightarrow>
      reads os (read_kgc (read_proto f os sz) os sz) b (\<lambda>v y. same_kgc (str_of strs) v x y)" using 9 by auto
  obtain b' where b': "write_kgcs strs xs = Inr b'" "length xs \<le> length b'" "\<And>f. length b' \<le> Suc f \<Longrightarrow>
      reads os (read_many_s (length xs) (read_kgc (read_proto f os sz) os sz)) b' (\<lambda>v y. same_kgcs (str_of strs) v xs y)"
    using 9 by auto
  have "reads os (read_many_s (length (x # xs)) (read_kgc (read_proto f os sz) os sz)) (b @ b')
      (\<lambda>v y. same_kgcs (str_of strs) v (x # xs) y)" if "length (b @ b') \<le> Suc f" for f
    using read_kgcs_Cons[OF b(3)[of f] b'(3)[of f]] that by simp
  moreover have "length (x # xs) \<le> length (b @ b')" using b(2) b'(2) by (cases b) simp_all
  ultimately show ?case using b(1) b'(1) by (auto simp del: read_many_s.simps same_kgcs.simps)
qed

section \<open>The reader ends\<close>

definition ended :: "panic + 'x \<Rightarrow> ('x \<Rightarrow> bool) \<Rightarrow> bool" where
  "ended r P \<longleftrightarrow> (case r of Inl e \<Rightarrow> e \<noteq> Diverges | Inr x \<Rightarrow> P x)"

lemma ended_Inr [simp]: "ended (Inr x) P = P x" by (simp add: ended_def)

lemma ended_bind: "ended r Q \<Longrightarrow> (\<And>x. Q x \<Longrightarrow> ended (f x) P) \<Longrightarrow> ended (rbind r f) P"
  by (cases r) (auto simp: ended_def)

lemma ended_bind2:
  "ended r (\<lambda>(x, q). Q q) \<Longrightarrow> (\<And>x q. Q q \<Longrightarrow> ended (f x q) P) \<Longrightarrow> ended (rbind r (\<lambda>(x, q). f x q)) P"
  by (cases r) (auto simp: ended_def)

lemma ended_bind3:
  "ended r (\<lambda>(x, q, st). Q q st) \<Longrightarrow> (\<And>x q st. Q q st \<Longrightarrow> ended (f x q st) P) \<Longrightarrow>
   ended (rbind r (\<lambda>(x, q, st). f x q st)) P"
  by (cases r) (auto simp: ended_def)

text \<open>Readers that only move forward inside the data; with an interner, its room covers the rest
  of the data.\<close>

definition total :: "'x reader \<Rightarrow> bool" where
  "total rd \<longleftrightarrow> (\<forall>d q. q \<le> length d \<longrightarrow> ended (rd d q) (\<lambda>(x, q'). q \<le> q' \<and> q' \<le> length d))"

definition within :: "os_alloc \<Rightarrow> bytes \<Rightarrow> nat \<Rightarrow> nat \<Rightarrow> interner \<Rightarrow> bool" where
  "within os d q q' st \<longleftrightarrow> q \<le> q' \<and> q' \<le> length d \<and> os_ok os \<and> interner_inv st \<and>
     length (by_id st) + length d \<le> 2 ^ 32 + q'"

definition total_s :: "os_alloc \<Rightarrow> nat \<Rightarrow> 'x sreader \<Rightarrow> bool" where
  "total_s os N rd \<longleftrightarrow> (\<forall>d q st. within os d (length d - N) q st \<longrightarrow>
     ended (rd d q st) (\<lambda>(x, q', st'). within os d q q' st'))"

lemma total_s_step:
  assumes "total rd" "within os d q0 q st" "\<And>x q'. within os d q q' st \<Longrightarrow> ended (f x q') P"
  shows "ended (rbind (rd d q) (\<lambda>(x, q). f x q)) P"
proof (rule ended_bind2)
  show "ended (rd d q) (\<lambda>(x, q'). q \<le> q' \<and> q' \<le> length d)"
    using assms(1,2) by (simp add: total_def within_def)
  show "ended (f x q') P" if "q \<le> q' \<and> q' \<le> length d" for x q'
    by (rule assms(3)) (use assms(2) that in \<open>simp add: within_def\<close>)
qed

lemma total_s_step3:
  assumes "total_s os N rd" "within os d (length d - N) q st"
    "\<And>x q' st'. within os d q q' st' \<Longrightarrow> ended (f x q' st') P"
  shows "ended (rbind (rd d q st) (\<lambda>(x, q, st). f x q st)) P"
proof (rule ended_bind3)
  show "ended (rd d q st) (\<lambda>(x, q', st'). within os d q q' st')" using assms(1,2) by (simp add: total_s_def)
qed (rule assms(3))

lemma within_trans: "within os d a b st \<Longrightarrow> within os d b c st' \<Longrightarrow> within os d a c st'"
  by (simp add: within_def)

lemma read_bytes_total: "total (read_bytes n)"
  by (simp add: total_def read_bytes_def slice_def ended_def)

lemma read_u8_ends: "ended (read_u8 d q) (\<lambda>(x, q'). q' = q + 1 \<and> q' \<le> length d)"
  by (simp add: read_u8_def idx_panic_def ended_def)

lemma read_le_total: "total (\<lambda>d q. rbind (read_bytes n d q) (\<lambda>(b, q'). Inr (f b, q')))"
  by (simp add: total_def read_bytes_def slice_def ended_def)

lemma totals: "total read_u8" "total read_u16" "total read_u32" "total read_f64"
proof -
  show "total read_u8" by (simp add: total_def read_u8_def idx_panic_def ended_def)
  show "total read_u16" "total read_u32" "total read_f64"
    using read_le_total[of 2 from_le] read_le_total[of 4 from_le] read_le_total[of 8 from_le]
    unfolding read_u16_def[abs_def] read_u32_def[abs_def] read_f64_def[abs_def] by blast+
qed

lemma total_bind:
  assumes "total rd" "\<And>x. total (f x)"
  shows "total (\<lambda>d q. rbind (rd d q) (\<lambda>(x, q'). f x d q'))"
  unfolding total_def
proof (intro allI impI, rule ended_bind2)
  fix d :: bytes and q assume "q \<le> length d"
  then show "ended (rd d q) (\<lambda>(x, q'). q \<le> q' \<and> q' \<le> length d)" using assms(1) by (simp add: total_def)
  fix x q' assume q': "q \<le> q' \<and> q' \<le> length d"
  then have "ended (f x d q') (\<lambda>(x, q''). q' \<le> q'' \<and> q'' \<le> length d)" using assms(2) by (simp add: total_def)
  then show "ended (f x d q') (\<lambda>(x, q''). q \<le> q'' \<and> q'' \<le> length d)"
    using q' by (auto simp: ended_def split: sum.splits)
qed

lemma total_return: "total (\<lambda>d q. Inr (x, q))" by (simp add: total_def)

lemma read_kstrv_total: "total read_kstrv" and read_uvname_total: "total read_uvname"
  unfolding read_kstrv_def[abs_def] read_uvname_def[abs_def]
  by (intro total_bind totals read_bytes_total total_return)+

lemma read_many_total: "total rd \<Longrightarrow> total (read_many n rd)"
proof (induction n)
  case 0
  show ?case by (simp add: total_def)
next
  case (Suc n)
  have e: "read_many (Suc n) rd = (\<lambda>d q. rbind (rd d q) (\<lambda>(x, q1). rbind (read_many n rd d q1) (\<lambda>(xs, q2). Inr (x # xs, q2))))"
    by (intro ext) simp
  show ?case unfolding e by (intro total_bind Suc total_return)
qed

lemma read_str_total: "total_s os N (read_str os sz)"
  unfolding total_s_def
proof (intro allI impI)
  fix d q st assume w: "within os d (length d - N) q st"
  show "ended (read_str os sz d q st) (\<lambda>(x, q', st'). within os d q q' st')"
  proof (cases "read_u32 d q")
    case (Inr r)
    obtain n q1 where r: "r = (n, q1)" by fastforce
    have q1: "q1 = q + 4" "q1 \<le> length d"
      using Inr r by (auto simp: read_u32_def read_bytes_def slice_def split: if_splits)
    have rb: "ended (read_bytes (unat n) d q1) (\<lambda>(b, q2). q1 \<le> q2 \<and> q2 \<le> length d)"
      using read_bytes_total q1(2) by (simp add: total_def)
    have inv: "os_ok os \<and> interner_inv st" "length (by_id st) + length d \<le> 2 ^ 32 + q"
      using w unfolding within_def by blast+
    have less: "length (by_id st) < 2 ^ 32" using inv(2) q1 by linarith
    have "ended (rbind (read_bytes (unat n) d q1) (\<lambda>(b, q2). rbind (intern os sz st b) (\<lambda>(i, st'). Inr (i, q2, st'))))
        (\<lambda>(x, q', st'). within os d q q' st')"
    proof (rule ended_bind2[OF rb])
      fix b q2 assume q2: "q1 \<le> q2 \<and> q2 \<le> length d"
      obtain i st' where i: "intern os sz st b = Inr (i, st')" "interner_inv st'"
        "length (by_id st') \<le> Suc (length (by_id st))" using strs.put_ok[OF inv(1) less, of sz b] by blast
      have "within os d q q2 st'" unfolding within_def using q1 q2 i(2,3) inv by (intro conjI) linarith+
      then show "ended (rbind (intern os sz st b) (\<lambda>(i, st'). Inr (i, q2, st'))) (\<lambda>(x, q', st'). within os d q q' st')"
        using i(1) by simp
    qed
    then show ?thesis using Inr r by (simp add: read_str_def)
  next
    case (Inl e)
    have "ended (read_u32 d q) (\<lambda>(x, q'). q \<le> q' \<and> q' \<le> length d)" using totals(3) w by (simp add: total_def within_def)
    then show ?thesis using Inl by (simp add: ended_def read_str_def)
  qed
qed

lemma total_s_return: "within os d q0 q st \<Longrightarrow> ended (Inr (x, q, st)) (\<lambda>(x, q', st'). within os d q q' st')"
  by (simp add: within_def)

lemma ended_mono: "ended r P \<Longrightarrow> (\<And>x. P x \<Longrightarrow> Q x) \<Longrightarrow> ended r Q"
  by (auto simp: ended_def split: sum.splits)

lemma read_source_total: "total_s os N (read_source os sz)"
  unfolding total_s_def read_source_def
proof (intro allI impI, rule total_s_step[OF totals(1)], assumption)
  fix d q st and x :: u8 and q1 assume w: "within os d (length d - N) q st" "within os d q q1 st"
  have w1: "within os d (length d - N) q1 st" using w by (rule within_trans)
  show "ended (if x \<noteq> 0 then rbind (read_str os sz d q1 st) (\<lambda>(i, q2, st'). Inr (Some i, q2, st')) else Inr (None, q1, st))
      (\<lambda>(x, q', st'). within os d q q' st')"
  proof (cases "x \<noteq> 0")
    case True
    have "ended (rbind (read_str os sz d q1 st) (\<lambda>(i, q2, st'). Inr (Some i, q2, st'))) (\<lambda>(x, q', st'). within os d q q' st')"
      by (rule total_s_step3[OF read_str_total w1]) (use within_trans[OF w(2)] in simp)
    then show ?thesis using True by simp
  qed (use w(2) in simp)
qed

lemma read_kgc_total:
  assumes "\<And>M. N = Suc M \<Longrightarrow> total_s os M rp"
  shows "total_s os N (read_kgc rp os sz)"
  unfolding total_s_def read_kgc_def
proof (intro allI impI, rule ended_bind2[OF read_u8_ends])
  fix d q st and tag :: u8 and q1
  assume w: "within os d (length d - N) q st" and q1: "q1 = q + 1 \<and> q1 \<le> length d"
  obtain M where M: "N = Suc M" using w q1 by (cases N) (auto simp: within_def)
  have ws: "within os d q q1 st" "within os d (length d - M) q1 st" using q1 w M unfolding within_def by auto
  obtain t where t: "tab_new 0 0 = Inr t" using tab_new_00 by blast
  note tr = within_trans[OF ws(1)]
  show "ended (if tag = 0 then rbind (read_str os sz d q1 st) (\<lambda>(i, q2, st'). Inr (KStr i, q2, st'))
      else if tag = 1 then rbind (rp d q1 st) (\<lambda>(p, q2, st'). Inr (KProto p, q2, st'))
      else if tag = 2 then rbind (tab_new 0 0) (\<lambda>t. Inr (KTable t, q1, st))
      else if tag = 3 then Inr (KCData \<lparr>ctypeid = 0, cd_data = [], cd_base = None, cd_offset = 0\<rparr>, q1, st)
      else Inl (AssertPanic ''bad kgc tag'')) (\<lambda>(x, q', st'). within os d q q' st')"
  proof -
    have "ended (rbind (read_str os sz d q1 st) (\<lambda>(i, q2, st'). Inr (KStr i, q2, st'))) (\<lambda>(x, q', st'). within os d q q' st')"
      by (rule total_s_step3[OF read_str_total ws(2)]) (use tr in simp)
    moreover have "ended (rbind (rp d q1 st) (\<lambda>(p, q2, st'). Inr (KProto p, q2, st'))) (\<lambda>(x, q', st'). within os d q q' st')"
      by (rule total_s_step3[OF assms[OF M] ws(2)]) (use tr in simp)
    ultimately show ?thesis using ws(1) t by (simp add: ended_def[of "Inl _"])
  qed
qed

lemma read_many_s_total: "total_s os N rd \<Longrightarrow> total_s os N (read_many_s n rd)"
proof (induction n)
  case 0
  show ?case by (simp add: total_s_def within_def)
next
  case (Suc n)
  note IH = Suc.IH[OF Suc.prems]
  show ?case unfolding total_s_def read_many_s.simps
  proof (intro allI impI, rule total_s_step3[OF Suc.prems], assumption)
    fix d q st q1 st1 and x :: 'a assume w: "within os d (length d - N) q st" "within os d q q1 st1"
    have w1: "within os d (length d - N) q1 st1" using w by (rule within_trans)
    show "ended (rbind (read_many_s n rd d q1 st1) (\<lambda>(xs, q2, st2). Inr (x # xs, q2, st2)))
        (\<lambda>(x, q', st'). within os d q q' st')"
      by (rule total_s_step3[OF IH w1]) (use within_trans[OF w(2)] in simp)
  qed
qed

lemma read_proto_with_total:
  assumes "total_s os N rk"
  shows "total_s os N (read_proto_with rk os sz)"
  unfolding total_s_def
proof (intro allI impI)
  fix d q st assume w: "within os d (length d - N) q st"
  note step = total_s_step[where os = os] and far = within_trans[of os d q]
  have wN: "within os d q a st1 \<Longrightarrow> within os d (length d - N) a st1" for a st1 using within_trans[OF w] .
  have kgcs: "ended (rbind (read_many_s n rk d a st1) (\<lambda>(kgc, q, st). Inr (F kgc, q, st))) (\<lambda>(x, q', st'). within os d q q' st')"
    if a: "within os d q a st1" for n a st1 and F :: "kgc list \<Rightarrow> proto"
    by (rule total_s_step3[OF read_many_s_total[OF assms] wN[OF a]]) (use far[OF a] in simp)
  show "ended (read_proto_with rk os sz d q st) (\<lambda>(x, q', st'). within os d q q' st')"
    unfolding read_proto_with_def
    apply (rule step[OF totals(2) w])
    apply (rule step[OF totals(1)], assumption, drule (1) far)+
    apply (rule step[OF totals(3)], assumption, drule (1) far)+
    apply (rule total_s_step3[OF read_source_total], erule wN, drule (1) far)
    apply (rule step[OF read_many_total[OF totals(3)]], assumption, drule (1) far)+
    apply (rule step[OF read_many_total[OF totals(4)]], assumption, drule (1) far)
    apply (rule step[OF read_many_total[OF read_kstrv_total]], assumption, drule (1) far)
    apply (rule step[OF read_many_total[OF totals(2)]], assumption, drule (1) far)
    apply (rule step[OF read_many_total[OF read_uvname_total]], assumption, drule (1) far)
    apply (erule kgcs)
    done
qed

lemma read_proto_total: "total_s os N (read_proto (Suc N) os sz)"
proof (induction N)
  case 0
  show ?case unfolding read_proto.simps(2) by (intro read_proto_with_total read_kgc_total) simp
next
  case (Suc N)
  show ?case unfolding read_proto.simps(2)[of "Suc N"]
    by (intro read_proto_with_total read_kgc_total) (use Suc in simp)
qed

section \<open>Properties\<close>

text \<open>C22. Dumping never panics, and reading the dump back into any interner with room gives a
  prototype with the same bytecode, lines, numbers, upvalues, upvalue names, header fields, source and
  string constants, recursively through the child prototypes; strings come back as ids with the same
  bytes, and every id already in use keeps its string. What the format does not carry is lost, and
  \<open>same_proto\<close> says so: a template table comes back as a new empty table and a cdata constant with no
  data, the cached string values and the names of the local variables come back as empty lists. The
  prototype has one line per instruction and upvalue names that are valid UTF-8 of less than \<open>2 ^ 16\<close>
  bytes (\<open>dumpable\<close>).\<close>

theorem undump_dump:
  assumes "os_ok os" and "interner_ok strs" and "dumpable pt" and "interner_inv st"
    and "\<And>b. dump pt strs = Inr b \<Longrightarrow> length (by_id st) + length b \<le> 2 ^ 32"
  shows "\<exists>b pt' st'. dump pt strs = Inr b \<and> undump os sz b st = Inr (Inr (pt', st')) \<and>
    same_proto (str_of strs) (view st') pt pt' \<and> interner_inv st' \<and> view st \<subseteq>\<^sub>m view st'"
proof -
  obtain b where b: "write_proto strs pt = Inr b"
    "\<And>f. length b \<le> f \<Longrightarrow> reads os (read_proto f os sz) b (\<lambda>v y. same_proto (str_of strs) v pt y)"
    using write_reads(2)[OF assms(2,3), of os sz] by blast
  let ?d = "MAGIC @ [VERSION] @ [0] @ b"
  have d: "dump pt strs = Inr ?d" by (simp add: dump_def b(1))
  have rm: "room os (length b + 0) st" using assms(1,4) assms(5)[OF d] by (simp add: room_def)
  have at: "starts ?d 5 (b @ [])" by (simp add: starts_def MAGIC_def)
  have "length b \<le> length ?d" by simp
  from readsD[OF b(2)[OF this] rm at] obtain pt' st' where
    r: "read_proto (length ?d) os sz ?d 5 st = Inr (pt', 5 + length b, st')"
      "room os 0 st'" "view st \<subseteq>\<^sub>m view st'" "same_proto (str_of strs) (view st') pt pt'" by blast
  have "read_u8 ?d 3 = Inr (VERSION, 4)" "read_u8 ?d 4 = Inr (0, 5)" by (simp_all add: read_u8_def MAGIC_def)
  moreover have "\<not> length ?d < 5" "take 3 ?d = MAGIC" by (simp_all add: MAGIC_def)
  ultimately have "undump os sz ?d st = Inr (Inr (pt', st'))"
    unfolding undump_def using r(1) by simp
  then show ?thesis using d r(2-4) by (auto simp: room_def)
qed

definition sample_proto :: "nat \<Rightarrow> proto" where
  "sample_proto i = Proto [0x4C, 0x4D] [1, 2] [KStr i, KProto (Proto [0x4A] [7] [] [] [] [] 0 0 1 7 0 [] [] None)]
     [0x3FF0000000000000] [] [0x8000] 2 0 2 0 3 [[120]] [] (Some i)"

theorem undump_dump_witness:
  "\<exists>st b pt' st'. interner_new first_fit 56 no_mem = Inr st \<and> dump (sample_proto (empty_sid st)) st = Inr b \<and>
    undump first_fit 56 b st = Inr (Inr (pt', st')) \<and>
    same_proto (str_of st) (view st') (sample_proto (empty_sid st)) pt'"
proof -
  obtain st where st: "interner_new first_fit 56 no_mem = Inr st" "interner_ok st" "length (by_id st) \<le> 1"
    using interner_new_ok[OF first_fit_ok] by blast
  have "str_of st (empty_sid st) = []" using st(2) by (simp add: interner_ok_def str_of_def)
  then have small: "dump (sample_proto (empty_sid st)) st = Inr b \<Longrightarrow> length (by_id st) + length b \<le> 2 ^ 32" for b
    using st(3) write_source_ok[OF st(2)] write_str_ok[OF st(2)]
    by (auto simp: dump_def sample_proto_def Let_def write_header_def write_arrays_def str_bytes_def write_uvname_def MAGIC_def)
  have "utf8_lossy [120] = [120]" by (simp add: utf8_lossy.simps utf8_chunk_def)
  then have "dumpable (sample_proto i)" for i by (simp add: sample_proto_def name_ok_def)
  moreover have "interner_inv st" using st(2) by (simp add: interner_ok_def)
  ultimately show ?thesis using undump_dump[OF first_fit_ok st(2) _ _ small, where sz = 56] st(1) by blast
qed

text \<open>C23. Reading any byte string ends: the nesting of prototypes is bounded by the data. The
  result is a prototype, one of the two errors, or a panic (an index out of range, or a bad
  constant tag), and the interner keeps its invariant.\<close>

theorem undump_ends:
  assumes "os_ok os" and "interner_inv st" and "length (by_id st) + length d \<le> 2 ^ 32"
  shows "undump os sz d st \<noteq> Inl Diverges \<and>
    (\<forall>pt st'. undump os sz d st = Inr (Inr (pt, st')) \<longrightarrow> interner_inv st') \<and>
    ((\<exists>e. undump os sz d st = Inr (Inl e)) \<longleftrightarrow> length d < 5 \<or> take 4 d \<noteq> MAGIC @ [VERSION])"
proof (cases "length d < 5 \<or> take 3 d \<noteq> MAGIC")
  case True
  then have "length d < 5 \<or> take 4 d \<noteq> MAGIC @ [VERSION]"
    by (auto simp: MAGIC_def dest: arg_cong[where f = "take 3"])
  then show ?thesis using True by (simp add: undump_def)
next
  case False
  have len: "3 < length d" "4 < length d" using False by simp_all
  have t4: "take 4 d = MAGIC @ [VERSION] \<longleftrightarrow> d ! 3 = VERSION"
    using False len take_Suc_conv_app_nth[of 3 d] by (simp add: eval_nat_numeral)
  have u: "undump os sz d st = (if d ! 3 \<noteq> VERSION then Inr (Inl (VersionMismatch (d ! 3)))
      else rbind (read_proto (length d) os sz d 5 st) (\<lambda>(pt, q, st'). Inr (Inr (pt, st'))))"
    using False len by (simp add: undump_def read_u8_def)
  obtain N where N: "length d = Suc N" using len by (cases "length d") auto
  have "within os d (length d - N) 5 st" using assms False N by (simp add: within_def)
  then have r: "ended (read_proto (length d) os sz d 5 st) (\<lambda>(x, q', st'). within os d 5 q' st')"
    using read_proto_total[of os N sz, folded N] unfolding total_s_def by blast
  show ?thesis
  proof (cases "d ! 3 = VERSION")
    case True
    then show ?thesis using r len(2) u t4 by (cases "read_proto (length d) os sz d 5 st") (auto simp: ended_def within_def)
  qed (use u t4 in simp)
qed

theorem undump_ends_witness:
  "\<exists>st. interner_new first_fit 56 no_mem = Inr st \<and>
    undump first_fit 56 [0x1b, 0x4C, 0x4A, 1, 0, 7] st \<noteq> Inl Diverges \<and>
    \<not> (\<exists>e. undump first_fit 56 [0x1b, 0x4C, 0x4A, 1, 0, 7] st = Inr (Inl e))"
proof -
  obtain st where st: "interner_new first_fit 56 no_mem = Inr st" "interner_ok st" "length (by_id st) \<le> 1"
    using interner_new_ok[OF first_fit_ok] by blast
  have inv: "interner_inv st" using st(2) by (simp add: interner_ok_def)
  have "length (by_id st) + length [0x1b, 0x4C, 0x4A, 1, 0, 7 :: u8] \<le> 2 ^ 32" using st(3) by simp
  from undump_ends[OF first_fit_ok inv this, of 56] show ?thesis using st(1) by (simp add: MAGIC_def VERSION_def)
qed

end
