(* ===== verification/LJ_Sort.thy ===== *)
theory LJ_Sort
  imports LJ_Table
begin

unbundle bit_operations_syntax

text \<open>
  The sort of \<open>table.sort\<close> (\<open>stdlib/sort.rs\<close>): quicksort with a median-of-three pivot,
  insertion sort on short ranges, heapsort below the depth limit. The comparison calls Lua
  code, which may change the interpreter state or raise: a comparator maps a state and two
  values to an error or a boolean and a new state. It is an argument of every operation, as in
  the source. The slice of items is local to the sort and is passed explicitly.
\<close>

section \<open>Items and comparisons\<close>

datatype 'e fault = Raised 'e | Panicked panic

type_synonym item = "32 word \<times> lua_value"
type_synonym ('s, 'e) comparator = "'s \<Rightarrow> lua_value \<Rightarrow> lua_value \<Rightarrow> 'e + (bool \<times> 's)"

definition item_at :: "item list \<Rightarrow> nat \<Rightarrow> 'e fault + item" where
  "item_at xs i = (if i < length xs then Inr (xs ! i) else Inl (Panicked IndexPanic))"

definition cmp_apply :: "('s, 'e) comparator \<Rightarrow> 's \<Rightarrow> lua_value \<Rightarrow> lua_value \<Rightarrow> 'e fault + (bool \<times> 's)" where
  "cmp_apply cmp s a b = (case cmp s a b of Inl e \<Rightarrow> Inl (Raised e) | Inr r \<Rightarrow> Inr r)"

text \<open>\<open>cmp_apply(l, comp, items[i].1, items[j].1)\<close>.\<close>

definition cmp_at :: "('s, 'e) comparator \<Rightarrow> item list \<Rightarrow> 's \<Rightarrow> nat \<Rightarrow> nat \<Rightarrow> 'e fault + (bool \<times> 's)" where
  "cmp_at cmp xs s i j =
     rbind (item_at xs i) (\<lambda>a. rbind (item_at xs j) (\<lambda>b. cmp_apply cmp s (snd a) (snd b)))"

definition swap_items :: "item list \<Rightarrow> nat \<Rightarrow> nat \<Rightarrow> 'e fault + item list" where
  "swap_items xs i j = rbind (item_at xs i) (\<lambda>a. rbind (item_at xs j) (\<lambda>b. Inr (xs[i := b, j := a])))"

text \<open>\<open>if cmp(items[i], items[j]) { items.swap(a, b) }\<close>.\<close>

definition swap_if :: "('s, 'e) comparator \<Rightarrow> nat \<Rightarrow> nat \<Rightarrow> nat \<Rightarrow> nat \<Rightarrow> item list \<Rightarrow> 's \<Rightarrow> 'e fault + (item list \<times> 's)" where
  "swap_if cmp i j a b xs s = rbind (cmp_at cmp xs s i j) (\<lambda>(r, s).
     if r then rbind (swap_items xs a b) (\<lambda>xs. Inr (xs, s)) else Inr (xs, s))"

text \<open>A subtraction on \<open>usize\<close>.\<close>

definition usub :: "nat \<Rightarrow> nat \<Rightarrow> 'e fault + nat" where
  "usub a b = (if b \<le> a then Inr (a - b) else Inl (Panicked ArithPanic))"

section \<open>Insertion sort\<close>

fun insert_down :: "('s, 'e) comparator \<Rightarrow> nat \<Rightarrow> nat \<Rightarrow> item list \<Rightarrow> 's \<Rightarrow> 'e fault + (item list \<times> 's)" where
  "insert_down cmp lo j xs s =
     (if lo < j
      then rbind (cmp_at cmp xs s j (j - 1)) (\<lambda>(r, s).
        if r then rbind (swap_items xs j (j - 1)) (\<lambda>xs. insert_down cmp lo (j - 1) xs s)
        else Inr (xs, s))
      else Inr (xs, s))"

declare insert_down.simps [simp del]

primrec insertion_loop :: "('s, 'e) comparator \<Rightarrow> nat \<Rightarrow> nat list \<Rightarrow> item list \<Rightarrow> 's \<Rightarrow> 'e fault + (item list \<times> 's)" where
  "insertion_loop cmp lo [] xs s = Inr (xs, s)"
| "insertion_loop cmp lo (i # is) xs s =
     rbind (insert_down cmp lo i xs s) (\<lambda>(xs, s). insertion_loop cmp lo is xs s)"

definition insertion_sort :: "('s, 'e) comparator \<Rightarrow> nat \<Rightarrow> nat \<Rightarrow> item list \<Rightarrow> 's \<Rightarrow> 'e fault + (item list \<times> 's)" where
  "insertion_sort cmp lo hi xs s = insertion_loop cmp lo [lo + 1..<hi + 1] xs s"

section \<open>Heapsort\<close>

text \<open>The child to swap with, or \<open>r\<close> itself.\<close>

definition largest_child :: "('s, 'e) comparator \<Rightarrow> nat \<Rightarrow> nat \<Rightarrow> nat \<Rightarrow> item list \<Rightarrow> 's \<Rightarrow> 'e fault + (nat \<times> 's)" where
  "largest_child cmp lo n r xs s =
     (let left = 2 * r + 1; right = left + 1
      in rbind (cmp_at cmp xs s (lo + r) (lo + left)) (\<lambda>(c, s).
           let largest = (if c then left else r)
           in if right < n
              then rbind (cmp_at cmp xs s (lo + largest) (lo + right)) (\<lambda>(c, s).
                     Inr (if c then right else largest, s))
              else Inr (largest, s)))"

lemma largest_child_cases:
  "largest_child cmp lo n r xs s = Inr (m, s') \<Longrightarrow> m \<noteq> r \<Longrightarrow>
   (m = 2 * r + 1 \<or> m = 2 * r + 2 \<and> 2 * r + 2 < n)"
  by (auto simp: largest_child_def Let_def rbind_eq_Inr split: if_splits)

function sift_down :: "('s, 'e) comparator \<Rightarrow> nat \<Rightarrow> nat \<Rightarrow> nat \<Rightarrow> item list \<Rightarrow> 's \<Rightarrow> 'e fault + (item list \<times> 's)" where
  "sift_down cmp lo n r xs s =
     (if n \<le> 2 * r + 1 then Inr (xs, s)
      else rbind (largest_child cmp lo n r xs s) (\<lambda>(m, s).
        if m = r then Inr (xs, s)
        else rbind (swap_items xs (lo + r) (lo + m)) (\<lambda>xs. sift_down cmp lo n m xs s)))"
  by pat_completeness auto
termination
  by (relation "measure (\<lambda>(cmp, lo, n, r, xs, s). n - r)") (auto dest!: largest_child_cases)

declare sift_down.simps [simp del]

primrec heap_build :: "('s, 'e) comparator \<Rightarrow> nat \<Rightarrow> nat \<Rightarrow> nat list \<Rightarrow> item list \<Rightarrow> 's \<Rightarrow> 'e fault + (item list \<times> 's)" where
  "heap_build cmp lo n [] xs s = Inr (xs, s)"
| "heap_build cmp lo n (i # is) xs s =
     rbind (sift_down cmp lo n i xs s) (\<lambda>(xs, s). heap_build cmp lo n is xs s)"

primrec heap_extract :: "('s, 'e) comparator \<Rightarrow> nat \<Rightarrow> nat list \<Rightarrow> item list \<Rightarrow> 's \<Rightarrow> 'e fault + (item list \<times> 's)" where
  "heap_extract cmp lo [] xs s = Inr (xs, s)"
| "heap_extract cmp lo (i # is) xs s =
     rbind (swap_items xs lo (lo + i)) (\<lambda>xs.
     rbind (sift_down cmp lo i 0 xs s) (\<lambda>(xs, s). heap_extract cmp lo is xs s))"

definition heapsort :: "('s, 'e) comparator \<Rightarrow> nat \<Rightarrow> nat \<Rightarrow> item list \<Rightarrow> 's \<Rightarrow> 'e fault + (item list \<times> 's)" where
  "heapsort cmp lo hi xs s =
     rbind (usub hi lo) (\<lambda>d.
       let n = d + 1
       in rbind (heap_build cmp lo n (rev [0..<n div 2]) xs s) (\<lambda>(xs, s).
            heap_extract cmp lo (rev [1..<n]) xs s))"

section \<open>Partition\<close>

function scan_up :: "('s, 'e) comparator \<Rightarrow> item list \<Rightarrow> lua_value \<Rightarrow> nat \<Rightarrow> nat \<Rightarrow> 's \<Rightarrow> 'e fault + (nat \<times> 's)" where
  "scan_up cmp xs pivot j i s =
     (if i < j
      then rbind (item_at xs i) (\<lambda>a. rbind (cmp_apply cmp s (snd a) pivot) (\<lambda>(r, s).
        if r then scan_up cmp xs pivot j (i + 1) s else Inr (i, s)))
      else Inr (i, s))"
  by pat_completeness auto
termination
  by (relation "measure (\<lambda>(cmp, xs, pivot, j, i, s). j - i)") auto

fun scan_down :: "('s, 'e) comparator \<Rightarrow> item list \<Rightarrow> lua_value \<Rightarrow> nat \<Rightarrow> nat \<Rightarrow> 's \<Rightarrow> 'e fault + (nat \<times> 's)" where
  "scan_down cmp xs pivot i j s =
     (if i < j
      then rbind (item_at xs j) (\<lambda>a. rbind (cmp_apply cmp s pivot (snd a)) (\<lambda>(r, s).
        if r then scan_down cmp xs pivot i (j - 1) s else Inr (j, s)))
      else Inr (j, s))"

declare scan_up.simps [simp del] scan_down.simps [simp del]

lemma scan_up_ge: "scan_up cmp xs pivot j i s = Inr (k, s') \<Longrightarrow> i \<le> k"
proof (induction cmp xs pivot j i s rule: scan_up.induct)
  case (1 cmp xs pivot j i s)
  show ?case using 1(2)
    by (subst (asm) scan_up.simps) (auto simp: rbind_eq_Inr split: if_splits dest: 1(1))
qed

lemma scan_down_le: "scan_down cmp xs pivot i j s = Inr (k, s') \<Longrightarrow> k \<le> j"
proof (induction cmp xs pivot i j s rule: scan_down.induct)
  case (1 cmp xs pivot i j s)
  show ?case using 1(2)
    by (subst (asm) scan_down.simps) (auto simp: rbind_eq_Inr split: if_splits dest: 1(1))
qed

text \<open>The loop from \<open>i += 1\<close> to the exchange; it returns the meeting point.\<close>

function partition_loop :: "('s, 'e) comparator \<Rightarrow> lua_value \<Rightarrow> nat \<Rightarrow> nat \<Rightarrow> item list \<Rightarrow> 's \<Rightarrow>
    'e fault + (nat \<times> item list \<times> 's)" where
  "partition_loop cmp pivot i j xs s =
     rbind (scan_up cmp xs pivot j (i + 1) s) (\<lambda>(i', s).
     rbind (usub j 1) (\<lambda>j1.
     rbind (scan_down cmp xs pivot i' j1 s) (\<lambda>(j', s).
       if j' \<le> i' then Inr (i', xs, s)
       else rbind (swap_items xs i' j') (\<lambda>xs. partition_loop cmp pivot i' j' xs s))))"
  by pat_completeness auto
termination
  by (relation "measure (\<lambda>(cmp, pivot, i, j, xs, s). j - i)")
    (auto dest!: scan_up_ge scan_down_le simp: usub_def split: if_splits)

declare partition_loop.simps [simp del]

definition partition_items :: "('s, 'e) comparator \<Rightarrow> nat \<Rightarrow> nat \<Rightarrow> item list \<Rightarrow> 's \<Rightarrow> 'e fault + (nat \<times> item list \<times> 's)" where
  "partition_items cmp lo hi xs s =
     rbind (usub hi lo) (\<lambda>d.
       let mid = lo + d div 2
       in rbind (swap_if cmp mid lo lo mid xs s) (\<lambda>(xs, s).
          rbind (swap_if cmp hi lo lo hi xs s) (\<lambda>(xs, s).
          rbind (swap_if cmp hi mid mid hi xs s) (\<lambda>(xs, s).
          rbind (item_at xs mid) (\<lambda>p.
          rbind (usub hi 1) (\<lambda>h1.
          rbind (swap_items xs mid h1) (\<lambda>xs.
          rbind (partition_loop cmp (snd p) lo h1 xs s) (\<lambda>(i, xs, s).
          rbind (swap_items xs i h1) (\<lambda>xs. Inr (i, xs, s))))))))))"

section \<open>Introsort\<close>

function introsort_impl :: "('s, 'e) comparator \<Rightarrow> nat \<Rightarrow> nat \<Rightarrow> nat \<Rightarrow> item list \<Rightarrow> 's \<Rightarrow> 'e fault + (item list \<times> 's)" where
  "introsort_impl cmp lo hi depth xs s =
     rbind (usub hi lo) (\<lambda>d.
       if d < 16 then insertion_sort cmp lo hi xs s
       else if depth = 0 then heapsort cmp lo hi xs s
       else rbind (partition_items cmp lo hi xs s) (\<lambda>(p, xs, s).
            rbind (if lo < p then introsort_impl cmp lo (p - 1) (depth - 1) xs s else Inr (xs, s)) (\<lambda>(xs, s).
            if p < hi then introsort_impl cmp (p + 1) hi (depth - 1) xs s else Inr (xs, s))))"
  by pat_completeness auto
termination
  by (relation "measure (\<lambda>(cmp, lo, hi, depth, xs, s). depth)") auto

declare introsort_impl.simps [simp del]

text \<open>\<open>n.next_power_of_two().trailing_zeros()\<close> is the exponent of the next power of two.\<close>

definition introsort :: "('s, 'e) comparator \<Rightarrow> item list \<Rightarrow> 's \<Rightarrow> 'e fault + (item list \<times> 's)" where
  "introsort cmp xs s =
     (let n = length xs
      in if n \<le> 1 then Inr (xs, s)
         else introsort_impl cmp 0 (n - 1) (floor_log2 (next_power_of_two n) * 2) xs s)"

section \<open>Comparators\<close>

text \<open>IEEE \<open><\<close>: the order of the sign-magnitude integers, in which the two zeros are equal.\<close>

definition f64_ord :: "f64 \<Rightarrow> int" where
  "f64_ord b = (let m = int (unat (take_bit 63 b)) in if f64_sign b then - m else m)"

definition f64_lt :: "f64 \<Rightarrow> f64 \<Rightarrow> bool" where
  "f64_lt a b \<longleftrightarrow> \<not> f64_is_nan a \<and> \<not> f64_is_nan b \<and> f64_ord a < f64_ord b"

fun bytes_lt :: "bytes \<Rightarrow> bytes \<Rightarrow> bool" where
  "bytes_lt xs [] = False"
| "bytes_lt [] (y # ys) = True"
| "bytes_lt (x # xs) (y # ys) \<longleftrightarrow> x < y \<or> x = y \<and> bytes_lt xs ys"

text \<open>What the comparators use of the interpreter: a call of a function with two arguments and one
  wanted result (\<open>None\<close> when it returns nothing; the stack frame is restored), the bytes of a
  string value, and the \<open>__lt\<close> metamethod of a value.\<close>

record ('s, 'e) lua_env =
  execute :: "'s \<Rightarrow> lua_value \<Rightarrow> lua_value \<Rightarrow> lua_value \<Rightarrow> 'e + (lua_value option \<times> 's)"
  string_bytes :: "'s \<Rightarrow> lua_value \<Rightarrow> bytes"
  meta_lt :: "'s \<Rightarrow> lua_value \<Rightarrow> lua_value"

definition compare_lua :: "('s, 'e) lua_env \<Rightarrow> lua_value \<Rightarrow> ('s, 'e) comparator" where
  "compare_lua env f s a b = rbind (execute env s f a b) (\<lambda>(r, s).
     Inr (case r of Some v \<Rightarrow> is_truthy v | None \<Rightarrow> False, s))"

definition compare_default :: "('s, 'e) lua_env \<Rightarrow> ('s, 'e) comparator" where
  "compare_default env s a b =
     (if is_number a \<and> is_number b then Inr (f64_lt a b, s)
      else if is_string a \<and> is_string b then Inr (bytes_lt (string_bytes env s a) (string_bytes env s b), s)
      else let mo = meta_lt env s a
           in if \<not> is_func mo then Inr (False, s) else compare_lua env mo s a b)"

datatype comparator_kind = Lua lua_value | Default

fun comparator_of :: "('s, 'e) lua_env \<Rightarrow> comparator_kind \<Rightarrow> ('s, 'e) comparator" where
  "comparator_of env (Lua f) = compare_lua env f"
| "comparator_of env Default = compare_default env"

end
