(* ===== verification/LJ_Sort_Spec.thy ===== *)
theory LJ_Sort_Spec
  imports LJ_Sort "HOL-Library.Multiset"
begin

unbundle bit_operations_syntax

text \<open>
  Correctness of the sort. The contract of a comparator is the locale \<open>comparing\<close>: some preorder
  \<open>le\<close> explains its answers. With the trivial preorder every comparator satisfies it, which
  gives memory safety and permutation; with the order of a consistent comparator it gives
  sortedness.
\<close>

section \<open>Permutations of a range\<close>

abbreviation swapped_items :: "item list \<Rightarrow> nat \<Rightarrow> nat \<Rightarrow> item list" where
  "swapped_items xs i j \<equiv> xs[i := xs ! j, j := xs ! i]"

lemma swap_items_ok [simp]:
  "i < length xs \<Longrightarrow> j < length xs \<Longrightarrow> swap_items xs i j = Inr (swapped_items xs i j)"
  by (simp add: swap_items_def item_at_def)

lemma nth_swapped:
  "i < length xs \<Longrightarrow> j < length xs \<Longrightarrow> k < length xs \<Longrightarrow>
   swapped_items xs i j ! k = (if k = j then xs ! i else if k = i then xs ! j else xs ! k)"
  by (auto simp: nth_list_update)

inductive perm_on :: "nat \<Rightarrow> nat \<Rightarrow> item list \<Rightarrow> item list \<Rightarrow> bool" for lo hi where
  perm_refl: "perm_on lo hi xs xs"
| perm_swap: "perm_on lo hi xs ys \<Longrightarrow> lo \<le> i \<Longrightarrow> i \<le> hi \<Longrightarrow> lo \<le> j \<Longrightarrow> j \<le> hi \<Longrightarrow> hi < length ys \<Longrightarrow>
    perm_on lo hi xs (swapped_items ys i j)"

lemma perm_trans: "perm_on lo hi ys zs \<Longrightarrow> perm_on lo hi xs ys \<Longrightarrow> perm_on lo hi xs zs"
  by (induction rule: perm_on.induct) (auto intro: perm_on.intros)

lemma perm_once:
  "lo \<le> i \<Longrightarrow> i \<le> hi \<Longrightarrow> lo \<le> j \<Longrightarrow> j \<le> hi \<Longrightarrow> hi < length xs \<Longrightarrow> perm_on lo hi xs (swapped_items xs i j)"
  by (rule perm_swap[OF perm_refl])

lemma perm_length: "perm_on lo hi xs ys \<Longrightarrow> length ys = length xs"
  by (induction rule: perm_on.induct) auto

lemma perm_widen:
  "perm_on lo hi xs ys \<Longrightarrow> lo' \<le> lo \<Longrightarrow> hi \<le> hi' \<Longrightarrow> hi' < length xs \<Longrightarrow> perm_on lo' hi' xs ys"
proof (induction rule: perm_on.induct)
  case (perm_swap xs ys i j)
  then show ?case using perm_length[OF perm_swap.hyps(1)] by (intro perm_on.perm_swap) auto
qed (rule perm_refl)

lemma perm_outside: "perm_on lo hi xs ys \<Longrightarrow> k < lo \<or> hi < k \<Longrightarrow> ys ! k = xs ! k"
  by (induction rule: perm_on.induct) auto

lemma perm_mset: "perm_on lo hi xs ys \<Longrightarrow> mset ys = mset xs"
proof (induction rule: perm_on.induct)
  case (perm_swap xs ys i j)
  then have "mset (swapped_items ys i j) = mset ys" by (intro mset_swap) auto
  then show ?case using perm_swap.IH by simp
qed simp

lemma perm_inside:
  "perm_on lo hi xs ys \<Longrightarrow> lo \<le> k \<Longrightarrow> k \<le> hi \<Longrightarrow> \<exists>m. lo \<le> m \<and> m \<le> hi \<and> ys ! k = xs ! m"
proof (induction arbitrary: k rule: perm_on.induct)
  case (perm_swap xs ys i j)
  have "swapped_items ys i j ! k = (if k = j then ys ! i else if k = i then ys ! j else ys ! k)"
    using perm_swap by (intro nth_swapped) auto
  then show ?case using perm_swap by (metis (no_types, lifting))
qed auto

section \<open>Outcomes\<close>

text \<open>A computation that does not panic, raises only what it may, and otherwise returns a value
  with property \<open>P\<close>.\<close>

definition outcome_ok :: "('e \<Rightarrow> bool) \<Rightarrow> ('x \<Rightarrow> bool) \<Rightarrow> 'e fault + 'x \<Rightarrow> bool" where
  "outcome_ok raise P r \<longleftrightarrow> (case r of Inl (Raised e) \<Rightarrow> raise e | Inl (Panicked p) \<Rightarrow> False | Inr x \<Rightarrow> P x)"

lemma outcome_Inr [simp]: "outcome_ok b P (Inr x) = P x"
  by (simp add: outcome_ok_def)

lemma outcome_bind:
  "outcome_ok b Q r \<Longrightarrow> (\<And>x. Q x \<Longrightarrow> outcome_ok b P (f x)) \<Longrightarrow> outcome_ok b P (rbind r f)"
  by (cases r) (auto simp: outcome_ok_def split: fault.splits)

lemma outcome_mono: "outcome_ok b Q r \<Longrightarrow> (\<And>x. Q x \<Longrightarrow> P x) \<Longrightarrow> outcome_ok b P r"
  by (auto simp: outcome_ok_def split: sum.splits fault.splits)

section \<open>The contract of a comparator\<close>

locale comparing =
  fixes cmp :: "('s, 'e) comparator" and I :: "'s \<Rightarrow> bool" and le :: "lua_value \<Rightarrow> lua_value \<Rightarrow> bool"
    and okv :: "lua_value \<Rightarrow> bool" and can_raise :: "'e \<Rightarrow> bool"
  assumes le_refl: "le a a"
    and le_trans: "okv a \<Longrightarrow> okv b \<Longrightarrow> okv c \<Longrightarrow> le a b \<Longrightarrow> le b c \<Longrightarrow> le a c"
    and cmp_le: "I s \<Longrightarrow> okv a \<Longrightarrow> okv b \<Longrightarrow> cmp s a b = Inr (r, s') \<Longrightarrow> I s' \<and> (if r then le a b else le b a)"
    and cmp_raise: "I s \<Longrightarrow> okv a \<Longrightarrow> okv b \<Longrightarrow> cmp s a b = Inl e \<Longrightarrow> can_raise e"
begin

text \<open>The state invariant together with the domain of the comparator.\<close>

definition J :: "item list \<Rightarrow> 's \<Rightarrow> bool" where
  "J xs s \<longleftrightarrow> I s \<and> list_all (\<lambda>x. okv (snd x)) xs"

lemma J_swap: "J xs s \<Longrightarrow> i < length xs \<Longrightarrow> j < length xs \<Longrightarrow> J (swapped_items xs i j) s"
  by (auto simp: J_def list_all_length nth_list_update)

lemma J_nth: "J xs s \<Longrightarrow> i < length xs \<Longrightarrow> okv (snd (xs ! i))"
  by (simp add: J_def list_all_length)

definition leq :: "lua_value \<Rightarrow> lua_value \<Rightarrow> bool" where
  "leq a b \<longleftrightarrow> okv a \<and> okv b \<and> le a b"

lemma leq_trans: "leq a b \<Longrightarrow> leq b c \<Longrightarrow> leq a c"
  unfolding leq_def using le_trans by blast

lemma cmp_apply_ok:
  "J xs s \<Longrightarrow> okv a \<Longrightarrow> okv b \<Longrightarrow>
   outcome_ok can_raise (\<lambda>(r, s'). J xs s' \<and> (if r then leq a b else leq b a)) (cmp_apply cmp s a b)"
  using cmp_le[of s a b] cmp_raise[of s a b]
  by (cases "cmp s a b") (auto simp: cmp_apply_def outcome_ok_def J_def leq_def)

definition below :: "item list \<Rightarrow> nat \<Rightarrow> nat \<Rightarrow> bool" where
  "below xs i j \<longleftrightarrow> leq (snd (xs ! i)) (snd (xs ! j))"

lemma below_refl: "J xs s \<Longrightarrow> i < length xs \<Longrightarrow> below xs i i"
  by (simp add: below_def leq_def le_refl J_nth)

lemma below_trans: "below xs i j \<Longrightarrow> below xs j k \<Longrightarrow> below xs i k"
  unfolding below_def by (rule leq_trans)

lemma cmp_at_ok:
  "J xs s \<Longrightarrow> i < length xs \<Longrightarrow> j < length xs \<Longrightarrow>
   outcome_ok can_raise (\<lambda>(r, s'). J xs s' \<and> (if r then below xs i j else below xs j i)) (cmp_at cmp xs s i j)"
  unfolding below_def using cmp_apply_ok[of xs s "snd (xs ! i)" "snd (xs ! j)"] J_nth[of xs s] by (simp add: cmp_at_def item_at_def)

definition sorted_on :: "nat \<Rightarrow> nat \<Rightarrow> item list \<Rightarrow> bool" where
  "sorted_on lo hi xs \<longleftrightarrow> (\<forall>a b. lo \<le> a \<longrightarrow> a < b \<longrightarrow> b \<le> hi \<longrightarrow> below xs a b)"

subsection \<open>Insertion sort\<close>

lemma insert_down_ok:
  "J xs s \<Longrightarrow> lo \<le> j \<Longrightarrow> j \<le> hi \<Longrightarrow> hi < length xs \<Longrightarrow>
   (\<And>a b. lo \<le> a \<Longrightarrow> a < b \<Longrightarrow> b \<le> hi \<Longrightarrow> b \<noteq> j \<Longrightarrow> below xs a b) \<Longrightarrow>
   outcome_ok can_raise (\<lambda>(ys, s'). J ys s' \<and> perm_on lo hi xs ys \<and> sorted_on lo hi ys) (insert_down cmp lo j xs s)"
proof (induction "j - lo" arbitrary: j xs s)
  case 0
  then have "sorted_on lo hi xs" by (auto simp: sorted_on_def)
  then show ?case using 0 by (simp add: insert_down.simps perm_refl)
next
  case (Suc d)
  have j: "lo < j" "j < length xs" "j - 1 < length xs" using Suc.hyps(2) Suc.prems by auto
  let ?ys = "swapped_items xs j (j - 1)"
  show ?case
  proof (subst insert_down.simps, simp only: j(1) if_True, rule outcome_bind[OF cmp_at_ok[OF Suc.prems(1) j(2,3)]], clarify)
    fix r s' assume s': "J xs s'" and r: "if r then below xs j (j - 1) else below xs (j - 1) j"
    show "outcome_ok can_raise (\<lambda>(ys, s'). J ys s' \<and> perm_on lo hi xs ys \<and> sorted_on lo hi ys)
      (if r then rbind (swap_items xs j (j - 1)) (\<lambda>xs. insert_down cmp lo (j - 1) xs s') else Inr (xs, s'))"
    proof (cases r)
      case True
      have nth: "?ys ! k = (if k = j - 1 then xs ! j else if k = j then xs ! (j - 1) else xs ! k)" if "k \<le> hi" for k
        using nth_swapped[OF j(2,3)] that Suc.prems(4) by simp
      have "below ?ys a b" if ab: "lo \<le> a" "a < b" "b \<le> hi" "b \<noteq> j - 1" for a b
      proof -
        have lt: "below xs j (j - 1)" using r True by simp
        consider "b = j" "a = j - 1" | "b = j" "a < j - 1" | "b \<noteq> j" by (use ab in linarith)
        then show ?thesis
        proof cases
          case 1
          have "?ys ! a = xs ! j" "?ys ! b = xs ! (j - 1)" using nth[of a] nth[of b] 1 ab by auto
          then show ?thesis using lt by (simp only: below_def)
        next
          case 2
          then have "below xs a (j - 1)" using Suc.prems(5)[of a "j - 1"] ab j Suc.prems(3) by simp
          moreover have "?ys ! a = xs ! a" "?ys ! b = xs ! (j - 1)" using nth[of a] nth[of b] 2 ab by auto
          ultimately show ?thesis by (simp only: below_def)
        next
          case 3
          let ?a = "if a = j - 1 then j else if a = j then j - 1 else a"
          have "lo \<le> ?a" "?a < b" using ab 3 j(1) by (auto split: if_splits)
          then have "below xs ?a b" using Suc.prems(5) ab 3 by blast
          moreover have "?ys ! a = xs ! ?a" "?ys ! b = xs ! b" using nth[of a] nth[of b] ab 3 by simp_all
          ultimately show ?thesis by (simp only: below_def)
        qed
      qed
      then have "outcome_ok can_raise (\<lambda>(zs, s'). J zs s' \<and> perm_on lo hi ?ys zs \<and> sorted_on lo hi zs)
          (insert_down cmp lo (j - 1) ?ys s')"
        using Suc.hyps(2) Suc.prems j J_swap[OF s' j(2,3)] by (intro Suc.hyps(1)) auto
      moreover have "perm_on lo hi xs ?ys" using j Suc.prems by (intro perm_once) auto
      ultimately show ?thesis using True j by (auto elim!: outcome_mono intro: perm_trans)
    next
      case False
      then have last: "below xs (j - 1) j" using r by simp
      have "below xs a b" if ab: "lo \<le> a" "a < b" "b \<le> hi" for a b
      proof (cases "b = j")
        case True
        then have "a = j - 1 \<or> below xs a (j - 1)" using Suc.prems(5)[of a "j - 1"] ab j Suc.prems(3) by linarith
        then show ?thesis using True last below_trans by blast
      qed (use Suc.prems(5) ab in blast)
      then show ?thesis using False s' by (simp add: sorted_on_def perm_refl)
    qed
  qed
qed

lemma insertion_loop_ok:
  "J xs s \<Longrightarrow> lo < i \<Longrightarrow> i \<le> Suc hi \<Longrightarrow> hi < length xs \<Longrightarrow> sorted_on lo (i - 1) xs \<Longrightarrow>
   outcome_ok can_raise (\<lambda>(ys, s'). J ys s' \<and> perm_on lo hi xs ys \<and> sorted_on lo hi ys)
     (insertion_loop cmp lo [i..<Suc hi] xs s)"
proof (induction "Suc hi - i" arbitrary: i xs s)
  case 0
  then have "i = Suc hi" by simp
  then show ?case using 0 by (simp add: perm_refl)
next
  case (Suc d)
  have i: "i \<le> hi" "[i..<Suc hi] = i # [Suc i..<Suc hi]" using Suc.hyps(2) by (auto simp: upt_conv_Cons)
  have "outcome_ok can_raise (\<lambda>(ys, s'). J ys s' \<and> perm_on lo i xs ys \<and> sorted_on lo i ys) (insert_down cmp lo i xs s)"
    using Suc.prems i(1) by (intro insert_down_ok) (auto simp: sorted_on_def)
  then show ?case unfolding i(2) insertion_loop.simps
  proof (rule outcome_bind, clarify)
    fix ys s' assume h: "J ys s'" "perm_on lo i xs ys" "sorted_on lo i ys"
    have len: "length ys = length xs" using perm_length[OF h(2)] .
    have "outcome_ok can_raise (\<lambda>(zs, s'). J zs s' \<and> perm_on lo hi ys zs \<and> sorted_on lo hi zs)
        (insertion_loop cmp lo [Suc i..<Suc hi] ys s')"
      using Suc.hyps(2) Suc.prems i(1) h len by (intro Suc.hyps(1)) auto
    moreover have "perm_on lo hi xs ys" using perm_widen[OF h(2)] i(1) Suc.prems by simp
    ultimately show "outcome_ok can_raise (\<lambda>(ys, s'). J ys s' \<and> perm_on lo hi xs ys \<and> sorted_on lo hi ys)
        (insertion_loop cmp lo [Suc i..<Suc hi] ys s')"
      by (auto elim!: outcome_mono intro: perm_trans)
  qed
qed

lemma insertion_sort_ok:
  "J xs s \<Longrightarrow> lo \<le> hi \<Longrightarrow> hi < length xs \<Longrightarrow>
   outcome_ok can_raise (\<lambda>(ys, s'). J ys s' \<and> perm_on lo hi xs ys \<and> sorted_on lo hi ys) (insertion_sort cmp lo hi xs s)"
  unfolding insertion_sort_def using insertion_loop_ok[of xs s lo "lo + 1" hi] by (simp add: sorted_on_def)

end

section \<open>Heapsort\<close>

definition child :: "nat \<Rightarrow> nat \<Rightarrow> bool" where
  "child k c \<longleftrightarrow> c = 2 * k + 1 \<or> c = 2 * k + 2"

lemma child_less: "child k c \<Longrightarrow> k < c" by (auto simp: child_def)

lemma child_unique: "child k c \<Longrightarrow> child m c \<Longrightarrow> k = m" unfolding child_def by presburger

context comparing
begin

definition heap_at :: "item list \<Rightarrow> nat \<Rightarrow> nat \<Rightarrow> nat \<Rightarrow> bool" where
  "heap_at xs lo n k \<longleftrightarrow> (\<forall>c. child k c \<longrightarrow> c < n \<longrightarrow> below xs (lo + c) (lo + k))"

lemma largest_child_ok:
  assumes "J xs s" "2 * r + 1 < n" "lo + n \<le> length xs"
  shows "outcome_ok can_raise (\<lambda>(m, s'). J xs s' \<and> (m = r \<or> child r m) \<and> m < n \<and>
      (\<forall>c. child r c \<or> c = r \<longrightarrow> c < n \<longrightarrow> below xs (lo + c) (lo + m))) (largest_child cmp lo n r xs s)"
proof -
  let ?l = "2 * r + 1" and ?r = "2 * r + 2"
  have b: "lo + r < length xs" "lo + ?l < length xs" using assms by auto
  show ?thesis unfolding largest_child_def Let_def
  proof (rule outcome_bind[OF cmp_at_ok[OF assms(1) b]], clarify)
    fix c s1 assume s1: "J xs s1" and c: "if c then below xs (lo + r) (lo + ?l) else below xs (lo + ?l) (lo + r)"
    define m where "m = (if c then ?l else r)"
    have m: "m = r \<or> child r m" "m < n" "below xs (lo + r) (lo + m)" "below xs (lo + ?l) (lo + m)"
      using c assms(2) below_refl[OF s1] b by (auto simp: m_def child_def)
    have fin: "outcome_ok can_raise (\<lambda>(m, s'). J xs s' \<and> (m = r \<or> child r m) \<and> m < n \<and>
      (\<forall>c. child r c \<or> c = r \<longrightarrow> c < n \<longrightarrow> below xs (lo + c) (lo + m)))
      (if ?r < n then rbind (cmp_at cmp xs s1 (lo + m) (lo + ?r)) (\<lambda>(c, s). Inr (if c then ?r else m, s)) else Inr (m, s1))"
    proof (cases "?r < n")
      case True
      have b2: "lo + m < length xs" "lo + ?r < length xs" using m(2) True assms(3) by auto
      have "outcome_ok can_raise (\<lambda>(m, s'). J xs s' \<and> (m = r \<or> child r m) \<and> m < n \<and>
        (\<forall>c. child r c \<or> c = r \<longrightarrow> c < n \<longrightarrow> below xs (lo + c) (lo + m)))
        (rbind (cmp_at cmp xs s1 (lo + m) (lo + ?r)) (\<lambda>(c, s). Inr (if c then ?r else m, s)))"
      proof (rule outcome_bind[OF cmp_at_ok[OF s1 b2]], clarify)
        fix d s2 assume s2: "J xs s2" and d: "if d then below xs (lo + m) (lo + ?r) else below xs (lo + ?r) (lo + m)"
        let ?m = "if d then ?r else m"
        have "below xs (lo + m) (lo + ?m)" "below xs (lo + ?r) (lo + ?m)" using d below_refl[OF s1] b2 by auto
        then have "below xs (lo + c) (lo + ?m)" if "child r c \<or> c = r" for c
          using that m(3,4) below_trans unfolding child_def by blast
        moreover have "?m = r \<or> child r ?m" "?m < n" using m True by (auto simp: child_def)
        ultimately show "outcome_ok can_raise (\<lambda>(m, s'). J xs s' \<and> (m = r \<or> child r m) \<and> m < n \<and>
          (\<forall>c. child r c \<or> c = r \<longrightarrow> c < n \<longrightarrow> below xs (lo + c) (lo + m))) (Inr (?m, s2))"
          using s2 by simp
      qed
      then show ?thesis using True by simp
    next
      case False
      then have "below xs (lo + c) (lo + m)" if "child r c \<or> c = r" "c < n" for c
        using that m(3,4) by (auto simp: child_def)
      then show ?thesis using False s1 m(1,2) by auto
    qed
    have r2: "?l + 1 = ?r" by simp
    show "outcome_ok can_raise (\<lambda>(m, s'). J xs s' \<and> (m = r \<or> child r m) \<and> m < n \<and>
      (\<forall>c. child r c \<or> c = r \<longrightarrow> c < n \<longrightarrow> below xs (lo + c) (lo + m)))
      (if ?l + 1 < n then rbind (cmp_at cmp xs s1 (lo + (if c then ?l else r)) (lo + (?l + 1)))
         (\<lambda>(ca, s). Inr (if ca then ?l + 1 else if c then ?l else r, s)) else Inr (if c then ?l else r, s1))"
      using fin unfolding m_def[symmetric] r2 .
  qed
qed

lemma heap_swap:
  assumes m: "child r m" "m < n" "lo + n \<le> length xs"
    and max: "\<And>c. child r c \<Longrightarrow> c < n \<Longrightarrow> below xs (lo + c) (lo + m)" "below xs (lo + r) (lo + m)"
    and heap: "\<And>k. r0 \<le> k \<Longrightarrow> k \<noteq> r \<Longrightarrow> heap_at xs lo n k" "r0 \<le> r"
    and up: "\<And>p c. r0 \<le> p \<Longrightarrow> child p r \<Longrightarrow> child r c \<Longrightarrow> c < n \<Longrightarrow> below xs (lo + c) (lo + p)"
    and ys: "ys = swapped_items xs (lo + r) (lo + m)"
  shows "\<And>k. r0 \<le> k \<Longrightarrow> k \<noteq> m \<Longrightarrow> heap_at ys lo n k"
    "\<And>p c. r0 \<le> p \<Longrightarrow> child p m \<Longrightarrow> child m c \<Longrightarrow> c < n \<Longrightarrow> below ys (lo + c) (lo + p)"
proof -
  have rm: "r < m" using child_less[OF m(1)] .
  let ?f = "\<lambda>x. if x = m then r else if x = r then m else x"
  have nth: "ys ! (lo + x) = xs ! (lo + ?f x)" if "x < n" for x
    using nth_swapped[of "lo + r" xs "lo + m" "lo + x"] that rm m by (simp add: ys)
  have bl: "below ys (lo + x) (lo + y) \<longleftrightarrow> below xs (lo + ?f x) (lo + ?f y)" if "x < n" "y < n" for x y
    using nth that by (simp add: below_def)
  show "heap_at ys lo n k" if k: "r0 \<le> k" "k \<noteq> m" for k
    unfolding heap_at_def
  proof (intro allI impI)
    fix c assume c: "child k c" "c < n"
    have kc: "k < c" "k < n" using child_less[OF c(1)] c(2) by auto
    show "below ys (lo + c) (lo + k)"
    proof (cases "k = r")
      case True
      have "c \<noteq> r" using kc True by simp
      then show ?thesis unfolding bl[OF c(2) kc(2)] using True rm max c by simp
    next
      case False
      have "c \<noteq> m" using child_unique[OF c(1), of r] m(1) False by blast
      moreover have "below xs (lo + m) (lo + k)" if "c = r" using up[OF k(1) _ m(1,2)] c(1) that by blast
      moreover have "below xs (lo + c) (lo + k)" using heap(1)[OF k(1) False] c by (simp add: heap_at_def)
      ultimately show ?thesis unfolding bl[OF c(2) kc(2)] using k(2) False by simp
    qed
  qed
  show "below ys (lo + c) (lo + p)" if h: "r0 \<le> p" "child p m" "child m c" "c < n" for p c
  proof -
    have p: "p = r" using child_unique[OF h(2) m(1)] .
    have "m < c" using child_less[OF h(3)] .
    moreover have "below xs (lo + c) (lo + m)" using heap(1)[of m] heap(2) rm h(3,4) by (simp add: heap_at_def)
    ultimately show ?thesis using bl[OF h(4), of r] rm m(2) p by simp
  qed
qed

lemma sift_down_ok:
  "J xs s \<Longrightarrow> lo + n \<le> length xs \<Longrightarrow> r0 \<le> r \<Longrightarrow> r < n \<Longrightarrow> (\<And>k. r0 \<le> k \<Longrightarrow> k \<noteq> r \<Longrightarrow> heap_at xs lo n k) \<Longrightarrow>
   (\<And>p c. r0 \<le> p \<Longrightarrow> child p r \<Longrightarrow> child r c \<Longrightarrow> c < n \<Longrightarrow> below xs (lo + c) (lo + p)) \<Longrightarrow>
   outcome_ok can_raise (\<lambda>(ys, s'). J ys s' \<and> perm_on lo (lo + n - 1) xs ys \<and> (\<forall>k\<ge>r0. heap_at ys lo n k))
     (sift_down cmp lo n r xs s)"
proof (induction "n - r" arbitrary: r xs s rule: less_induct)
  case less
  let ?P = "\<lambda>(ys, s'). J ys s' \<and> perm_on lo (lo + n - 1) xs ys \<and> (\<forall>k\<ge>r0. heap_at ys lo n k)"
  show ?case
  proof (cases "n \<le> 2 * r + 1")
    case True
    then have "heap_at xs lo n r" by (auto simp: heap_at_def child_def)
    then show ?thesis using True less.prems(1,5) by (auto simp: sift_down.simps intro: perm_refl)
  next
    case False
    have "outcome_ok can_raise ?P (rbind (largest_child cmp lo n r xs s) (\<lambda>(m, s).
        if m = r then Inr (xs, s) else rbind (swap_items xs (lo + r) (lo + m)) (\<lambda>xs. sift_down cmp lo n m xs s)))"
    proof (rule outcome_bind[OF largest_child_ok[OF less.prems(1) _ less.prems(2), of r]], use False in simp, clarify)
      fix m s1 assume s1: "J xs s1" and m: "m = r \<or> child r m" "m < n"
        "\<forall>c. child r c \<or> c = r \<longrightarrow> c < n \<longrightarrow> below xs (lo + c) (lo + m)"
      show "outcome_ok can_raise ?P (if m = r then Inr (xs, s1)
        else rbind (swap_items xs (lo + r) (lo + m)) (\<lambda>xs. sift_down cmp lo n m xs s1))"
      proof (cases "m = r")
        case True
        then have "heap_at xs lo n r" using m(3) by (simp add: heap_at_def)
        then show ?thesis using True s1 less.prems(5) by (auto intro: perm_refl)
      next
        case False
        then have ch: "child r m" "r < m" using m(1) child_less by auto
        let ?ys = "swapped_items xs (lo + r) (lo + m)"
        have max: "\<And>c. child r c \<Longrightarrow> c < n \<Longrightarrow> below xs (lo + c) (lo + m)" "below xs (lo + r) (lo + m)"
          using m(3) less.prems(4) by auto
        note hs = heap_swap[OF ch(1) m(2) less.prems(2) max less.prems(5) less.prems(3) less.prems(6) refl]
        have "outcome_ok can_raise (\<lambda>(zs, s'). J zs s' \<and> perm_on lo (lo + n - 1) ?ys zs \<and> (\<forall>k\<ge>r0. heap_at zs lo n k))
            (sift_down cmp lo n m ?ys s1)"
          using ch(2) m(2) less.prems(2,3) J_swap[OF s1] by (intro less.hyps hs) auto
        moreover have "perm_on lo (lo + n - 1) xs ?ys" using m(2) ch(2) less.prems(2) by (intro perm_once) auto
        moreover have "lo + r < length xs" "lo + m < length xs" using m(2) ch(2) less.prems(2) by auto
        ultimately show ?thesis using False by (auto elim!: outcome_mono intro: perm_trans)
      qed
    qed
    then show ?thesis by (subst sift_down.simps) (use False in simp)
  qed
qed

lemma heap_root: "J xs s \<Longrightarrow> lo + n \<le> length xs \<Longrightarrow> (\<And>k. heap_at xs lo n k) \<Longrightarrow> k < n \<Longrightarrow> below xs (lo + k) lo"
proof (induction k rule: less_induct)
  case (less k)
  show ?case
  proof (cases "k = 0")
    case False
    let ?p = "(k - 1) div 2"
    have ch: "child ?p k" using False unfolding child_def by presburger
    then have "below xs (lo + k) (lo + ?p)" using less.prems by (simp add: heap_at_def)
    moreover have "below xs (lo + ?p) lo" using less.IH[of ?p] child_less[OF ch] less.prems by simp
    ultimately show ?thesis by (rule below_trans)
  qed (use less.prems below_refl in simp)
qed

lemma heap_build_ok:
  "J xs s \<Longrightarrow> lo + n \<le> length xs \<Longrightarrow> i \<le> n \<Longrightarrow> (\<And>k. i \<le> k \<Longrightarrow> heap_at xs lo n k) \<Longrightarrow>
   outcome_ok can_raise (\<lambda>(ys, s'). J ys s' \<and> perm_on lo (lo + n - 1) xs ys \<and> (\<forall>k. heap_at ys lo n k))
     (heap_build cmp lo n (rev [0..<i]) xs s)"
proof (induction i arbitrary: xs s)
  case (Suc i)
  have e: "rev [0..<Suc i] = i # rev [0..<i]" by simp
  have "outcome_ok can_raise (\<lambda>(ys, s'). J ys s' \<and> perm_on lo (lo + n - 1) xs ys \<and> (\<forall>k\<ge>i. heap_at ys lo n k))
      (sift_down cmp lo n i xs s)"
    using Suc.prems by (intro sift_down_ok) (auto dest: child_less)
  then show ?case unfolding e heap_build.simps
  proof (rule outcome_bind, clarify)
    fix ys s' assume h: "J ys s'" "perm_on lo (lo + n - 1) xs ys" "\<forall>k\<ge>i. heap_at ys lo n k"
    have "outcome_ok can_raise (\<lambda>(zs, s'). J zs s' \<and> perm_on lo (lo + n - 1) ys zs \<and> (\<forall>k. heap_at zs lo n k))
        (heap_build cmp lo n (rev [0..<i]) ys s')"
      using Suc.prems h perm_length[OF h(2)] by (intro Suc.IH) auto
    then show "outcome_ok can_raise (\<lambda>(ys, s'). J ys s' \<and> perm_on lo (lo + n - 1) xs ys \<and> (\<forall>k. heap_at ys lo n k))
        (heap_build cmp lo n (rev [0..<i]) ys s')"
      using h(2) by (auto elim!: outcome_mono intro: perm_trans)
  qed
qed (auto intro: perm_refl)

text \<open>The heap of \<open>i + 1\<close> items, followed by the sorted tail, in which everything is larger.\<close>

definition heap_tail :: "item list \<Rightarrow> nat \<Rightarrow> nat \<Rightarrow> nat \<Rightarrow> bool" where
  "heap_tail xs lo i hi \<longleftrightarrow> (\<forall>k. heap_at xs lo (Suc i) k) \<and> sorted_on (lo + i + 1) hi xs \<and>
     (\<forall>a b. a \<le> i \<longrightarrow> lo + i < b \<longrightarrow> b \<le> hi \<longrightarrow> below xs (lo + a) b)"

lemma heap_tail_step:
  assumes J: "J xs s" and t: "heap_tail xs lo (Suc i) hi" and hi: "lo + Suc i \<le> hi" "hi < length xs"
    and ys: "ys = swapped_items xs lo (lo + Suc i)"
    and zs: "perm_on lo (lo + i) ys zs" "\<forall>k. heap_at zs lo (Suc i) k"
  shows "heap_tail zs lo i hi"
proof -
  have root: "below xs (lo + a) lo" if "a \<le> Suc i" for a
    using heap_root[OF J, of lo "Suc (Suc i)" a] t that hi by (simp add: heap_tail_def)
  have tail: "below xs (lo + a) b" if "a \<le> Suc i" "lo + Suc i < b" "b \<le> hi" for a b
    using t that by (simp add: heap_tail_def)
  have srt: "below xs a b" if "lo + Suc i < a" "a < b" "b \<le> hi" for a b
    using t that by (simp add: heap_tail_def sorted_on_def)
  have nth: "ys ! k = (if k = lo + Suc i then xs ! lo else if k = lo then xs ! (lo + Suc i) else xs ! k)" if "k \<le> hi" for k
    using nth_swapped[of lo xs "lo + Suc i" k] that hi by (simp add: ys)
  have out: "zs ! k = (if k = lo + Suc i then xs ! lo else xs ! k)" if "lo + i < k" "k \<le> hi" for k
    using perm_outside[OF zs(1), of k] nth[OF that(2)] that(1) by simp
  have inn: "\<exists>a'\<le>Suc i. zs ! (lo + a) = xs ! (lo + a')" if a: "a \<le> i" for a
  proof -
    obtain m where m: "lo \<le> m" "m \<le> lo + i" "zs ! (lo + a) = ys ! m" using perm_inside[OF zs(1), of "lo + a"] a by auto
    have "ys ! m = xs ! (lo + (if m = lo then Suc i else m - lo))" using nth[of m] m hi by simp
    moreover have "(if m = lo then Suc i else m - lo) \<le> Suc i" using m(2) by (simp add: le_diff_conv)
    ultimately show ?thesis using m(3) by metis
  qed
  have "below zs (lo + a) b" if ab: "a \<le> i" "lo + i < b" "b \<le> hi" for a b
  proof -
    obtain a' where a': "a' \<le> Suc i" "zs ! (lo + a) = xs ! (lo + a')" using inn[OF ab(1)] by blast
    then have "below xs (lo + a') (if b = lo + Suc i then lo else b)" using root tail ab by simp
    then show ?thesis using a'(2) out[OF ab(2,3)] by (simp add: below_def split: if_splits)
  qed
  moreover have "sorted_on (lo + i + 1) hi zs" unfolding sorted_on_def
  proof (intro allI impI)
    fix a b assume ab: "lo + i + 1 \<le> a" "a < b" "b \<le> hi"
    have "below xs (if a = lo + Suc i then lo else a) b" using tail[of 0 b] srt[of a b] ab by simp
    moreover have "zs ! a = xs ! (if a = lo + Suc i then lo else a)" "zs ! b = xs ! b" using out[of a] out[of b] ab by simp_all
    ultimately show "below zs a b" by (simp only: below_def)
  qed
  ultimately show ?thesis using zs(2) by (simp add: heap_tail_def)
qed

lemma heap_extract_ok:
  "J xs s \<Longrightarrow> lo + i \<le> hi \<Longrightarrow> hi < length xs \<Longrightarrow> heap_tail xs lo i hi \<Longrightarrow>
   outcome_ok can_raise (\<lambda>(ys, s'). J ys s' \<and> perm_on lo hi xs ys \<and> sorted_on lo hi ys)
     (heap_extract cmp lo (rev [1..<Suc i]) xs s)"
proof (induction i arbitrary: xs s)
  case 0
  have "below xs a b" if "lo \<le> a" "a < b" "b \<le> hi" for a b
    using 0(4) that by (cases "a = lo") (auto simp: heap_tail_def sorted_on_def)
  then show ?case using 0 by (simp add: sorted_on_def perm_refl)
next
  case (Suc i)
  have e: "rev [1..<Suc (Suc i)] = Suc i # rev [1..<Suc i]" by simp
  let ?ys = "swapped_items xs lo (lo + Suc i)"
  have b: "lo < length xs" "lo + Suc i < length xs" using Suc.prems by auto
  have heap: "heap_at ?ys lo (Suc i) k" if "k \<noteq> 0" for k
    unfolding heap_at_def
  proof (intro allI impI)
    fix c assume c: "child k c" "c < Suc i"
    have "below xs (lo + c) (lo + k)" using Suc.prems(4) c by (simp add: heap_tail_def heap_at_def)
    moreover have "?ys ! (lo + c) = xs ! (lo + c)" "?ys ! (lo + k) = xs ! (lo + k)"
      using child_less[OF c(1)] c(2) that b by (simp_all add: nth_list_update)
    ultimately show "below ?ys (lo + c) (lo + k)" by (simp only: below_def)
  qed
  have "outcome_ok can_raise (\<lambda>(zs, s'). J zs s' \<and> perm_on lo (lo + Suc i - 1) ?ys zs \<and> (\<forall>k\<ge>0. heap_at zs lo (Suc i) k))
      (sift_down cmp lo (Suc i) 0 ?ys s)"
    using Suc.prems b heap J_swap[OF Suc.prems(1) b] by (intro sift_down_ok) (auto dest: child_less)
  then have "outcome_ok can_raise (\<lambda>(ys, s'). J ys s' \<and> perm_on lo hi xs ys \<and> sorted_on lo hi ys)
      (rbind (sift_down cmp lo (Suc i) 0 ?ys s) (\<lambda>(xs, s). heap_extract cmp lo (rev [1..<Suc i]) xs s))"
  proof (rule outcome_bind, clarify)
    fix zs s' assume h: "J zs s'" "perm_on lo (lo + Suc i - 1) ?ys zs" "\<forall>k\<ge>0. heap_at zs lo (Suc i) k"
    have len: "length zs = length xs" using perm_length[OF h(2)] by simp
    have t: "heap_tail zs lo i hi" using h Suc.prems by (intro heap_tail_step[OF Suc.prems(1,4)]) auto
    have "perm_on lo hi ?ys zs" using perm_widen[OF h(2)] Suc.prems by simp
    moreover have "perm_on lo hi xs ?ys" using Suc.prems by (intro perm_once) auto
    ultimately have p: "perm_on lo hi xs zs" by (rule perm_trans)
    have "outcome_ok can_raise (\<lambda>(ys, s'). J ys s' \<and> perm_on lo hi zs ys \<and> sorted_on lo hi ys)
        (heap_extract cmp lo (rev [1..<Suc i]) zs s')"
      using Suc.prems h(1) len t by (intro Suc.IH) auto
    then show "outcome_ok can_raise (\<lambda>(ys, s'). J ys s' \<and> perm_on lo hi xs ys \<and> sorted_on lo hi ys)
        (heap_extract cmp lo (rev [1..<Suc i]) zs s')"
      using p by (auto elim!: outcome_mono intro: perm_trans)
  qed
  then show ?case unfolding e heap_extract.simps using b by simp
qed

lemma heapsort_ok:
  assumes "J xs s" "lo \<le> hi" "hi < length xs"
  shows "outcome_ok can_raise (\<lambda>(ys, s'). J ys s' \<and> perm_on lo hi xs ys \<and> sorted_on lo hi ys) (heapsort cmp lo hi xs s)"
proof -
  let ?n = "hi - lo + 1"
  have n: "lo + ?n - 1 = hi" "[1..<?n] = [1..<Suc (hi - lo)]" using assms(2) by auto
  have "outcome_ok can_raise (\<lambda>(ys, s'). J ys s' \<and> perm_on lo (lo + ?n - 1) xs ys \<and> (\<forall>k. heap_at ys lo ?n k))
      (heap_build cmp lo ?n (rev [0..<?n div 2]) xs s)"
    using assms by (intro heap_build_ok) (auto simp: heap_at_def child_def)
  then have "outcome_ok can_raise (\<lambda>(ys, s'). J ys s' \<and> perm_on lo hi xs ys \<and> sorted_on lo hi ys)
      (rbind (heap_build cmp lo ?n (rev [0..<?n div 2]) xs s) (\<lambda>(xs, s). heap_extract cmp lo (rev [1..<?n]) xs s))"
  proof (rule outcome_bind, clarify)
    fix ys s' assume h: "J ys s'" "perm_on lo (lo + ?n - 1) xs ys" "\<forall>k. heap_at ys lo ?n k"
    have p: "perm_on lo hi xs ys" using h(2) n(1) by simp
    have "heap_tail ys lo (hi - lo) hi" using h(3) assms(2) by (auto simp: heap_tail_def sorted_on_def)
    then have "outcome_ok can_raise (\<lambda>(zs, s'). J zs s' \<and> perm_on lo hi ys zs \<and> sorted_on lo hi zs)
        (heap_extract cmp lo (rev [1..<Suc (hi - lo)]) ys s')"
      using assms h(1) perm_length[OF p] by (intro heap_extract_ok) auto
    then show "outcome_ok can_raise (\<lambda>(ys, s'). J ys s' \<and> perm_on lo hi xs ys \<and> sorted_on lo hi ys)
        (heap_extract cmp lo (rev [1..<?n]) ys s')"
      unfolding n(2) using p by (auto elim!: outcome_mono intro: perm_trans)
  qed
  then show ?thesis using assms(2) by (simp add: heapsort_def usub_def)
qed

end

end
