(* ===== verification/LJ_Sort_Quick.thy ===== *)
theory LJ_Sort_Quick
  imports LJ_Sort_Spec
begin

unbundle bit_operations_syntax

text \<open>
  The quicksort part of the sort: the median-of-three pivot, the two scans and the exchange
  loop, and the whole introsort; then the properties of the component.
\<close>

section \<open>Partition\<close>

context comparing
begin

lemma swap_if_ok:
  assumes "J xs s" "i < length xs" "j < length xs"
  shows "outcome_ok can_raise (\<lambda>(ys, s'). J ys s' \<and> (ys = xs \<and> below xs j i \<or> ys = swapped_items xs j i \<and> below xs i j))
    (swap_if cmp i j j i xs s)"
  unfolding swap_if_def by (rule outcome_bind[OF cmp_at_ok[OF assms]]) (use assms(2,3) in \<open>auto split: if_splits intro: J_swap\<close>)

text \<open>The three conditional exchanges leave the median in the middle.\<close>

lemma swap_if_median:
  assumes "J xs s" "lo < mid" "mid < hi" "hi < length xs"
  shows "outcome_ok can_raise (\<lambda>(ys, s'). J ys s' \<and> perm_on lo hi xs ys \<and> below ys lo mid) (swap_if cmp mid lo lo mid xs s)"
    "below xs lo mid \<Longrightarrow> outcome_ok can_raise (\<lambda>(ys, s'). J ys s' \<and> perm_on lo hi xs ys \<and> below ys lo mid \<and> below ys lo hi)
       (swap_if cmp hi lo lo hi xs s)"
    "below xs lo mid \<Longrightarrow> below xs lo hi \<Longrightarrow>
     outcome_ok can_raise (\<lambda>(ys, s'). J ys s' \<and> perm_on lo hi xs ys \<and> below ys lo mid \<and> below ys mid hi)
       (swap_if cmp hi mid mid hi xs s)"
proof -
  have b: "lo < length xs" "mid < length xs" "hi < length xs" using assms by auto
  have p: "perm_on lo hi xs (swapped_items xs a c)" if "lo \<le> a" "a \<le> hi" "lo \<le> c" "c \<le> hi" for a c
    using that assms(4) by (rule perm_once)
  have bs: "below (swapped_items xs a c) u w \<longleftrightarrow>
      below xs (if u = c then a else if u = a then c else u) (if w = c then a else if w = a then c else w)"
    if "a < length xs" "c < length xs" "u < length xs" "w < length xs" for a c u w
    using that by (simp add: below_def nth_swapped)
  show "outcome_ok can_raise (\<lambda>(ys, s'). J ys s' \<and> perm_on lo hi xs ys \<and> below ys lo mid) (swap_if cmp mid lo lo mid xs s)"
    by (rule outcome_mono[OF swap_if_ok[OF assms(1) b(2,1)]])
      (use assms p[of lo mid] bs[OF b(1,2) b(1,2)] in \<open>auto intro: perm_refl\<close>)
  show "outcome_ok can_raise (\<lambda>(ys, s'). J ys s' \<and> perm_on lo hi xs ys \<and> below ys lo mid \<and> below ys lo hi)
       (swap_if cmp hi lo lo hi xs s)" if m: "below xs lo mid"
  proof (rule outcome_mono[OF swap_if_ok[OF assms(1) b(3,1)]], clarify)
    fix ys s' assume h: "ys = xs \<and> below xs lo hi \<or> ys = swapped_items xs lo hi \<and> below xs hi lo"
    have "below ys lo mid \<and> below ys lo hi \<and> perm_on lo hi xs ys"
    proof (cases "ys = xs \<and> below xs lo hi")
      case False
      then have y: "ys = swapped_items xs lo hi" "below xs hi lo" using h by auto
      have "below xs hi mid" using below_trans[OF y(2) m] .
      then show ?thesis using y assms p[of lo hi] bs[OF b(1,3) b(1,2)] bs[OF b(1,3) b(1,3)] by simp
    qed (use m in \<open>auto intro: perm_refl\<close>)
    then show "perm_on lo hi xs ys \<and> below ys lo mid \<and> below ys lo hi" by blast
  qed
  show "outcome_ok can_raise (\<lambda>(ys, s'). J ys s' \<and> perm_on lo hi xs ys \<and> below ys lo mid \<and> below ys mid hi)
       (swap_if cmp hi mid mid hi xs s)" if m: "below xs lo mid" "below xs lo hi"
  proof (rule outcome_mono[OF swap_if_ok[OF assms(1) b(3,2)]], clarify)
    fix ys s' assume h: "ys = xs \<and> below xs mid hi \<or> ys = swapped_items xs mid hi \<and> below xs hi mid"
    have "below ys lo mid \<and> below ys mid hi \<and> perm_on lo hi xs ys"
    proof (cases "ys = xs \<and> below xs mid hi")
      case False
      then have y: "ys = swapped_items xs mid hi" "below xs hi mid" using h by auto
      then show ?thesis using m assms p[of mid hi] bs[OF b(2,3) b(1,2)] bs[OF b(2,3) b(2,3)] by simp
    qed (use m in \<open>auto intro: perm_refl\<close>)
    then show "perm_on lo hi xs ys \<and> below ys lo mid \<and> below ys mid hi" by blast
  qed
qed

lemma scan_up_ok:
  "J xs s \<Longrightarrow> i \<le> j \<Longrightarrow> j < length xs \<Longrightarrow> okv pv \<Longrightarrow>
   outcome_ok can_raise (\<lambda>(k, s'). J xs s' \<and> i \<le> k \<and> k \<le> j \<and> (\<forall>m. i \<le> m \<longrightarrow> m < k \<longrightarrow> leq (snd (xs ! m)) pv) \<and>
     (k < j \<longrightarrow> leq pv (snd (xs ! k)))) (scan_up cmp xs pv j i s)"
proof (induction "j - i" arbitrary: i s)
  case 0
  then show ?case by (subst scan_up.simps) auto
next
  case (Suc d)
  have i: "i < j" "i < length xs" using Suc.hyps(2) Suc.prems by auto
  let ?P = "\<lambda>i (k, s'). J xs s' \<and> i \<le> k \<and> k \<le> j \<and> (\<forall>m. i \<le> m \<longrightarrow> m < k \<longrightarrow> leq (snd (xs ! m)) pv) \<and> (k < j \<longrightarrow> leq pv (snd (xs ! k)))"
  have "outcome_ok can_raise (?P i) (rbind (cmp_apply cmp s (snd (xs ! i)) pv) (\<lambda>(r, s).
      if r then scan_up cmp xs pv j (i + 1) s else Inr (i, s)))"
  proof (rule outcome_bind[OF cmp_apply_ok[OF Suc.prems(1) J_nth[OF Suc.prems(1) i(2)] Suc.prems(4)]], clarify)
    fix r s1 assume s1: "J xs s1" and r: "if r then leq (snd (xs ! i)) pv else leq pv (snd (xs ! i))"
    show "outcome_ok can_raise (?P i) (if r then scan_up cmp xs pv j (i + 1) s1 else Inr (i, s1))"
    proof (cases r)
      case True
      have "outcome_ok can_raise (?P (i + 1)) (scan_up cmp xs pv j (i + 1) s1)"
        using Suc.hyps(2) i Suc.prems s1 by (intro Suc.hyps(1)) auto
      then have "outcome_ok can_raise (?P i) (scan_up cmp xs pv j (i + 1) s1)"
        by (rule outcome_mono) (use True r in \<open>auto simp: Suc_le_eq nat_less_le\<close>)
      then show ?thesis using True by simp
    qed (use r s1 i in auto)
  qed
  then show ?case by (subst scan_up.simps) (use i in \<open>simp add: item_at_def\<close>)
qed

lemma scan_down_ok:
  "J xs s \<Longrightarrow> j < length xs \<Longrightarrow> okv pv \<Longrightarrow>
   outcome_ok can_raise (\<lambda>(k, s'). J xs s' \<and> k \<le> j \<and> (i \<le> j \<longrightarrow> i \<le> k) \<and> (\<forall>m. k < m \<longrightarrow> m \<le> j \<longrightarrow> leq pv (snd (xs ! m))) \<and>
     (i < k \<longrightarrow> leq (snd (xs ! k)) pv)) (scan_down cmp xs pv i j s)"
proof (induction j arbitrary: s)
  case 0
  then show ?case by (subst scan_down.simps) auto
next
  case (Suc j)
  let ?P = "\<lambda>j (k, s'). J xs s' \<and> k \<le> j \<and> (i \<le> j \<longrightarrow> i \<le> k) \<and> (\<forall>m. k < m \<longrightarrow> m \<le> j \<longrightarrow> leq pv (snd (xs ! m))) \<and>
     (i < k \<longrightarrow> leq (snd (xs ! k)) pv)"
  show ?case
  proof (cases "i < Suc j")
    case True
    have "outcome_ok can_raise (?P (Suc j)) (rbind (cmp_apply cmp s pv (snd (xs ! Suc j))) (\<lambda>(r, s).
        if r then scan_down cmp xs pv i j s else Inr (Suc j, s)))"
    proof (rule outcome_bind[OF cmp_apply_ok[OF Suc.prems(1,3) J_nth[OF Suc.prems(1,2)]]], clarify)
      fix r s1 assume s1: "J xs s1" and r: "if r then leq pv (snd (xs ! Suc j)) else leq (snd (xs ! Suc j)) pv"
      show "outcome_ok can_raise (?P (Suc j)) (if r then scan_down cmp xs pv i j s1 else Inr (Suc j, s1))"
      proof (cases r)
        case True
        have "outcome_ok can_raise (?P j) (scan_down cmp xs pv i j s1)" using Suc.prems s1 by (intro Suc.IH) auto
        then have "outcome_ok can_raise (?P (Suc j)) (scan_down cmp xs pv i j s1)"
          by (rule outcome_mono) (use True r \<open>i < Suc j\<close> in \<open>auto simp: le_Suc_eq\<close>)
        then show ?thesis using True by simp
      qed (use r s1 True in auto)
    qed
    then show ?thesis by (subst scan_down.simps, unfold diff_Suc_1) (use True Suc.prems in \<open>simp add: item_at_def\<close>)
  next
    case False
    then show ?thesis using Suc.prems by (subst scan_down.simps) auto
  qed
qed

lemma partition_loop_ok:
  "J xs s \<Longrightarrow> lo \<le> i \<Longrightarrow> i < j \<Longrightarrow> j \<le> h \<Longrightarrow> h < length xs \<Longrightarrow>
   (\<And>k. lo \<le> k \<Longrightarrow> k \<le> i \<Longrightarrow> leq (snd (xs ! k)) pv) \<Longrightarrow> (\<And>k. j \<le> k \<Longrightarrow> k \<le> h \<Longrightarrow> leq pv (snd (xs ! k))) \<Longrightarrow>
   outcome_ok can_raise (\<lambda>(p, ys, s'). J ys s' \<and> lo < p \<and> p \<le> h \<and> perm_on (lo + 1) (h - 1) xs ys \<and>
       (\<forall>k. lo \<le> k \<longrightarrow> k < p \<longrightarrow> leq (snd (ys ! k)) pv) \<and> (\<forall>k. p \<le> k \<longrightarrow> k \<le> h \<longrightarrow> leq pv (snd (ys ! k))))
     (partition_loop cmp pv i j xs s)"
proof (induction "j - i" arbitrary: i j xs s rule: less_induct)
  case less
  let ?P = "\<lambda>xs (p, ys, s'). J ys s' \<and> lo < p \<and> p \<le> h \<and> perm_on (lo + 1) (h - 1) xs ys \<and>
       (\<forall>k. lo \<le> k \<longrightarrow> k < p \<longrightarrow> leq (snd (ys ! k)) pv) \<and> (\<forall>k. p \<le> k \<longrightarrow> k \<le> h \<longrightarrow> leq pv (snd (ys ! k)))"
  have up: "i + 1 \<le> j" "j < length xs" using less.prems by auto
  have pv: "okv pv" using less.prems(6)[of i] less.prems(2) by (simp add: leq_def)
  show ?case
  proof (subst partition_loop.simps, rule outcome_bind[OF scan_up_ok[OF less.prems(1) up pv]], clarify)
    fix i' s1 assume s1: "J xs s1" and i': "i + 1 \<le> i'" "i' \<le> j"
      and low: "\<forall>m. i + 1 \<le> m \<longrightarrow> m < i' \<longrightarrow> leq (snd (xs ! m)) pv" and gei: "i' < j \<longrightarrow> leq pv (snd (xs ! i'))"
    have ge: "leq pv (snd (xs ! i'))" using gei less.prems(4,7) i' by (cases "i' < j") auto
    have lows: "leq (snd (xs ! k)) pv" if "lo \<le> k" "k < i'" for k
      using low less.prems(6)[of k] that by (cases "k \<le> i") auto
    have j1: "j - 1 < length xs" using up by simp
    have "outcome_ok can_raise (?P xs) (rbind (scan_down cmp xs pv i' (j - 1) s1) (\<lambda>(j', s).
        if j' \<le> i' then Inr (i', xs, s) else rbind (swap_items xs i' j') (\<lambda>xs. partition_loop cmp pv i' j' xs s)))"
    proof (rule outcome_bind[OF scan_down_ok[OF s1 j1 pv]], clarify)
      fix j' s2 assume s2: "J xs s2" and j': "j' \<le> j - 1" "i' \<le> j - 1 \<longrightarrow> i' \<le> j'"
        and high: "\<forall>m. j' < m \<longrightarrow> m \<le> j - 1 \<longrightarrow> leq pv (snd (xs ! m))" and lej: "i' < j' \<longrightarrow> leq (snd (xs ! j')) pv"
      have highs: "leq pv (snd (xs ! k))" if "j' < k" "k \<le> h" for k
        using high less.prems(7)[of k] that by (cases "k \<le> j - 1") auto
      show "outcome_ok can_raise (?P xs) (if j' \<le> i' then Inr (i', xs, s2)
          else rbind (swap_items xs i' j') (\<lambda>xs. partition_loop cmp pv i' j' xs s2))"
      proof (cases "j' \<le> i'")
        case True
        have "leq pv (snd (xs ! k))" if "i' \<le> k" "k \<le> h" for k
          using highs[of k] ge that True by (cases "k = i'") auto
        then show ?thesis using True s2 lows i' less.prems by (auto intro: perm_refl)
      next
        case False
        let ?ys = "swapped_items xs i' j'"
        have b: "i' < length xs" "j' < length xs" using False j' j1 by auto
        have nth: "?ys ! k = (if k = j' then xs ! i' else if k = i' then xs ! j' else xs ! k)" if "k \<le> h" for k
          using nth_swapped[OF b] that less.prems(5) by simp
        have jh: "j' \<le> h" "i' \<le> h" using j' False less.prems(4) by auto
        have l: "leq (snd (?ys ! k)) pv" if "lo \<le> k" "k \<le> i'" for k
          using nth[of k] lows[of k] lej False that jh by (cases "k = i'") auto
        have g: "leq pv (snd (?ys ! k))" if "j' \<le> k" "k \<le> h" for k
          using nth[of k] highs[of k] ge False that by (cases "k = j'") auto
        have "outcome_ok can_raise (?P ?ys) (partition_loop cmp pv i' j' ?ys s2)"
          using False i' j' less.prems J_swap[OF s2 b] jh l g by (intro less.hyps) auto
        moreover have "perm_on (lo + 1) (h - 1) xs ?ys"
          using False i' j' less.prems by (intro perm_once) auto
        ultimately have "outcome_ok can_raise (?P xs) (partition_loop cmp pv i' j' ?ys s2)"
          by (auto elim!: outcome_mono intro: perm_trans)
        then show ?thesis using False b by simp
      qed
    qed
    then show "outcome_ok can_raise (?P xs) (rbind (usub j 1) (\<lambda>j1. rbind (scan_down cmp xs pv i' j1 s1) (\<lambda>(j', s).
        if j' \<le> i' then Inr (i', xs, s) else rbind (swap_items xs i' j') (\<lambda>xs. partition_loop cmp pv i' j' xs s))))"
      using up by (simp add: usub_def)
  qed
qed

lemma partition_ok:
  assumes "J xs s" "lo + 16 \<le> hi" "hi < length xs"
  shows "outcome_ok can_raise (\<lambda>(p, ys, s'). J ys s' \<and> lo \<le> p \<and> p \<le> hi \<and> perm_on lo hi xs ys \<and>
      (\<forall>k. lo \<le> k \<longrightarrow> k < p \<longrightarrow> below ys k p) \<and> (\<forall>k. p < k \<longrightarrow> k \<le> hi \<longrightarrow> below ys p k))
    (partition_items cmp lo hi xs s)"
proof -
  let ?P = "\<lambda>(p, ys, s'). J ys s' \<and> lo \<le> p \<and> p \<le> hi \<and> perm_on lo hi xs ys \<and>
      (\<forall>k. lo \<le> k \<longrightarrow> k < p \<longrightarrow> below ys k p) \<and> (\<forall>k. p < k \<longrightarrow> k \<le> hi \<longrightarrow> below ys p k)"
  define mid where "mid = lo + (hi - lo) div 2"
  define h where "h = hi - 1"
  have m: "lo < mid" "mid < h" "h < hi" "mid < hi" "Suc h = hi" using assms(2) by (auto simp: mid_def h_def)
  have rest: "outcome_ok can_raise ?P (rbind (item_at ys mid) (\<lambda>p. rbind (usub hi 1) (\<lambda>h1. rbind (swap_items ys mid h1) (\<lambda>xs.
        rbind (partition_loop cmp (snd p) lo h1 xs s1) (\<lambda>(i, xs, s). rbind (swap_items xs i h1) (\<lambda>xs. Inr (i, xs, s)))))))"
    if ys: "J ys s1" "perm_on lo hi xs ys" "below ys lo mid" "below ys mid hi" for ys s1
  proof -
    have len: "length ys = length xs" using perm_length[OF ys(2)] .
    have b: "mid < length ys" "h < length ys" "hi < length ys" using m assms(3) len by auto
    let ?zs = "swapped_items ys mid h" and ?pv = "snd (ys ! mid)"
    have nth: "?zs ! k = (if k = h then ys ! mid else if k = mid then ys ! h else ys ! k)" if "k \<le> hi" for k
      using nth_swapped[OF b(1,2)] that b(3) by simp
    have zlo: "leq (snd (?zs ! lo)) ?pv" and zh: "snd (?zs ! h) = ?pv" and zhi: "leq ?pv (snd (?zs ! hi))"
      using nth[of lo] nth[of h] nth[of hi] m ys(3,4) by (simp_all add: below_def)
    have "outcome_ok can_raise (\<lambda>(p, us, s'). J us s' \<and> lo < p \<and> p \<le> h \<and> perm_on (lo + 1) (h - 1) ?zs us \<and>
       (\<forall>k. lo \<le> k \<longrightarrow> k < p \<longrightarrow> leq (snd (us ! k)) ?pv) \<and> (\<forall>k. p \<le> k \<longrightarrow> k \<le> h \<longrightarrow> leq ?pv (snd (us ! k))))
      (partition_loop cmp ?pv lo h ?zs s1)"
    proof (rule partition_loop_ok)
      show "leq (snd (?zs ! k)) ?pv" if "lo \<le> k" "k \<le> lo" for k using zlo that by simp
      show "leq ?pv (snd (?zs ! k))" if "h \<le> k" "k \<le> h" for k
      proof -
        have "k = h" using that by simp
        then show ?thesis using zh le_refl J_nth[OF ys(1) b(1)] by (simp add: leq_def)
      qed
    qed (use J_swap[OF ys(1) b(1,2)] m b in auto)
    then have "outcome_ok can_raise ?P (rbind (partition_loop cmp ?pv lo h ?zs s1) (\<lambda>(i, xs, s).
        rbind (swap_items xs i h) (\<lambda>xs. Inr (i, xs, s))))"
    proof (rule outcome_bind, clarify)
      fix p us s' assume s': "J us s'" and p: "lo < p" "p \<le> h" and pm: "perm_on (lo + 1) (h - 1) ?zs us"
        and low: "\<forall>k. lo \<le> k \<longrightarrow> k < p \<longrightarrow> leq (snd (us ! k)) ?pv" and high: "\<forall>k. p \<le> k \<longrightarrow> k \<le> h \<longrightarrow> leq ?pv (snd (us ! k))"
      have lenu: "length us = length ys" using perm_length[OF pm] by simp
      have uh: "us ! h = ?zs ! h" "us ! hi = ?zs ! hi" using perm_outside[OF pm] m by auto
      let ?ws = "swapped_items us p h"
      have pb: "p < length us" "h < length us" "hi < length us" using p b lenu by auto
      have nthw: "?ws ! k = (if k = h then us ! p else if k = p then us ! h else us ! k)" if "k \<le> hi" for k
        using nth_swapped[OF pb(1,2)] that pb(3) by simp
      have wp: "snd (?ws ! p) = ?pv" using nthw[of p] uh zh p m by simp
      have "below ?ws k p" if k: "lo \<le> k" "k < p" for k
        using nthw[of k] low k p m wp by (simp add: below_def)
      moreover have "below ?ws p k" if k: "p < k" "k \<le> hi" for k
      proof -
        consider "k = h" | "k = hi" | "k < h" using k m(5) by linarith
        then have "leq ?pv (snd (?ws ! k))"
          by cases (use nthw[of k] high k p m uh zhi in auto)
        then show ?thesis using wp by (simp add: below_def)
      qed
      moreover have "perm_on lo hi xs ?ws"
      proof -
        have "perm_on lo hi ys ?zs" using m b by (intro perm_once) auto
        moreover have "perm_on lo hi ?zs us" using perm_widen[OF pm, of lo hi] m b by simp
        moreover have "perm_on lo hi us ?ws" using m p pb by (intro perm_once) auto
        ultimately show ?thesis using ys(2) perm_trans by blast
      qed
      ultimately show "outcome_ok can_raise ?P (rbind (swap_items us p h) (\<lambda>xs. Inr (p, xs, s')))"
        using J_swap[OF s' pb(1,2)] p m pb by simp
    qed
    moreover have "hi - Suc 0 = h" "1 \<le> hi" using m by auto
    ultimately show ?thesis using b m by (simp add: item_at_def usub_def)
  qed
  let ?R = "\<lambda>xs s. rbind (item_at xs mid) (\<lambda>p. rbind (usub hi 1) (\<lambda>h1. rbind (swap_items xs mid h1) (\<lambda>xs.
        rbind (partition_loop cmp (snd p) lo h1 xs s) (\<lambda>(i, xs, s). rbind (swap_items xs i h1) (\<lambda>xs. Inr (i, xs, s))))))"
  note med = swap_if_median[OF _ m(1,4)]
  have "outcome_ok can_raise ?P (rbind (swap_if cmp mid lo lo mid xs s) (\<lambda>(xs, s).
      rbind (swap_if cmp hi lo lo hi xs s) (\<lambda>(xs, s). rbind (swap_if cmp hi mid mid hi xs s) (\<lambda>(xs, s). ?R xs s))))"
  proof (rule outcome_bind[OF med(1)[OF assms(1,3)]], clarify)
    fix y1 s1 assume y1: "J y1 s1" "perm_on lo hi xs y1" "below y1 lo mid"
    have l1: "hi < length y1" using perm_length[OF y1(2)] assms(3) by simp
    show "outcome_ok can_raise ?P (rbind (swap_if cmp hi lo lo hi y1 s1) (\<lambda>(xs, s).
        rbind (swap_if cmp hi mid mid hi xs s) (\<lambda>(xs, s). ?R xs s)))"
    proof (rule outcome_bind[OF med(2)[OF y1(1) l1 y1(3)]], clarify)
      fix y2 s2 assume y2: "J y2 s2" "perm_on lo hi y1 y2" "below y2 lo mid" "below y2 lo hi"
      have l2: "hi < length y2" using perm_length[OF y2(2)] l1 by simp
      show "outcome_ok can_raise ?P (rbind (swap_if cmp hi mid mid hi y2 s2) (\<lambda>(xs, s). ?R xs s))"
      proof (rule outcome_bind[OF med(3)[OF y2(1) l2 y2(3,4)]], clarify)
        fix y3 s3 assume y3: "J y3 s3" "perm_on lo hi y2 y3" "below y3 lo mid" "below y3 mid hi"
        have "perm_on lo hi xs y3" using perm_trans[OF y3(2) perm_trans[OF y2(2) y1(2)]] .
        then show "outcome_ok can_raise ?P (?R y3 s3)" using rest y3 by blast
      qed
    qed
  qed
  moreover have "lo \<le> hi" using assms(2) by simp
  ultimately show ?thesis unfolding partition_items_def usub_def[of hi lo] mid_def by (simp only: if_True rbind_simps Let_def)
qed

text \<open>Sorting both sides of the pivot sorts the range.\<close>

lemma quick_join:
  assumes p: "lo \<le> p" "p \<le> hi" "hi < length ys"
    and low: "\<forall>k. lo \<le> k \<longrightarrow> k < p \<longrightarrow> below ys k p" and high: "\<forall>k. p < k \<longrightarrow> k \<le> hi \<longrightarrow> below ys p k"
    and zs: "if lo < p then perm_on lo (p - 1) ys zs \<and> sorted_on lo (p - 1) zs else zs = ys"
    and us: "if p < hi then perm_on (p + 1) hi zs us \<and> sorted_on (p + 1) hi us else us = zs"
  shows "perm_on lo hi ys us \<and> sorted_on lo hi us"
proof -
  have lenz: "length zs = length ys" using zs perm_length by (auto split: if_splits)
  have pz: "perm_on lo hi ys zs" using zs p perm_widen[of lo "p - 1" ys zs lo hi] by (auto split: if_splits intro: perm_refl)
  have pu: "perm_on lo hi zs us" using us p lenz perm_widen[of "p + 1" hi zs us lo hi] by (auto split: if_splits intro: perm_refl)
  have zo: "zs ! k = ys ! k" if "p \<le> k" for k using zs perm_outside[of lo "p - 1" ys zs k] that by (auto split: if_splits)
  have uo: "us ! k = zs ! k" if "k \<le> p" for k using us perm_outside[of "p + 1" hi zs us k] that by (auto split: if_splits)
  have up: "us ! p = ys ! p" using zo[of p] uo[of p] by simp
  have left: "below us k p" if k: "lo \<le> k" "k < p" for k
  proof -
    have "k \<le> p - 1" using k by simp
    then obtain m where "lo \<le> m" "m \<le> p - 1" "zs ! k = ys ! m" using zs perm_inside[of lo "p - 1" ys zs k] k by auto
    then show ?thesis using low[rule_format, of m] k uo[of k] up by (simp add: below_def)
  qed
  have right: "below us p k" if k: "p < k" "k \<le> hi" for k
  proof -
    obtain m where "p + 1 \<le> m" "m \<le> hi" "us ! k = zs ! m" using us perm_inside[of "p + 1" hi zs us k] k by auto
    then show ?thesis using high[rule_format, of m] zo[of m] up by (simp add: below_def)
  qed
  have "below us a b" if ab: "lo \<le> a" "a < b" "b \<le> hi" for a b
  proof -
    consider "b < p" | "b = p" | "a < p" "p < b" | "a = p" | "p < a" using ab by linarith
    then show ?thesis
    proof cases
      case 1
      then have "below zs a b" using zs ab by (auto simp: sorted_on_def split: if_splits)
      then show ?thesis using uo[of a] uo[of b] 1 ab by (simp add: below_def)
    next
      case 3
      then show ?thesis using left[of a] right[of b] ab below_trans by blast
    next
      case 5
      then show ?thesis using us ab by (auto simp: sorted_on_def split: if_splits)
    qed (use left right ab in auto)
  qed
  then show ?thesis using perm_trans[OF pu pz] by (simp add: sorted_on_def)
qed

lemma introsort_impl_ok:
  "J xs s \<Longrightarrow> lo \<le> hi \<Longrightarrow> hi < length xs \<Longrightarrow>
   outcome_ok can_raise (\<lambda>(ys, s'). J ys s' \<and> perm_on lo hi xs ys \<and> sorted_on lo hi ys) (introsort_impl cmp lo hi depth xs s)"
proof (induction depth arbitrary: lo hi xs s)
  case 0
  then show ?case using insertion_sort_ok heapsort_ok by (subst introsort_impl.simps) (simp add: usub_def)
next
  case (Suc depth)
  let ?P = "\<lambda>(ys, s'). J ys s' \<and> perm_on lo hi xs ys \<and> sorted_on lo hi ys"
  show ?case
  proof (cases "hi - lo < 16")
    case True
    then show ?thesis using insertion_sort_ok Suc.prems by (subst introsort_impl.simps) (simp add: usub_def)
  next
    case False
    have "outcome_ok can_raise ?P (rbind (partition_items cmp lo hi xs s) (\<lambda>(p, xs, s).
            rbind (if lo < p then introsort_impl cmp lo (p - 1) depth xs s else Inr (xs, s)) (\<lambda>(xs, s).
            if p < hi then introsort_impl cmp (p + 1) hi depth xs s else Inr (xs, s))))"
    proof (rule outcome_bind[OF partition_ok[OF Suc.prems(1) _ Suc.prems(3)]], use False in simp, clarify)
      fix p ys s1 assume s1: "J ys s1" and p: "lo \<le> p" "p \<le> hi" and pm: "perm_on lo hi xs ys"
        and low: "\<forall>k. lo \<le> k \<longrightarrow> k < p \<longrightarrow> below ys k p" and high: "\<forall>k. p < k \<longrightarrow> k \<le> hi \<longrightarrow> below ys p k"
      have len: "length ys = length xs" using perm_length[OF pm] .
      have "outcome_ok can_raise (\<lambda>(zs, s'). J zs s' \<and> (if lo < p then perm_on lo (p - 1) ys zs \<and> sorted_on lo (p - 1) zs else zs = ys))
          (if lo < p then introsort_impl cmp lo (p - 1) depth ys s1 else Inr (ys, s1))"
        using Suc.IH[OF s1, of lo "p - 1"] p len Suc.prems s1 by simp
      then show "outcome_ok can_raise ?P (rbind (if lo < p then introsort_impl cmp lo (p - 1) depth ys s1 else Inr (ys, s1)) (\<lambda>(xs, s).
            if p < hi then introsort_impl cmp (p + 1) hi depth xs s else Inr (xs, s)))"
      proof (rule outcome_bind, clarify)
        fix zs s2 assume s2: "J zs s2" and zs: "if lo < p then perm_on lo (p - 1) ys zs \<and> sorted_on lo (p - 1) zs else zs = ys"
        have lenz: "length zs = length ys" using zs perm_length by (auto split: if_splits)
        have "outcome_ok can_raise (\<lambda>(us, s'). J us s' \<and> (if p < hi then perm_on (p + 1) hi zs us \<and> sorted_on (p + 1) hi us else us = zs))
            (if p < hi then introsort_impl cmp (p + 1) hi depth zs s2 else Inr (zs, s2))"
          using Suc.IH[OF s2, of "p + 1" hi] p len lenz Suc.prems s2 by simp
        then show "outcome_ok can_raise ?P (if p < hi then introsort_impl cmp (p + 1) hi depth zs s2 else Inr (zs, s2))"
        proof (rule outcome_mono, clarify)
          fix us s3 assume us: "if p < hi then perm_on (p + 1) hi zs us \<and> sorted_on (p + 1) hi us else us = zs"
          have hi: "hi < length ys" using len Suc.prems by simp
          show "perm_on lo hi xs us \<and> sorted_on lo hi us"
            using pm quick_join[OF p hi low high zs us] perm_trans by blast
        qed
      qed
    qed
    then show ?thesis using False Suc.prems by (subst introsort_impl.simps, unfold diff_Suc_1) (simp add: usub_def)
  qed
qed

lemma introsort_ok:
  assumes "I s" "list_all (\<lambda>x. okv (snd x)) xs"
  shows "outcome_ok can_raise (\<lambda>(ys, s'). I s' \<and> mset ys = mset xs \<and>
      (\<forall>i j. i < j \<longrightarrow> j < length ys \<longrightarrow> le (snd (ys ! i)) (snd (ys ! j)))) (introsort cmp xs s)"
proof (cases "length xs \<le> 1")
  case False
  have J: "J xs s" using assms by (simp add: J_def)
  have "outcome_ok can_raise (\<lambda>(ys, s'). J ys s' \<and> perm_on 0 (length xs - 1) xs ys \<and> sorted_on 0 (length xs - 1) ys) (introsort cmp xs s)"
    using introsort_impl_ok[OF J, of 0 "length xs - 1"] False by (simp add: introsort_def Let_def)
  then show ?thesis
  proof (rule outcome_mono, clarify)
    fix ys s' assume h: "perm_on 0 (length xs - 1) xs ys" "sorted_on 0 (length xs - 1) ys" and J': "J ys s'"
    then show "I s' \<and> mset ys = mset xs \<and> (\<forall>i j. i < j \<longrightarrow> j < length ys \<longrightarrow> le (snd (ys ! i)) (snd (ys ! j)))"
      using perm_mset[OF h(1)] perm_length[OF h(1)] by (auto simp: sorted_on_def below_def leq_def J_def)
  qed
qed (use assms in \<open>auto simp: introsort_def\<close>)

end

interpretation any: comparing cmp "\<lambda>_. True" "\<lambda>_ _. True" "\<lambda>_. True" "\<lambda>e. \<exists>s a b. cmp s a b = Inl e" for cmp
  by unfold_locales auto

text \<open>The default comparator on numbers that are not NaN.\<close>

definition real_number :: "lua_value \<Rightarrow> bool" where
  "real_number v \<longleftrightarrow> is_number v \<and> \<not> f64_is_nan v"

interpretation numbers: comparing "compare_default env" "\<lambda>s. s = s0" "\<lambda>a b. \<not> f64_lt b a" real_number "\<lambda>_. False" for env s0
  by unfold_locales (auto simp: real_number_def f64_lt_def compare_default_def)

section \<open>Properties\<close>

text \<open>C18. For every comparator, even one that is inconsistent, changes the interpreter state or
  raises at any call, the sort ends without an index out of range or an underflow: it raises
  only what the comparator raised, and otherwise its result is a permutation of the items.\<close>

theorem introsort_permutes:
  "case introsort cmp xs s of
     Inl (Raised e) \<Rightarrow> \<exists>s' a b. cmp s' a b = Inl e
   | Inl (Panicked p) \<Rightarrow> False
   | Inr (ys, s') \<Rightarrow> mset ys = mset xs"
  using any.introsort_ok[of xs cmp s] by (auto simp: outcome_ok_def list_all_iff split: sum.splits fault.splits)

text \<open>C17. With a comparator that computes a strict weak order on the values of the items (whatever
  else it does to the state), the sort returns the items in order.\<close>

theorem introsort_sorts:
  assumes cmp: "\<And>s a b. I s \<Longrightarrow> okv a \<Longrightarrow> okv b \<Longrightarrow> \<exists>s'. cmp s a b = Inr (lt a b, s') \<and> I s'"
    and asym: "\<And>a b. okv a \<Longrightarrow> okv b \<Longrightarrow> lt a b \<Longrightarrow> \<not> lt b a"
    and weak: "\<And>a b c. okv a \<Longrightarrow> okv b \<Longrightarrow> okv c \<Longrightarrow> lt a c \<Longrightarrow> lt a b \<or> lt b c"
    and start: "I s" "list_all (\<lambda>x. okv (snd x)) xs"
  shows "\<exists>ys s'. introsort cmp xs s = Inr (ys, s') \<and> mset ys = mset xs \<and>
    (\<forall>i j. i < j \<longrightarrow> j < length ys \<longrightarrow> \<not> lt (snd (ys ! j)) (snd (ys ! i)))"
proof -
  have "comparing cmp I (\<lambda>a b. okv a \<longrightarrow> okv b \<longrightarrow> \<not> lt b a) okv (\<lambda>_. False)"
  proof
    fix a b c
    show "okv a \<longrightarrow> okv a \<longrightarrow> \<not> lt a a" using asym by blast
    show "okv a \<longrightarrow> okv c \<longrightarrow> \<not> lt c a" if "okv a" "okv b" "okv c" "okv a \<longrightarrow> okv b \<longrightarrow> \<not> lt b a" "okv b \<longrightarrow> okv c \<longrightarrow> \<not> lt c b"
      using that weak[of c b a] by blast
  next
    fix s a b r s' assume h: "I s" "okv a" "okv b" "cmp s a b = Inr (r, s')"
    then have "r = lt a b" "I s'" using cmp[OF h(1-3)] by auto
    then show "I s' \<and> (if r then okv a \<longrightarrow> okv b \<longrightarrow> \<not> lt b a else okv b \<longrightarrow> okv a \<longrightarrow> \<not> lt a b)" using asym[OF h(2,3)] by auto
  next
    fix s a b e assume "I s" "okv a" "okv b" "cmp s a b = Inl e"
    then show False using cmp[of s a b] by simp
  qed
  from comparing.introsort_ok[OF this start] have ok: "outcome_ok (\<lambda>_. False) (\<lambda>(ys, s'). I s' \<and> mset ys = mset xs \<and>
      (\<forall>i j. i < j \<longrightarrow> j < length ys \<longrightarrow> okv (snd (ys ! i)) \<longrightarrow> okv (snd (ys ! j)) \<longrightarrow> \<not> lt (snd (ys ! j)) (snd (ys ! i))))
    (introsort cmp xs s)" .
  then obtain ys s' where r: "introsort cmp xs s = Inr (ys, s')" "mset ys = mset xs"
    "\<forall>i j. i < j \<longrightarrow> j < length ys \<longrightarrow> okv (snd (ys ! i)) \<longrightarrow> okv (snd (ys ! j)) \<longrightarrow> \<not> lt (snd (ys ! j)) (snd (ys ! i))"
    by (auto simp: outcome_ok_def split: sum.splits fault.splits)
  have "okv (snd (ys ! i))" if "i < length ys" for i
    using start(2) mset_eq_setD[OF r(2)] nth_mem[OF that] by (auto simp: list_all_iff)
  then show ?thesis using r by (meson less_trans)
qed

definition no_lua :: "(unit, unit) lua_env" where
  "no_lua = \<lparr>execute = (\<lambda>s f a b. Inl ()), string_bytes = (\<lambda>s v. []), meta_lt = (\<lambda>s v. NIL)\<rparr>"

definition sample_items :: "item list" where
  "sample_items = [(1, 0x4008000000000000), (2, 0x3FF0000000000000), (3, 0)]"

theorem introsort_sorts_witness:
  "\<exists>ys s'. introsort (compare_default no_lua) sample_items () = Inr (ys, s') \<and> mset ys = mset sample_items \<and>
    (\<forall>i j. i < j \<longrightarrow> j < length ys \<longrightarrow> \<not> f64_lt (snd (ys ! j)) (snd (ys ! i)))"
proof (rule introsort_sorts[where I = "\<lambda>_. True" and okv = real_number])
  show "list_all (\<lambda>x. real_number (snd x)) sample_items"
    by (simp add: sample_items_def real_number_def is_number_def itype_def LJ_TISNUM_def f64_is_nan_def f64_exp_def f64_frac_def
        LJ_TNUMX_def)
qed (auto simp: compare_default_def real_number_def f64_lt_def)

text \<open>Sorting numbers that are not NaN without a comparator calls no Lua code, cannot raise, and
  returns them in increasing order.\<close>

lemma default_sort_numbers:
  assumes "list_all (\<lambda>x. real_number (snd x)) xs"
  shows "\<exists>ys. introsort (compare_default env) xs s = Inr (ys, s) \<and> mset ys = mset xs \<and>
    sorted (map (\<lambda>x. f64_ord (snd x)) ys)"
proof -
  obtain ys where ys: "introsort (compare_default env) xs s = Inr (ys, s)" "mset ys = mset xs"
    "\<forall>i j. i < j \<longrightarrow> j < length ys \<longrightarrow> \<not> f64_lt (snd (ys ! j)) (snd (ys ! i))"
    using numbers.introsort_ok[OF refl assms, of s env] by (auto simp: outcome_ok_def split: sum.splits fault.splits)
  have "\<not> f64_is_nan (snd (ys ! i))" if "i < length ys" for i
    using assms mset_eq_setD[OF ys(2)] nth_mem[OF that] by (auto simp: list_all_iff real_number_def)
  then have "f64_ord (snd (ys ! i)) \<le> f64_ord (snd (ys ! j))" if "i < j" "j < length ys" for i j
    using ys(3) that by (force simp: f64_lt_def)
  then show ?thesis using ys(1,2) by (simp add: sorted_wrt_iff_nth_less)
qed

end
