(* ===== verification/LJ_Tablib.thy ===== *)
theory LJ_Tablib
  imports LJ_Table_Misc LJ_Sort_Quick
begin

unbundle bit_operations_syntax

text \<open>
  The table library (\<open>stdlib/table.rs\<close>): \<open>insert\<close>, \<open>remove\<close>, \<open>move\<close>, \<open>sort\<close>, \<open>getn\<close> and \<open>maxn\<close> over
  the tables of \<open>LJ_Table\<close>. A library function takes its arguments and the store of tables (a
  map from references to tables, so that two arguments may be the same table) and returns its
  results and the new store.
\<close>

section \<open>Arguments and errors\<close>

type_synonym tables = "gc_ref \<Rightarrow> ltable"

datatype lib_error = BadArg nat string string lua_value | Runtime string | LibPanic panic

type_synonym lib_result = "lib_error + (lua_value list \<times> tables)"

definition arg :: "lua_value list \<Rightarrow> nat \<Rightarrow> lua_value" where
  "arg args i = (if i < length args then args ! i else NIL)"

definition panics :: "panic + 'a \<Rightarrow> lib_error + 'a" where
  "panics r = (case r of Inl p \<Rightarrow> Inl (LibPanic p) | Inr x \<Rightarrow> Inr x)"

lemma panics_Inr [simp]: "panics (Inr x) = Inr x" by (simp add: panics_def)

definition F64_ONE :: f64 where "F64_ONE = 0x3FF0000000000000"

text \<open>\<open>arg(l, i).as_number().unwrap_or(d)\<close>.\<close>

definition num_or :: "f64 \<Rightarrow> lua_value \<Rightarrow> f64" where
  "num_or d v = (case as_number v of Some n \<Rightarrow> n | None \<Rightarrow> d)"

definition f64_le :: "f64 \<Rightarrow> f64 \<Rightarrow> bool" where
  "f64_le a b \<longleftrightarrow> \<not> f64_is_nan a \<and> \<not> f64_is_nan b \<and> f64_ord a \<le> f64_ord b"

text \<open>\<open>n as i64\<close>, and the truncating cast \<open>k as i32\<close> of an \<open>i64\<close>.\<close>

definition f64_as_i64 :: "f64 \<Rightarrow> int" where
  "f64_as_i64 b =
     (if f64_is_nan b then 0
      else if f64_is_inf b then (if f64_sign b then - (2 ^ 63) else 2 ^ 63 - 1)
      else max (- (2 ^ 63)) (min (2 ^ 63 - 1) (f64_trunc b)))"

definition i64_as_i32 :: "int \<Rightarrow> int" where "i64_as_i32 k = signed_take_bit 31 k"

definition check_i64 :: "int \<Rightarrow> lib_error + int" where
  "check_i64 k = (if - (2 ^ 63) \<le> k \<and> k < 2 ^ 63 then Inr k else Inl (LibPanic ArithPanic))"

section \<open>Loops over integer keys\<close>

type_synonym int_getter = "ltable \<Rightarrow> int \<Rightarrow> panic + lua_value"
type_synonym int_setter = "ltable \<Rightarrow> int \<Rightarrow> lua_value \<Rightarrow> panic + ltable"

text \<open>\<open>for k in ks { t.set_int(dst(k), t.get_int(src(k))) }\<close>.\<close>

primrec copy_loop :: "('t \<Rightarrow> int \<Rightarrow> panic + 'v) \<Rightarrow> ('t \<Rightarrow> int \<Rightarrow> 'v \<Rightarrow> panic + 't) \<Rightarrow> (int \<Rightarrow> int) \<Rightarrow> (int \<Rightarrow> int) \<Rightarrow>
    int list \<Rightarrow> 't \<Rightarrow> panic + 't" where
  "copy_loop getf setf src dst [] t = Inr t"
| "copy_loop getf setf src dst (k # ks) t =
     rbind (getf t (src k)) (\<lambda>v. rbind (setf t (dst k) v) (\<lambda>t. copy_loop getf setf src dst ks t))"

text \<open>Reading the keys \<open>i, i + 1, ...\<close> and writing values there.\<close>

primrec read_keys :: "('t \<Rightarrow> int \<Rightarrow> panic + 'v) \<Rightarrow> int list \<Rightarrow> 't \<Rightarrow> panic + (int \<times> 'v) list" where
  "read_keys getf [] t = Inr []"
| "read_keys getf (k # ks) t = rbind (getf t k) (\<lambda>v. rbind (read_keys getf ks t) (\<lambda>vs. Inr ((k, v) # vs)))"

primrec write_keys :: "('t \<Rightarrow> int \<Rightarrow> 'v \<Rightarrow> panic + 't) \<Rightarrow> int \<Rightarrow> 'v list \<Rightarrow> 't \<Rightarrow> panic + 't" where
  "write_keys setf i [] t = Inr t"
| "write_keys setf i (v # vs) t = rbind (setf t i v) (\<lambda>t. write_keys setf (i + 1) vs t)"

section \<open>insert and remove\<close>

definition table_insert :: "sids \<Rightarrow> ltable \<Rightarrow> int \<Rightarrow> lua_value \<Rightarrow> int \<Rightarrow> panic + ltable" where
  "table_insert sid t p v len =
     rbind (copy_loop (tab_get_int sid) (tab_set_int sid) (\<lambda>k. k) (\<lambda>k. k + 1) (rev [p..len]) t) (\<lambda>t.
       tab_set_int sid t p v)"

definition lib_insert :: "sids \<Rightarrow> lua_value list \<Rightarrow> tables \<Rightarrow> lib_result" where
  "lib_insert sid args tabs =
     (case as_table (arg args 0) of
        None \<Rightarrow> Inl (BadArg 1 ''table.insert'' ''table'' (arg args 0))
      | Some r \<Rightarrow>
          let t = tabs r; n = length args
          in if n = 2
             then rbind (panics (tab_len sid t)) (\<lambda>len.
                  rbind (panics (tab_set_int sid t (int len + 1) (arg args 1))) (\<lambda>t. Inr ([], tabs(r := t))))
             else if 3 \<le> n
             then let p = f64_as_i32 (num_or F64_ONE (arg args 1)); val = arg args 2
                  in rbind (panics (tab_len sid t)) (\<lambda>len.
                       if p < 1 \<or> int len + 1 < p then Inl (Runtime ''position out of bounds'')
                       else rbind (panics (table_insert sid t p val (int len))) (\<lambda>t. Inr ([], tabs(r := t))))
             else Inr ([], tabs))"

definition table_remove :: "sids \<Rightarrow> ltable \<Rightarrow> int \<Rightarrow> int \<Rightarrow> panic + (lua_value \<times> ltable)" where
  "table_remove sid t p len =
     rbind (tab_get_int sid t p) (\<lambda>v.
     rbind (copy_loop (tab_get_int sid) (tab_set_int sid) (\<lambda>i. i + 1) (\<lambda>i. i) [p..len - 1] t) (\<lambda>t.
     rbind (tab_set_int sid t len NIL) (\<lambda>t. Inr (v, t))))"

definition lib_remove :: "sids \<Rightarrow> lua_value list \<Rightarrow> tables \<Rightarrow> lib_result" where
  "lib_remove sid args tabs =
     (case as_table (arg args 0) of
        None \<Rightarrow> Inl (BadArg 1 ''table.remove'' ''table'' (arg args 0))
      | Some r \<Rightarrow>
          rbind (panics (tab_len sid (tabs r))) (\<lambda>ln.
          let len = int ln in
          rbind (case as_number (arg args 1) of
                   Some n \<Rightarrow> if f64_le F64_ONE n then Inr (f64_as_i32 n)
                             else Inl (BadArg 2 ''table.remove'' ''number'' (arg args 1))
                 | None \<Rightarrow> Inr len) (\<lambda>p0.
          let p = min (max p0 1) len
          in if p = 0 \<or> len < p \<or> len = 0 then Inr ([NIL], tabs)
             else rbind (panics (table_remove sid (tabs r) p len)) (\<lambda>(v, t). Inr ([v], tabs(r := t))))))"

section \<open>move\<close>

text \<open>The loop of \<open>move\<close> over the store: source and destination may be the same table.\<close>

primrec move_loop :: "sids \<Rightarrow> gc_ref \<Rightarrow> gc_ref \<Rightarrow> int \<Rightarrow> int \<Rightarrow> int list \<Rightarrow> tables \<Rightarrow> lib_error + tables" where
  "move_loop sid a1 a2 f tpos [] tabs = Inr tabs"
| "move_loop sid a1 a2 f tpos (k # ks) tabs =
     rbind (check_i64 (f + k)) (\<lambda>i.
     rbind (panics (tab_get_int sid (tabs a1) (i64_as_i32 i))) (\<lambda>v.
     rbind (check_i64 (tpos + k)) (\<lambda>j.
     rbind (panics (tab_set_int sid (tabs a2) (i64_as_i32 j) v)) (\<lambda>t.
       move_loop sid a1 a2 f tpos ks (tabs(a2 := t))))))"

definition lib_move :: "sids \<Rightarrow> lua_value list \<Rightarrow> tables \<Rightarrow> lib_result" where
  "lib_move sid args tabs =
     (case as_table (arg args 0) of
        None \<Rightarrow> Inl (BadArg 1 ''table.move'' ''table'' (arg args 0))
      | Some a1 \<Rightarrow>
          let f = f64_as_i64 (num_or F64_ONE (arg args 1))
          in case as_number (arg args 2) of
               None \<Rightarrow> Inl (BadArg 3 ''table.move'' ''number'' (arg args 2))
             | Some n \<Rightarrow>
                 let e = f64_as_i64 n; tpos = f64_as_i64 (num_or F64_ONE (arg args 3));
                     dst = (case as_table (arg args 4) of Some a2 \<Rightarrow> a2 | None \<Rightarrow> a1)
                 in rbind (check_i64 (e - f)) (\<lambda>d. rbind (check_i64 (d + 1)) (\<lambda>len.
                    rbind (move_loop sid a1 dst f tpos [0..len - 1] tabs) (\<lambda>tabs.
                      Inr ([lua_table_value dst], tabs)))))"

section \<open>sort\<close>

text \<open>The comparator may run Lua code, so its state contains the store of tables.\<close>

definition sort_items :: "sids \<Rightarrow> ltable \<Rightarrow> panic + item list" where
  "sort_items sid t = rbind (tab_len sid t) (\<lambda>len.
     rbind (read_keys (tab_get_int sid) [1..int len] t) (\<lambda>vs. Inr (map (\<lambda>(k, v). (word_of_int k, v)) vs)))"

definition lib_sort :: "('g \<times> tables, 'e) lua_env \<Rightarrow> sids \<Rightarrow> lua_value list \<Rightarrow> 'g \<times> tables \<Rightarrow>
    ('e + lib_error) + ('g \<times> tables)" where
  "lib_sort env sid args st =
     (case as_table (arg args 0) of
        None \<Rightarrow> Inl (Inr (BadArg 1 ''table.sort'' ''table'' (arg args 0)))
      | Some r \<Rightarrow>
          case sort_items sid (snd st r) of
            Inl p \<Rightarrow> Inl (Inr (LibPanic p))
          | Inr items \<Rightarrow>
              let comp = arg args 1;
                  kind = (if is_func comp then Lua comp else Default)
              in case introsort (comparator_of env kind) items st of
                   Inl (Raised e) \<Rightarrow> Inl (Inl e)
                 | Inl (Panicked p) \<Rightarrow> Inl (Inr (LibPanic p))
                 | Inr (ys, g, tabs) \<Rightarrow>
                     (case write_keys (tab_set_int sid) 1 (map snd ys) (tabs r) of
                        Inl p \<Rightarrow> Inl (Inr (LibPanic p))
                      | Inr t \<Rightarrow> Inr (g, tabs(r := t))))"

section \<open>getn and maxn\<close>

definition lib_getn :: "sids \<Rightarrow> lua_value list \<Rightarrow> tables \<Rightarrow> lib_result" where
  "lib_getn sid args tabs =
     (case as_table (arg args 0) of
        None \<Rightarrow> Inl (BadArg 1 ''getn'' ''table'' (arg args 0))
      | Some r \<Rightarrow> rbind (panics (tab_len sid (tabs r))) (\<lambda>n. Inr ([number (nat_to_f64 n)], tabs)))"

text \<open>\<open>f64::max\<close>: a NaN operand is ignored.\<close>

definition f64_max :: "f64 \<Rightarrow> f64 \<Rightarrow> f64" where
  "f64_max a b = (if f64_is_nan a then b else if f64_is_nan b then a else if f64_lt a b then b else a)"

primrec maxn_loop :: "nat \<Rightarrow> sids \<Rightarrow> ltable \<Rightarrow> lua_value \<Rightarrow> f64 \<Rightarrow> panic + f64" where
  "maxn_loop 0 sid t k m = Inl Diverges"
| "maxn_loop (Suc fuel) sid t k m =
     rbind (tab_next sid t k) (\<lambda>r. case r of
         None \<Rightarrow> Inr m
       | Some (nk, _) \<Rightarrow> maxn_loop fuel sid t nk (case as_number nk of Some n \<Rightarrow> f64_max m n | None \<Rightarrow> m))"

definition lib_maxn :: "sids \<Rightarrow> lua_value list \<Rightarrow> tables \<Rightarrow> lib_result" where
  "lib_maxn sid args tabs =
     (case as_table (arg args 0) of
        None \<Rightarrow> Inl (BadArg 1 ''maxn'' ''table'' (arg args 0))
      | Some r \<Rightarrow>
          rbind (panics (maxn_loop (asize (tabs r) + length (nodes (tabs r)) + 1) sid (tabs r) NIL 0)) (\<lambda>m.
            Inr ([number m], tabs)))"

end
