(* ===== verification/LJ_Tablib_Spec.thy ===== *)
theory LJ_Tablib_Spec
  imports LJ_Tablib
begin

unbundle bit_operations_syntax

text \<open>
  The table library implements operations on lists: on a table that holds a list at the keys
  \<open>1 .. n\<close>, \<open>insert\<close>, \<open>remove\<close> and \<open>sort\<close> return the table of the list operation and leave every
  other key alone. The locale \<open>int_store\<close> states what the loops need of a table.
\<close>

section \<open>Stores with integer keys\<close>

definition i32 :: "int \<Rightarrow> bool" where
  "i32 k \<longleftrightarrow> - (2 ^ 31) \<le> k \<and> k < 2 ^ 31"

definition copy_step :: "(int \<Rightarrow> int) \<Rightarrow> (int \<Rightarrow> int) \<Rightarrow> int \<Rightarrow> (int \<Rightarrow> 'v) \<Rightarrow> int \<Rightarrow> 'v" where
  "copy_step src dst k m = m(dst k := m (src k))"

locale int_store =
  fixes inv :: "'t \<Rightarrow> bool" and at :: "'t \<Rightarrow> int \<Rightarrow> 'v" and rest :: "'t \<Rightarrow> 'r" and load :: "'t \<Rightarrow> nat" and cap :: nat
    and okv :: "'v \<Rightarrow> bool"
    and getf :: "'t \<Rightarrow> int \<Rightarrow> panic + 'v" and setf :: "'t \<Rightarrow> int \<Rightarrow> 'v \<Rightarrow> panic + 't"
  assumes get_at: "inv t \<Longrightarrow> i32 k \<Longrightarrow> getf t k = Inr (at t k)"
    and at_ok: "inv t \<Longrightarrow> okv (at t k)"
    and set_at: "inv t \<Longrightarrow> i32 k \<Longrightarrow> okv v \<Longrightarrow> load t < cap \<Longrightarrow>
      \<exists>t'. setf t k v = Inr t' \<and> inv t' \<and> at t' = (at t)(k := v) \<and> rest t' = rest t \<and> load t' \<le> Suc (load t)"
begin

lemma copy_loop_fold:
  "inv t \<Longrightarrow> (\<And>k. k \<in> set ks \<Longrightarrow> i32 (src k) \<and> i32 (dst k)) \<Longrightarrow> load t + length ks \<le> cap \<Longrightarrow>
   \<exists>t'. copy_loop getf setf src dst ks t = Inr t' \<and> inv t' \<and> rest t' = rest t \<and> load t' \<le> load t + length ks \<and>
     at t' = fold (copy_step src dst) ks (at t)"
proof (induction ks arbitrary: t)
  case (Cons k ks)
  obtain t1 where t1: "setf t (dst k) (at t (src k)) = Inr t1" "inv t1" "at t1 = (at t)(dst k := at t (src k))"
    "rest t1 = rest t" "load t1 \<le> Suc (load t)"
    using set_at[OF Cons.prems(1) _ at_ok[OF Cons.prems(1), of "src k"], of "dst k"] Cons.prems by auto
  have "load t1 + length ks \<le> cap" using t1(5) Cons.prems(3) by simp
  from Cons.IH[OF t1(2) Cons.prems(2)[OF list.set_intros(2)] this]
  obtain t2 where t2: "copy_loop getf setf src dst ks t1 = Inr t2" "inv t2" "rest t2 = rest t1" "load t2 \<le> load t1 + length ks"
    "at t2 = fold (copy_step src dst) ks (at t1)"
    by blast
  have "getf t (src k) = Inr (at t (src k))" using get_at[OF Cons.prems(1)] Cons.prems(2) by simp
  moreover have "copy_step src dst k (at t) = at t1" unfolding copy_step_def t1(3) ..
  ultimately show ?case using t1(1,4,5) t2 by simp
qed simp

lemma read_keys_map: "inv t \<Longrightarrow> (\<And>k. k \<in> set ks \<Longrightarrow> i32 k) \<Longrightarrow> read_keys getf ks t = Inr (map (\<lambda>k. (k, at t k)) ks)"
  by (induction ks) (auto simp: get_at)

lemma write_keys_at:
  "inv t \<Longrightarrow> list_all okv vs \<Longrightarrow> - (2 ^ 31) \<le> i \<Longrightarrow> i + int (length vs) \<le> 2 ^ 31 \<Longrightarrow> load t + length vs \<le> cap \<Longrightarrow>
   \<exists>t'. write_keys setf i vs t = Inr t' \<and> inv t' \<and> rest t' = rest t \<and>
     at t' = (\<lambda>k. if i \<le> k \<and> k < i + int (length vs) then vs ! nat (k - i) else at t k)"
proof (induction vs arbitrary: t i)
  case (Cons v vs)
  have "i32 i" using Cons.prems by (simp add: i32_def)
  then obtain t1 where t1: "setf t i v = Inr t1" "inv t1" "at t1 = (at t)(i := v)" "rest t1 = rest t" "load t1 \<le> Suc (load t)"
    using set_at[OF Cons.prems(1), of i v] Cons.prems by auto
  obtain t2 where t2: "write_keys setf (i + 1) vs t1 = Inr t2" "inv t2" "rest t2 = rest t1"
    "at t2 = (\<lambda>k. if i + 1 \<le> k \<and> k < i + 1 + int (length vs) then vs ! nat (k - (i + 1)) else at t1 k)"
    using Cons.IH[OF t1(2), of "i + 1"] Cons.prems t1(5) by auto
  have "nat (k - i) = Suc (nat (k - (i + 1)))" if "i + 1 \<le> k" for k using that by simp
  then have "at t2 = (\<lambda>k. if i \<le> k \<and> k < i + int (length (v # vs)) then (v # vs) ! nat (k - i) else at t k)"
    unfolding t2(4) t1(3) by (intro ext) auto
  then show ?case using t1 t2 by simp
qed (auto intro!: ext)

end

lemma fold_shift_up:
  "p \<le> n + 1 \<Longrightarrow> fold (copy_step (\<lambda>k. k) (\<lambda>k. k + 1)) (rev [p..n]) m = (\<lambda>k::int. if p < k \<and> k \<le> n + 1 then m (k - 1) else m k)"
proof (induction "nat (n + 1 - p)" arbitrary: n m)
  case 0
  then have "n = p - 1" by simp
  then show ?case by (auto intro!: ext)
next
  case (Suc d)
  have "[p..n] = [p..n - 1] @ [n]" using Suc.hyps(2) by (intro upto_rec2) simp
  then show ?case using Suc.hyps(1)[of "n - 1"] Suc.hyps(2) by (auto intro!: ext simp: copy_step_def)
qed

lemma fold_shift_down:
  "p \<le> n \<Longrightarrow> fold (copy_step (\<lambda>k. k + 1) (\<lambda>k. k)) [p..n - 1] m = (\<lambda>k::int. if p \<le> k \<and> k < n then m (k + 1) else m k)"
proof (induction "nat (n - p)" arbitrary: p m)
  case 0
  then show ?case by (auto intro!: ext)
next
  case (Suc d)
  have "[p..n - 1] = p # [p + 1..n - 1]" using Suc.hyps(2) by (intro upto_rec1) simp
  then show ?case using Suc.hyps(1)[of "p + 1"] Suc.hyps(2) by (auto intro!: ext simp: copy_step_def)
qed

section \<open>Tables as such stores\<close>

definition int_key :: "int \<Rightarrow> lua_value" where
  "int_key k = number (int_to_f64 k)"

lemma int_key_inj: "i32 j \<Longrightarrow> i32 k \<Longrightarrow> int_key j = int_key k \<longleftrightarrow> j = k"
  using as_int32_exact_number_int[of j] as_int32_exact_number_int[of k] unfolding i32_def int_key_def
  by (metis option.inject)

definition at_int :: "ltable \<Rightarrow> int \<Rightarrow> lua_value" where
  "at_int t k = (if i32 k then cont t (int_key k) else NIL)"

text \<open>The other entries.\<close>

definition other_keys :: "ltable \<Rightarrow> lua_value \<Rightarrow> lua_value" where
  "other_keys t k = (if proper_key k \<and> (\<forall>i. i32 i \<longrightarrow> k \<noteq> int_key i) then cont t k else NIL)"

interpretation ints: int_store "wf_tab sid" at_int other_keys "\<lambda>t. length (entries t)" "2 ^ LJ_MAX_HBITS" proper_val
  "tab_get_int sid" "tab_set_int sid" for sid
proof
  fix t k assume wf: "wf_tab sid t"
  show "proper_val (at_int t k)" using cont_proper[OF wf] by (simp add: at_int_def proper_val_def)
  assume k: "i32 k"
  have a: "asize t \<le> LJ_MAX_ASIZE" using wf by (simp add: wf_tab_def wf_array_def)
  show "tab_get_int sid t k = Inr (at_int t k)"
    using tab_get_int_eq[OF a] k tab.lookup_content[OF wf proper_key_number] by (simp add: at_int_def int_key_def i32_def)
  fix v assume v: "proper_val v" "length (entries t) < 2 ^ LJ_MAX_HBITS"
  obtain t' where t': "tab_set_int sid t k v = Inr t'" "updated sid t (int_key k) v t'"
    using tab_set_int_updated[OF wf v] unfolding int_key_def by blast
  have c: "cont t' x = (if x = int_key k then v else cont t x)" if "proper_key x" for x
    using t'(2) that by (simp add: updated_def)
  have "at_int t' = (at_int t)(k := v)"
  proof
    fix j show "at_int t' j = ((at_int t)(k := v)) j"
      using c[of "int_key j"] proper_key_number[of "int_to_f64 j"] int_key_inj[of j k] k
      by (auto simp: at_int_def int_key_def)
  qed
  moreover have "other_keys t' = other_keys t" using c k by (intro ext) (auto simp: other_keys_def)
  ultimately show "\<exists>t'. tab_set_int sid t k v = Inr t' \<and> wf_tab sid t' \<and> at_int t' = (at_int t)(k := v) \<and>
      other_keys t' = other_keys t \<and> length (entries t') \<le> Suc (length (entries t))"
    using t' updated_count[OF wf t'(2)] by (auto simp: updated_def)
qed

section \<open>Tables that hold a list\<close>

definition list_at :: "lua_value list \<Rightarrow> int \<Rightarrow> lua_value" where
  "list_at xs k = (if 1 \<le> k \<and> k \<le> int (length xs) then xs ! nat (k - 1) else NIL)"

definition is_seq :: "sids \<Rightarrow> ltable \<Rightarrow> lua_value list \<Rightarrow> bool" where
  "is_seq sid t xs \<longleftrightarrow> wf_tab sid t \<and> list_all (\<lambda>v. \<not> is_nil v) xs \<and> length xs < 2 ^ 31 - 1 \<and>
     (\<forall>k. 1 \<le> k \<longrightarrow> i32 k \<longrightarrow> at_int t k = list_at xs k)"

lemma is_seq_nil:
  assumes "is_seq sid t xs" "1 \<le> i" "i < 2 ^ 31"
  shows "nil_at t i \<longleftrightarrow> length xs < i"
proof -
  have "at_int t (int i) = list_at xs (int i)" using assms by (simp add: is_seq_def i32_def)
  then have e: "cont t (number (int_to_f64 (int i))) = list_at xs (int i)"
    using assms(3) by (simp add: at_int_def i32_def int_key_def)
  show ?thesis
  proof (cases "length xs < i")
    case False
    then have "\<not> is_nil (xs ! nat (int i - 1))" using assms(1,2) by (auto simp: is_seq_def list_all_length)
    then show ?thesis using False e assms(2) by (simp add: nil_at_def list_at_def)
  qed (simp add: nil_at_def e list_at_def)
qed

lemma is_seq_len: "is_seq sid t xs \<Longrightarrow> tab_len sid t = Inr (length xs)"
proof -
  assume s: "is_seq sid t xs"
  then have wf: "wf_tab sid t" and len: "length xs < 2 ^ 31 - 1" by (auto simp: is_seq_def)
  obtain n where n: "tab_len sid t = Inr n" "n < 2 ^ 31" "border (nil_at t) n" using tab_len_nil_at[OF wf] by blast
  have "n \<le> length xs" using is_seq_nil[OF s, of n] n(2,3) by (cases "n = 0") (auto simp: border_def)
  moreover have "length xs \<le> n" using is_seq_nil[OF s, of "Suc n"] n(3) len \<open>n \<le> length xs\<close> by (auto simp: border_def)
  ultimately show ?thesis using n(1) by simp
qed

lemma list_at_insert:
  assumes "1 \<le> p" "p \<le> int (length xs) + 1"
  shows "list_at (take (nat p - 1) xs @ v # drop (nat p - 1) xs) k =
    (if k = p then v else if p < k \<and> k \<le> int (length xs) + 1 then list_at xs (k - 1) else if k \<le> int (length xs) + 1 then list_at xs k else NIL)"
proof -
  have len: "length (take (nat p - 1) xs) = nat p - 1" using assms by simp
  show ?thesis using assms len by (auto simp: list_at_def nth_append nth_Cons' nat_diff_distrib)
qed

lemma list_at_remove:
  assumes "1 \<le> p" "p \<le> int (length xs)"
  shows "list_at (take (nat p - 1) xs @ drop (nat p) xs) k =
    (if k < p then list_at xs k else list_at xs (k + 1))"
proof -
  have len: "length (take (nat p - 1) xs) = nat p - 1" using assms by simp
  show ?thesis using assms len by (auto simp: list_at_def nth_append nat_diff_distrib)
qed

text \<open>The loops of \<open>insert\<close> and \<open>remove\<close>.\<close>

lemma table_insert_ok:
  assumes s: "is_seq sid t xs" and p: "1 \<le> p" "p \<le> int (length xs) + 1" and v: "\<not> is_nil v"
    and room: "length (entries t) + length xs < 2 ^ LJ_MAX_HBITS"
  shows "\<exists>t'. table_insert sid t p v (int (length xs)) = Inr t' \<and> other_keys t' = other_keys t \<and>
    is_seq sid t' (take (nat p - 1) xs @ v # drop (nat p - 1) xs)"
proof -
  let ?n = "int (length xs)"
  have wf: "wf_tab sid t" and nn: "list_all (\<lambda>v. \<not> is_nil v) xs"
    and at: "\<And>k. 1 \<le> k \<Longrightarrow> i32 k \<Longrightarrow> at_int t k = list_at xs k" using s by (auto simp: is_seq_def)
  have small: "length xs < 2 ^ 26" using room by (simp add: LJ_MAX_HBITS_def)
  have ks: "length (rev [p..?n]) \<le> length xs" using p by simp
  obtain t1 where t1: "copy_loop (tab_get_int sid) (tab_set_int sid) (\<lambda>k. k) (\<lambda>k. k + 1) (rev [p..?n]) t = Inr t1"
    "wf_tab sid t1" "other_keys t1 = other_keys t" "length (entries t1) \<le> length (entries t) + length (rev [p..?n])"
    "at_int t1 = fold (copy_step (\<lambda>k. k) (\<lambda>k. k + 1)) (rev [p..?n]) (at_int t)"
    using ints.copy_loop_fold[OF wf, of "rev [p..?n]" "\<lambda>k. k" "\<lambda>k. k + 1"] ks room small p by (auto simp: i32_def)
  have room1: "length (entries t1) < 2 ^ LJ_MAX_HBITS" using t1(4) ks room by linarith
  have "i32 p" "proper_val v" using p small v by (auto simp: i32_def proper_val_def)
  then obtain t2 where t2: "tab_set_int sid t1 p v = Inr t2" "wf_tab sid t2" "at_int t2 = (at_int t1)(p := v)"
    "other_keys t2 = other_keys t1" using ints.set_at[OF t1(2) _ _ room1] by blast
  have "at_int t2 k = list_at (take (nat p - 1) xs @ v # drop (nat p - 1) xs) k" if k: "1 \<le> k" "i32 k" for k
  proof -
    have "at_int t2 k = (if k = p then v else if p < k \<and> k \<le> ?n + 1 then at_int t (k - 1) else at_int t k)"
      unfolding t2(3) t1(5) fold_shift_up[OF p(2)] by simp
    moreover have "i32 (k - 1)" using k by (simp add: i32_def)
    moreover have "list_at xs k = NIL" if "?n + 1 < k" using that by (simp add: list_at_def)
    ultimately show ?thesis unfolding list_at_insert[OF p] using at[of k] at[of "k - 1"] k p by auto
  qed
  then have "is_seq sid t2 (take (nat p - 1) xs @ v # drop (nat p - 1) xs)"
    using t2(2) nn v small p by (auto simp: is_seq_def list_all_iff dest: in_set_takeD in_set_dropD)
  then show ?thesis using t1(1,3) t2(1,4) by (simp add: table_insert_def)
qed

lemma table_remove_ok:
  assumes s: "is_seq sid t xs" and p: "1 \<le> p" "p \<le> int (length xs)"
    and room: "length (entries t) + length xs < 2 ^ LJ_MAX_HBITS"
  shows "\<exists>t'. table_remove sid t p (int (length xs)) = Inr (xs ! nat (p - 1), t') \<and> other_keys t' = other_keys t \<and>
    is_seq sid t' (take (nat p - 1) xs @ drop (nat p) xs)"
proof -
  let ?n = "int (length xs)"
  have wf: "wf_tab sid t" and nn: "list_all (\<lambda>v. \<not> is_nil v) xs"
    and at: "\<And>k. 1 \<le> k \<Longrightarrow> i32 k \<Longrightarrow> at_int t k = list_at xs k" using s by (auto simp: is_seq_def)
  have small: "length xs < 2 ^ 26" using room by (simp add: LJ_MAX_HBITS_def)
  have ks: "length [p..?n - 1] \<le> length xs" using p by simp
  have first: "tab_get_int sid t p = Inr (xs ! nat (p - 1))"
    using ints.get_at[OF wf, of p] at[of p] p small by (simp add: i32_def list_at_def)
  obtain t1 where t1: "copy_loop (tab_get_int sid) (tab_set_int sid) (\<lambda>k. k + 1) (\<lambda>k. k) [p..?n - 1] t = Inr t1"
    "wf_tab sid t1" "other_keys t1 = other_keys t" "length (entries t1) \<le> length (entries t) + length [p..?n - 1]"
    "at_int t1 = fold (copy_step (\<lambda>k. k + 1) (\<lambda>k. k)) [p..?n - 1] (at_int t)"
    using ints.copy_loop_fold[OF wf, of "[p..?n - 1]" "\<lambda>k. k + 1" "\<lambda>k. k"] ks room small p by (auto simp: i32_def)
  have room1: "length (entries t1) < 2 ^ LJ_MAX_HBITS" using t1(4) ks room by linarith
  have "i32 ?n" "proper_val NIL" using small by (auto simp: i32_def proper_val_def)
  then obtain t2 where t2: "tab_set_int sid t1 ?n NIL = Inr t2" "wf_tab sid t2" "at_int t2 = (at_int t1)(?n := NIL)"
    "other_keys t2 = other_keys t1" using ints.set_at[OF t1(2) _ _ room1] by blast
  have "at_int t2 k = list_at (take (nat p - 1) xs @ drop (nat p) xs) k" if k: "1 \<le> k" "i32 k" for k
  proof -
    have "at_int t2 k = (if k = ?n then NIL else if p \<le> k \<and> k < ?n then at_int t (k + 1) else at_int t k)"
      unfolding t2(3) t1(5) fold_shift_down[OF p(2)] by simp
    moreover have "k < ?n \<Longrightarrow> i32 (k + 1)" using k small by (simp add: i32_def)
    moreover have "list_at xs j = NIL" if "?n < j" for j using that by (simp add: list_at_def)
    ultimately show ?thesis unfolding list_at_remove[OF p] using at[of k] at[of "k + 1"] k p by auto
  qed
  then have "is_seq sid t2 (take (nat p - 1) xs @ drop (nat p) xs)"
    using t2(2) nn small p by (auto simp: is_seq_def list_all_iff dest: in_set_takeD in_set_dropD)
  then show ?thesis using first t1(1,3) t2(1,4) by (simp add: table_remove_def)
qed

section \<open>Arguments\<close>

lemma f64_magnitude: "unat (take_bit 63 b) = f64_exp b * 2 ^ 52 + f64_frac b"
proof -
  have "unat b mod (2 ^ 52 * 2 ^ 11) = 2 ^ 52 * (unat b div 2 ^ 52 mod 2 ^ 11) + unat b mod 2 ^ 52" by (rule mod_mult2_eq)
  then show ?thesis by (simp add: unat_take_bit f64_exp_def f64_frac_def unat_drop_bit)
qed

lemma int_arg:
  assumes "1 \<le> p" "p < 2 ^ 31"
  shows "as_number (int_key p) = Some (int_to_f64 p)" "f64_as_i32 (int_to_f64 p) = p" "f64_le F64_ONE (int_to_f64 p)"
proof -
  have fin: "\<not> f64_is_nan (int_to_f64 p)" "\<not> f64_is_zero (int_to_f64 p)" using int_to_f64_finite[of p] assms by auto
  then have n: "int_key p = int_to_f64 p" by (simp add: int_key_def number_simps)
  have "is_number (int_key p)" unfolding int_key_def by (rule is_number_number)
  then show "as_number (int_key p) = Some (int_to_f64 p)" by (simp add: as_number_def n)
  show "f64_as_i32 (int_to_f64 p) = p" using f64_as_i32_int_to_f64 assms by simp
  have e: "int_to_f64 p = nat_to_f64 (nat p)" using assms by (simp add: int_to_f64_def)
  have fields: "f64_exp (int_to_f64 p) = floor_log2 (nat p) + 1023" "\<not> f64_sign (int_to_f64 p)"
    unfolding e using nat_to_f64_fields[of "nat p"] assms by (auto simp: f64_sign_def)
  have "1023 * 2 ^ 52 \<le> unat (take_bit 63 (int_to_f64 p))" unfolding f64_magnitude fields(1) by (simp add: add_mult_distrib)
  then have "int (1023 * 2 ^ 52) \<le> f64_ord (int_to_f64 p)" using fields(2) by (simp only: f64_ord_def Let_def if_False of_nat_le_iff)
  moreover have "f64_ord F64_ONE = int (1023 * 2 ^ 52)"
    by (simp add: f64_ord_def F64_ONE_def f64_sign_def Let_def)
  moreover have "\<not> f64_is_nan F64_ONE" by (simp add: F64_ONE_def f64_is_nan_def f64_frac_def)
  ultimately show "f64_le F64_ONE (int_to_f64 p)" using fin by (simp add: f64_le_def)
qed

lemma table_arg: "0x100 \<le> r \<Longrightarrow> r \<le> LJ_GCVMASK \<Longrightarrow> as_table (lua_table_value r) = Some r"
  using itype_gcv[of LJ_TTAB r] gc_addr_gcv[of r] gcptr_from_addr_ok[of r]
  by (simp add: as_table_def is_table_def lua_table_value_def gcval_def tags_high)

definition number_table :: ltable where
  "number_table = empty_table\<lparr>arr := [NIL, 0x4008000000000000, 0x3FF0000000000000], asize := 3\<rparr>"

lemma number_table_seq:
  "is_seq sid number_table [0x4008000000000000, 0x3FF0000000000000]"
  "length (entries number_table) + 2 < 2 ^ LJ_MAX_HBITS"
proof -
  let ?xs = "[0x4008000000000000, 0x3FF0000000000000] :: lua_value list"
  have nn: "\<not> is_nil 0x4008000000000000" "\<not> is_nil 0x3FF0000000000000" by (simp_all add: is_nil_def itype_def LJ_TNIL_def)
  have wf: "wf_tab sid number_table" for sid
    using nn by (simp add: wf_tab_def wf_array_def wf_hash_def number_table_def empty_table_def proper_val_def LJ_MAX_ASIZE_val)
  have "at_int number_table k = list_at ?xs k" if k: "1 \<le> k" "i32 k" for k
  proof -
    have ak: "array_key (int_key k) = (if nat k < LJ_MAX_ASIZE then Some (nat k) else None)"
      unfolding int_key_def using array_key_int[of k] k by (simp add: i32_def)
    consider "k = 1" | "k = 2" | "3 \<le> k" using k by linarith
    then show ?thesis
      using ak k by cases (auto simp: at_int_def cont_def in_array_def number_table_def empty_table_def hcont_def list_at_def
          LJ_MAX_ASIZE_val)
  qed
  then show "is_seq sid number_table ?xs" using wf nn by (simp add: is_seq_def)
  have "length (entries number_table) \<le> asize number_table + length (nodes number_table)"
    unfolding entries_positions using length_filter_le[of _ "[0..<asize number_table + length (nodes number_table)]"] by simp
  then show "length (entries number_table) + 2 < 2 ^ LJ_MAX_HBITS" by (simp add: number_table_def empty_table_def LJ_MAX_HBITS_def)
qed

section \<open>Properties\<close>

text \<open>C20. \<open>table.insert(t, p, v)\<close> on a table that holds the list \<open>xs\<close> makes it hold the list with
  \<open>v\<close> inserted at \<open>p\<close>, for every position from 1 to one past the end, and changes no other key; any
  other position is refused and changes nothing.\<close>

theorem table_insert_list:
  assumes "0x100 \<le> r" and "r \<le> LJ_GCVMASK" and "is_seq sid (tabs r) xs" and "\<not> is_nil v" and "i32 p"
    and "length (entries (tabs r)) + length xs < 2 ^ LJ_MAX_HBITS"
  shows "if 1 \<le> p \<and> p \<le> int (length xs) + 1
    then \<exists>t'. lib_insert sid [lua_table_value r, int_key p, v] tabs = Inr ([], tabs(r := t')) \<and>
      is_seq sid t' (take (nat p - 1) xs @ v # drop (nat p - 1) xs) \<and> other_keys t' = other_keys (tabs r)
    else lib_insert sid [lua_table_value r, int_key p, v] tabs = Inl (Runtime ''position out of bounds'')"
proof -
  have num: "f64_as_i32 (num_or F64_ONE (int_key p)) = p"
    using as_int32_exact_number_int[of p] assms(5) by (simp add: num_or_def int_key_def i32_def as_int32_exact_def Let_def split: option.splits if_splits)
  have eq: "lib_insert sid [lua_table_value r, int_key p, v] tabs =
      (if p < 1 \<or> int (length xs) + 1 < p then Inl (Runtime ''position out of bounds'')
       else rbind (panics (table_insert sid (tabs r) p v (int (length xs)))) (\<lambda>t. Inr ([], tabs(r := t))))"
    using table_arg[OF assms(1,2)] is_seq_len[OF assms(3)] num by (simp add: lib_insert_def arg_def Let_def)
  show ?thesis
  proof (cases "1 \<le> p \<and> p \<le> int (length xs) + 1")
    case True
    then show ?thesis using table_insert_ok[OF assms(3) _ _ assms(4,6), of p] by (auto simp: eq)
  qed (auto simp: eq)
qed

theorem table_insert_list_witness:
  "\<exists>t'. lib_insert (\<lambda>_. 0) [lua_table_value 0x1000, int_key 2, TRUE] (\<lambda>_. number_table) = Inr ([], (\<lambda>_. number_table)(0x1000 := t')) \<and>
    is_seq (\<lambda>_. 0) t' [0x4008000000000000, TRUE, 0x3FF0000000000000]"
proof -
  have "\<not> is_nil TRUE" by (simp add: is_nil_def itype_defs)
  from table_insert_list[where r = "0x1000" and sid = "\<lambda>_. 0" and tabs = "\<lambda>_. number_table", OF _ _ number_table_seq(1) this, where p = 2] show ?thesis
    using number_table_seq(2) by (auto simp: LJ_GCVMASK_def i32_def)
qed

text \<open>C21. \<open>table.remove(t, p)\<close> on a table that holds the list \<open>xs\<close> returns the element at \<open>p\<close> and makes
  the table hold the list without it; without a position it removes the last element. No
  other key changes. (A position past the end is not covered: the code then removes the last element.)\<close>

theorem table_remove_list:
  assumes "0x100 \<le> r" and "r \<le> LJ_GCVMASK" and "is_seq sid (tabs r) xs" and "1 \<le> p" and "p \<le> int (length xs)"
    and "length (entries (tabs r)) + length xs < 2 ^ LJ_MAX_HBITS"
  shows "(\<exists>t'. lib_remove sid [lua_table_value r, int_key p] tabs = Inr ([xs ! nat (p - 1)], tabs(r := t')) \<and>
      is_seq sid t' (take (nat p - 1) xs @ drop (nat p) xs) \<and> other_keys t' = other_keys (tabs r)) \<and>
    (\<exists>t'. lib_remove sid [lua_table_value r] tabs = Inr ([last xs], tabs(r := t')) \<and>
      is_seq sid t' (butlast xs) \<and> other_keys t' = other_keys (tabs r))"
proof -
  have small: "length xs < 2 ^ 26" using assms(6) by (simp add: LJ_MAX_HBITS_def)
  note a = int_arg[OF assms(4)]
  have ne: "xs \<noteq> []" using assms(4,5) by auto
  have p31: "p < 2 ^ 31" using small assms(5) by simp
  have "lib_remove sid [lua_table_value r, int_key p] tabs =
      rbind (panics (table_remove sid (tabs r) p (int (length xs)))) (\<lambda>(v, t). Inr ([v], tabs(r := t)))"
    using table_arg[OF assms(1,2)] is_seq_len[OF assms(3)] a[OF p31] assms(4,5) ne by (simp add: lib_remove_def arg_def Let_def)
  moreover have "as_number NIL = None" using is_number_not_nil[of NIL] by (auto simp: as_number_def)
  then have "lib_remove sid [lua_table_value r] tabs =
      rbind (panics (table_remove sid (tabs r) (int (length xs)) (int (length xs)))) (\<lambda>(v, t). Inr ([v], tabs(r := t)))"
    using table_arg[OF assms(1,2)] is_seq_len[OF assms(3)] assms(4,5) ne by (simp add: lib_remove_def arg_def Let_def)
  moreover have i: "nat (int (length xs) - 1) = length xs - 1" by arith
  have "xs ! nat (int (length xs) - 1) = last xs" "take (nat (int (length xs)) - 1) xs @ drop (nat (int (length xs))) xs = butlast xs"
    unfolding i nat_int using ne by (simp_all add: last_conv_nth butlast_conv_take)
  ultimately show ?thesis
    using table_remove_ok[OF assms(3-6)] table_remove_ok[OF assms(3) _ _ assms(6), of "int (length xs)"] assms(4,5) by auto
qed

theorem table_remove_list_witness:
  "\<exists>t'. lib_remove (\<lambda>_. 0) [lua_table_value 0x1000, int_key 1] (\<lambda>_. number_table) =
      Inr ([0x4008000000000000], (\<lambda>_. number_table)(0x1000 := t')) \<and> is_seq (\<lambda>_. 0) t' [0x3FF0000000000000]"
  using table_remove_list[where r = "0x1000" and sid = "\<lambda>_. 0" and tabs = "\<lambda>_. number_table", OF _ _ number_table_seq(1), where p = 1] number_table_seq(2)
  by (auto simp: LJ_GCVMASK_def)

text \<open>C19. \<open>table.sort(t)\<close> on a table that holds a list of numbers (without NaN) makes it hold the same
  numbers in increasing order; it calls no Lua code and changes no other key and no other
  table.\<close>

theorem table_sort_numbers:
  assumes "0x100 \<le> r" and "r \<le> LJ_GCVMASK" and "is_seq sid (tabs r) xs" and "list_all real_number xs"
    and "length (entries (tabs r)) + length xs < 2 ^ LJ_MAX_HBITS"
  shows "\<exists>t' ys. lib_sort env sid [lua_table_value r] (g, tabs) = Inr (g, tabs(r := t')) \<and> is_seq sid t' ys \<and>
    mset ys = mset xs \<and> sorted (map f64_ord ys) \<and> other_keys t' = other_keys (tabs r)"
proof -
  let ?t = "tabs r" and ?n = "int (length xs)"
  have wf: "wf_tab sid ?t" and nn: "list_all (\<lambda>v. \<not> is_nil v) xs"
    and at: "\<And>k. 1 \<le> k \<Longrightarrow> i32 k \<Longrightarrow> at_int ?t k = list_at xs k" using assms(3) by (auto simp: is_seq_def)
  have small: "length xs < 2 ^ 26" using assms(5) by (simp add: LJ_MAX_HBITS_def)
  let ?items = "map (\<lambda>k. (word_of_int k :: 32 word, at_int ?t k)) [1..?n]"
  have "read_keys (tab_get_int sid) [1..?n] ?t = Inr (map (\<lambda>k. (k, at_int ?t k)) [1..?n])"
    by (rule ints.read_keys_map[OF wf]) (use small in \<open>auto simp: i32_def\<close>)
  then have items: "sort_items sid ?t = Inr ?items"
    using is_seq_len[OF assms(3)] by (simp add: sort_items_def comp_def)
  have "at_int ?t k = list_at xs k" if "k \<in> set [1..?n]" for k using at[of k] small that by (auto simp: i32_def)
  then have "map snd ?items = map (list_at xs) [1..?n]" by simp
  also have "\<dots> = xs" by (rule nth_equalityI) (simp_all add: list_at_def nth_upto)
  finally have vals: "map snd ?items = xs" .
  have "list_all real_number (map snd ?items)" unfolding vals by (rule assms(4))
  then have "list_all (\<lambda>x. real_number (snd x)) ?items" by (simp only: list.pred_map comp_def)
  from default_sort_numbers[OF this, of env "(g, tabs)"] obtain ys where
    ys: "introsort (compare_default env) ?items (g, tabs) = Inr (ys, g, tabs)" "mset ys = mset ?items"
      "sorted (map (\<lambda>x. f64_ord (snd x)) ys)" by blast
  have ms: "mset (map snd ys) = mset xs" using arg_cong[OF ys(2), of "image_mset snd"] vals by (simp flip: mset_map)
  then have len: "length (map snd ys) = length xs" by (rule mset_eq_length)
  have nn': "list_all (\<lambda>v. \<not> is_nil v) (map snd ys)" using nn mset_eq_setD[OF ms] by (simp add: list_all_iff)
  then have "list_all proper_val (map snd ys)" by (auto simp: list_all_iff proper_val_def)
  then obtain t' where t': "write_keys (tab_set_int sid) 1 (map snd ys) ?t = Inr t'" "wf_tab sid t'" "other_keys t' = other_keys ?t"
    "at_int t' = (\<lambda>k. if 1 \<le> k \<and> k < 1 + int (length (map snd ys)) then map snd ys ! nat (k - 1) else at_int ?t k)"
    using ints.write_keys_at[OF wf, of "map snd ys" 1] assms(5) small len by fastforce
  have "at_int t' k = list_at (map snd ys) k" if k: "1 \<le> k" "i32 k" for k
    using at[OF k] k(1) len unfolding t'(4) list_at_def by auto
  then have "is_seq sid t' (map snd ys)" using t'(2) nn' len small by (simp add: is_seq_def)
  moreover have "lib_sort env sid [lua_table_value r] (g, tabs) = Inr (g, tabs(r := t'))"
    using table_arg[OF assms(1,2)] items ys(1) t'(1) by (simp add: lib_sort_def arg_def Let_def is_func_def itype_defs)
  moreover have "sorted (map f64_ord (map snd ys))" using ys(3) by (simp add: comp_def)
  ultimately show ?thesis using ms t'(3) by blast
qed

theorem table_sort_numbers_witness:
  "\<exists>t' ys. lib_sort \<lparr>execute = (\<lambda>s f a b. Inl ()), string_bytes = (\<lambda>s v. []), meta_lt = (\<lambda>s v. NIL)\<rparr> (\<lambda>_. 0)
      [lua_table_value 0x1000] ((), \<lambda>_. number_table) = Inr ((), (\<lambda>_. number_table)(0x1000 := t')) \<and>
    is_seq (\<lambda>_. 0) t' ys \<and> mset ys = mset [0x4008000000000000, 0x3FF0000000000000] \<and> sorted (map f64_ord ys)"
  using table_sort_numbers[where r = "0x1000" and sid = "\<lambda>_. 0" and tabs = "\<lambda>_. number_table", OF _ _ number_table_seq(1)] number_table_seq(2)
  by (fastforce simp: LJ_GCVMASK_def real_number_def is_number_def itype_def LJ_TISNUM_def LJ_TNUMX_def f64_is_nan_def f64_exp_def f64_frac_def)

end
