(* ===== verification/LJ_Float.thy ===== *)
theory LJ_Float
  imports LJ_Value LJ_Pattern
begin

unbundle bit_operations_syntax

text \<open>
  The double arithmetic that number scanning uses, on bit patterns: rounding a ratio to the
  nearest double (ties to even), the casts between \<open>u64\<close> and \<open>f64\<close>, powers of two, the product of
  non-negative doubles, and Rust's \<open>str::parse::<f64>\<close> on the decimal strings the scanner accepts.
\<close>

section \<open>Rounding\<close>

definition F64_INF :: f64 where "F64_INF = 0x7ff0000000000000"

text \<open>The exponent \<open>e\<close> for which \<open>num / den = q * 2 ^ e\<close> has a quotient \<open>q\<close> of 53 bits, or the least one.\<close>

definition ratio_log2 :: "nat \<Rightarrow> nat \<Rightarrow> int" where
  "ratio_log2 num den =
     (let l = int (floor_log2 num) - int (floor_log2 den)
      in if den * 2 ^ nat l \<le> num * 2 ^ nat (- l) then l else l - 1)"

definition f64_round :: "nat \<Rightarrow> nat \<Rightarrow> f64" where
  "f64_round num den =
     (if num = 0 then 0
      else let e = max (- 1074) (ratio_log2 num den - 52);
               n = num * 2 ^ nat (- e); d = den * 2 ^ nat e;
               q = n div d; r = n mod d;
               q' = (if d < 2 * r \<or> 2 * r = d \<and> odd q then q + 1 else q);
               bits = nat (e + 1074) * 2 ^ 52 + q'
           in if 2047 * 2 ^ 52 \<le> bits then F64_INF else word_of_nat bits)"

definition f64_of_u64 :: "u64 \<Rightarrow> f64" where
  "f64_of_u64 u = f64_round (unat u) 1"

definition f64_exp2 :: "int \<Rightarrow> f64" where
  "f64_exp2 e = (if e < - 1074 then 0 else if 1023 < e then F64_INF else f64_round (2 ^ nat e) (2 ^ nat (- e)))"

text \<open>A non-negative finite double as a ratio, and the product of two non-negative doubles.\<close>

definition f64_ratio :: "f64 \<Rightarrow> nat \<times> nat" where
  "f64_ratio b = (let e = max 1 (f64_exp b) in (f64_mant b * 2 ^ (e - 1075), 2 ^ (1075 - e)))"

definition f64_mul_nonneg :: "f64 \<Rightarrow> f64 \<Rightarrow> f64" where
  "f64_mul_nonneg a b =
     (if f64_is_inf a \<or> f64_is_inf b then (if f64_is_zero a \<or> f64_is_zero b then F64_NAN else F64_INF)
      else f64_round (fst (f64_ratio a) * fst (f64_ratio b)) (snd (f64_ratio a) * snd (f64_ratio b)))"

text \<open>\<open>n as u64\<close> for a non-negative \<open>n\<close>.\<close>

definition f64_as_u64 :: "f64 \<Rightarrow> u64" where
  "f64_as_u64 b =
     (if f64_is_nan b then 0 else if f64_is_inf b then -1
      else word_of_int (max 0 (min (2 ^ 64 - 1) (f64_trunc b))))"

definition f64_neg :: "f64 \<Rightarrow> f64" where "f64_neg b = flip_bit 63 b"

section \<open>Parsing decimal numbers\<close>

definition is_ascii_digit :: "u8 \<Rightarrow> bool" where "is_ascii_digit c \<longleftrightarrow> 48 \<le> c \<and> c \<le> 57"

definition digits_value :: "bytes \<Rightarrow> nat" where
  "digits_value ds = foldl (\<lambda>n c. n * 10 + unat (c - 48)) 0 ds"

text \<open>The exponent part: nothing, or \<open>e\<close>, an optional sign and digits up to the end.\<close>

definition parse_exponent :: "bytes \<Rightarrow> int option" where
  "parse_exponent s =
     (case s of
        [] \<Rightarrow> Some 0
      | c # cs \<Rightarrow>
          if c = 0x65 \<or> c = 0x45
          then let neg = (cs \<noteq> [] \<and> hd cs = MINUS);
                   ds = (if cs \<noteq> [] \<and> (hd cs = MINUS \<or> hd cs = PLUS) then tl cs else cs)
               in if ds = [] \<or> \<not> list_all is_ascii_digit ds then None
                  else Some (if neg then - int (digits_value ds) else int (digits_value ds))
          else None)"

text \<open>\<open>Digit+\<close>, \<open>Digit+ . Digit*\<close> or \<open>Digit* . Digit+\<close>, then the exponent. (The words for infinity and
  NaN, which Rust's parser also accepts, and a sign never reach it.)\<close>

definition parse_f64 :: "bytes \<Rightarrow> f64 option" where
  "parse_f64 s =
     (let ip = takeWhile is_ascii_digit s; r1 = dropWhile is_ascii_digit s;
          dot = (r1 \<noteq> [] \<and> hd r1 = DOT);
          r2 = (if dot then tl r1 else r1);
          fp = (if dot then takeWhile is_ascii_digit r2 else []);
          r3 = (if dot then dropWhile is_ascii_digit r2 else r2)
      in if ip = [] \<and> fp = [] then None
         else case parse_exponent r3 of
                None \<Rightarrow> None
              | Some e \<Rightarrow>
                  let m = digits_value (ip @ fp); e10 = e - int (length fp)
                  in Some (f64_round (m * 10 ^ nat e10) (10 ^ nat (- e10))))"

section \<open>Exact cases\<close>

lemma floor_log2_pow: "n < 2 \<Longrightarrow> floor_log2 n = 0" by (simp add: floor_log2.simps)

lemma f64_round_int:
  assumes "0 < n" "n < 2 ^ 53"
  shows "f64_round n 1 = nat_to_f64 n"
proof -
  define p where "p = floor_log2 n"
  have b: "2 ^ p \<le> n" "n < 2 ^ Suc p" using floor_log2_bounds[OF assms(1)] by (auto simp: p_def)
  have "2 ^ p < (2::nat) ^ 53" using b(1) assms(2) by linarith
  then have p: "p \<le> 52" using power_less_imp_less_exp[of "2::nat" p 53] by linarith
  have l: "ratio_log2 n 1 = int p" using b(1) by (simp add: ratio_log2_def floor_log2_pow p_def[symmetric])
  let ?k = "52 - p"
  have e: "max (- 1074) (int p - 52) = - int ?k" using p by auto
  have "2 ^ p * 2 ^ ?k \<le> n * 2 ^ ?k" using b(1) by simp
  then have lo: "2 ^ 52 \<le> n * 2 ^ ?k" using p by (simp flip: power_add)
  have "n * 2 ^ ?k < 2 ^ Suc p * 2 ^ ?k" using b(2) by (intro mult_strict_right_mono) auto
  then have hi: "n * 2 ^ ?k < 2 ^ 53" unfolding power_add[symmetric] using p by simp
  have sum: "nat (- int ?k + 1074) * 2 ^ 52 + n * 2 ^ ?k = (p + 1023) * 2 ^ 52 + (n * 2 ^ ?k - 2 ^ 52)"
  proof -
    have "nat (- int ?k + 1074) = p + 1022" using p by simp
    moreover have "n * 2 ^ ?k = 2 ^ 52 + (n * 2 ^ ?k - 2 ^ 52)" using lo by simp
    ultimately show ?thesis by (simp add: algebra_simps)
  qed
  moreover have "(p + 1023) * 2 ^ 52 + (n * 2 ^ ?k - 2 ^ 52) < 2047 * 2 ^ 52"
  proof -
    have "n * 2 ^ ?k - 2 ^ 52 < 2 ^ 52" using hi by simp
    then have "(p + 1023) * 2 ^ 52 + (n * 2 ^ ?k - 2 ^ 52) < (p + 1024) * 2 ^ 52" by (simp add: algebra_simps)
    also have "\<dots> \<le> 2047 * 2 ^ 52" using p by (intro mult_right_mono) auto
    finally show ?thesis .
  qed
  moreover have "f64_round n 1 = (let bits = nat (- int ?k + 1074) * 2 ^ 52 + n * 2 ^ ?k
      in if 2047 * 2 ^ 52 \<le> bits then F64_INF else word_of_nat bits)"
  proof -
    have nk: "nat (- (- int ?k)) = ?k" "nat (- int ?k) = 0" by simp_all
    have "n \<noteq> 0" using assms(1) by simp
    then show ?thesis unfolding f64_round_def l e Let_def nk
      by (simp only: if_False power_0 mult_1 mult_1_right div_by_1 mod_by_1 mult_0_right) simp
  qed
  moreover have "nat_to_f64 n = word_of_nat ((p + 1023) * 2 ^ 52 + (n * 2 ^ ?k - 2 ^ 52))"
    unfolding nat_to_f64_def Let_def p_def[symmetric] by (rule if_not_P) (use assms(1) in simp)
  ultimately show ?thesis by (simp only: Let_def if_False not_le[symmetric] simp_thms)
qed

end
