(* ===== verification/LJ_Strfmt.thy ===== *)
theory LJ_Strfmt
  imports LJ_Float "HOL-Library.Signed_Division"
begin

unbundle bit_operations_syntax

text \<open>
  Number formatting and \<open>string.format\<close> (\<open>util/strfmt.rs\<close>). The fixed-point and exponential formats of
  doubles that Rust's formatter provides (correctly rounded, ties to even) are computed on the exact
  ratio of the double; a run-time precision is an argument of 16 bits there, and a larger one panics. An
  \<open>Err\<close> of the source is \<open>FmtErr\<close> with its message; a panic is \<open>FmtPanic\<close>. The output is a \<open>Vec\<close>, which
  panics when asked for more than \<open>isize::MAX\<close> bytes; a request within that is granted.
\<close>

section \<open>Rust's decimal formats\<close>

definition round_ratio :: "nat \<Rightarrow> nat \<Rightarrow> nat" where
  "round_ratio n d = (let q = n div d; r = n mod d in if d < 2 * r \<or> 2 * r = d \<and> odd q then q + 1 else q)"

definition zeros :: "nat \<Rightarrow> bytes" where "zeros n = replicate n 0x30"

definition pad_left0 :: "nat \<Rightarrow> bytes \<Rightarrow> bytes" where
  "pad_left0 w ds = zeros (w - length ds) @ ds"

definition f64_abs :: "f64 \<Rightarrow> f64" where "f64_abs b = unset_bit 63 b"

text \<open>\<open>{:.p}\<close> of a non-negative double.\<close>

definition fmt_fixed_abs :: "nat \<Rightarrow> f64 \<Rightarrow> bytes" where
  "fmt_fixed_abs p n =
     (if f64_is_nan n then byte_string ''NaN'' else if f64_is_inf n then byte_string ''inf''
      else let (a, b) = f64_ratio n; q = round_ratio (a * 10 ^ p) b
           in decimal (q div 10 ^ p) @ (if p = 0 then [] else DOT # pad_left0 p (decimal (q mod 10 ^ p))))"

definition fmt_fixed :: "nat \<Rightarrow> f64 \<Rightarrow> bytes" where
  "fmt_fixed p n = (if f64_sign n \<and> \<not> f64_is_nan n then MINUS # fmt_fixed_abs p (f64_abs n) else fmt_fixed_abs p (f64_abs n))"

text \<open>The decimal exponent of a positive ratio: the largest \<open>k\<close> with \<open>10 ^ k \<le> a / b\<close>.\<close>

definition ratio_log10 :: "nat \<Rightarrow> nat \<Rightarrow> int" where
  "ratio_log10 a b =
     (if b \<le> a then int (length (decimal (a div b))) - 1 else - int (length (decimal ((b + a - 1) div a - 1))))"

text \<open>\<open>{:.pe}\<close> split at the letter \<open>e\<close>: the mantissa text and the exponent. Infinity and NaN have no exponent.\<close>

definition fmt_exp_abs :: "nat \<Rightarrow> f64 \<Rightarrow> (bytes \<times> int) option" where
  "fmt_exp_abs p n =
     (if f64_is_nan n \<or> f64_is_inf n then None
      else let (a, b) = f64_ratio n;
               (q, k) = (if a = 0 then (0, 0)
                         else let k = ratio_log10 a b; q = round_ratio (a * 10 ^ nat (int p - k)) (b * 10 ^ nat (k - int p))
                              in if q = 10 ^ (p + 1) then (10 ^ p, k + 1) else (q, k));
               ds = pad_left0 (p + 1) (decimal q)
           in Some (take 1 ds @ (if p = 0 then [] else DOT # drop 1 ds), k))"

definition fmt_exp :: "nat \<Rightarrow> f64 \<Rightarrow> (bytes \<times> int) option" where
  "fmt_exp p n = map_option (\<lambda>(m, e). (if f64_sign n then MINUS # m else m, e)) (fmt_exp_abs p (f64_abs n))"

text \<open>The same formats with a precision given at run time (\<open>{:.*}\<close> and \<open>{:.*e}\<close>): the precision must fit 16
  bits, whatever the number. The exponent form is split at the letter \<open>e\<close> and unwrapped.\<close>

definition precision_panic :: panic where "precision_panic = AssertPanic ''Formatting argument out of range''"

definition unwrap_panic :: panic where "unwrap_panic = AssertPanic ''unwrap on None''"

definition fmt_fixed_prec :: "nat \<Rightarrow> f64 \<Rightarrow> panic + bytes" where
  "fmt_fixed_prec p n = (if 65535 < p then Inl precision_panic else Inr (fmt_fixed p n))"

definition fmt_exp_prec :: "nat \<Rightarrow> f64 \<Rightarrow> panic + (bytes \<times> int)" where
  "fmt_exp_prec p n =
     (if 65535 < p then Inl precision_panic
      else case fmt_exp p n of None \<Rightarrow> Inl unwrap_panic | Some x \<Rightarrow> Inr x)"

text \<open>\<open>trim_end_matches\<close> for one character.\<close>

definition trim_end :: "u8 \<Rightarrow> bytes \<Rightarrow> bytes" where
  "trim_end c s = rev (dropWhile (\<lambda>x. x = c) (rev s))"

definition trim_zeros :: "bytes \<Rightarrow> bytes" where
  "trim_zeros s = trim_end DOT (trim_end 0x30 s)"

text \<open>\<open>e\<close>, the sign and at least two digits of an exponent.\<close>

definition exp_suffix :: "u8 \<Rightarrow> int \<Rightarrow> bytes" where
  "exp_suffix letter e = letter # (if e < 0 then MINUS else PLUS) # pad_left0 2 (decimal (nat \<bar>e\<bar>))"

section \<open>Integers\<close>

definition f64_as_i64 :: "f64 \<Rightarrow> int" where
  "f64_as_i64 b =
     (if f64_is_nan b then 0
      else if f64_is_inf b then (if f64_sign b then - (2 ^ 63) else 2 ^ 63 - 1)
      else max (- (2 ^ 63)) (min (2 ^ 63 - 1) (f64_trunc b)))"

text \<open>\<open>i as f64\<close> for a 64-bit integer.\<close>

definition f64_of_i64 :: "int \<Rightarrow> f64" where
  "f64_of_i64 i = (if i < 0 then f64_neg (f64_round (nat (- i)) 1) else f64_round (nat i) 1)"

text \<open>The digit loops fill a buffer from its end; the accumulator is the part written so far.\<close>

function itoa_u64 :: "nat \<Rightarrow> bytes \<Rightarrow> bytes" where
  "itoa_u64 u acc = (if 10 \<le> u then itoa_u64 (u div 10) (word_of_nat (0x30 + u mod 10) # acc) else word_of_nat (0x30 + u) # acc)"
  by auto
termination by (relation "measure fst") auto

declare itoa_u64.simps [simp del]

definition itoa_i64 :: "int \<Rightarrow> bytes" where
  "itoa_i64 v = (if v < 0 then MINUS # itoa_u64 (unat (- (word_of_int v :: u64))) [] else itoa_u64 (nat v) [])"

function itoa_loop :: "int \<Rightarrow> bytes \<Rightarrow> bytes" where
  "itoa_loop n acc = (if n = 0 then acc else itoa_loop (n sdiv 10) (word_of_int (0x30 + \<bar>n smod 10\<bar>) # acc))"
  by auto
termination
proof (relation "measure (\<lambda>(n, acc). nat \<bar>n\<bar>)")
  fix n :: int and acc :: bytes assume "n \<noteq> 0"
  then show "((n sdiv 10, word_of_int (0x30 + \<bar>n smod 10\<bar>) # acc), n, acc) \<in> measure (\<lambda>(n, acc). nat \<bar>n\<bar>)"
    by (auto simp: signed_divide_int_def sgn_if abs_if)
qed simp

declare itoa_loop.simps [simp del]

definition itoa :: "int \<Rightarrow> bytes" where
  "itoa n = (if n = 0 then [0x30] else itoa_loop n [])"

definition hex_char :: "bool \<Rightarrow> nat \<Rightarrow> u8" where
  "hex_char upper d = word_of_nat (if d < 10 then 0x30 + d else if upper then 0x41 + d - 10 else 0x61 + d - 10)"

function utobase_loop :: "nat \<Rightarrow> bool \<Rightarrow> u64 \<Rightarrow> bytes \<Rightarrow> bytes" where
  "utobase_loop k upper n acc =
     (if n = 0 \<or> k = 0 then acc
      else let d = unat (n AND (2 ^ k - 1))
           in utobase_loop k upper (drop_bit k n)
                (hex_char upper d # acc))"
  by auto
termination
proof (relation "measure (\<lambda>(k, upper, n, acc). unat n)")
  fix k :: nat and upper :: bool and n :: u64 and acc :: bytes and d :: nat
  assume "\<not> (n = 0 \<or> k = 0)"
  then have "0 < k" "0 < unat n" by (auto simp: unat_gt_0)
  then have "1 < (2 :: nat) ^ k" "0 < unat n" using one_less_power[of "2 :: nat" k] by simp_all
  then have "unat n div 2 ^ k < unat n" by simp
  then show "((k, upper, drop_bit k n, hex_char upper d # acc), k, upper, n, acc)
    \<in> measure (\<lambda>(k, upper, n, acc). unat n)"
    by (simp add: unat_drop_bit)
qed simp

declare utobase_loop.simps [simp del]

definition utohex :: "u64 \<Rightarrow> bool \<Rightarrow> bytes" where
  "utohex n upper = (if n = 0 then [0x30] else utobase_loop 4 upper n [])"

definition utooct :: "u64 \<Rightarrow> bytes" where
  "utooct n = (if n = 0 then [0x30] else utobase_loop 3 False n [])"

section \<open>Numbers as text\<close>

text \<open>\<open>BufWriter\<close> cuts what does not fit its 64 bytes.\<close>

definition buf_write :: "bytes \<Rightarrow> bytes" where "buf_write s = take 64 s"

definition g14 :: "f64 \<Rightarrow> panic + bytes" where
  "g14 n =
     (if f64_is_zero n then Inr (if f64_sign n then [MINUS, 0x30] else [0x30])
      else if f64_is_nan n then Inr (byte_string ''nan'')
      else if f64_is_inf n then Inr (byte_string (if f64_sign n then ''-inf'' else ''inf''))
      else let i = f64_as_i64 n
           in if f64_eq (f64_of_i64 i) n \<and> \<bar>i\<bar> < 2 ^ 53 then Inr (itoa_i64 i)
              else case fmt_exp 13 n of
                     None \<Rightarrow> Inl unwrap_panic
                   | Some (m, e) \<Rightarrow>
                       if e < - 4 \<or> 14 \<le> e then Inr (buf_write (trim_zeros m @ exp_suffix 0x65 e))
                       else let s = buf_write (fmt_fixed (nat (max 0 (13 - e))) n)
                            in Inr (if DOT \<in> set s then trim_zeros s else s))"

section \<open>Conversion specifications\<close>

datatype fmt_arg = ANum f64 | AStr bytes

datatype fmt_fault = FmtErr string | FmtPanic panic

record spec =
  sp_left :: bool
  sp_zero :: bool
  sp_space :: bool
  sp_plus :: bool
  sp_hash :: bool
  sp_width :: "nat option"
  sp_prec :: "nat option"

definition SPEC0 :: spec where
  "SPEC0 = \<lparr>sp_left = False, sp_zero = False, sp_space = False, sp_plus = False, sp_hash = False,
            sp_width = None, sp_prec = None\<rparr>"

datatype fmt_part = Lit bytes | Conv spec u8

definition is_flag :: "u8 \<Rightarrow> bool" where
  "is_flag c \<longleftrightarrow> c = MINUS \<or> c = PLUS \<or> c = 0x20 \<or> c = 0x23 \<or> c = 0x30"

definition set_flag :: "u8 \<Rightarrow> spec \<Rightarrow> spec" where
  "set_flag c s =
     (if c = MINUS then s\<lparr>sp_left := True\<rparr> else if c = PLUS then s\<lparr>sp_plus := True\<rparr>
      else if c = 0x20 then s\<lparr>sp_space := True\<rparr> else if c = 0x23 then s\<lparr>sp_hash := True\<rparr>
      else s\<lparr>sp_zero := True\<rparr>)"

text \<open>\<open>str::parse::<usize>\<close> of a run of digits.\<close>

definition parse_usize :: "bytes \<Rightarrow> nat option" where
  "parse_usize ds = (if ds = [] \<or> 2 ^ 64 \<le> digits_value ds then None else Some (digits_value ds))"

definition parse_spec_bytes :: "bytes \<Rightarrow> spec" where
  "parse_spec_bytes f =
     (let s1 = fold set_flag (takeWhile is_flag f) SPEC0;
          r1 = dropWhile is_flag f;
          w = takeWhile is_ascii_digit r1;
          s2 = (if w \<noteq> [] then s1\<lparr>sp_width := parse_usize w\<rparr> else s1);
          r2 = dropWhile is_ascii_digit r1
      in if r2 \<noteq> [] \<and> hd r2 = DOT then s2\<lparr>sp_prec := parse_usize (takeWhile is_ascii_digit (tl r2))\<rparr> else s2)"

text \<open>The length of the flags, width and precision at the start of the rest of a format.\<close>

definition spec_len :: "bytes \<Rightarrow> nat" where
  "spec_len f =
     (let a = length (takeWhile is_flag f);
          b = a + length (takeWhile is_ascii_digit (drop a f))
      in if b < length f \<and> f ! b = DOT then b + 1 + length (takeWhile is_ascii_digit (drop (b + 1) f)) else b)"

definition flush_lit :: "bytes \<Rightarrow> fmt_part list" where
  "flush_lit lit = (if lit = [] then [] else [Lit lit])"

text \<open>\<open>lit\<close> is the literal run \<open>fmt[lit_start..i]\<close>.\<close>

function compile_loop :: "bytes \<Rightarrow> bytes \<Rightarrow> fmt_fault + fmt_part list" where
  "compile_loop lit [] = Inr (flush_lit lit)"
| "compile_loop lit (c # cs) =
     (if c = PERCENT
      then if cs \<noteq> [] \<and> hd cs = PERCENT
           then rbind (compile_loop [] (tl cs)) (\<lambda>ps. Inr (flush_lit lit @ Lit [PERCENT] # ps))
           else let n = spec_len cs
                in if length cs \<le> n then Inl (FmtErr (''invalid conversion to '' @ [CHR 0x27] @ ''format'' @ [CHR 0x27]))
                   else rbind (compile_loop [] (drop (n + 1) cs))
                          (\<lambda>ps. Inr (flush_lit lit @ Conv (parse_spec_bytes (take n cs)) (cs ! n) # ps))
      else compile_loop (lit @ [c]) cs)"
  by pat_completeness auto
termination by (relation "measure (\<lambda>(lit, f). length f)") auto

definition compile :: "bytes \<Rightarrow> fmt_fault + fmt_part list" where
  "compile fmt = compile_loop [] fmt"

section \<open>Padding\<close>

definition spaces :: "nat \<Rightarrow> bytes" where "spaces n = replicate n 0x20"

definition sign_bytes :: "u8 \<Rightarrow> bytes" where "sign_bytes sign = (if sign \<noteq> 0 then [sign] else [])"

text \<open>Growing the output: \<open>extend_from_slice\<close> or \<open>push\<close>, and \<open>resize(len + k, c)\<close>, whose sum may overflow.\<close>

definition ISIZE_MAX :: nat where "ISIZE_MAX = 2 ^ 63 - 1"

definition capacity_panic :: panic where "capacity_panic = AssertPanic ''capacity overflow''"

definition vec_extend :: "bytes \<Rightarrow> bytes \<Rightarrow> panic + bytes" where
  "vec_extend out xs = (if ISIZE_MAX < length out + length xs then Inl capacity_panic else Inr (out @ xs))"

definition vec_resize :: "bytes \<Rightarrow> nat \<Rightarrow> u8 \<Rightarrow> panic + bytes" where
  "vec_resize out k c =
     (if 2 ^ 64 \<le> length out + k then Inl ArithPanic
      else if ISIZE_MAX < length out + k then Inl capacity_panic else Inr (out @ replicate k c))"

definition push_padded :: "bytes \<Rightarrow> spec \<Rightarrow> bytes \<Rightarrow> u8 \<Rightarrow> bool \<Rightarrow> panic + bytes" where
  "push_padded out s body sign zero_with_prec =
     (let total = (if sign \<noteq> 0 then 1 else 0) + length body;
          w = (case sp_width s of Some w \<Rightarrow> w | None \<Rightarrow> 0)
      in if sp_zero s \<and> \<not> sp_left s \<and> (zero_with_prec \<or> sp_prec s = None) \<and> total < w
         then rbind (vec_extend out (sign_bytes sign)) (\<lambda>out.
              rbind (vec_resize out (w - total) 0x30) (\<lambda>out. vec_extend out body))
         else let padn = w - total
              in if sp_left s
                 then rbind (vec_extend out (sign_bytes sign)) (\<lambda>out.
                      rbind (vec_extend out body) (\<lambda>out. vec_resize out padn 0x20))
                 else rbind (vec_resize out padn 0x20) (\<lambda>out.
                      rbind (vec_extend out (sign_bytes sign)) (\<lambda>out. vec_extend out body)))"

definition pad :: "bytes \<Rightarrow> nat option \<Rightarrow> bool \<Rightarrow> panic + bytes" where
  "pad s width left =
     (case width of
        Some w \<Rightarrow>
          if length s < w
          then if ISIZE_MAX < w then Inl capacity_panic
               else Inr (if left then s @ spaces (w - length s) else spaces (w - length s) @ s)
          else Inr s
      | None \<Rightarrow> Inr s)"

section \<open>Floating-point conversions\<close>

definition fmt_e :: "f64 \<Rightarrow> nat \<Rightarrow> bool \<Rightarrow> bool \<Rightarrow> panic + bytes" where
  "fmt_e n prec upper hash =
     rbind (fmt_exp_prec prec n) (\<lambda>(m, e).
       Inr ((if hash \<and> DOT \<notin> set m then m @ [DOT] else m) @ exp_suffix (if upper then 0x45 else 0x65) e))"

definition fmt_g :: "f64 \<Rightarrow> nat \<Rightarrow> bool \<Rightarrow> panic + bytes" where
  "fmt_g n prec hash =
     (if f64_is_zero n then Inr [0x30]
      else rbind (fmt_exp_prec (prec - 1) n) (\<lambda>(m, e).
             if e < - 4 \<or> int prec \<le> e then Inr ((if hash then m else trim_zeros m) @ exp_suffix 0x65 e)
             else rbind (fmt_fixed_prec (nat (max 0 (int prec - 1 - e))) n) (\<lambda>s.
                    Inr (if hash then s else if DOT \<in> set s then trim_zeros s else s))))"

definition to_ascii_uppercase :: "u8 \<Rightarrow> u8" where
  "to_ascii_uppercase c = (if 0x61 \<le> c \<and> c \<le> 0x7A then c - 32 else c)"

definition fmt_float_body :: "spec \<Rightarrow> u8 \<Rightarrow> f64 \<Rightarrow> panic + bytes" where
  "fmt_float_body s conv n =
     (let p = (case sp_prec s of Some p \<Rightarrow> p | None \<Rightarrow> 6)
      in if conv = 0x66 \<or> conv = 0x46
         then rbind (fmt_fixed_prec p (f64_abs n)) (\<lambda>t. Inr (if sp_hash s \<and> DOT \<notin> set t then t @ [DOT] else t))
         else if conv = 0x65 \<or> conv = 0x45 then fmt_e (f64_abs n) p (conv = 0x45) (sp_hash s)
         else if conv = 0x67 \<or> conv = 0x47
         then rbind (fmt_g (f64_abs n) (if sp_prec s \<noteq> None then max p 1 else 6) (sp_hash s))
                (\<lambda>t. Inr (if conv = 0x47 then map to_ascii_uppercase t else t))
         else Inl (AssertPanic ''unreachable''))"

subsection \<open>Hexadecimal floats\<close>

definition leading_zeros64 :: "u64 \<Rightarrow> nat" where
  "leading_zeros64 x = length (takeWhile Not (rev (map (bit x) [0..<64])))"

text \<open>The exponent and the mantissa with its leading bit at position 52.\<close>

definition fmt_a_parts :: "f64 \<Rightarrow> int \<times> u64" where
  "fmt_a_parts bits =
     (let ex = f64_exp bits; frac = take_bit 52 bits
      in if ex = 0
         then let shift = int (leading_zeros64 frac) - 11 in (- 1023 - shift, push_bit (nat shift) frac)
         else (int ex - 1023, 2 ^ 52 OR frac))"

text \<open>The 13 hexadecimal digits of the fraction.\<close>

fun hex_digits13 :: "nat \<Rightarrow> u64 \<Rightarrow> nat list" where
  "hex_digits13 0 m = []"
| "hex_digits13 (Suc k) m = unat (drop_bit 48 m AND 0xF) # hex_digits13 k (push_bit 4 m)"

text \<open>The carry of rounding up, from the last digit kept; \<open>True\<close> when it leaves the first one.\<close>

fun round_up :: "nat list \<Rightarrow> nat list \<times> bool" where
  "round_up [] = ([], True)"
| "round_up (d # ds) =
     (let (es, carry) = round_up ds
      in if carry then (if d + 1 < 16 then ((d + 1) # es, False) else (0 # es, True)) else (d # es, False))"

definition fmt_a_frac :: "nat list \<Rightarrow> nat \<Rightarrow> int \<Rightarrow> nat list \<times> int" where
  "fmt_a_frac digits prec e2 =
     (if prec \<le> 13
      then let ds = take prec digits; nxt = (if prec < length digits then digits ! prec else 0)
           in if 8 \<le> nxt
              then let (es, carry) = round_up ds
                   in if carry then (butlast (1 # es), e2 + 1) else (es, e2)
              else (ds, e2)
      else let s = rev (dropWhile (\<lambda>d. d = 0) (rev digits)) in (if s = [] then [0] else s, e2))"

definition exp_text :: "int \<Rightarrow> bytes" where
  "exp_text e = 0x70 # (if e < 0 then MINUS else PLUS) # decimal (nat \<bar>e\<bar>)"

definition fmt_a :: "f64 \<Rightarrow> nat \<Rightarrow> bool \<Rightarrow> bytes" where
  "fmt_a n prec upper =
     (let prefix = byte_string (if upper then ''0X'' else ''0x'');
          sign = (if f64_sign n then [MINUS] else []);
          v = f64_abs n
      in if f64_is_zero v then sign @ prefix @ byte_string ''0p+0''
         else let (e2, mant) = fmt_a_parts v; digits = hex_digits13 13 mant
              in if prec = 0
                 then sign @ prefix @ [if 8 \<le> unat (drop_bit 48 mant AND 0xF) then 0x32 else 0x31] @ exp_text e2
                 else let (fs, e3) = fmt_a_frac digits prec e2
                      in map (\<lambda>c. if upper \<and> c = 0x70 then 0x50 else c)
                           (sign @ prefix @ byte_string ''1.'' @ map (hex_char upper) fs @ exp_text e3))"

section \<open>Arguments\<close>

text \<open>\<open>str::trim\<close>: the white space of Unicode, as its UTF-8 sequences.\<close>

definition WHITE :: "bytes list" where
  "WHITE = map (\<lambda>c. [c]) [9, 10, 11, 12, 13, 32] @ [[0xC2, 0x85], [0xC2, 0xA0], [0xE1, 0x9A, 0x80], [0xE2, 0x81, 0x9F],
      [0xE3, 0x80, 0x80], [0xE2, 0x80, 0xA8], [0xE2, 0x80, 0xA9], [0xE2, 0x80, 0xAF]] @
     map (\<lambda>k. [0xE2, 0x80, 0x80 + word_of_nat k]) [0..<11]"

definition white_len :: "bytes list \<Rightarrow> bytes \<Rightarrow> nat" where
  "white_len ws s = (case find (\<lambda>w. take (length w) s = w) ws of Some w \<Rightarrow> length w | None \<Rightarrow> 0)"

function trim_start :: "bytes list \<Rightarrow> bytes \<Rightarrow> bytes" where
  "trim_start ws s = (let n = white_len ws s in if n = 0 \<or> s = [] then s else trim_start ws (drop n s))"
  by auto
termination by (relation "measure (\<lambda>(ws, s). length s)") auto

declare trim_start.simps [simp del]

definition str_trim :: "bytes \<Rightarrow> bytes" where
  "str_trim s = rev (trim_start (map rev WHITE) (rev (trim_start WHITE s)))"

definition ascii_ci_eq :: "bytes \<Rightarrow> string \<Rightarrow> bool" where
  "ascii_ci_eq s w \<longleftrightarrow> map to_ascii_lowercase s = byte_string w"

text \<open>\<open>str::parse::<f64>\<close> with a sign and the words for infinity and NaN.\<close>

definition parse_f64_signed :: "bytes \<Rightarrow> f64 option" where
  "parse_f64_signed s =
     (let sign = (s \<noteq> [] \<and> (hd s = MINUS \<or> hd s = PLUS)); body = (if sign then tl s else s);
          v = (if ascii_ci_eq body ''inf'' \<or> ascii_ci_eq body ''infinity'' then Some F64_INF
               else if ascii_ci_eq body ''nan'' then Some F64_NAN else parse_f64 body)
      in map_option (\<lambda>x. if sign \<and> hd s = MINUS then f64_neg x else x) v)"

definition next_arg :: "fmt_arg list \<Rightarrow> nat \<Rightarrow> fmt_fault + fmt_arg" where
  "next_arg args ai = (if ai < length args then Inr (args ! ai) else Inl (FmtErr (''bad argument to '' @ [CHR 0x27] @ ''format'' @ [CHR 0x27])))"

definition next_num :: "fmt_arg list \<Rightarrow> nat \<Rightarrow> fmt_fault + f64" where
  "next_num args ai =
     rbind (next_arg args ai)
       (\<lambda>a. case a of
              ANum n \<Rightarrow> Inr n
            | AStr s \<Rightarrow> (case parse_f64_signed (str_trim s) of
                Some n \<Rightarrow> Inr n
              | None \<Rightarrow> Inl (FmtErr (''bad argument to '' @ [CHR 0x27] @ ''format'' @ [CHR 0x27] @ '' (number expected)''))))"

section \<open>Formatting\<close>

text \<open>The sign of a signed conversion: minus, or what the flags ask for.\<close>

definition sign_of :: "bool \<Rightarrow> spec \<Rightarrow> u8" where
  "sign_of neg s = (if neg then MINUS else if sp_plus s then PLUS else if sp_space s then 0x20 else 0)"

definition octal3 :: "u8 \<Rightarrow> bytes" where
  "octal3 b = map (\<lambda>k. 0x30 + (drop_bit k b AND 7)) [6, 3, 0]"

definition q_byte :: "u8 \<Rightarrow> bytes" where
  "q_byte b =
     (if b = 0x22 \<or> b = 0x5C then [0x5C, b]
      else if b = 10 \<or> b = 13 then [0x5C, b]
      else if b = 9 then [0x5C, 0x74] else if b = 7 then [0x5C, 0x61] else if b = 8 then [0x5C, 0x62]
      else if b = 12 then [0x5C, 0x66] else if b = 11 then [0x5C, 0x76]
      else if b < 32 \<or> b = 127 then 0x5C # octal3 b
      else [b])"

definition quote :: "bytes \<Rightarrow> bytes" where
  "quote s = 0x22 # concat (map q_byte s) @ [0x22]"

definition of_panic :: "panic + 'a \<Rightarrow> fmt_fault + 'a" where
  "of_panic r = (case r of Inl p \<Rightarrow> Inl (FmtPanic p) | Inr x \<Rightarrow> Inr x)"

definition format_str :: "spec \<Rightarrow> fmt_arg \<Rightarrow> bytes \<Rightarrow> panic + bytes" where
  "format_str s a out =
     (case a of
        ANum n \<Rightarrow> rbind (g14 n) (vec_extend out)
      | AStr body \<Rightarrow>
          if body = [] then Inr out
          else push_padded out s (case sp_prec s of Some p \<Rightarrow> if p < length body then take p body else body | None \<Rightarrow> body) 0 False)"

definition format_a :: "spec \<Rightarrow> bool \<Rightarrow> f64 \<Rightarrow> bytes \<Rightarrow> panic + bytes" where
  "format_a s upper n out =
     (let t = fmt_a n (case sp_prec s of Some p \<Rightarrow> p | None \<Rightarrow> 13) upper;
          t1 = (if \<not> f64_sign n \<and> sp_plus s then PLUS # t
                else if \<not> f64_sign n \<and> sp_space s \<and> (t = [] \<or> hd t \<noteq> 0x20) then 0x20 # t else t)
      in rbind (pad t1 (sp_width s) (sp_left s)) (vec_extend out))"

text \<open>What a conversion of a number appends.\<close>

definition format_num :: "spec \<Rightarrow> u8 \<Rightarrow> bytes \<Rightarrow> f64 \<Rightarrow> panic + bytes" where
  "format_num s conv out x =
     (let n = f64_as_i64 x
      in if conv = 0x64 \<or> conv = 0x69 then push_padded out s (itoa n) (sign_of (n < 0) s) False
         else if conv = 0x75 then push_padded out s (itoa n) 0 False
         else if conv = 0x63 then vec_extend out [word_of_int n]
         else if conv = 0x78 then push_padded out s (utohex (word_of_int n) False) 0 False
         else if conv = 0x58 then push_padded out s (utohex (word_of_int n) True) 0 False
         else if conv = 0x6F then push_padded out s (utooct (word_of_int n)) 0 False
         else if conv \<in> {0x66, 0x46, 0x65, 0x45, 0x67, 0x47}
         then rbind (fmt_float_body s conv x) (\<lambda>body. push_padded out s body (sign_of (f64_sign x) s) True)
         else format_a s (conv = 0x41) x out)"

definition is_num_conv :: "u8 \<Rightarrow> bool" where
  "is_num_conv c \<longleftrightarrow> c \<in> {0x64, 0x69, 0x75, 0x63, 0x78, 0x58, 0x6F, 0x66, 0x46, 0x65, 0x45, 0x67, 0x47, 0x61, 0x41}"

text \<open>One conversion; every valid one consumes one argument.\<close>

definition format_conv :: "fmt_arg list \<Rightarrow> spec \<Rightarrow> u8 \<Rightarrow> nat \<Rightarrow> bytes \<Rightarrow> fmt_fault + bytes" where
  "format_conv args s conv ai out =
     (if is_num_conv conv then rbind (next_num args ai) (\<lambda>x. of_panic (format_num s conv out x))
      else if conv = 0x73 then rbind (next_arg args ai) (\<lambda>a. of_panic (format_str s a out))
      else if conv = 0x71
      then rbind (next_arg args ai) (\<lambda>a. of_panic (vec_extend out (quote (case a of AStr b \<Rightarrow> b | ANum _ \<Rightarrow> []))))
      else Inl (FmtErr (''invalid conversion '' @ [CHR 0x27] @ ''%'' @ [char_of (unat conv)] @ [CHR 0x27])))"

fun format_loop :: "fmt_arg list \<Rightarrow> fmt_part list \<Rightarrow> nat \<Rightarrow> bytes \<Rightarrow> fmt_fault + bytes" where
  "format_loop args [] ai out = Inr out"
| "format_loop args (Lit b # ps) ai out = rbind (of_panic (vec_extend out b)) (format_loop args ps ai)"
| "format_loop args (Conv s conv # ps) ai out =
     rbind (format_conv args s conv ai out) (\<lambda>out'. format_loop args ps (ai + 1) out')"

definition format_parts :: "fmt_part list \<Rightarrow> fmt_arg list \<Rightarrow> fmt_fault + bytes" where
  "format_parts parts args = format_loop args parts 0 []"

definition lua_format :: "bytes \<Rightarrow> fmt_arg list \<Rightarrow> fmt_fault + bytes" where
  "lua_format fmt args = rbind (compile fmt) (\<lambda>parts. format_parts parts args)"

end
