(* ===== verification/LJ_Strscan.thy ===== *)
theory LJ_Strscan
  imports LJ_Float
begin

unbundle bit_operations_syntax

text \<open>
  Number scanning (\<open>util/strscan.rs\<close>): \<open>scan_number_full\<close> for number tokens of the lexer, with the
  suffixes of 64-bit and imaginary literals, and \<open>scan_number\<close> for the conversion of strings. The
  loops over an index are recursions over the rest of the slice.
\<close>

section \<open>Suffixes\<close>

datatype num_suffix = NoSuffix | Ll | Ull | Imag

record scan_result =
  sr_n :: f64
  sr_u :: u64
  sr_suffix :: num_suffix

definition is_l :: "u8 \<Rightarrow> bool" where "is_l c \<longleftrightarrow> c = 0x4C \<or> c = 0x6C"
definition is_u :: "u8 \<Rightarrow> bool" where "is_u c \<longleftrightarrow> c = 0x55 \<or> c = 0x75"

definition split_suffix :: "bytes \<Rightarrow> bytes \<times> num_suffix" where
  "split_suffix s =
     (let len = length s
      in if s \<noteq> [] \<and> (last s = 0x69 \<or> last s = 0x49) then (butlast s, Imag)
         else if 3 \<le> len \<and> is_u (s ! (len - 3)) \<and> is_l (s ! (len - 2)) \<and> is_l (s ! (len - 1))
         then (take (len - 3) s, Ull)
         else if 2 \<le> len \<and> is_l (s ! (len - 2)) \<and> is_l (s ! (len - 1))
         then (if 3 \<le> len \<and> is_u (s ! (len - 3)) then (take (len - 3) s, Ull) else (take (len - 2) s, Ll))
         else (s, NoSuffix))"

section \<open>Digits\<close>

definition hex_digit :: "u8 \<Rightarrow> u64 option" where
  "hex_digit c =
     (if 48 \<le> c \<and> c \<le> 57 then Some (ucast (c - 48))
      else if 0x61 \<le> c \<and> c \<le> 0x66 then Some (ucast (c - 0x61 + 10))
      else if 0x41 \<le> c \<and> c \<le> 0x46 then Some (ucast (c - 0x41 + 10))
      else None)"

definition is_p :: "u8 \<Rightarrow> bool" where "is_p c \<longleftrightarrow> c = 0x70 \<or> c = 0x50"

text \<open>The mantissa loop of \<open>scan_hex_to_u64\<close>: wrapping arithmetic; it stops at \<open>p\<close> and returns the
  rest.\<close>

fun hex_u64_loop :: "u64 \<Rightarrow> bool \<Rightarrow> bool \<Rightarrow> bytes \<Rightarrow> (u64 \<times> bool \<times> bool \<times> bytes) option" where
  "hex_u64_loop mant digit dot [] = Some (mant, digit, dot, [])"
| "hex_u64_loop mant digit dot (c # cs) =
     (case hex_digit c of
        Some d \<Rightarrow> hex_u64_loop (mant * 16 + d) True dot cs
      | None \<Rightarrow>
          if c = DOT then (if dot then None else hex_u64_loop mant digit True cs)
          else if is_p c then Some (mant, digit, dot, c # cs)
          else if c = 0x5F then hex_u64_loop mant digit dot cs
          else None)"

definition I32_MAX :: int where "I32_MAX = 2 ^ 31 - 1"

text \<open>\<open>e.saturating_mul(10).saturating_add(d)\<close> for non-negative \<open>e\<close>.\<close>

definition exp_step :: "int \<Rightarrow> u8 \<Rightarrow> int" where
  "exp_step e c = min I32_MAX (min I32_MAX (e * 10) + int (unat (c - 48)))"

fun exp_digits_u64 :: "int \<Rightarrow> bytes \<Rightarrow> int option" where
  "exp_digits_u64 e [] = Some e"
| "exp_digits_u64 e (c # cs) =
     (if c = 0x5F then exp_digits_u64 e cs
      else if \<not> is_ascii_digit c then None
      else exp_digits_u64 (exp_step e c) cs)"

definition scan_hex_to_u64 :: "bytes \<Rightarrow> (u64 \<times> bool) option" where
  "scan_hex_to_u64 s =
     (case hex_u64_loop 0 False False s of
        None \<Rightarrow> None
      | Some (mant, digit, dot, rest) \<Rightarrow>
          if \<not> digit then None
          else case (if rest \<noteq> [] \<and> is_p (hd rest)
                     then let r = tl rest; neg = (r \<noteq> [] \<and> hd r = MINUS);
                              ds = (if r \<noteq> [] \<and> (hd r = PLUS \<or> hd r = MINUS) then tl r else r)
                          in map_option (\<lambda>e. if neg then - e else e) (exp_digits_u64 0 ds)
                     else Some 0) of
                 None \<Rightarrow> None
               | Some e \<Rightarrow>
                   if dot \<or> e \<noteq> 0 then Some (f64_as_u64 (f64_mul_nonneg (f64_of_u64 mant) (f64_exp2 e)), True)
                   else Some (mant, False))"

fun bin_loop :: "u64 \<Rightarrow> bytes \<Rightarrow> u64 option" where
  "bin_loop v [] = Some v"
| "bin_loop v (c # cs) =
     (if c = 48 then bin_loop (v * 2) cs
      else if c = 49 then bin_loop (v * 2 + 1) cs
      else if c = 0x5F then bin_loop v cs
      else None)"

definition scan_bin_to_u64 :: "bytes \<Rightarrow> u64 option" where
  "scan_bin_to_u64 s = bin_loop 0 s"

section \<open>Decimal numbers\<close>

record dec_flags =
  seen_digit :: bool
  seen_dot :: bool
  seen_exp :: bool
  exp_digits :: bool

definition NO_FLAGS :: dec_flags where
  "NO_FLAGS = \<lparr>seen_digit = False, seen_dot = False, seen_exp = False, exp_digits = False\<rparr>"

text \<open>The checking loop shared by \<open>scan_dec_to_f64\<close> (which skips underscores) and \<open>scan_dec\<close>.\<close>

fun dec_loop :: "bool \<Rightarrow> dec_flags \<Rightarrow> bytes \<Rightarrow> dec_flags option" where
  "dec_loop us f [] = Some f"
| "dec_loop us f (c # cs) =
     (if is_ascii_digit c
      then dec_loop us (if seen_exp f then f\<lparr>exp_digits := True\<rparr> else f\<lparr>seen_digit := True\<rparr>) cs
      else if c = DOT then (if seen_dot f \<or> seen_exp f then None else dec_loop us (f\<lparr>seen_dot := True\<rparr>) cs)
      else if c = 0x65 \<or> c = 0x45
      then (if seen_exp f \<or> \<not> seen_digit f then None
            else case cs of
                   [] \<Rightarrow> dec_loop us (f\<lparr>seen_exp := True\<rparr>) []
                 | d # ds \<Rightarrow> if d = PLUS \<or> d = MINUS then dec_loop us (f\<lparr>seen_exp := True\<rparr>) ds
                             else dec_loop us (f\<lparr>seen_exp := True\<rparr>) (d # ds))
      else if us \<and> c = 0x5F then dec_loop us f cs
      else None)"

definition dec_u64 :: "bytes \<Rightarrow> u64" where
  "dec_u64 s = foldl (\<lambda>v c. if c = 0x5F then v else v * 10 + ucast (c - 48)) 0 s"

definition scan_dec_to_f64 :: "bytes \<Rightarrow> (u64 \<times> bool) option" where
  "scan_dec_to_f64 s =
     (case dec_loop True NO_FLAGS s of
        None \<Rightarrow> None
      | Some f \<Rightarrow>
          if \<not> seen_digit f \<or> seen_exp f \<and> \<not> exp_digits f then None
          else if seen_dot f \<or> seen_exp f
          then map_option (\<lambda>n. (n, True)) (parse_f64 (filter (\<lambda>c. c \<noteq> 0x5F) s))
          else Some (dec_u64 s, False))"

definition is_hex_prefix :: "bytes \<Rightarrow> bool" where
  "is_hex_prefix s \<longleftrightarrow> 2 \<le> length s \<and> s ! 0 = 48 \<and> s ! 1 OR 0x20 = 0x78"

definition is_bin_prefix :: "bytes \<Rightarrow> bool" where
  "is_bin_prefix s \<longleftrightarrow> 2 \<le> length s \<and> s ! 0 = 48 \<and> s ! 1 OR 0x20 = 0x62"

definition scan_number_full :: "bytes \<Rightarrow> scan_result option" where
  "scan_number_full s =
     (if s = [] then None
      else let (body, suffix) = split_suffix s
           in case (if is_hex_prefix body then scan_hex_to_u64 (drop 2 body)
                    else if is_bin_prefix body then map_option (\<lambda>u. (u, True)) (scan_bin_to_u64 (drop 2 body))
                    else scan_dec_to_f64 body) of
                None \<Rightarrow> None
              | Some (u, is_float) \<Rightarrow>
                  case (if is_float \<and> (suffix = NoSuffix \<or> suffix = Imag) then parse_f64 body
                        else Some (f64_of_u64 u)) of
                    None \<Rightarrow> None
                  | Some n \<Rightarrow>
                      Some \<lparr>sr_n = n, sr_u = (if suffix = Imag then n else u), sr_suffix = suffix\<rparr>)"

section \<open>Conversion of strings\<close>

text \<open>\<open>is_ascii_whitespace\<close>: space, tab, newline, form feed and carriage return.\<close>

definition is_ascii_whitespace :: "u8 \<Rightarrow> bool" where
  "is_ascii_whitespace c \<longleftrightarrow> c = 0x20 \<or> c = 9 \<or> c = 10 \<or> c = 12 \<or> c = 13"

definition skip_leading_space :: "bytes \<Rightarrow> nat" where
  "skip_leading_space s = length (takeWhile is_ascii_whitespace s)"

fun dec_token_loop :: "bool \<Rightarrow> bool \<Rightarrow> nat \<Rightarrow> bytes \<Rightarrow> bool \<times> nat" where
  "dec_token_loop any ex i [] = (any, i)"
| "dec_token_loop any ex i (c # cs) =
     (if is_ascii_digit c then dec_token_loop True ex (i + 1) cs
      else if c = DOT then (if ex then (any, i) else dec_token_loop True ex (i + 1) cs)
      else if c = 0x65 \<or> c = 0x45
      then (if ex then (any, i)
            else case cs of
                   [] \<Rightarrow> (any, i + 1)
                 | d # ds \<Rightarrow> if d = PLUS \<or> d = MINUS then dec_token_loop any True (i + 2) ds
                             else dec_token_loop any True (i + 1) (d # ds))
      else (any, i))"

definition dec_token_len :: "bytes \<Rightarrow> nat" where
  "dec_token_len s =
     (let k = (if s \<noteq> [] \<and> (hd s = MINUS \<or> hd s = PLUS) then 1 else 0);
          (any, i) = dec_token_loop False False k (drop k s)
      in if any then i else 0)"

definition is_ascii_hexdigit :: "u8 \<Rightarrow> bool" where "is_ascii_hexdigit c \<longleftrightarrow> hex_digit c \<noteq> None"

definition hex_token_len :: "bytes \<Rightarrow> nat" where
  "hex_token_len s = 2 + length (takeWhile (\<lambda>c. is_ascii_hexdigit c \<or> c = DOT) (drop 2 s))"

definition scan_dec :: "bytes \<Rightarrow> f64 option" where
  "scan_dec s =
     (let sign = (s \<noteq> [] \<and> (hd s = MINUS \<or> hd s = PLUS)); neg = (sign \<and> hd s = MINUS);
          mag = (if sign then tl s else s)
      in case dec_loop False NO_FLAGS mag of
           None \<Rightarrow> None
         | Some f \<Rightarrow>
             if \<not> seen_digit f \<and> \<not> seen_dot f \<or> seen_exp f \<and> \<not> exp_digits f then None
             else map_option (\<lambda>v. if neg then f64_neg v else v) (parse_f64 mag))"

text \<open>The mantissa loop of \<open>scan_hex\<close>: digits beyond 60 bits only move the exponent.\<close>

fun hex_loop :: "u64 \<Rightarrow> int \<Rightarrow> bool \<Rightarrow> bool \<Rightarrow> bytes \<Rightarrow> (u64 \<times> int \<times> bool \<times> bytes) option" where
  "hex_loop mant e digit dot [] = Some (mant, e, digit, [])"
| "hex_loop mant e digit dot (c # cs) =
     (case hex_digit c of
        Some d \<Rightarrow>
          if mant < 2 ^ 60 then hex_loop (mant * 16 + d) (if dot then e - 4 else e) True dot cs
          else hex_loop mant (if \<not> dot then e + 4 else e) True dot cs
      | None \<Rightarrow>
          if c = DOT then (if dot then None else hex_loop mant e digit True cs)
          else if is_p c then Some (mant, e, digit, c # cs)
          else None)"

fun exp_digits_hex :: "int \<Rightarrow> bytes \<Rightarrow> int option" where
  "exp_digits_hex e [] = Some e"
| "exp_digits_hex e (c # cs) = (if \<not> is_ascii_digit c then None else exp_digits_hex (exp_step e c) cs)"

definition scan_hex :: "bytes \<Rightarrow> f64 option" where
  "scan_hex s =
     (case hex_loop 0 0 False False s of
        None \<Rightarrow> None
      | Some (mant, e, digit, rest) \<Rightarrow>
          if \<not> digit then None
          else case (if rest \<noteq> []
                     then let r = tl rest; neg = (r \<noteq> [] \<and> hd r = MINUS);
                              ds = (if r \<noteq> [] \<and> (hd r = PLUS \<or> hd r = MINUS) then tl r else r)
                          in if ds = [] then None
                             else map_option (\<lambda>x. e + (if neg then - x else x)) (exp_digits_hex 0 ds)
                     else Some e) of
                 None \<Rightarrow> None
               | Some e \<Rightarrow> Some (f64_mul_nonneg (f64_of_u64 mant) (f64_exp2 e)))"

definition scan_number :: "bytes \<Rightarrow> f64 option" where
  "scan_number s =
     (if s = [] then None
      else let start = skip_leading_space s
           in if length s \<le> start then None
              else let rest = drop start s; hex = is_hex_prefix rest;
                       e = (if hex then hex_token_len rest else dec_token_len rest)
                   in if (if hex then e \<le> 2 else e = 0) then None
                      else let after = e + length (takeWhile is_ascii_whitespace (drop e rest))
                           in if after \<noteq> length rest then None
                              else if hex then scan_hex (take e rest) else scan_dec (take e rest))"

end
