(* ===== verification/LJ_Strscan_Spec.thy ===== *)
theory LJ_Strscan_Spec
  imports LJ_Strscan
begin

unbundle bit_operations_syntax

text \<open>
  What number scanning computes: decimal integers are read modulo \<open>2 ^ 64\<close> in the lexer and exactly
  below \<open>2 ^ 53\<close>, hexadecimal strings are never converted.
\<close>

section \<open>Decimal digits\<close>

lemma digit_byte: "d < 10 \<Longrightarrow> is_ascii_digit (word_of_nat (48 + d))" "d < 10 \<Longrightarrow> unat (word_of_nat (48 + d) - 48 :: u8) = d"
proof -
  assume d: "d < 10"
  have u: "unat (word_of_nat (48 + d) :: u8) = 48 + d" using d by (intro unat_word_of_nat_less[of 8]) simp_all
  then show "is_ascii_digit (word_of_nat (48 + d))" using d by (simp add: is_ascii_digit_def word_le_nat_alt)
  have "unat (word_of_nat (48 + d) - 48 :: u8) = unat (word_of_nat (48 + d) :: u8) - unat (48 :: u8)"
    by (rule unat_sub) (simp add: word_le_nat_alt u del: of_nat_add)
  then show "unat (word_of_nat (48 + d) - 48 :: u8) = d" using u by (simp del: of_nat_add)
qed

lemma decimal_digits: "list_all is_ascii_digit (decimal n)" "decimal n \<noteq> []"
proof (induction n rule: decimal.induct)
  case (1 n)
  show "list_all is_ascii_digit (decimal n)"
  proof (cases "n < 10")
    case False
    then show ?thesis using 1 digit_byte(1)[of "n mod 10"] by (subst decimal.simps) simp
  qed (use digit_byte(1)[of n] in \<open>simp add: decimal.simps\<close>)
  show "decimal n \<noteq> []" by (subst decimal.simps) simp
qed

lemma digits_value_append: "digits_value (xs @ [c]) = digits_value xs * 10 + unat (c - 48)"
  by (simp add: digits_value_def)

lemma digits_value_decimal: "digits_value (decimal n) = n"
proof (induction n rule: decimal.induct)
  case (1 n)
  show ?case
  proof (cases "n < 10")
    case True
    then show ?thesis using digit_byte(2)[OF True] by (simp add: decimal.simps digits_value_def)
  next
    case False
    then have "digits_value (decimal n) = digits_value (decimal (n div 10)) * 10 + n mod 10"
      using digit_byte(2)[of "n mod 10"] by (subst decimal.simps) (simp add: digits_value_append)
    then show ?thesis using 1 False by simp
  qed
qed

lemma digit_unat: "is_ascii_digit c \<longleftrightarrow> 48 \<le> unat c \<and> unat c \<le> 57"
  by (simp add: is_ascii_digit_def word_le_nat_alt)

lemma digit_not:
  assumes "is_ascii_digit c"
  shows "c \<noteq> 0x5F" "\<not> is_l c" "c \<noteq> 0x69" "c \<noteq> 0x49" "c OR 0x20 \<noteq> 0x78" "c OR 0x20 \<noteq> 0x62" "c \<noteq> DOT" "c \<noteq> MINUS" "c \<noteq> PLUS"
    "\<not> is_ascii_whitespace c"
proof -
  have "unat c = 48 \<or> unat c = 49 \<or> unat c = 50 \<or> unat c = 51 \<or> unat c = 52 \<or> unat c = 53 \<or> unat c = 54 \<or>
      unat c = 55 \<or> unat c = 56 \<or> unat c = 57"
    using assms unfolding digit_unat by arith
  then have "c \<in> {48, 49, 50, 51, 52, 53, 54, 55, 56, 57}"
    by (elim disjE) (simp_all add: word_unat_eq_iff)
  then show "c \<noteq> 0x5F" "\<not> is_l c" "c \<noteq> 0x69" "c \<noteq> 0x49" "c OR 0x20 \<noteq> 0x78" "c OR 0x20 \<noteq> 0x62" "c \<noteq> DOT" "c \<noteq> MINUS" "c \<noteq> PLUS"
    "\<not> is_ascii_whitespace c"
    by (elim insertE emptyE; simp add: is_l_def is_ascii_whitespace_def)+
qed

lemma ucast_digit: "(ucast (c - 48 :: u8) :: u64) = word_of_nat (unat (c - 48))"
  by (rule of_nat_unat[symmetric])

lemma dec_u64_digits: "list_all is_ascii_digit ds \<Longrightarrow> dec_u64 ds = word_of_nat (digits_value ds)"
proof (induction ds rule: rev_induct)
  case (snoc c ds)
  have "c \<noteq> 0x5F" using snoc.prems digit_not(1) by simp
  then have "dec_u64 (ds @ [c]) = dec_u64 ds * 10 + ucast (c - 48)" by (simp add: dec_u64_def)
  also have "\<dots> = word_of_nat (digits_value ds * 10 + unat (c - 48))"
    using snoc unfolding ucast_digit by simp
  finally show ?case by (simp only: digits_value_append)
qed (simp add: dec_u64_def digits_value_def)

lemma dec_loop_digits:
  "list_all is_ascii_digit ds \<Longrightarrow> \<not> seen_exp f \<Longrightarrow>
   dec_loop us f ds = Some (if ds = [] then f else f\<lparr>seen_digit := True\<rparr>)"
  by (induction ds arbitrary: f) simp_all

lemma digits_no_suffix:
  assumes "list_all is_ascii_digit ds"
  shows "split_suffix ds = (ds, NoSuffix)" "\<not> is_hex_prefix ds" "\<not> is_bin_prefix ds"
proof -
  have d: "is_ascii_digit (ds ! i)" if "i < length ds" for i using assms that by (simp add: list_all_length)
  have l: "\<not> is_l (ds ! (length ds - 1))" if "ds \<noteq> []" using d[of "length ds - 1"] that digit_not(2) by simp
  have "is_ascii_digit (last ds)" if "ds \<noteq> []" using assms that by (simp add: list_all_iff)
  then show "split_suffix ds = (ds, NoSuffix)" using l digit_not(3,4) by (cases "ds = []") (auto simp: split_suffix_def Let_def)
  show "\<not> is_hex_prefix ds" "\<not> is_bin_prefix ds" using d[of 1] digit_not(5,6) by (auto simp: is_hex_prefix_def is_bin_prefix_def)
qed

lemma digits_takeWhile:
  "list_all is_ascii_digit ds \<Longrightarrow> takeWhile is_ascii_digit ds = ds" "list_all is_ascii_digit ds \<Longrightarrow> dropWhile is_ascii_digit ds = []"
  by (auto simp: list_all_iff takeWhile_eq_all_conv)

lemma parse_f64_digits: "list_all is_ascii_digit ds \<Longrightarrow> ds \<noteq> [] \<Longrightarrow> parse_f64 ds = Some (f64_round (digits_value ds) 1)"
  by (simp add: parse_f64_def Let_def digits_takeWhile parse_exponent_def)

lemma dec_token_digits: "list_all is_ascii_digit ds \<Longrightarrow> dec_token_loop any ex i ds = (any \<or> ds \<noteq> [], i + length ds)"
  by (induction ds arbitrary: any i) auto

lemma scan_dec_digits:
  assumes "list_all is_ascii_digit ds" "ds \<noteq> []"
  shows "scan_dec ds = Some (f64_round (digits_value ds) 1)"
proof -
  have "hd ds \<noteq> MINUS" "hd ds \<noteq> PLUS" using assms digit_not(8,9) by (cases ds; auto)+
  then show ?thesis using dec_loop_digits[OF assms(1), of NO_FLAGS False] parse_f64_digits[OF assms] assms(2)
    by (simp add: scan_dec_def Let_def NO_FLAGS_def option.map_id0 id_def)
qed

lemma scan_number_digits:
  assumes "list_all is_ascii_digit ds" "ds \<noteq> []"
  shows "scan_number ds = Some (f64_round (digits_value ds) 1)"
proof -
  have h: "hd ds \<noteq> MINUS" "hd ds \<noteq> PLUS" "\<not> is_ascii_whitespace (hd ds)" using assms digit_not(8-10) by (cases ds; auto)+
  have sp: "skip_leading_space ds = 0" using h(3) assms(2) by (cases ds) (auto simp: skip_leading_space_def)
  have "dec_token_len ds = length ds"
    using h(1,2) dec_token_digits[OF assms(1), of False False 0] assms(2) by (simp add: dec_token_len_def Let_def)
  then show ?thesis
    using sp digits_no_suffix(2)[OF assms(1)] scan_dec_digits[OF assms] assms(2) by (simp add: scan_number_def Let_def)
qed

lemma scan_full_digits:
  assumes "list_all is_ascii_digit ds" "ds \<noteq> []"
  shows "scan_number_full ds = Some \<lparr>sr_n = f64_of_u64 (word_of_nat (digits_value ds)), sr_u = word_of_nat (digits_value ds), sr_suffix = NoSuffix\<rparr>"
proof -
  have "scan_dec_to_f64 ds = Some (word_of_nat (digits_value ds), False)"
    using dec_loop_digits[OF assms(1), of NO_FLAGS True] dec_u64_digits[OF assms(1)] assms(2)
    by (simp add: scan_dec_to_f64_def NO_FLAGS_def)
  then show ?thesis using digits_no_suffix[OF assms(1)] assms(2) by (simp add: scan_number_full_def)
qed

lemma f64_of_u64_exact: "n < 2 ^ 53 \<Longrightarrow> f64_of_u64 (word_of_nat n) = nat_to_f64 n \<and> f64_round n 1 = nat_to_f64 n"
proof -
  assume n: "n < 2 ^ 53"
  have "f64_round n 1 = nat_to_f64 n" using f64_round_int[of n] n by (cases "n = 0") (simp_all add: f64_round_def nat_to_f64_def)
  moreover have "unat (word_of_nat n :: u64) = n" using n by (intro unat_word_of_nat_less[of 53]) simp_all
  ultimately show ?thesis by (simp add: f64_of_u64_def)
qed

section \<open>Properties\<close>

text \<open>An integer below \<open>2 ^ 53\<close> written in decimal reads back as itself, both as a literal of the
  lexer and through the conversion of strings.\<close>

theorem integer_roundtrip:
  assumes "n < 2 ^ 53"
  shows "map_option sr_n (scan_number_full (decimal n)) = Some (nat_to_f64 n) \<and>
    scan_number (decimal n) = Some (nat_to_f64 n)"
proof -
  note d = decimal_digits[of n]
  show ?thesis using scan_full_digits[OF d] scan_number_digits[OF d] f64_of_u64_exact[OF assms]
    by (simp add: digits_value_decimal)
qed

theorem integer_roundtrip_witness: "scan_number (decimal 4503599627370497) = Some (nat_to_f64 4503599627370497)"
  using integer_roundtrip[of 4503599627370497] by simp

text \<open>C33. A decimal integer literal is read modulo \<open>2 ^ 64\<close>, whatever its size: the literal of \<open>n\<close> is accepted,
  without suffix, with the 64 bits of \<open>n mod 2 ^ 64\<close>, and as a number it is the double nearest to \<open>n mod 2 ^ 64\<close>
  (so \<open>2 ^ 64\<close> reads as 0).\<close>

theorem integer_literal_wraps:
  "scan_number_full (decimal n) =
     Some \<lparr>sr_n = f64_round (n mod 2 ^ 64) 1, sr_u = word_of_nat (n mod 2 ^ 64), sr_suffix = NoSuffix\<rparr>"
proof -
  have "(word_of_nat (n mod 2 ^ 64) :: u64) = word_of_nat n" 
    by (simp add: word_of_nat_eq_iff take_bit_eq_mod)
  moreover have "unat (word_of_nat n :: u64) = n mod 2 ^ 64" by (simp add: unat_of_nat)
  ultimately show ?thesis
    by (simp only: scan_full_digits[OF decimal_digits] digits_value_decimal f64_of_u64_def)
qed

text \<open>C34. The conversion of strings accepts no hexadecimal number: a text that starts with \<open>0x\<close> or \<open>0X\<close> after
  any spaces is not a number, because \<open>scan_number\<close> passes the token with its prefix to \<open>scan_hex\<close>, which stops at
  the \<open>x\<close>. (Other leading white space and signs are not covered.)\<close>

theorem hex_strings_rejected:
  "scan_number (replicate k 0x20 @ [48, 0x78] @ s) = None \<and> scan_number (replicate k 0x20 @ [48, 0x58] @ s) = None"
proof -
  have sp: "skip_leading_space (replicate k 0x20 @ 48 # r) = k" for r
    by (induction k) (simp_all add: skip_leading_space_def is_ascii_whitespace_def)
  have hex: "scan_hex (48 # x # r) = None" if "x = 0x78 \<or> x = 0x58" for x r
    using that by (auto simp: scan_hex_def hex_digit_def is_p_def)
  have "take (2 + m) (48 # x # s) = 48 # x # take m s" for m and x :: u8 by simp
  then have "scan_number (replicate k 0x20 @ 48 # x # s) = None" if "x = 0x78 \<or> x = 0x58" for x
    using hex[OF that] that by (auto simp: scan_number_def Let_def sp is_hex_prefix_def hex_token_len_def)
  then show ?thesis by simp
qed

end
