(* ===== verification/LJ_Strfmt_Size.thy ===== *)
theory LJ_Strfmt_Size
  imports LJ_Strfmt LJ_Strscan_Spec
begin

unbundle bit_operations_syntax

text \<open>
  How much the conversions of \<open>string.format\<close> write: bounds on the text of a number for the precisions
  that the formatter accepts, the exact length of a padded field, and when growing the output panics.
\<close>

section \<open>Digits\<close>

lemma decimal_length: "n < 10 ^ k \<Longrightarrow> 0 < k \<Longrightarrow> length (decimal n) \<le> k"
proof (induction n arbitrary: k rule: decimal.induct)
  case (1 n)
  show ?case
  proof (cases "n < 10")
    case True
    then show ?thesis using 1(3) by (subst decimal.simps) simp
  next
    case False
    then obtain j where k: "k = Suc j" "0 < j" using 1(2,3) by (cases k; cases "k - 1") auto
    then have "n div 10 < 10 ^ j" using 1(2) by (simp add: less_mult_imp_div_less mult.commute)
    from 1(1)[OF False this k(2)] show ?thesis using False k(1) by (subst decimal.simps) simp
  qed
qed

lemma decimal_length_le: "length (decimal n) \<le> n + 1"
proof -
  have "n < 10 ^ (n + 1)" using power_gt_expt[of 10 "n + 1"] by simp
  then show ?thesis by (rule decimal_length) simp
qed

lemma pad_left0_length: "length (pad_left0 w ds) = max w (length ds)"
  by (simp add: pad_left0_def zeros_def)

lemma itoa_loop_length: "\<bar>n\<bar> < 10 ^ k \<Longrightarrow> length (itoa_loop n acc) \<le> length acc + k"
proof (induction n acc arbitrary: k rule: itoa_loop.induct)
  case (1 n acc)
  show ?case
  proof (cases "n = 0")
    case True
    then show ?thesis by (subst itoa_loop.simps) simp
  next
    case False
    then obtain j where k: "k = Suc j" using 1(2) by (cases k) auto
    have "\<bar>n sdiv 10\<bar> = \<bar>n\<bar> div 10" by (auto simp: signed_divide_int_def sgn_if abs_if)
    then have "\<bar>n sdiv 10\<bar> < 10 ^ j" using 1(2) k by simp
    from 1(1)[OF False this] show ?thesis using False k by (subst itoa_loop.simps) simp
  qed
qed

lemma itoa_length: "length (itoa (f64_as_i64 x)) \<le> 19"
proof -
  have "\<bar>f64_as_i64 x\<bar> < 10 ^ 19" by (auto simp: f64_as_i64_def)
  from itoa_loop_length[OF this, of "[]"] show ?thesis by (simp add: itoa_def)
qed

lemma utobase_length: "0 < k \<Longrightarrow> unat n < 2 ^ (k * j) \<Longrightarrow> length (utobase_loop k up n acc) \<le> length acc + j"
proof (induction k up n acc arbitrary: j rule: utobase_loop.induct)
  case (1 k up n acc)
  show ?case
  proof (cases "n = 0")
    case True
    then show ?thesis by (subst utobase_loop.simps) simp
  next
    case False
    then have "0 < unat n" by (simp add: unat_gt_0)
    then obtain i where j: "j = Suc i" using 1(3) by (cases j) auto
    have "unat n < 2 ^ (k * i) * 2 ^ k" using 1(3) j by (simp add: power_add mult.commute)
    then have "unat (drop_bit k n) < 2 ^ (k * i)" unfolding unat_drop_bit drop_bit_nat_eq by (rule less_mult_imp_div_less)
    with 1(1)[OF _ refl 1(2)] False 1(2) j show ?thesis by (subst utobase_loop.simps) (fastforce simp: Let_def)
  qed
qed

lemma unat_lt64: "unat (n :: u64) < 2 ^ 64"
  using unsigned_less[of n] by simp

lemma utohex_length: "length (utohex n up) \<le> 16"
proof -
  have "unat n < 2 ^ (4 * 16)" using unat_lt64[of n] by simp
  from utobase_length[OF _ this, of up "[]"] show ?thesis by (simp add: utohex_def)
qed

lemma utooct_length: "length (utooct n) \<le> 22"
proof -
  have "unat n < 2 ^ (3 * 22)" using unat_lt64[of n] by simp
  from utobase_length[OF _ this, of False "[]"] show ?thesis by (simp add: utooct_def)
qed

section \<open>Decimal formats of a double\<close>

lemma f64_parts_bounds: "f64_exp b < 2048" "f64_mant b < 2 ^ 53"
proof -
  show "f64_exp b < 2048" using unat_take_bit[of 11 "drop_bit 52 b"] by (simp add: f64_exp_def)
  have "f64_frac b < 2 ^ 52" by (simp add: f64_frac_def unat_take_bit)
  then show "f64_mant b < 2 ^ 53" by (simp add: f64_mant_def)
qed

lemma f64_ratio_bounds:
  assumes "f64_ratio n = (a, b)" "f64_exp n \<noteq> 2047"
  shows "a < 10 ^ 310" "0 < b" "b \<le> 10 ^ 330"
proof -
  define e where "e = max 1 (f64_exp n)"
  have e: "1 \<le> e" "e \<le> 2046" using f64_parts_bounds(1)[of n] assms(2) by (auto simp: e_def)
  have ab: "a = f64_mant n * 2 ^ (e - 1075)" "b = 2 ^ (1075 - e)" using assms(1) by (auto simp: f64_ratio_def Let_def e_def)
  have "f64_mant n * 2 ^ (e - 1075) < 2 ^ 53 * 2 ^ 971"
    using f64_parts_bounds(2)[of n] e(2) by (intro mult_less_le_imp_less power_increasing) auto
  also have "\<dots> \<le> (10 :: nat) ^ 310" by simp
  finally show "a < 10 ^ 310" by (simp add: ab)
  show "0 < b" by (simp add: ab)
  have "b \<le> 2 ^ 1074" unfolding ab using e(1) by (intro power_increasing) auto
  also have "\<dots> \<le> (10 :: nat) ^ 330" by simp
  finally show "b \<le> 10 ^ 330" .
qed

lemma round_ratio_le: "round_ratio n d \<le> n + 1"
  using div_le_dividend[of n d] by (simp add: round_ratio_def Let_def le_SucI)

lemma trim_end_length: "length (trim_end c s) \<le> length s"
  using length_dropWhile_le[of "\<lambda>x. x = c" "rev s"] by (simp add: trim_end_def)

lemma trim_zeros_length: "length (trim_zeros s) \<le> length s"
  using trim_end_length order_trans unfolding trim_zeros_def by blast

lemma fmt_fixed_abs_length: "length (fmt_fixed_abs p n) \<le> p + 312"
proof (cases "f64_exp n = 2047")
  case True
  then show ?thesis by (auto simp: fmt_fixed_abs_def f64_is_nan_def f64_is_inf_def byte_string_def)
next
  case False
  obtain a b where ab: "f64_ratio n = (a, b)" by fastforce
  let ?q = "round_ratio (a * 10 ^ p) b"
  have "?q div 10 ^ p \<le> (a * 10 ^ p + 1) div 10 ^ p" using round_ratio_le by (intro div_le_mono)
  also have "\<dots> \<le> (a + 1) * 10 ^ p div 10 ^ p" by (intro div_le_mono) simp
  also have "\<dots> = a + 1" by (rule nonzero_mult_div_cancel_right) simp
  finally have "?q div 10 ^ p < 10 ^ 311" using f64_ratio_bounds(1)[OF ab False] by simp
  then have "length (decimal (?q div 10 ^ p)) \<le> 311" by (rule decimal_length) simp
  moreover have "length (decimal (?q mod 10 ^ p)) \<le> p" if "p \<noteq> 0" using that by (intro decimal_length) auto
  ultimately show ?thesis using False
    by (auto simp: fmt_fixed_abs_def f64_is_nan_def f64_is_inf_def ab Let_def pad_left0_length)
qed

lemma fmt_fixed_length: "length (fmt_fixed p n) \<le> p + 313"
  using fmt_fixed_abs_length[of p "f64_abs n"] by (simp add: fmt_fixed_def)

lemma ratio_log10_bounds:
  assumes "a < 10 ^ 310" "0 < b" "b \<le> 10 ^ 330"
  shows "- 331 \<le> ratio_log10 a b" "ratio_log10 a b \<le> 310"
proof -
  have "a div b < 10 ^ 310" using assms(1) div_le_dividend le_less_trans by blast
  then have "length (decimal (a div b)) \<le> 310" by (rule decimal_length) simp
  moreover have "(b + a - 1) div a - 1 < 10 ^ 331" if "a < b"
  proof -
    have "(b + a - 1) div a - 1 \<le> b" 
    proof (cases "a = 0")
      case False
      then have "(b + a - 1) div a \<le> (b * a + a) div a" by (intro div_le_mono) (cases a; simp)
      then show ?thesis using False by simp
    qed simp
    also have "\<dots> \<le> 10 ^ 330" by (rule assms(3))
    also have "\<dots> < 10 ^ 331" by simp
    finally show ?thesis .
  qed
  then have "length (decimal ((b + a - 1) div a - 1)) \<le> 331" if "a < b" using that by (intro decimal_length) auto
  ultimately show "- 331 \<le> ratio_log10 a b" "ratio_log10 a b \<le> 310" by (auto simp: ratio_log10_def)
qed

lemma f64_abs_fields [simp]: "f64_exp (f64_abs n) = f64_exp n" "f64_frac (f64_abs n) = f64_frac n" "\<not> f64_sign (f64_abs n)"
proof -
  show "f64_exp (f64_abs n) = f64_exp n" unfolding f64_exp_def f64_abs_def
    by (intro arg_cong[where f = unat] bit_word_eqI) (auto simp: bit_simps)
  show "f64_frac (f64_abs n) = f64_frac n" unfolding f64_frac_def f64_abs_def
    by (intro arg_cong[where f = unat] bit_word_eqI) (auto simp: bit_simps)
  show "\<not> f64_sign (f64_abs n)" by (simp add: f64_sign_def f64_abs_def bit_simps)
qed

lemma fmt_exp_None: "fmt_exp p n = None \<longleftrightarrow> f64_exp n = 2047"
  by (auto simp: fmt_exp_def fmt_exp_abs_def f64_is_nan_def f64_is_inf_def Let_def split: prod.splits if_splits)

text \<open>The mantissa text and the exponent of the exponential format.\<close>

lemma fmt_exp_bounds:
  assumes "fmt_exp p n = Some (m, e)"
  shows "length m \<le> p + 650" "\<bar>e\<bar> \<le> 331"
proof -
  have f: "f64_exp (f64_abs n) \<noteq> 2047" using assms fmt_exp_None[of p n] by auto
  obtain a b where ab: "f64_ratio (f64_abs n) = (a, b)" by fastforce
  note r = f64_ratio_bounds[OF ab f]
  note k = ratio_log10_bounds[OF r]
  define k where "k = ratio_log10 a b"
  define q where "q = round_ratio (a * 10 ^ nat (int p - k)) (b * 10 ^ nat (k - int p))"
  define Q where "Q = (if a = 0 then (0, 0) else if q = 10 ^ (p + 1) then (10 ^ p, k + 1) else (q, k))"
  have kb: "- 331 \<le> k" "k \<le> 310" using k by (simp_all add: k_def)
  have A: "a * 10 ^ (p + 331) < 10 ^ 310 * 10 ^ (p + 331)" by (intro mult_strict_right_mono r(1)) simp
  have "q \<le> a * 10 ^ nat (int p - k) + 1" unfolding q_def by (rule round_ratio_le)
  also have "\<dots> \<le> a * 10 ^ (p + 331) + 1" using kb(1) by (intro add_right_mono mult_left_mono power_increasing) auto
  also have "\<dots> \<le> 10 ^ 310 * 10 ^ (p + 331)" using A by (simp only: Suc_eq_plus1[symmetric] Suc_le_eq)
  also have "\<dots> = 10 ^ (p + 641)" by (simp only: power_add[symmetric]) (simp add: add.commute)
  also have "\<dots> < 10 ^ (p + 642)" by simp
  finally have q: "q < 10 ^ (p + 642)" .
  have "(10 :: nat) ^ p < 10 ^ (p + 642)" by (intro power_strict_increasing) auto
  then have "fst Q < 10 ^ (p + 642)" using q by (simp add: Q_def)
  then have dl: "length (decimal (fst Q)) \<le> p + 642" by (rule decimal_length) simp
  have "fmt_exp_abs p (f64_abs n) =
      (let ds = pad_left0 (p + 1) (decimal (fst Q))
       in Some (take 1 ds @ (if p = 0 then [] else DOT # drop 1 ds), snd Q))"
    using f by (simp add: fmt_exp_abs_def f64_is_nan_def f64_is_inf_def ab Let_def Q_def k_def q_def)
  then have me: "e = snd Q" "length m \<le> length (pad_left0 (p + 1) (decimal (fst Q))) + 3"
    using assms by (auto simp: fmt_exp_def Let_def)
  show "length m \<le> p + 650" using me(2) dl by (simp add: pad_left0_length)
  show "\<bar>e\<bar> \<le> 331" using me(1) kb by (auto simp: Q_def)
qed

lemma exp_suffix_length: "\<bar>e\<bar> \<le> 331 \<Longrightarrow> length (exp_suffix c e) \<le> 400"
  using decimal_length_le[of "nat \<bar>e\<bar>"] by (simp add: exp_suffix_def pad_left0_length)

lemma fmt_fixed_precD: "fmt_fixed_prec p n = Inr s \<Longrightarrow> p \<le> 65535 \<and> length s \<le> p + 313"
  using fmt_fixed_length by (auto simp: fmt_fixed_prec_def split: if_splits)

lemma fmt_exp_precD: "fmt_exp_prec p n = Inr (m, e) \<Longrightarrow> p \<le> 65535 \<and> length m \<le> p + 650 \<and> \<bar>e\<bar> \<le> 331"
  using fmt_exp_bounds by (auto simp: fmt_exp_prec_def split: if_splits option.splits)

text \<open>No precision that is accepted gives a text longer than this.\<close>

definition NUM_TEXT :: nat where "NUM_TEXT = 2 ^ 17"

lemma fmt_float_body_length: "fmt_float_body s conv n = Inr t \<Longrightarrow> length t \<le> NUM_TEXT"
proof -
  have fx: "length t \<le> 65900" if "fmt_fixed_prec p n = Inr t" for p n t using fmt_fixed_precD[OF that] by simp
  have e: "length t \<le> 67000" if t: "fmt_e n p u h = Inr t" for n p u h t
  proof -
    obtain m k where m: "fmt_exp_prec p n = Inr (m, k)"
      "t = (if h \<and> DOT \<notin> set m then m @ [DOT] else m) @ exp_suffix (if u then 0x45 else 0x65) k"
      using t by (auto simp: fmt_e_def rbind_eq_Inr)
    show ?thesis using fmt_exp_precD[OF m(1)] exp_suffix_length[of k "if u then 0x45 else 0x65"] m(2) by auto
  qed
  have g: "length t \<le> 67000" if t: "fmt_g n p h = Inr t" for n p h t
  proof (cases "f64_is_zero n")
    case False
    then obtain m k where m: "fmt_exp_prec (p - 1) n = Inr (m, k)"
      "(if k < - 4 \<or> int p \<le> k then Inr ((if h then m else trim_zeros m) @ exp_suffix 0x65 k)
        else rbind (fmt_fixed_prec (nat (max 0 (int p - 1 - k))) n) (\<lambda>s.
               Inr (if h then s else if DOT \<in> set s then trim_zeros s else s))) = (Inr t :: panic + bytes)"
      using t False by (auto simp: fmt_g_def rbind_eq_Inr)
    show ?thesis
    proof (cases "k < - 4 \<or> int p \<le> k")
      case True
      then show ?thesis using m(2) fmt_exp_precD[OF m(1)] exp_suffix_length[of k "0x65"] trim_zeros_length[of m] by auto
    next
      case small: False
      then obtain s where s: "fmt_fixed_prec (nat (max 0 (int p - 1 - k))) n = Inr s" "length t \<le> length s"
        using m(2) trim_zeros_length by (auto simp: rbind_eq_Inr)
      show ?thesis using fx[OF s(1)] s(2) by simp
    qed
  qed (use t in \<open>auto simp: fmt_g_def\<close>)
  assume t: "fmt_float_body s conv n = Inr t"
  have "length t \<le> 67000"
    using t fx e g by (fastforce simp: fmt_float_body_def Let_def rbind_eq_Inr split: if_splits)
  then show ?thesis by (simp add: NUM_TEXT_def)
qed

section \<open>Hexadecimal floats, general numbers and quoted strings\<close>

lemma hex_digits13_length: "length (hex_digits13 k m) = k"
  by (induction k m rule: hex_digits13.induct) simp_all

lemma round_up_length: "length (fst (round_up ds)) = length ds"
  by (induction ds) (auto split: prod.splits)

lemma fmt_a_frac_bounds:
  assumes "fmt_a_frac ds p e = (fs, e')" "length ds = 13"
  shows "length fs \<le> 13" "\<bar>e'\<bar> \<le> \<bar>e\<bar> + 1"
proof -
  obtain es c where r: "round_up (take p ds) = (es, c)" by fastforce
  then have "length es = length (take p ds)" using round_up_length[of "take p ds"] by simp
  moreover have "length (dropWhile (\<lambda>d. d = 0) (rev ds)) \<le> 13" using length_dropWhile_le[of _ "rev ds"] assms(2) by simp
  ultimately show "length fs \<le> 13" "\<bar>e'\<bar> \<le> \<bar>e\<bar> + 1"
    using assms r by (auto simp: fmt_a_frac_def Let_def split: if_splits)
qed

lemma fmt_a_parts_exp: "fmt_a_parts n = (e, m) \<Longrightarrow> \<bar>e\<bar> \<le> 1100"
proof -
  have "leading_zeros64 x \<le> 64" for x
    using length_takeWhile_le[of Not "rev (map (bit x) [0..<64])"] by (simp add: leading_zeros64_def)
  then have "leading_zeros64 (take_bit 52 n) \<le> 64" .
  then show "fmt_a_parts n = (e, m) \<Longrightarrow> ?thesis"
    using f64_parts_bounds(1)[of n] by (auto simp: fmt_a_parts_def Let_def split: if_splits)
qed

lemma exp_text_length: "\<bar>e\<bar> \<le> 1101 \<Longrightarrow> length (exp_text e) \<le> 1110"
  using decimal_length_le[of "nat \<bar>e\<bar>"] by (simp add: exp_text_def)

lemma fmt_a_length: "length (fmt_a n prec up) \<le> 1200"
proof -
  obtain e m where p: "fmt_a_parts (f64_abs n) = (e, m)" by fastforce
  obtain fs e' where f: "fmt_a_frac (hex_digits13 13 m) prec e = (fs, e')" by fastforce
  note fb = fmt_a_frac_bounds[OF f hex_digits13_length]
  have e: "\<bar>e\<bar> \<le> 1100" by (rule fmt_a_parts_exp[OF p])
  have "length (exp_text e) \<le> 1110" "length (exp_text e') \<le> 1110"
    using e fb(2) by (auto intro!: exp_text_length)
  then show ?thesis using fb(1) by (simp add: fmt_a_def Let_def p f byte_string_def)
qed

lemma g14_length: "g14 n = Inr t \<Longrightarrow> length t \<le> 100"
proof -
  have i: "length (itoa_u64 u acc) \<le> k + length acc" if "u < 10 ^ k" "0 < k" for u k acc
    using that
  proof (induction u acc arbitrary: k rule: itoa_u64.induct)
    case (1 u acc)
    show ?case
    proof (cases "10 \<le> u")
      case True
      then obtain j where j: "k = Suc j" "0 < j" using 1(2,3) by (cases k; cases "k - 1") auto
      then have "u div 10 < 10 ^ j" using 1(2) by (simp add: less_mult_imp_div_less mult.commute)
      from 1(1)[OF True this j(2)] show ?thesis using True j(1) by (subst itoa_u64.simps) simp
    qed (use 1(3) in \<open>subst itoa_u64.simps, simp\<close>)
  qed
  have "unat (- word_of_int k :: u64) < 10 ^ 20" for k using unat_lt64[of "- word_of_int k"] by simp
  moreover have "nat (f64_as_i64 n) < 10 ^ 20" by (auto simp: f64_as_i64_def)
  ultimately have I: "length (itoa_i64 (f64_as_i64 n)) \<le> 100"
    using i[of "nat (f64_as_i64 n)" 20 "[]"] i[of "unat (- word_of_int (f64_as_i64 n) :: u64)" 20 "[]"]
    by (simp add: itoa_i64_def)
  have B: "length (buf_write s) \<le> 100" for s by (simp add: buf_write_def)
  have T: "length (trim_zeros (buf_write s)) \<le> 100" for s using trim_zeros_length[of "buf_write s"] B[of s] by linarith
  have "case g14 n of Inl _ \<Rightarrow> True | Inr t \<Rightarrow> length t \<le> 100"
    unfolding g14_def Let_def by (simp add: I B T byte_string_def split: option.split prod.split)
  then show "g14 n = Inr t \<Longrightarrow> ?thesis" by simp
qed

lemma q_byte_length: "length (q_byte b) \<le> 4"
  by (simp add: q_byte_def octal3_def)

lemma quote_length: "length (quote s) \<le> 4 * length s + 2"
proof -
  have "length (concat (map q_byte s)) \<le> 4 * length s"
  proof (induction s)
    case (Cons b s)
    then show ?case using q_byte_length[of b] by simp
  qed simp
  then show ?thesis by (simp add: quote_def)
qed

section \<open>Growing the output\<close>

lemma vec_extend_cases:
  "length out + length xs \<le> ISIZE_MAX \<Longrightarrow> vec_extend out xs = Inr (out @ xs)"
  "ISIZE_MAX < length out + length xs \<Longrightarrow> vec_extend out xs = Inl capacity_panic"
  by (simp_all add: vec_extend_def)

lemma vec_resize_cases:
  "length out + k \<le> ISIZE_MAX \<Longrightarrow> vec_resize out k c = Inr (out @ replicate k c)"
  "ISIZE_MAX < length out + k \<Longrightarrow> \<exists>p. vec_resize out k c = Inl p"
  by (simp_all add: vec_resize_def ISIZE_MAX_def)

definition spec_width :: "spec \<Rightarrow> nat" where
  "spec_width s = (case sp_width s of Some w \<Rightarrow> w | None \<Rightarrow> 0)"

definition field_length :: "spec \<Rightarrow> bytes \<Rightarrow> u8 \<Rightarrow> nat" where
  "field_length s body sign = max (spec_width s) (length (sign_bytes sign @ body))"

lemma sign_bytes_length: "length (sign_bytes sign) = (if sign \<noteq> 0 then 1 else 0)"
  by (simp add: sign_bytes_def)

text \<open>A padded field fits and has its exact length, or the output panics.\<close>

lemma push_padded_fits:
  assumes "length out + field_length s body sign \<le> ISIZE_MAX"
  shows "\<exists>x. push_padded out s body sign z = Inr (out @ x) \<and> length x = field_length s body sign"
proof -
  let ?t = "(if sign \<noteq> 0 then 1 else 0) + length body"
  have f: "field_length s body sign = max (spec_width s) ?t"
    by (simp add: field_length_def sign_bytes_length)
  then have le: "length out + max (spec_width s) ?t \<le> ISIZE_MAX" using assms by simp
  show ?thesis
    unfolding push_padded_def spec_width_def[symmetric] Let_def f
    using le by (auto simp: vec_extend_cases(1) vec_resize_cases(1) sign_bytes_length max_def split: if_splits)
qed

lemma push_padded_full:
  assumes "ISIZE_MAX < length out + field_length s body sign"
  shows "\<exists>p. push_padded out s body sign z = Inl p"
proof (cases "push_padded out s body sign z")
  case (Inr r)
  have "length r = length out + field_length s body sign \<and> length r \<le> ISIZE_MAX"
    using Inr unfolding push_padded_def spec_width_def[symmetric] Let_def field_length_def length_append sign_bytes_length
    by (auto simp: vec_extend_def vec_resize_def rbind_eq_Inr sign_bytes_length max_def split: if_splits)
  then show ?thesis using assms by simp
qed simp

lemma pad_cases:
  "spec_width s \<le> ISIZE_MAX \<Longrightarrow> \<exists>x. pad t (sp_width s) l = Inr x \<and> length x = max (spec_width s) (length t)"
  "ISIZE_MAX < spec_width s \<Longrightarrow> pad t (sp_width s) l = Inr t \<and> ISIZE_MAX < length t \<or> (\<exists>p. pad t (sp_width s) l = Inl p)"
  by (auto simp: pad_def spec_width_def spaces_def max_def split: option.splits)

end
