(* ===== verification/LJ_Lex.thy ===== *)
theory LJ_Lex
  imports LJ_Strscan LJ_Intern_Spec
begin

unbundle bit_operations_syntax

text \<open>
  The lexer (\<open>compiler/lex.rs\<close>): the record \<open>lexstate\<close> mirrors \<open>LexState\<close>; a character is an \<open>int\<close> with
  \<open>- 1\<close> at the end of the input, as the \<open>i32\<close> of the source. \<open>error\<close> unwinds with a \<open>CompileError\<close>, the
  left value of a sum; a Rust panic would be \<open>LexPanic\<close>. Every loop of the source is a total function:
  each round consumes a character.
\<close>

section \<open>Tokens\<close>

datatype tok =
    TokChar u8
  | TokAnd | TokBreak | TokConst | TokContinue | TokDo | TokElse | TokElseif | TokEnd | TokFalse | TokFor
  | TokFunction | TokGoto | TokIf | TokIn | TokLocal | TokNil | TokNot | TokOr | TokRepeat | TokReturn
  | TokThen | TokTrue | TokUntil | TokWhile | TokConcat | TokDots | TokEq | TokGe | TokLe | TokNe | TokNav
  | TokCoal | TokShl | TokShr | TokSar | TokAndAnd | TokOrOr | TokNeBang | TokArrow | TokLabel
  | TokNumber | TokName | TokStr | TokEof

definition KEYWORDS :: "(bytes \<times> tok) list" where
  "KEYWORDS =
     [(byte_string ''and'', TokAnd), (byte_string ''break'', TokBreak), (byte_string ''const'', TokConst),
      (byte_string ''continue'', TokContinue), (byte_string ''do'', TokDo), (byte_string ''else'', TokElse),
      (byte_string ''elseif'', TokElseif), (byte_string ''end'', TokEnd), (byte_string ''false'', TokFalse),
      (byte_string ''for'', TokFor), (byte_string ''function'', TokFunction), (byte_string ''goto'', TokGoto),
      (byte_string ''if'', TokIf), (byte_string ''in'', TokIn), (byte_string ''local'', TokLocal),
      (byte_string ''nil'', TokNil), (byte_string ''not'', TokNot), (byte_string ''or'', TokOr),
      (byte_string ''repeat'', TokRepeat), (byte_string ''return'', TokReturn), (byte_string ''then'', TokThen),
      (byte_string ''true'', TokTrue), (byte_string ''until'', TokUntil), (byte_string ''while'', TokWhile)]"

fun tok2str :: "tok \<Rightarrow> bytes" where
  "tok2str (TokChar c) =
     (if c < 32 \<or> c = 127 then byte_string ''char('' @ decimal (unat c) @ byte_string '')''
      else if c < 128 then [c] else [0xC0 OR drop_bit 6 c, 0x80 OR (c AND 0x3F)])"
| "tok2str TokAnd = byte_string ''and''"
| "tok2str TokBreak = byte_string ''break''"
| "tok2str TokConst = byte_string ''const''"
| "tok2str TokContinue = byte_string ''continue''"
| "tok2str TokDo = byte_string ''do''"
| "tok2str TokElse = byte_string ''else''"
| "tok2str TokElseif = byte_string ''elseif''"
| "tok2str TokEnd = byte_string ''end''"
| "tok2str TokFalse = byte_string ''false''"
| "tok2str TokFor = byte_string ''for''"
| "tok2str TokFunction = byte_string ''function''"
| "tok2str TokGoto = byte_string ''goto''"
| "tok2str TokIf = byte_string ''if''"
| "tok2str TokIn = byte_string ''in''"
| "tok2str TokLocal = byte_string ''local''"
| "tok2str TokNil = byte_string ''nil''"
| "tok2str TokNot = byte_string ''not''"
| "tok2str TokOr = byte_string ''or''"
| "tok2str TokRepeat = byte_string ''repeat''"
| "tok2str TokReturn = byte_string ''return''"
| "tok2str TokThen = byte_string ''then''"
| "tok2str TokTrue = byte_string ''true''"
| "tok2str TokUntil = byte_string ''until''"
| "tok2str TokWhile = byte_string ''while''"
| "tok2str TokConcat = byte_string ''..''"
| "tok2str TokDots = byte_string ''...''"
| "tok2str TokEq = byte_string ''==''"
| "tok2str TokGe = byte_string ''>=''"
| "tok2str TokLe = byte_string ''<=''"
| "tok2str TokNe = byte_string ''~=''"
| "tok2str TokNav = byte_string ''?.''"
| "tok2str TokCoal = byte_string ''??''"
| "tok2str TokShl = byte_string ''<<''"
| "tok2str TokShr = byte_string ''>>''"
| "tok2str TokSar = byte_string ''~>>''"
| "tok2str TokAndAnd = byte_string ''&&''"
| "tok2str TokOrOr = byte_string ''||''"
| "tok2str TokNeBang = byte_string ''!=''"
| "tok2str TokArrow = byte_string ''->''"
| "tok2str TokLabel = byte_string ''::''"
| "tok2str TokNumber = byte_string ''<number>''"
| "tok2str TokName = byte_string ''<name>''"
| "tok2str TokStr = byte_string ''<string>''"
| "tok2str TokEof = byte_string ''<eof>''"

record tokval =
  tv_num :: f64
  tv_str :: nat
  is_cdata :: bool
  cdata_bits :: u64
  cdata_is_ull :: bool
  cdata_is_imag :: bool

definition TOKVAL0 :: tokval where
  "TOKVAL0 = \<lparr>tv_num = 0, tv_str = 0, is_cdata = False, cdata_bits = 0, cdata_is_ull = False, cdata_is_imag = False\<rparr>"

section \<open>State\<close>

record lexstate =
  ls_src :: bytes
  ls_pos :: nat
  tok_start :: nat
  ls_c :: int
  ls_tok :: tok
  ls_tokval :: tokval
  lookahead :: tok
  lookaheadval :: tokval
  ls_sb :: bytes
  linenumber :: nat
  lastline :: nat
  chunkname :: bytes
  ls_strs :: interner

datatype lex_fault = CompileError bytes | LexPanic panic

definition LEX_EOF :: int where "LEX_EOF = - 1"

definition is_digit :: "int \<Rightarrow> bool" where "is_digit c \<longleftrightarrow> 0x30 \<le> c \<and> c \<le> 0x39"

definition is_ident :: "int \<Rightarrow> bool" where
  "is_ident c \<longleftrightarrow> 0x30 \<le> c \<and> c \<le> 0x39 \<or> 0x41 \<le> c \<and> c \<le> 0x5A \<or> 0x61 \<le> c \<and> c \<le> 0x7A \<or> c = 0x5F"

definition is_xdigit :: "int \<Rightarrow> bool" where
  "is_xdigit c \<longleftrightarrow> is_digit c \<or> 0x41 \<le> c \<and> c \<le> 0x46 \<or> 0x61 \<le> c \<and> c \<le> 0x66"

definition is_space :: "int \<Rightarrow> bool" where "is_space c \<longleftrightarrow> 9 \<le> c \<and> c \<le> 13 \<or> c = 32"

definition lex_error :: "lexstate \<Rightarrow> string \<Rightarrow> lex_fault + 'a" where
  "lex_error ls msg =
     Inl (CompileError (chunkname ls @ byte_string '':'' @ decimal (linenumber ls) @ byte_string '': '' @ byte_string msg))"

text \<open>The calls into the interner keep its panics apart from compile errors.\<close>

definition lex_intern :: "os_alloc \<Rightarrow> nat \<Rightarrow> lexstate \<Rightarrow> bytes \<Rightarrow> lex_fault + nat \<times> lexstate" where
  "lex_intern os sz ls s =
     (case intern os sz (ls_strs ls) s of
        Inl p \<Rightarrow> Inl (LexPanic p)
      | Inr (i, st) \<Rightarrow> Inr (i, ls\<lparr>ls_strs := st\<rparr>))"

definition next_char :: "lexstate \<Rightarrow> lexstate" where
  "next_char ls =
     (if ls_pos ls < length (ls_src ls)
      then ls\<lparr>ls_c := uint (ls_src ls ! ls_pos ls), ls_pos := ls_pos ls + 1\<rparr>
      else ls\<lparr>ls_c := LEX_EOF\<rparr>)"

definition save :: "int \<Rightarrow> lexstate \<Rightarrow> lexstate" where
  "save c ls = ls\<lparr>ls_sb := ls_sb ls @ [word_of_int c]\<rparr>"

definition save_next :: "lexstate \<Rightarrow> lexstate" where
  "save_next ls = next_char (save (ls_c ls) ls)"

definition is_eol :: "lexstate \<Rightarrow> bool" where
  "is_eol ls \<longleftrightarrow> ls_c ls = 10 \<or> ls_c ls = 13"

definition newline :: "lexstate \<Rightarrow> lex_fault + lexstate" where
  "newline ls =
     (let l1 = next_char ls;
          l2 = (if is_eol l1 \<and> ls_c l1 \<noteq> ls_c ls then next_char l1 else l1);
          l3 = l2\<lparr>linenumber := linenumber l2 + 1\<rparr>
      in if 0x7fffff00 \<le> linenumber l3 then lex_error l3 ''chunk has too many lines'' else Inr l3)"

text \<open>The characters left, the current one included; every loop below decreases it.\<close>

definition rem :: "lexstate \<Rightarrow> nat" where
  "rem ls = length (ls_src ls) - ls_pos ls + (if ls_c ls = LEX_EOF then 0 else 1)"

lemma next_char_src [simp]: "ls_src (next_char ls) = ls_src ls"
  "ls_sb (next_char ls) = ls_sb ls" "ls_strs (next_char ls) = ls_strs ls"
  "linenumber (next_char ls) = linenumber ls" "ls_tokval (next_char ls) = ls_tokval ls"
  by (simp_all add: next_char_def)

lemma save_fields [simp]: "ls_src (save c ls) = ls_src ls" "ls_pos (save c ls) = ls_pos ls" "ls_c (save c ls) = ls_c ls"
  "ls_sb (save c ls) = ls_sb ls @ [word_of_int c]" "ls_strs (save c ls) = ls_strs ls"
  "linenumber (save c ls) = linenumber ls" "ls_tokval (save c ls) = ls_tokval ls" "rem (save c ls) = rem ls"
  by (simp_all add: save_def rem_def)

lemma uint_not_EOF [simp]: "uint (w :: u8) \<noteq> LEX_EOF" "LEX_EOF \<noteq> uint (w :: u8)"
  using uint_ge_0[of w] unfolding LEX_EOF_def by linarith+

lemma rem_next_char: "ls_c ls \<noteq> LEX_EOF \<Longrightarrow> rem (next_char ls) < rem ls"
  by (auto simp: rem_def next_char_def)

lemma rem_next_char_le: "rem (next_char ls) \<le> rem ls"
  by (auto simp: rem_def next_char_def)

lemma rem_save_next: "ls_c ls \<noteq> LEX_EOF \<Longrightarrow> rem (save_next ls) < rem ls"
  using rem_next_char[of "save (ls_c ls) ls"] by (simp add: save_next_def)

lemma next_not_EOF: "ls_c (next_char ls) \<noteq> LEX_EOF \<Longrightarrow> ls_pos ls < length (ls_src ls)"
  by (simp add: next_char_def split: if_splits)

lemma rem_newline:
  assumes "newline ls = Inr l" "is_eol ls"
  shows "rem l < rem ls"
proof -
  have "ls_c ls \<noteq> LEX_EOF" using assms(2) by (auto simp: is_eol_def LEX_EOF_def)
  moreover have "rem (l\<lparr>linenumber := n\<rparr>) = rem l" for l n by (simp add: rem_def)
  ultimately show ?thesis using assms(1) rem_next_char[of ls] rem_next_char_le[of "next_char ls"]
    by (auto simp: newline_def Let_def lex_error_def split: if_splits)
qed

section \<open>Numbers\<close>

text \<open>The loops of \<open>lex_number\<close>: underscores after a leading zero, binary digits, the suffix letters of a
  binary literal, and the characters of any other literal.\<close>

function skip_underscores :: "lexstate \<Rightarrow> lexstate" where
  "skip_underscores ls = (let l1 = next_char ls in if ls_c l1 \<noteq> 0x5F then l1 else skip_underscores l1)"
  by auto
termination
proof (relation "measure (\<lambda>ls. length (ls_src ls) - ls_pos ls)")
  fix ls l1 assume "l1 = next_char ls" "\<not> ls_c l1 \<noteq> 0x5F"
  then have "ls_pos ls < length (ls_src ls)" "ls_pos l1 = ls_pos ls + 1" "ls_src l1 = ls_src ls"
    by (auto simp: next_char_def LEX_EOF_def split: if_splits)
  then show "(l1, ls) \<in> measure (\<lambda>ls. length (ls_src ls) - ls_pos ls)" by simp
qed simp

function binary_digits :: "lexstate \<Rightarrow> lexstate" where
  "binary_digits ls =
     (let l1 = next_char ls
      in if ls_c l1 = 0x30 \<or> ls_c l1 = 0x31 \<or> ls_c l1 = 0x5F
         then binary_digits (if ls_c l1 \<noteq> 0x5F then save (ls_c l1) l1 else l1)
         else l1)"
  by auto
termination
proof (relation "measure (\<lambda>ls. length (ls_src ls) - ls_pos ls)")
  fix ls l1 assume "l1 = next_char ls" "ls_c l1 = 0x30 \<or> ls_c l1 = 0x31 \<or> ls_c l1 = 0x5F"
  then have "ls_pos ls < length (ls_src ls)" "ls_pos l1 = ls_pos ls + 1" "ls_src l1 = ls_src ls"
    by (auto simp: next_char_def LEX_EOF_def split: if_splits)
  then show "(if ls_c l1 \<noteq> 0x5F then save (ls_c l1) l1 else l1, ls) \<in> measure (\<lambda>ls. length (ls_src ls) - ls_pos ls)"
    by auto
qed simp

function suffix_letters :: "lexstate \<Rightarrow> lexstate" where
  "suffix_letters ls =
     (if ls_c ls = 0x4C \<or> ls_c ls = 0x6C \<or> ls_c ls = 0x55 \<or> ls_c ls = 0x75
      then suffix_letters (save_next ls) else ls)"
  by auto
termination
  by (relation "measure rem") (auto intro!: rem_save_next simp: LEX_EOF_def)

text \<open>\<open>c\<close> is the last character saved, which decides whether a sign belongs to an exponent.\<close>

function number_chars :: "int \<Rightarrow> int \<Rightarrow> lexstate \<Rightarrow> lexstate" where
  "number_chars xp c ls =
     (if is_ident (ls_c ls) \<or> ls_c ls = 0x2E \<or> (ls_c ls = 0x2D \<or> ls_c ls = 0x2B) \<and> (c OR 0x20) = xp
      then if ls_c ls \<noteq> 0x5F then number_chars xp (ls_c ls) (next_char (save (ls_c ls) ls))
           else number_chars xp c (next_char ls)
      else ls)"
  by auto
termination
  by (relation "measure (\<lambda>(xp, c, ls). rem ls)")
     (auto intro!: rem_next_char rem_save_next[unfolded save_next_def] simp: LEX_EOF_def is_ident_def)

declare skip_underscores.simps [simp del] binary_digits.simps [simp del] suffix_letters.simps [simp del]
  number_chars.simps [simp del]

definition binary_suffix :: "bytes \<Rightarrow> num_suffix \<times> nat" where
  "binary_suffix s =
     (let len = length s
      in if 3 \<le> len \<and> is_u (s ! (len - 3)) \<and> is_l (s ! (len - 2)) \<and> is_l (s ! (len - 1)) then (Ull, len - 3)
         else if 2 \<le> len \<and> is_l (s ! (len - 2)) \<and> is_l (s ! (len - 1)) then (Ll, len - 2)
         else (NoSuffix, len))"

definition lex_binary :: "lexstate \<Rightarrow> lex_fault + f64 \<times> lexstate" where
  "lex_binary ls =
     (let l1 = suffix_letters (binary_digits ls); (suffix, n) = binary_suffix (ls_sb l1)
      in case scan_bin_to_u64 (take n (ls_sb l1)) of
           Some u \<Rightarrow>
             Inr (f64_of_u64 u,
                  if suffix \<noteq> NoSuffix
                  then l1\<lparr>ls_tokval := (ls_tokval l1)\<lparr>is_cdata := True, cdata_bits := u, cdata_is_ull := (suffix = Ull)\<rparr>\<rparr>
                  else l1)
         | None \<Rightarrow> lex_error l1 ''malformed binary number'')"

definition lex_number_rest :: "int \<Rightarrow> lexstate \<Rightarrow> lex_fault + f64 \<times> lexstate" where
  "lex_number_rest xp ls =
     (let l1 = number_chars xp (ls_c ls) ls
      in case scan_number_full (ls_sb l1) of
           Some r \<Rightarrow>
             Inr (sr_n r,
                  if sr_suffix r \<noteq> NoSuffix
                  then l1\<lparr>ls_tokval := (ls_tokval l1)\<lparr>is_cdata := True, cdata_bits := sr_u r,
                         cdata_is_ull := (sr_suffix r = Ull), cdata_is_imag := (sr_suffix r = Imag)\<rparr>\<rparr>
                  else l1)
         | None \<Rightarrow> lex_error l1 ''malformed number'')"

definition lex_number :: "lexstate \<Rightarrow> lex_fault + f64 \<times> lexstate" where
  "lex_number ls =
     (if ls_c ls = 0x30
      then let l1 = skip_underscores (save (ls_c ls) ls); c = ls_c l1
           in if (c OR 0x20) = 0x62 then lex_binary l1
              else lex_number_rest (if (c OR 0x20) = 0x78 then 0x70 else 0x65) l1
      else lex_number_rest 0x65 ls)"

section \<open>Long brackets\<close>

function skip_eq_loop :: "int \<Rightarrow> lexstate \<Rightarrow> int \<times> lexstate" where
  "skip_eq_loop k ls =
     (let l1 = save_next ls in if ls_c l1 = 0x3D \<and> k < 0x20000000 then skip_eq_loop (k + 1) l1 else (k, l1))"
  by auto
termination
proof (relation "measure (\<lambda>(n, ls). length (ls_src ls) - ls_pos ls)")
  fix n ls l1 assume "l1 = save_next ls" "ls_c l1 = 0x3D \<and> n < 0x20000000"
  then have "ls_pos ls < length (ls_src ls)" "ls_pos l1 = ls_pos ls + 1" "ls_src l1 = ls_src ls"
    by (auto simp: save_next_def next_char_def LEX_EOF_def split: if_splits)
  then show "((n + 1, l1), n, ls) \<in> measure (\<lambda>(n, ls). length (ls_src ls) - ls_pos ls)" by simp
qed simp

declare skip_eq_loop.simps [simp del]

definition skip_eq :: "lexstate \<Rightarrow> int \<times> lexstate" where
  "skip_eq ls = (let s = ls_c ls; (k, l1) = skip_eq_loop 0 ls in (if ls_c l1 = s then k else - k - 1, l1))"

lemma rem_skip_eq_loop: "ls_c ls \<noteq> LEX_EOF \<Longrightarrow> rem (snd (skip_eq_loop n ls)) < rem ls"
proof (induction n ls rule: skip_eq_loop.induct)
  case (1 n ls)
  note s = rem_save_next[OF 1(2)]
  show ?case
  proof (cases "ls_c (save_next ls) = 0x3D \<and> n < 0x20000000")
    case True
    then have "ls_c (save_next ls) \<noteq> LEX_EOF" by (simp add: LEX_EOF_def)
    then show ?thesis using 1(1)[OF refl True] s True by (subst skip_eq_loop.simps) (simp add: Let_def)
  next
    case False
    then show ?thesis using s by (subst skip_eq_loop.simps) (auto simp: Let_def)
  qed
qed

lemma rem_skip_eq: "ls_c ls \<noteq> LEX_EOF \<Longrightarrow> skip_eq ls = (n, l) \<Longrightarrow> rem l < rem ls"
  using rem_skip_eq_loop[of ls 0] by (auto simp: skip_eq_def Let_def split: prod.splits)

lemma rem_sb [simp]: "rem (ls\<lparr>ls_sb := b\<rparr>) = rem ls"
  by (simp add: rem_def)

function long_loop :: "bool \<Rightarrow> int \<Rightarrow> lexstate \<Rightarrow> lex_fault + lexstate" where
  "long_loop is_str sep ls =
     (if ls_c ls = LEX_EOF then lex_error ls (if is_str then ''unfinished long string'' else ''unfinished long comment'')
      else if ls_c ls = 0x5D
      then case skip_eq ls of (n, l1) \<Rightarrow> if n = sep then Inr (save_next l1) else long_loop is_str sep l1
      else if is_eol ls
      then rbind (newline (save 10 ls))
             (\<lambda>l1. long_loop is_str sep (if is_str then l1 else l1\<lparr>ls_sb := []\<rparr>))
      else long_loop is_str sep (save_next ls))"
  by auto
termination
proof (relation "measure (\<lambda>(i, s, ls). rem ls)", goal_cases)
  case (3 is_str sep ls l1)
  then have "rem l1 < rem (save 10 ls)" by (intro rem_newline) (simp_all add: is_eol_def)
  then show ?case by simp
qed (auto intro: rem_skip_eq[OF _ sym] rem_save_next)

declare long_loop.simps [simp del]

definition long_string :: "os_alloc \<Rightarrow> nat \<Rightarrow> bool \<Rightarrow> int \<Rightarrow> lexstate \<Rightarrow> lex_fault + nat option \<times> lexstate" where
  "long_string os sz is_str sep ls =
     (let l1 = save_next ls
      in rbind (if is_eol l1 then newline l1 else Inr l1)
           (\<lambda>l2. rbind (long_loop is_str sep l2)
             (\<lambda>l3. if is_str
                   then let start = 2 + nat sep
                        in if length (ls_sb l3) < start then Inl (LexPanic ArithPanic)
                           else case slice (ls_sb l3) start (length (ls_sb l3) - start) of
                                  Inl p \<Rightarrow> Inl (LexPanic p)
                                | Inr s \<Rightarrow> rbind (lex_intern os sz l3 s) (\<lambda>(i, l4). Inr (Some i, l4))
                   else Inr (None, l3))))"

section \<open>Quoted strings\<close>

definition xdigit_value :: "lexstate \<Rightarrow> lex_fault + int" where
  "xdigit_value ls =
     (if is_digit (ls_c ls) then Inr (ls_c ls AND 15)
      else if \<not> is_xdigit (ls_c ls) then lex_error ls ''invalid escape sequence''
      else Inr ((ls_c ls AND 15) + 9))"

definition hex_escape :: "lexstate \<Rightarrow> lex_fault + lexstate" where
  "hex_escape ls =
     (let l1 = next_char ls
      in rbind (xdigit_value l1)
           (\<lambda>hi. let l2 = next_char l1
                 in rbind (xdigit_value l2) (\<lambda>lo. Inr (next_char (save (push_bit 4 hi + lo) l2)))))"

function unicode_digits :: "int \<Rightarrow> lexstate \<Rightarrow> lex_fault + int \<times> lexstate" where
  "unicode_digits c ls =
     (let c1 = push_bit 4 c OR (ls_c ls AND 15)
      in if \<not> is_digit (ls_c ls) \<and> \<not> is_xdigit (ls_c ls) then lex_error ls ''invalid escape sequence''
         else let c2 = (if is_digit (ls_c ls) then c1 else c1 + 9)
              in if 0x110000 \<le> c2 then lex_error ls ''invalid escape sequence''
                 else let l1 = next_char ls in if ls_c l1 = 0x7D then Inr (c2, l1) else unicode_digits c2 l1)"
  by auto
termination
  by (relation "measure (\<lambda>(c, ls). rem ls)") (auto intro!: rem_next_char simp: is_digit_def is_xdigit_def LEX_EOF_def)

declare unicode_digits.simps [simp del]

definition save_utf8 :: "int \<Rightarrow> lexstate \<Rightarrow> lex_fault + lexstate" where
  "save_utf8 c ls =
     (if c < 0x800
      then if 0x80 \<le> c then Inr (save (0x80 OR (c AND 0x3F)) (save (0xC0 OR drop_bit 6 c) ls))
           else Inr (save c ls)
      else rbind (if 0x10000 \<le> c
                  then Inr (save (0x80 OR (drop_bit 12 c AND 0x3F)) (save (0xF0 OR drop_bit 18 c) ls))
                  else if 0xD800 \<le> c \<and> c < 0xE000 then lex_error ls ''invalid escape sequence''
                  else Inr (save (0xE0 OR drop_bit 12 c) ls))
             (\<lambda>l1. Inr (save (0x80 OR (c AND 0x3F)) (save (0x80 OR (drop_bit 6 c AND 0x3F)) l1))))"

definition unicode_escape :: "lexstate \<Rightarrow> lex_fault + lexstate" where
  "unicode_escape ls =
     (let l1 = next_char ls
      in if ls_c l1 \<noteq> 0x7B then lex_error l1 ''invalid escape sequence''
         else rbind (unicode_digits 0 (next_char l1)) (\<lambda>(c, l2). save_utf8 c (next_char l2)))"

function skip_space :: "lexstate \<Rightarrow> lex_fault + lexstate" where
  "skip_space ls =
     (if is_space (ls_c ls)
      then if is_eol ls then rbind (newline ls) skip_space else skip_space (next_char ls)
      else Inr ls)"
  by auto
termination
  by (relation "measure rem") (auto intro: rem_newline rem_next_char simp: is_space_def LEX_EOF_def)

declare skip_space.simps [simp del]

definition decimal_escape :: "lexstate \<Rightarrow> lex_fault + lexstate" where
  "decimal_escape ls =
     (let c = ls_c ls - 0x30; l1 = next_char ls
      in if is_digit (ls_c l1)
         then let c1 = c * 10 + (ls_c l1 - 0x30); l2 = next_char l1
              in if is_digit (ls_c l2)
                 then let c2 = c1 * 10 + (ls_c l2 - 0x30)
                      in if 255 < c2 then lex_error l2 ''invalid escape sequence'' else Inr (save c2 (next_char l2))
                 else Inr (save c1 l2)
         else Inr (save c l1))"

text \<open>The letters that stand for one character.\<close>

definition escape_letter :: "int \<Rightarrow> int option" where
  "escape_letter c =
     (if c = 0x61 then Some 7 else if c = 0x62 then Some 8 else if c = 0x66 then Some 12
      else if c = 0x6E then Some 10 else if c = 0x72 then Some 13 else if c = 0x74 then Some 9
      else if c = 0x76 then Some 11
      else if c = 0x5C \<or> c = 0x22 \<or> c = 0x27 then Some c
      else None)"

text \<open>One escape sequence; the state is at the backslash.\<close>

definition string_escape :: "lexstate \<Rightarrow> lex_fault + lexstate" where
  "string_escape ls =
     (let l1 = next_char ls; c = ls_c l1
      in case escape_letter c of
           Some d \<Rightarrow> Inr (next_char (save d l1))
         | None \<Rightarrow>
             if c = 0x78 then hex_escape l1
             else if c = 0x75 then unicode_escape l1
             else if c = 0x7A then skip_space (next_char l1)
             else if is_eol l1 then newline (save 10 l1)
             else if c = LEX_EOF then Inr l1
             else if \<not> is_digit c then lex_error l1 ''invalid escape sequence''
             else decimal_escape l1)"

subsection \<open>Every escape consumes input\<close>

lemma lex_error_Inr [simp]: "lex_error ls m \<noteq> Inr x" "Inr x \<noteq> lex_error ls m"
  by (simp_all add: lex_error_def)

lemma rem_unicode_digits: "unicode_digits c ls = Inr (d, l) \<Longrightarrow> rem l \<le> rem ls"
proof (induction c ls rule: unicode_digits.induct)
  case (1 c ls)
  note n = rem_next_char_le[of ls]
  show ?case
    using 1(2) 1(1)[OF refl _ refl _ refl] n
    by (subst (asm) unicode_digits.simps) (auto simp: Let_def split: if_splits intro: order_trans)
qed

lemma rem_skip_space: "skip_space ls = Inr l \<Longrightarrow> rem l \<le> rem ls"
proof (induction ls rule: skip_space.induct)
  case (1 ls)
  show ?case
  proof (cases "is_space (ls_c ls) \<and> is_eol ls")
    case True
    then obtain k where k: "newline ls = Inr k" "skip_space k = Inr l"
      using 1(3) by (subst (asm) skip_space.simps) (auto simp: rbind_eq_Inr)
    then show ?thesis using 1(1)[of k] True rem_newline[OF k(1)] by auto
  next
    case False
    then show ?thesis using 1(3) 1(2) rem_next_char_le[of ls]
      by (subst (asm) skip_space.simps) (auto split: if_splits)
  qed
qed

lemma rem_save_utf8: "save_utf8 c ls = Inr l \<Longrightarrow> rem l = rem ls"
  by (auto simp: save_utf8_def rbind_eq_Inr split: if_splits)

lemma rem_unicode_escape:
  assumes "unicode_escape ls = Inr l"
  shows "rem l \<le> rem ls"
proof -
  obtain c k where k: "unicode_digits 0 (next_char (next_char ls)) = Inr (c, k)" "save_utf8 c (next_char k) = Inr l"
    using assms by (auto simp: unicode_escape_def Let_def rbind_eq_Inr split: if_splits)
  show ?thesis using rem_unicode_digits[OF k(1)] rem_save_utf8[OF k(2)] rem_next_char_le[of ls]
      rem_next_char_le[of "next_char ls"] rem_next_char_le[of k] by linarith
qed

lemma rem_string_escape:
  assumes "string_escape ls = Inr l" "ls_c ls \<noteq> LEX_EOF"
  shows "rem l < rem ls"
proof -
  note n = rem_next_char_le
  have "rem l \<le> rem (next_char ls)"
    using assms(1) n[of "next_char ls"] n[of "next_char (next_char ls)"] n[of "next_char (next_char (next_char ls))"]
      rem_newline[of "save 10 (next_char ls)" l]
    by (auto simp: string_escape_def Let_def hex_escape_def decimal_escape_def rbind_eq_Inr is_eol_def
        split: option.splits if_splits dest!: rem_unicode_escape rem_skip_space
        intro: order_trans[OF n] order_trans)
  then show ?thesis using rem_next_char[OF assms(2)] by linarith
qed

subsection \<open>The loop\<close>

function string_loop :: "int \<Rightarrow> lexstate \<Rightarrow> lex_fault + lexstate" where
  "string_loop delim ls =
     (if ls_c ls = delim then Inr ls
      else if ls_c ls = LEX_EOF then lex_error ls (''unfinished string near '' @ [CHR 0x27] @ ''<eof>'' @ [CHR 0x27])
      else if is_eol ls then lex_error ls (''unfinished string near '' @ [CHR 0x27] @ ''<string>'' @ [CHR 0x27])
      else if ls_c ls = 0x5C then rbind (string_escape ls) (string_loop delim)
      else string_loop delim (save_next ls))"
  by auto
termination
  by (relation "measure (\<lambda>(d, ls). rem ls)") (auto intro: rem_string_escape rem_save_next)

declare string_loop.simps [simp del]

definition lex_string :: "os_alloc \<Rightarrow> nat \<Rightarrow> lexstate \<Rightarrow> lex_fault + nat \<times> lexstate" where
  "lex_string os sz ls =
     rbind (string_loop (ls_c ls) (save_next ls))
       (\<lambda>l1. let l2 = save_next l1
             in if length (ls_sb l2) < 1 then Inl (LexPanic ArithPanic)
                else case slice (ls_sb l2) 1 (length (ls_sb l2) - 1) of
                       Inl p \<Rightarrow> Inl (LexPanic p)
                     | Inr s \<Rightarrow> lex_intern os sz l2 s)"

section \<open>Scanning\<close>

definition eat :: "int \<Rightarrow> lexstate \<Rightarrow> bool \<times> lexstate" where
  "eat c ls = (if ls_c ls = c then (True, next_char ls) else (False, ls))"

function ident_chars :: "lexstate \<Rightarrow> lexstate" where
  "ident_chars ls = (if is_ident (ls_c ls) then ident_chars (save_next ls) else ls)"
  by auto
termination
  by (relation "measure rem") (auto intro: rem_save_next simp: is_ident_def LEX_EOF_def)

declare ident_chars.simps [simp del]

definition keyword :: "bytes \<Rightarrow> tok" where
  "keyword s = (case find (\<lambda>(kw, t). kw = s) KEYWORDS of Some (kw, t) \<Rightarrow> t | None \<Rightarrow> TokName)"

definition scan_name_or_keyword :: "os_alloc \<Rightarrow> nat \<Rightarrow> lexstate \<Rightarrow> lex_fault + (tok \<times> tokval) \<times> lexstate" where
  "scan_name_or_keyword os sz ls =
     (let l1 = ident_chars ls
      in rbind (lex_intern os sz l1 (ls_sb l1))
           (\<lambda>(i, l2). Inr ((keyword (ls_sb l1), TOKVAL0\<lparr>tv_str := i\<rparr>), l2)))"

function skip_line :: "lexstate \<Rightarrow> lexstate" where
  "skip_line ls = (if \<not> is_eol ls \<and> ls_c ls \<noteq> LEX_EOF then skip_line (next_char ls) else ls)"
  by auto
termination
  by (relation "measure rem") (auto intro: rem_next_char)

declare skip_line.simps [simp del]

definition scan_comment :: "os_alloc \<Rightarrow> nat \<Rightarrow> lexstate \<Rightarrow> lex_fault + lexstate" where
  "scan_comment os sz ls =
     (if ls_c ls = 0x5B
      then case skip_eq ls of
             (sep, l1) \<Rightarrow>
               let l2 = l1\<lparr>ls_sb := []\<rparr>
               in if 0 \<le> sep then rbind (long_string os sz False sep l2) (\<lambda>(_, l3). Inr (l3\<lparr>ls_sb := []\<rparr>))
                  else Inr (skip_line l2)
      else Inr (skip_line ls))"

text \<open>The number branches of \<open>scan\<close> move the cdata fields from the lexer to the token value.\<close>

definition scan_number_token :: "lexstate \<Rightarrow> lex_fault + (tok \<times> tokval) \<times> lexstate" where
  "scan_number_token ls =
     rbind (lex_number ls)
       (\<lambda>(n, l1). let v = ls_tokval l1
                  in Inr ((TokNumber, v\<lparr>tv_num := n, tv_str := 0\<rparr>),
                          l1\<lparr>ls_tokval := v\<lparr>is_cdata := False, cdata_bits := 0, cdata_is_ull := False, cdata_is_imag := False\<rparr>\<rparr>))"

text \<open>The operators that start with \<open>c\<close> and are decided by the next characters.\<close>

definition scan_operator :: "lexstate \<Rightarrow> lex_fault + tok \<times> lexstate" where
  "scan_operator ls =
     (let c = ls_c ls; l1 = next_char ls
      in if c = 0x3D then (case eat 0x3D l1 of (e, l2) \<Rightarrow> Inr (if e then TokEq else TokChar 0x3D, l2))
         else if c = 0x3C
         then (case eat 0x3D l1 of (e, l2) \<Rightarrow> if e then Inr (TokLe, l2)
               else case eat 0x3C l2 of (e, l3) \<Rightarrow> Inr (if e then TokShl else TokChar 0x3C, l3))
         else if c = 0x3E
         then (case eat 0x3D l1 of (e, l2) \<Rightarrow> if e then Inr (TokGe, l2)
               else case eat 0x3E l2 of (e, l3) \<Rightarrow> Inr (if e then TokShr else TokChar 0x3E, l3))
         else if c = 0x7E
         then (case eat 0x3D l1 of (e, l2) \<Rightarrow> if e then Inr (TokNe, l2)
               else case eat 0x3E l2 of (e, l3) \<Rightarrow>
                 if e then (case eat 0x3E l3 of (e, l4) \<Rightarrow> if \<not> e then lex_error l4 ''unexpected symbol'' else Inr (TokSar, l4))
                 else Inr (TokChar 0x7E, l3))
         else if c = 0x21 then (case eat 0x3D l1 of (e, l2) \<Rightarrow> Inr (if e then TokNeBang else TokChar 0x21, l2))
         else if c = 0x3A then (case eat 0x3A l1 of (e, l2) \<Rightarrow> Inr (if e then TokLabel else TokChar 0x3A, l2))
         else if c = 0x3F
         then (case eat 0x2E l1 of (e, l2) \<Rightarrow> if e then Inr (TokNav, l2)
               else case eat 0x3F l2 of (e, l3) \<Rightarrow> Inr (if e then TokCoal else TokChar 0x3F, l3))
         else if c = 0x26 then (case eat 0x26 l1 of (e, l2) \<Rightarrow> Inr (if e then TokAndAnd else TokChar 0x26, l2))
         else if c = 0x7C then (case eat 0x7C l1 of (e, l2) \<Rightarrow> Inr (if e then TokOrOr else TokChar 0x7C, l2))
         else Inr (TokChar (word_of_int c), l1))"

text \<open>One round of the loop of \<open>scan\<close>: go round again, or return a token.\<close>

datatype scan_out = Again lexstate | Token tok tokval lexstate

definition token_of :: "lex_fault + (tok \<times> tokval) \<times> lexstate \<Rightarrow> lex_fault + scan_out" where
  "token_of r = rbind r (\<lambda>((t, v), ls). Inr (Token t v ls))"

definition scan_minus :: "os_alloc \<Rightarrow> nat \<Rightarrow> lexstate \<Rightarrow> lex_fault + scan_out" where
  "scan_minus os sz ls =
     (case eat 0x3E (next_char ls) of
        (True, l2) \<Rightarrow> Inr (Token TokArrow TOKVAL0 l2)
      | (False, l2) \<Rightarrow>
          (case eat 0x2D l2 of
             (True, l3) \<Rightarrow> rbind (scan_comment os sz l3) (\<lambda>l4. Inr (Again l4))
           | (False, l3) \<Rightarrow> Inr (Token (TokChar 0x2D) TOKVAL0 l3)))"

definition scan_bracket :: "os_alloc \<Rightarrow> nat \<Rightarrow> lexstate \<Rightarrow> lex_fault + scan_out" where
  "scan_bracket os sz ls =
     (case skip_eq ls of
        (sep, l1) \<Rightarrow>
          if 0 \<le> sep
          then rbind (long_string os sz True sep l1)
                 (\<lambda>(r, l2). case r of None \<Rightarrow> Inl (LexPanic (AssertPanic ''unwrap on None''))
                            | Some i \<Rightarrow> Inr (Token TokStr (TOKVAL0\<lparr>tv_str := i\<rparr>) l2))
          else if sep = - 1 then Inr (Token (TokChar 0x5B) TOKVAL0 l1)
          else lex_error l1 ''invalid long string delimiter'')"

definition scan_dot :: "lexstate \<Rightarrow> lex_fault + scan_out" where
  "scan_dot ls =
     (let l1 = save_next ls
      in if ls_c l1 = 0x2E
         then case eat 0x2E (next_char l1) of (e, l2) \<Rightarrow> Inr (Token (if e then TokDots else TokConcat) TOKVAL0 l2)
         else if is_digit (ls_c l1) then token_of (scan_number_token l1)
         else Inr (Token (TokChar 0x2E) TOKVAL0 l1))"

definition scan_step :: "os_alloc \<Rightarrow> nat \<Rightarrow> lexstate \<Rightarrow> lex_fault + scan_out" where
  "scan_step os sz ls =
     (let c = ls_c ls
      in if is_digit c then token_of (scan_number_token ls)
         else if is_ident c then token_of (scan_name_or_keyword os sz ls)
         else if c = LEX_EOF then Inr (Token TokEof TOKVAL0 ls)
         else if c = 10 \<or> c = 13 then rbind (newline ls) (\<lambda>l1. Inr (Again l1))
         else if c = 32 \<or> c = 9 \<or> c = 11 \<or> c = 12 then Inr (Again (next_char ls))
         else if c = 0x2D then scan_minus os sz ls
         else if c = 0x5B then scan_bracket os sz ls
         else if c = 0x22 \<or> c = 0x27
         then rbind (lex_string os sz ls) (\<lambda>(i, l1). Inr (Token TokStr (TOKVAL0\<lparr>tv_str := i\<rparr>) l1))
         else if c = 0x2E then scan_dot ls
         else rbind (scan_operator ls) (\<lambda>(t, l1). Inr (Token t TOKVAL0 l1)))"

subsection \<open>Every round consumes input\<close>

lemma rem_long_loop: "long_loop is_str sep ls = Inr l \<Longrightarrow> rem l \<le> rem ls"
proof (induction is_str sep ls rule: long_loop.induct)
  case (1 is_str sep ls)
  have ne: "ls_c ls \<noteq> LEX_EOF" using 1(4) by (subst (asm) long_loop.simps) (auto split: if_splits)
  consider (close) "ls_c ls = 0x5D" | (eol) "ls_c ls \<noteq> 0x5D" "is_eol ls" | (plain) "ls_c ls \<noteq> 0x5D" "\<not> is_eol ls" by blast
  then show ?case
  proof cases
    case close
    obtain n k where k: "skip_eq ls = (n, k)" by (cases "skip_eq ls")
    show ?thesis
      using 1(4) 1(1)[OF ne close] k rem_skip_eq[OF ne k] close ne rem_next_char_le[of "save (ls_c k) k"]
      by (subst (asm) long_loop.simps) (auto simp: save_next_def split: if_splits intro: order_trans)
  next
    case eol
    obtain k where k: "newline (save 10 ls) = Inr k" "long_loop is_str sep (if is_str then k else k\<lparr>ls_sb := []\<rparr>) = Inr l"
      using 1(4) eol ne by (subst (asm) long_loop.simps) (auto simp: rbind_eq_Inr)
    have "rem k < rem ls" using rem_newline[OF k(1)] eol by (simp add: is_eol_def)
    then show ?thesis using 1(2)[OF ne eol, of k] k by (auto split: if_splits)
  next
    case plain
    then show ?thesis using 1(4) 1(3)[OF ne] ne rem_save_next[OF ne]
      by (subst (asm) long_loop.simps) (auto split: if_splits)
  qed
qed

lemma rem_skip_line: "rem (skip_line ls) \<le> rem ls"
proof (induction ls rule: skip_line.induct)
  case (1 ls)
  then show ?case using rem_next_char_le[of ls] by (subst skip_line.simps) auto
qed

lemma rem_newline_le: "newline ls = Inr l \<Longrightarrow> rem l \<le> rem ls"
  using rem_next_char_le[of ls] rem_next_char_le[of "next_char ls"]
  by (auto simp: newline_def Let_def rem_def split: if_splits)

lemma rem_save_next_le: "rem (save_next ls) \<le> rem ls"
  using rem_next_char_le[of "save (ls_c ls) ls"] by (simp add: save_next_def)

lemma rem_long_comment:
  assumes "long_string os sz False sep ls = Inr (r, l)"
  shows "rem l \<le> rem ls"
proof -
  obtain k where k: "(if is_eol (save_next ls) then newline (save_next ls) else Inr (save_next ls)) = Inr k"
    "long_loop False sep k = Inr l" using assms by (auto simp: long_string_def Let_def rbind_eq_Inr split: if_splits)
  show ?thesis using rem_long_loop[OF k(2)] k(1) rem_newline_le[of "save_next ls" k] rem_save_next_le[of ls]
    by (auto split: if_splits)
qed

lemma rem_scan_comment:
  assumes "scan_comment os sz ls = Inr l"
  shows "rem l \<le> rem ls"
proof (cases "ls_c ls = 0x5B")
  case True
  obtain n k where k: "skip_eq ls = (n, k)" by (cases "skip_eq ls")
  have "rem k < rem ls" using rem_skip_eq[OF _ k] True by (simp add: LEX_EOF_def)
  then show ?thesis using assms True k rem_skip_line[of "k\<lparr>ls_sb := []\<rparr>"]
    by (auto simp: scan_comment_def Let_def rbind_eq_Inr dest!: rem_long_comment split: if_splits)
next
  case False
  then show ?thesis using assms rem_skip_line[of ls] by (auto simp: scan_comment_def)
qed

lemma not_Again [simp]: "token_of r \<noteq> Inr (Again l)" "scan_dot ls \<noteq> Inr (Again l)"
  "scan_bracket os sz ls \<noteq> Inr (Again l)"
  by (auto simp: token_of_def scan_dot_def scan_bracket_def Let_def rbind_eq_Inr split: prod.splits option.splits if_splits)

lemma rem_scan_minus:
  assumes "scan_minus os sz ls = Inr (Again l)" "ls_c ls = 0x2D"
  shows "rem l < rem ls"
proof -
  have "rem l \<le> rem (next_char (next_char ls))" using assms
    by (auto simp: scan_minus_def eat_def rbind_eq_Inr split: if_splits dest: rem_scan_comment)
  moreover have "rem (next_char ls) < rem ls" using assms(2) by (intro rem_next_char) (simp add: LEX_EOF_def)
  ultimately show ?thesis using rem_next_char_le[of "next_char ls"] by linarith
qed

lemma scan_step_progress:
  assumes "scan_step os sz ls = Inr (Again l)"
  shows "rem l < rem ls"
  using assms by (auto simp: scan_step_def Let_def rbind_eq_Inr is_eol_def intro: rem_newline rem_next_char rem_scan_minus
      split: if_splits)

subsection \<open>Tokens\<close>

function scan_loop :: "os_alloc \<Rightarrow> nat \<Rightarrow> lexstate \<Rightarrow> lex_fault + (tok \<times> tokval) \<times> lexstate" where
  "scan_loop os sz ls =
     rbind (scan_step os sz ls)
       (\<lambda>r. case r of Again l1 \<Rightarrow> scan_loop os sz l1 | Token t v l1 \<Rightarrow> Inr ((t, v), l1))"
  by auto
termination
  by (relation "measure (\<lambda>(os, sz, ls). rem ls)") (auto intro: scan_step_progress)

declare scan_loop.simps [simp del]

definition scan :: "os_alloc \<Rightarrow> nat \<Rightarrow> lexstate \<Rightarrow> lex_fault + (tok \<times> tokval) \<times> lexstate" where
  "scan os sz ls = scan_loop os sz (ls\<lparr>tok_start := ls_pos ls - 1, ls_sb := []\<rparr>)"

definition lex_next :: "os_alloc \<Rightarrow> nat \<Rightarrow> lexstate \<Rightarrow> lex_fault + lexstate" where
  "lex_next os sz ls =
     (let l1 = ls\<lparr>lastline := linenumber ls\<rparr>
      in if lookahead l1 = TokEof
         then rbind (scan os sz l1) (\<lambda>((t, v), l2). Inr (l2\<lparr>ls_tok := t, ls_tokval := v\<rparr>))
         else Inr (l1\<lparr>ls_tok := lookahead l1, ls_tokval := lookaheadval l1, lookahead := TokEof\<rparr>))"

definition lex_peek :: "os_alloc \<Rightarrow> nat \<Rightarrow> lexstate \<Rightarrow> lex_fault + tok \<times> lexstate" where
  "lex_peek os sz ls =
     rbind (scan os sz ls) (\<lambda>((t, v), l2). Inr (t, l2\<lparr>lookahead := t, lookaheadval := v\<rparr>))"

definition lex_new :: "bytes \<Rightarrow> bytes \<Rightarrow> interner \<Rightarrow> lex_fault + lexstate" where
  "lex_new src name strs =
     (let l0 = next_char \<lparr>ls_src = src, ls_pos = 0, tok_start = 0, ls_c = 0, ls_tok = TokEof, ls_tokval = TOKVAL0,
                 lookahead = TokEof, lookaheadval = TOKVAL0, ls_sb = [], linenumber = 1, lastline = 1,
                 chunkname = name, ls_strs = strs\<rparr>;
          l1 = (if ls_c l0 = 0xEF \<and> ls_pos l0 + 1 < length src \<and> src ! ls_pos l0 = 0xBB \<and> src ! (ls_pos l0 + 1) = 0xBF
                then next_char (l0\<lparr>ls_pos := ls_pos l0 + 2\<rparr>) else l0)
      in if ls_c l1 = 0x23
         then let l2 = skip_line l1 in if ls_c l2 \<noteq> LEX_EOF then newline l2 else Inr l2
         else Inr l1)"

end
