(* ===== verification/LJ_Lex_Safe.thy ===== *)
theory LJ_Lex_Safe
  imports LJ_Lex
begin

text \<open>
  The lexer never panics: from a well-placed state every function returns a state further on in the
  input, with the interner untouched or extended, or a compile error. \<open>fine P r\<close> says so of a result:
  it is a compile error, or a value with \<open>P\<close>. The remaining input is \<open>rest\<close>, the view through which
  the specifications of tokens are stated.
\<close>

section \<open>The input\<close>

definition lex_ok :: "lexstate \<Rightarrow> bool" where
  "lex_ok ls \<longleftrightarrow> ls_pos ls \<le> length (ls_src ls) \<and>
     (if ls_c ls = LEX_EOF then ls_pos ls = length (ls_src ls) else 0 \<le> ls_c ls \<and> ls_c ls \<le> 255)"

definition rest :: "lexstate \<Rightarrow> bytes" where
  "rest ls = (if ls_c ls = LEX_EOF then [] else word_of_int (ls_c ls) # drop (ls_pos ls) (ls_src ls))"

lemma rest_fields [simp]: "rest (save c ls) = rest ls" "rest (ls\<lparr>ls_sb := b\<rparr>) = rest ls" "rest (ls\<lparr>ls_tokval := v\<rparr>) = rest ls"
  "rest (ls\<lparr>linenumber := n\<rparr>) = rest ls" "rest (ls\<lparr>tok_start := n\<rparr>) = rest ls" "rest (ls\<lparr>ls_strs := st\<rparr>) = rest ls"
  "rest (ls\<lparr>ls_tok := t\<rparr>) = rest ls" "rest (ls\<lparr>lastline := n\<rparr>) = rest ls"
  "rest (ls\<lparr>lookahead := t\<rparr>) = rest ls" "rest (ls\<lparr>lookaheadval := v\<rparr>) = rest ls"
  by (simp_all add: rest_def save_def)

lemma lex_ok_fields [simp]: "lex_ok (save c ls) = lex_ok ls" "lex_ok (ls\<lparr>ls_sb := b\<rparr>) = lex_ok ls"
  "lex_ok (ls\<lparr>ls_tokval := v\<rparr>) = lex_ok ls" "lex_ok (ls\<lparr>linenumber := n\<rparr>) = lex_ok ls"
  "lex_ok (ls\<lparr>tok_start := n\<rparr>) = lex_ok ls" "lex_ok (ls\<lparr>ls_strs := st\<rparr>) = lex_ok ls"
  "lex_ok (ls\<lparr>ls_tok := t\<rparr>) = lex_ok ls" "lex_ok (ls\<lparr>lastline := n\<rparr>) = lex_ok ls"
  "lex_ok (ls\<lparr>lookahead := t\<rparr>) = lex_ok ls" "lex_ok (ls\<lparr>lookaheadval := v\<rparr>) = lex_ok ls"
  by (simp_all add: lex_ok_def save_def)

lemma uint8_le: "uint (w :: u8) \<le> 255"
  using uint_lt2p[of w] by simp

lemma lex_ok_next [simp]: "lex_ok ls \<Longrightarrow> lex_ok (next_char ls)"
  using uint8_le by (auto simp: lex_ok_def next_char_def)

lemma rest_next [simp]: "lex_ok ls \<Longrightarrow> rest (next_char ls) = tl (rest ls)"
  by (auto simp: rest_def next_char_def lex_ok_def Cons_nth_drop_Suc)

lemma rem_rest: "rem ls = length (rest ls)" if "lex_ok ls"
  using that by (auto simp: rem_def rest_def lex_ok_def)

lemma c_Cons: "lex_ok ls \<Longrightarrow> rest ls = c # r \<Longrightarrow> ls_c ls = uint c"
  by (auto simp: rest_def lex_ok_def uint_word_of_int_eq take_bit_int_eq_self split: if_splits)

lemma c_Nil: "rest ls = [] \<longleftrightarrow> ls_c ls = LEX_EOF"
  by (simp add: rest_def)

section \<open>Results\<close>

definition fine :: "('a \<Rightarrow> bool) \<Rightarrow> lex_fault + 'a \<Rightarrow> bool" where
  "fine P r \<longleftrightarrow> (case r of Inr x \<Rightarrow> P x | Inl (CompileError m) \<Rightarrow> True | Inl (LexPanic p) \<Rightarrow> False)"

lemma fine_simps [simp]: "fine P (Inr x) = P x" "fine P (lex_error ls m)" "\<not> fine P (Inl (LexPanic p))"
  by (simp_all add: fine_def lex_error_def)

lemma fine_rbind: "fine P r \<Longrightarrow> (\<And>x. r = Inr x \<Longrightarrow> P x \<Longrightarrow> fine Q (f x)) \<Longrightarrow> fine Q (rbind r f)"
  by (cases r) (auto simp: fine_def[of P] fine_def[of Q "Inl _"] split: lex_fault.splits)

lemma rbind_lex_error [simp]: "rbind (lex_error ls m) f = lex_error ls m"
  by (simp add: lex_error_def)

lemma fine_mono: "fine P r \<Longrightarrow> (\<And>x. P x \<Longrightarrow> Q x) \<Longrightarrow> fine Q r"
  by (auto simp: fine_def split: sum.splits lex_fault.splits)

text \<open>Reading on: the position stays valid, nothing is given back, the interner and the look-ahead are unchanged; \<open>adv\<close> adds
  that the text collected so far only grows.\<close>

definition moves :: "lexstate \<Rightarrow> lexstate \<Rightarrow> bool" where
  "moves ls l \<longleftrightarrow> (lex_ok ls \<longrightarrow> lex_ok l) \<and> rem l \<le> rem ls \<and> ls_strs l = ls_strs ls \<and> lookahead l = lookahead ls"

definition adv :: "lexstate \<Rightarrow> lexstate \<Rightarrow> bool" where
  "adv ls l \<longleftrightarrow> moves ls l \<and> length (ls_sb ls) \<le> length (ls_sb l)"

lemma lookahead_fields [simp]: "lookahead (next_char ls) = lookahead ls" "lookahead (save c ls) = lookahead ls"
  by (simp_all add: next_char_def save_def)

lemma moves_refl [simp]: "moves ls ls" "adv ls ls"
  by (simp_all add: moves_def adv_def)

lemma moves_trans: "moves a b \<Longrightarrow> moves b c \<Longrightarrow> moves a c"
  by (auto simp: moves_def)

lemma adv_trans: "adv a b \<Longrightarrow> adv b c \<Longrightarrow> adv a c"
  by (auto simp: adv_def moves_def)

lemma adv_moves: "adv a b \<Longrightarrow> moves a b"
  by (simp add: adv_def)

lemma adv_next_char [simp]: "adv ls (next_char ls)"
  by (simp add: adv_def moves_def rem_next_char_le)

lemma adv_save [simp]: "adv ls (save c ls)"
  by (simp add: adv_def moves_def)

lemma adv_next: "adv a b \<Longrightarrow> adv a (next_char b)" and adv_saved: "adv a b \<Longrightarrow> adv a (save c b)"
  using adv_trans adv_next_char adv_save by blast+

lemma adv_save_next: "adv a b \<Longrightarrow> adv a (save_next b)"
  by (simp add: save_next_def adv_next adv_saved)

lemma adv_tokval [simp]: "adv a (b\<lparr>ls_tokval := v\<rparr>) = adv a b" "adv a (b\<lparr>linenumber := n\<rparr>) = adv a b"
  by (simp_all add: adv_def moves_def rem_def lex_ok_def)

lemmas adv_steps = adv_next adv_saved adv_save_next

lemma fine_adv: "adv a b \<Longrightarrow> fine (adv b) r \<Longrightarrow> fine (adv a) r"
  by (auto elim!: fine_mono intro: adv_trans)

lemma fine_adv_rbind: "fine (adv a) r \<Longrightarrow> (\<And>b. r = Inr b \<Longrightarrow> adv a b \<Longrightarrow> fine (adv b) (f b)) \<Longrightarrow> fine (adv a) (rbind r f)"
  by (rule fine_rbind, assumption) (auto intro: fine_adv)

section \<open>Each function reads on\<close>

lemma newline_adv: "fine (adv ls) (newline ls)"
  by (auto simp: newline_def Let_def intro!: adv_steps)

lemma skip_underscores_adv: "adv ls (skip_underscores ls)"
proof (induction ls rule: skip_underscores.induct)
  case (1 ls)
  then show ?case by (subst skip_underscores.simps) (auto simp: Let_def intro: adv_trans[OF adv_next_char])
qed

lemma binary_digits_adv: "adv ls (binary_digits ls)"
proof (induction ls rule: binary_digits.induct)
  case (1 ls)
  have "adv ls (if ls_c (next_char ls) \<noteq> 0x5F then save (ls_c (next_char ls)) (next_char ls) else next_char ls)"
    by (auto intro: adv_steps)
  with 1 show ?case by (subst binary_digits.simps) (auto simp: Let_def intro: adv_trans)
qed

lemma suffix_letters_adv: "adv ls (suffix_letters ls)"
proof (induction ls rule: suffix_letters.induct)
  case (1 ls)
  then show ?case by (subst suffix_letters.simps) (auto intro: adv_trans[OF adv_save_next[OF moves_refl(2)]])
qed

lemma number_chars_adv: "adv ls (number_chars xp c ls)"
proof (induction xp c ls rule: number_chars.induct)
  case (1 xp c ls)
  then show ?case by (subst number_chars.simps)
      (auto intro: adv_trans[OF adv_next_char] adv_trans[OF adv_next[OF adv_save]])
qed

lemma lex_number_adv: "fine (\<lambda>(n, l). adv ls l) (lex_number ls)"
proof -
  have rest: "fine (\<lambda>(n, l). adv ls l) (lex_number_rest xp k)" if "adv ls k" for xp k
    using adv_trans[OF that number_chars_adv] by (simp add: lex_number_rest_def Let_def split: option.split)
  have bin: "fine (\<lambda>(n, l). adv ls l) (lex_binary k)" if "adv ls k" for k
    using adv_trans[OF adv_trans[OF that binary_digits_adv] suffix_letters_adv]
    by (simp add: lex_binary_def Let_def split: option.split prod.split)
  have "adv ls (skip_underscores (save c ls))" for c by (rule adv_trans[OF adv_save skip_underscores_adv])
  then show ?thesis using rest bin by (simp add: lex_number_def Let_def)
qed

lemma skip_eq_loop_adv: "adv ls (snd (skip_eq_loop n ls)) \<and>
  length (ls_sb ls) + nat (fst (skip_eq_loop n ls) - n) + 1 \<le> length (ls_sb (snd (skip_eq_loop n ls))) \<and>
  n \<le> fst (skip_eq_loop n ls)"
proof (induction n ls rule: skip_eq_loop.induct)
  case (1 n ls)
  have s: "adv ls (save_next ls)" "length (ls_sb (save_next ls)) = length (ls_sb ls) + 1"
    by (simp_all add: adv_steps save_next_def)
  show ?case
  proof (cases "ls_c (save_next ls) = 0x3D \<and> n < 0x20000000")
    case True
    let ?r = "skip_eq_loop (n + 1) (save_next ls)"
    have r: "skip_eq_loop n ls = ?r" using True by (subst skip_eq_loop.simps) (simp add: Let_def)
    show ?thesis unfolding r using 1[OF refl True] s by (auto intro: adv_trans)
  next
    case False
    then have "skip_eq_loop n ls = (n, save_next ls)" by (subst skip_eq_loop.simps) (auto simp: Let_def)
    then show ?thesis using s by simp
  qed
qed

lemma skip_eq_adv:
  assumes "skip_eq ls = (n, l)"
  shows "adv ls l \<and> (0 \<le> n \<longrightarrow> length (ls_sb ls) + nat n + 1 \<le> length (ls_sb l))"
  using assms skip_eq_loop_adv[of ls 0]
  by (auto simp: skip_eq_def Let_def adv_def split: prod.splits if_splits)

lemma long_loop_adv: "fine (\<lambda>l. moves ls l \<and> (is_str \<longrightarrow> 0 \<le> sep \<longrightarrow> adv ls l \<and>
  length (ls_sb ls) + nat sep + 2 \<le> length (ls_sb l))) (long_loop is_str sep ls)"
proof (induction is_str sep ls rule: long_loop.induct)
  case (1 is_str sep ls)
  let ?P = "\<lambda>ls l. moves ls l \<and> (is_str \<longrightarrow> 0 \<le> sep \<longrightarrow> adv ls l \<and> length (ls_sb ls) + nat sep + 2 \<le> length (ls_sb l))"
  have step: "fine (?P ls) r" if "fine (?P k) r" "moves ls k" "is_str \<longrightarrow> adv ls k" for k r
    using that(1) by (rule fine_mono) (use that(2,3) in \<open>auto intro: moves_trans adv_trans simp: adv_def\<close>)
  consider (eof) "ls_c ls = LEX_EOF" | (close) "ls_c ls \<noteq> LEX_EOF" "ls_c ls = 0x5D"
    | (eol) "ls_c ls \<noteq> LEX_EOF" "ls_c ls \<noteq> 0x5D" "is_eol ls" | (plain) "ls_c ls \<noteq> LEX_EOF" "ls_c ls \<noteq> 0x5D" "\<not> is_eol ls"
    by blast
  then show ?case
  proof cases
    case eof
    then show ?thesis by (subst long_loop.simps) simp
  next
    case close
    obtain n k where k: "skip_eq ls = (n, k)" by (cases "skip_eq ls")
    note a = skip_eq_adv[OF k]
    have "length (ls_sb (save_next k)) = length (ls_sb k) + 1" by (simp add: save_next_def)
    then have "?P ls (save_next k)" if "n = sep" using a that by (auto intro: adv_save_next adv_moves)
    moreover have "fine (?P ls) (long_loop is_str sep k)" if "n \<noteq> sep"
      using 1(1)[OF close k[symmetric] that] a by (intro step[where k = k]) (auto intro: adv_moves)
    moreover have "long_loop is_str sep ls = (if n = sep then Inr (save_next k) else long_loop is_str sep k)"
      using close k by (subst long_loop.simps) simp
    ultimately show ?thesis by simp
  next
    case eol
    have "fine (?P ls) (rbind (newline (save 10 ls)) (\<lambda>l1. long_loop is_str sep (if is_str then l1 else l1\<lparr>ls_sb := []\<rparr>)))"
    proof (rule fine_rbind[OF fine_adv[OF adv_save newline_adv]])
      fix k assume k: "newline (save 10 ls) = Inr k" and a: "adv ls k"
      then have "moves ls (if is_str then k else k\<lparr>ls_sb := []\<rparr>)" by (auto simp: adv_def moves_def)
      then show "fine (?P ls) (long_loop is_str sep (if is_str then k else k\<lparr>ls_sb := []\<rparr>))"
        using 1(2)[OF eol k] a by (intro step) auto
    qed
    then show ?thesis using eol by (subst long_loop.simps) simp
  next
    case plain
    have "fine (?P ls) (long_loop is_str sep (save_next ls))"
      using 1(3)[OF plain] by (rule step) (auto intro: adv_save_next adv_moves[OF adv_save_next])
    then show ?thesis using plain by (subst long_loop.simps) simp
  qed
qed

lemma hex_escape_adv: "fine (adv ls) (hex_escape ls)"
proof -
  have x: "fine (\<lambda>_. True) (xdigit_value k)" for k by (simp add: xdigit_value_def)
  have y: "fine (adv ls) (rbind (xdigit_value (next_char (next_char ls)))
      (\<lambda>lo. Inr (next_char (save (push_bit 4 hi + lo) (next_char (next_char ls))))))" for hi
    by (rule fine_rbind[OF x]) (simp add: adv_steps)
  show ?thesis unfolding hex_escape_def Let_def by (rule fine_rbind[OF x y])
qed

lemma unicode_digits_adv: "fine (\<lambda>(d, l). adv ls l) (unicode_digits c ls)"
proof (induction c ls rule: unicode_digits.induct)
  case (1 c ls)
  have a: "fine (\<lambda>(d, l). adv ls l) r" if "fine (\<lambda>(d, l). adv (next_char ls) l) r" for r :: "lex_fault + int \<times> lexstate"
    using that by (rule fine_mono) (auto intro: adv_trans[OF adv_next_char])
  show ?case
    using 1[OF refl _ refl _ refl] a
    by (subst unicode_digits.simps) (auto simp: Let_def)
qed

lemma save_utf8_adv: "fine (adv ls) (save_utf8 c ls)"
  unfolding save_utf8_def by (auto simp: adv_steps)

lemma unicode_escape_adv: "fine (adv ls) (unicode_escape ls)"
proof -
  have "fine (adv ls) (rbind (unicode_digits 0 (next_char (next_char ls))) (\<lambda>(c, l2). save_utf8 c (next_char l2)))"
    by (rule fine_rbind[OF unicode_digits_adv])
       (auto intro: fine_adv[OF _ save_utf8_adv] adv_next adv_trans[OF adv_next[OF adv_next_char]])
  then show ?thesis by (simp add: unicode_escape_def Let_def)
qed

lemma skip_space_adv: "fine (adv ls) (skip_space ls)"
proof (induction ls rule: skip_space.induct)
  case (1 ls)
  have "fine (adv ls) (rbind (newline ls) skip_space)" if "is_space (ls_c ls)" "is_eol ls"
    using 1(1)[OF that] by (intro fine_adv_rbind[OF newline_adv])
  then show ?case using 1(2) fine_adv[OF adv_next_char] by (subst skip_space.simps) simp
qed

lemma string_escape_adv: "fine (adv ls) (string_escape ls)"
proof -
  let ?k = "next_char ls"
  have "fine (adv ls) (decimal_escape ?k)" by (auto simp: decimal_escape_def Let_def adv_steps)
  moreover have "fine (adv ls) (hex_escape ?k)" "fine (adv ls) (unicode_escape ?k)"
    using fine_adv[OF adv_next_char] hex_escape_adv unicode_escape_adv by blast+
  moreover have "fine (adv ls) (skip_space (next_char ?k))" "fine (adv ls) (newline (save 10 ?k))"
    by (auto intro: fine_adv[OF _ skip_space_adv] fine_adv[OF _ newline_adv] adv_steps adv_next_char)
  ultimately show ?thesis by (simp add: string_escape_def Let_def adv_steps split: option.split)
qed

lemma string_loop_adv: "fine (adv ls) (string_loop delim ls)"
proof (induction delim ls rule: string_loop.induct)
  case (1 delim ls)
  have "fine (adv ls) (rbind (string_escape ls) (string_loop delim))"
    if "ls_c ls \<noteq> delim" "ls_c ls \<noteq> LEX_EOF" "\<not> is_eol ls" "ls_c ls = 0x5C"
    using 1(1)[OF that] by (intro fine_adv_rbind[OF string_escape_adv])
  moreover have "adv ls (save_next ls)" by (simp add: adv_save_next)
  ultimately show ?case using 1(2) fine_adv by (subst string_loop.simps) simp
qed

lemma ident_chars_adv: "adv ls (ident_chars ls)"
proof (induction ls rule: ident_chars.induct)
  case (1 ls)
  then show ?case by (subst ident_chars.simps) (auto intro: adv_trans[OF adv_save_next[OF moves_refl(2)]])
qed

lemma skip_line_adv: "adv ls (skip_line ls)"
proof (induction ls rule: skip_line.induct)
  case (1 ls)
  then show ?case by (subst skip_line.simps) (auto intro: adv_trans[OF adv_next_char])
qed

lemma scan_operator_adv: "fine (\<lambda>(t, l). adv (next_char ls) l) (scan_operator ls)"
  by (auto simp: scan_operator_def Let_def eat_def adv_steps)

section \<open>Interning\<close>

definition ids_kept :: "interner \<Rightarrow> interner \<Rightarrow> bool" where
  "ids_kept st st' \<longleftrightarrow> interner_ok st' \<and> length (by_id st') \<le> Suc (length (by_id st)) \<and> view st \<subseteq>\<^sub>m view st'"

lemma intern_kept:
  assumes "os_ok os" and "interner_ok st" and "length (by_id st) < 2 ^ 32"
  shows "\<exists>i st'. intern os sz st s = Inr (i, st') \<and> ids_kept st st' \<and> view st' i = Some s"
proof -
  have inv: "os_ok os \<and> interner_inv st" using assms(1,2) by (simp add: interner_ok_def)
  obtain i st' where st': "intern os sz st s = Inr (i, st')" "interner_inv st'" "view st' = (view st)(i \<mapsto> s)"
    "empty_sid st' = empty_sid st" "length (by_id st') \<le> Suc (length (by_id st))"
    using intern_ok[OF assms(1) _ assms(3), of sz s] inv by blast
  have keep: "view st \<subseteq>\<^sub>m view st'"
    using strs.put_keeps[OF inv assms(3) st'(1)] by (fastforce simp: map_le_def)
  then have "view st' (empty_sid st) = Some []" using assms(2) by (metis interner_ok_def map_le_def domI)
  then have "interner_ok st'" using st'(2,4) by (simp add: interner_ok_def)
  then show ?thesis using st' keep by (auto simp: ids_kept_def)
qed

text \<open>What the lexer needs of the interner, and what a token leaves behind.\<close>

definition room :: "os_alloc \<Rightarrow> lexstate \<Rightarrow> bool" where
  "room os ls \<longleftrightarrow> os_ok os \<and> lex_ok ls \<and> interner_ok (ls_strs ls) \<and> length (by_id (ls_strs ls)) < 2 ^ 32"

definition has_text :: "tok \<Rightarrow> bool" where
  "has_text t \<longleftrightarrow> t = TokName \<or> t = TokStr"

definition scanned :: "lexstate \<Rightarrow> (tok \<times> tokval) \<times> lexstate \<Rightarrow> bool" where
  "scanned ls = (\<lambda>((t, v), l). lex_ok l \<and> rem l \<le> rem ls \<and> (t \<noteq> TokEof \<longrightarrow> rem l < rem ls) \<and>
     lookahead l = lookahead ls \<and> ids_kept (ls_strs ls) (ls_strs l) \<and> (has_text t \<longrightarrow> view (ls_strs l) (tv_str v) \<noteq> None))"

lemma lex_intern_kept:
  assumes "os_ok os" "lex_ok k" "interner_ok (ls_strs k)" "length (by_id (ls_strs k)) < 2 ^ 32"
  shows "\<exists>i l. lex_intern os sz k s = Inr (i, l) \<and> lex_ok l \<and> rest l = rest k \<and> rem l = rem k \<and> lookahead l = lookahead k \<and>
    ids_kept (ls_strs k) (ls_strs l) \<and> view (ls_strs l) i = Some s"
proof -
  obtain i st' where "intern os sz (ls_strs k) s = Inr (i, st')" "ids_kept (ls_strs k) st'" "view st' i = Some s"
    using intern_kept[OF assms(1,3,4)] by blast
  then show ?thesis using assms(2) by (simp add: lex_intern_def rem_def)
qed

lemma lex_intern_fine:
  assumes "room os ls" "moves ls k"
  shows "fine (\<lambda>(i, l). lex_ok l \<and> rem l = rem k \<and> lookahead l = lookahead ls \<and> ids_kept (ls_strs ls) (ls_strs l) \<and> view (ls_strs l) i = Some s)
    (lex_intern os sz k s)"
  using lex_intern_kept[of os k sz s] assms by (auto simp: room_def moves_def)

lemma ids_kept_refl: "room os ls \<Longrightarrow> ids_kept (ls_strs ls) (ls_strs ls)"
  by (simp add: room_def ids_kept_def)

section \<open>Tokens\<close>

lemma scanned_plain:
  assumes "room os ls" "moves ls k" "rem k < rem ls" "\<not> has_text t"
  shows "scanned ls ((t, v), k)"
  using assms ids_kept_refl[OF assms(1)] by (simp add: scanned_def moves_def room_def)

lemma adv_rem: "adv a b \<Longrightarrow> rem b \<le> rem a"
  by (simp add: adv_def moves_def)

lemma digit_not_EOF: "is_digit c \<Longrightarrow> c \<noteq> LEX_EOF" "is_digit c \<Longrightarrow> is_ident c"
  by (auto simp: is_digit_def LEX_EOF_def is_ident_def)

lemma skip_underscores_rem: "ls_c ls \<noteq> LEX_EOF \<Longrightarrow> rem (skip_underscores ls) < rem ls"
  using rem_next_char[of ls] adv_rem[OF skip_underscores_adv[of "next_char ls"]]
  by (subst skip_underscores.simps) (simp add: Let_def)

lemma number_chars_rem: "is_digit (ls_c ls) \<Longrightarrow> rem (number_chars xp c ls) < rem ls"
  using rem_next_char[of ls] rem_next_char[of "save (ls_c ls) ls"] digit_not_EOF[of "ls_c ls"]
    adv_rem[OF number_chars_adv[of "next_char ls" xp c]]
    adv_rem[OF number_chars_adv[of "next_char (save (ls_c ls) ls)" xp "ls_c ls"]]
  by (subst number_chars.simps) simp

lemma lex_number_rem:
  assumes "is_digit (ls_c ls)"
  shows "fine (\<lambda>(n, l). rem l < rem ls) (lex_number ls)"
proof -
  have tv: "rem (l\<lparr>ls_tokval := v\<rparr>) = rem l" for l v by (simp add: rem_def)
  have rest: "fine (\<lambda>(n, l). rem l < rem ls) (lex_number_rest xp k)" if "rem (number_chars xp (ls_c k) k) < rem ls" for xp k
    using that by (simp add: lex_number_rest_def Let_def tv split: option.split)
  have bin: "fine (\<lambda>(n, l). rem l < rem ls) (lex_binary k)" if "rem k < rem ls" for k
    using that adv_rem[OF binary_digits_adv[of k]] adv_rem[OF suffix_letters_adv[of "binary_digits k"]]
    by (simp add: lex_binary_def Let_def tv split: option.split prod.split)
  let ?k = "\<lambda>c. skip_underscores (save c ls)"
  have k: "rem (?k c) < rem ls" for c using skip_underscores_rem[of "save c ls"] digit_not_EOF[OF assms] by simp
  then have "rem (number_chars xp (ls_c (?k c)) (?k c)) < rem ls" for xp c
    using adv_rem[OF number_chars_adv[of "?k c"]] le_less_trans by blast
  then show ?thesis using rest bin[OF k] number_chars_rem[OF assms] by (simp add: lex_number_def Let_def)
qed

lemma fine_conj: "fine P r \<Longrightarrow> fine Q r \<Longrightarrow> fine (\<lambda>x. P x \<and> Q x) r"
  by (auto simp: fine_def split: sum.splits lex_fault.splits)

lemma scan_number_scanned:
  assumes "room os ls" "adv ls k" "is_digit (ls_c k)"
  shows "fine (scanned ls) (scan_number_token k)"
proof -
  have tv: "rem (l\<lparr>ls_tokval := v\<rparr>) = rem l" for l v by (simp add: rem_def)
  have "fine (scanned ls) (Inr ((TokNumber, w), l\<lparr>ls_tokval := u\<rparr>))" if "adv k l" "rem l < rem k" for l w u
    using that adv_rem[OF assms(2)] adv_trans[OF assms(2) that(1)]
    by (simp, intro scanned_plain[OF assms(1)]) (auto simp: tv has_text_def intro: adv_moves)
  then show ?thesis unfolding scan_number_token_def Let_def
    by (intro fine_rbind[OF fine_conj[OF lex_number_adv lex_number_rem[OF assms(3)]]]) auto
qed

lemma interned_scanned:
  assumes "room os ls" "moves ls k" "rem k < rem ls"
  shows "fine (\<lambda>(i, l). scanned ls ((t, TOKVAL0\<lparr>tv_str := i\<rparr>), l)) (lex_intern os sz k s)"
  by (rule fine_mono[OF lex_intern_fine[OF assms(1,2)]]) (use assms(3) in \<open>auto simp: scanned_def\<close>)

lemma name_scanned:
  assumes "room os ls" "is_ident (ls_c ls)"
  shows "fine (scanned ls) (scan_name_or_keyword os sz ls)"
proof -
  have "ls_c ls \<noteq> LEX_EOF" using assms(2) by (auto simp: is_ident_def LEX_EOF_def)
  then have "rem (ident_chars ls) < rem ls"
    using rem_save_next[of ls] adv_rem[OF ident_chars_adv[of "save_next ls"]] assms(2) by (subst ident_chars.simps) simp
  then show ?thesis unfolding scan_name_or_keyword_def Let_def
    by (intro fine_rbind[OF interned_scanned[OF assms(1) adv_moves[OF ident_chars_adv]]]) auto
qed

lemma slice_ok: "a \<le> b \<Longrightarrow> b \<le> length xs \<Longrightarrow> slice xs a b = Inr (take (b - a) (drop a xs))"
  by (simp add: slice_def)

lemma string_scanned:
  assumes "room os ls" "ls_c ls \<noteq> LEX_EOF"
  shows "fine (\<lambda>(i, l). scanned ls ((t, TOKVAL0\<lparr>tv_str := i\<rparr>), l)) (lex_string os sz ls)"
proof -
  have "fine (\<lambda>(i, l). scanned ls ((t, TOKVAL0\<lparr>tv_str := i\<rparr>), l))
      (let l2 = save_next k in if length (ls_sb l2) < 1 then Inl (LexPanic ArithPanic)
       else case slice (ls_sb l2) 1 (length (ls_sb l2) - 1) of Inl p \<Rightarrow> Inl (LexPanic p) | Inr s \<Rightarrow> lex_intern os sz l2 s)"
    if k: "adv (save_next ls) k" for k
  proof -
    let ?l = "save_next k"
    have a: "adv ls ?l" using adv_trans[OF adv_save_next[OF moves_refl(2)] k] by (simp add: adv_save_next)
    have len: "2 \<le> length (ls_sb ?l)" using k by (simp add: adv_def save_next_def)
    have "rem ?l < rem ls" using rem_save_next[OF assms(2)] adv_rem[OF k] rem_save_next_le[of k] by linarith
    moreover have "\<not> length (ls_sb ?l) < 1" "1 \<le> length (ls_sb ?l) - 1" using len by linarith+
    ultimately show ?thesis using interned_scanned[OF assms(1) adv_moves[OF a]]
      by (simp only: Let_def if_False slice_ok diff_le_self sum.case)
  qed
  then show ?thesis unfolding lex_string_def by (intro fine_rbind[OF string_loop_adv])
qed

lemma long_string_scanned:
  assumes "room os ls" "adv ls k" "rem k < rem ls" "0 \<le> sep" "1 + nat sep \<le> length (ls_sb k)"
  shows "fine (\<lambda>(r, l). \<exists>i. r = Some i \<and> scanned ls ((TokStr, TOKVAL0\<lparr>tv_str := i\<rparr>), l)) (long_string os sz True sep k)"
proof -
  let ?Q = "\<lambda>(r, l). \<exists>i. r = Some i \<and> scanned ls ((TokStr, TOKVAL0\<lparr>tv_str := i\<rparr>), l)"
  have fin: "fine ?Q (if length (ls_sb l) < 2 + nat sep then Inl (LexPanic ArithPanic)
      else case slice (ls_sb l) (2 + nat sep) (length (ls_sb l) - (2 + nat sep)) of Inl p \<Rightarrow> Inl (LexPanic p)
        | Inr s \<Rightarrow> rbind (lex_intern os sz l s) (\<lambda>(i, l4). Inr (Some i, l4)))"
    if l: "adv k l" "length (ls_sb k) + 1 + nat sep + 2 \<le> length (ls_sb l)" for l
  proof -
    let ?n = "2 + nat sep"
    have len: "\<not> length (ls_sb l) < ?n" "?n \<le> length (ls_sb l) - ?n" using l(2) assms(5) by linarith+
    have "fine (\<lambda>(i, l). scanned ls ((TokStr, TOKVAL0\<lparr>tv_str := i\<rparr>), l)) (lex_intern os sz l s)" for s
      using adv_rem[OF l(1)] assms(3) by (intro interned_scanned[OF assms(1) adv_moves[OF adv_trans[OF assms(2) l(1)]]]) simp
    then have "fine ?Q (rbind (lex_intern os sz l s) (\<lambda>(i, l4). Inr (Some i, l4)))" for s
      by (rule fine_rbind) auto
    then show ?thesis using len by (simp only: if_False slice_ok diff_le_self sum.case)
  qed
  let ?s = "save_next k"
  have s: "adv k ?s" "length (ls_sb ?s) = length (ls_sb k) + 1"
    by (rule adv_save_next[OF moves_refl(2)]) (simp add: save_next_def)
  have "fine ?Q (rbind (long_loop True sep m) (\<lambda>l3. if True
      then let start = 2 + nat sep in if length (ls_sb l3) < start then Inl (LexPanic ArithPanic)
        else case slice (ls_sb l3) start (length (ls_sb l3) - start) of Inl p \<Rightarrow> Inl (LexPanic p)
          | Inr s \<Rightarrow> rbind (lex_intern os sz l3 s) (\<lambda>(i, l4). Inr (Some i, l4))
      else Inr (None, l3)))" if m: "adv ?s m" for m
  proof (rule fine_rbind[OF long_loop_adv])
    fix l assume "moves m l \<and> (True \<longrightarrow> 0 \<le> sep \<longrightarrow> adv m l \<and> length (ls_sb m) + nat sep + 2 \<le> length (ls_sb l))"
    then have "adv k l" "length (ls_sb k) + 1 + nat sep + 2 \<le> length (ls_sb l)"
      using assms(4) adv_trans[OF s(1) m] m s(2) by (auto intro: adv_trans moves_trans simp: adv_def)
    from fin[OF this] show "fine ?Q (if True
      then let start = 2 + nat sep in if length (ls_sb l) < start then Inl (LexPanic ArithPanic)
        else case slice (ls_sb l) start (length (ls_sb l) - start) of Inl p \<Rightarrow> Inl (LexPanic p)
          | Inr s \<Rightarrow> rbind (lex_intern os sz l s) (\<lambda>(i, l4). Inr (Some i, l4))
      else Inr (None, l))" by (simp only: Let_def if_True)
  qed
  moreover have e: "fine (adv ?s) (if is_eol ?s then newline ?s else Inr ?s)" using newline_adv by simp
  ultimately show ?thesis unfolding long_string_def Let_def by (intro fine_rbind[OF e])
qed

lemma long_comment_moves: "fine (\<lambda>(r, l). moves ls l) (long_string os sz False sep ls)"
proof -
  let ?s = "save_next ls"
  have "fine (\<lambda>(r, l). moves ls l) (rbind (long_loop False sep m) (\<lambda>l3. Inr (None, l3)))" if "adv ?s m" for m
  proof (rule fine_rbind[OF long_loop_adv])
    fix l assume "moves m l \<and> (False \<longrightarrow> 0 \<le> sep \<longrightarrow> adv m l \<and> length (ls_sb m) + nat sep + 2 \<le> length (ls_sb l))"
    then show "fine (\<lambda>(r, l). moves ls l) (Inr (None, l))"
      using adv_moves[OF adv_trans[OF adv_save_next[OF moves_refl(2)] that]] by (auto intro: moves_trans)
  qed
  moreover have e: "fine (adv ?s) (if is_eol ?s then newline ?s else Inr ?s)" using newline_adv by simp
  ultimately show ?thesis unfolding long_string_def Let_def if_False by (intro fine_rbind[OF e])
qed

lemma moves_sb [simp]: "moves a (b\<lparr>ls_sb := s\<rparr>) = moves a b"
  by (simp add: moves_def)

lemma scan_comment_moves: "fine (moves ls) (scan_comment os sz ls)"
proof (cases "ls_c ls = 0x5B")
  case True
  obtain n k where k: "skip_eq ls = (n, k)" by (cases "skip_eq ls")
  have m: "moves ls (k\<lparr>ls_sb := []\<rparr>)" using skip_eq_adv[OF k] by (auto intro: adv_moves)
  have "fine (moves ls) (rbind (long_string os sz False n (k\<lparr>ls_sb := []\<rparr>)) (\<lambda>(_, l3). Inr (l3\<lparr>ls_sb := []\<rparr>)))"
    by (rule fine_rbind[OF long_comment_moves]) (auto intro: moves_trans[OF m])
  moreover have "moves ls (skip_line (k\<lparr>ls_sb := []\<rparr>))" by (rule moves_trans[OF m adv_moves[OF skip_line_adv]])
  ultimately show ?thesis using True k by (simp add: scan_comment_def Let_def)
next
  case False
  then show ?thesis using adv_moves[OF skip_line_adv] by (simp add: scan_comment_def)
qed

section \<open>The scanner\<close>

definition step_ok :: "lexstate \<Rightarrow> scan_out \<Rightarrow> bool" where
  "step_ok ls r = (case r of Again l \<Rightarrow> moves ls l | Token t v l \<Rightarrow> scanned ls ((t, v), l))"

lemma step_ok_simps [simp]: "step_ok ls (Again l) = moves ls l" "step_ok ls (Token t v l) = scanned ls ((t, v), l)"
  by (simp_all add: step_ok_def)

lemma token_of_fine: "fine (scanned ls) r \<Longrightarrow> fine (step_ok ls) (token_of r)"
  unfolding token_of_def by (rule fine_rbind, assumption) auto

lemma next_scanned: "room os ls \<Longrightarrow> ls_c ls \<noteq> LEX_EOF \<Longrightarrow> adv (next_char ls) k \<Longrightarrow> \<not> has_text t \<Longrightarrow> scanned ls ((t, v), k)"
  using rem_next_char[of ls] adv_rem[of "next_char ls" k]
  by (intro scanned_plain) (auto intro: adv_moves adv_trans[OF adv_next_char])

lemma scan_minus_ok: "room os ls \<Longrightarrow> ls_c ls = 0x2D \<Longrightarrow> fine (step_ok ls) (scan_minus os sz ls)"
proof -
  assume a: "room os ls" "ls_c ls = 0x2D"
  then have ne: "ls_c ls \<noteq> LEX_EOF" by (simp add: LEX_EOF_def)
  have c: "fine (step_ok ls) (rbind (scan_comment os sz (next_char (next_char ls))) (\<lambda>l4. Inr (Again l4)))"
    by (rule fine_rbind[OF scan_comment_moves]) (auto intro: moves_trans[OF adv_moves[OF adv_next[OF adv_next_char]]])
  show ?thesis using c next_scanned[OF a(1) ne]
    by (auto simp: scan_minus_def eat_def has_text_def adv_steps split: if_splits)
qed

lemma scan_bracket_ok: "room os ls \<Longrightarrow> ls_c ls = 0x5B \<Longrightarrow> fine (step_ok ls) (scan_bracket os sz ls)"
proof -
  assume a: "room os ls" "ls_c ls = 0x5B"
  obtain n k where k: "skip_eq ls = (n, k)" by (cases "skip_eq ls")
  have r: "rem k < rem ls" using rem_skip_eq[OF _ k] a(2) by (simp add: LEX_EOF_def)
  note e = skip_eq_adv[OF k]
  have "fine (step_ok ls) (rbind (long_string os sz True n k) (\<lambda>(r, l2). case r of None \<Rightarrow> Inl (LexPanic (AssertPanic ''unwrap on None''))
      | Some i \<Rightarrow> Inr (Token TokStr (TOKVAL0\<lparr>tv_str := i\<rparr>) l2)))" if "0 \<le> n"
    using that e by (intro fine_rbind[OF long_string_scanned[OF a(1) _ r that]]) auto
  moreover have "scanned ls ((TokChar 0x5B, TOKVAL0), k)"
    using e by (intro scanned_plain[OF a(1) _ r]) (auto simp: has_text_def intro: adv_moves)
  ultimately show ?thesis using k by (simp add: scan_bracket_def)
qed

lemma scan_dot_ok: "room os ls \<Longrightarrow> ls_c ls = 0x2E \<Longrightarrow> fine (step_ok ls) (scan_dot ls)"
proof -
  assume a: "room os ls" "ls_c ls = 0x2E"
  then have ne: "ls_c ls \<noteq> LEX_EOF" by (simp add: LEX_EOF_def)
  have "scanned ls ((t, v), k)" if "adv (save_next ls) k" "\<not> has_text t" for t v k
    using rem_save_next[OF ne] adv_rem[OF that(1)] adv_trans[OF adv_save_next[OF moves_refl(2)] that(1)] that(2)
    by (intro scanned_plain[OF a(1)]) (auto intro: adv_moves)
  then show ?thesis using scan_number_scanned[OF a(1) adv_save_next[OF moves_refl(2)]]
    by (auto simp: scan_dot_def Let_def eat_def has_text_def adv_steps split: if_splits intro!: token_of_fine)
qed

lemma scan_step_ok:
  assumes "room os ls"
  shows "fine (step_ok ls) (scan_step os sz ls)"
proof (cases "is_ident (ls_c ls) \<or> ls_c ls = LEX_EOF")
  case True
  have "scanned ls ((TokEof, TOKVAL0), ls)"
    using assms ids_kept_refl[OF assms] by (simp add: scanned_def has_text_def room_def)
  moreover have "\<not> is_digit LEX_EOF" "\<not> is_ident LEX_EOF" by (simp_all add: is_digit_def is_ident_def LEX_EOF_def)
  ultimately show ?thesis using True name_scanned[OF assms] scan_number_scanned[OF assms moves_refl(2)] assms
    by (auto simp: scan_step_def Let_def intro!: token_of_fine)
next
  case False
  then have ne: "ls_c ls \<noteq> LEX_EOF" "\<not> is_digit (ls_c ls)" using digit_not_EOF by auto
  have "fine (step_ok ls) (rbind (newline ls) (\<lambda>l1. Inr (Again l1)))"
    by (rule fine_rbind[OF newline_adv]) (auto intro: adv_moves)
  moreover have "fine (step_ok ls) (rbind (lex_string os sz ls) (\<lambda>(i, l1). Inr (Token TokStr (TOKVAL0\<lparr>tv_str := i\<rparr>) l1)))"
    by (rule fine_rbind[OF string_scanned[OF assms ne(1)]]) auto
  moreover have "fine (\<lambda>(t, l). \<not> has_text t) (scan_operator ls)"
    by (auto simp: scan_operator_def Let_def eat_def has_text_def)
  then have "fine (step_ok ls) (rbind (scan_operator ls) (\<lambda>(t, l1). Inr (Token t TOKVAL0 l1)))"
    by (rule fine_rbind[OF fine_conj[OF scan_operator_adv]]) (auto intro: next_scanned[OF assms ne(1)])
  ultimately show ?thesis
    using False ne scan_minus_ok[OF assms] scan_bracket_ok[OF assms] scan_dot_ok[OF assms] adv_moves[OF adv_next_char]
    by (simp add: scan_step_def Let_def)
qed

lemma scanned_after: "moves ls k \<Longrightarrow> scanned k r \<Longrightarrow> scanned ls r"
  by (auto simp: scanned_def moves_def)

lemma room_moves: "room os ls \<Longrightarrow> moves ls k \<Longrightarrow> room os k"
  by (simp add: room_def moves_def)

lemma scan_loop_ok: "room os ls \<Longrightarrow> fine (scanned ls) (scan_loop os sz ls)"
proof (induction os sz ls rule: scan_loop.induct)
  case (1 os sz ls)
  have "fine (scanned ls) (case r of Again l1 \<Rightarrow> scan_loop os sz l1 | Token t v l1 \<Rightarrow> Inr ((t, v), l1))"
    if r: "scan_step os sz ls = Inr r" "step_ok ls r" for r
  proof (cases r)
    case (Again l)
    then have "moves ls l" using r(2) by simp
    then show ?thesis using 1(1)[OF r(1) Again] room_moves[OF 1(2)] Again
      by (auto elim!: fine_mono intro: scanned_after)
  qed (use r in simp)
  then show ?case by (subst scan_loop.simps) (rule fine_rbind[OF scan_step_ok[OF 1(2)]])
qed

lemma scan_ok: "room os ls \<Longrightarrow> fine (scanned ls) (scan os sz ls)"
proof -
  assume r: "room os ls"
  let ?k = "ls\<lparr>tok_start := ls_pos ls - 1, ls_sb := []\<rparr>"
  have m: "moves ls ?k" by (simp add: moves_def rem_def)
  show ?thesis unfolding scan_def
    by (rule fine_mono[OF scan_loop_ok[OF room_moves[OF r m]] scanned_after[OF m]])
qed

lemma lex_new_ok: "fine (\<lambda>l. lex_ok l \<and> ls_strs l = strs \<and> lookahead l = TokEof \<and> rem l \<le> length src + 1) (lex_new src name strs)"
proof -
  let ?i = "\<lparr>ls_src = src, ls_pos = 0, tok_start = 0, ls_c = 0, ls_tok = TokEof, ls_tokval = TOKVAL0,
                 lookahead = TokEof, lookaheadval = TOKVAL0, ls_sb = [], linenumber = 1, lastline = 1,
                 chunkname = name, ls_strs = strs\<rparr>"
  let ?Q = "\<lambda>l. lex_ok l \<and> ls_strs l = strs \<and> lookahead l = TokEof \<and> rem l \<le> length src + 1"
  have q: "?Q l" if "?Q k" "moves k l" for k l using that by (auto simp: moves_def)
  define l0 where "l0 = next_char ?i"
  have "?Q ?i" by (simp add: lex_ok_def rem_def LEX_EOF_def)
  then have q0: "?Q l0" unfolding l0_def by (rule q[OF _ adv_moves[OF adv_next_char]])
  have src: "ls_src l0 = src" by (simp add: l0_def)
  define l1 where "l1 = (if ls_c l0 = 0xEF \<and> ls_pos l0 + 1 < length src \<and> src ! ls_pos l0 = 0xBB \<and> src ! (ls_pos l0 + 1) = 0xBF
                then next_char (l0\<lparr>ls_pos := ls_pos l0 + 2\<rparr>) else l0)"
  have "?Q (l0\<lparr>ls_pos := ls_pos l0 + 2\<rparr>)" if "ls_c l0 = 0xEF" "ls_pos l0 + 1 < length src"
    using q0 that src by (auto simp: lex_ok_def rem_def LEX_EOF_def)
  then have q1: "?Q l1" using q0 q[OF _ adv_moves[OF adv_next_char]] unfolding l1_def by auto
  have q2: "?Q (skip_line l1)" by (rule q[OF q1 adv_moves[OF skip_line_adv]])
  have "fine ?Q (newline (skip_line l1))" by (rule fine_mono[OF newline_adv]) (rule q[OF q2 adv_moves])
  then show ?thesis using q1 q2 unfolding lex_new_def Let_def l0_def[symmetric] l1_def[symmetric] by simp
qed

end
