(* ===== verification/LJ_Lex_Spec.thy ===== *)
theory LJ_Lex_Spec
  imports LJ_Lex_Safe LJ_Strscan_Spec
begin

text \<open>
  The properties of the lexer. Reading all tokens of a chunk ends, without panicking, at the end-of-file
  token or in a compile error; names, keywords, operators, integers and quoted strings are read back from
  their spelling.
\<close>

section \<open>All tokens of a chunk\<close>

text \<open>A client that calls \<open>next\<close> until the end of the file, at most \<open>n\<close> times; \<open>None\<close> when that is not
  enough.\<close>

fun lex_all :: "os_alloc \<Rightarrow> nat \<Rightarrow> nat \<Rightarrow> lexstate \<Rightarrow> (lex_fault + lexstate) option" where
  "lex_all os sz 0 ls = None"
| "lex_all os sz (Suc n) ls =
     (case lex_next os sz ls of
        Inl e \<Rightarrow> Some (Inl e)
      | Inr l \<Rightarrow> if ls_tok l = TokEof then Some (Inr l) else lex_all os sz n l)"

lemma lex_next_ok:
  assumes "room os ls" "lookahead ls = TokEof"
  shows "fine (\<lambda>l. lex_ok l \<and> lookahead l = TokEof \<and> ids_kept (ls_strs ls) (ls_strs l) \<and>
    (ls_tok l \<noteq> TokEof \<longrightarrow> rem l < rem ls) \<and> (has_text (ls_tok l) \<longrightarrow> view (ls_strs l) (tv_str (ls_tokval l)) \<noteq> None))
    (lex_next os sz ls)" (is "fine ?Q _")
proof -
  let ?k = "ls\<lparr>lastline := linenumber ls\<rparr>"
  have k: "moves ls ?k" by (simp add: moves_def rem_def)
  have "fine ?Q (Inr (l\<lparr>ls_tok := t, ls_tokval := v\<rparr>))" if "scanned ls ((t, v), l)" for t v l
    using that assms(2) by (auto simp: scanned_def rem_def)
  moreover have "fine (scanned ls) (scan os sz ?k)"
    by (rule fine_mono[OF scan_ok[OF room_moves[OF assms(1) k]] scanned_after[OF k]])
  ultimately have "fine ?Q (rbind (scan os sz ?k) (\<lambda>((t, v), l2). Inr (l2\<lparr>ls_tok := t, ls_tokval := v\<rparr>)))"
    by (auto intro!: fine_rbind[of "scanned ls"])
  then show ?thesis using assms(2) by (simp add: lex_next_def Let_def)
qed

lemma lex_all_ends:
  assumes "room os ls" "lookahead ls = TokEof" "rem ls < n" "length (by_id (ls_strs ls)) + n \<le> 2 ^ 32"
  shows "\<exists>r. lex_all os sz n ls = Some r \<and> fine (\<lambda>l. interner_ok (ls_strs l) \<and> ls_tok l = TokEof) r"
  using assms
proof (induction n arbitrary: ls)
  case (Suc n)
  show ?case
  proof (cases "lex_next os sz ls")
    case (Inl e)
    then show ?thesis using lex_next_ok[OF Suc.prems(1,2), of sz] by (cases e) (auto simp: fine_def)
  next
    case (Inr l)
    then have l: "lex_ok l" "lookahead l = TokEof" "ids_kept (ls_strs ls) (ls_strs l)" "ls_tok l \<noteq> TokEof \<longrightarrow> rem l < rem ls"
      using lex_next_ok[OF Suc.prems(1,2), of sz] by auto
    have "room os l" if "ls_tok l \<noteq> TokEof"
      using l Suc.prems that by (auto simp: room_def ids_kept_def)
    then show ?thesis using Inr l Suc.IH[of l] Suc.prems(3,4) by (auto simp: ids_kept_def)
  qed
qed simp

section \<open>Properties\<close>

text \<open>C35. The lexer always reaches the end of its input: a client that calls \<open>next\<close> on any source text,
  two times more than the text has bytes, sees the end-of-file token or a compile error, never a panic,
  and the interner stays well formed.\<close>

theorem lexer_reaches_eof:
  assumes "os_ok os" and "interner_ok strs" and "length (by_id strs) + length src + 2 \<le> 2 ^ 32"
  shows "\<exists>r. (case lex_new src name strs of Inl e \<Rightarrow> Some (Inl e) | Inr ls \<Rightarrow> lex_all os sz (length src + 2) ls) = Some r \<and>
    (case r of Inl (CompileError m) \<Rightarrow> True | Inl (LexPanic p) \<Rightarrow> False
     | Inr l \<Rightarrow> interner_ok (ls_strs l) \<and> ls_tok l = TokEof)"
proof (cases "lex_new src name strs")
  case (Inl e)
  then show ?thesis using lex_new_ok[of strs src name] by (cases e) (auto simp: fine_def)
next
  case (Inr ls)
  then have ls: "lex_ok ls" "ls_strs ls = strs" "rem ls \<le> length src + 1" "lookahead ls = TokEof"
    using lex_new_ok[of strs src name] by auto
  then have "room os ls" using assms by (simp add: room_def)
  from lex_all_ends[OF this ls(4), of "length src + 2" sz] ls assms(3) Inr show ?thesis by (auto simp: fine_def)
qed

theorem lexer_reaches_eof_witness:
  "\<exists>st r. interner_new first_fit 56 no_mem = Inr st \<and>
    (case lex_new [0x78] [] st of Inl e \<Rightarrow> Some (Inl e) | Inr ls \<Rightarrow> lex_all first_fit 56 3 ls) = Some r \<and>
    (case r of Inl (CompileError m) \<Rightarrow> True | Inl (LexPanic p) \<Rightarrow> False
     | Inr l \<Rightarrow> interner_ok (ls_strs l) \<and> ls_tok l = TokEof)"
proof -
  obtain st where st: "interner_new first_fit 56 no_mem = Inr st" "interner_ok st" "length (by_id st) \<le> 1"
    using interner_new_ok[OF first_fit_ok] by blast
  have "length (by_id st) + length [0x78 :: u8] + 2 \<le> 2 ^ 32" using st(3) by simp
  moreover have len: "length [0x78 :: u8] + 2 = 3" by simp
  ultimately show ?thesis using lexer_reaches_eof[OF first_fit_ok st(2), of "[0x78]" 56 "[]", unfolded len] st(1) by auto
qed

section \<open>Reading through the view\<close>

definition lex_at :: "lexstate \<Rightarrow> bytes \<Rightarrow> bytes \<Rightarrow> bool" where
  "lex_at ls sb r \<longleftrightarrow> lex_ok ls \<and> ls_sb ls = sb \<and> rest ls = r"

lemma lex_at_c: "lex_at ls sb (c # r) \<Longrightarrow> ls_c ls = uint c"
  by (auto simp: lex_at_def c_Cons)

lemma lex_at_eof: "lex_at ls sb [] \<Longrightarrow> ls_c ls = LEX_EOF"
  by (simp add: lex_at_def c_Nil)

lemma lex_at_next: "lex_at ls sb (c # r) \<Longrightarrow> lex_at (next_char ls) sb r"
  by (simp add: lex_at_def)

lemma lex_at_save: "lex_at ls sb r \<Longrightarrow> lex_at (save c ls) (sb @ [word_of_int c]) r"
  by (simp add: lex_at_def)

lemma lex_at_save_next: "lex_at ls sb (c # r) \<Longrightarrow> lex_at (save_next ls) (sb @ [c]) r"
  using lex_at_next[OF lex_at_save[of ls sb "c # r" "ls_c ls"]] lex_at_c[of ls sb c r] by (simp add: save_next_def)

lemma lex_at_room: "room os ls \<Longrightarrow> rest ls = r \<Longrightarrow> lex_at (ls\<lparr>tok_start := n, ls_sb := []\<rparr>) [] r"
  by (simp add: lex_at_def room_def)

text \<open>A text ends here: the next byte, if any, does not satisfy \<open>P\<close>.\<close>

definition stops :: "(int \<Rightarrow> bool) \<Rightarrow> bytes \<Rightarrow> bool" where
  "stops P r \<longleftrightarrow> (case r of [] \<Rightarrow> True | c # _ \<Rightarrow> \<not> P (uint c))"

lemma stops_c: "lex_at ls sb r \<Longrightarrow> stops P r \<Longrightarrow> \<not> P LEX_EOF \<Longrightarrow> \<not> P (ls_c ls)"
  by (cases r) (auto simp: stops_def lex_at_c lex_at_eof)

lemma eof_not_ident: "\<not> is_ident LEX_EOF"
  by (simp add: is_ident_def LEX_EOF_def)

lemma ident_chars_at:
  "lex_at ls sb (w @ r) \<Longrightarrow> \<forall>c\<in>set w. is_ident (uint c) \<Longrightarrow> stops is_ident r \<Longrightarrow>
    lex_at (ident_chars ls) (sb @ w) r \<and> ls_strs (ident_chars ls) = ls_strs ls"
proof (induction w arbitrary: ls sb)
  case Nil
  then have "\<not> is_ident (ls_c ls)" using stops_c[of ls sb r is_ident] eof_not_ident by simp
  then have "ident_chars ls = ls" by (subst ident_chars.simps) simp
  then show ?case using Nil by simp
next
  case (Cons c w)
  then have "is_ident (ls_c ls)" using lex_at_c[of ls sb c "w @ r"] by simp
  then have "ident_chars ls = ident_chars (save_next ls)" by (subst ident_chars.simps) simp
  then show ?case using Cons.IH[of "save_next ls" "sb @ [c]"] lex_at_save_next[of ls sb c "w @ r"] Cons.prems
    by (simp add: save_next_def)
qed

text \<open>A scan that returns in its first round.\<close>

lemma scan_first:
  assumes "scan_step os sz (ls\<lparr>tok_start := ls_pos ls - 1, ls_sb := []\<rparr>) = Inr (Token t v l)"
  shows "scan os sz ls = Inr ((t, v), l)"
  using assms by (simp add: scan_def scan_loop.simps)

section \<open>Names and keywords\<close>

lemma scan_word:
  assumes "room os ls" "rest ls = w @ r" "w \<noteq> []" "\<forall>c\<in>set w. is_ident (uint c)" "\<not> is_digit (uint (hd w))" "stops is_ident r"
  shows "\<exists>i l. scan os sz ls = Inr ((keyword w, TOKVAL0\<lparr>tv_str := i\<rparr>), l) \<and> lex_ok l \<and> rest l = r \<and> view (ls_strs l) i = Some w"
proof -
  let ?k = "ls\<lparr>tok_start := ls_pos ls - 1, ls_sb := []\<rparr>"
  have at: "lex_at ?k [] (w @ r)" using lex_at_room[OF assms(1,2)] .
  have e: "lex_at (ident_chars ?k) w r" "ls_strs (ident_chars ?k) = ls_strs ls"
    using ident_chars_at[OF at assms(4,6)] by auto
  have c: "ls_c ?k = uint (hd w)" using at assms(3) by (cases w) (auto dest: lex_at_c)
  then have d: "is_ident (ls_c ?k)" "\<not> is_digit (ls_c ?k)" using assms(3,4,5) by (auto simp: hd_in_set)
  obtain i l where l: "lex_intern os sz (ident_chars ?k) w = Inr (i, l)" "rest l = rest (ident_chars ?k)" "lex_ok l"
    "view (ls_strs l) i = Some w"
    using lex_intern_kept[of os "ident_chars ?k" sz w] assms(1) e by (auto simp: room_def lex_at_def)
  have "scan_step os sz ?k = Inr (Token (keyword w) (TOKVAL0\<lparr>tv_str := i\<rparr>) l)"
    using l(1) d e(1) by (simp add: scan_step_def token_of_def scan_name_or_keyword_def lex_at_def Let_def)
  from scan_first[OF this] show ?thesis using l e(1) by (auto simp: lex_at_def)
qed

section \<open>Spellings\<close>

text \<open>The tokens that have one spelling: keywords, operators and single printable characters.\<close>

definition spelled :: "tok \<Rightarrow> bool" where
  "spelled t \<longleftrightarrow> (case t of TokChar c \<Rightarrow> 32 < c \<and> c < 127 \<and> \<not> is_ident (uint c) \<and> c \<noteq> 0x22 \<and> c \<noteq> 0x27
     | _ \<Rightarrow> t \<notin> {TokNumber, TokName, TokStr, TokEof})"

definition is_keyword :: "tok \<Rightarrow> bool" where
  "is_keyword t \<longleftrightarrow> t \<in> snd ` set KEYWORDS"

lemma find_distinct: "distinct (map fst xs) \<Longrightarrow> (s, t) \<in> set xs \<Longrightarrow> find (\<lambda>(kw, t). kw = s) xs = Some (s, t)"
  by (induction xs) (auto simp: rev_image_eqI)

lemma KEYWORDS_ok: "list_all (\<lambda>(s, t). tok2str t = s) KEYWORDS"
  "list_all (\<lambda>(s, t). list_all (\<lambda>c. is_ident (uint c)) s) KEYWORDS"
  "list_all (\<lambda>(s, t). s \<noteq> [] \<and> \<not> is_digit (uint (hd s))) KEYWORDS" "distinct (map fst KEYWORDS)"
  by (simp_all add: KEYWORDS_def is_digit_def is_ident_def byte_string_def byte_def)

lemma keyword_spelling:
  assumes "is_keyword t"
  shows "keyword (tok2str t) = t" "\<forall>c\<in>set (tok2str t). is_ident (uint c)" "tok2str t \<noteq> []"
    "\<not> is_digit (uint (hd (tok2str t)))"
proof -
  obtain s where st: "(s, t) \<in> set KEYWORDS" using assms by (auto simp: is_keyword_def)
  then have s: "tok2str t = s" using KEYWORDS_ok(1) by (auto simp: list_all_iff)
  show "keyword (tok2str t) = t" using find_distinct[OF KEYWORDS_ok(4) st] by (simp add: keyword_def s)
  show "\<forall>c\<in>set (tok2str t). is_ident (uint c)" using KEYWORDS_ok(2) st s by (auto simp: list_all_iff)
  show "tok2str t \<noteq> []" "\<not> is_digit (uint (hd (tok2str t)))" using KEYWORDS_ok(3) st s by (auto simp: list_all_iff)
qed

lemma c_rest: "lex_ok ls \<Longrightarrow> ls_c ls = (case rest ls of [] \<Rightarrow> LEX_EOF | c # _ \<Rightarrow> uint c)"
  by (auto simp: c_Cons c_Nil split: list.split)

lemmas operator_simps = scan_step_def scan_operator_def scan_minus_def scan_dot_def eat_def Let_def byte_string_def byte_def
  is_digit_def is_ident_def LEX_EOF_def c_rest save_next_def

lemma operator_step:
  assumes "lex_ok k" "rest k = tok2str t @ 0x20 # r" "spelled t" "\<not> is_keyword t" "\<nexists>c. t = TokChar c"
  shows "\<exists>v l. scan_step os sz k = Inr (Token t v l) \<and> rest l = 0x20 # r"
  using assms by (cases t) (simp_all add: operator_simps spelled_def is_keyword_def KEYWORDS_def)

lemma uint_eq_iff: "uint (c :: u8) = k \<longleftrightarrow> 0 \<le> k \<and> k < 256 \<and> c = word_of_int k"
  using uint_lt2p[of c] by (auto simp: uint_word_of_int_eq take_bit_int_eq_self)

lemma uint_eq_numeral: "uint (c :: u8) = numeral n \<longleftrightarrow> (numeral n :: int) < 256 \<and> c = numeral n"
  by (simp add: uint_eq_iff)

lemma skip_eq_single:
  assumes "lex_ok k" "rest k = 0x5B # 0x20 # r"
  shows "\<exists>l. skip_eq k = (- 1, l) \<and> rest l = 0x20 # r"
proof -
  have "ls_c (save_next k) \<noteq> 0x3D" "ls_c k = 0x5B" "ls_c (save_next k) = 0x20" using assms by (simp_all add: c_rest save_next_def)
  then show ?thesis using assms by (subst skip_eq_def, subst skip_eq_loop.simps) (simp add: Let_def save_next_def)
qed

lemma char_step:
  assumes "lex_ok k" "rest k = c # 0x20 # r" "spelled (TokChar c)"
  shows "\<exists>v l. scan_step os sz k = Inr (Token (TokChar c) v l) \<and> rest l = 0x20 # r"
proof -
  have c: "32 < c" "c < 127" "\<not> is_ident (uint c)" "c \<noteq> 0x22" "c \<noteq> 0x27" using assms(3) by (auto simp: spelled_def)
  have d: "\<not> is_digit (uint c)" using c(3) digit_not_EOF(2) by blast
  have "uint c \<noteq> 10" "uint c \<noteq> 13" "uint c \<noteq> 32" "uint c \<noteq> 9" "uint c \<noteq> 11" "uint c \<noteq> 12" "uint c \<noteq> LEX_EOF"
    using c(1) by (auto simp: uint_eq_numeral)
  then show ?thesis
    using assms c(3-5) d skip_eq_single[of k r]
    by (auto simp: scan_step_def scan_operator_def scan_minus_def scan_dot_def scan_bracket_def eat_def Let_def c_rest
        save_next_def uint_eq_numeral is_digit_def)
qed

section \<open>Integers\<close>

definition number_char :: "int \<Rightarrow> bool" where
  "number_char c \<longleftrightarrow> is_ident c \<or> c = 0x2E"

lemma digit_byte_uint: "is_ascii_digit c \<longleftrightarrow> is_digit (uint c)"
  by (simp add: is_ascii_digit_def is_digit_def word_le_def)

lemma digit_or: "is_digit c \<Longrightarrow> c OR 0x20 = c"
proof -
  assume "is_digit c"
  then have "c \<in> {0x30, 0x31, 0x32, 0x33, 0x34, 0x35, 0x36, 0x37, 0x38, 0x39}"
    unfolding is_digit_def by (simp, presburger)
  then show ?thesis by auto
qed

lemma or_letter:
  assumes "c = LEX_EOF \<or> is_digit c \<or> \<not> number_char c" "k \<in> {0x62, 0x65, 0x78}"
  shows "c OR 0x20 \<noteq> k"
proof
  assume k: "c OR 0x20 = k"
  have "c OR 0x20 = set_bit 5 c" by (simp add: set_bit_eq_or)
  also have "\<dots> = c + of_bool (\<not> bit c 5) * 2 ^ 5" by (rule set_bit_eq)
  finally have "c = k \<or> c = k - 32" using k by (cases "bit c 5") auto
  then show False using assms by (auto simp: number_char_def is_ident_def is_digit_def LEX_EOF_def)
qed

lemma eof_not_number: "\<not> number_char LEX_EOF"
  using eof_not_ident by (simp add: number_char_def LEX_EOF_def)

lemma number_chars_at:
  "lex_at ls sb (ds @ r) \<Longrightarrow> list_all is_ascii_digit ds \<Longrightarrow> stops number_char r \<Longrightarrow> c OR 0x20 \<noteq> xp \<Longrightarrow> \<not> is_digit xp \<Longrightarrow>
    lex_at (number_chars xp c ls) (sb @ ds) r"
proof (induction ds arbitrary: ls sb c)
  case Nil
  then have "\<not> number_char (ls_c ls)"
    using stops_c[of ls sb r number_char] eof_not_number by simp
  then have "number_chars xp c ls = ls" using Nil by (subst number_chars.simps) (auto simp: number_char_def)
  then show ?case using Nil by simp
next
  case (Cons d ds)
  have c: "ls_c ls = uint d" "is_digit (uint d)" using lex_at_c[of ls sb d "ds @ r"] Cons.prems by (auto simp: digit_byte_uint)
  then have "number_chars xp c ls = number_chars xp (uint d) (save_next ls)"
    using digit_not_EOF(2) by (subst number_chars.simps) (auto simp: save_next_def is_digit_def)
  then show ?case using Cons.IH[of "save_next ls" "sb @ [d]" "uint d"] lex_at_save_next[of ls sb d "ds @ r"] Cons.prems c(2)
    by (auto simp: digit_or)
qed

lemma lex_number_digits:
  assumes "lex_at ls [] (ds @ r)" "list_all is_ascii_digit ds" "ds \<noteq> []" "stops number_char r"
  shows "\<exists>l. lex_number ls = Inr (f64_of_u64 (word_of_nat (digits_value ds)), l) \<and> rest l = r"
proof -
  have fin: "\<exists>l. lex_number_rest xp k = Inr (f64_of_u64 (word_of_nat (digits_value ds)), l) \<and> rest l = r"
    if "lex_at (number_chars xp (ls_c k) k) ds r" for xp k
    using that scan_full_digits[OF assms(2,3)] by (simp add: lex_number_rest_def lex_at_def Let_def)
  obtain d es where ds: "ds = d # es" using assms(3) by (cases ds) auto
  have c: "ls_c ls = uint d" "is_digit (uint d)" using lex_at_c[of ls "[]" d "es @ r"] assms ds by (auto simp: digit_byte_uint)
  show ?thesis
  proof (cases "uint d = 0x30")
    case False
    have "lex_at (number_chars 0x65 (ls_c ls) ls) ([] @ ds) r"
      using c by (intro number_chars_at[OF assms(1,2,4)]) (auto simp: digit_or is_digit_def)
    then show ?thesis using fin c(1) False by (simp add: lex_number_def)
  next
    case True
    let ?s = "save (ls_c ls) ls"
    have s: "lex_at ?s [d] (d # es @ r)" using lex_at_save[OF assms(1), of "ls_c ls"] c(1) ds by simp
    have n: "lex_at (next_char ?s) [d] (es @ r)" by (rule lex_at_next[OF s])
    have nc: "(ls_c (next_char ?s) = LEX_EOF \<or> is_digit (ls_c (next_char ?s)) \<or> \<not> number_char (ls_c (next_char ?s)))"
    proof (cases es)
      case Nil
      then show ?thesis using stops_c[of "next_char ?s" "[d]" r number_char] n assms(4) eof_not_number by auto
    next
      case (Cons a b)
      then show ?thesis using lex_at_c[of "next_char ?s" "[d]" a "b @ r"] n assms(2) ds by (auto simp: digit_byte_uint)
    qed
    then have u: "skip_underscores ?s = next_char ?s"
      by (subst skip_underscores.simps) (auto simp: Let_def number_char_def is_ident_def is_digit_def LEX_EOF_def)
    have "lex_at (number_chars 0x65 (ls_c (next_char ?s)) (next_char ?s)) ([d] @ es) r"
      using assms(2) ds or_letter[OF nc] by (intro number_chars_at[OF n _ assms(4)]) (auto simp: is_digit_def)
    then show ?thesis using fin c(1) True u or_letter[OF nc] ds by (simp add: lex_number_def Let_def)
  qed
qed

section \<open>Properties of tokens\<close>

text \<open>C36. Every keyword, operator and single-character token is read back from its spelling: scanning
  \<open>tok2str t\<close> followed by a space returns \<open>t\<close> and stops at the space.\<close>

theorem spelling_roundtrip:
  assumes "room os ls" and "spelled t" and "rest ls = tok2str t @ 0x20 # r"
  shows "\<exists>v l. scan os sz ls = Inr ((t, v), l) \<and> rest l = 0x20 # r"
proof (cases "is_keyword t")
  case True
  note k = keyword_spelling[OF True]
  have "stops is_ident (0x20 # r)" by (simp add: stops_def is_ident_def)
  from scan_word[OF assms(1,3) k(3,2,4) this, of sz] k(1) show ?thesis by auto
next
  case False
  let ?k = "ls\<lparr>tok_start := ls_pos ls - 1, ls_sb := []\<rparr>"
  have k: "lex_ok ?k" "rest ?k = tok2str t @ 0x20 # r" using assms by (auto simp: room_def)
  have "\<exists>v l. scan_step os sz ?k = Inr (Token t v l) \<and> rest l = 0x20 # r"
  proof (cases "\<exists>c. t = TokChar c")
    case True
    then obtain c where c: "t = TokChar c" ..
    have "32 < c" "c < 127" using assms(2) c by (auto simp: spelled_def)
    then have "tok2str t = [c]" using c by (auto simp: word_less_nat_alt)
    then show ?thesis using char_step[OF k(1)] k(2) assms(2) c by simp
  next
    case False
    then show ?thesis using operator_step[OF k assms(2) \<open>\<not> is_keyword t\<close>] by simp
  qed
  then show ?thesis using scan_first by blast
qed

theorem spelling_roundtrip_witness:
  "\<exists>st ls v l. interner_new first_fit 56 no_mem = Inr st \<and> lex_new [0x7E, 0x3E, 0x3E, 0x20] [] st = Inr ls \<and>
    scan first_fit 56 ls = Inr ((TokSar, v), l) \<and> rest l = [0x20]"
proof -
  obtain st where st: "interner_new first_fit 56 no_mem = Inr st" "interner_ok st" "length (by_id st) \<le> 1"
    using interner_new_ok[OF first_fit_ok] by blast
  define ls where "ls = next_char \<lparr>ls_src = [0x7E, 0x3E, 0x3E, 0x20], ls_pos = 0, tok_start = 0, ls_c = 0, ls_tok = TokEof,
    ls_tokval = TOKVAL0, lookahead = TokEof, lookaheadval = TOKVAL0, ls_sb = [], linenumber = 1, lastline = 1,
    chunkname = [], ls_strs = st\<rparr>"
  have "lex_new [0x7E, 0x3E, 0x3E, 0x20] [] st = Inr ls" by (simp add: lex_new_def ls_def next_char_def)
  moreover have "room first_fit ls" using st(2,3) first_fit_ok
    by (simp add: room_def ls_def lex_ok_def next_char_def LEX_EOF_def)
  moreover have "rest ls = tok2str TokSar @ 0x20 # []"
    by (simp add: ls_def rest_def next_char_def LEX_EOF_def byte_string_def byte_def)
  moreover have "spelled TokSar" by (simp add: spelled_def)
  ultimately show ?thesis using spelling_roundtrip[of first_fit ls TokSar "[]" 56] st(1) by blast
qed

text \<open>An integer below \<open>2 ^ 53\<close> in decimal notation, followed by anything that cannot continue a
  number, is read as one number token whose value is exactly that integer.\<close>

theorem integer_token:
  assumes "room os ls" and "rest ls = decimal n @ r" and "stops number_char r" and "n < 2 ^ 53"
  shows "\<exists>v l. scan os sz ls = Inr ((TokNumber, v), l) \<and> tv_num v = nat_to_f64 n \<and> rest l = r"
proof -
  let ?k = "ls\<lparr>tok_start := ls_pos ls - 1, ls_sb := []\<rparr>"
  have at: "lex_at ?k [] (decimal n @ r)" using lex_at_room[OF assms(1,2)] .
  obtain d es where d: "decimal n = d # es" using decimal_digits(2)[of n] by (cases "decimal n") auto
  then have dig: "is_digit (ls_c ?k)" using lex_at_c[of ?k "[]" d "es @ r"] at decimal_digits(1)[of n] by (simp add: digit_byte_uint)
  have "f64_of_u64 (word_of_nat n) = nat_to_f64 n" using assms(4) f64_of_u64_exact by simp
  then obtain l where "lex_number ?k = Inr (nat_to_f64 n, l)" "rest l = r"
    using lex_number_digits[OF at decimal_digits assms(3)] by (auto simp: digits_value_decimal)
  then have "\<exists>v l. scan_step os sz ?k = Inr (Token TokNumber v l) \<and> tv_num v = nat_to_f64 n \<and> rest l = r"
    using dig by (simp add: scan_step_def token_of_def scan_number_token_def Let_def)
  then show ?thesis using scan_first by blast
qed

theorem integer_token_witness:
  "\<exists>st ls v l. interner_new first_fit 56 no_mem = Inr st \<and> lex_new (decimal 42 @ [0x2B]) [] st = Inr ls \<and>
    scan first_fit 56 ls = Inr ((TokNumber, v), l) \<and> tv_num v = nat_to_f64 42 \<and> rest l = [0x2B]"
proof -
  obtain st where st: "interner_new first_fit 56 no_mem = Inr st" "interner_ok st" "length (by_id st) \<le> 1"
    using interner_new_ok[OF first_fit_ok] by blast
  have d: "decimal 42 = [0x34, 0x32]" by (simp add: decimal.simps)
  define ls where "ls = next_char \<lparr>ls_src = [0x34, 0x32, 0x2B], ls_pos = 0, tok_start = 0, ls_c = 0, ls_tok = TokEof,
    ls_tokval = TOKVAL0, lookahead = TokEof, lookaheadval = TOKVAL0, ls_sb = [], linenumber = 1, lastline = 1,
    chunkname = [], ls_strs = st\<rparr>"
  have "lex_new (decimal 42 @ [0x2B]) [] st = Inr ls" by (simp add: d lex_new_def ls_def next_char_def)
  moreover have "room first_fit ls" using st(2,3) first_fit_ok
    by (simp add: room_def ls_def lex_ok_def next_char_def LEX_EOF_def)
  moreover have "rest ls = decimal 42 @ [0x2B]"
    by (simp add: d ls_def rest_def next_char_def LEX_EOF_def)
  moreover have "stops number_char [0x2B]" by (simp add: stops_def number_char_def is_ident_def)
  ultimately show ?thesis using integer_token[of first_fit ls 42 "[0x2B]" 56] st(1) by auto
qed

end
