(* ===== verification/LJ_Strfmt_Spec.thy ===== *)
theory LJ_Strfmt_Spec
  imports LJ_Strfmt_Size LJ_Lex_Spec
begin

unbundle bit_operations_syntax

text \<open>
  Properties of formatting: what \<open>%q\<close> writes and the lexer reads back, numbers as text and back,
  hexadecimal digits, literal text, and when a conversion can panic.
\<close>

section \<open>Quoted strings\<close>

text \<open>The byte the lexer reads for a byte written by \<open>%q\<close>: a carriage return becomes a newline, and the
  octal digits of a control byte are read as decimal ones.\<close>

definition q_image :: "u8 \<Rightarrow> u8" where
  "q_image b =
     (if b = 13 then 10
      else if (b < 32 \<and> b \<notin> {7, 8, 9, 10, 11, 12}) \<or> b = 127
      then word_of_nat (100 * (unat b div 64) + 10 * (unat b div 8 mod 8) + unat b mod 8)
      else b)"

lemma octal3_digits:
  assumes "b < 32 \<or> b = 127"
  shows "map uint (octal3 b) = map (\<lambda>d. 0x30 + int d) [unat b div 64, unat b div 8 mod 8, unat b mod 8]"
proof -
  have "list_all (\<lambda>n. map uint (octal3 (word_of_nat n)) =
      map (\<lambda>d. 0x30 + int d) [n div 64, n div 8 mod 8, n mod 8]) (127 # [0..<32])" by code_simp
  then have "\<forall>n\<in>set (127 # [0..<32]). map uint (octal3 (word_of_nat n)) =
      map (\<lambda>d. 0x30 + int d) [n div 64, n div 8 mod 8, n mod 8]" by (simp only: list_all_iff)
  moreover have "unat b \<in> set (127 # [0..<32])" using assms by (auto simp: word_less_nat_alt)
  ultimately have "map uint (octal3 (word_of_nat (unat b))) =
      map (\<lambda>d. 0x30 + int d) [unat b div 64, unat b div 8 mod 8, unat b mod 8]" by (rule bspec)
  then show ?thesis by simp
qed

lemma octal3_Cons: "octal3 b = [0x30 + (drop_bit 6 b AND 7), 0x30 + (drop_bit 3 b AND 7), 0x30 + (b AND 7)]"
  by (simp add: octal3_def)

text \<open>A letter escape reads as its byte.\<close>

lemma string_loop_escape:
  "lex_at ls sb (0x5C # r) \<Longrightarrow> string_loop 0x22 ls = rbind (string_escape ls) (string_loop 0x22)"
  by (subst string_loop.simps) (simp add: lex_at_c is_eol_def LEX_EOF_def)

lemma escape_char:
  assumes "lex_at ls sb (0x5C # c # r)" "escape_letter (uint c) = Some d"
  shows "\<exists>k. string_escape ls = Inr k \<and> lex_at k (sb @ [word_of_int d]) r \<and> ls_strs k = ls_strs ls \<and> linenumber k = linenumber ls"
proof -
  have n: "lex_at (next_char ls) sb (c # r)" by (rule lex_at_next[OF assms(1)])
  have "string_escape ls = Inr (next_char (save d (next_char ls)))"
    using assms(2) lex_at_c[OF n] by (simp add: string_escape_def Let_def)
  then show ?thesis using lex_at_next[OF lex_at_save[OF n]] by simp
qed

lemma escape_newline:
  assumes "lex_at ls sb (0x5C # c # r)" "c = 10 \<or> c = 13" "r \<noteq> []" "hd r \<notin> {10, 13}" "linenumber ls + 1 < 0x7fffff00"
  shows "\<exists>k. string_escape ls = Inr k \<and> lex_at k (sb @ [10]) r \<and> ls_strs k = ls_strs ls \<and> linenumber k = linenumber ls + 1"
proof -
  let ?n = "next_char ls" and ?l = "next_char (save 10 (next_char ls))"
  have n: "lex_at ?n sb (c # r)" by (rule lex_at_next[OF assms(1)])
  have l: "lex_at ?l (sb @ [10]) r" using lex_at_next[OF lex_at_save[OF n, of 10]] by simp
  obtain d t where r: "r = d # t" using assms(3) by (cases r) auto
  have "\<not> is_eol ?l" using lex_at_c[of ?l "sb @ [10]" d t] l r assms(4) by (simp add: is_eol_def uint_eq_numeral)
  then have "newline (save 10 ?n) = Inr (?l\<lparr>linenumber := linenumber ls + 1\<rparr>)"
    using assms(5) by (simp add: newline_def Let_def)
  moreover have "string_escape ls = newline (save 10 ?n)"
    using lex_at_c[OF n] assms(2) by (auto simp: string_escape_def Let_def escape_letter_def is_eol_def)
  ultimately show ?thesis using l by (auto simp: lex_at_def)
qed

lemma escape_decimal:
  assumes "lex_at ls sb (0x5C # c1 # c2 # c3 # r)" "map uint [c1, c2, c3] = map (\<lambda>d. 0x30 + int d) [d1, d2, d3]"
    "d1 < 10" "d2 < 10" "d3 < 10" "100 * d1 + 10 * d2 + d3 \<le> 255"
  shows "\<exists>k. string_escape ls = Inr k \<and> lex_at k (sb @ [word_of_nat (100 * d1 + 10 * d2 + d3)]) r \<and> ls_strs k = ls_strs ls \<and>
    linenumber k = linenumber ls"
proof -
  let ?n1 = "next_char ls" let ?n2 = "next_char ?n1" let ?n3 = "next_char ?n2"
  have n: "lex_at ?n1 sb (c1 # c2 # c3 # r)" "lex_at ?n2 sb (c2 # c3 # r)" "lex_at ?n3 sb (c3 # r)" "lex_at (next_char ?n3) sb r"
    using lex_at_next[OF assms(1)] lex_at_next by blast+
  have c: "ls_c ?n1 = 0x30 + int d1" "ls_c ?n2 = 0x30 + int d2" "ls_c ?n3 = 0x30 + int d3"
    using lex_at_c[OF n(1)] lex_at_c[OF n(2)] lex_at_c[OF n(3)] assms(2) by auto
  let ?v = "(int d1 * 10 + int d2) * 10 + int d3"
  have v: "\<not> 255 < ?v" "word_of_int ?v = (word_of_nat (100 * d1 + 10 * d2 + d3) :: u8)" using assms(6) by simp_all
  have "is_digit (ls_c ?n1)" "is_digit (ls_c ?n2)" "is_digit (ls_c ?n3)" using c assms(3-5) by (auto simp: is_digit_def)
  then have "string_escape ls = Inr (save ?v (next_char ?n3))"
    using c v(1) assms(3) by (auto simp: string_escape_def Let_def escape_letter_def is_eol_def LEX_EOF_def decimal_escape_def)
  then show ?thesis using lex_at_save[OF n(4), of ?v] v(2) by (simp add: mult.commute)
qed

lemma q_byte_step:
  assumes "lex_at ls sb (q_byte b @ r)" "r \<noteq> []" "hd r \<notin> {10, 13}" "linenumber ls + 1 < 0x7fffff00"
  shows "\<exists>k. string_loop 0x22 ls = string_loop 0x22 k \<and> lex_at k (sb @ [q_image b]) r \<and> ls_strs k = ls_strs ls \<and>
    linenumber k \<le> linenumber ls + 1"
proof -
  let ?G = "\<exists>k. string_escape ls = Inr k \<and> lex_at k (sb @ [q_image b]) r \<and> ls_strs k = ls_strs ls \<and> linenumber k \<le> linenumber ls + 1"
  have esc: ?thesis if "q_byte b = 0x5C # t" ?G for t
    using that assms(1) string_loop_escape[of ls sb "t @ r"] by auto
  consider (letter) c d where "q_byte b = [0x5C, c]" "escape_letter (uint c) = Some d" "word_of_int d = q_image b"
    | (eol) "b = 10 \<or> b = 13"
    | (ctl) "(b < 32 \<and> b \<notin> {7, 8, 9, 10, 11, 12, 13}) \<or> b = 127"
    | (plain) "q_byte b = [b]" "q_image b = b" "b \<notin> {0x22, 0x5C, 10, 13}"
  proof (cases "b \<in> {0x22, 0x5C, 9, 7, 8, 12, 11}")
    case True
    then show ?thesis using that(1) by (auto simp: q_byte_def q_image_def escape_letter_def)
  next
    case False
    then show ?thesis using that(2-4) by (cases "b < 32 \<or> b = 127") (auto simp: q_byte_def q_image_def)
  qed
  then show ?thesis
  proof cases
    case letter
    have "lex_at ls sb (0x5C # c # r)" using assms(1) letter(1) by simp
    from escape_char[OF this letter(2)] show ?thesis using letter(3) by (intro esc[OF letter(1)]) auto
  next
    case eol
    then have q: "q_byte b = [0x5C, b]" "q_image b = 10" by (auto simp: q_byte_def q_image_def)
    have "lex_at ls sb (0x5C # b # r)" using assms(1) q(1) by simp
    from escape_newline[OF this eol assms(2-4)] show ?thesis using q(2) by (intro esc[OF q(1)]) auto
  next
    case ctl
    then have q: "q_byte b = 0x5C # octal3 b" "q_image b = word_of_nat (100 * (unat b div 64) + 10 * (unat b div 8 mod 8) + unat b mod 8)"
      by (auto simp: q_byte_def q_image_def)
    have lt: "b < 32 \<or> b = 127" "unat b \<le> 127" using ctl by (auto simp: word_less_nat_alt)
    obtain c1 c2 c3 where o: "octal3 b = [c1, c2, c3]" by (simp add: octal3_Cons)
    have at: "lex_at ls sb (0x5C # c1 # c2 # c3 # r)" using assms(1) q(1) o by simp
    have "unat b div 64 \<le> 1" using div_le_mono[OF lt(2), of 64] by simp
    moreover have "n mod 8 \<le> 7" for n :: nat using mod_less_divisor[of 8 n] by linarith
    ultimately have "unat b div 64 \<le> 1" "unat b div 8 mod 8 \<le> 7" "unat b mod 8 \<le> 7" by blast+
    then have d: "unat b div 64 < 10" "unat b div 8 mod 8 < 10" "unat b mod 8 < 10"
      "100 * (unat b div 64) + 10 * (unat b div 8 mod 8) + unat b mod 8 \<le> 255" by linarith+
    have "map uint [c1, c2, c3] = map (\<lambda>d. 0x30 + int d) [unat b div 64, unat b div 8 mod 8, unat b mod 8]"
      using octal3_digits[OF lt(1)] o by simp
    from escape_decimal[OF at this d] show ?thesis unfolding q(2)[symmetric] by (intro esc[OF q(1)]) auto
  next
    case plain
    have c: "ls_c ls = uint b" using lex_at_c[of ls sb b r] assms(1) plain(1) by simp
    have "string_loop 0x22 ls = string_loop 0x22 (save_next ls)"
      using c plain(3) by (subst string_loop.simps) (auto simp: is_eol_def uint_eq_numeral)
    then show ?thesis using lex_at_save_next[of ls sb b r] assms(1) plain
      by (intro exI[of _ "save_next ls"]) (simp add: save_next_def)
  qed
qed

lemma q_byte_hd: "q_byte b \<noteq> [] \<and> hd (q_byte b) \<notin> {10, 13}"
  by (auto simp: q_byte_def)

lemma q_loop:
  "lex_at ls sb (concat (map q_byte s) @ 0x22 # r) \<Longrightarrow> linenumber ls + length s < 0x7fffff00 \<Longrightarrow>
    \<exists>k. string_loop 0x22 ls = Inr k \<and> lex_at k (sb @ map q_image s) (0x22 # r) \<and> ls_strs k = ls_strs ls"
proof (induction s arbitrary: ls sb)
  case Nil
  then show ?case by (subst string_loop.simps) (auto simp: lex_at_c)
next
  case (Cons b s)
  let ?r = "concat (map q_byte s) @ 0x22 # r"
  have "?r \<noteq> [] \<and> hd ?r \<notin> {10, 13}" using q_byte_hd by (cases s) (auto simp: hd_append)
  then obtain k where k: "string_loop 0x22 ls = string_loop 0x22 k" "lex_at k (sb @ [q_image b]) ?r" "ls_strs k = ls_strs ls"
    "linenumber k \<le> linenumber ls + 1"
    using q_byte_step[of ls sb b ?r] Cons.prems by auto
  from Cons.IH[OF k(2)] show ?case using Cons.prems(2) k by auto
qed

lemma q_image_same: "b < 13 \<or> 32 \<le> b \<and> b \<noteq> 127 \<Longrightarrow> q_image b = b"
proof (cases "b < 7")
  case True
  then have "unat b < 7" by (simp add: word_less_nat_alt)
  then have "100 * (unat b div 64) + 10 * (unat b div 8 mod 8) + unat b mod 8 = unat b" by simp
  moreover have "b \<noteq> 13" "b \<notin> {7, 8, 9, 10, 11, 12}" "b < 32" using True by (auto simp: word_less_nat_alt)
  ultimately show ?thesis by (simp add: q_image_def)
next
  case False
  moreover assume "b < 13 \<or> 32 \<le> b \<and> b \<noteq> 127"
  moreover have "b \<in> {7, 8, 9, 10, 11, 12}" if "\<not> b < 7" "b < 13"
  proof -
    have "unat b \<in> {7, 8, 9, 10, 11, 12}" using that by (auto simp: word_less_nat_alt)
    then show ?thesis by (auto simp: word_unat_eq_iff)
  qed
  ultimately show ?thesis by (auto simp: q_image_def not_less)
qed

section \<open>Properties\<close>

text \<open>C37. What \<open>%q\<close> writes is one string token for the lexer, and the string it stands for is the
  original with every carriage return turned into a newline and every other control byte written in
  octal turned into the byte with the same digits in decimal; a string of printable bytes, tabs and
  newlines is read back unchanged.\<close>

theorem quote_read_back:
  assumes "room os ls" and "rest ls = quote s @ r" and "linenumber ls + length s < 0x7fffff00"
  shows "\<exists>i l. scan os sz ls = Inr ((TokStr, TOKVAL0\<lparr>tv_str := i\<rparr>), l) \<and> rest l = r \<and>
    interner_get (ls_strs l) i = Inr (map q_image s) \<and>
    ((\<forall>b\<in>set s. b < 13 \<or> 32 \<le> b \<and> b \<noteq> 127) \<longrightarrow> map q_image s = s)"
proof -
  let ?k = "ls\<lparr>tok_start := ls_pos ls - 1, ls_sb := []\<rparr>"
  have at: "lex_at ?k [] (0x22 # concat (map q_byte s) @ 0x22 # r)" using lex_at_room[OF assms(1,2)] by (simp add: quote_def)
  have c: "ls_c ?k = 0x22" using lex_at_c[OF at] by simp
  obtain m where m: "string_loop 0x22 (save_next ?k) = Inr m" "lex_at m (0x22 # map q_image s) (0x22 # r)" "ls_strs m = ls_strs ls"
    using q_loop[OF lex_at_save_next[OF at]] assms(3) by (auto simp: save_next_def)
  let ?l = "save_next m"
  have l: "lex_at ?l (0x22 # map q_image s @ [0x22]) r" using lex_at_save_next[OF m(2)] by simp
  have sl: "slice (ls_sb ?l) 1 (length (ls_sb ?l) - 1) = Inr (map q_image s)" using l by (simp add: lex_at_def slice_def)
  have "ls_strs ?l = ls_strs ls" using m(3) by (simp add: save_next_def)
  then obtain i l' where l': "lex_intern os sz ?l (map q_image s) = Inr (i, l')" "rest l' = r"
    "ids_kept (ls_strs ls) (ls_strs l')" "view (ls_strs l') i = Some (map q_image s)"
    using lex_intern_kept[of os ?l sz "map q_image s"] assms(1) l by (auto simp: room_def lex_at_def)
  have "lex_string os sz ?k = Inr (i, l')" using m(1) c l'(1) sl l by (simp add: lex_string_def Let_def lex_at_def)
  then have "scan_step os sz ?k = Inr (Token TokStr (TOKVAL0\<lparr>tv_str := i\<rparr>) l')"
    using c by (simp add: scan_step_def Let_def is_digit_def is_ident_def LEX_EOF_def)
  moreover have "interner_get (ls_strs l') i = Inr (map q_image s)"
    using l'(3,4) get_view[of "ls_strs l'" i] by (simp add: ids_kept_def)
  moreover have "map q_image s = s" if "\<forall>b\<in>set s. b < 13 \<or> 32 \<le> b \<and> b \<noteq> 127"
  proof (rule map_idI)
    fix b assume "b \<in> set s"
    then have "b < 13 \<or> 32 \<le> b \<and> b \<noteq> 127" using that by blast
    then show "q_image b = b" by (rule q_image_same)
  qed
  ultimately show ?thesis using scan_first l'(2) by blast
qed

theorem quote_read_back_witness:
  "\<exists>st ls i l. interner_new first_fit 56 no_mem = Inr st \<and> lex_new (quote [0x61, 14]) [] st = Inr ls \<and>
    scan first_fit 56 ls = Inr ((TokStr, TOKVAL0\<lparr>tv_str := i\<rparr>), l) \<and> interner_get (ls_strs l) i = Inr [0x61, 16]"
proof -
  obtain st where st: "interner_new first_fit 56 no_mem = Inr st" "interner_ok st" "length (by_id st) \<le> 1"
    using interner_new_ok[OF first_fit_ok] by blast
  have q: "quote [0x61, 14] = [0x22, 0x61, 0x5C, 0x30, 0x31, 0x36, 0x22]" "map q_image [0x61, 14] = [0x61, 16]"
    by (simp_all add: quote_def q_byte_def octal3_def q_image_def)
  define ls where "ls = next_char \<lparr>ls_src = quote [0x61, 14], ls_pos = 0, tok_start = 0, ls_c = 0, ls_tok = TokEof,
    ls_tokval = TOKVAL0, lookahead = TokEof, lookaheadval = TOKVAL0, ls_sb = [], linenumber = 1, lastline = 1,
    chunkname = [], ls_strs = st\<rparr>"
  have "lex_new (quote [0x61, 14]) [] st = Inr ls" by (simp add: q(1) lex_new_def ls_def next_char_def)
  moreover have "room first_fit ls" using st(2,3) first_fit_ok
    by (simp add: q(1) room_def ls_def lex_ok_def next_char_def LEX_EOF_def)
  moreover have "rest ls = quote [0x61, 14] @ []" by (simp add: q(1) ls_def rest_def next_char_def LEX_EOF_def)
  moreover have "linenumber ls + length [0x61, 14 :: u8] < 0x7fffff00" by (simp add: ls_def)
  ultimately show ?thesis using quote_read_back[of first_fit ls "[0x61, 14]" "[]" 56] st(1) q(2) by auto
qed

section \<open>Literal text\<close>

definition double_percent :: "bytes \<Rightarrow> bytes" where
  "double_percent s = concat (map (\<lambda>c. if c = PERCENT then [PERCENT, PERCENT] else [c]) s)"

definition lit_text :: "fmt_part list \<Rightarrow> bytes" where
  "lit_text ps = concat (map (\<lambda>p. case p of Lit b \<Rightarrow> b | Conv s c \<Rightarrow> []) ps)"

lemma compile_literal:
  "\<exists>ps. compile_loop lit (double_percent s) = Inr ps \<and> lit_text ps = lit @ s \<and> (\<forall>p\<in>set ps. \<exists>b. p = Lit b)"
proof (induction s arbitrary: lit)
  case Nil
  then show ?case by (simp add: double_percent_def lit_text_def flush_lit_def)
next
  case (Cons c s)
  show ?case
  proof (cases "c = PERCENT")
    case True
    obtain ps where "compile_loop [] (double_percent s) = Inr ps" "lit_text ps = s" "\<forall>p\<in>set ps. \<exists>b. p = Lit b"
      using Cons.IH[of "[]"] by auto
    then show ?thesis using True by (auto simp: double_percent_def lit_text_def flush_lit_def)
  next
    case False
    then show ?thesis using Cons.IH[of "lit @ [c]"] by (auto simp: double_percent_def)
  qed
qed

lemma format_literal:
  "\<forall>p\<in>set ps. \<exists>b. p = Lit b \<Longrightarrow> length out + length (lit_text ps) \<le> ISIZE_MAX \<Longrightarrow>
    format_loop args ps ai out = Inr (out @ lit_text ps)"
  by (induction ps arbitrary: out) (auto simp: lit_text_def vec_extend_def of_panic_def)

section \<open>Panics\<close>






























lemma compile_no_panic: "compile_loop lit f \<noteq> Inl (FmtPanic p)"
proof (induction lit f rule: compile_loop.induct)
  case (2 lit c cs)
  show ?case
  proof (cases "c = PERCENT")
    case True
    show ?thesis
    proof (cases "cs \<noteq> [] \<and> hd cs = PERCENT")
      case True2: True
      then show ?thesis using 2(1)[OF True True2] True by (cases "compile_loop [] (tl cs)") auto
    next
      case False
      then show ?thesis using 2(2)[OF True False refl] True
        by (cases "compile_loop [] (drop (spec_len cs + 1) cs)") (auto simp: Let_def)
    qed
  next
    case False
    then show ?thesis using 2(3) by simp
  qed
qed simp

section \<open>Integers as text\<close>

lemma itoa_u64_decimal: "itoa_u64 u acc = decimal u @ acc"
proof (induction u acc rule: itoa_u64.induct)
  case (1 u acc)
  then show ?case by (subst itoa_u64.simps, subst decimal.simps) auto
qed

lemma itoa_i64_decimal: "\<bar>k\<bar> < 2 ^ 53 \<Longrightarrow> itoa_i64 k = (if k < 0 then MINUS # decimal (nat (- k)) else decimal (nat k))"
proof -
  assume k: "\<bar>k\<bar> < 2 ^ 53"
  have "unat (- word_of_int k :: u64) = nat (- k)" if "k < 0"
  proof -
    have "- word_of_int k = (word_of_int (- k) :: u64)" by simp
    moreover have "uint (word_of_int (- k) :: u64) = - k" using k that by (subst uint_word_of_int_eq) (simp add: take_bit_int_eq_self)
    ultimately show ?thesis by (simp only: unat_eq_nat_uint)
  qed
  then show ?thesis by (simp add: itoa_i64_def itoa_u64_decimal)
qed

lemma f64_of_i64_exact: "\<bar>k\<bar> < 2 ^ 53 \<Longrightarrow> f64_of_i64 k = int_to_f64 k"
proof -
  assume k: "\<bar>k\<bar> < 2 ^ 53"
  have e: "f64_round n 1 = nat_to_f64 n" if "n < 2 ^ 53" for n using f64_of_u64_exact[OF that] by simp
  have "f64_neg (nat_to_f64 n) = set_bit 63 (nat_to_f64 n)" if "0 < n" "n < 2 ^ 53" for n
    using nat_to_f64_fields(3)[OF that] by (auto simp: f64_neg_def bit_simps intro!: bit_word_eqI)
  then show ?thesis using k e[of "nat k"] e[of "nat (- k)"]
    by (auto simp: f64_of_i64_def int_to_f64_def nat_less_iff)
qed

lemma g14_integer:
  assumes "\<bar>k\<bar> < 2 ^ 53"
  shows "g14 (int_to_f64 k) = Inr (if k < 0 then MINUS # decimal (nat (- k)) else decimal (nat k))"
proof (cases "k = 0")
  case True
  then show ?thesis by (simp add: g14_def decimal.simps f64_sign_def f64_is_zero_def f64_exp_def f64_frac_def)
next
  case False
  note f = int_to_f64_finite[OF assms]
  have "f64_as_i64 (int_to_f64 k) = k" using f assms by (simp add: f64_as_i64_def)
  then show ?thesis using f False assms itoa_i64_decimal[OF assms] f64_of_i64_exact[OF assms]
    by (simp add: g14_def Let_def f64_eq_def)
qed

lemma scan_number_minus:
  assumes "list_all is_ascii_digit ds" "ds \<noteq> []"
  shows "scan_number (MINUS # ds) = Some (f64_neg (f64_round (digits_value ds) 1))"
proof -
  have sp: "skip_leading_space (MINUS # ds) = 0" by (simp add: skip_leading_space_def is_ascii_whitespace_def)
  have "dec_token_len (MINUS # ds) = length (MINUS # ds)"
    using dec_token_digits[OF assms(1), of False False 1] assms(2) by (simp add: dec_token_len_def Let_def)
  moreover have "scan_dec ds = Some (f64_round (digits_value ds) 1)" by (rule scan_dec_digits[OF assms])
  then have "scan_dec (MINUS # ds) = Some (f64_neg (f64_round (digits_value ds) 1))"
    using digit_not(8,9) assms by (cases ds) (auto simp: scan_dec_def Let_def split: option.splits if_splits)
  ultimately show ?thesis using sp by (simp add: scan_number_def Let_def is_hex_prefix_def)
qed

section \<open>Hexadecimal digits\<close>

lemma hex_digit_back: "d < 16 \<Longrightarrow> hex_digit (hex_char up d) = Some (word_of_nat d)"
proof -
  have "list_all (\<lambda>d. hex_digit (hex_char True d) = Some (word_of_nat d) \<and> hex_digit (hex_char False d) = Some (word_of_nat d)) [0..<16]"
    by code_simp
  then show "d < 16 \<Longrightarrow> ?thesis" by (cases up) (auto simp: list_all_iff)
qed

lemma low_nibble: "n AND (2 ^ 4 - 1) = take_bit 4 (n :: u64)" "unat (n AND (2 ^ 4 - 1)) < 16"
proof -
  show e: "n AND (2 ^ 4 - 1) = take_bit 4 n" by (simp add: take_bit_eq_mask mask_eq_exp_minus_1)
  show "unat (n AND (2 ^ 4 - 1)) < 16" unfolding e by (simp add: unat_take_bit)
qed

lemma hex_join: "drop_bit 4 n * 16 + word_of_nat (unat (n AND (2 ^ 4 - 1))) = (n :: u64)"
proof -
  have "drop_bit 4 n * 16 = push_bit 4 (drop_bit 4 n)" by (simp add: push_bit_eq_mult)
  then show ?thesis unfolding low_nibble(1) using bits_ident[of 4 n] by simp
qed

lemma utobase_digits: "list_all (\<lambda>c. hex_digit c \<noteq> None) acc \<Longrightarrow> list_all (\<lambda>c. hex_digit c \<noteq> None) (utobase_loop 4 up n acc)"
proof (induction "4 :: nat" up n acc rule: utobase_loop.induct)
  case (1 up n acc)
  have "hex_digit (hex_char up (unat (n AND (2 ^ 4 - 1)))) \<noteq> None" using hex_digit_back[OF low_nibble(2)] by simp
  with 1 show ?case by (subst utobase_loop.simps) (auto simp: Let_def)
qed

lemma hex_loop_back:
  "hex_u64_loop 0 False False (utobase_loop 4 up n acc) = hex_u64_loop n (n \<noteq> 0) False acc"
proof (induction "4 :: nat" up n acc rule: utobase_loop.induct)
  case (1 up n acc)
  let ?d = "unat (n AND (2 ^ 4 - 1))"
  have d: "hex_digit (hex_char up ?d) = Some (word_of_nat ?d)" by (rule hex_digit_back[OF low_nibble(2)])
  show ?case
  proof (cases "n = 0")
    case True
    then show ?thesis by (subst utobase_loop.simps) simp
  next
    case False
    then have "utobase_loop 4 up n acc = utobase_loop 4 up (drop_bit 4 n) (hex_char up ?d # acc)"
      by (subst utobase_loop.simps) (simp add: Let_def)
    then show ?thesis using 1[of ?d] d False hex_join[of n] by simp
  qed
qed

lemma hex_text_back: "scan_number_full (0x30 # 0x78 # utohex n up) =
  Some \<lparr>sr_n = f64_of_u64 n, sr_u = n, sr_suffix = NoSuffix\<rparr>"
proof -
  let ?t = "utohex n up"
  have ne: "?t \<noteq> []"
  proof (cases "n = 0")
    case False
    have "utobase_loop 4 up n [] \<noteq> []"
    proof
      assume "utobase_loop 4 up n [] = []"
      then show False using hex_loop_back[of up n "[]"] False by simp
    qed
    then show ?thesis using False by (simp add: utohex_def)
  qed (simp add: utohex_def)
  have dig: "list_all (\<lambda>c. hex_digit c \<noteq> None) ?t" using utobase_digits[of "[]" up n] by (simp add: utohex_def hex_digit_def)
  have "hex_digit (last ?t) \<noteq> None" using dig ne by (simp add: list_all_iff)
  then have l: "\<not> is_l (last ?t)" "last ?t \<noteq> 0x69" "last ?t \<noteq> 0x49"
    by (auto simp: is_l_def hex_digit_def split: if_splits)
  have "split_suffix (0x30 # 0x78 # ?t) = (0x30 # 0x78 # ?t, NoSuffix)"
    using l ne last_conv_nth[of "0x30 # 0x78 # ?t"] by (auto simp: split_suffix_def Let_def)
  moreover have "scan_hex_to_u64 ?t = Some (n, False)"
    using hex_loop_back[of up n "[]"] by (auto simp: scan_hex_to_u64_def utohex_def hex_digit_def)
  moreover have "is_hex_prefix (0x30 # 0x78 # ?t)" by (simp add: is_hex_prefix_def)
  ultimately show ?thesis by (simp add: scan_number_full_def)
qed

section \<open>Properties of formatting\<close>



text \<open>C39. The text of an integer below \<open>2 ^ 53\<close> in size converts back to that integer: \<open>g14\<close> writes it in
  decimal and \<open>scan_number\<close> reads the same double.\<close>

theorem integer_text_roundtrip:
  assumes "\<bar>k\<bar> < 2 ^ 53"
  shows "\<exists>s. g14 (int_to_f64 k) = Inr s \<and> scan_number s = Some (int_to_f64 k)"
proof -
  note d = decimal_digits
  have e: "f64_round n 1 = nat_to_f64 n" if "n < 2 ^ 53" for n using f64_of_u64_exact[OF that] by simp
  have "scan_number (decimal (nat k)) = Some (int_to_f64 k)" if "\<not> k < 0"
    using that assms e[of "nat k"] scan_number_digits[OF d] by (simp add: digits_value_decimal int_to_f64_def nat_less_iff)
  moreover have "scan_number (MINUS # decimal (nat (- k))) = Some (int_to_f64 k)" if "k < 0"
    using that scan_number_minus[OF d, of "nat (- k)"] f64_of_i64_exact[OF assms] by (simp add: digits_value_decimal f64_of_i64_def)
  ultimately show ?thesis using g14_integer[OF assms] by auto
qed

theorem integer_text_roundtrip_witness:
  "\<exists>s. g14 (int_to_f64 (- 42)) = Inr s \<and> scan_number s = Some (int_to_f64 (- 42))"
  using integer_text_roundtrip[of "- 42"] by simp

text \<open>C40. The text that \<open>0x%x\<close> writes for any number is a literal of the lexer with the same 64 bits.\<close>

theorem hex_format_roundtrip:
  "\<exists>t. lua_format [0x30, 0x78, PERCENT, 0x78] [ANum x] = Inr t \<and>
    scan_number_full t = Some \<lparr>sr_n = f64_of_u64 (word_of_int (f64_as_i64 x)), sr_u = word_of_int (f64_as_i64 x), sr_suffix = NoSuffix\<rparr>"
proof -
  have "spec_len [0x78] = 0" by (simp add: spec_len_def is_flag_def is_ascii_digit_def)
  then have "compile [0x30, 0x78, PERCENT, 0x78] = Inr [Lit [0x30, 0x78], Conv (parse_spec_bytes []) 0x78]"
    by (simp add: compile_def flush_lit_def Let_def)
  moreover have "parse_spec_bytes [] = SPEC0" by (simp add: parse_spec_bytes_def)
  ultimately have "lua_format [0x30, 0x78, PERCENT, 0x78] [ANum x] = Inr (0x30 # 0x78 # utohex (word_of_int (f64_as_i64 x)) False)"
    using utohex_length[of "word_of_int (f64_as_i64 x)" False]
    by (simp add: lua_format_def format_parts_def format_conv_def is_num_conv_def format_num_def next_num_def next_arg_def
        push_padded_def of_panic_def vec_extend_def vec_resize_def ISIZE_MAX_def SPEC0_def sign_bytes_def Let_def)
  then show ?thesis using hex_text_back by auto
qed

text \<open>A text with its percent signs doubled formats to itself, whatever the arguments.\<close>

theorem percent_escape: "length s \<le> ISIZE_MAX \<Longrightarrow> lua_format (double_percent s) args = Inr s"
  using compile_literal[of "[]" s] format_literal[of _ "[]" args 0]
  by (auto simp: lua_format_def compile_def format_parts_def)

end
