(* ===== verification/LJ_Mark.thy ===== *)
theory LJ_Mark
  imports LJ_Table LJ_Intern_Spec "HOL-Library.While_Combinator"
begin

unbundle bit_operations_syntax

text \<open>
  The mark phase of the collector (\<open>Marker\<close> of \<open>runtime/gc.rs\<close>, the traversal functions of
  \<open>runtime/table.rs\<close>). A heap has a pool per kind of object; a reference \<open>gref\<close> is a \<open>GcPtr<T>\<close>, its
  constructor being the type \<open>T\<close>. Of prototypes, threads, userdata and cdata the records hold the fields
  that the collector reads. Vectors used as stacks have their top at the head of the list.
\<close>

section \<open>Objects\<close>

datatype gcfunc = FLua addr addr "addr list" | FC addr "lua_value list"

datatype uvloc = UvOpen addr nat | UvClosed

record upval =
  uv_loc :: uvloc
  uv_tv :: lua_value
  uv_immutable :: bool

datatype gkgc = GkStr nat | GkProtoRef addr | GkTable ltable | GkTableRef addr | GkProto | GkCData

record gproto =
  gp_source :: "nat option"
  gp_kgc :: "gkgc list"

record gthread =
  th_stack :: "lua_value list"
  th_top :: nat
  th_frame_top :: nat
  th_openuv :: "addr list"
  th_errval :: lua_value
  th_hook :: lua_value
  th_call_cl :: "addr option"
  th_env :: addr

record gudata = ud_metatable :: "addr option"

record gcdata =
  gcd_ctypeid :: u32
  gcd_base :: "addr option"
  gcd_len :: nat

datatype gref = RStr addr | RTab addr | RFunc addr | RProto addr | RUpval addr | RThread addr | RUdata addr | RCdata addr

datatype gc_phase = Pause | Propagate | Atomic | Sweep | Finalize

record gheap =
  h_strings :: interner
  h_protos :: "gproto pool"
  h_tables :: "ltable pool"
  h_funcs :: "gcfunc pool"
  h_upvals :: "upval pool"
  h_cdatas :: "gcdata pool"
  h_userdatas :: "gudata pool"
  h_threads :: "gthread pool"
  h_total :: nat
  h_threshold :: nat
  h_table_extra :: nat
  h_debt :: nat
  gc_state :: gc_phase
  gc_gray :: "gref list"
  gc_grayagain :: "gref list"
  gc_weak :: "(addr \<times> u8) list"
  mmudata :: "gref list"
  gc_sweep_pool :: nat
  gc_sweep_pos :: nat
  h_white :: u8
  h_stepmul :: nat
  h_estimate :: nat

definition tab_at :: "gheap \<Rightarrow> addr \<Rightarrow> ltable" where "tab_at h a = fst (mem (h_tables h) a)"
definition func_at :: "gheap \<Rightarrow> addr \<Rightarrow> gcfunc" where "func_at h a = fst (mem (h_funcs h) a)"
definition proto_at :: "gheap \<Rightarrow> addr \<Rightarrow> gproto" where "proto_at h a = fst (mem (h_protos h) a)"
definition upval_at :: "gheap \<Rightarrow> addr \<Rightarrow> upval" where "upval_at h a = fst (mem (h_upvals h) a)"
definition thread_at :: "gheap \<Rightarrow> addr \<Rightarrow> gthread" where "thread_at h a = fst (mem (h_threads h) a)"
definition udata_at :: "gheap \<Rightarrow> addr \<Rightarrow> gudata" where "udata_at h a = fst (mem (h_userdatas h) a)"
definition cdata_at :: "gheap \<Rightarrow> addr \<Rightarrow> gcdata" where "cdata_at h a = fst (mem (h_cdatas h) a)"
definition str_bytes :: "gheap \<Rightarrow> addr \<Rightarrow> bytes" where "str_bytes h a = as_bytes (fst (mem (ipool (h_strings h)) a))"

text \<open>The header before an object, and its update.\<close>

fun hdr :: "gheap \<Rightarrow> gref \<Rightarrow> gc_header" where
  "hdr h (RStr a) = snd (mem (ipool (h_strings h)) a)"
| "hdr h (RTab a) = snd (mem (h_tables h) a)"
| "hdr h (RFunc a) = snd (mem (h_funcs h) a)"
| "hdr h (RProto a) = snd (mem (h_protos h) a)"
| "hdr h (RUpval a) = snd (mem (h_upvals h) a)"
| "hdr h (RThread a) = snd (mem (h_threads h) a)"
| "hdr h (RUdata a) = snd (mem (h_userdatas h) a)"
| "hdr h (RCdata a) = snd (mem (h_cdatas h) a)"

definition upd_pool :: "addr \<Rightarrow> (gc_header \<Rightarrow> gc_header) \<Rightarrow> 'a pool \<Rightarrow> 'a pool" where
  "upd_pool a f p = p\<lparr>mem := (mem p)(a := (fst (mem p a), f (snd (mem p a))))\<rparr>"

fun upd_hdr :: "gref \<Rightarrow> (gc_header \<Rightarrow> gc_header) \<Rightarrow> gheap \<Rightarrow> gheap" where
  "upd_hdr (RStr a) f h = h\<lparr>h_strings := (h_strings h)\<lparr>ipool := upd_pool a f (ipool (h_strings h))\<rparr>\<rparr>"
| "upd_hdr (RTab a) f h = h\<lparr>h_tables := upd_pool a f (h_tables h)\<rparr>"
| "upd_hdr (RFunc a) f h = h\<lparr>h_funcs := upd_pool a f (h_funcs h)\<rparr>"
| "upd_hdr (RProto a) f h = h\<lparr>h_protos := upd_pool a f (h_protos h)\<rparr>"
| "upd_hdr (RUpval a) f h = h\<lparr>h_upvals := upd_pool a f (h_upvals h)\<rparr>"
| "upd_hdr (RThread a) f h = h\<lparr>h_threads := upd_pool a f (h_threads h)\<rparr>"
| "upd_hdr (RUdata a) f h = h\<lparr>h_userdatas := upd_pool a f (h_userdatas h)\<rparr>"
| "upd_hdr (RCdata a) f h = h\<lparr>h_cdatas := upd_pool a f (h_cdatas h)\<rparr>"

definition is_marked :: "gheap \<Rightarrow> gref \<Rightarrow> bool" where "is_marked h r = marked (hdr h r)"

definition heap_mark :: "gref \<Rightarrow> gheap \<Rightarrow> gheap" where "heap_mark r h = upd_hdr r set_marked h"

section \<open>Traversal of tables\<close>

definition WEAKKEY :: u8 where "WEAKKEY = 0x08"
definition WEAKVAL :: u8 where "WEAKVAL = 0x10"

fun scan_nodes :: "gheap \<Rightarrow> bytes \<Rightarrow> node list \<Rightarrow> lua_value option" where
  "scan_nodes h key [] = None"
| "scan_nodes h key (n # ns) =
     (if is_nil (n_val n) then scan_nodes h key ns
      else case as_string (n_key n) of
             Some s \<Rightarrow> if str_bytes h (unat s) = key then Some (n_val n) else scan_nodes h key ns
           | None \<Rightarrow> scan_nodes h key ns)"

definition scan_str_key :: "gheap \<Rightarrow> ltable \<Rightarrow> bytes \<Rightarrow> lua_value option" where
  "scan_str_key h t key = (if \<not> has_hpart t then None else scan_nodes h key (nodes t))"

definition mode_of_bytes :: "bytes \<Rightarrow> u8" where
  "mode_of_bytes s = fold (\<lambda>c m. if c = 0x6B then m OR WEAKKEY else if c = 0x76 then m OR WEAKVAL else m) s 0"

definition weak_mode :: "gheap \<Rightarrow> ltable \<Rightarrow> u8" where
  "weak_mode h t =
     (case metatable t of
        None \<Rightarrow> 0
      | Some mt \<Rightarrow>
          (case scan_str_key h (tab_at h (unat mt)) (byte_string ''__mode'') of
             None \<Rightarrow> 0
           | Some v \<Rightarrow> (case as_string v of None \<Rightarrow> 0 | Some s \<Rightarrow> mode_of_bytes (str_bytes h (unat s)))))"

text \<open>The values \<open>gc_traverse\<close> passes to its callback, in order, and the weak mode it returns.\<close>

definition gc_traverse :: "gheap \<Rightarrow> ltable \<Rightarrow> lua_value list \<times> u8" where
  "gc_traverse h t =
     (let weak = weak_mode h t;
          mt = (case metatable t of Some m \<Rightarrow> [lua_table_value m] | None \<Rightarrow> []);
          live = (if has_hpart t then filter (\<lambda>n. \<not> is_nil (n_val n)) (nodes t) else [])
      in if weak \<noteq> 0
         then (mt @ (if weak AND WEAKVAL = 0 then arr t else []) @
               concat (map (\<lambda>n. (if weak AND WEAKKEY = 0 then [n_key n] else []) @
                                (if weak AND WEAKVAL = 0 then [n_val n] else [])) live), weak)
         else (mt @ arr t @ concat (map (\<lambda>n. [n_key n, n_val n]) live), 0))"

section \<open>Marking\<close>

record marker =
  mk_gray :: "gref list"
  mk_heap :: gheap
  mk_atomic :: bool
  mk_weak :: "(addr \<times> u8) list"

definition mk_mark :: "gref \<Rightarrow> marker \<Rightarrow> marker" where
  "mk_mark r m = m\<lparr>mk_heap := heap_mark r (mk_heap m)\<rparr>"

text \<open>\<open>if !p.is_marked() { p.set_marked(); gray.push(p) }\<close>\<close>

definition mark_push :: "gref \<Rightarrow> marker \<Rightarrow> marker" where
  "mark_push r m = (if is_marked (mk_heap m) r then m else (mk_mark r m)\<lparr>mk_gray := r # mk_gray m\<rparr>)"

definition mark_table :: "addr \<Rightarrow> marker \<Rightarrow> marker" where "mark_table a = mark_push (RTab a)"
definition mark_proto :: "addr \<Rightarrow> marker \<Rightarrow> marker" where "mark_proto a = mark_push (RProto a)"

text \<open>A cdata and the chain of its storage objects; the fuel is the number of cdata objects.\<close>

fun mark_cdata :: "nat \<Rightarrow> addr \<Rightarrow> marker \<Rightarrow> marker" where
  "mark_cdata 0 a m = m"
| "mark_cdata (Suc n) a m =
     (if is_marked (mk_heap m) (RCdata a) then m
      else let m1 = mk_mark (RCdata a) m
           in case gcd_base (cdata_at (mk_heap m) a) of Some b \<Rightarrow> mark_cdata n b m1 | None \<Rightarrow> m1)"

definition mark_udata :: "addr \<Rightarrow> marker \<Rightarrow> marker" where
  "mark_udata a m =
     (if is_marked (mk_heap m) (RUdata a) then m
      else let m1 = mk_mark (RUdata a) m
           in case ud_metatable (udata_at (mk_heap m) a) of Some mt \<Rightarrow> mark_table mt m1 | None \<Rightarrow> m1)"

definition mark_value :: "lua_value \<Rightarrow> marker \<Rightarrow> marker" where
  "mark_value v m =
     (let t = itype v
      in if t = LJ_TSTR then (case as_string v of Some p \<Rightarrow> mk_mark (RStr (unat p)) m | None \<Rightarrow> m)
         else if t = LJ_TTAB then (case as_table v of Some p \<Rightarrow> mark_push (RTab (unat p)) m | None \<Rightarrow> m)
         else if t = LJ_TFUNC then (case as_func v of Some p \<Rightarrow> mark_push (RFunc (unat p)) m | None \<Rightarrow> m)
         else if t = LJ_TTHREAD then (case as_thread v of Some p \<Rightarrow> mark_push (RThread (unat p)) m | None \<Rightarrow> m)
         else if t = LJ_TUDATA then (case as_userdata v of Some p \<Rightarrow> mark_udata (unat p) m | None \<Rightarrow> m)
         else if t = LJ_TCDATA
         then (case as_cdata v of Some p \<Rightarrow> mark_cdata (length (objects (h_cdatas (mk_heap m)))) (unat p) m | None \<Rightarrow> m)
         else m)"

definition mark_thread :: "addr \<Rightarrow> marker \<Rightarrow> marker" where
  "mark_thread a m = (mk_mark (RThread a) m)\<lparr>mk_gray := RThread a # mk_gray m\<rparr>"

definition uv_get :: "gheap \<Rightarrow> upval \<Rightarrow> lua_value" where
  "uv_get h u = (case uv_loc u of UvClosed \<Rightarrow> uv_tv u | UvOpen th i \<Rightarrow> th_stack (thread_at h th) ! i)"

definition mark_upval :: "addr \<Rightarrow> marker \<Rightarrow> marker" where
  "mark_upval a m =
     (if is_marked (mk_heap m) (RUpval a) then m
      else mark_value (uv_get (mk_heap m) (upval_at (mk_heap m) a)) (mk_mark (RUpval a) m))"

definition mark_sid :: "nat \<Rightarrow> marker \<Rightarrow> marker" where
  "mark_sid i m = (case try_lookup (h_strings (mk_heap m)) i of Some p \<Rightarrow> mk_mark (RStr p) m | None \<Rightarrow> m)"

definition mark_kgc :: "gkgc \<Rightarrow> marker \<Rightarrow> marker" where
  "mark_kgc k m =
     (case k of
        GkStr i \<Rightarrow> mark_sid i m
      | GkProtoRef c \<Rightarrow> mark_proto c m
      | GkTable t \<Rightarrow> fold mark_value (fst (gc_traverse (mk_heap m) t)) m
      | GkTableRef t \<Rightarrow> mark_table t m
      | GkProto \<Rightarrow> m
      | GkCData \<Rightarrow> m)"

definition collect_weak :: "addr \<Rightarrow> u8 \<Rightarrow> marker \<Rightarrow> marker" where
  "collect_weak t mode m =
     (if mode \<noteq> 0 \<and> \<not> list_ex (\<lambda>(p, _). p = t) (mk_weak m) then m\<lparr>mk_weak := mk_weak m @ [(t, mode)]\<rparr> else m)"

section \<open>Propagation\<close>

definition visit_table :: "addr \<Rightarrow> marker \<Rightarrow> marker" where
  "visit_table t m =
     (let (vs, mode) = gc_traverse (mk_heap m) (tab_at (mk_heap m) t) in collect_weak t mode (fold mark_value vs m))"

definition visit_func :: "addr \<Rightarrow> marker \<Rightarrow> marker" where
  "visit_func f m =
     (case func_at (mk_heap m) f of
        FLua proto env uvs \<Rightarrow> fold mark_upval uvs (mark_proto proto (mark_table env m))
      | FC env vs \<Rightarrow> fold mark_value vs (mark_table env m))"

definition visit_proto :: "addr \<Rightarrow> marker \<Rightarrow> marker" where
  "visit_proto p m =
     (let pt = proto_at (mk_heap m) p
      in fold mark_kgc (gp_kgc pt) (case gp_source pt of Some i \<Rightarrow> mark_sid i m | None \<Rightarrow> m))"

definition mark_to :: "gthread \<Rightarrow> nat" where "mark_to l = max (th_top l) (th_frame_top l)"

definition set_stack :: "addr \<Rightarrow> lua_value list \<Rightarrow> gheap \<Rightarrow> gheap" where
  "set_stack a s h =
     h\<lparr>h_threads := (h_threads h)\<lparr>mem := (mem (h_threads h))(a := ((thread_at h a)\<lparr>th_stack := s\<rparr>, hdr h (RThread a)))\<rparr>\<rparr>"

definition clear_stale :: "addr \<Rightarrow> gheap \<Rightarrow> gheap" where
  "clear_stale a h =
     (let l = thread_at h a; k = mark_to l
      in set_stack a (take k (th_stack l) @ replicate (length (th_stack l) - k) NIL) h)"

definition visit_thread :: "addr \<Rightarrow> marker \<Rightarrow> marker" where
  "visit_thread a m =
     (let l = thread_at (mk_heap m) a;
          m1 = fold mark_value (take (mark_to l) (th_stack l)) m;
          m2 = mark_value (th_hook l) (mark_value (th_errval l) m1);
          m3 = fold mark_upval (th_openuv l) m2;
          m4 = (case th_call_cl l of Some cl \<Rightarrow> mk_mark (RFunc cl) m3 | None \<Rightarrow> m3);
          h5 = (if mk_atomic m then clear_stale a (mk_heap m4) else mk_heap m4);
          h6 = upd_hdr (RThread a) make_gray h5
      in m4\<lparr>mk_heap := h6\<lparr>gc_grayagain := RThread a # gc_grayagain h6\<rparr>\<rparr>)"

definition visit :: "gref \<Rightarrow> marker \<Rightarrow> marker" where
  "visit g m =
     (case g of
        RTab t \<Rightarrow> visit_table t m
      | RFunc f \<Rightarrow> visit_func f m
      | RProto p \<Rightarrow> visit_proto p m
      | RThread a \<Rightarrow> visit_thread a m
      | _ \<Rightarrow> m)"

definition pop :: "marker \<Rightarrow> marker" where "pop m = m\<lparr>mk_gray := tl (mk_gray m)\<rparr>"

definition propagate :: "marker \<Rightarrow> marker option" where
  "propagate m = while_option (\<lambda>m. mk_gray m \<noteq> []) (\<lambda>m. visit (hd (mk_gray m)) (pop m)) m"

text \<open>\<open>propagate_step\<close> blackens the object before it visits it.\<close>

definition visit_step :: "marker \<Rightarrow> marker" where
  "visit_step m =
     (let g = hd (mk_gray m)
      in case g of RUdata _ \<Rightarrow> pop m | _ \<Rightarrow> visit g (mk_mark g (pop m)))"

fun propagate_step :: "nat \<Rightarrow> marker \<Rightarrow> bool \<times> marker" where
  "propagate_step 0 m = (mk_gray m = [], m)"
| "propagate_step (Suc w) m = (if mk_gray m = [] then (True, m) else propagate_step w (visit_step m))"

end
