(* ===== verification/LJ_Mark_Spec.thy ===== *)
theory LJ_Mark_Spec
  imports LJ_Mark
begin

unbundle bit_operations_syntax

text \<open>
  What marking achieves. \<open>refs\<close> is the strong references an object holds, read off its fields; \<open>objs\<close> the
  objects of the pools. The invariant \<open>closed_except\<close> is the tricolour invariant: a marked object is
  waiting in the gray list, exempt, or refers to marked objects only. Each marking function is a
  \<open>mark_op\<close>: it keeps the invariant, marks what it is asked to, and pays for every entry of the gray list
  with an object newly marked, from which the termination of propagation follows.
\<close>

section \<open>References\<close>

definition vrefs :: "lua_value \<Rightarrow> gref set" where
  "vrefs v = set_option (map_option (RStr \<circ> unat) (as_string v)) \<union> set_option (map_option (RTab \<circ> unat) (as_table v)) \<union>
     set_option (map_option (RFunc \<circ> unat) (as_func v)) \<union> set_option (map_option (RThread \<circ> unat) (as_thread v)) \<union>
     set_option (map_option (RUdata \<circ> unat) (as_userdata v)) \<union> set_option (map_option (RCdata \<circ> unat) (as_cdata v))"

definition tab_refs :: "gheap \<Rightarrow> ltable \<Rightarrow> gref set" where
  "tab_refs h t =
     \<Union> (vrefs ` lua_table_value ` set_option (metatable t)) \<union>
     (if weak_mode h t AND WEAKVAL = 0 then \<Union> (vrefs ` set (arr t)) else {}) \<union>
     (if has_hpart t
      then \<Union>n\<in>{n \<in> set (nodes t). \<not> is_nil (n_val n)}.
             (if weak_mode h t AND WEAKKEY = 0 then vrefs (n_key n) else {}) \<union>
             (if weak_mode h t AND WEAKVAL = 0 then vrefs (n_val n) else {})
      else {})"

definition sid_refs :: "gheap \<Rightarrow> nat \<Rightarrow> gref set" where
  "sid_refs h i = RStr ` set_option (try_lookup (h_strings h) i)"

fun kgc_refs :: "gheap \<Rightarrow> gkgc \<Rightarrow> gref set" where
  "kgc_refs h (GkStr i) = sid_refs h i"
| "kgc_refs h (GkProtoRef p) = {RProto p}"
| "kgc_refs h (GkTable t) = tab_refs h t"
| "kgc_refs h (GkTableRef t) = {RTab t}"
| "kgc_refs h GkProto = {}"
| "kgc_refs h GkCData = {}"

fun func_refs :: "gcfunc \<Rightarrow> gref set" where
  "func_refs (FLua p e us) = {RProto p, RTab e} \<union> RUpval ` set us"
| "func_refs (FC e vs) = {RTab e} \<union> \<Union> (vrefs ` set vs)"

definition thread_refs :: "gthread \<Rightarrow> gref set" where
  "thread_refs l = \<Union> (vrefs ` set (take (mark_to l) (th_stack l))) \<union> vrefs (th_errval l) \<union> vrefs (th_hook l) \<union> RUpval ` set (th_openuv l)"

fun refs :: "gheap \<Rightarrow> gref \<Rightarrow> gref set" where
  "refs h (RStr a) = {}"
| "refs h (RTab a) = tab_refs h (tab_at h a)"
| "refs h (RFunc a) = func_refs (func_at h a)"
| "refs h (RProto a) = \<Union> (sid_refs h ` set_option (gp_source (proto_at h a))) \<union> \<Union> (kgc_refs h ` set (gp_kgc (proto_at h a)))"
| "refs h (RUpval a) = vrefs (uv_get h (upval_at h a))"
| "refs h (RThread a) = thread_refs (thread_at h a)"
| "refs h (RUdata a) = RTab ` set_option (ud_metatable (udata_at h a))"
| "refs h (RCdata a) = RCdata ` set_option (gcd_base (cdata_at h a))"

definition objs :: "gheap \<Rightarrow> gref set" where
  "objs h = RStr ` set (objects (ipool (h_strings h))) \<union> RTab ` set (objects (h_tables h)) \<union> RFunc ` set (objects (h_funcs h)) \<union>
     RProto ` set (objects (h_protos h)) \<union> RUpval ` set (objects (h_upvals h)) \<union> RThread ` set (objects (h_threads h)) \<union>
     RUdata ` set (objects (h_userdatas h)) \<union> RCdata ` set (objects (h_cdatas h))"

lemma finite_objs [simp]: "finite (objs h)"
  by (simp add: objs_def)

text \<open>A set of objects without dangling references, in which stacks reach up to their marked part, the closure of a
  suspended call is in its frame and open upvalues are below the top of their thread.\<close>

definition thread_ok :: "gthread \<Rightarrow> bool" where
  "thread_ok l \<longleftrightarrow> mark_to l \<le> length (th_stack l) \<and>
     (\<forall>cl. th_call_cl l = Some cl \<longrightarrow> RFunc cl \<in> \<Union> (vrefs ` set (take (mark_to l) (th_stack l))))"

definition upval_ok :: "gheap \<Rightarrow> upval \<Rightarrow> bool" where
  "upval_ok h u \<longleftrightarrow> (\<forall>th i. uv_loc u = UvOpen th i \<longrightarrow> RThread th \<in> objs h \<and> i < mark_to (thread_at h th))"

definition heap_closed :: "gref set \<Rightarrow> gheap \<Rightarrow> bool" where
  "heap_closed U h \<longleftrightarrow> U \<subseteq> objs h \<and> (\<forall>r\<in>U. refs h r \<subseteq> U) \<and> (\<forall>a. RThread a \<in> U \<longrightarrow> thread_ok (thread_at h a)) \<and>
     (\<forall>a. RUpval a \<in> U \<longrightarrow> upval_ok h (upval_at h a))"

section \<open>Headers and contents\<close>

lemma hdr_upd: "hdr (upd_hdr r f h) r' = (if r' = r then f (hdr h r) else hdr h r')"
  by (cases r; cases r') (auto simp: upd_pool_def)

lemma mem_upd_pool: "fst (mem (upd_pool a f p) b) = fst (mem p b)" "objects (upd_pool a f p) = objects p"
  by (simp_all add: upd_pool_def)

lemma at_upd [simp]: "tab_at (upd_hdr r f h) = tab_at h" "func_at (upd_hdr r f h) = func_at h" "proto_at (upd_hdr r f h) = proto_at h"
  "upval_at (upd_hdr r f h) = upval_at h" "thread_at (upd_hdr r f h) = thread_at h" "udata_at (upd_hdr r f h) = udata_at h"
  "cdata_at (upd_hdr r f h) = cdata_at h" "str_bytes (upd_hdr r f h) = str_bytes h"
  "try_lookup (h_strings (upd_hdr r f h)) = try_lookup (h_strings h)" "objs (upd_hdr r f h) = objs h"
  "objects (h_cdatas (upd_hdr r f h)) = objects (h_cdatas h)"
  by (cases r; simp add: tab_at_def func_at_def proto_at_def upval_at_def thread_at_def udata_at_def cdata_at_def str_bytes_def
      mem_upd_pool try_lookup_def objs_def fun_eq_iff)+

text \<open>The heap without its headers, the stacks and the list of threads to visit again: what marking leaves alone.\<close>

definition bare :: "'a pool \<Rightarrow> 'a pool" where
  "bare p = p\<lparr>mem := \<lambda>a. (fst (mem p a), header_new 0)\<rparr>"

definition strip :: "gheap \<Rightarrow> gheap" where
  "strip h = h\<lparr>h_strings := (h_strings h)\<lparr>ipool := bare (ipool (h_strings h))\<rparr>, h_tables := bare (h_tables h), h_funcs := bare (h_funcs h),
     h_protos := bare (h_protos h), h_upvals := bare (h_upvals h), h_cdatas := bare (h_cdatas h), h_userdatas := bare (h_userdatas h),
     h_threads := (h_threads h)\<lparr>mem := mem (pool_new undefined)\<rparr>, gc_grayagain := []\<rparr>"

lemma bare_upd [simp]: "bare (upd_pool a f p) = bare p"
  by (simp add: bare_def upd_pool_def fun_eq_iff)

lemma strip_upd [simp]: "strip (upd_hdr r f h) = strip h"
  by (cases r) (simp_all add: strip_def upd_pool_def[of _ _ "h_threads h"])

lemma grayagain_upd [simp]: "gc_grayagain (upd_hdr r f h) = gc_grayagain h"
  by (cases r) simp_all

declare upd_hdr.simps [simp del]

lemma scan_nodes_upd [simp]: "scan_nodes (upd_hdr r f h) key ns = scan_nodes h key ns"
  by (induction ns) (auto split: option.splits)

lemma weak_mode_upd [simp]: "weak_mode (upd_hdr r f h) t = weak_mode h t"
  by (simp add: weak_mode_def scan_str_key_def split: option.splits)

lemma tab_refs_upd [simp]: "tab_refs (upd_hdr r f h) t = tab_refs h t"
  by (simp add: tab_refs_def)

lemma sid_refs_upd [simp]: "sid_refs (upd_hdr r f h) i = sid_refs h i"
  by (simp add: sid_refs_def)

lemma kgc_refs_upd [simp]: "kgc_refs (upd_hdr r f h) k = kgc_refs h k"
  by (cases k) auto

lemma refs_upd [simp]: "refs (upd_hdr r f h) r' = refs h r'"
  by (cases r') (auto simp: uv_get_def split: uvloc.splits)

text \<open>Heaps with the same objects.\<close>

definition alike :: "gheap \<Rightarrow> gheap \<Rightarrow> bool" where
  "alike h h' \<longleftrightarrow> tab_at h' = tab_at h \<and> func_at h' = func_at h \<and> proto_at h' = proto_at h \<and> upval_at h' = upval_at h \<and>
     thread_at h' = thread_at h \<and> udata_at h' = udata_at h \<and> cdata_at h' = cdata_at h \<and> str_bytes h' = str_bytes h \<and>
     try_lookup (h_strings h') = try_lookup (h_strings h) \<and> objs h' = objs h \<and> objects (h_cdatas h') = objects (h_cdatas h)"

definition same :: "gheap \<Rightarrow> gheap \<Rightarrow> bool" where
  "same h h' \<longleftrightarrow> alike h h' \<and> strip h' = strip h"

lemmas same_defs = same_def alike_def

lemma same_refl [simp]: "same h h"
  by (simp add: same_defs)

lemma same_trans [trans]: "same a b \<Longrightarrow> same b c \<Longrightarrow> same a c"
  by (simp add: same_defs)

lemma same_upd [simp]: "same h (upd_hdr r f h)"
  by (simp add: same_defs)

lemma alike_refs:
  assumes "alike h h'"
  shows "weak_mode h' = weak_mode h" "gc_traverse h' = gc_traverse h" "tab_refs h' = tab_refs h" "uv_get h' = uv_get h" "kgc_refs h' = kgc_refs h"
    "refs h' = refs h" "objs h' = objs h" "heap_closed U h' = heap_closed U h"
proof -
  have sc: "scan_nodes h' k ns = scan_nodes h k ns" for k ns
    using assms by (induction ns) (auto simp: alike_def split: option.splits)
  show w: "weak_mode h' = weak_mode h"
    using assms by (auto simp: weak_mode_def scan_str_key_def sc alike_def fun_eq_iff split: option.splits)
  show "gc_traverse h' = gc_traverse h" by (simp add: gc_traverse_def w fun_eq_iff)
  show t: "tab_refs h' = tab_refs h" by (simp add: tab_refs_def w fun_eq_iff)
  show u: "uv_get h' = uv_get h" using assms by (auto simp: uv_get_def fun_eq_iff alike_def split: uvloc.splits)
  have s: "sid_refs h' = sid_refs h" using assms by (simp add: sid_refs_def alike_def fun_eq_iff)
  have "kgc_refs h' k = kgc_refs h k" for k by (cases k) (simp_all add: s t)
  then show k: "kgc_refs h' = kgc_refs h" by blast
  have "refs h' r = refs h r" for r using assms by (cases r) (simp_all add: s t u k alike_def)
  then show r: "refs h' = refs h" by blast
  show o: "objs h' = objs h" using assms by (simp add: alike_def)
  show "heap_closed U h' = heap_closed U h" using assms by (simp add: heap_closed_def upval_ok_def r alike_def)
qed

lemma same_alike: "same h h' \<Longrightarrow> alike h h'"
  by (simp add: same_def)

lemmas same_refs = alike_refs[OF same_alike]

section \<open>The marking relation\<close>

inductive_set reach :: "gheap \<Rightarrow> gref set \<Rightarrow> gref set" for h R where
  reach_root: "r \<in> R \<Longrightarrow> r \<in> reach h R"
| reach_step: "r \<in> reach h R \<Longrightarrow> s \<in> refs h r \<Longrightarrow> s \<in> reach h R"

lemma reach_subset: "S \<subseteq> reach h T \<Longrightarrow> reach h S \<subseteq> reach h T"
proof
  fix r assume "r \<in> reach h S" "S \<subseteq> reach h T"
  then show "r \<in> reach h T" by induction (auto intro: reach_step)
qed

lemma reach_mono: "S \<subseteq> T \<Longrightarrow> reach h S \<subseteq> reach h T"
  by (rule reach_subset) (auto intro: reach_root)

lemma reach_closed: "S \<subseteq> M \<Longrightarrow> (\<And>r. r \<in> M \<Longrightarrow> refs h r \<subseteq> M) \<Longrightarrow> reach h S \<subseteq> M"
proof
  fix r assume "r \<in> reach h S" "S \<subseteq> M" "\<And>r. r \<in> M \<Longrightarrow> refs h r \<subseteq> M"
  then show "r \<in> M" by induction blast+
qed

lemma reach_le: "(\<And>r. r \<in> reach h R \<Longrightarrow> refs h r \<subseteq> refs h' r) \<Longrightarrow> reach h R \<subseteq> reach h' R"
proof
  fix r assume a: "\<And>r. r \<in> reach h R \<Longrightarrow> refs h r \<subseteq> refs h' r" and "r \<in> reach h R"
  from this(2) show "r \<in> reach h' R" by induction (use a in \<open>blast intro: reach_root reach_step\<close>)+
qed

text \<open>The kinds of object that the gray list holds.\<close>

fun grayable :: "gref \<Rightarrow> bool" where
  "grayable (RTab _) = True" | "grayable (RFunc _) = True" | "grayable (RProto _) = True" | "grayable (RThread _) = True"
| "grayable _ = False"

definition Mk :: "marker \<Rightarrow> gref set" where "Mk m = {r. is_marked (mk_heap m) r}"

definition work :: "gref set \<Rightarrow> marker \<Rightarrow> nat" where "work U m = length (mk_gray m) + card (U - Mk m)"

text \<open>\<open>grows U X S m m'\<close>: marking led from \<open>m\<close> to \<open>m'\<close>, marked \<open>S\<close>, and every object marked on the way is in
  \<open>X\<close>, waits in the gray list, or refers to marked objects only.\<close>

definition grows :: "gref set \<Rightarrow> gref set \<Rightarrow> gref set \<Rightarrow> marker \<Rightarrow> marker \<Rightarrow> bool" where
  "grows U X S m m' \<longleftrightarrow> same (mk_heap m) (mk_heap m') \<and> Mk m \<subseteq> Mk m' \<and> S \<subseteq> Mk m' \<and> Mk m' \<subseteq> Mk m \<union> U \<and>
     set (mk_gray m) \<subseteq> set (mk_gray m') \<and> set (mk_gray m') \<subseteq> set (mk_gray m) \<union> (Mk m' \<inter> U \<inter> Collect grayable) \<and>
     Mk m' \<subseteq> Mk m \<union> reach (mk_heap m) S \<and>
     (\<forall>r\<in>Mk m' - Mk m. r \<in> X \<or> r \<in> set (mk_gray m') \<or> refs (mk_heap m) r \<subseteq> Mk m') \<and> work U m' \<le> work U m \<and>
     mk_atomic m' = mk_atomic m \<and> gc_grayagain (mk_heap m') = gc_grayagain (mk_heap m) \<and>
     (\<forall>r. r \<notin> Mk m' \<longrightarrow> hdr (mk_heap m') r = hdr (mk_heap m) r) \<and>
     (\<forall>r\<in>Mk m' - Mk m. grayable r \<longrightarrow> r \<in> set (mk_gray m')) \<and> mk_weak m' = mk_weak m"

lemma growsD:
  assumes "grows U X S m m'"
  shows "same (mk_heap m) (mk_heap m')" "Mk m \<subseteq> Mk m'" "S \<subseteq> Mk m'" "Mk m' \<subseteq> Mk m \<union> U"
    "set (mk_gray m) \<subseteq> set (mk_gray m')" "work U m' \<le> work U m" "mk_atomic m' = mk_atomic m"
    "heap_closed U (mk_heap m) \<Longrightarrow> heap_closed U (mk_heap m')" "objs (mk_heap m') = objs (mk_heap m)" "refs (mk_heap m') = refs (mk_heap m)"
    "gc_grayagain (mk_heap m') = gc_grayagain (mk_heap m)" "r \<notin> Mk m' \<Longrightarrow> hdr (mk_heap m') r = hdr (mk_heap m) r"
    "r \<in> Mk m' \<Longrightarrow> r \<notin> Mk m \<Longrightarrow> grayable r \<Longrightarrow> r \<in> set (mk_gray m')" "mk_weak m' = mk_weak m"
  using assms same_refs(6-8)[of "mk_heap m" "mk_heap m'"] by (simp_all add: grows_def)

lemma grows_refl [simp]: "grows U X S m m \<longleftrightarrow> S \<subseteq> Mk m"
  by (auto simp: grows_def)

lemma same_reach: "same h h' \<Longrightarrow> reach h' = reach h"
proof
  fix R assume "same h h'"
  then have "refs h' = refs h" by (rule same_refs(6))
  then show "reach h' R = reach h R" using reach_le[of h R h'] reach_le[of h' R h] by auto
qed

lemma grows_trans:
  assumes 1: "grows U X S m m1" and 2: "grows U Y T m1 m2"
  shows "grows U (X \<union> Y) (S \<union> T) m m2"
proof -
  have o: "refs (mk_heap m1) = refs (mk_heap m)" using growsD(10)[OF 1] by auto
  have s: "same (mk_heap m) (mk_heap m2)" using growsD(1)[OF 1] growsD(1)[OF 2] by (rule same_trans)
  have c: "r \<in> X \<union> Y \<or> r \<in> set (mk_gray m2) \<or> refs (mk_heap m) r \<subseteq> Mk m2" if r: "r \<in> Mk m2 - Mk m" for r
  proof (cases "r \<in> Mk m1")
    case True
    then have "r \<in> X \<or> r \<in> set (mk_gray m1) \<or> refs (mk_heap m) r \<subseteq> Mk m1" using 1 r by (simp add: grows_def)
    then show ?thesis using growsD(2,5)[OF 2] by blast
  next
    case False
    then show ?thesis using 2 r o by (auto simp: grows_def)
  qed
  have "Mk m2 \<subseteq> Mk m \<union> (reach (mk_heap m) S \<union> reach (mk_heap m) T)"
    using 1 2 same_reach[OF growsD(1)[OF 1]] by (auto simp: grows_def)
  then have p: "Mk m2 \<subseteq> Mk m \<union> reach (mk_heap m) (S \<union> T)"
    using reach_mono[of S "S \<union> T" "mk_heap m"] reach_mono[of T "S \<union> T" "mk_heap m"] by blast
  have gn: "\<forall>r\<in>Mk m2 - Mk m. grayable r \<longrightarrow> r \<in> set (mk_gray m2)"
    using growsD(13)[OF 1] growsD(13)[OF 2] growsD(5)[OF 2] by blast
  show ?thesis unfolding grows_def
    using s c p gn growsD(1-12,14)[OF 1] growsD(1-12,14)[OF 2] 1 2 o unfolding grows_def by (auto 0 4)
qed

lemma grows_mono: "grows U X S m m' \<Longrightarrow> T \<subseteq> S \<Longrightarrow> S \<subseteq> reach (mk_heap m) T \<Longrightarrow> grows U X T m m'"
  using reach_subset[of S "mk_heap m" T] unfolding grows_def by (auto 0 4)

lemma grows_close: "grows U X S m m' \<Longrightarrow> (\<And>r. r \<in> X \<Longrightarrow> refs (mk_heap m) r \<subseteq> Mk m') \<Longrightarrow> grows U {} S m m'"
  unfolding grows_def by (metis (no_types, lifting) empty_iff)

lemma grows_fold:
  assumes "\<And>x m. x \<in> set xs \<Longrightarrow> same h (mk_heap m) \<Longrightarrow> grows U {} (S x) m (f x m)" "same h (mk_heap m)"
  shows "grows U {} (\<Union> (S ` set xs)) m (fold f xs m)"
  using assms
proof (induction xs arbitrary: m)
  case (Cons x xs)
  have 1: "grows U {} (S x) m (f x m)" by (simp add: Cons.prems)
  have "grows U {} (\<Union> (S ` set xs)) (f x m) (fold f xs (f x m))"
    by (rule Cons.IH) (simp_all add: Cons.prems same_trans[OF Cons.prems(2) growsD(1)[OF 1]])
  from grows_trans[OF 1 this] show ?case by simp
qed simp

section \<open>The marking functions\<close>

lemma mk_mark_simps [simp]: "mk_gray (mk_mark r m) = mk_gray m" "mk_atomic (mk_mark r m) = mk_atomic m" "mk_weak (mk_mark r m) = mk_weak m"
  "mk_heap (mk_mark r m) = upd_hdr r set_marked (mk_heap m)"
  by (simp_all add: mk_mark_def heap_mark_def)

lemma Mk_mark [simp]: "Mk (mk_mark r m) = insert r (Mk m)"
  by (auto simp: Mk_def is_marked_def hdr_upd set_marked_def nw2black_def)

lemma Mk_gray [simp]: "Mk (m\<lparr>mk_gray := g\<rparr>) = Mk m"
  by (simp add: Mk_def)

lemma closed_finite: "heap_closed U h \<Longrightarrow> finite U"
  by (rule finite_subset[of _ "objs h"]) (simp_all add: heap_closed_def)

lemma mk_mark_grows:
  assumes "heap_closed U (mk_heap m)" "r \<in> U" "\<not> grayable r"
  shows "grows U {r} {r} m (mk_mark r m)"
proof -
  have "card (U - insert r (Mk m)) \<le> card (U - Mk m)"
    by (rule card_mono) (use closed_finite[OF assms(1)] in auto)
  then show ?thesis using assms by (auto simp: grows_def work_def reach_root hdr_upd)
qed

lemma mk_mark_leaf: "heap_closed U (mk_heap m) \<Longrightarrow> r \<in> U \<Longrightarrow> \<not> grayable r \<Longrightarrow> refs (mk_heap m) r = {} \<Longrightarrow> grows U {} {r} m (mk_mark r m)"
  by (rule grows_close[OF mk_mark_grows]) auto

lemma mk_mark_then:
  assumes "heap_closed U (mk_heap m)" "r \<in> U" "\<not> grayable r" "grows U {} (refs (mk_heap m) r) (mk_mark r m) m'"
  shows "grows U {} {r} m m'"
proof -
  have "grows U {r} ({r} \<union> refs (mk_heap m) r) m m'" using grows_trans[OF mk_mark_grows[OF assms(1-3)] assms(4)] by simp
  then show ?thesis
    by (rule grows_close[OF grows_mono]) (use growsD(3)[OF assms(4)] in \<open>auto intro: reach_root reach_step[where r = r]\<close>)
qed

lemma mark_push_grows:
  assumes "heap_closed U (mk_heap m)" "r \<in> U" "grayable r"
  shows "grows U {} {r} m (mark_push r m)"
proof (cases "r \<in> Mk m")
  case True
  then show ?thesis by (simp add: mark_push_def Mk_def)
next
  case False
  then have e: "mark_push r m = (mk_mark r m)\<lparr>mk_gray := r # mk_gray m\<rparr>" by (simp add: mark_push_def Mk_def)
  have "U - insert r (Mk m) = (U - Mk m) - {r}" by auto
  moreover have "card ((U - Mk m) - {r}) < card (U - Mk m)"
    by (rule card_Diff1_less) (use assms False closed_finite[OF assms(1)] in auto)
  ultimately show ?thesis using assms unfolding e by (auto simp: grows_def work_def reach_root hdr_upd)
qed

lemmas mark_table_grows = mark_push_grows[where r = "RTab _", folded mark_table_def, simplified]
  and mark_proto_grows = mark_push_grows[where r = "RProto _", folded mark_proto_def, simplified]

lemma closedD: "heap_closed U h \<Longrightarrow> r \<in> U \<Longrightarrow> refs h r \<subseteq> U"
  by (simp add: heap_closed_def)

lemma closed_same: "heap_closed U h \<Longrightarrow> same h h' \<Longrightarrow> heap_closed U h'"
  using same_refs(8) by blast

lemma mark_udata_grows:
  assumes c: "heap_closed U (mk_heap m)" and r: "RUdata a \<in> U"
  shows "grows U {} {RUdata a} m (mark_udata a m)"
proof (cases "is_marked (mk_heap m) (RUdata a)")
  case True
  then show ?thesis by (simp add: mark_udata_def Mk_def)
next
  case False
  have "grows U {} (refs (mk_heap m) (RUdata a)) (mk_mark (RUdata a) m) (mark_udata a m)"
    using False closedD[OF c r] closed_same[OF c] by (auto simp: mark_udata_def Let_def intro!: mark_table_grows split: option.split)
  from mk_mark_then[OF c r _ this] show ?thesis by simp
qed

definition white_cdatas :: "gref set \<Rightarrow> marker \<Rightarrow> addr set" where
  "white_cdatas U m = {a. RCdata a \<in> U - Mk m}"

lemma white_bound:
  assumes "heap_closed U (mk_heap m)"
  shows "finite (white_cdatas U m)" "card (white_cdatas U m) \<le> length (objects (h_cdatas (mk_heap m)))"
proof -
  have s: "white_cdatas U m \<subseteq> set (objects (h_cdatas (mk_heap m)))" using assms by (auto simp: white_cdatas_def heap_closed_def objs_def)
  then show "finite (white_cdatas U m)" by (rule finite_subset) simp
  have "card (white_cdatas U m) \<le> card (set (objects (h_cdatas (mk_heap m))))" using s by (rule card_mono[rotated]) simp
  then show "card (white_cdatas U m) \<le> length (objects (h_cdatas (mk_heap m)))" using card_length le_trans by blast
qed

lemma white_mark: "white_cdatas U (mk_mark (RCdata a) m) = white_cdatas U m - {a}"
  by (auto simp: white_cdatas_def)

lemma mark_cdata_grows:
  assumes "heap_closed U (mk_heap m)" "RCdata a \<in> U" "card (white_cdatas U m) \<le> n"
  shows "grows U {} {RCdata a} m (mark_cdata n a m)"
  using assms
proof (induction n arbitrary: a m)
  case 0
  then have "a \<notin> white_cdatas U m" using white_bound(1)[OF 0(1)] by simp
  then show ?case using 0 by (simp add: white_cdatas_def)
next
  case (Suc n)
  note c = closed_same[OF Suc.prems(1) same_upd[of _ "RCdata a" set_marked]]
  show ?case
  proof (cases "is_marked (mk_heap m) (RCdata a)")
    case True
    then show ?thesis by (simp add: Mk_def)
  next
    case False
    then have "card (white_cdatas U (mk_mark (RCdata a) m)) < card (white_cdatas U m)"
      unfolding white_mark by (intro card_Diff1_less white_bound(1) Suc.prems(1)) (use Suc.prems(2) in \<open>simp add: white_cdatas_def Mk_def\<close>)
    then have w: "card (white_cdatas U (mk_mark (RCdata a) m)) \<le> n" using Suc.prems(3) by simp
    have "grows U {} (refs (mk_heap m) (RCdata a)) (mk_mark (RCdata a) m) (mark_cdata (Suc n) a m)"
      using False closedD[OF Suc.prems(1,2)] c w by (auto simp: Let_def intro!: Suc.IH split: option.split)
    from mk_mark_then[OF Suc.prems(1,2) _ this] show ?thesis by simp
  qed
qed

lemma vrefs_kinds:
  "vrefs v =
     (if itype v = LJ_TSTR then RStr ` unat ` set_option (as_string v) else if itype v = LJ_TTAB then RTab ` unat ` set_option (as_table v)
      else if itype v = LJ_TFUNC then RFunc ` unat ` set_option (as_func v) else if itype v = LJ_TTHREAD then RThread ` unat ` set_option (as_thread v)
      else if itype v = LJ_TUDATA then RUdata ` unat ` set_option (as_userdata v)
      else if itype v = LJ_TCDATA then RCdata ` unat ` set_option (as_cdata v) else {})"
  by (auto simp: vrefs_def as_string_def as_table_def as_func_def as_thread_def as_userdata_def as_cdata_def
      is_string_def is_table_def is_func_def is_thread_def is_userdata_def is_cdata_def image_image option.set_map itype_defs)

lemma mark_value_grows:
  assumes c: "heap_closed U (mk_heap m)" and v: "vrefs v \<subseteq> U"
  shows "grows U {} (vrefs v) m (mark_value v m)"
proof -
  consider "itype v = LJ_TSTR" | "itype v = LJ_TTAB" | "itype v = LJ_TFUNC" | "itype v = LJ_TTHREAD" | "itype v = LJ_TUDATA"
    | "itype v = LJ_TCDATA" | "itype v \<notin> {LJ_TSTR, LJ_TTAB, LJ_TFUNC, LJ_TTHREAD, LJ_TUDATA, LJ_TCDATA}" by blast
  then show ?thesis
  proof cases
    case 1
    then show ?thesis using v by (cases "as_string v") (simp_all add: vrefs_kinds mark_value_def mk_mark_leaf c)
  next
    case 2
    then have "itype v \<noteq> LJ_TSTR" by (simp add: itype_defs)
    then show ?thesis using v 2 by (cases "as_table v") (simp_all add: vrefs_kinds mark_value_def mark_push_grows c)
  next
    case 3
    then have "itype v \<noteq> LJ_TSTR" "itype v \<noteq> LJ_TTAB" by (simp_all add: itype_defs)
    then show ?thesis using v 3 by (cases "as_func v") (simp_all add: vrefs_kinds mark_value_def mark_push_grows c)
  next
    case 4
    then have "itype v \<noteq> LJ_TSTR" "itype v \<noteq> LJ_TTAB" "itype v \<noteq> LJ_TFUNC" by (simp_all add: itype_defs)
    then show ?thesis using v 4 by (cases "as_thread v") (simp_all add: vrefs_kinds mark_value_def mark_push_grows c)
  next
    case 5
    then have "itype v \<noteq> LJ_TSTR" "itype v \<noteq> LJ_TTAB" "itype v \<noteq> LJ_TFUNC" "itype v \<noteq> LJ_TTHREAD" by (simp_all add: itype_defs)
    then show ?thesis using v 5 c by (cases "as_userdata v") (simp_all add: vrefs_kinds mark_value_def mark_udata_grows)
  next
    case 6
    then have "itype v \<noteq> LJ_TSTR" "itype v \<noteq> LJ_TTAB" "itype v \<noteq> LJ_TFUNC" "itype v \<noteq> LJ_TTHREAD" "itype v \<noteq> LJ_TUDATA"
      by (simp_all add: itype_defs)
    then show ?thesis using v 6 c by (cases "as_cdata v") (simp_all add: vrefs_kinds mark_value_def mark_cdata_grows white_bound)
  next
    case 7
    then show ?thesis by (simp add: vrefs_kinds mark_value_def)
  qed
qed

lemma fold_values_grows:
  assumes "heap_closed U (mk_heap m)" "\<Union> (vrefs ` set vs) \<subseteq> U"
  shows "grows U {} (\<Union> (vrefs ` set vs)) m (fold mark_value vs m)"
proof (rule grows_fold[where h = "mk_heap m"])
  fix v and m' :: marker assume "v \<in> set vs" "same (mk_heap m) (mk_heap m')"
  then show "grows U {} (vrefs v) m' (mark_value v m')"
    using assms closed_same by (intro mark_value_grows) (blast, fast)
qed simp

lemma mark_upval_grows:
  assumes c: "heap_closed U (mk_heap m)" and r: "RUpval a \<in> U"
  shows "grows U {} {RUpval a} m (mark_upval a m)"
proof (cases "is_marked (mk_heap m) (RUpval a)")
  case True
  then show ?thesis by (simp add: mark_upval_def Mk_def)
next
  case False
  have "grows U {} (refs (mk_heap m) (RUpval a)) (mk_mark (RUpval a) m) (mark_upval a m)"
    using False closedD[OF c r] closed_same[OF c] by (auto simp: mark_upval_def intro!: mark_value_grows)
  from mk_mark_then[OF c r _ this] show ?thesis by simp
qed

lemma fold_upvals_grows:
  assumes "heap_closed U (mk_heap m)" "RUpval ` set us \<subseteq> U"
  shows "grows U {} (RUpval ` set us) m (fold mark_upval us m)"
proof -
  have "grows U {} (\<Union> ((\<lambda>a. {RUpval a}) ` set us)) m (fold mark_upval us m)"
  proof (rule grows_fold[where h = "mk_heap m"])
    fix a and m' :: marker assume "a \<in> set us" "same (mk_heap m) (mk_heap m')"
    then show "grows U {} {RUpval a} m' (mark_upval a m')"
      using assms closed_same by (intro mark_upval_grows) (blast, fast)
  qed simp
  then show ?thesis by (simp add: UNION_singleton_eq_range)
qed

section \<open>Visiting an object\<close>

lemma traverse_refs: "\<Union> (vrefs ` set (fst (gc_traverse h t))) = tab_refs h t"
  by (cases "metatable t") (auto simp: gc_traverse_def tab_refs_def Let_def split: if_splits)

lemma fold_traverse_grows:
  assumes "heap_closed U (mk_heap m)" "tab_refs (mk_heap m) t \<subseteq> U"
  shows "grows U {} (tab_refs (mk_heap m) t) m (fold mark_value (fst (gc_traverse (mk_heap m) t)) m)"
  using fold_values_grows[OF assms(1), of "fst (gc_traverse (mk_heap m) t)"] assms(2) by (simp add: traverse_refs)

lemma mark_sid_grows: "heap_closed U (mk_heap m) \<Longrightarrow> sid_refs (mk_heap m) i \<subseteq> U \<Longrightarrow> grows U {} (sid_refs (mk_heap m) i) m (mark_sid i m)"
  by (cases "try_lookup (h_strings (mk_heap m)) i") (simp_all add: mark_sid_def sid_refs_def mk_mark_leaf)

lemma mark_kgc_grows:
  assumes "heap_closed U (mk_heap m)" "kgc_refs (mk_heap m) k \<subseteq> U"
  shows "grows U {} (kgc_refs (mk_heap m) k) m (mark_kgc k m)"
  using assms by (cases k) (simp_all add: mark_kgc_def mark_sid_grows mark_proto_grows mark_table_grows fold_traverse_grows)

text \<open>What a visit adds to the list of weak tables.\<close>

definition weak_visit :: "gref \<Rightarrow> marker \<Rightarrow> (addr \<times> u8) list \<Rightarrow> bool" where
  "weak_visit g m ws \<longleftrightarrow> set (mk_weak m) \<subseteq> set ws \<and>
     (\<forall>t w. (t, w) \<in> set ws \<longrightarrow> (t, w) \<notin> set (mk_weak m) \<longrightarrow>
        g = RTab t \<and> w \<noteq> 0 \<and> w = weak_mode (mk_heap m) (tab_at (mk_heap m) t)) \<and>
     (\<forall>t. g = RTab t \<and> weak_mode (mk_heap m) (tab_at (mk_heap m) t) \<noteq> 0 \<longrightarrow> t \<in> fst ` set ws)"

lemma traverse_mode: "snd (gc_traverse h t) = weak_mode h t"
  by (simp add: gc_traverse_def Let_def)

lemma weak_visit_other: "(\<And>t. g \<noteq> RTab t) \<Longrightarrow> weak_visit g m (mk_weak m)"
  by (simp add: weak_visit_def)

lemma visit_table_grows:
  assumes c: "heap_closed U (mk_heap m)" and r: "RTab t \<in> U"
  obtains m4 ws where "grows U {} (refs (mk_heap m) (RTab t)) m m4" "visit_table t m = m4\<lparr>mk_weak := ws\<rparr>" "weak_visit (RTab t) m ws"
proof -
  let ?h = "mk_heap m" let ?T = "gc_traverse ?h (tab_at ?h t)"
  let ?m4 = "fold mark_value (fst ?T) m"
  let ?ws = "mk_weak (collect_weak t (snd ?T) ?m4)"
  have g: "grows U {} (refs ?h (RTab t)) m ?m4"
    using fold_traverse_grows[OF c, of "tab_at ?h t"] closedD[OF c r] by simp
  have "visit_table t m = ?m4\<lparr>mk_weak := ?ws\<rparr>" by (simp add: visit_table_def collect_weak_def split_beta)
  moreover have "weak_visit (RTab t) m ?ws"
    using growsD(14)[OF g] by (auto simp: weak_visit_def collect_weak_def traverse_mode list_ex_iff rev_image_eqI split: if_splits)
  ultimately show thesis using that g by blast
qed

lemma grows_seq:
  assumes "grows U {} S m m1" "grows U {} T m1 m2"
  shows "grows U {} (S \<union> T) m m2"
  using grows_trans[OF assms] by simp

lemma visit_func_grows:
  assumes c: "heap_closed U (mk_heap m)" and r: "RFunc f \<in> U"
  shows "grows U {} (refs (mk_heap m) (RFunc f)) m (visit_func f m)"
proof (cases "func_at (mk_heap m) f")
  case (FLua p e us)
  then have o: "RTab e \<in> U" "RProto p \<in> U" "RUpval ` set us \<subseteq> U"
    using closedD[OF c r] by auto
  note 1 = mark_table_grows[OF c o(1)]
  have 2: "grows U {} {RProto p} (mark_table e m) (mark_proto p (mark_table e m))"
    by (rule mark_proto_grows) (use o growsD(8)[OF 1 c] in simp_all)
  note 12 = grows_seq[OF 1 2]
  have 3: "grows U {} (RUpval ` set us) (mark_proto p (mark_table e m)) (visit_func f m)"
    using fold_upvals_grows[OF growsD(8)[OF 12 c], of us] o(3) growsD(9)[OF 12] by (simp add: visit_func_def FLua)
  show ?thesis using grows_seq[OF 12 3] by (simp add: FLua insert_commute)
next
  case (FC e vs)
  then have o: "RTab e \<in> U" "\<Union> (vrefs ` set vs) \<subseteq> U" using closedD[OF c r] by auto
  note 1 = mark_table_grows[OF c o(1)]
  have 2: "grows U {} (\<Union> (vrefs ` set vs)) (mark_table e m) (visit_func f m)"
    using fold_values_grows[OF growsD(8)[OF 1 c], of vs] o(2) growsD(9)[OF 1] by (simp add: visit_func_def FC)
  show ?thesis using grows_seq[OF 1 2] by (simp add: FC)
qed

lemma visit_proto_grows:
  assumes c: "heap_closed U (mk_heap m)" and r: "RProto p \<in> U"
  shows "grows U {} (refs (mk_heap m) (RProto p)) m (visit_proto p m)"
proof -
  let ?pt = "proto_at (mk_heap m) p" and ?h = "mk_heap m"
  let ?m1 = "case gp_source ?pt of Some i \<Rightarrow> mark_sid i m | None \<Rightarrow> m"
  have o: "\<Union> (sid_refs ?h ` set_option (gp_source ?pt)) \<subseteq> U" "\<Union> (kgc_refs ?h ` set (gp_kgc ?pt)) \<subseteq> U"
    using closedD[OF c r] by auto
  have 1: "grows U {} (\<Union> (sid_refs ?h ` set_option (gp_source ?pt))) m ?m1"
    using o(1) mark_sid_grows[OF c] by (cases "gp_source ?pt") auto
  have "grows U {} (\<Union> (kgc_refs ?h ` set (gp_kgc ?pt))) ?m1 (fold mark_kgc (gp_kgc ?pt) ?m1)"
  proof (rule grows_fold[where h = ?h])
    fix k and m' :: marker assume k: "k \<in> set (gp_kgc ?pt)" and s: "same ?h (mk_heap m')"
    show "grows U {} (kgc_refs ?h k) m' (mark_kgc k m')"
      using mark_kgc_grows[OF closed_same[OF c s], of k] k o(2) same_refs(5,7)[OF s] by fastforce
  qed (use growsD(1)[OF 1] in simp)
  from grows_seq[OF 1 this] show ?thesis by (simp add: visit_proto_def Let_def)
qed

text \<open>Heaps that differ only in the stack slots above the marked part.\<close>

definition stack_same :: "gthread \<Rightarrow> gthread \<Rightarrow> bool" where
  "stack_same l l' \<longleftrightarrow> length (th_stack l') = length (th_stack l) \<and>
     take (mark_to l) (th_stack l') = take (mark_to l) (th_stack l) \<and> l' = l\<lparr>th_stack := th_stack l'\<rparr>"

definition keeps :: "gheap \<Rightarrow> gheap \<Rightarrow> bool" where
  "keeps h h' \<longleftrightarrow> tab_at h' = tab_at h \<and> func_at h' = func_at h \<and> proto_at h' = proto_at h \<and> upval_at h' = upval_at h \<and>
     (\<forall>a. stack_same (thread_at h a) (thread_at h' a)) \<and> udata_at h' = udata_at h \<and> cdata_at h' = cdata_at h \<and>
     str_bytes h' = str_bytes h \<and> try_lookup (h_strings h') = try_lookup (h_strings h) \<and> objs h' = objs h \<and> strip h' = strip h"

lemma stack_same_facts:
  assumes "stack_same l l'"
  shows "mark_to l' = mark_to l" "thread_refs l' = thread_refs l" "thread_ok l' = thread_ok l"
    "i < mark_to l \<Longrightarrow> th_stack l' ! i = th_stack l ! i"
proof -
  have l: "l' = l\<lparr>th_stack := th_stack l'\<rparr>" and t: "take (mark_to l) (th_stack l') = take (mark_to l) (th_stack l)"
    and n: "length (th_stack l') = length (th_stack l)" using assms by (auto simp: stack_same_def)
  show m: "mark_to l' = mark_to l" by (subst l) (simp add: mark_to_def)
  have f: "th_errval l' = th_errval l" "th_hook l' = th_hook l" "th_openuv l' = th_openuv l" "th_call_cl l' = th_call_cl l"
    by (subst l, simp)+
  show "thread_refs l' = thread_refs l" by (simp add: thread_refs_def m t f)
  show "thread_ok l' = thread_ok l" by (simp add: thread_ok_def m t f n)
  show "th_stack l' ! i = th_stack l ! i" if "i < mark_to l" using t that by (metis nth_take)
qed

lemma keeps_refl [simp]: "keeps h h"
  by (simp add: keeps_def stack_same_def)

lemma stack_same_trans: "stack_same a b \<Longrightarrow> stack_same b c \<Longrightarrow> stack_same a c"
proof -
  assume a: "stack_same a b" and b: "stack_same b c"
  have "mark_to b = mark_to a" by (rule stack_same_facts(1)[OF a])
  then show ?thesis using a b unfolding stack_same_def
    by (metis gthread.select_convs(1) gthread.surjective gthread.update_convs(1))
qed

lemma keeps_trans: "keeps a b \<Longrightarrow> keeps b c \<Longrightarrow> keeps a c"
  unfolding keeps_def by (metis stack_same_trans)

lemma same_keeps: "same h h' \<Longrightarrow> keeps h h'"
  by (simp add: same_defs keeps_def stack_same_def)

lemma keeps_refs:
  assumes k: "keeps h h'" and c: "heap_closed U h"
  shows "objs h' = objs h" "r \<in> U \<Longrightarrow> refs h' r = refs h r" "heap_closed U h'"
proof -
  show o: "objs h' = objs h" using k by (simp add: keeps_def)
  have sc: "scan_nodes h' key ns = scan_nodes h key ns" for key ns
    using k by (induction ns) (auto simp: keeps_def split: option.splits)
  have w: "weak_mode h' = weak_mode h"
    using k by (auto simp: weak_mode_def scan_str_key_def sc keeps_def fun_eq_iff split: option.splits)
  have t: "tab_refs h' = tab_refs h" by (simp add: tab_refs_def w fun_eq_iff)
  have s: "sid_refs h' = sid_refs h" using k by (simp add: sid_refs_def keeps_def fun_eq_iff)
  have g: "kgc_refs h' x = kgc_refs h x" for x by (cases x) (simp_all add: s t)
  have th: "stack_same (thread_at h a) (thread_at h' a)" for a using k by (simp add: keeps_def)
  have u: "uv_get h' (upval_at h a) = uv_get h (upval_at h a)" if "RUpval a \<in> U" for a
    using that c stack_same_facts(4)[OF th] by (auto simp: uv_get_def heap_closed_def upval_ok_def split: uvloc.split)
  show e: "refs h' r = refs h r" if "r \<in> U" for r
    using that k u stack_same_facts(2)[OF th] by (cases r) (auto simp: keeps_def s t g)
  have "upval_ok h' x = upval_ok h x" for x by (simp add: upval_ok_def o stack_same_facts(1)[OF th])
  then show "heap_closed U h'" using c e stack_same_facts(3)[OF th] k by (simp add: heap_closed_def o keeps_def)
qed

lemma keeps_clear_stale:
  assumes "mark_to (thread_at h a) \<le> length (th_stack (thread_at h a))"
  shows "keeps h (clear_stale a h)" "hdr (clear_stale a h) = hdr h"
proof -
  have t: "thread_at (clear_stale a h) b = (if b = a then (thread_at h a)\<lparr>th_stack := take (mark_to (thread_at h a)) (th_stack (thread_at h a)) @
      replicate (length (th_stack (thread_at h a)) - mark_to (thread_at h a)) NIL\<rparr> else thread_at h b)" for b
    by (simp add: clear_stale_def set_stack_def thread_at_def Let_def)
  show "keeps h (clear_stale a h)" unfolding keeps_def t
    using assms by (auto simp: clear_stale_def set_stack_def Let_def tab_at_def func_at_def proto_at_def upval_at_def udata_at_def
        cdata_at_def str_bytes_def objs_def stack_same_def strip_def fun_eq_iff)
  show "hdr (clear_stale a h) = hdr h"
  proof
    fix r show "hdr (clear_stale a h) r = hdr h r" by (cases r) (auto simp: clear_stale_def set_stack_def Let_def)
  qed
qed

lemma same_grayagain: "same h (h\<lparr>gc_grayagain := g\<rparr>)" "hdr (h\<lparr>gc_grayagain := g\<rparr>) = hdr h"
proof -
  show "same h (h\<lparr>gc_grayagain := g\<rparr>)"
    by (simp add: same_defs tab_at_def func_at_def proto_at_def upval_at_def thread_at_def udata_at_def cdata_at_def str_bytes_def objs_def strip_def fun_eq_iff)
  show "hdr (h\<lparr>gc_grayagain := g\<rparr>) = hdr h"
  proof
    fix r show "hdr (h\<lparr>gc_grayagain := g\<rparr>) r = hdr h r" by (cases r) simp_all
  qed
qed

lemma finish_thread:
  fixes h a c
  assumes "mark_to (thread_at h a) \<le> length (th_stack (thread_at h a))"
  defines "h6 \<equiv> upd_hdr (RThread a) make_gray (if c then clear_stale a h else h)"
  shows "keeps h (h6\<lparr>gc_grayagain := RThread a # gc_grayagain h6\<rparr>)"
    "is_marked (h6\<lparr>gc_grayagain := RThread a # gc_grayagain h6\<rparr>) = is_marked h"
    "r \<noteq> RThread a \<Longrightarrow> hdr (h6\<lparr>gc_grayagain := RThread a # gc_grayagain h6\<rparr>) r = hdr h r"
    "gc_grayagain h6 = gc_grayagain h"
proof -
  let ?h5 = "if c then clear_stale a h else h"
  have 5: "keeps h ?h5" "hdr ?h5 = hdr h" using keeps_clear_stale[OF assms(1)] by simp_all
  have "keeps h h6" using keeps_trans[OF 5(1) same_keeps[OF same_upd]] by (simp add: h6_def)
  then show "keeps h (h6\<lparr>gc_grayagain := RThread a # gc_grayagain h6\<rparr>)" by (rule keeps_trans[OF _ same_keeps[OF same_grayagain(1)]])
  show "is_marked (h6\<lparr>gc_grayagain := RThread a # gc_grayagain h6\<rparr>) = is_marked h"
    unfolding fun_eq_iff is_marked_def same_grayagain(2) h6_def hdr_upd 5(2) by (simp add: make_gray_def)
  show "r \<noteq> RThread a \<Longrightarrow> hdr (h6\<lparr>gc_grayagain := RThread a # gc_grayagain h6\<rparr>) r = hdr h r"
    unfolding same_grayagain(2) h6_def hdr_upd 5(2) by simp
  show "gc_grayagain h6 = gc_grayagain h" by (simp add: h6_def clear_stale_def set_stack_def Let_def)
qed

lemma grayagain_cons: "gc_grayagain h = G \<Longrightarrow> set (gc_grayagain (h\<lparr>gc_grayagain := r # gc_grayagain h\<rparr>)) \<subseteq> insert r (set G)"
  by simp

lemma visit_thread_ok:
  assumes c: "heap_closed U (mk_heap m)" and r: "RThread a \<in> U"
  obtains m4 h' where "grows U {} (refs (mk_heap m) (RThread a)) m m4" "visit_thread a m = m4\<lparr>mk_heap := h'\<rparr>"
    "keeps (mk_heap m4) h'" "is_marked h' = is_marked (mk_heap m4)"
    "\<And>r. r \<noteq> RThread a \<Longrightarrow> hdr h' r = hdr (mk_heap m4) r" "set (gc_grayagain h') \<subseteq> insert (RThread a) (set (gc_grayagain (mk_heap m)))"
proof -
  let ?h = "mk_heap m" let ?l = "thread_at ?h a"
  let ?st = "take (mark_to ?l) (th_stack ?l)"
  let ?m1 = "fold mark_value ?st m"
  let ?m2 = "mark_value (th_hook ?l) (mark_value (th_errval ?l) ?m1)"
  let ?m3 = "fold mark_upval (th_openuv ?l) ?m2"
  let ?m4 = "case th_call_cl ?l of Some cl \<Rightarrow> mk_mark (RFunc cl) ?m3 | None \<Rightarrow> ?m3"
  have o: "\<Union> (vrefs ` set ?st) \<subseteq> U" "vrefs (th_errval ?l) \<subseteq> U" "vrefs (th_hook ?l) \<subseteq> U" "RUpval ` set (th_openuv ?l) \<subseteq> U"
    using closedD[OF c r] by (simp_all add: thread_refs_def)
  have t: "thread_ok ?l" using c r by (simp add: heap_closed_def)
  note 1 = fold_values_grows[OF c o(1)]
  have 2: "grows U {} (vrefs (th_errval ?l)) ?m1 (mark_value (th_errval ?l) ?m1)"
    by (rule mark_value_grows) (use growsD[OF 1] c o(2) in auto)
  note 12 = grows_seq[OF 1 2]
  have 3: "grows U {} (vrefs (th_hook ?l)) (mark_value (th_errval ?l) ?m1) ?m2"
    by (rule mark_value_grows) (use growsD[OF 12] c o(3) in auto)
  note 13 = grows_seq[OF 12 3]
  have 4: "grows U {} (RUpval ` set (th_openuv ?l)) ?m2 ?m3"
    by (rule fold_upvals_grows) (use growsD[OF 13] c o(4) in auto)
  have 14: "grows U {} (refs ?h (RThread a)) m ?m3"
    using grows_seq[OF 13 4] by (simp add: thread_refs_def Un_assoc)
  have "grows U {} {} ?m3 ?m4"
  proof (cases "th_call_cl ?l")
    case (Some cl)
    have "RFunc cl \<in> \<Union> (vrefs ` set ?st)" using t Some by (simp add: thread_ok_def)
    then have f: "RFunc cl \<in> Mk ?m3" "RFunc cl \<in> U" using growsD(3)[OF 14] o(1) by (auto simp: thread_refs_def)
    then show ?thesis using Some growsD(9)[OF 14] by (auto simp: grows_def work_def insert_absorb hdr_upd)
  qed simp
  from grows_seq[OF 14 this] have 15: "grows U {} (refs ?h (RThread a)) m ?m4" by simp
  have th: "mark_to (thread_at (mk_heap ?m4) a) \<le> length (th_stack (thread_at (mk_heap ?m4) a))"
    using t growsD(1)[OF 15] by (simp add: same_defs thread_ok_def)
  let ?h6 = "upd_hdr (RThread a) make_gray (if mk_atomic m then clear_stale a (mk_heap ?m4) else mk_heap ?m4)"
  have v: "visit_thread a m = ?m4\<lparr>mk_heap := ?h6\<lparr>gc_grayagain := RThread a # gc_grayagain ?h6\<rparr>\<rparr>"
    unfolding visit_thread_def Let_def ..
  have "gc_grayagain ?h6 = gc_grayagain (mk_heap m)" using finish_thread(4)[OF th] growsD(11)[OF 15] by (rule trans)
  then have "set (gc_grayagain (?h6\<lparr>gc_grayagain := RThread a # gc_grayagain ?h6\<rparr>)) \<subseteq> insert (RThread a) (set (gc_grayagain (mk_heap m)))"
    by (rule grayagain_cons)
  from that[OF 15 v finish_thread(1-3)[OF th] this] show thesis .
qed

lemma visit_ok:
  assumes c: "heap_closed U (mk_heap m)" and r: "g \<in> U" and "grayable g"
  obtains m4 h' ws where "grows U {} (refs (mk_heap m) g) m m4" "visit g m = m4\<lparr>mk_heap := h', mk_weak := ws\<rparr>"
    "keeps (mk_heap m4) h'" "is_marked h' = is_marked (mk_heap m4)"
    "\<And>r. r \<noteq> g \<Longrightarrow> hdr h' r = hdr (mk_heap m4) r" "set (gc_grayagain h') \<subseteq> insert g (set (gc_grayagain (mk_heap m)))"
    "weak_visit g m ws"
proof (cases g)
  case (RTab t)
  then obtain m4 ws where v: "grows U {} (refs (mk_heap m) g) m m4" "visit_table t m = m4\<lparr>mk_weak := ws\<rparr>" "weak_visit g m ws"
    using visit_table_grows[OF c] r by metis
  show thesis by (rule that[of m4 ws "mk_heap m4"]) (use v growsD(11)[OF v(1)] RTab in \<open>simp_all add: visit_def subset_insertI\<close>)
next
  case (RFunc t)
  have v: "grows U {} (refs (mk_heap m) g) m (visit_func t m)" using visit_func_grows[OF c] r RFunc by simp
  show thesis by (rule that[of "visit_func t m" "mk_weak m" "mk_heap (visit_func t m)"])
      (use v growsD(11,14)[OF v] RFunc weak_visit_other in \<open>simp_all add: visit_def subset_insertI\<close>)
next
  case (RProto t)
  have v: "grows U {} (refs (mk_heap m) g) m (visit_proto t m)" using visit_proto_grows[OF c] r RProto by simp
  show thesis by (rule that[of "visit_proto t m" "mk_weak m" "mk_heap (visit_proto t m)"])
      (use v growsD(11,14)[OF v] RProto weak_visit_other in \<open>simp_all add: visit_def subset_insertI\<close>)
next
  case (RThread t)
  then obtain m4 h' where v: "grows U {} (refs (mk_heap m) g) m m4" "visit_thread t m = m4\<lparr>mk_heap := h'\<rparr>"
    "keeps (mk_heap m4) h'" "is_marked h' = is_marked (mk_heap m4)"
    "\<And>r. r \<noteq> g \<Longrightarrow> hdr h' r = hdr (mk_heap m4) r" "set (gc_grayagain h') \<subseteq> insert g (set (gc_grayagain (mk_heap m)))" using visit_thread_ok[OF c, of t] r by metis
  have "weak_visit g m (mk_weak m)" by (rule weak_visit_other) (simp add: RThread)
  moreover have "visit g m = m4\<lparr>mk_heap := h', mk_weak := mk_weak m\<rparr>" using v(2) growsD(14)[OF v(1)] by (simp add: visit_def RThread)
  ultimately show thesis using that v by blast
qed (use \<open>grayable g\<close> in simp_all)

section \<open>Propagation\<close>

text \<open>The tricolour invariant: a marked object waits in the gray list or refers to marked objects only.\<close>

definition mark_inv :: "gref set \<Rightarrow> marker \<Rightarrow> bool" where
  "mark_inv U m \<longleftrightarrow> heap_closed U (mk_heap m) \<and> set (mk_gray m) \<subseteq> Mk m \<inter> U \<inter> Collect grayable \<and>
     (\<forall>r\<in>Mk m \<inter> U. r \<in> set (mk_gray m) \<or> refs (mk_heap m) r \<subseteq> Mk m)"

text \<open>Weak tables are listed with their modes when they leave the gray list.\<close>

definition weak_grows :: "gref set \<Rightarrow> marker \<Rightarrow> marker \<Rightarrow> bool" where
  "weak_grows U m m' \<longleftrightarrow> set (mk_weak m) \<subseteq> set (mk_weak m') \<and>
     (\<forall>t w. (t, w) \<in> set (mk_weak m') \<longrightarrow> (t, w) \<notin> set (mk_weak m) \<longrightarrow> w \<noteq> 0 \<and> w = weak_mode (mk_heap m) (tab_at (mk_heap m) t)) \<and>
     (\<forall>t. RTab t \<in> U \<longrightarrow> RTab t \<in> Mk m' \<longrightarrow> RTab t \<in> set (mk_gray m) \<or> RTab t \<notin> Mk m \<longrightarrow> RTab t \<notin> set (mk_gray m') \<longrightarrow>
        weak_mode (mk_heap m) (tab_at (mk_heap m) t) \<noteq> 0 \<longrightarrow> t \<in> fst ` set (mk_weak m'))"

lemma weak_growsD:
  assumes "weak_grows U m m'"
  shows "set (mk_weak m) \<subseteq> set (mk_weak m')"
    "(t, w) \<in> set (mk_weak m') \<Longrightarrow> (t, w) \<notin> set (mk_weak m) \<Longrightarrow> w \<noteq> 0 \<and> w = weak_mode (mk_heap m) (tab_at (mk_heap m) t)"
    "RTab t \<in> U \<Longrightarrow> RTab t \<in> Mk m' \<Longrightarrow> RTab t \<in> set (mk_gray m) \<or> RTab t \<notin> Mk m \<Longrightarrow> RTab t \<notin> set (mk_gray m') \<Longrightarrow>
        weak_mode (mk_heap m) (tab_at (mk_heap m) t) \<noteq> 0 \<Longrightarrow> t \<in> fst ` set (mk_weak m')"
  using assms unfolding weak_grows_def by blast+

text \<open>\<open>follows U m m'\<close>: marking led from \<open>m\<close> to \<open>m'\<close>, over references only.\<close>

definition follows :: "gref set \<Rightarrow> marker \<Rightarrow> marker \<Rightarrow> bool" where
  "follows U m m' \<longleftrightarrow> keeps (mk_heap m) (mk_heap m') \<and> Mk m \<subseteq> Mk m' \<and> Mk m' \<subseteq> Mk m \<union> reach (mk_heap m) (Mk m \<inter> U) \<and>
     mk_atomic m' = mk_atomic m \<and> (\<forall>r. r \<notin> Mk m' \<longrightarrow> hdr (mk_heap m') r = hdr (mk_heap m) r) \<and>
     set (gc_grayagain (mk_heap m')) \<subseteq> set (gc_grayagain (mk_heap m)) \<union> (U \<inter> Mk m' \<inter> Collect grayable) \<and>
     weak_grows U m m'"

lemma keeps_weak:
  assumes "keeps h h'"
  shows "weak_mode h' t = weak_mode h t" "tab_at h' = tab_at h"
proof -
  have "scan_nodes h' key ns = scan_nodes h key ns" for key ns
    using assms by (induction ns) (auto simp: keeps_def split: option.splits)
  then show "weak_mode h' t = weak_mode h t" "tab_at h' = tab_at h"
    using assms by (simp_all add: weak_mode_def scan_str_key_def keeps_def split: option.split)
qed

lemma closed_reach:
  assumes "heap_closed U h" "R \<subseteq> U"
  shows "reach h R \<subseteq> U"
  by (rule reach_closed[OF assms(2)]) (rule closedD[OF assms(1)])

lemma keeps_reach:
  assumes k: "keeps h h'" and c: "heap_closed U h" and R: "R \<subseteq> U"
  shows "reach h' R = reach h R"
proof
  note f = keeps_refs[OF k c]
  show "reach h R \<subseteq> reach h' R" by (rule reach_le) (use closed_reach[OF c R] f(2) in auto)
  show "reach h' R \<subseteq> reach h R"
  proof (rule reach_le)
    fix r assume "r \<in> reach h' R"
    then have "r \<in> U" using closed_reach[OF f(3), of R] R by auto
    then show "refs h' r \<subseteq> refs h r" by (simp add: f(2))
  qed
qed

lemma follows_refl [simp]: "follows U m m"
  by (auto simp: follows_def weak_grows_def)

lemma weak_grows_trans:
  assumes k: "keeps (mk_heap m) (mk_heap m1)" and 1: "weak_grows U m m1" and 2: "weak_grows U m1 m2"
  shows "weak_grows U m m2"
proof -
  let ?h = "mk_heap m"
  note w = keeps_weak[OF k] and a = weak_growsD[OF 1] and b = weak_growsD[OF 2]
  have "t \<in> fst ` set (mk_weak m2)"
    if t: "RTab t \<in> U" "RTab t \<in> Mk m2" "RTab t \<in> set (mk_gray m) \<or> RTab t \<notin> Mk m" "RTab t \<notin> set (mk_gray m2)" "weak_mode ?h (tab_at ?h t) \<noteq> 0" for t
  proof (cases "RTab t \<in> set (mk_gray m1) \<or> RTab t \<notin> Mk m1")
    case True
    then show ?thesis using b(3)[OF t(1,2) True t(4)] t(5) w by simp
  next
    case False
    then have "t \<in> fst ` set (mk_weak m1)" using a(3)[OF t(1) _ t(3) _ t(5)] by simp
    then show ?thesis using b(1) by auto
  qed
  moreover have "v \<noteq> 0 \<and> v = weak_mode ?h (tab_at ?h t)" if "(t, v) \<in> set (mk_weak m2)" "(t, v) \<notin> set (mk_weak m)" for t v
    using a(2)[of t v] b(2)[of t v] that w by (cases "(t, v) \<in> set (mk_weak m1)") auto
  ultimately show ?thesis using a(1) b(1) unfolding weak_grows_def by blast
qed

lemma follows_trans:
  assumes c: "heap_closed U (mk_heap m)" and 1: "follows U m m1" and 2: "follows U m1 m2"
  shows "follows U m m2"
proof -
  let ?h = "mk_heap m" let ?R = "reach ?h (Mk m \<inter> U)"
  have k: "keeps ?h (mk_heap m1)" using 1 by (simp add: follows_def)
  note f = keeps_refs[OF k c]
  have "Mk m1 \<inter> U \<subseteq> ?R" using 1 by (auto simp: follows_def intro: reach_root)
  then have "reach (mk_heap m1) (Mk m1 \<inter> U) \<subseteq> ?R" by (simp add: keeps_reach[OF k c] reach_subset)
  then have M: "Mk m2 \<subseteq> Mk m \<union> ?R" using 1 2 by (auto simp: follows_def)
  have "weak_grows U m m2" by (rule weak_grows_trans[OF k]) (use 1 2 in \<open>simp_all add: follows_def\<close>)
  then show ?thesis using 1 2 keeps_trans M by (auto simp: follows_def f(1))
qed

lemma visit_inv:
  assumes inv: "mark_inv U m" and g: "mk_gray m = g # gs" and s: "same (mk_heap m) (mk_heap m1)" "mk_gray m1 = gs" "Mk m1 = Mk m" "mk_atomic m1 = mk_atomic m"
    and s': "gc_grayagain (mk_heap m1) = gc_grayagain (mk_heap m)" "\<And>r. r \<noteq> g \<Longrightarrow> hdr (mk_heap m1) r = hdr (mk_heap m) r"
    "mk_weak m1 = mk_weak m"
  shows "mark_inv U (visit g m1)" "follows U m (visit g m1)" "work U (visit g m1) < work U m"
proof -
  let ?h = "mk_heap m"
  have c: "heap_closed U ?h" and G: "g \<in> Mk m" "g \<in> U" "grayable g"
    using inv g by (auto simp: mark_inv_def)
  note e = same_refs(6-8)[OF s(1)]
  obtain m4 h' ws where v: "grows U {} (refs ?h g) m1 m4" "visit g m1 = m4\<lparr>mk_heap := h', mk_weak := ws\<rparr>"
    "keeps (mk_heap m4) h'" "is_marked h' = is_marked (mk_heap m4)"
    "\<And>r. r \<noteq> g \<Longrightarrow> hdr h' r = hdr (mk_heap m4) r" "set (gc_grayagain h') \<subseteq> insert g (set (gc_grayagain (mk_heap m1)))"
    "weak_visit g m1 ws"
    using visit_ok[of U m1 g] c G e by metis
  let ?m' = "visit g m1"
  have M: "Mk ?m' = Mk m4" by (simp add: v(2,4) Mk_def)
  note d = growsD[OF v(1)]
  have k4: "keeps ?h (mk_heap m4)" using same_keeps same_trans[OF s(1) d(1)] by blast
  have k: "keeps ?h (mk_heap ?m')" using keeps_trans[OF k4 v(3)] by (simp add: v(2))
  note f = keeps_refs[OF k c]
  have gr: "set (mk_gray m4) \<subseteq> set gs \<union> (Mk m4 \<inter> U \<inter> Collect grayable)" "set gs \<subseteq> set (mk_gray m4)"
    using v(1) d(5) s(2) e by (auto simp: grows_def)
  have new: "r \<in> set (mk_gray m4) \<or> refs ?h r \<subseteq> Mk m4" if "r \<in> Mk m4" "r \<notin> Mk m" for r
    using v(1) that s(3) e by (auto simp: grows_def)
  have old: "r \<in> set (mk_gray m4) \<or> refs ?h r \<subseteq> Mk m4" if r: "r \<in> Mk m" "r \<in> U" for r
  proof (cases "r = g")
    case True
    then show ?thesis using d(3) by simp
  next
    case False
    then have "r \<in> set gs \<or> refs ?h r \<subseteq> Mk m" using inv r g by (auto simp: mark_inv_def)
    then show ?thesis using gr(2) d(2) s(3) by auto
  qed
  have "set gs \<subseteq> Mk m \<inter> U \<inter> Collect grayable" using inv g by (auto simp: mark_inv_def)
  then have gg: "set (mk_gray m4) \<subseteq> Mk m4 \<inter> U \<inter> Collect grayable" using gr(1) d(2) s(3) by auto
  have cl: "r \<in> set (mk_gray m4) \<or> refs ?h r \<subseteq> Mk m4" if "r \<in> Mk m4" "r \<in> U" for r using new[of r] old[of r] that by blast
  show "mark_inv U ?m'" unfolding mark_inv_def M f(1)
  proof (intro conjI ballI)
    show "r \<in> set (mk_gray ?m') \<or> refs (mk_heap ?m') r \<subseteq> Mk m4" if "r \<in> Mk m4 \<inter> U" for r
      using cl[of r] that f(2)[of r] by (simp add: v(2))
  qed (use f(3) gg in \<open>simp_all add: v(2)\<close>)
  have "refs ?h g \<subseteq> reach ?h (Mk m \<inter> U)" using G by (auto intro: reach_step[OF reach_root])
  then have "reach ?h (refs ?h g) \<subseteq> reach ?h (Mk m \<inter> U)" by (rule reach_subset)
  moreover have "Mk m4 \<subseteq> Mk m \<union> reach ?h (refs ?h g)" using v(1) s(3) same_reach[OF s(1)] by (auto simp: grows_def)
  moreover have "hdr (mk_heap ?m') r = hdr (mk_heap m) r" if "r \<notin> Mk m4" for r
  proof -
    have "r \<noteq> g" using that d(2) s(3) G by auto
    then show ?thesis using v(5) d(12)[OF that] s'(2) by (simp add: v(2))
  qed
  moreover have "set (gc_grayagain (mk_heap ?m')) \<subseteq> set (gc_grayagain (mk_heap m)) \<union> (U \<inter> Mk m4 \<inter> Collect grayable)"
    using v(6) s'(1) d(2) s(3) G by (auto simp: v(2))
  moreover have "weak_grows U m ?m'"
  proof -
    have e1: "weak_mode (mk_heap m1) = weak_mode ?h" "tab_at (mk_heap m1) = tab_at ?h"
      using same_refs(1)[OF s(1)] s(1) by (simp_all add: same_defs)
    note W = v(7)[unfolded weak_visit_def s'(3) e1]
    have "t \<in> fst ` set (mk_weak ?m')"
      if t: "RTab t \<in> Mk m4" "RTab t \<in> set (mk_gray m) \<or> RTab t \<notin> Mk m" "RTab t \<notin> set (mk_gray ?m')" "weak_mode ?h (tab_at ?h t) \<noteq> 0" for t
    proof (cases "g = RTab t")
      case True
      then have "t \<in> fst ` set ws" using W t(4) by blast
      then show ?thesis by (simp add: v(2))
    next
      case False
      then have "RTab t \<notin> set (mk_gray m)" using t(3) gr(2) g by (auto simp: v(2))
      then have "RTab t \<in> set (mk_gray m4)" using t d(13)[of "RTab t"] s(3) by auto
      then show ?thesis using t(3) by (simp add: v(2))
    qed
    then show ?thesis using W unfolding weak_grows_def M by (simp add: v(2))
  qed
  ultimately show "follows U m ?m'" using k d(2,7) s(3,4) unfolding follows_def M by (auto simp: v(2))
  have "work U ?m' = work U m4" using f(1) keeps_refs(1)[OF k4 c] by (simp add: work_def M) (simp add: v(2))
  also have "\<dots> \<le> work U m1" by (rule d(6))
  also have "\<dots> < work U m" using g s(2,3) e by (simp add: work_def)
  finally show "work U ?m' < work U m" .
qed

lemma pop_facts: "mk_gray m \<noteq> [] \<Longrightarrow> mk_gray m = hd (mk_gray m) # mk_gray (pop m)" "same (mk_heap m) (mk_heap (pop m))"
  "Mk (pop m) = Mk m" "mk_atomic (pop m) = mk_atomic m"
  by (simp_all add: pop_def)

lemma pop_frame: "gc_grayagain (mk_heap (pop m)) = gc_grayagain (mk_heap m)" "hdr (mk_heap (pop m)) r = hdr (mk_heap m) r"
  "mk_weak (pop m) = mk_weak m"
  by (simp_all add: pop_def)

lemmas pop_inv = visit_inv[OF _ pop_facts(1) pop_facts(2) refl pop_facts(3,4) pop_frame]

lemma step_inv:
  assumes inv: "mark_inv U m" and n: "mk_gray m \<noteq> []"
  shows "mark_inv U (visit_step m)" "follows U m (visit_step m)" "work U (visit_step m) < work U m"
proof -
  let ?g = "hd (mk_gray m)" let ?m1 = "mk_mark ?g (pop m)"
  have "grayable ?g" "?g \<in> Mk m" using inv n by (auto simp: mark_inv_def hd_in_set subset_iff)
  then have v: "visit_step m = visit ?g ?m1" and M: "Mk ?m1 = Mk m"
    by (auto simp: visit_step_def Let_def insert_absorb pop_facts split: gref.split)
  have s: "same (mk_heap m) (mk_heap ?m1)" by (simp add: pop_def)
  note f = visit_inv[OF inv pop_facts(1)[OF n] s _ M]
  show "mark_inv U (visit_step m)" "follows U m (visit_step m)" "work U (visit_step m) < work U m"
    unfolding v by (rule f; simp add: pop_def hdr_upd)+
qed

lemma mark_inv_done:
  assumes inv: "mark_inv U m" and f: "follows U m m'" and inv': "mark_inv U m'" and g: "mk_gray m' = []"
  shows "Mk m' \<inter> U = reach (mk_heap m) (Mk m \<inter> U)"
proof
  let ?h = "mk_heap m" let ?R = "Mk m \<inter> U"
  have c: "heap_closed U ?h" using inv by (simp add: mark_inv_def)
  have k: "keeps ?h (mk_heap m')" using f by (simp add: follows_def)
  note e = keeps_refs[OF k c]
  show "Mk m' \<inter> U \<subseteq> reach ?h ?R" using f by (auto simp: follows_def intro: reach_root)
  have "reach ?h ?R \<subseteq> Mk m' \<inter> U"
  proof (rule reach_closed)
    show "?R \<subseteq> Mk m' \<inter> U" using f by (auto simp: follows_def)
    show "refs ?h r \<subseteq> Mk m' \<inter> U" if "r \<in> Mk m' \<inter> U" for r
      using inv' g that e(1,2) closedD[OF c] by (auto simp: mark_inv_def)
  qed
  then show "reach ?h ?R \<subseteq> Mk m' \<inter> U" .
qed

lemma propagate_ok:
  assumes inv: "mark_inv U m"
  obtains m' where "propagate m = Some m'" "mark_inv U m'" "follows U m m'" "mk_gray m' = []"
proof -
  let ?P = "\<lambda>x. mark_inv U x \<and> follows U m x"
  let ?b = "\<lambda>m. mk_gray m \<noteq> []" and ?c = "\<lambda>m. visit (hd (mk_gray m)) (pop m)"
  have c: "heap_closed U (mk_heap m)" using inv by (simp add: mark_inv_def)
  have step: "?P (?c x) \<and> work U (?c x) < work U x" if "?P x" "?b x" for x
    using pop_inv[of U x] that follows_trans[OF c] by blast
  have "?P m" using inv by simp
  then obtain m' where m': "while_option ?b ?c m = Some m'"
    using measure_while_option_Some[where P = ?P and f = "work U" and b = ?b and c = ?c and s = m] step by blast
  have "?P m'" by (rule while_option_rule[where P = ?P and b = ?b and c = ?c, OF _ m' \<open>?P m\<close>]) (use step in blast)
  moreover have "mk_gray m' = []" using while_option_stop[OF m'] by simp
  ultimately show thesis using that m' by (simp add: propagate_def)
qed

lemma propagate_step_ok:
  assumes "mark_inv U m" "propagate_step w m = (d, m')"
  shows "mark_inv U m'" "follows U m m'" "d \<longleftrightarrow> mk_gray m' = []" "work U m' + w \<le> work U m \<or> d"
proof -
  have "mark_inv U m' \<and> follows U m m' \<and> (d \<longleftrightarrow> mk_gray m' = []) \<and> (work U m' + w \<le> work U m \<or> d)"
    using assms
  proof (induction w arbitrary: m)
    case (Suc w)
    show ?case
    proof (cases "mk_gray m = []")
      case False
      note s = step_inv[OF Suc.prems(1) False]
      have c: "heap_closed U (mk_heap m)" using Suc.prems(1) by (simp add: mark_inv_def)
      have "propagate_step w (visit_step m) = (d, m')" using Suc.prems(2) False by simp
      from Suc.IH[OF s(1) this] s(2,3) show ?thesis using follows_trans[OF c] by fastforce
    qed (use Suc.prems in auto)
  qed auto
  then show "mark_inv U m'" "follows U m m'" "d \<longleftrightarrow> mk_gray m' = []" "work U m' + w \<le> work U m \<or> d" by auto
qed

end
