(* ===== verification/LJ_Collect.thy ===== *)
theory LJ_Collect
  imports LJ_Mark
begin

unbundle bit_operations_syntax

text \<open>
  The collection cycle of \<open>runtime/gc.rs\<close>: write barriers, roots, the atomic phase (finalizers and weak
  tables), the sweep of the pools, the pacing of incremental steps and the full collection. Sizes of Rust types
  are the fields of a record \<open>layout\<close>, capacities of vectors its functions.
\<close>

section \<open>Parameters\<close>

definition GC_PAUSE :: nat where "GC_PAUSE = 200"
definition GC_THRESHOLD_MIN :: nat where "GC_THRESHOLD_MIN = 64 * 1024"
definition GC_STEP_SIZE :: nat where "GC_STEP_SIZE = 1024"
definition GC_SWEEP_COST :: nat where "GC_SWEEP_COST = 400"
definition GC_SWEEP_MAX :: nat where "GC_SWEEP_MAX = 40"
definition CTID_CLIB :: u32 where "CTID_CLIB = 25"

record layout =
  ly_string :: nat
  ly_table :: nat
  ly_value :: nat
  ly_node :: nat
  ly_func :: nat
  ly_upval :: nat
  ly_proto :: nat
  ly_thread :: nat
  ly_cdata :: nat
  ly_udata :: nat
  ly_array_cap :: "ltable \<Rightarrow> nat"
  ly_proto_size :: "gproto \<Rightarrow> nat"

definition tab_gc_size :: "layout \<Rightarrow> ltable \<Rightarrow> nat" where
  "tab_gc_size L t = ly_table L + ly_array_cap L t * ly_value L + node_len t * ly_node L"

definition size_func :: "layout \<Rightarrow> gcfunc \<Rightarrow> nat" where
  "size_func L f = ly_func L + (case f of FLua _ _ us \<Rightarrow> length us * 8 | FC _ vs \<Rightarrow> length vs * 8)"

definition size_thread :: "layout \<Rightarrow> gthread \<Rightarrow> nat" where
  "size_thread L l = ly_thread L + length (th_stack l) * ly_value L"

section \<open>Write barriers\<close>

definition push_gray :: "gref \<Rightarrow> gheap \<Rightarrow> gheap" where
  "push_gray r h =
     (if gc_state h = Propagate then h\<lparr>gc_gray := r # gc_gray h\<rparr> else h\<lparr>gc_grayagain := r # gc_grayagain h\<rparr>)"

definition collecting :: "gheap \<Rightarrow> bool" where
  "collecting h \<longleftrightarrow> \<not> (gc_state h = Pause \<or> gc_state h = Finalize)"

definition barrier_push :: "gref \<Rightarrow> gheap \<Rightarrow> gheap" where
  "barrier_push r h = (if is_marked h r then h else push_gray r (heap_mark r h))"

definition barrier_table :: "addr \<Rightarrow> gheap \<Rightarrow> gheap" where
  "barrier_table t h =
     (case as_table (lua_table_value (of_nat t)) of Some p \<Rightarrow> barrier_push (RTab (unat p)) h | None \<Rightarrow> h)"

definition barrier_fwd :: "gheap \<Rightarrow> lua_value \<Rightarrow> gheap" where
  "barrier_fwd h v =
     (if \<not> collecting h then h
      else if itype v = LJ_TSTR then (case as_string v of Some p \<Rightarrow> heap_mark (RStr (unat p)) h | None \<Rightarrow> h)
      else if itype v = LJ_TTAB then (case as_table v of Some p \<Rightarrow> barrier_push (RTab (unat p)) h | None \<Rightarrow> h)
      else if itype v = LJ_TFUNC then (case as_func v of Some p \<Rightarrow> barrier_push (RFunc (unat p)) h | None \<Rightarrow> h)
      else if itype v = LJ_TTHREAD then (case as_thread v of Some p \<Rightarrow> barrier_push (RThread (unat p)) h | None \<Rightarrow> h)
      else if itype v = LJ_TUDATA
      then (case as_userdata v of
              Some p \<Rightarrow>
                (if is_marked h (RUdata (unat p)) then h
                 else let h1 = heap_mark (RUdata (unat p)) h
                      in case ud_metatable (udata_at h (unat p)) of Some mt \<Rightarrow> barrier_table mt h1 | None \<Rightarrow> h1)
            | None \<Rightarrow> h)
      else h)"

definition barrier_back :: "gheap \<Rightarrow> addr \<Rightarrow> gheap" where
  "barrier_back h t =
     (if \<not> collecting h then h
      else if is_black (hdr h (RTab t)) then push_gray (RTab t) (upd_hdr (RTab t) make_gray h) else h)"

section \<open>Weak tables\<close>

definition unmarked_ref :: "gheap \<Rightarrow> (addr \<Rightarrow> gref) \<Rightarrow> u64 option \<Rightarrow> bool" where
  "unmarked_ref h c p = (case p of Some a \<Rightarrow> \<not> is_marked h (c (unat a)) | None \<Rightarrow> False)"

definition may_clear :: "gheap \<Rightarrow> lua_value \<Rightarrow> bool \<Rightarrow> u8 \<Rightarrow> bool \<times> gheap" where
  "may_clear h v is_val cw =
     (let t = itype v
      in if t = LJ_TSTR then (False, case as_string v of Some p \<Rightarrow> heap_mark (RStr (unat p)) h | None \<Rightarrow> h)
         else if t = LJ_TTAB then (unmarked_ref h RTab (as_table v), h)
         else if t = LJ_TFUNC then (unmarked_ref h RFunc (as_func v), h)
         else if t = LJ_TTHREAD then (unmarked_ref h RThread (as_thread v), h)
         else if t = LJ_TUDATA
         then (case as_userdata v of
                 Some p \<Rightarrow> let d = hdr h (RUdata (unat p)) in (is_dead d cw \<or> is_val \<and> is_finalized d)
               | None \<Rightarrow> False, h)
         else if t = LJ_TCDATA then (unmarked_ref h RCdata (as_cdata v), h)
         else (False, h))"

fun clear_slots :: "u8 \<Rightarrow> lua_value list \<Rightarrow> gheap \<Rightarrow> lua_value list \<times> gheap" where
  "clear_slots cw [] h = ([], h)"
| "clear_slots cw (v # vs) h =
     (case may_clear h v True cw of
        (c, h1) \<Rightarrow> (case clear_slots cw vs h1 of (vs', h2) \<Rightarrow> ((if c then NIL else v) # vs', h2)))"

definition clear_node :: "u8 \<Rightarrow> node \<Rightarrow> gheap \<Rightarrow> node \<times> gheap" where
  "clear_node cw n h =
     (if is_nil (n_val n) then (n, h)
      else case may_clear h (n_key n) False cw of
             (True, h1) \<Rightarrow> (n\<lparr>n_val := NIL\<rparr>, h1)
           | (False, h1) \<Rightarrow>
               (case may_clear h1 (n_val n) True cw of (c, h2) \<Rightarrow> (if c then n\<lparr>n_val := NIL\<rparr> else n, h2)))"

fun clear_nodes :: "u8 \<Rightarrow> node list \<Rightarrow> gheap \<Rightarrow> node list \<times> gheap" where
  "clear_nodes cw [] h = ([], h)"
| "clear_nodes cw (n # ns) h =
     (case clear_node cw n h of (n', h1) \<Rightarrow> (case clear_nodes cw ns h1 of (ns', h2) \<Rightarrow> (n' # ns', h2)))"

definition set_tab :: "addr \<Rightarrow> ltable \<Rightarrow> gheap \<Rightarrow> gheap" where
  "set_tab a t h = h\<lparr>h_tables := (h_tables h)\<lparr>mem := (mem (h_tables h))(a := (t, hdr h (RTab a)))\<rparr>\<rparr>"

definition clear_weak_entries :: "addr \<Rightarrow> u8 \<Rightarrow> u8 \<Rightarrow> gheap \<Rightarrow> gheap" where
  "clear_weak_entries a mode cw h =
     (let t = tab_at h a;
          (vs, h1) = (if mode AND WEAKVAL \<noteq> 0 then clear_slots cw (arr t) h else (arr t, h));
          (ns, h2) = (if mode AND (WEAKKEY OR WEAKVAL) \<noteq> 0 then clear_nodes cw (nodes t) h1 else (nodes t, h1))
      in set_tab a (t\<lparr>arr := vs, nodes := ns\<rparr>) h2)"

definition clear_weak :: "gheap \<Rightarrow> gheap" where
  "clear_weak h =
     fold (\<lambda>(t, mode) h. clear_weak_entries t mode (h_white h) h) (gc_weak h) (h\<lparr>gc_weak := []\<rparr>)"

section \<open>Finalizers\<close>

definition has_gc_meta :: "gheap \<Rightarrow> addr option \<Rightarrow> bool" where
  "has_gc_meta h mt =
     (case mt of Some t \<Rightarrow> scan_str_key h (tab_at h t) (byte_string ''__gc'') \<noteq> None | None \<Rightarrow> False)"

definition undead :: "gref \<Rightarrow> gheap \<Rightarrow> gheap" where
  "undead r h = upd_hdr r (set_finalized \<circ> make_undead) h"

definition needs_gc :: "gheap \<Rightarrow> gref \<Rightarrow> bool" where
  "needs_gc h r \<longleftrightarrow> \<not> marked (hdr h r) \<and> \<not> is_finalized (hdr h r) \<and>
     (case r of RUdata a \<Rightarrow> has_gc_meta h (ud_metatable (udata_at h a)) | RCdata a \<Rightarrow> gcd_ctypeid (cdata_at h a) = CTID_CLIB
      | _ \<Rightarrow> False)"

definition separate_one :: "gref \<Rightarrow> gref list \<times> gheap \<Rightarrow> gref list \<times> gheap" where
  "separate_one r = (\<lambda>(out, h). if needs_gc h r then (out @ [r], undead r h) else (out, h))"

definition separate_finalizable :: "gheap \<Rightarrow> gref list \<times> gheap" where
  "separate_finalizable h =
     fold separate_one (map RUdata (objects (h_userdatas h)) @ map RCdata (objects (h_cdatas h))) ([], h)"

definition finalizable_meta :: "gheap \<Rightarrow> gref \<Rightarrow> addr option" where
  "finalizable_meta h r = (case r of RUdata a \<Rightarrow> ud_metatable (udata_at h a) | _ \<Rightarrow> None)"

definition finalizable_done :: "gref \<Rightarrow> u8 \<Rightarrow> gheap \<Rightarrow> gheap" where
  "finalizable_done r cw h = upd_hdr r (\<lambda>d. make_dead_next d cw) h"

section \<open>The atomic phase\<close>

definition start_marker :: "bool \<Rightarrow> gref list \<Rightarrow> gheap \<Rightarrow> marker" where
  "start_marker atomic gray h = \<lparr>mk_gray = gray, mk_heap = h, mk_atomic = atomic, mk_weak = []\<rparr>"

definition mark_again :: "gheap \<Rightarrow> gheap option" where
  "mark_again h =
     (let gray = gc_gray h @ gc_grayagain h; h1 = h\<lparr>gc_gray := [], gc_grayagain := []\<rparr>
      in case (if gray = [] then Some h1
               else case propagate (start_marker True gray h1) of
                      None \<Rightarrow> None
                    | Some m \<Rightarrow> Some ((mk_heap m)\<lparr>gc_weak := gc_weak (mk_heap m) @ mk_weak m\<rparr>)) of
           None \<Rightarrow> None
         | Some h2 \<Rightarrow> Some (h2\<lparr>gc_gray := [], gc_grayagain := []\<rparr>))"

definition mark_finalizable :: "gref list \<Rightarrow> gheap \<Rightarrow> gheap option" where
  "mark_finalizable mmu h =
     (if mmu = [] then Some h
      else case propagate (fold (\<lambda>r m. case finalizable_meta h r of Some mt \<Rightarrow> mark_table mt m | None \<Rightarrow> m)
                             mmu (start_marker True [] h)) of
             None \<Rightarrow> None
           | Some m \<Rightarrow> let h1 = mk_heap m
                       in Some (h1\<lparr>gc_gray := [], gc_grayagain := [], gc_weak := gc_weak h1 @ mk_weak m,
                                   mmudata := mmudata h1 @ mmu\<rparr>))"

definition atomic_phase :: "gheap \<Rightarrow> gheap option" where
  "atomic_phase h =
     (case mark_again h of
        None \<Rightarrow> None
      | Some h1 \<Rightarrow>
          (case separate_finalizable h1 of
             (mmu, h2) \<Rightarrow>
               (case mark_finalizable mmu h2 of
                  None \<Rightarrow> None
                | Some h3 \<Rightarrow>
                    let h4 = clear_weak h3
                    in Some (h4\<lparr>h_estimate := h_total h4 + ibytes (h_strings h4), gc_state := Sweep,
                                gc_sweep_pool := 0, gc_sweep_pos := 0\<rparr>))))"

section \<open>The sweep\<close>

definition total_live :: "layout \<Rightarrow> gheap \<Rightarrow> nat" where
  "total_live L h =
     sum_list (map (tab_gc_size L \<circ> tab_at h) (objects (h_tables h))) +
     sum_list (map (size_func L \<circ> func_at h) (objects (h_funcs h))) +
     live_count (h_upvals h) * ly_upval L +
     sum_list (map (ly_proto_size L \<circ> proto_at h) (objects (h_protos h))) +
     sum_list (map (size_thread L \<circ> thread_at h) (objects (h_threads h))) +
     sum_list (map (\<lambda>a. ly_cdata L + gcd_len (cdata_at h a)) (objects (h_cdatas h))) +
     live_count (h_userdatas h) * ly_udata L"

text \<open>\<open>Upval::close\<close>, on the pool of upvalues.\<close>

definition close_upval :: "gheap \<Rightarrow> addr \<Rightarrow> upval pool \<Rightarrow> upval pool" where
  "close_upval h a us =
     (case mem us a of (u, d) \<Rightarrow>
        if uv_loc u = UvClosed then us
        else us\<lparr>mem := (mem us)(a := (u\<lparr>uv_tv := uv_get h u, uv_loc := UvClosed\<rparr>, d))\<rparr>)"

definition no_free :: "'a \<Rightarrow> unit \<Rightarrow> unit" where "no_free x s = s"

definition sweep_pool ::
  "nat \<Rightarrow> u8 \<Rightarrow> ('a \<Rightarrow> 's \<Rightarrow> 's) \<Rightarrow> 'a pool \<Rightarrow> 's \<Rightarrow> ('a pool \<Rightarrow> 's \<Rightarrow> gheap \<Rightarrow> gheap) \<Rightarrow> gheap \<Rightarrow> bool \<times> gheap" where
  "sweep_pool sz cw on_free p s put h =
     (case sweep_limited sz cw on_free GC_SWEEP_MAX (gc_sweep_pos h) (p, s) of
        ((p', s'), d, i) \<Rightarrow> (d, (put p' s' h)\<lparr>gc_sweep_pos := i\<rparr>))"

definition next_pool :: "bool \<times> gheap \<Rightarrow> bool \<times> gheap" where
  "next_pool = (\<lambda>(d, h). (False, if d then h\<lparr>gc_sweep_pool := gc_sweep_pool h + 1, gc_sweep_pos := 0\<rparr> else h))"

definition sweep_one_pool :: "layout \<Rightarrow> gheap \<Rightarrow> bool \<times> gheap" where
  "sweep_one_pool L h =
     (let cw = h_white h; k = gc_sweep_pool h
      in if k = 0 then next_pool (True, h\<lparr>h_strings := interner_sweep (ly_string L) (h_strings h) cw\<rparr>)
         else if k = 1 then next_pool (sweep_pool (ly_table L) cw no_free (h_tables h) () (\<lambda>p _ h. h\<lparr>h_tables := p\<rparr>) h)
         else if k = 2 then next_pool (sweep_pool (ly_func L) cw no_free (h_funcs h) () (\<lambda>p _ h. h\<lparr>h_funcs := p\<rparr>) h)
         else if k = 3 then next_pool (sweep_pool (ly_thread L) cw (\<lambda>th us. fold (close_upval h) (th_openuv th) us)
                                         (h_threads h) (h_upvals h) (\<lambda>p us h. h\<lparr>h_threads := p, h_upvals := us\<rparr>) h)
         else if k = 4 then next_pool (sweep_pool (ly_upval L) cw no_free (h_upvals h) () (\<lambda>p _ h. h\<lparr>h_upvals := p\<rparr>) h)
         else if k = 5 then next_pool (sweep_pool (ly_proto L) cw no_free (h_protos h) () (\<lambda>p _ h. h\<lparr>h_protos := p\<rparr>) h)
         else if k = 6 then next_pool (sweep_pool (ly_udata L) cw no_free (h_userdatas h) () (\<lambda>p _ h. h\<lparr>h_userdatas := p\<rparr>) h)
         else (True, h))"

section \<open>Steps\<close>

definition propagate_phase :: "gheap \<Rightarrow> gheap" where
  "propagate_phase h =
     (case propagate_step 32 (start_marker False (gc_gray h) (h\<lparr>gc_gray := []\<rparr>)) of
        (d, m) \<Rightarrow>
          let h1 = mk_heap m; gray = gc_gray h1 @ mk_gray m
          in h1\<lparr>gc_state := (if d \<and> gray = [] then Atomic else gc_state h1), gc_gray := gray,
                gc_weak := gc_weak h1 @ mk_weak m\<rparr>)"

definition finish_sweep :: "layout \<Rightarrow> gheap \<Rightarrow> bool \<times> gheap" where
  "finish_sweep L h =
     (let total = total_live L h; h1 = h\<lparr>h_total := total, h_estimate := total + ibytes (h_strings h)\<rparr>
      in if mmudata h1 = []
         then (True, h1\<lparr>gc_state := Pause, h_threshold := max (h_estimate h1 * GC_PAUSE div 100) GC_THRESHOLD_MIN,
                        h_table_extra := 0, h_debt := 0\<rparr>)
         else (False, h1\<lparr>gc_state := Finalize\<rparr>))"

definition gc_onestep :: "layout \<Rightarrow> gheap \<Rightarrow> (nat \<times> bool \<times> gheap) option" where
  "gc_onestep L h =
     (case gc_state h of
        Pause \<Rightarrow> Some (0, True, h)
      | Propagate \<Rightarrow> Some (GC_STEP_SIZE, False, propagate_phase h)
      | Atomic \<Rightarrow> map_option (\<lambda>h'. (GC_STEP_SIZE, False, h')) (atomic_phase h)
      | Sweep \<Rightarrow> (case sweep_one_pool L h of
                   (d, h1) \<Rightarrow> Some (if d then (0, finish_sweep L h1) else (GC_SWEEP_COST, False, h1)))
      | Finalize \<Rightarrow> Some (0, True, h))"

partial_function (option) step_loop :: "layout \<Rightarrow> bool \<Rightarrow> nat \<Rightarrow> gheap \<Rightarrow> (bool \<times> gheap) option" where
  "step_loop L full budget h =
     Option.bind (gc_onestep L h) (\<lambda>(cost, fin, h1).
       if fin then Some (True, h1)
       else if full then step_loop L full budget h1
       else if budget - cost = 0 then Some (False, h1)
       else step_loop L full (budget - cost) h1)"

definition gc_step :: "layout \<Rightarrow> nat \<Rightarrow> gheap \<Rightarrow> (bool \<times> gheap) option" where
  "gc_step L sz h =
     (let full = USIZE_MAX div 2 \<le> sz;
          h1 = (if h_threshold h < h_total h then h\<lparr>h_debt := h_debt h + (h_total h - h_threshold h)\<rparr> else h);
          h2 = (if full then h1 else h1\<lparr>h_debt := h_debt h1 + h_table_extra h1, h_table_extra := 0\<rparr>);
          lim = max (GC_STEP_SIZE div 100) 1 * h_stepmul h2
      in case step_loop L full (if full then USIZE_MAX else lim) h2 of
           None \<Rightarrow> None
         | Some (True, h3) \<Rightarrow> Some (True, h3)
         | Some (False, h3) \<Rightarrow>
             Some (False, if h_debt h3 < GC_STEP_SIZE then h3\<lparr>h_threshold := h_total h3 + GC_STEP_SIZE\<rparr>
                          else h3\<lparr>h_debt := h_debt h3 - GC_STEP_SIZE, h_threshold := h_total h3\<rparr>))"

section \<open>A full collection\<close>

record groots =
  g_globals :: addr
  g_registry :: addr
  g_basemt :: "addr option list"
  g_mmname :: "lua_value list"
  g_ctype_mts :: "addr option list"
  g_io_file_cache :: "lua_value option list"
  g_main :: addr
  g_cur_l :: "addr option"
  g_cts :: "((lua_value \<times> bool) list \<times> addr option) option"
  g_traces :: "(addr \<times> lua_value list) option list"
  g_rec :: "(addr \<times> lua_value list) option"

definition flip_white :: "gheap \<Rightarrow> gheap" where
  "flip_white h =
     (let cw = h_white h XOR 1; st = h_strings h
      in h\<lparr>h_white := cw, h_strings := st\<lparr>ipool := update_current_white (ipool st) cw\<rparr>,
           h_tables := reset_marked (update_current_white (h_tables h) cw),
           h_funcs := reset_marked (update_current_white (h_funcs h) cw),
           h_protos := reset_marked (update_current_white (h_protos h) cw),
           h_upvals := reset_marked (update_current_white (h_upvals h) cw),
           h_threads := reset_marked (update_current_white (h_threads h) cw),
           h_cdatas := reset_marked (update_current_white (h_cdatas h) cw),
           h_userdatas := reset_marked (update_current_white (h_userdatas h) cw)\<rparr>)"

definition mark_trace :: "addr \<times> lua_value list \<Rightarrow> marker \<Rightarrow> marker" where
  "mark_trace t m = fold mark_value (snd t) (mark_proto (fst t) m)"

definition mark_roots :: "groots \<Rightarrow> marker \<Rightarrow> marker" where
  "mark_roots g m =
     (let m = mark_table (g_registry g) (mark_table (g_globals g) m);
          m = fold (\<lambda>o' m. case o' of Some mt \<Rightarrow> mark_table mt m | None \<Rightarrow> m) (g_basemt g) m;
          m = fold mark_value (g_mmname g) m;
          m = fold (\<lambda>o' m. case o' of Some mt \<Rightarrow> mark_table mt m | None \<Rightarrow> m) (g_ctype_mts g) m;
          m = fold (\<lambda>o' m. case o' of Some v \<Rightarrow> mark_value v m | None \<Rightarrow> m) (g_io_file_cache g) m;
          m = mark_thread (g_main g) m;
          m = (case g_cur_l g of Some l \<Rightarrow> mark_thread l m | None \<Rightarrow> m);
          m = (case g_cts g of
                 Some (cbs, th) \<Rightarrow>
                   let m = fold (\<lambda>(v, freed) m. if freed then m else mark_value v m) cbs m
                   in (case th of Some l \<Rightarrow> mark_thread l m | None \<Rightarrow> m)
               | None \<Rightarrow> m);
          m = fold (\<lambda>o' m. case o' of Some t \<Rightarrow> mark_trace t m | None \<Rightarrow> m) (g_traces g) m
      in (case g_rec g of Some t \<Rightarrow> mark_trace t m | None \<Rightarrow> m))"

definition start_gc_cycle :: "groots \<Rightarrow> gheap \<Rightarrow> gheap" where
  "start_gc_cycle g h =
     (let m = mark_roots g (start_marker False [] ((flip_white h)\<lparr>gc_state := Propagate\<rparr>))
      in (mk_heap m)\<lparr>gc_gray := mk_gray m\<rparr>)"

text \<open>\<open>while !gc_step(usize::MAX) {}\<close>\<close>

partial_function (option) run_cycle :: "layout \<Rightarrow> gheap \<Rightarrow> gheap option" where
  "run_cycle L h =
     Option.bind (gc_step L USIZE_MAX h) (\<lambda>(fin, h1). if fin then Some h1 else run_cycle L h1)"

definition full_gc :: "layout \<Rightarrow> groots \<Rightarrow> gheap \<Rightarrow> gheap option" where
  "full_gc L g h =
     (if gc_state h = Finalize then Some h
      else Option.bind (run_cycle L h) (\<lambda>h1.
             Option.bind (run_cycle L (start_gc_cycle g h1)) (\<lambda>h2.
               Some (h2\<lparr>gc_gray := [], gc_grayagain := []\<rparr>))))"

end
