(* ===== verification/LJ_Collect_Spec.thy ===== *)
theory LJ_Collect_Spec
  imports LJ_Mark_Spec LJ_Collect
begin

unbundle bit_operations_syntax

declare upd_hdr.simps [simp del]

text \<open>
  What a collection does. A set \<open>U\<close> of objects without dangling references that contains the roots is kept:
  the root set is marked, incremental marking and the atomic phase keep the tricolour invariant and end with
  every object reachable from the roots marked, and the sweep frees exactly the objects that do not survive.
\<close>

section \<open>Adding roots\<close>

definition table_pushed :: "marker \<Rightarrow> marker \<Rightarrow> bool" where
  "table_pushed m m' \<longleftrightarrow> set (mk_gray m) \<subseteq> set (mk_gray m') \<and> mk_weak m' = mk_weak m \<and>
     (\<forall>t. RTab t \<in> Mk m' \<longrightarrow> RTab t \<notin> Mk m \<longrightarrow> RTab t \<in> set (mk_gray m'))"

definition adds :: "gref set \<Rightarrow> gref set \<Rightarrow> marker \<Rightarrow> marker \<Rightarrow> bool" where
  "adds U S m m' \<longleftrightarrow> (mark_inv U m \<longrightarrow> mark_inv U m' \<and> same (mk_heap m) (mk_heap m') \<and> Mk m \<union> S \<subseteq> Mk m' \<and>
     Mk m' \<subseteq> Mk m \<union> U \<and> mk_atomic m' = mk_atomic m \<and> gc_grayagain (mk_heap m') = gc_grayagain (mk_heap m) \<and>
     (\<forall>r. r \<notin> Mk m' \<longrightarrow> hdr (mk_heap m') r = hdr (mk_heap m) r) \<and> table_pushed m m')"

lemma table_pushed_trans: "table_pushed a b \<Longrightarrow> table_pushed b c \<Longrightarrow> table_pushed a c"
  unfolding table_pushed_def by (metis subsetD subset_trans)

lemma adds_refl [simp]: "adds U {} m m"
  by (simp add: adds_def table_pushed_def)

lemma adds_seq [trans]: "adds U S m m1 \<Longrightarrow> adds U T m1 m2 \<Longrightarrow> adds U (S \<union> T) m m2"
  unfolding adds_def by (auto dest: same_trans table_pushed_trans)

lemma adds_mono: "adds U S m m' \<Longrightarrow> T \<subseteq> S \<Longrightarrow> adds U T m m'"
  by (auto simp: adds_def)

lemma grows_adds:
  assumes g: "mark_inv U m \<Longrightarrow> grows U {} S m m'"
  shows "adds U S m m'"
  unfolding adds_def
proof (intro impI)
  assume inv: "mark_inv U m"
  note g = g[OF inv]
  note d = growsD[OF g]
  have c: "heap_closed U (mk_heap m)" using inv by (simp add: mark_inv_def)
  have "r \<in> set (mk_gray m') \<or> refs (mk_heap m) r \<subseteq> Mk m'" if r: "r \<in> Mk m'" "r \<in> U" for r
  proof (cases "r \<in> Mk m")
    case True
    then have "r \<in> set (mk_gray m) \<or> refs (mk_heap m) r \<subseteq> Mk m" using inv r by (auto simp: mark_inv_def)
    then show ?thesis using d(2,5) by blast
  next
    case False
    then show ?thesis using g r by (auto simp: grows_def)
  qed
  moreover have "set (mk_gray m') \<subseteq> Mk m' \<inter> U \<inter> Collect grayable" 
  proof -
    have "set (mk_gray m') \<subseteq> set (mk_gray m) \<union> (Mk m' \<inter> U \<inter> Collect grayable)" using g by (simp add: grows_def)
    then show ?thesis using inv d(2) by (auto simp: mark_inv_def)
  qed
  ultimately have "mark_inv U m'" using d(8)[OF c] d(10) by (auto simp: mark_inv_def)
  then show "mark_inv U m' \<and> same (mk_heap m) (mk_heap m') \<and> Mk m \<union> S \<subseteq> Mk m' \<and> Mk m' \<subseteq> Mk m \<union> U \<and>
     mk_atomic m' = mk_atomic m \<and> gc_grayagain (mk_heap m') = gc_grayagain (mk_heap m) \<and>
     (\<forall>r. r \<notin> Mk m' \<longrightarrow> hdr (mk_heap m') r = hdr (mk_heap m) r) \<and> table_pushed m m'"
    using d by (auto simp: table_pushed_def)
qed

lemma mark_invD: "mark_inv U m \<Longrightarrow> heap_closed U (mk_heap m)"
  by (simp add: mark_inv_def)

lemma add_table: "RTab t \<in> U \<Longrightarrow> adds U {RTab t} m (mark_table t m)"
  by (rule grows_adds) (simp add: mark_table_grows mark_invD)

lemma add_proto: "RProto t \<in> U \<Longrightarrow> adds U {RProto t} m (mark_proto t m)"
  by (rule grows_adds) (simp add: mark_proto_grows mark_invD)

lemma add_value: "vrefs v \<subseteq> U \<Longrightarrow> adds U (vrefs v) m (mark_value v m)"
  by (rule grows_adds) (simp add: mark_value_grows mark_invD)

lemma add_thread:
  assumes "RThread a \<in> U"
  shows "adds U {RThread a} m (mark_thread a m)"
  unfolding adds_def
proof (intro impI)
  assume inv: "mark_inv U m"
  have s: "same (mk_heap m) (mk_heap (mark_thread a m))" by (simp add: mark_thread_def)
  have M: "Mk (mark_thread a m) = insert (RThread a) (Mk m)"
    by (simp add: mark_thread_def)
  have "mark_inv U (mark_thread a m)"
    using inv assms closed_same[OF mark_invD[OF inv] s] same_refs(6)[OF s] M
    by (auto simp: mark_inv_def) (auto simp: mark_thread_def)
  then show "mark_inv U (mark_thread a m) \<and> same (mk_heap m) (mk_heap (mark_thread a m)) \<and>
     Mk m \<union> {RThread a} \<subseteq> Mk (mark_thread a m) \<and> Mk (mark_thread a m) \<subseteq> Mk m \<union> U \<and> mk_atomic (mark_thread a m) = mk_atomic m \<and>
     gc_grayagain (mk_heap (mark_thread a m)) = gc_grayagain (mk_heap m) \<and>
     (\<forall>r. r \<notin> Mk (mark_thread a m) \<longrightarrow> hdr (mk_heap (mark_thread a m)) r = hdr (mk_heap m) r) \<and> table_pushed m (mark_thread a m)"
    using s assms unfolding M table_pushed_def by (auto simp: mark_thread_def hdr_upd)
qed

lemma adds_fold: "(\<And>x m. x \<in> set xs \<Longrightarrow> adds U (S x) m (f x m)) \<Longrightarrow> adds U (\<Union> (S ` set xs)) m (fold f xs m)"
proof (induction xs arbitrary: m)
  case (Cons x xs)
  have "adds U (S x) m (f x m)" "adds U (\<Union> (S ` set xs)) (f x m) (fold f xs (f x m))" by (simp_all add: Cons)
  from adds_seq[OF this] show ?case by simp
qed simp

lemma adds_option: "(\<And>x m. o' = Some x \<Longrightarrow> adds U (S x) m (f x m)) \<Longrightarrow>
    adds U (\<Union> (S ` set_option o')) m (case o' of Some x \<Rightarrow> f x m | None \<Rightarrow> m)"
  by (cases o') simp_all

definition trace_roots :: "addr \<times> lua_value list \<Rightarrow> gref set" where
  "trace_roots t = {RProto (fst t)} \<union> \<Union> (vrefs ` set (snd t))"

definition callback_roots :: "(lua_value \<times> bool) list \<times> addr option \<Rightarrow> gref set" where
  "callback_roots c = \<Union> ((\<lambda>(v, freed). if freed then {} else vrefs v) ` set (fst c)) \<union> RThread ` set_option (snd c)"

definition root_set :: "groots \<Rightarrow> gref set" where
  "root_set g = {RTab (g_globals g)} \<union> {RTab (g_registry g)} \<union>
     \<Union> ((\<lambda>o'. RTab ` set_option o') ` set (g_basemt g)) \<union> \<Union> (vrefs ` set (g_mmname g)) \<union>
     \<Union> ((\<lambda>o'. RTab ` set_option o') ` set (g_ctype_mts g)) \<union> \<Union> ((\<lambda>o'. \<Union> (vrefs ` set_option o')) ` set (g_io_file_cache g)) \<union>
     {RThread (g_main g)} \<union> RThread ` set_option (g_cur_l g) \<union> \<Union> (callback_roots ` set_option (g_cts g)) \<union>
     \<Union> ((\<lambda>o'. \<Union> (trace_roots ` set_option o')) ` set (g_traces g)) \<union> \<Union> (trace_roots ` set_option (g_rec g))"

lemma add_trace:
  assumes "trace_roots t \<subseteq> U"
  shows "adds U (trace_roots t) m (mark_trace t m)"
proof -
  have "adds U {RProto (fst t)} m (mark_proto (fst t) m)" by (rule add_proto) (use assms in \<open>simp add: trace_roots_def\<close>)
  moreover have "adds U (\<Union> (vrefs ` set (snd t))) (mark_proto (fst t) m) (mark_trace t m)"
    unfolding mark_trace_def by (rule adds_fold, rule add_value) (use assms in \<open>auto simp: trace_roots_def\<close>)
  ultimately show ?thesis unfolding trace_roots_def by (rule adds_seq)
qed

lemma add_option_table: "RTab ` set_option o' \<subseteq> U \<Longrightarrow>
    adds U (RTab ` set_option o') m (case o' of Some mt \<Rightarrow> mark_table mt m | None \<Rightarrow> m)"
  by (cases o') (simp_all add: add_table)

lemma add_callbacks:
  assumes "callback_roots c \<subseteq> U"
  shows "adds U (callback_roots c) m
    (case snd c of Some l \<Rightarrow> mark_thread l (fold (\<lambda>(v, freed) m. if freed then m else mark_value v m) (fst c) m)
     | None \<Rightarrow> fold (\<lambda>(v, freed) m. if freed then m else mark_value v m) (fst c) m)"
proof -
  let ?S = "\<lambda>(v, freed). if freed then {} else vrefs v" and ?f = "\<lambda>(v, freed) m. if freed then m else mark_value v m"
  have 1: "adds U (\<Union> (?S ` set (fst c))) m (fold ?f (fst c) m)"
  proof (rule adds_fold)
    fix x and m :: marker assume x: "x \<in> set (fst c)"
    have "?S x \<subseteq> U" using assms x unfolding callback_roots_def by blast
    then show "adds U (?S x) m (?f x m)" by (cases x) (auto simp: add_value split: if_splits)
  qed
  have "adds U (RThread ` set_option (snd c)) (fold ?f (fst c) m)
      (case snd c of Some l \<Rightarrow> mark_thread l (fold ?f (fst c) m) | None \<Rightarrow> fold ?f (fst c) m)"
    using assms by (cases "snd c") (simp_all add: add_thread callback_roots_def)
  from adds_seq[OF 1 this] show ?thesis by (simp add: callback_roots_def)
qed

lemma UN_optionD: "\<Union> ((\<lambda>o'. \<Union> (S ` set_option o')) ` X) \<subseteq> U \<Longrightarrow> o' \<in> X \<Longrightarrow> o' = Some v \<Longrightarrow> S v \<subseteq> U"
  by (fastforce simp: UN_subset_iff)

lemma add_roots:
  assumes R: "root_set g \<subseteq> U"
  shows "adds U (root_set g) m (mark_roots g m)"
proof -
  have r: "{RTab (g_globals g)} \<subseteq> U" "{RTab (g_registry g)} \<subseteq> U" "\<Union> ((\<lambda>o'. RTab ` set_option o') ` set (g_basemt g)) \<subseteq> U"
    "\<Union> (vrefs ` set (g_mmname g)) \<subseteq> U" "\<Union> ((\<lambda>o'. RTab ` set_option o') ` set (g_ctype_mts g)) \<subseteq> U"
    "\<Union> ((\<lambda>o'. \<Union> (vrefs ` set_option o')) ` set (g_io_file_cache g)) \<subseteq> U" "{RThread (g_main g)} \<subseteq> U"
    "RThread ` set_option (g_cur_l g) \<subseteq> U" "\<Union> (callback_roots ` set_option (g_cts g)) \<subseteq> U"
    "\<Union> ((\<lambda>o'. \<Union> (trace_roots ` set_option o')) ` set (g_traces g)) \<subseteq> U" "\<Union> (trace_roots ` set_option (g_rec g)) \<subseteq> U"
    using R unfolding root_set_def Un_subset_iff by (simp_all only: simp_thms)
  let ?T = "\<lambda>o' m. case o' of Some mt \<Rightarrow> mark_table mt m | None \<Rightarrow> m"
  let ?V = "\<lambda>o' m. case o' of Some v \<Rightarrow> mark_value v m | None \<Rightarrow> m"
  let ?R = "\<lambda>o' m. case o' of Some t \<Rightarrow> mark_trace t m | None \<Rightarrow> m"
  define m1 where "m1 = mark_table (g_registry g) (mark_table (g_globals g) m)"
  define m2 where "m2 = fold ?T (g_basemt g) m1"
  define m3 where "m3 = fold mark_value (g_mmname g) m2"
  define m4 where "m4 = fold ?T (g_ctype_mts g) m3"
  define m5 where "m5 = fold ?V (g_io_file_cache g) m4"
  define m6 where "m6 = mark_thread (g_main g) m5"
  define m7 where "m7 = (case g_cur_l g of Some l \<Rightarrow> mark_thread l m6 | None \<Rightarrow> m6)"
  define m8 where "m8 = (case g_cts g of Some (cbs, th) \<Rightarrow>
      (let m = fold (\<lambda>(v, freed) m. if freed then m else mark_value v m) cbs m7
       in case th of Some l \<Rightarrow> mark_thread l m | None \<Rightarrow> m) | None \<Rightarrow> m7)"
  define m9 where "m9 = fold ?R (g_traces g) m8"
  define m10 where "m10 = ?R (g_rec g) m9"
  have "adds U ({RTab (g_globals g)} \<union> {RTab (g_registry g)}) m m1" unfolding m1_def
    by (rule adds_seq[OF add_table add_table]) (use r(1,2) in auto)
  also have "adds U (\<Union> ((\<lambda>o'. RTab ` set_option o') ` set (g_basemt g))) m1 m2" unfolding m2_def
    by (rule adds_fold, rule add_option_table) (use r(3) in blast)
  also have "adds U (\<Union> (vrefs ` set (g_mmname g))) m2 m3" unfolding m3_def
    by (rule adds_fold, rule add_value) (use r(4) in blast)
  also have "adds U (\<Union> ((\<lambda>o'. RTab ` set_option o') ` set (g_ctype_mts g))) m3 m4" unfolding m4_def
    by (rule adds_fold, rule add_option_table) (use r(5) in blast)
  also have "adds U (\<Union> ((\<lambda>o'. \<Union> (vrefs ` set_option o')) ` set (g_io_file_cache g))) m4 m5" unfolding m5_def
    by (rule adds_fold, rule adds_option, rule add_value) (rule UN_optionD[OF r(6)])
  also have "adds U {RThread (g_main g)} m5 m6" unfolding m6_def by (rule add_thread) (use r(7) in blast)
  also have "adds U (RThread ` set_option (g_cur_l g)) m6 m7" unfolding m7_def
    using r(8) by (cases "g_cur_l g") (simp_all add: add_thread)
  also have "adds U (\<Union> (callback_roots ` set_option (g_cts g))) m7 m8"
  proof (cases "g_cts g")
    case (Some c)
    obtain cbs th where c: "c = (cbs, th)" by (cases c)
    have "callback_roots (cbs, th) \<subseteq> U" using r(9) Some c by simp
    from add_callbacks[OF this, of m7, unfolded fst_conv snd_conv] show ?thesis unfolding m8_def by (simp add: Some c Let_def)
  qed (simp add: m8_def)
  also have "adds U (\<Union> ((\<lambda>o'. \<Union> (trace_roots ` set_option o')) ` set (g_traces g))) m8 m9" unfolding m9_def
    by (rule adds_fold, rule adds_option, rule add_trace) (rule UN_optionD[OF r(10)])
  also have "adds U (\<Union> (trace_roots ` set_option (g_rec g))) m9 m10" unfolding m10_def
    by (rule adds_option, rule add_trace) (use r(11) in simp)
  finally have "adds U (root_set g) m m10" unfolding root_set_def .
  moreover have "mark_roots g m = m10"
    unfolding mark_roots_def Let_def m10_def m9_def m8_def m7_def m6_def m5_def m4_def m3_def m2_def m1_def ..
  ultimately show ?thesis by simp
qed

section \<open>Control fields\<close>

text \<open>A heap without the fields that steer the collector.\<close>

definition calm :: "gheap \<Rightarrow> gheap" where
  "calm h = h\<lparr>gc_gray := [], gc_grayagain := [], gc_weak := [], gc_state := Pause, mmudata := [],
     gc_sweep_pool := 0, gc_sweep_pos := 0, h_estimate := 0, h_debt := 0\<rparr>"

definition hkeeps :: "gheap \<Rightarrow> gheap \<Rightarrow> bool" where "hkeeps h h' \<longleftrightarrow> keeps (calm h) (calm h')"

abbreviation hMk :: "gheap \<Rightarrow> gref set" where "hMk h \<equiv> {r. is_marked h r}"

lemma calm_simps [simp]: "calm (h\<lparr>gc_gray := a\<rparr>) = calm h" "calm (h\<lparr>gc_grayagain := a\<rparr>) = calm h"
  "calm (h\<lparr>gc_weak := w\<rparr>) = calm h" "calm (h\<lparr>gc_state := s\<rparr>) = calm h" "calm (h\<lparr>mmudata := f\<rparr>) = calm h"
  "calm (h\<lparr>gc_sweep_pool := n\<rparr>) = calm h" "calm (h\<lparr>gc_sweep_pos := n\<rparr>) = calm h" "calm (h\<lparr>h_estimate := n\<rparr>) = calm h" "calm (h\<lparr>h_debt := n\<rparr>) = calm h" "calm (calm h) = calm h"
  by (simp_all add: calm_def)

lemma alike_calm: "alike h (calm h)"
  by (simp add: alike_def calm_def tab_at_def func_at_def proto_at_def upval_at_def thread_at_def udata_at_def cdata_at_def
      str_bytes_def objs_def fun_eq_iff)

lemmas calm_refs = alike_refs[OF alike_calm]

lemma calm_at: "tab_at (calm h) = tab_at h" "func_at (calm h) = func_at h" "proto_at (calm h) = proto_at h" "upval_at (calm h) = upval_at h"
  "thread_at (calm h) = thread_at h" "udata_at (calm h) = udata_at h" "cdata_at (calm h) = cdata_at h" "str_bytes (calm h) = str_bytes h"
  "try_lookup (h_strings (calm h)) = try_lookup (h_strings h)"
  using alike_calm[of h] by (simp_all add: alike_def)

lemma hdr_calm: "hdr (calm h) = hdr h"
proof
  fix r show "hdr (calm h) r = hdr h r" by (cases r) (simp_all add: calm_def)
qed

lemma same_calm_hdr: "calm h' = calm h \<Longrightarrow> hdr h' = hdr h" "calm h' = calm h \<Longrightarrow> is_marked h' = is_marked h"
  "calm h' = calm h \<Longrightarrow> refs h' = refs h" "calm h' = calm h \<Longrightarrow> objs h' = objs h" "calm h' = calm h \<Longrightarrow> heap_closed U h' = heap_closed U h"
proof -
  show "hdr h' = hdr h" if "calm h' = calm h" using that hdr_calm by metis
  then show "is_marked h' = is_marked h" if "calm h' = calm h" using that by (simp add: is_marked_def fun_eq_iff)
  show "refs h' = refs h" if "calm h' = calm h" using that calm_refs(6) by metis
  show "objs h' = objs h" if "calm h' = calm h" using that calm_refs(7) by metis
  show "heap_closed U h' = heap_closed U h" if "calm h' = calm h" using that calm_refs(8) by metis
qed

lemma same_calm_at: "calm h' = calm h \<Longrightarrow> thread_at h' = thread_at h" "calm h' = calm h \<Longrightarrow> tab_at h' = tab_at h"
  by (metis calm_at(5), metis calm_at(1))

lemma keeps_hkeeps:
  assumes "keeps h h'"
  shows "hkeeps h h'"
proof -
  have e: "strip (calm x) = calm (strip x)" for x by (simp add: strip_def calm_def)
  show ?thesis using assms unfolding hkeeps_def keeps_def calm_at calm_refs(7) e by simp
qed

lemma hkeeps_trans: "hkeeps a b \<Longrightarrow> hkeeps b c \<Longrightarrow> hkeeps a c"
  unfolding hkeeps_def by (rule keeps_trans)

lemma hkeeps_calm: "calm h' = calm h \<Longrightarrow> hkeeps h h'"
  by (simp add: hkeeps_def)

lemma hkeeps_refs:
  assumes k: "hkeeps h h'" and c: "heap_closed U h"
  shows "objs h' = objs h" "r \<in> U \<Longrightarrow> refs h' r = refs h r" "heap_closed U h'"
    "R \<subseteq> U \<Longrightarrow> reach h' R = reach h R"
proof -
  note e = keeps_refs[OF k[unfolded hkeeps_def], unfolded calm_refs]
  show "objs h' = objs h" "r \<in> U \<Longrightarrow> refs h' r = refs h r" and c': "heap_closed U h'" using e c by blast+
  show "reach h' R = reach h R" if R: "R \<subseteq> U"
  proof
    show "reach h R \<subseteq> reach h' R" by (rule reach_le) (use closed_reach[OF c R] e(2)[OF c] in auto)
    show "reach h' R \<subseteq> reach h R"
    proof (rule reach_le)
      fix r assume "r \<in> reach h' R"
      then have "r \<in> U" using closed_reach[OF c' R] by auto
      then show "refs h' r \<subseteq> refs h r" using e(2)[OF c] by simp
    qed
  qed
qed

section \<open>The state in the middle of a cycle\<close>

definition all_strings :: "gref set" where "all_strings = range RStr"

text \<open>Relative to the heap \<open>h0\<close> in which the cycle began; \<open>F\<close> are objects set aside for their finalizers.\<close>

definition mid :: "gref set \<Rightarrow> gref set \<Rightarrow> gheap \<Rightarrow> gheap \<Rightarrow> bool" where
  "mid U F h0 h \<longleftrightarrow> hkeeps h0 h \<and> heap_closed U h \<and> hMk h \<inter> objs h \<subseteq> all_strings \<union> U \<and> hMk h0 \<subseteq> hMk h \<and>
     (\<forall>r. r \<notin> hMk h \<and> r \<notin> F \<longrightarrow> hdr h r = hdr h0 r) \<and> set (gc_grayagain h) \<subseteq> U \<inter> hMk h \<inter> Collect grayable"

lemma Mk_heap: "Mk m = hMk (mk_heap m)"
  by (simp add: Mk_def)

lemma follows_mid:
  assumes m: "mid U F h0 (mk_heap m)" and f: "follows U m m'"
  shows "mid U F h0 (mk_heap m')"
proof -
  let ?h = "mk_heap m" and ?h' = "mk_heap m'"
  have c: "heap_closed U ?h" and k: "keeps ?h ?h'" using m f by (auto simp: mid_def follows_def)
  have "hMk ?h' \<subseteq> hMk ?h \<union> reach ?h (Mk m \<inter> U)" using f by (auto simp: follows_def Mk_heap)
  moreover have "reach ?h (Mk m \<inter> U) \<subseteq> U" by (rule closed_reach[OF c]) simp
  ultimately have "hMk ?h' \<inter> objs ?h' \<subseteq> all_strings \<union> U" using m keeps_refs(1)[OF k c] unfolding mid_def by blast
  moreover have "hMk ?h \<subseteq> hMk ?h'" using f by (simp add: follows_def Mk_heap)
  ultimately show ?thesis
    using m f keeps_refs(3)[OF k c] hkeeps_trans[OF _ keeps_hkeeps[OF k]] unfolding mid_def follows_def Mk_heap by (auto 0 4)
qed

lemma mid_calm:
  assumes "mid U F h0 h" "calm h' = calm h" "set (gc_grayagain h') \<subseteq> set (gc_grayagain h)"
  shows "mid U F h0 h'"
  using assms same_calm_hdr[OF assms(2)] hkeeps_trans[OF _ hkeeps_calm[OF assms(2)]] unfolding mid_def by auto

definition settled :: "gref set \<Rightarrow> gheap \<Rightarrow> bool" where
  "settled U h \<longleftrightarrow> (\<forall>r\<in>hMk h \<inter> U. refs h r \<subseteq> hMk h)"

lemma settled_calm: "settled U h \<Longrightarrow> calm h' = calm h \<Longrightarrow> settled U h'"
  using same_calm_hdr[of h' h] by (simp add: settled_def)

lemma settled_reach:
  assumes "settled U h" "heap_closed U h" "R \<subseteq> U" "R \<subseteq> hMk h"
  shows "reach h R \<subseteq> hMk h"
proof -
  have "reach h R \<subseteq> hMk h \<inter> U"
    by (rule reach_closed) (use assms closedD[OF assms(2)] in \<open>auto simp: settled_def\<close>)
  then show ?thesis by blast
qed

text \<open>A marker over a settled heap keeps the tricolour invariant, whatever marked objects are in its gray list.\<close>

lemma marker_inv:
  assumes "settled U h" "heap_closed U h" "set gray \<subseteq> U \<inter> hMk h \<inter> Collect grayable"
  shows "mark_inv U (start_marker a gray h)"
  using assms by (auto simp: mark_inv_def start_marker_def settled_def Mk_def)

section \<open>Incremental marking\<close>

lemma strip_fields:
  assumes "strip h' = strip h"
  shows "gc_gray h' = gc_gray h" "gc_state h' = gc_state h" "gc_weak h' = gc_weak h" "h_white h' = h_white h" "mmudata h' = mmudata h"
  using arg_cong[OF assms, of gc_gray] arg_cong[OF assms, of gc_state] arg_cong[OF assms, of gc_weak] arg_cong[OF assms, of h_white]
    arg_cong[OF assms, of mmudata] by (simp_all add: strip_def)

lemma follows_fields:
  assumes "follows U m m'"
  shows "gc_gray (mk_heap m') = gc_gray (mk_heap m)" "gc_state (mk_heap m') = gc_state (mk_heap m)"
    "gc_weak (mk_heap m') = gc_weak (mk_heap m)" "mmudata (mk_heap m') = mmudata (mk_heap m)"
proof -
  have "strip (mk_heap m') = strip (mk_heap m)" using assms by (simp add: follows_def keeps_def)
  note f = strip_fields[OF this]
  show "gc_gray (mk_heap m') = gc_gray (mk_heap m)" "gc_state (mk_heap m') = gc_state (mk_heap m)"
    "gc_weak (mk_heap m') = gc_weak (mk_heap m)" "mmudata (mk_heap m') = mmudata (mk_heap m)" by (fact f)+
qed

lemma start_marker_simps [simp]: "mk_heap (start_marker a g h) = h" "mk_gray (start_marker a g h) = g" "mk_weak (start_marker a g h) = []"
  "mk_atomic (start_marker a g h) = a" "Mk (start_marker a g h) = hMk h"
  by (simp_all add: start_marker_def Mk_def)

lemma mark_inv_start: "mark_inv U (start_marker a g h) \<longleftrightarrow> heap_closed U h \<and> set g \<subseteq> hMk h \<inter> U \<inter> Collect grayable \<and>
    (\<forall>r\<in>hMk h \<inter> U. r \<in> set g \<or> refs h r \<subseteq> hMk h)"
  by (simp add: mark_inv_def)

lemma mark_inv_calm: "mark_inv U (start_marker a g h) \<Longrightarrow> calm h' = calm h \<Longrightarrow> mark_inv U (start_marker b g h')"
  using same_calm_hdr[of h' h] by (simp add: mark_inv_start)

lemma mark_inv_marker: "mark_inv U m \<Longrightarrow> mark_inv U (start_marker a (mk_gray m) (mk_heap m))"
  by (simp add: mark_inv_start mark_inv_def Mk_heap)

lemma work_start: "work U m = work U (start_marker a (mk_gray m) (mk_heap m))"
  by (simp add: work_def Mk_heap)

text \<open>The weak tables found so far: each with its mode, and every one that has left the gray list.\<close>

definition hweak :: "gref set \<Rightarrow> gref list \<Rightarrow> gheap \<Rightarrow> bool" where
  "hweak U gray h \<longleftrightarrow> (\<forall>t w. (t, w) \<in> set (gc_weak h) \<longrightarrow> w \<noteq> 0 \<and> w = weak_mode h (tab_at h t)) \<and>
     (\<forall>t. RTab t \<in> U \<longrightarrow> RTab t \<in> hMk h \<longrightarrow> RTab t \<notin> set gray \<longrightarrow> weak_mode h (tab_at h t) \<noteq> 0 \<longrightarrow> t \<in> fst ` set (gc_weak h))"

lemma hweakD:
  assumes "hweak U gray h"
  shows "(t, w) \<in> set (gc_weak h) \<Longrightarrow> w \<noteq> 0 \<and> w = weak_mode h (tab_at h t)"
    "RTab t \<in> U \<Longrightarrow> RTab t \<in> hMk h \<Longrightarrow> RTab t \<notin> set gray \<Longrightarrow> weak_mode h (tab_at h t) \<noteq> 0 \<Longrightarrow> t \<in> fst ` set (gc_weak h)"
  using assms unfolding hweak_def by blast+

lemma hweak_mono: "hweak U gray h \<Longrightarrow> set gray \<subseteq> set gray' \<Longrightarrow> hweak U gray' h"
  unfolding hweak_def by blast

lemma hweak_calm:
  assumes "hweak U gray h" "calm h' = calm h" "gc_weak h' = gc_weak h"
  shows "hweak U gray h'"
proof -
  have "weak_mode h' = weak_mode h" using calm_refs(1) assms(2) by metis
  then show ?thesis using assms(1,3) same_calm_at(2)[OF assms(2)] same_calm_hdr(2)[OF assms(2)] by (simp add: hweak_def)
qed

lemma hweak_keeps:
  assumes "hweak U gray h" "keeps h h'" "is_marked h' = is_marked h"
  shows "hweak U gray h'"
proof -
  have "strip h' = strip h" using assms(2) by (simp add: keeps_def)
  then have "gc_weak h' = gc_weak h" by (rule strip_fields(3))
  then show ?thesis using assms(1,3) keeps_weak[OF assms(2)] by (simp add: hweak_def)
qed

lemma hweak_follows:
  assumes h: "hweak U (mk_gray m) (mk_heap m)" and n: "mk_weak m = []" and f: "follows U m m'"
  shows "hweak U (mk_gray m') ((mk_heap m')\<lparr>gc_weak := gc_weak (mk_heap m') @ mk_weak m'\<rparr>)"
proof -
  let ?h' = "(mk_heap m')\<lparr>gc_weak := gc_weak (mk_heap m') @ mk_weak m'\<rparr>"
  have k: "keeps (mk_heap m) (mk_heap m')" and g: "weak_grows U m m'" using f by (simp_all add: follows_def)
  have c: "calm ?h' = calm (mk_heap m')" by simp
  have "weak_mode ?h' = weak_mode (mk_heap m')" using calm_refs(1) c by metis
  then have w: "weak_mode ?h' t = weak_mode (mk_heap m) t" "tab_at ?h' = tab_at (mk_heap m)" for t
    using keeps_weak[OF k] same_calm_at(2)[OF c] by simp_all
  have M: "hMk ?h' = Mk m'" using same_calm_hdr(2)[OF c] by (simp add: Mk_heap)
  have l: "set (gc_weak ?h') = set (gc_weak (mk_heap m)) \<union> set (mk_weak m')" using follows_fields(3)[OF f] by simp
  note old = hweakD[OF h] and new = weak_growsD[OF g, unfolded n]
  have "v \<noteq> 0 \<and> v = weak_mode ?h' (tab_at ?h' t)" if "(t, v) \<in> set (gc_weak ?h')" for t v
    using that old(1)[of t v] new(2)[of t v] unfolding l w by auto
  moreover have "t \<in> fst ` set (gc_weak ?h')"
    if t: "RTab t \<in> U" "RTab t \<in> hMk ?h'" "RTab t \<notin> set (mk_gray m')" "weak_mode ?h' (tab_at ?h' t) \<noteq> 0" for t
  proof (cases "RTab t \<in> set (mk_gray m) \<or> RTab t \<notin> Mk m")
    case True
    then show ?thesis using new(3)[OF t(1) _ True t(3)] t(2,4) unfolding M l w by auto
  next
    case False
    then show ?thesis using old(2)[OF t(1)] t(4) unfolding l w by (auto simp: Mk_heap)
  qed
  ultimately show ?thesis unfolding hweak_def by blast
qed

lemma hweak_adds:
  assumes h: "hweak U (mk_gray m) (mk_heap m)" and a: "adds U S m m'" and inv: "mark_inv U m"
  shows "hweak U (mk_gray m') (mk_heap m')" "mk_weak m' = mk_weak m"
proof -
  have p: "table_pushed m m'" and s: "same (mk_heap m) (mk_heap m')" using a inv by (simp_all add: adds_def)
  have "strip (mk_heap m') = strip (mk_heap m)" using s by (simp add: same_def)
  then have g: "gc_weak (mk_heap m') = gc_weak (mk_heap m)" by (rule strip_fields(3))
  note w = keeps_weak[OF same_keeps[OF s]]
  have "t \<in> fst ` set (gc_weak (mk_heap m'))"
    if t: "RTab t \<in> U" "RTab t \<in> hMk (mk_heap m')" "RTab t \<notin> set (mk_gray m')" "weak_mode (mk_heap m') (tab_at (mk_heap m') t) \<noteq> 0" for t
  proof -
    have "RTab t \<in> Mk m" using p t(2,3) unfolding table_pushed_def Mk_heap by blast
    moreover have "RTab t \<notin> set (mk_gray m)" using p t(3) by (auto simp: table_pushed_def)
    ultimately show ?thesis using hweakD(2)[OF h t(1)] t(4) unfolding g w by (simp add: Mk_heap)
  qed
  then show "hweak U (mk_gray m') (mk_heap m')" using hweakD(1)[OF h] unfolding hweak_def g w by blast
  show "mk_weak m' = mk_weak m" using p by (simp add: table_pushed_def)
qed

definition propagating :: "gref set \<Rightarrow> gheap \<Rightarrow> gref set \<Rightarrow> gheap \<Rightarrow> bool" where
  "propagating U h0 R h \<longleftrightarrow> gc_state h = Propagate \<and> mid U {} h0 h \<and> R \<subseteq> hMk h \<and>
     mark_inv U (start_marker False (gc_gray h) h) \<and> hweak U (gc_gray h) h"

lemma propagate_phase_ok:
  assumes p: "propagating U h0 R h"
  defines "h' \<equiv> propagate_phase h"
  shows "propagating U h0 R h' \<and> work U (start_marker False (gc_gray h') h') < work U (start_marker False (gc_gray h) h) \<or>
    gc_state h' = Atomic \<and> mid U {} h0 h' \<and> R \<subseteq> hMk h' \<and> settled U h' \<and> gc_gray h' = [] \<and> hweak U [] h'"
proof -
  let ?h0 = "h\<lparr>gc_gray := []\<rparr>" let ?m0 = "start_marker False (gc_gray h) ?h0"
  obtain d m where m: "propagate_step 32 ?m0 = (d, m)" by (cases "propagate_step 32 ?m0") auto
  have inv0: "mark_inv U ?m0" by (rule mark_inv_calm) (use p in \<open>auto simp: propagating_def\<close>)
  note s = propagate_step_ok[OF inv0 m]
  note f = follows_fields[OF s(2)]
  have mid0: "mid U {} h0 ?h0" by (rule mid_calm[of U "{}" h0 h]) (use p in \<open>auto simp: propagating_def\<close>)
  have mid1: "mid U {} h0 (mk_heap m)" by (rule follows_mid[of _ _ _ ?m0]) (use mid0 s(2) in simp_all)
  have g: "gc_gray (mk_heap m) = []" using f(1) by simp
  have e: "h' = (mk_heap m)\<lparr>gc_state := (if d \<and> mk_gray m = [] then Atomic else gc_state (mk_heap m)), gc_gray := mk_gray m,
      gc_weak := gc_weak (mk_heap m) @ mk_weak m\<rparr>"
    by (simp add: h'_def propagate_phase_def m Let_def g)
  have c: "calm h' = calm (mk_heap m)" by (simp add: e)
  have mid': "mid U {} h0 h'" by (rule mid_calm[OF mid1 c]) (simp add: e)
  have M: "hMk h' = Mk m" using same_calm_hdr(2)[OF c] by (simp add: Mk_heap)
  have R: "R \<subseteq> hMk h'"
  proof -
    have "R \<subseteq> hMk h" using p by (simp add: propagating_def)
    also have "\<dots> = Mk ?m0" using same_calm_hdr(2)[of ?h0 h] by simp
    also have "\<dots> \<subseteq> Mk m" using s(2) by (simp add: follows_def)
    finally show ?thesis by (simp add: M)
  qed
  have inv': "mark_inv U (start_marker False (gc_gray h') h')"
    using mark_inv_calm[OF mark_inv_marker[OF s(1)] c, where b = False] by (simp add: e)
  have "hweak U (mk_gray ?m0) (mk_heap ?m0)" using p hweak_calm[of U "gc_gray h" h ?h0] by (simp add: propagating_def)
  from hweak_follows[OF this _ s(2)]
  have "hweak U (mk_gray m) ((mk_heap m)\<lparr>gc_weak := gc_weak (mk_heap m) @ mk_weak m\<rparr>)" by simp
  then have W: "hweak U (gc_gray h') h'" using hweak_calm[of U "mk_gray m" "(mk_heap m)\<lparr>gc_weak := gc_weak (mk_heap m) @ mk_weak m\<rparr>" h'] by (simp add: e)
  show ?thesis
  proof (cases d)
    case True
    then have "mk_gray m = []" using s(3) by simp
    moreover from this have "settled U h'" using inv' by (simp add: mark_inv_start settled_def e)
    ultimately show ?thesis using True mid' R W by (simp add: e)
  next
    case False
    have "work U (start_marker False (gc_gray h') h') = work U m" by (simp add: work_def M) (simp add: e)
    moreover have "work U ?m0 = work U (start_marker False (gc_gray h) h)"
      using same_calm_hdr(2)[of ?h0 h] by (simp add: work_def)
    ultimately show ?thesis using False s(4) mid' R inv' W p f(2) by (simp add: propagating_def) (simp add: e)
  qed
qed

lemma step_loop_once: "gc_onestep L h = Some (c, False, h') \<Longrightarrow> step_loop L True b h = step_loop L True b h'"
  by (simp add: step_loop.simps[of L True b h])

lemma step_loop_end: "gc_onestep L h = Some (c, True, h') \<Longrightarrow> step_loop L b n h = Some (True, h')"
  by (simp add: step_loop.simps[of L b n h])

lemma propagate_loop:
  assumes "propagating U h0 R h"
  shows "\<exists>h'. step_loop L True b h = step_loop L True b h' \<and> gc_state h' = Atomic \<and> mid U {} h0 h' \<and> R \<subseteq> hMk h' \<and> settled U h' \<and>
    gc_gray h' = [] \<and> hweak U [] h'"
  using assms
proof (induction "work U (start_marker False (gc_gray h) h)" arbitrary: h rule: less_induct)
  case less
  have "gc_onestep L h = Some (GC_STEP_SIZE, False, propagate_phase h)"
    using less.prems by (simp add: gc_onestep_def propagating_def)
  then have "step_loop L True b h = step_loop L True b (propagate_phase h)" by (rule step_loop_once)
  then show ?case using propagate_phase_ok[OF less.prems] less.hyps by metis
qed

section \<open>The atomic phase\<close>

lemma propagate_settled:
  assumes s: "settled U h" and m: "mid U F h0 h" and g: "set gray \<subseteq> U \<inter> hMk h \<inter> Collect grayable"
    and w: "hweak U [] h"
  obtains m' where "propagate (start_marker a gray h) = Some m'" "mid U F h0 (mk_heap m')" "settled U (mk_heap m')" "hMk h \<subseteq> hMk (mk_heap m')"
    "hweak U [] ((mk_heap m')\<lparr>gc_weak := gc_weak (mk_heap m') @ mk_weak m'\<rparr>)"
proof -
  have "heap_closed U h" using m by (simp add: mid_def)
  from marker_inv[OF s this g] obtain m' where p: "propagate (start_marker a gray h) = Some m'" "mark_inv U m'"
    "follows U (start_marker a gray h) m'" "mk_gray m' = []" by (metis propagate_ok)
  have "mid U F h0 (mk_heap m')" by (rule follows_mid[OF _ p(3)]) (simp add: m)
  moreover have "settled U (mk_heap m')" using p(2,4) by (simp add: mark_inv_def settled_def Mk_heap)
  moreover have "hMk h \<subseteq> hMk (mk_heap m')" using p(3) by (simp add: follows_def Mk_heap)
  moreover have "hweak U [] ((mk_heap m')\<lparr>gc_weak := gc_weak (mk_heap m') @ mk_weak m'\<rparr>)"
    using hweak_follows[OF _ _ p(3)] hweak_mono[OF w] p(4) by simp
  ultimately show thesis using that p(1) by blast
qed

lemma mark_again_ok:
  assumes m: "mid U F h0 h" and s: "settled U h" and g: "gc_gray h = []" and w: "hweak U [] h"
  obtains h' where "mark_again h = Some h'" "mid U F h0 h'" "settled U h'" "hMk h \<subseteq> hMk h'" "gc_gray h' = []" "gc_grayagain h' = []"
    "hweak U [] h'"
proof -
  let ?h1 = "h\<lparr>gc_gray := [], gc_grayagain := []\<rparr>"
  have c: "calm ?h1 = calm h" by simp
  have m1: "mid U F h0 ?h1" by (rule mid_calm[OF m c]) simp
  have s1: "settled U ?h1" by (rule settled_calm[OF s c])
  have M: "hMk ?h1 = hMk h" using same_calm_hdr(2)[OF c] by simp
  have w1: "hweak U [] ?h1" by (rule hweak_calm[OF w c]) simp
  show thesis
  proof (cases "gc_grayagain h = []")
    case True
    show thesis by (rule that[of "?h1\<lparr>gc_gray := [], gc_grayagain := []\<rparr>"])
        (use m1 s1 M w1 in \<open>simp_all add: mark_again_def g True\<close>)
  next
    case False
    have "set (gc_grayagain h) \<subseteq> U \<inter> hMk ?h1 \<inter> Collect grayable" using m M by (simp add: mid_def)
    then obtain m' where p: "propagate (start_marker True (gc_grayagain h) ?h1) = Some m'" "mid U F h0 (mk_heap m')"
      "settled U (mk_heap m')" "hMk ?h1 \<subseteq> hMk (mk_heap m')"
      "hweak U [] ((mk_heap m')\<lparr>gc_weak := gc_weak (mk_heap m') @ mk_weak m'\<rparr>)" by (metis propagate_settled[OF s1 m1 _ w1])
    let ?h' = "(mk_heap m')\<lparr>gc_weak := gc_weak (mk_heap m') @ mk_weak m', gc_gray := [], gc_grayagain := []\<rparr>"
    have c': "calm ?h' = calm (mk_heap m')" by simp
    have "mark_again h = Some ?h'" using False p(1) by (simp add: mark_again_def g)
    moreover have "mid U F h0 ?h'" by (rule mid_calm[OF p(2) c']) simp
    moreover have "settled U ?h'" by (rule settled_calm[OF p(3) c'])
    moreover have "hMk h \<subseteq> hMk ?h'" using p(4) M same_calm_hdr(2)[OF c'] by simp
    moreover have "hweak U [] ?h'" by (rule hweak_calm[OF p(5)]) simp_all
    ultimately show thesis using that by simp
  qed
qed

lemma undead_facts:
  "keeps h (undead r h)" "is_marked (undead r h) = is_marked h" "r' \<noteq> r \<Longrightarrow> hdr (undead r h) r' = hdr h r'"
  "\<not> is_dead (hdr (undead r h) r) cw" "\<not> is_black (hdr (undead r h) r)" "gc_grayagain (undead r h) = gc_grayagain h"
  "is_finalized (hdr (undead r h) r)"
proof -
  show "keeps h (undead r h)" by (simp add: undead_def same_keeps)
  show "is_marked (undead r h) = is_marked h"
    by (auto simp: undead_def is_marked_def hdr_upd set_finalized_def make_undead_def fun_eq_iff)
  show "r' \<noteq> r \<Longrightarrow> hdr (undead r h) r' = hdr h r'" by (simp add: undead_def hdr_upd)
  show "\<not> is_dead (hdr (undead r h) r) cw" "\<not> is_black (hdr (undead r h) r)" "is_finalized (hdr (undead r h) r)"
    using field_consts
    by (simp_all add: undead_def hdr_upd set_finalized_def make_undead_def is_dead_def is_black_def is_finalized_def
        and_other_field and_same_field bit_defs) (simp_all add: bit.conj_disj_distrib2 and.assoc)
  show "gc_grayagain (undead r h) = gc_grayagain h" by (simp add: undead_def)
qed

lemma separate_ok:
  assumes "fold separate_one xs ([], h) = (out, h')"
  shows "keeps h h'" "is_marked h' = is_marked h" "gc_grayagain h' = gc_grayagain h" "set out \<subseteq> set xs"
    "r \<notin> set out \<Longrightarrow> hdr h' r = hdr h r"
    "r \<in> set out \<Longrightarrow> \<not> is_marked h r \<and> needs_gc h r \<and> \<not> is_dead (hdr h' r) cw \<and> \<not> is_black (hdr h' r)"
proof -
  have needs: "needs_gc h' r = needs_gc h r" if "keeps h h'" "hdr h' r = hdr h r" for h' r
  proof -
    have "scan_nodes h' key ns = scan_nodes h key ns" for key ns
      using that(1) by (induction ns) (auto simp: keeps_def split: option.splits)
    then show ?thesis using that by (cases r) (simp_all add: needs_gc_def has_gc_meta_def keeps_def scan_str_key_def split: option.split)
  qed
  have "keeps h h' \<and> is_marked h' = is_marked h \<and> gc_grayagain h' = gc_grayagain h \<and> set out \<subseteq> set xs \<and>
      (\<forall>r. r \<notin> set out \<longrightarrow> hdr h' r = hdr h r) \<and>
      (\<forall>r\<in>set out. \<not> is_marked h r \<and> needs_gc h r \<and> is_finalized (hdr h' r) \<and> \<not> is_dead (hdr h' r) cw \<and> \<not> is_black (hdr h' r))"
    using assms
  proof (induction xs arbitrary: out h' rule: rev_induct)
    case (snoc x xs)
    obtain out1 h1 where 1: "fold separate_one xs ([], h) = (out1, h1)" by (cases "fold separate_one xs ([], h)") auto
    note IH = snoc.IH[OF 1]
    have s: "separate_one x (out1, h1) = (out, h')" using snoc.prems 1 by simp
    show ?case
    proof (cases "needs_gc h1 x")
      case False
      then show ?thesis using s IH by (auto simp: separate_one_def)
    next
      case True
      then have e: "out = out1 @ [x]" "h' = undead x h1" using s by (auto simp: separate_one_def)
      have x: "x \<notin> set out1" using True IH by (auto simp: needs_gc_def)
      note u = undead_facts[where h = h1 and r = x]
      have mx: "\<not> is_marked h x" using True IH by (simp add: needs_gc_def is_marked_def fun_eq_iff)
      have nx: "needs_gc h x" using True needs[of h1 x] IH x by simp
      have "hdr h' r = hdr h r" if "r \<notin> set out" for r using that u(3)[where r' = r] IH by (simp add: e)
      moreover have "\<not> is_marked h r \<and> needs_gc h r \<and> is_finalized (hdr h' r) \<and> \<not> is_dead (hdr h' r) cw \<and> \<not> is_black (hdr h' r)" if "r \<in> set out" for r
      proof (cases "r = x")
        case True
        then show ?thesis using mx nx u(4,5,7) by (simp add: e)
      next
        case False
        then show ?thesis using that IH u(3)[where r' = r] by (simp add: e)
      qed
      ultimately show ?thesis using IH u(1,2,6) keeps_trans[OF _ u(1)] by (auto simp: e)
    qed
  qed simp
  then show "keeps h h'" "is_marked h' = is_marked h" "gc_grayagain h' = gc_grayagain h" "set out \<subseteq> set xs"
    "r \<notin> set out \<Longrightarrow> hdr h' r = hdr h r"
    "r \<in> set out \<Longrightarrow> \<not> is_marked h r \<and> needs_gc h r \<and> \<not> is_dead (hdr h' r) cw \<and> \<not> is_black (hdr h' r)" by auto
qed

lemma mid_keeps:
  assumes m: "mid U F h0 h" and k: "keeps h h'" and M: "is_marked h' = is_marked h" and g: "gc_grayagain h' = gc_grayagain h"
    and d: "\<And>r. r \<notin> G \<Longrightarrow> hdr h' r = hdr h r"
  shows "mid U (F \<union> G) h0 h'" "settled U h \<Longrightarrow> settled U h'"
proof -
  have c: "heap_closed U h" using m by (simp add: mid_def)
  show "mid U (F \<union> G) h0 h'" using m d keeps_refs(1,3)[OF k c] hkeeps_trans[OF _ keeps_hkeeps[OF k]] unfolding mid_def M g by auto
  show "settled U h'" if "settled U h" using that keeps_refs(2)[OF k c] by (auto simp: settled_def M)
qed

lemma adds_mid:
  assumes m: "mid U F h0 (mk_heap m)" and inv: "mark_inv U m" and a: "adds U S m m'"
  shows "mid U F h0 (mk_heap m')" "mark_inv U m'" "Mk m \<union> S \<subseteq> Mk m'"
proof -
  have a: "mark_inv U m'" "same (mk_heap m) (mk_heap m')" "Mk m \<union> S \<subseteq> Mk m'" "Mk m' \<subseteq> Mk m \<union> U"
    "gc_grayagain (mk_heap m') = gc_grayagain (mk_heap m)" "\<And>r. r \<notin> Mk m' \<Longrightarrow> hdr (mk_heap m') r = hdr (mk_heap m) r"
    using a inv by (simp_all add: adds_def)
  show "mark_inv U m'" "Mk m \<union> S \<subseteq> Mk m'" by fact+
  have "hkeeps (mk_heap m) (mk_heap m')" by (rule keeps_hkeeps[OF same_keeps[OF a(2)]])
  then show "mid U F h0 (mk_heap m')"
    using m a(3-6) mark_invD[OF a(1)] hkeeps_trans same_refs(7)[OF a(2)] unfolding mid_def Mk_heap by (auto 0 4)
qed

definition metas_in :: "gref set \<Rightarrow> gheap \<Rightarrow> bool" where
  "metas_in U h \<longleftrightarrow> (\<forall>a\<in>set (objects (h_userdatas h)). RTab ` set_option (ud_metatable (udata_at h a)) \<subseteq> U)"

lemma mark_finalizable_ok:
  assumes m: "mid U F h0 h" and s: "settled U h" and g: "gc_gray h = []" "gc_grayagain h = []"
    and w: "hweak U [] h" and mt: "\<And>r. r \<in> set mmu \<Longrightarrow> RTab ` set_option (finalizable_meta h r) \<subseteq> U"
  obtains h' where "mark_finalizable mmu h = Some h'" "mid U F h0 h'" "hMk h \<subseteq> hMk h'"
    "\<And>r. r \<notin> hMk h' \<Longrightarrow> hdr h' r = hdr h r" "settled U h'" "hweak U [] h'"
proof (cases "mmu = []")
  case True
  then show thesis using that m s w by (simp add: mark_finalizable_def)
next
  case False
  let ?ms = "start_marker True [] h"
  let ?m1 = "fold (\<lambda>r m. case finalizable_meta h r of Some mt \<Rightarrow> mark_table mt m | None \<Rightarrow> m) mmu ?ms"
  have c: "heap_closed U h" using m by (simp add: mid_def)
  have inv0: "mark_inv U ?ms" by (rule marker_inv[OF s c]) simp
  have ad: "adds U (\<Union> ((\<lambda>r. RTab ` set_option (finalizable_meta h r)) ` set mmu)) ?ms ?m1"
    by (rule adds_fold, rule add_option_table, erule mt)
  note a = adds_mid[OF _ inv0 ad, simplified start_marker_simps(1), OF m]
  obtain m2 where p: "propagate ?m1 = Some m2" "mark_inv U m2" "follows U ?m1 m2" "mk_gray m2 = []"
    using propagate_ok[OF a(2)] by blast
  note mid1 = a(1)
  have mid2: "mid U F h0 (mk_heap m2)" by (rule follows_mid[OF mid1 p(3)])
  let ?h' = "(mk_heap m2)\<lparr>gc_gray := [], gc_grayagain := [], gc_weak := gc_weak (mk_heap m2) @ mk_weak m2, mmudata := mmudata (mk_heap m2) @ mmu\<rparr>"
  have e: "mark_finalizable mmu h = Some ?h'" using False p(1) by (simp add: mark_finalizable_def Let_def)
  have k: "calm ?h' = calm (mk_heap m2)" by simp
  have "mid U F h0 ?h'" by (rule mid_calm[OF mid2 k]) simp
  moreover have "hMk h \<subseteq> hMk ?h'" using a(3) p(3) same_calm_hdr(2)[OF k] by (auto simp: follows_def Mk_heap)
  moreover have "hdr ?h' r = hdr h r" if "r \<notin> hMk ?h'" for r
  proof -
    have n: "r \<notin> Mk m2" using that same_calm_hdr(2)[OF k] by (simp add: Mk_heap)
    then have "r \<notin> Mk ?m1" using p(3) by (auto simp: follows_def)
    then have "hdr (mk_heap ?m1) r = hdr h r" using ad inv0 by (simp add: adds_def)
    then show ?thesis using n p(3) same_calm_hdr(1)[OF k] by (simp add: follows_def)
  qed
  moreover have "settled U (mk_heap m2)" using p(2,4) by (simp add: mark_inv_def settled_def Mk_heap)
  from settled_calm[OF this k] have "settled U ?h'" .
  moreover have "hweak U [] ?h'"
  proof -
    have "hweak U (mk_gray ?m1) (mk_heap ?m1)" "mk_weak ?m1 = []" using hweak_adds[OF _ ad inv0] w by simp_all
    from hweak_follows[OF this p(3)] show ?thesis unfolding p(4) by (rule hweak_calm) simp_all
  qed
  ultimately show thesis using that e by blast
qed

section \<open>Clearing weak tables\<close>

definition weak_value :: "lua_value \<Rightarrow> lua_value \<Rightarrow> bool" where "weak_value v v' \<longleftrightarrow> v' = v \<or> v' = NIL"

definition weak_tab :: "ltable \<Rightarrow> ltable \<Rightarrow> bool" where
  "weak_tab t t' \<longleftrightarrow> t' = t\<lparr>arr := arr t', nodes := nodes t'\<rparr> \<and> list_all2 weak_value (arr t) (arr t') \<and>
     list_all2 (\<lambda>n n'. n' = n \<or> n' = n\<lparr>n_val := NIL\<rparr>) (nodes t) (nodes t')"

definition untabled :: "gheap \<Rightarrow> gheap" where
  "untabled h = (strip h)\<lparr>h_tables := (h_tables (strip h))\<lparr>mem := mem (pool_new undefined)\<rparr>\<rparr>"

text \<open>Only strings are marked, and only slots of tables emptied.\<close>

definition weakened :: "gheap \<Rightarrow> gheap \<Rightarrow> bool" where
  "weakened h h' \<longleftrightarrow> untabled h' = untabled h \<and> thread_at h' = thread_at h \<and> (\<forall>r. r \<notin> all_strings \<longrightarrow> hdr h' r = hdr h r) \<and>
     (\<forall>r. hdr h' r = hdr h r \<or> is_marked h' r) \<and> hMk h \<subseteq> hMk h' \<and> (\<forall>a. weak_tab (tab_at h a) (tab_at h' a))"

lemma weak_tab_refl [simp]: "weak_tab t t"
  by (simp add: weak_tab_def weak_value_def list.rel_refl)

lemma weak_tab_trans:
  assumes "weak_tab a b" "weak_tab b c"
  shows "weak_tab a c"
proof -
  have "list_all2 weak_value (arr a) (arr c)"
    by (rule list_all2_trans[of weak_value weak_value weak_value, rotated]) (use assms in \<open>auto simp: weak_tab_def weak_value_def\<close>)
  moreover have "list_all2 (\<lambda>n n'. n' = n \<or> n' = n\<lparr>n_val := NIL\<rparr>) (nodes a) (nodes c)"
    by (rule list_all2_trans[where ?P1.0 = "\<lambda>n n'. n' = n \<or> n' = n\<lparr>n_val := NIL\<rparr>" and ?P2.0 = "\<lambda>n n'. n' = n \<or> n' = n\<lparr>n_val := NIL\<rparr>", rotated])
      (use assms in \<open>auto simp: weak_tab_def\<close>)
  moreover have "c = a\<lparr>arr := arr c, nodes := nodes c\<rparr>" using assms
    by (metis (no_types, lifting) weak_tab_def ltable.surjective ltable.update_convs(1) ltable.update_convs(2))
  ultimately show ?thesis by (simp add: weak_tab_def)
qed

lemma weakened_refl [simp]: "weakened h h"
  by (simp add: weakened_def)

lemma weakened_trans: "weakened a b \<Longrightarrow> weakened b c \<Longrightarrow> weakened a c"
proof -
  assume a: "weakened a b" and b: "weakened b c"
  have "hdr c r = hdr a r \<or> is_marked c r" for r
    using a b unfolding weakened_def by (metis (mono_tags) mem_Collect_eq subsetD)
  moreover have "weak_tab (tab_at a t) (tab_at c t)" for t
    using a b weak_tab_trans[of "tab_at a t" "tab_at b t" "tab_at c t"] by (simp add: weakened_def)
  ultimately show ?thesis using a b unfolding weakened_def by auto
qed

lemma untabled_strip: "strip h' = strip h \<Longrightarrow> untabled h' = untabled h"
  by (simp add: untabled_def)

lemma weakened_mark_string: "weakened h (heap_mark (RStr p) h)"
proof -
  have "untabled (heap_mark (RStr p) h) = untabled h" by (rule untabled_strip) (simp add: heap_mark_def)
  then show ?thesis by (auto simp: weakened_def heap_mark_def hdr_upd all_strings_def is_marked_def set_marked_def nw2black_def)
qed

lemma may_clear_weakened:
  assumes "may_clear h v b cw = (c, h')"
  shows "weakened h h'" "tab_at h' = tab_at h"
proof -
  have "h' = h \<or> (\<exists>p. h' = heap_mark (RStr p) h)"
    using assms unfolding may_clear_def Let_def by (auto split: if_splits option.splits)
  then show "weakened h h'" "tab_at h' = tab_at h" using weakened_mark_string by (auto simp: heap_mark_def)
qed

lemma clear_slots_ok: "clear_slots cw vs h = (vs', h') \<Longrightarrow> weakened h h' \<and> tab_at h' = tab_at h \<and> list_all2 weak_value vs vs'"
proof (induction vs arbitrary: h vs' h')
  case (Cons v vs)
  obtain c h1 where m: "may_clear h v True cw = (c, h1)" by (cases "may_clear h v True cw") auto
  obtain vs1 h2 where s: "clear_slots cw vs h1 = (vs1, h2)" by (cases "clear_slots cw vs h1") auto
  show ?case using Cons.prems Cons.IH[OF s] may_clear_weakened[OF m] m s weakened_trans by (auto simp: weak_value_def)
qed simp

lemma clear_node_ok:
  assumes "clear_node cw n h = (n', h')"
  shows "weakened h h'" "tab_at h' = tab_at h" "n' = n \<or> n' = n\<lparr>n_val := NIL\<rparr>"
proof -
  obtain c h1 where m: "may_clear h (n_key n) False cw = (c, h1)" by (cases "may_clear h (n_key n) False cw") auto
  obtain d h2 where m': "may_clear h1 (n_val n) True cw = (d, h2)" by (cases "may_clear h1 (n_val n) True cw") auto
  note w = may_clear_weakened[OF m] may_clear_weakened[OF m']
  show "weakened h h'" "tab_at h' = tab_at h" "n' = n \<or> n' = n\<lparr>n_val := NIL\<rparr>"
    using assms w weakened_trans[OF w(1,3)] by (auto simp: clear_node_def m m' split: if_splits bool.splits)
qed

lemma clear_nodes_ok: "clear_nodes cw ns h = (ns', h') \<Longrightarrow>
    weakened h h' \<and> tab_at h' = tab_at h \<and> list_all2 (\<lambda>n n'. n' = n \<or> n' = n\<lparr>n_val := NIL\<rparr>) ns ns'"
proof (induction ns arbitrary: h ns' h')
  case (Cons n ns)
  obtain n1 h1 where m: "clear_node cw n h = (n1, h1)" by (cases "clear_node cw n h") auto
  obtain ns1 h2 where s: "clear_nodes cw ns h1 = (ns1, h2)" by (cases "clear_nodes cw ns h1") auto
  show ?case using Cons.prems Cons.IH[OF s] clear_node_ok[OF m] m s weakened_trans by auto
qed simp

lemma weakened_set_tab:
  assumes "weak_tab (tab_at h a) t"
  shows "weakened h (set_tab a t h)"
proof -
  have "hdr (set_tab a t h) r = hdr h r" for r by (cases r) (simp_all add: set_tab_def)
  moreover have "tab_at (set_tab a t h) b = (if b = a then t else tab_at h b)" for b by (simp add: set_tab_def tab_at_def)
  moreover have "untabled (set_tab a t h) = untabled h" by (simp add: untabled_def set_tab_def strip_def bare_def)
  ultimately show ?thesis using assms by (auto simp: weakened_def is_marked_def) (simp add: set_tab_def thread_at_def fun_eq_iff)
qed

lemma clear_weak_entries_ok: "weakened h (clear_weak_entries a mode cw h)"
proof -
  let ?t = "tab_at h a"
  obtain vs h1 where 1: "(if mode AND WEAKVAL \<noteq> 0 then clear_slots cw (arr ?t) h else (arr ?t, h)) = (vs, h1)" by force
  obtain ns h2 where 2: "(if mode AND (WEAKKEY OR WEAKVAL) \<noteq> 0 then clear_nodes cw (nodes ?t) h1 else (nodes ?t, h1)) = (ns, h2)" by force
  have r: "list_all2 weak_value xs xs" "list_all2 (\<lambda>n n'. n' = n \<or> n' = n\<lparr>n_val := NIL\<rparr>) ys ys" for xs ys
    by (simp_all add: weak_value_def list.rel_refl)
  have w1: "weakened h h1 \<and> tab_at h1 = tab_at h \<and> list_all2 weak_value (arr ?t) vs"
    using 1 clear_slots_ok[of cw "arr ?t" h vs h1] r(1) by (auto split: if_splits)
  have w2: "weakened h1 h2 \<and> tab_at h2 = tab_at h1 \<and> list_all2 (\<lambda>n n'. n' = n \<or> n' = n\<lparr>n_val := NIL\<rparr>) (nodes ?t) ns"
    using 2 clear_nodes_ok[of cw "nodes ?t" h1 ns h2] r(2) by (auto split: if_splits)
  have "weakened h2 (set_tab a (?t\<lparr>arr := vs, nodes := ns\<rparr>) h2)"
    by (rule weakened_set_tab) (use w1 w2 in \<open>simp add: weak_tab_def\<close>)
  then have "weakened h (set_tab a (?t\<lparr>arr := vs, nodes := ns\<rparr>) h2)" using w1 w2 weakened_trans by blast
  moreover have "clear_weak_entries a mode cw h = set_tab a (?t\<lparr>arr := vs, nodes := ns\<rparr>) h2"
    unfolding clear_weak_entries_def Let_def 1 2 by (simp add: 2)
  ultimately show ?thesis by simp
qed

lemma clear_weak_ok: "weakened (h\<lparr>gc_weak := []\<rparr>) (clear_weak h)"
proof -
  have "weakened h0 h' \<Longrightarrow> weakened h0 (fold (\<lambda>(t, mode) h. clear_weak_entries t mode (h_white h) h) ws h')" for ws h0 h'
    by (induction ws arbitrary: h') (auto intro: weakened_trans[OF _ clear_weak_entries_ok])
  then show ?thesis by (simp add: clear_weak_def)
qed

text \<open>References, strong and weak, of the slots of a table.\<close>

definition slot_refs :: "ltable \<Rightarrow> gref set" where
  "slot_refs t = \<Union> (vrefs ` lua_table_value ` set_option (metatable t)) \<union> \<Union> (vrefs ` set (arr t)) \<union>
     (if has_hpart t then \<Union>n\<in>{n \<in> set (nodes t). \<not> is_nil (n_val n)}. vrefs (n_key n) \<union> vrefs (n_val n) else {})"

text \<open>An object that the sweep will keep: marked, or a userdata that is not dead.\<close>

definition keepable :: "u8 \<Rightarrow> gheap \<Rightarrow> gref \<Rightarrow> bool" where
  "keepable cw h r \<longleftrightarrow> is_marked h r \<or> (\<exists>a. r = RUdata a \<and> \<not> is_dead (hdr h r) cw)"

definition weak_clean :: "u8 \<Rightarrow> gheap \<Rightarrow> ltable \<Rightarrow> u8 \<Rightarrow> bool" where
  "weak_clean cw h t mode \<longleftrightarrow>
     (mode AND WEAKVAL \<noteq> 0 \<longrightarrow> (\<forall>v\<in>set (arr t). \<forall>r\<in>vrefs v. keepable cw h r)) \<and>
     (mode AND (WEAKKEY OR WEAKVAL) \<noteq> 0 \<longrightarrow>
        (\<forall>n\<in>set (nodes t). \<not> is_nil (n_val n) \<longrightarrow> (\<forall>r\<in>vrefs (n_key n) \<union> vrefs (n_val n). keepable cw h r)))"

lemma nil_facts [simp]: "is_nil NIL" "vrefs NIL = {}"
proof -
  show "is_nil NIL" by (simp add: is_nil_def)
  have "itype NIL = LJ_TNIL" by code_simp
  then show "vrefs NIL = {}" by (simp add: vrefs_kinds itype_defs)
qed

lemma keepable_weakened:
  assumes w: "weakened h h'" and k: "keepable cw h r"
  shows "keepable cw h' r"
proof (cases "is_marked h r")
  case True
  then have "r \<in> hMk h'" using w unfolding weakened_def by blast
  then show ?thesis by (simp add: keepable_def)
next
  case False
  then obtain a where a: "r = RUdata a" "\<not> is_dead (hdr h r) cw" using k by (auto simp: keepable_def)
  then have "hdr h' r = hdr h r" using w by (auto simp: weakened_def all_strings_def simp del: hdr.simps)
  then show ?thesis using a by (simp add: keepable_def)
qed

lemma may_clear_keepable:
  assumes "may_clear h v b cw = (False, h')" "r \<in> vrefs v"
  shows "keepable cw h' r"
  using assms unfolding vrefs_kinds may_clear_def Let_def unmarked_ref_def keepable_def
  by (auto simp: heap_mark_def is_marked_def hdr_upd set_marked_def nw2black_def simp del: hdr.simps split: if_splits option.splits)

lemma list_all2_in: "list_all2 P xs ys \<Longrightarrow> y \<in> set ys \<Longrightarrow> \<exists>x\<in>set xs. P x y"
  by (induction rule: list_all2_induct) auto

lemma weak_clean_weakened:
  assumes "weakened h h'" "weak_tab t t'" "weak_clean cw h t mode"
  shows "weak_clean cw h' t' mode"
proof -
  have a: "v \<in> set (arr t) \<or> v = NIL" if "v \<in> set (arr t')" for v
    using assms(2) list_all2_in[OF _ that, of weak_value "arr t"] by (auto simp: weak_tab_def weak_value_def)
  have n: "n \<in> set (nodes t) \<or> is_nil (n_val n)" if "n \<in> set (nodes t')" for n
    using assms(2) list_all2_in[OF _ that, of "\<lambda>n n'. n' = n \<or> n' = n\<lparr>n_val := NIL\<rparr>" "nodes t"] by (auto simp: weak_tab_def)
  have "\<forall>v\<in>set (arr t'). \<forall>r\<in>vrefs v. keepable cw h' r" if "mode AND WEAKVAL \<noteq> 0"
    using assms(3) that a keepable_weakened[OF assms(1)] nil_facts(2) unfolding weak_clean_def by blast
  moreover have "\<forall>n\<in>set (nodes t'). \<not> is_nil (n_val n) \<longrightarrow> (\<forall>r\<in>vrefs (n_key n) \<union> vrefs (n_val n). keepable cw h' r)"
    if "mode AND (WEAKKEY OR WEAKVAL) \<noteq> 0"
    using assms(3) that n keepable_weakened[OF assms(1)] unfolding weak_clean_def by blast
  ultimately show ?thesis by (simp add: weak_clean_def)
qed

lemma clear_slots_clean:
  "clear_slots cw vs h = (vs', h') \<Longrightarrow> \<forall>v\<in>set vs'. \<forall>r\<in>vrefs v. keepable cw h' r"
proof (induction vs arbitrary: h vs' h')
  case (Cons v vs)
  obtain c h1 where m: "may_clear h v True cw = (c, h1)" by (cases "may_clear h v True cw") auto
  obtain vs1 h2 where s: "clear_slots cw vs h1 = (vs1, h2)" by (cases "clear_slots cw vs h1") auto
  have w: "weakened h1 h2" using clear_slots_ok[OF s] by blast
  have "\<forall>r\<in>vrefs (if c then NIL else v). keepable cw h2 r"
    using may_clear_keepable[of h v True cw h1] m keepable_weakened[OF w] by auto
  then show ?case using Cons.prems Cons.IH[OF s] m s by auto
qed simp

lemma clear_node_clean:
  assumes "clear_node cw n h = (n', h')" "\<not> is_nil (n_val n')" "r \<in> vrefs (n_key n') \<union> vrefs (n_val n')"
  shows "keepable cw h' r"
proof -
  obtain c h1 where m: "may_clear h (n_key n) False cw = (c, h1)" by (cases "may_clear h (n_key n) False cw") auto
  obtain d h2 where m': "may_clear h1 (n_val n) True cw = (d, h2)" by (cases "may_clear h1 (n_val n) True cw") auto
  have n: "\<not> is_nil (n_val n)" using assms(1,2) by (auto simp: clear_node_def)
  then have cd: "\<not> c" "\<not> d" "n' = n" "h' = h2" using assms(1,2) by (auto simp: clear_node_def m m' split: bool.splits if_splits)
  have w: "weakened h1 h2" by (rule may_clear_weakened(1)[OF m'])
  show ?thesis using assms(3) m m' may_clear_keepable[of h "n_key n" False cw h1] may_clear_keepable[of h1 "n_val n" True cw h2] keepable_weakened[OF w]
    by (auto simp: cd)
qed

lemma clear_nodes_clean:
  "clear_nodes cw ns h = (ns', h') \<Longrightarrow> \<forall>n\<in>set ns'. \<not> is_nil (n_val n) \<longrightarrow> (\<forall>r\<in>vrefs (n_key n) \<union> vrefs (n_val n). keepable cw h' r)"
proof (induction ns arbitrary: h ns' h')
  case (Cons n ns)
  obtain n1 h1 where m: "clear_node cw n h = (n1, h1)" by (cases "clear_node cw n h") auto
  obtain ns1 h2 where s: "clear_nodes cw ns h1 = (ns1, h2)" by (cases "clear_nodes cw ns h1") auto
  have w: "weakened h1 h2" using clear_nodes_ok[OF s] by blast
  have e: "ns' = n1 # ns1" "h' = h2" using Cons.prems m s by auto
  show ?case using Cons.IH[OF s] clear_node_clean[OF m] keepable_weakened[OF w] unfolding e by auto
qed simp

lemma clear_weak_entries_clean:
  "weak_clean cw (clear_weak_entries a mode cw h) (tab_at (clear_weak_entries a mode cw h) a) mode"
proof -
  let ?t = "tab_at h a"
  obtain vs h1 where 1: "(if mode AND WEAKVAL \<noteq> 0 then clear_slots cw (arr ?t) h else (arr ?t, h)) = (vs, h1)" by force
  obtain ns h2 where 2: "(if mode AND (WEAKKEY OR WEAKVAL) \<noteq> 0 then clear_nodes cw (nodes ?t) h1 else (nodes ?t, h1)) = (ns, h2)" by force
  let ?T = "?t\<lparr>arr := vs, nodes := ns\<rparr>"
  have e: "clear_weak_entries a mode cw h = set_tab a ?T h2"
    unfolding clear_weak_entries_def Let_def 1 2 by (simp add: 2)
  have w: "weakened h1 h2" using 2 clear_nodes_ok[of cw "nodes ?t" h1 ns h2] by (auto split: if_splits)
  have "hdr (set_tab a ?T h2) r = hdr h2 r" for r by (cases r) (simp_all add: set_tab_def)
  then have k: "keepable cw (set_tab a ?T h2) r = keepable cw h2 r" for r by (simp add: keepable_def is_marked_def)
  have "mode AND WEAKVAL \<noteq> 0 \<Longrightarrow> \<forall>v\<in>set vs. \<forall>r\<in>vrefs v. keepable cw h2 r"
    using 1 clear_slots_clean[of cw "arr ?t" h vs h1] keepable_weakened[OF w] by auto
  moreover have "mode AND (WEAKKEY OR WEAKVAL) \<noteq> 0 \<Longrightarrow>
      \<forall>n\<in>set ns. \<not> is_nil (n_val n) \<longrightarrow> (\<forall>r\<in>vrefs (n_key n) \<union> vrefs (n_val n). keepable cw h2 r)"
    using 2 clear_nodes_clean[of cw "nodes ?t" h1 ns h2] by auto
  ultimately show ?thesis unfolding e weak_clean_def k by (simp add: set_tab_def tab_at_def)
qed

lemma weakened_fields: "weakened h h' \<Longrightarrow> h_white h' = h_white h" "weakened h h' \<Longrightarrow> weak_tab (tab_at h a) (tab_at h' a)"
proof -
  show "h_white h' = h_white h" if "weakened h h'"
  proof -
    have "h_white (untabled h') = h_white (untabled h)" using that by (simp add: weakened_def)
    then show ?thesis by (simp add: untabled_def strip_def)
  qed
  show "weakened h h' \<Longrightarrow> weak_tab (tab_at h a) (tab_at h' a)" by (simp add: weakened_def)
qed

lemma clear_entries_other: "b \<noteq> a \<Longrightarrow> tab_at (clear_weak_entries a mode cw h) b = tab_at h b"
proof -
  assume b: "b \<noteq> a"
  let ?t = "tab_at h a"
  obtain vs h1 where 1: "(if mode AND WEAKVAL \<noteq> 0 then clear_slots cw (arr ?t) h else (arr ?t, h)) = (vs, h1)" by force
  obtain ns h2 where 2: "(if mode AND (WEAKKEY OR WEAKVAL) \<noteq> 0 then clear_nodes cw (nodes ?t) h1 else (nodes ?t, h1)) = (ns, h2)" by force
  have "clear_weak_entries a mode cw h = set_tab a (?t\<lparr>arr := vs, nodes := ns\<rparr>) h2"
    unfolding clear_weak_entries_def Let_def 1 2 by (simp add: 2)
  moreover have "tab_at h1 = tab_at h" using 1 clear_slots_ok[of cw "arr ?t" h vs h1] by (auto split: if_splits)
  moreover have "tab_at h2 = tab_at h1" using 2 clear_nodes_ok[of cw "nodes ?t" h1 ns h2] by (auto split: if_splits)
  ultimately show ?thesis using b by (simp add: set_tab_def tab_at_def fun_eq_iff)
qed

lemma clear_weak_facts:
  shows "weakened (h\<lparr>gc_weak := []\<rparr>) (clear_weak h)"
    "t \<notin> fst ` set (gc_weak h) \<Longrightarrow> tab_at (clear_weak h) t = tab_at h t"
    "(t, mode) \<in> set (gc_weak h) \<Longrightarrow> weak_clean (h_white (clear_weak h)) (clear_weak h) (tab_at (clear_weak h) t) mode"
proof -
  let ?f = "\<lambda>(t, mode) h. clear_weak_entries t mode (h_white h) h"
  have *: "weakened h0 (fold ?f ws h0) \<and> (t \<notin> fst ` set ws \<longrightarrow> tab_at (fold ?f ws h0) t = tab_at h0 t) \<and>
      ((t, mode) \<in> set ws \<longrightarrow> weak_clean (h_white h0) (fold ?f ws h0) (tab_at (fold ?f ws h0) t) mode)" for ws h0
  proof (induction ws arbitrary: h0)
    case (Cons x ws)
    obtain u md where x: "x = (u, md)" by (cases x)
    let ?h1 = "clear_weak_entries u md (h_white h0) h0"
    have w1: "weakened h0 ?h1" by (rule clear_weak_entries_ok)
    note IH = Cons.IH[of ?h1] and w = weakened_fields(1)[OF w1]
    have wf: "weakened ?h1 (fold ?f ws ?h1)" using IH by blast
    have "weak_clean (h_white h0) (fold ?f ws ?h1) (tab_at (fold ?f ws ?h1) u) md"
      using weak_clean_weakened[OF wf weakened_fields(2)[OF wf] clear_weak_entries_clean] .
    then show ?case using IH w weakened_trans[OF w1 wf] clear_entries_other[of t u md "h_white h0" h0] by (auto simp: x)
  qed simp
  let ?w = "h\<lparr>gc_weak := []\<rparr>"
  note f = *[of ?w "gc_weak h"]
  have e: "clear_weak h = fold ?f (gc_weak h) ?w" by (simp add: clear_weak_def)
  show W: "weakened ?w (clear_weak h)" using f by (simp add: e)
  have "tab_at ?w = tab_at h" by (simp add: tab_at_def fun_eq_iff)
  then show "t \<notin> fst ` set (gc_weak h) \<Longrightarrow> tab_at (clear_weak h) t = tab_at h t" using f by (simp add: e)
  show "(t, mode) \<in> set (gc_weak h) \<Longrightarrow> weak_clean (h_white (clear_weak h)) (clear_weak h) (tab_at (clear_weak h) t) mode"
    using f weakened_fields(1)[OF W] by (simp add: e)
qed

lemma mode_bits: "weak_mode h t \<noteq> 0 \<Longrightarrow> weak_mode h t AND (WEAKKEY OR WEAKVAL) \<noteq> 0"
proof -
  let ?S = "{0, WEAKKEY, WEAKVAL, WEAKKEY OR WEAKVAL}"
  have "fold (\<lambda>c m. if c = 0x6B then m OR WEAKKEY else if c = 0x76 then m OR WEAKVAL else m) s m \<in> ?S"
    if "m \<in> ?S" for s :: bytes and m :: u8
    using that
  proof (induction s arbitrary: m)
    case (Cons c s)
    have "m OR WEAKKEY \<in> ?S" "m OR WEAKVAL \<in> ?S" using Cons.prems by (auto simp: WEAKKEY_def WEAKVAL_def)
    then show ?case using Cons.IH Cons.prems by simp
  qed simp
  from this[of 0] have "mode_of_bytes s \<in> ?S" for s by (simp add: mode_of_bytes_def)
  then have "weak_mode h t \<in> ?S" by (simp add: weak_mode_def split: option.split)
  then show "weak_mode h t \<noteq> 0 \<Longrightarrow> weak_mode h t AND (WEAKKEY OR WEAKVAL) \<noteq> 0" by (auto simp: WEAKKEY_def WEAKVAL_def)
qed

section \<open>The start of a cycle\<close>

definition bare_calm :: "gheap \<Rightarrow> gheap" where "bare_calm h = strip (calm h)"

lemma flip_at: "alike h (flip_white h)"
  by (simp add: alike_def flip_white_def Let_def update_current_white_def reset_marked_def tab_at_def func_at_def proto_at_def
      upval_at_def thread_at_def udata_at_def cdata_at_def str_bytes_def objs_def try_lookup_def fun_eq_iff)

lemma flip_hdr: "r \<in> objs h \<Longrightarrow> r \<notin> all_strings \<Longrightarrow> hdr (flip_white h) r = (hdr h r)\<lparr>marked := False\<rparr>"
  by (cases r) (auto simp: flip_white_def Let_def update_current_white_def reset_marked_def objs_def all_strings_def)

definition flipped :: "gheap \<Rightarrow> gheap" where "flipped h = (flip_white h)\<lparr>gc_state := Propagate\<rparr>"

lemma flipped_facts: "alike h (flipped h)" "r \<in> objs h \<Longrightarrow> r \<notin> all_strings \<Longrightarrow> hdr (flipped h) r = (hdr h r)\<lparr>marked := False\<rparr>"
  "gc_grayagain (flipped h) = gc_grayagain h" "h_white (flipped h) = h_white h XOR 1" "mmudata (flipped h) = mmudata h"
  "gc_weak (flipped h) = gc_weak h"
proof -
  have c: "calm (flipped h) = calm (flip_white h)" by (simp add: flipped_def)
  have "alike (flip_white h) (calm (flip_white h))" "alike (flipped h) (calm (flipped h))" by (rule alike_calm)+
  then show "alike h (flipped h)" using flip_at[of h] unfolding c alike_def by simp
  show "hdr (flipped h) r = (hdr h r)\<lparr>marked := False\<rparr>" if "r \<in> objs h" "r \<notin> all_strings"
    using flip_hdr[OF that] same_calm_hdr(1)[OF c] by simp
  show "gc_grayagain (flipped h) = gc_grayagain h" "h_white (flipped h) = h_white h XOR 1" "mmudata (flipped h) = mmudata h"
    "gc_weak (flipped h) = gc_weak h"
    by (simp_all add: flipped_def flip_white_def Let_def)
qed

lemma start_ok:
  assumes c: "heap_closed U h" and R: "root_set g \<subseteq> U" and g: "gc_grayagain h = []" "gc_weak h = []"
  shows "propagating U (flipped h) (root_set g) (start_gc_cycle g h)"
proof -
  let ?h1 = "flipped h" let ?ms = "start_marker False [] ?h1" let ?mr = "mark_roots g ?ms"
  note a = alike_refs[OF flipped_facts(1)]
  have c1: "heap_closed U ?h1" using c a(8) by blast
  have um: "r \<in> all_strings" if "r \<in> hMk ?h1" "r \<in> objs h" for r
    using flipped_facts(2)[OF that(2)] that(1) by (cases "r \<in> all_strings") (auto simp: is_marked_def)
  have st: "settled U ?h1"
  proof (unfold settled_def, intro ballI)
    fix r assume "r \<in> hMk ?h1 \<inter> U"
    then have "r \<in> all_strings" using um c by (auto simp: heap_closed_def)
    then show "refs ?h1 r \<subseteq> hMk ?h1" by (auto simp: all_strings_def)
  qed
  have inv0: "mark_inv U ?ms" by (rule marker_inv[OF st c1]) simp
  have "mid U {} ?h1 ?h1" using um c1 a(7) flipped_facts(3)[of h] g(1) by (auto simp: mid_def hkeeps_def)
  note ad = adds_mid[OF _ inv0 add_roots[OF R], simplified start_marker_simps(1), OF this]
  let ?h' = "(mk_heap ?mr)\<lparr>gc_gray := mk_gray ?mr\<rparr>"
  have k: "calm ?h' = calm (mk_heap ?mr)" by simp
  have e: "start_gc_cycle g h = ?h'" by (simp add: start_gc_cycle_def flipped_def Let_def)
  have "mid U {} ?h1 ?h'" by (rule mid_calm[OF ad(1) k]) simp
  moreover have "root_set g \<subseteq> hMk ?h'" using ad(3) same_calm_hdr(2)[OF k] by (auto simp: Mk_heap)
  moreover have "mark_inv U (start_marker False (gc_gray ?h') ?h')"
    using mark_inv_calm[OF mark_inv_marker[OF ad(2)] k] by simp
  moreover have "gc_state ?h' = Propagate"
  proof -
    have "same ?h1 (mk_heap ?mr)" using add_roots[OF R, of ?ms] inv0 by (simp add: adds_def)
    then have "strip (mk_heap ?mr) = strip ?h1" by (simp add: same_def)
    then have "gc_state (mk_heap ?mr) = gc_state ?h1" by (rule strip_fields(2))
    then show ?thesis by (simp add: flipped_def)
  qed
  moreover have "hweak U (gc_gray ?h') ?h'"
  proof -
    have "RTab t \<notin> hMk ?h1" if "RTab t \<in> U" for t
      using um[of "RTab t"] that c by (auto simp: heap_closed_def all_strings_def)
    then have "hweak U (mk_gray ?ms) (mk_heap ?ms)" unfolding hweak_def start_marker_simps flipped_facts(6) g(2) by auto
    from hweak_adds(1)[OF this add_roots[OF R] inv0] have "hweak U (mk_gray ?mr) (mk_heap ?mr)" .
    from hweak_calm[OF this k] show ?thesis by simp
  qed
  ultimately show ?thesis unfolding e propagating_def by blast
qed

text \<open>What the sweep finds: \<open>h0\<close> is the heap in which the cycle began, \<open>R\<close> the roots.\<close>

definition has_finalizer :: "gheap \<Rightarrow> gref \<Rightarrow> bool" where
  "has_finalizer h r \<longleftrightarrow>
     (case r of RUdata a \<Rightarrow> has_gc_meta h (ud_metatable (udata_at h a)) | RCdata a \<Rightarrow> gcd_ctypeid (cdata_at h a) = CTID_CLIB | _ \<Rightarrow> False)"

definition swept_from :: "gref set \<Rightarrow> gref set \<Rightarrow> gheap \<Rightarrow> gheap \<Rightarrow> bool" where
  "swept_from U R h0 hs \<longleftrightarrow> untabled (calm hs) = untabled (calm h0) \<and> objs hs = objs h0 \<and>
     (\<forall>a. stack_same (thread_at h0 a) (thread_at hs a)) \<and> (\<forall>a. weak_tab (tab_at h0 a) (tab_at hs a)) \<and>
     reach h0 R \<subseteq> hMk hs \<and> hMk hs \<inter> objs hs \<subseteq> all_strings \<union> U \<and>
     (\<forall>r. r \<notin> hMk hs \<and> r \<notin> all_strings \<longrightarrow> hdr hs r = hdr h0 r \<or> has_finalizer h0 r \<and> (\<forall>cw. \<not> is_dead (hdr hs r) cw) \<and> \<not> is_black (hdr hs r)) \<and>
     (\<forall>a. weak_mode h0 (tab_at h0 a) = 0 \<longrightarrow> tab_at hs a = tab_at h0 a) \<and>
     (\<forall>r. r \<in> U \<longrightarrow> r \<in> hMk hs \<longrightarrow> refs h0 r \<subseteq> hMk hs) \<and>
     (\<forall>a. RTab a \<in> U \<longrightarrow> RTab a \<in> hMk hs \<longrightarrow> (\<forall>r\<in>slot_refs (tab_at hs a). keepable (h_white hs) hs r))"

lemma slots_keepable:
  assumes m: "tab_refs h3 (tab_at h3 a) \<subseteq> hMk h3" and w: "hweak U [] h3" "RTab a \<in> U" "RTab a \<in> hMk h3"
    and r: "r \<in> slot_refs (tab_at (clear_weak h3) a)"
  shows "keepable (h_white (clear_weak h3)) (clear_weak h3) r"
proof -
  let ?h4 = "clear_weak h3" and ?t = "tab_at h3 a" and ?w = "h3\<lparr>gc_weak := []\<rparr>"
  note f = clear_weak_facts[where h = h3]
  have cw: "calm ?w = calm h3" by simp
  have t: "weak_tab ?t (tab_at ?h4 a)" using weakened_fields(2)[OF f(1), of a] same_calm_at(2)[OF cw] by simp
  have k: "keepable (h_white ?h4) ?h4 r" if "r \<in> tab_refs h3 ?t" for r
  proof -
    have "r \<in> hMk ?h4" using that m f(1) same_calm_hdr(2)[OF cw] unfolding weakened_def by auto
    then show ?thesis by (simp add: keepable_def)
  qed
  show ?thesis
  proof (cases "weak_mode h3 ?t = 0")
    case True
    have "a \<notin> fst ` set (gc_weak h3)"
    proof
      assume "a \<in> fst ` set (gc_weak h3)"
      then obtain v where "(a, v) \<in> set (gc_weak h3)" by auto
      then show False using hweakD(1)[OF w(1)] True by auto
    qed
    then have "tab_at ?h4 a = ?t" by (rule f(2))
    then have "r \<in> tab_refs h3 ?t" using r True by (auto simp: slot_refs_def tab_refs_def)
    then show ?thesis by (rule k)
  next
    case False
    then obtain v where v: "(a, v) \<in> set (gc_weak h3)" using hweakD(2)[OF w(1,2)] w(3) by auto
    have mode: "v = weak_mode h3 ?t" using hweakD(1)[OF w(1) v] by simp
    note cl = f(3)[OF v, unfolded mode weak_clean_def]
    have arr: "keepable (h_white ?h4) ?h4 r" if x: "x \<in> set (arr (tab_at ?h4 a))" "r \<in> vrefs x" for x
    proof (cases "weak_mode h3 ?t AND WEAKVAL = 0")
      case True
      have "x \<in> set (arr ?t) \<or> x = NIL"
        using t list_all2_in[OF _ x(1), of weak_value "arr ?t"] by (auto simp: weak_tab_def weak_value_def)
      then have "r \<in> tab_refs h3 ?t" using x(2) True by (auto simp: tab_refs_def)
      then show ?thesis by (rule k)
    next
      case False
      then show ?thesis using cl x by blast
    qed
    have mt: "metatable (tab_at ?h4 a) = metatable ?t"
      using t unfolding weak_tab_def by (metis ltable.select_convs(7) ltable.surjective ltable.update_convs(1) ltable.update_convs(2))
    show ?thesis using r arr cl mode_bits[OF False] k unfolding slot_refs_def mt
      by (auto simp: tab_refs_def split: if_splits)
  qed
qed

lemma has_finalizer_keeps: "keeps h h' \<Longrightarrow> has_finalizer h' r = has_finalizer h r"
proof -
  assume k: "keeps h h'"
  have "scan_nodes h' key ns = scan_nodes h key ns" for key ns
    using k by (induction ns) (auto simp: keeps_def split: option.splits)
  then show ?thesis using k by (cases r) (simp_all add: has_finalizer_def has_gc_meta_def keeps_def scan_str_key_def split: option.split)
qed

lemma has_finalizer_calm: "has_finalizer (calm h) r = has_finalizer h r"
proof -
  have "scan_nodes (calm h) key ns = scan_nodes h key ns" for key ns
    by (induction ns) (auto simp: calm_at split: option.splits)
  then show ?thesis by (cases r) (simp_all add: has_finalizer_def has_gc_meta_def calm_at scan_str_key_def split: option.split)
qed

lemma has_finalizer_hkeeps: "hkeeps h h' \<Longrightarrow> has_finalizer h' r = has_finalizer h r"
  using has_finalizer_keeps[of "calm h" "calm h'" r] by (simp add: hkeeps_def has_finalizer_calm)

lemma hkeeps_facts:
  assumes "hkeeps h h'"
  shows "objs h' = objs h" "udata_at h' = udata_at h" "tab_at h' = tab_at h" "stack_same (thread_at h a) (thread_at h' a)"
    "strip (calm h') = strip (calm h)" "h_userdatas h' = h_userdatas h \<or> objects (h_userdatas h') = objects (h_userdatas h)"
proof -
  have k: "keeps (calm h) (calm h')" using assms by (simp add: hkeeps_def)
  show "objs h' = objs h" "udata_at h' = udata_at h" "tab_at h' = tab_at h" "stack_same (thread_at h a) (thread_at h' a)"
    "strip (calm h') = strip (calm h)" using k unfolding keeps_def calm_at calm_refs(7) by blast+
  from arg_cong[OF this(5), of "\<lambda>x. objects (h_userdatas x)"]
  show "h_userdatas h' = h_userdatas h \<or> objects (h_userdatas h') = objects (h_userdatas h)"
    by (simp add: strip_def calm_def bare_def)
qed

lemma needs_gc_finalizer: "needs_gc h r \<Longrightarrow> has_finalizer h r"
  by (cases r) (simp_all add: needs_gc_def has_finalizer_def)

lemma strip_calm: "strip (calm h) = calm (strip h)"
  by (simp add: strip_def calm_def)

lemma untabled_calm: "untabled (calm h) = calm (untabled h)"
  by (simp add: untabled_def strip_calm) (simp add: calm_def strip_def)

lemma atomic_phase_ok:
  assumes m: "mid U {} h0 h" and s: "settled U h" and R: "R \<subseteq> hMk h" "R \<subseteq> U" and g: "gc_gray h = []" and w: "hweak U [] h" and mt: "metas_in U h0"
    and c0: "heap_closed U h0"
  obtains hs where "atomic_phase h = Some hs" "gc_state hs = Sweep" "gc_sweep_pool hs = 0" "gc_sweep_pos hs = 0" "swept_from U R h0 hs"
proof -
  obtain h1 where 1: "mark_again h = Some h1" "mid U {} h0 h1" "settled U h1" "hMk h \<subseteq> hMk h1" "gc_gray h1 = []" "gc_grayagain h1 = []"
    "hweak U [] h1"
    using mark_again_ok[OF m s g w] by blast
  have k1: "hkeeps h0 h1" and c1: "heap_closed U h1" using 1(2) by (simp_all add: mid_def)
  note e1 = hkeeps_facts[OF k1] hkeeps_refs(4)[OF k1 c0 R(2)]
  have "reach h1 R \<subseteq> hMk h1" by (rule settled_reach[OF 1(3) c1 R(2)]) (use R(1) 1(4) in blast)
  then have live: "reach h0 R \<subseteq> hMk h1" using e1 by simp
  obtain mmu h2 where 2: "separate_finalizable h1 = (mmu, h2)" by (cases "separate_finalizable h1") auto
  note sep = separate_ok[OF 2[unfolded separate_finalizable_def]]
  have m2: "mid U (set mmu) h0 h2" and s2: "settled U h2"
    using mid_keeps[OF 1(2) sep(1-3), of "set mmu"] sep(5) 1(3) by simp_all
  have m2': "set mmu \<subseteq> RUdata ` set (objects (h_userdatas h1)) \<union> RCdata ` set (objects (h_cdatas h1))" using sep(4) by auto
  have u2: "udata_at h2 = udata_at h0" using sep(1) e1(2) by (simp add: keeps_def)
  have meta: "RTab ` set_option (finalizable_meta h2 r) \<subseteq> U" if "r \<in> set mmu" for r
  proof (cases r)
    case (RUdata a)
    then have "a \<in> set (objects (h_userdatas h1))" using that m2' by auto
    then have "a \<in> set (objects (h_userdatas h0))" using e1(6) by auto
    from bspec[OF mt[unfolded metas_in_def] this] show ?thesis by (simp add: finalizable_meta_def u2 RUdata)
  qed (simp_all add: finalizable_meta_def)
  have f2: "gc_gray h2 = []" "gc_grayagain h2 = []"
    using strip_fields(1)[of h2 h1] sep(1,3) 1(5,6) by (simp_all add: keeps_def)
  obtain h3 where 3: "mark_finalizable mmu h2 = Some h3" "mid U (set mmu) h0 h3" "hMk h2 \<subseteq> hMk h3"
    "\<And>r. r \<notin> hMk h3 \<Longrightarrow> hdr h3 r = hdr h2 r" "settled U h3" "hweak U [] h3"
    using mark_finalizable_ok[OF m2 s2 f2 hweak_keeps[OF 1(7) sep(1,2)] meta] by blast
  let ?w = "h3\<lparr>gc_weak := []\<rparr>" and ?h4 = "clear_weak h3"
  have cw: "calm ?w = calm h3" by simp
  have w: "weakened ?w ?h4" by (rule clear_weak_ok)
  let ?hs = "?h4\<lparr>h_estimate := h_total ?h4 + ibytes (h_strings ?h4), gc_state := Sweep, gc_sweep_pool := 0, gc_sweep_pos := 0\<rparr>"
  have cs: "calm ?hs = calm ?h4" by simp
  note hs = same_calm_hdr[OF cs]
  have k3: "hkeeps h0 h3" using 3(2) by (simp add: mid_def)
  have t4: "untabled ?h4 = untabled ?w" using w by (simp add: weakened_def)
  have t: "untabled (calm ?hs) = untabled (calm h0)"
  proof -
    have "untabled (calm ?hs) = untabled (calm ?w)" unfolding cs by (simp only: untabled_calm t4)
    also have "\<dots> = untabled (calm h3)" by (simp only: cw)
    also have "\<dots> = untabled (calm h0)" by (rule untabled_strip[OF hkeeps_facts(5)[OF k3]])
    finally show ?thesis .
  qed
  have live': "hMk h1 \<subseteq> hMk ?hs" using sep(2) 3(3) w same_calm_hdr(2)[OF cw] hs(2) unfolding weakened_def by auto
  have k3h: "hdr ?w = hdr h3" by (rule same_calm_hdr(1)[OF cw])
  have o3: "objs h3 = objs h0" by (rule hkeeps_facts(1)[OF k3])
  have th: "thread_at ?hs = thread_at h3"
    using w same_calm_at(1)[OF cs] same_calm_at(1)[OF cw] by (simp add: weakened_def)
  have tb: "weak_tab (tab_at h0 a) (tab_at ?hs a)" for a
    using w same_calm_at(2)[OF cs] same_calm_at(2)[OF cw] hkeeps_facts(3)[OF k3] by (simp add: weakened_def)
  have o: "objs ?hs = objs h0"
    using arg_cong[OF t, of objs] by (simp add: untabled_def strip_def bare_def calm_def objs_def)
  have mk: "r \<in> hMk h3" if "r \<in> hMk ?hs" "r \<notin> all_strings" for r
    using that w k3h hs(1) by (simp add: weakened_def is_marked_def)
  have um: "hMk ?hs \<inter> objs ?hs \<subseteq> all_strings \<union> U"
    using mk 3(2) o o3 unfolding mid_def by blast
  have fin: "hdr ?hs r = hdr h0 r \<or> has_finalizer h0 r \<and> (\<forall>cw. \<not> is_dead (hdr ?hs r) cw) \<and> \<not> is_black (hdr ?hs r)"
    if r: "r \<notin> hMk ?hs" "r \<notin> all_strings" for r
  proof -
    have e: "hdr ?hs r = hdr h3 r" using w r(2) k3h hs(1) by (simp add: weakened_def)
    then have n3: "r \<notin> hMk h3" using r(1) by (simp add: is_marked_def)
    show ?thesis
    proof (cases "r \<in> set mmu")
      case False
      then show ?thesis using 3(2) n3 e by (simp add: mid_def)
    next
      case True
      then have "hdr h3 r = hdr h2 r" using 3(4)[OF n3] by simp
      then show ?thesis using sep(6)[OF True] e needs_gc_finalizer[of h1 r] has_finalizer_hkeeps[OF k1] by simp
    qed
  qed
  have w3: "weak_mode h3 = weak_mode h0" "tab_at h3 = tab_at h0"
    using keeps_weak[OF k3[unfolded hkeeps_def]] calm_refs(1) calm_at(1) by (metis ext)+
  have strong: "tab_at ?hs a = tab_at h0 a" if a: "weak_mode h0 (tab_at h0 a) = 0" for a
  proof -
    have "a \<notin> fst ` set (gc_weak h3)" using hweakD(1)[OF 3(6)] a by (auto simp: w3)
    then have "tab_at ?h4 a = tab_at h3 a" by (rule clear_weak_facts(2))
    then show ?thesis using same_calm_at(2)[OF cs] by (simp add: w3)
  qed
  have set3: "refs h3 r \<subseteq> hMk h3" if "r \<in> U" "r \<in> hMk h3" for r using 3(5) that by (auto simp: settled_def)
  have mm: "hMk h3 \<subseteq> hMk ?hs" using w same_calm_hdr(2)[OF cw] hs(2) unfolding weakened_def by auto
  have set': "refs h0 r \<subseteq> hMk ?hs" if r: "r \<in> U" "r \<in> hMk ?hs" for r
  proof (cases "r \<in> all_strings")
    case True
    then show ?thesis by (auto simp: all_strings_def)
  next
    case False
    then show ?thesis using set3[OF r(1) mk[OF r(2)]] mm hkeeps_refs(2)[OF k3 c0 r(1)] by auto
  qed
  have slots: "keepable (h_white ?hs) ?hs r"
    if a: "RTab a \<in> U" "RTab a \<in> hMk ?hs" and r: "r \<in> slot_refs (tab_at ?hs a)" for a r
  proof -
    have a3: "RTab a \<in> hMk h3" by (rule mk[OF a(2)]) (simp add: all_strings_def image_iff)
    have "keepable (h_white ?h4) ?h4 r"
      by (rule slots_keepable[OF _ 3(6) a(1) a3]) (use set3[OF a(1) a3] r same_calm_at(2)[OF cs] in simp_all)
    then show ?thesis using hs(1,2) by (simp add: keepable_def)
  qed
  show thesis
  proof (rule that[of ?hs])
    show "atomic_phase h = Some ?hs" by (simp add: atomic_phase_def 1(1) 2 3(1) Let_def)
    show "swept_from U R h0 ?hs" unfolding swept_from_def
      using t o tb live live' um fin th hkeeps_facts(4)[OF k3] strong set' slots by auto
  qed simp_all
qed

end
