(* ===== verification/LJ_Sweep_Spec.thy ===== *)
theory LJ_Sweep_Spec
  imports LJ_Collect_Spec
begin

unbundle bit_operations_syntax

declare upd_hdr.simps [simp del]

text \<open>
  The sweep phase: steps of forty objects over the pools, one after the other, amount to a full sweep of each
  pool. The theorems on a whole collection follow: nothing reachable from the roots is freed, every object that
  is neither reachable nor set aside for a finalizer is, and the cycle ends.
\<close>

section \<open>Limited sweeps\<close>

definition todo :: "'a pool \<times> nat \<times> 's \<Rightarrow> nat" where "todo st = length (objects (fst st)) - fst (snd st)"

lemma sweep_step_todo:
  assumes "i < length (objects p)"
  shows "todo (sweep_step sz cw f (p, i, s)) = todo (p, i, s) - 1"
    "fst (mem (fst (sweep_step sz cw f (p, i, s))) a) = fst (mem p a)"
  using assms swap_remove_facts(3)[OF assms]
  by (auto simp: todo_def sweep_step_def Let_def remove_obj_def retire_facts)

lemma sweep_loop_todo:
  "todo (sweep_loop n sz cw f st) = todo st - n \<and> (\<forall>a. fst (mem (fst (sweep_loop n sz cw f st)) a) = fst (mem (fst st) a))"
proof (induction n arbitrary: st)
  case (Suc n)
  obtain p i s where st: "st = (p, i, s)" by (cases st)
  show ?case
  proof (cases "i < length (objects p)")
    case True
    then show ?thesis using Suc.IH[of "sweep_step sz cw f st"] sweep_step_todo[OF True, of sz cw f s] by (simp add: st)
  qed (simp add: st todo_def)
qed simp

text \<open>The sweep from an index to the end.\<close>

definition sweep_rest :: "nat \<Rightarrow> u8 \<Rightarrow> ('a \<Rightarrow> 's \<Rightarrow> 's) \<Rightarrow> nat \<Rightarrow> 'a pool \<times> 's \<Rightarrow> 'a pool \<times> 's" where
  "sweep_rest sz cw f i ps = fst (sweep_limited sz cw f (length (objects (fst ps)) - i) i ps)"

lemma sweep_limited_facts:
  assumes "sweep_limited sz cw f n i ps = (ps', d, i')"
  shows "length (objects (fst ps')) - i' = length (objects (fst ps)) - i - n" "d \<longleftrightarrow> length (objects (fst ps)) - i \<le> n"
    "fst (mem (fst ps') a) = fst (mem (fst ps) a)"
proof -
  obtain p' j s' where l: "sweep_loop n sz cw f (fst ps, i, snd ps) = (p', j, s')" by (metis prod_cases3)
  have e: "ps' = (p'\<lparr>live_count := length (objects p')\<rparr>, s')" "d = (length (objects p') \<le> j)" "i' = j"
    using assms by (auto simp: sweep_limited_def l)
  show "length (objects (fst ps')) - i' = length (objects (fst ps)) - i - n" "d \<longleftrightarrow> length (objects (fst ps)) - i \<le> n"
    "fst (mem (fst ps') a) = fst (mem (fst ps) a)"
    using sweep_loop_todo[of n sz cw f "(fst ps, i, snd ps)"] by (auto simp: l e todo_def)
qed

lemma sweep_rest_enough:
  assumes "length (objects (fst ps)) - i \<le> n"
  shows "fst (sweep_limited sz cw f n i ps) = sweep_rest sz cw f i ps"
proof -
  let ?k = "length (objects (fst ps)) - i"
  obtain ps' d i' where k: "sweep_limited sz cw f ?k i ps = (ps', d, i')" by (metis prod_cases3)
  have z: "length (objects (fst ps')) \<le> i'" and l: "live_count (fst ps') = length (objects (fst ps'))"
    using sweep_limited_facts(1)[OF k] k by (auto simp: sweep_limited_def split: prod.splits)
  have "fst (sweep_limited sz cw f (n - ?k) i' ps') = ps'"
    using sweep_loop_done[of "(fst ps', i', snd ps')"] z l by (cases ps') (simp add: sweep_limited_def)
  then have "fst (sweep_limited sz cw f (?k + (n - ?k)) i ps) = ps'" unfolding sweep_limited_resume k by simp
  then show ?thesis using assms k by (simp add: sweep_rest_def)
qed

lemma sweep_rest_step:
  assumes "sweep_limited sz cw f n i ps = (ps', d, i')"
  shows "d \<Longrightarrow> sweep_rest sz cw f i ps = ps'" "\<not> d \<Longrightarrow> sweep_rest sz cw f i ps = sweep_rest sz cw f i' ps'"
proof -
  note f = sweep_limited_facts[OF assms]
  show "sweep_rest sz cw f i ps = ps'" if d
    using sweep_rest_enough[of ps i n sz cw f] f(2) that assms by simp
  show "sweep_rest sz cw f i ps = sweep_rest sz cw f i' ps'" if "\<not> d"
  proof -
    let ?k = "length (objects (fst ps)) - i"
    have "sweep_rest sz cw f i ps = fst (sweep_limited sz cw f (n + (?k - n)) i ps)"
      using f(2) that by (simp add: sweep_rest_def)
    also have "\<dots> = fst (sweep_limited sz cw f (?k - n) i' ps')" unfolding sweep_limited_resume assms by simp
    also have "\<dots> = sweep_rest sz cw f i' ps'" by (rule sweep_rest_enough) (simp add: f(1))
    finally show ?thesis .
  qed
qed

lemma sweep_rest_ok:
  assumes wf: "pool_wf p"
  obtains D where "sweep_rest sz cw f 0 (p, s) = (fst (sweep_rest sz cw f 0 (p, s)), fold f (map (\<lambda>a. fst (mem p a)) D) s)"
    "pool_wf (fst (sweep_rest sz cw f 0 (p, s)))"
    "set (objects (fst (sweep_rest sz cw f 0 (p, s)))) = {a \<in> set (objects p). survives cw (snd (mem p a))}"
    "set D = {a \<in> set (objects p). \<not> survives cw (snd (mem p a))}"
    "\<And>a. fst (mem (fst (sweep_rest sz cw f 0 (p, s))) a) = fst (mem p a)"
proof -
  note n = pool_objects_bound[OF wf]
  have e: "sweep_rest sz cw f 0 (p, s) = sweep_tricolor sz cw f (p, s)"
    unfolding sweep_tricolor_def by (rule sweep_rest_enough[symmetric]) (use n in simp)
  obtain p' D where t: "sweep_tricolor sz cw f (p, s) = (p', fold f (map (\<lambda>a. fst (mem p a)) D) s)"
    and p': "pool_wf p'" "mset (objects p) = mset (objects p') + mset D" "\<forall>a\<in>set D. \<not> survives cw (snd (mem p a))"
    "\<forall>a\<in>set (objects p'). survives cw (snd (mem p a)) \<and> mem p' a = (fst (mem p a), survivor_header (snd (mem p a)))"
    using sweep_tricolor_ok[OF wf n, of sz cw f s] by auto
  have m: "mset (objects p) = mset (objects p' @ D)" using p'(2) by simp
  have u: "set (objects p) = set (objects p') \<union> set D" using mset_eq_setD[OF m] by simp
  have "fst (mem p' a) = fst (mem p a)" for a
    using sweep_limited_facts(3)[of sz cw f USIZE_MAX 0 "(p, s)"] t by (metis e fst_conv prod_cases3 sweep_tricolor_def)
  then show thesis by (intro that[of D]) (use p' u in \<open>auto simp: e t\<close>)
qed

section \<open>The pools one after the other\<close>

text \<open>What the sweep of one pool needs to know of it: \<open>get\<close> and \<open>put\<close> reach the pool, and what its callback updates, in the heap.\<close>

locale swept_pool =
  fixes L :: layout and k sz :: nat and f :: "gheap \<Rightarrow> 'a \<Rightarrow> 's \<Rightarrow> 's"
    and get :: "gheap \<Rightarrow> 'a pool \<times> 's" and put :: "'a pool \<times> 's \<Rightarrow> gheap \<Rightarrow> gheap"
  assumes one: "gc_sweep_pool h = k \<Longrightarrow>
      sweep_one_pool L h = next_pool (sweep_pool sz (h_white h) (f h) (fst (get h)) (snd (get h)) (\<lambda>p s. put (p, s)) h)"
    and get_put: "get (put x h) = x" and put_put: "put y (put x h) = put y h"
    and put_pos: "put x (h\<lparr>gc_sweep_pos := i\<rparr>) = (put x h)\<lparr>gc_sweep_pos := i\<rparr>" and get_pos: "get (h\<lparr>gc_sweep_pos := i\<rparr>) = get h"
    and fields: "gc_state (put x h) = gc_state h" "h_white (put x h) = h_white h" "gc_sweep_pool (put x h) = gc_sweep_pool h"
    and f_same: "(\<And>a. fst (mem (fst x) a) = fst (mem (fst (get h)) a)) \<Longrightarrow> f ((put x h)\<lparr>gc_sweep_pos := i\<rparr>) = f h"
begin

definition finished :: "gheap \<Rightarrow> gheap" where
  "finished h = (put (sweep_rest sz (h_white h) (f h) (gc_sweep_pos h) (get h)) h)\<lparr>gc_sweep_pool := k + 1, gc_sweep_pos := 0\<rparr>"

lemma pool_loop:
  assumes "gc_state h = Sweep" "gc_sweep_pool h = k"
  shows "step_loop L True b h = step_loop L True b (finished h)"
  using assms
proof (induction "length (objects (fst (get h))) - gc_sweep_pos h" arbitrary: h rule: less_induct)
  case less
  obtain ps d i where s: "sweep_limited sz (h_white h) (f h) GC_SWEEP_MAX (gc_sweep_pos h) (get h) = (ps, d, i)" by (metis prod_cases3)
  let ?h1 = "(put ps h)\<lparr>gc_sweep_pos := i\<rparr>"
  let ?h2 = "if d then ?h1\<lparr>gc_sweep_pool := gc_sweep_pool ?h1 + 1, gc_sweep_pos := 0\<rparr> else ?h1"
  have "sweep_one_pool L h = (False, ?h2)"
    using s by (cases ps) (simp add: one[OF less.prems(2)] sweep_pool_def next_pool_def)
  then have "gc_onestep L h = Some (GC_SWEEP_COST, False, ?h2)" using less.prems(1) by (simp add: gc_onestep_def)
  then have step: "step_loop L True b h = step_loop L True b ?h2" by (rule step_loop_once)
  show ?case
  proof (cases d)
    case True
    then have "finished h = ?h2" using sweep_rest_step(1)[OF s] less.prems(2) by (simp add: finished_def fields)
    then show ?thesis using step by simp
  next
    case False
    have g: "get ?h1 = ps" by (simp add: get_pos get_put)
    have fe: "f ?h1 = f h" by (rule f_same) (simp add: sweep_limited_facts(3)[OF s])
    have "finished ?h1 = finished h"
      using sweep_rest_step(2)[OF s False] fe by (simp add: finished_def g fields put_pos put_put)
    moreover have "length (objects (fst (get ?h1))) - gc_sweep_pos ?h1 < length (objects (fst (get h))) - gc_sweep_pos h"
      using sweep_limited_facts(1,2)[OF s] False g by (simp add: GC_SWEEP_MAX_def)
    ultimately show ?thesis using less.hyps[of ?h1] less.prems step False by (simp add: fields)
  qed
qed

end

lemma unit_pair: "(fst x, ()) = x"
  by (cases x) simp

interpretation tables: swept_pool L "Suc 0" "ly_table L" "\<lambda>_. no_free" "\<lambda>h. (h_tables h, ())" "\<lambda>x h. h\<lparr>h_tables := fst x\<rparr>" for L
  by unfold_locales (simp_all add: sweep_one_pool_def Let_def unit_pair)

interpretation funcs: swept_pool L 2 "ly_func L" "\<lambda>_. no_free" "\<lambda>h. (h_funcs h, ())" "\<lambda>x h. h\<lparr>h_funcs := fst x\<rparr>" for L
  by unfold_locales (simp_all add: sweep_one_pool_def Let_def unit_pair)

definition close_all :: "gheap \<Rightarrow> gthread \<Rightarrow> upval pool \<Rightarrow> upval pool" where
  "close_all h th us = fold (close_upval h) (th_openuv th) us"

lemma close_upval_threads: "(\<And>a. thread_at h' a = thread_at h a) \<Longrightarrow> close_upval h' = close_upval h"
  by (intro ext) (auto simp: close_upval_def uv_get_def split: prod.split uvloc.split)

interpretation threads: swept_pool L 3 "ly_thread L" close_all "\<lambda>h. (h_threads h, h_upvals h)"
  "\<lambda>x h. h\<lparr>h_threads := fst x, h_upvals := snd x\<rparr>" for L
proof unfold_locales
  fix x :: "gthread pool \<times> upval pool" and h :: gheap and i
  assume "\<And>a. fst (mem (fst x) a) = fst (mem (fst (h_threads h, h_upvals h)) a)"
  then have e: "close_upval (h\<lparr>h_threads := fst x, h_upvals := snd x, gc_sweep_pos := i\<rparr>) = close_upval h"
    by (intro close_upval_threads) (simp add: thread_at_def)
  then show "close_all (h\<lparr>h_threads := fst x, h_upvals := snd x, gc_sweep_pos := i\<rparr>) = close_all h"
    by (intro ext) (simp only: close_all_def e)
qed (simp_all add: sweep_one_pool_def Let_def close_all_def[abs_def])

interpretation upvals: swept_pool L 4 "ly_upval L" "\<lambda>_. no_free" "\<lambda>h. (h_upvals h, ())" "\<lambda>x h. h\<lparr>h_upvals := fst x\<rparr>" for L
  by unfold_locales (simp_all add: sweep_one_pool_def Let_def unit_pair)

interpretation protos: swept_pool L 5 "ly_proto L" "\<lambda>_. no_free" "\<lambda>h. (h_protos h, ())" "\<lambda>x h. h\<lparr>h_protos := fst x\<rparr>" for L
  by unfold_locales (simp_all add: sweep_one_pool_def Let_def unit_pair)

interpretation udatas: swept_pool L 6 "ly_udata L" "\<lambda>_. no_free" "\<lambda>h. (h_userdatas h, ())" "\<lambda>x h. h\<lparr>h_userdatas := fst x\<rparr>" for L
  by unfold_locales (simp_all add: sweep_one_pool_def Let_def unit_pair)

section \<open>The whole sweep\<close>

definition sweep_all :: "layout \<Rightarrow> gheap \<Rightarrow> gheap" where
  "sweep_all L h =
     (let h0 = h\<lparr>h_strings := interner_sweep (ly_string L) (h_strings h) (h_white h), gc_sweep_pool := 1, gc_sweep_pos := 0\<rparr>
      in udatas.finished L (protos.finished L (upvals.finished L (threads.finished L (funcs.finished L (tables.finished L h0))))))"

lemma finished_simps [simp]:
  "gc_state (tables.finished L h) = gc_state h" "gc_state (funcs.finished L h) = gc_state h" "gc_state (threads.finished L h) = gc_state h"
  "gc_state (upvals.finished L h) = gc_state h" "gc_state (protos.finished L h) = gc_state h" "gc_state (udatas.finished L h) = gc_state h"
  "gc_sweep_pool (tables.finished L h) = 2" "gc_sweep_pool (funcs.finished L h) = 3" "gc_sweep_pool (threads.finished L h) = 4"
  "gc_sweep_pool (upvals.finished L h) = 5" "gc_sweep_pool (protos.finished L h) = 6" "gc_sweep_pool (udatas.finished L h) = 7"
  by (simp_all add: tables.finished_def funcs.finished_def threads.finished_def upvals.finished_def protos.finished_def udatas.finished_def)

lemma sweep_loop_all:
  assumes st: "gc_state h = Sweep" "gc_sweep_pool h = 0"
  shows "step_loop L True b h = Some (True, snd (finish_sweep L (sweep_all L h)))"
proof -
  let ?h0 = "h\<lparr>h_strings := interner_sweep (ly_string L) (h_strings h) (h_white h), gc_sweep_pool := 1, gc_sweep_pos := 0\<rparr>"
  let ?h7 = "sweep_all L h"
  have "gc_onestep L h = Some (GC_SWEEP_COST, False, ?h0)" using st by (simp add: gc_onestep_def sweep_one_pool_def Let_def next_pool_def)
  then have "step_loop L True b h = step_loop L True b ?h0" by (rule step_loop_once)
  also have "\<dots> = step_loop L True b ?h7"
    using st by (simp add: tables.pool_loop funcs.pool_loop threads.pool_loop upvals.pool_loop protos.pool_loop udatas.pool_loop sweep_all_def)
  also have "\<dots> = Some (True, snd (finish_sweep L ?h7))"
  proof -
    have s: "gc_state ?h7 = Sweep" "sweep_one_pool L ?h7 = (True, ?h7)" using st by (simp_all add: sweep_all_def sweep_one_pool_def Let_def)
    then have o: "gc_onestep L ?h7 = Some (0, finish_sweep L ?h7)" by (simp add: gc_onestep_def)
    show ?thesis
    proof (cases "mmudata ?h7 = []")
      case True
      then obtain h' where "finish_sweep L ?h7 = (True, h')" by (simp add: finish_sweep_def Let_def)
      then show ?thesis using o step_loop_end by simp
    next
      case False
      then obtain h' where h': "finish_sweep L ?h7 = (False, h')" "gc_state h' = Finalize" by (simp add: finish_sweep_def Let_def)
      then have "step_loop L True b ?h7 = step_loop L True b h'" using o step_loop_once by simp
      also have "\<dots> = Some (True, h')" using h'(2) by (intro step_loop_end) (simp add: gc_onestep_def)
      finally show ?thesis by (simp add: h'(1))
    qed
  qed
  finally show ?thesis .
qed

section \<open>What the sweep leaves\<close>

definition heap_wf :: "gheap \<Rightarrow> bool" where
  "heap_wf h \<longleftrightarrow> interner_inv (h_strings h) \<and> pool_wf (h_tables h) \<and> pool_wf (h_funcs h) \<and> pool_wf (h_protos h) \<and>
     pool_wf (h_upvals h) \<and> pool_wf (h_threads h) \<and> pool_wf (h_cdatas h) \<and> pool_wf (h_userdatas h)"

text \<open>An upvalue, and the same upvalue when its thread may have been freed.\<close>

definition closed_as :: "gheap \<Rightarrow> upval \<Rightarrow> upval \<Rightarrow> bool" where
  "closed_as h u u' \<longleftrightarrow> u' = u \<or> uv_loc u \<noteq> UvClosed \<and> u' = u\<lparr>uv_tv := uv_get h u, uv_loc := UvClosed\<rparr>"

definition uvs_closed :: "gheap \<Rightarrow> upval pool \<Rightarrow> upval pool \<Rightarrow> bool" where
  "uvs_closed h us us' \<longleftrightarrow> us' = us\<lparr>mem := mem us'\<rparr> \<and> (\<forall>a. closed_as h (fst (mem us a)) (fst (mem us' a)) \<and> snd (mem us' a) = snd (mem us a))"

lemma uvs_closed_step:
  assumes "uvs_closed h us us'"
  shows "uvs_closed h us (close_upval h a us')" "uv_loc (fst (mem (close_upval h a us') a)) = UvClosed"
    "uv_loc (fst (mem us' b)) = UvClosed \<Longrightarrow> uv_loc (fst (mem (close_upval h a us') b)) = UvClosed"
proof -
  obtain u d where m: "mem us' a = (u, d)" by (cases "mem us' a")
  have e: "closed_as h (fst (mem us a)) u" "d = snd (mem us a)" using assms m by (simp_all add: uvs_closed_def, metis fst_conv, metis snd_conv)
  show "uvs_closed h us (close_upval h a us')"
  proof (cases "uv_loc u = UvClosed")
    case False
    let ?u = "u\<lparr>uv_tv := uv_get h u, uv_loc := UvClosed\<rparr>"
    have u: "u = fst (mem us a)" using e(1) False by (auto simp: closed_as_def)
    have c: "close_upval h a us' = us'\<lparr>mem := (mem us')(a := (?u, d))\<rparr>" using m False by (simp add: close_upval_def)
    have "closed_as h (fst (mem us a)) ?u" using u False by (simp add: closed_as_def)
    moreover have e': "us' = us\<lparr>mem := mem us'\<rparr>" using assms by (simp add: uvs_closed_def)
    have eM: "us'\<lparr>mem := M\<rparr> = us\<lparr>mem := M\<rparr>" for M by (subst e') simp
    moreover have "closed_as h (fst (mem us b)) (fst (mem us' b)) \<and> snd (mem us' b) = snd (mem us b)" for b
      using assms by (simp add: uvs_closed_def)
    ultimately show ?thesis using e(2) unfolding c uvs_closed_def eM by (auto simp del: pool.update_convs)
  qed (use assms m in \<open>simp add: close_upval_def\<close>)
  show "uv_loc (fst (mem (close_upval h a us') a)) = UvClosed" by (simp add: close_upval_def m)
  show "uv_loc (fst (mem us' b)) = UvClosed \<Longrightarrow> uv_loc (fst (mem (close_upval h a us') b)) = UvClosed"
    by (simp add: close_upval_def m)
qed

lemma uvs_closed_list:
  assumes "uvs_closed h us us'"
  shows "uvs_closed h us (fold (close_upval h) as us') \<and>
    (\<forall>b. b \<in> set as \<or> uv_loc (fst (mem us' b)) = UvClosed \<longrightarrow> uv_loc (fst (mem (fold (close_upval h) as us') b)) = UvClosed)"
  using assms
proof (induction "as" arbitrary: us')
  case (Cons a as)
  note s = uvs_closed_step[OF Cons.prems]
  show ?case using Cons.IH[OF s(1)] s(2,3) by auto
qed simp

lemma uvs_closed_all:
  assumes "uvs_closed h us us'"
  shows "uvs_closed h us (fold (close_all h) ths us') \<and>
    (\<forall>b. (\<exists>th\<in>set ths. b \<in> set (th_openuv th)) \<or> uv_loc (fst (mem us' b)) = UvClosed \<longrightarrow> uv_loc (fst (mem (fold (close_all h) ths us') b)) = UvClosed)"
  using assms
proof (induction ths arbitrary: us')
  case (Cons th ths)
  note s = uvs_closed_list[OF Cons.prems, of "th_openuv th", folded close_all_def]
  show ?case using Cons.IH[of "close_all h th us'"] s by auto
qed simp

lemma uvs_closed_refl [simp]: "uvs_closed h us us"
  by (simp add: uvs_closed_def closed_as_def)

lemma pool_wf_mem [simp]: "pool_wf (p\<lparr>mem := m\<rparr>) = pool_wf p"
  by (simp add: pool_wf_def)

lemma uvs_closed_facts:
  assumes "uvs_closed h us us'"
  shows "pool_wf us' = pool_wf us" "objects us' = objects us"
proof -
  have e: "us' = us\<lparr>mem := mem us'\<rparr>" using assms by (simp add: uvs_closed_def)
  show "pool_wf us' = pool_wf us" by (subst e) simp
  show "objects us' = objects us" by (subst e) simp
qed

definition swept_uvs :: "layout \<Rightarrow> gheap \<Rightarrow> upval pool" where
  "swept_uvs L h = snd (sweep_rest (ly_thread L) (h_white h) (close_all h) 0 (h_threads h, h_upvals h))"

lemma sweep_all_fields:
  "h_strings (sweep_all L h) = interner_sweep (ly_string L) (h_strings h) (h_white h)"
  "h_tables (sweep_all L h) = fst (sweep_rest (ly_table L) (h_white h) no_free 0 (h_tables h, ()))"
  "h_funcs (sweep_all L h) = fst (sweep_rest (ly_func L) (h_white h) no_free 0 (h_funcs h, ()))"
  "h_threads (sweep_all L h) = fst (sweep_rest (ly_thread L) (h_white h) (close_all h) 0 (h_threads h, h_upvals h))"
  "h_upvals (sweep_all L h) = fst (sweep_rest (ly_upval L) (h_white h) no_free 0 (swept_uvs L h, ()))"
  "h_protos (sweep_all L h) = fst (sweep_rest (ly_proto L) (h_white h) no_free 0 (h_protos h, ()))"
  "h_userdatas (sweep_all L h) = fst (sweep_rest (ly_udata L) (h_white h) no_free 0 (h_userdatas h, ()))"
  "h_cdatas (sweep_all L h) = h_cdatas h" "h_white (sweep_all L h) = h_white h"
  "gc_gray (sweep_all L h) = gc_gray h" "gc_weak (sweep_all L h) = gc_weak h"
proof -
  let ?h0 = "h\<lparr>h_strings := interner_sweep (ly_string L) (h_strings h) (h_white h), gc_sweep_pool := 1, gc_sweep_pos := 0\<rparr>"
  have "close_upval (funcs.finished L (tables.finished L ?h0)) = close_upval h"
    by (rule close_upval_threads) (simp add: funcs.finished_def tables.finished_def thread_at_def)
  then have c: "close_all (funcs.finished L (tables.finished L ?h0)) = close_all h" by (intro ext) (simp only: close_all_def)
  note d = sweep_all_def Let_def tables.finished_def funcs.finished_def upvals.finished_def protos.finished_def udatas.finished_def
  show "h_strings (sweep_all L h) = interner_sweep (ly_string L) (h_strings h) (h_white h)"
    "h_tables (sweep_all L h) = fst (sweep_rest (ly_table L) (h_white h) no_free 0 (h_tables h, ()))"
    "h_funcs (sweep_all L h) = fst (sweep_rest (ly_func L) (h_white h) no_free 0 (h_funcs h, ()))"
    "h_protos (sweep_all L h) = fst (sweep_rest (ly_proto L) (h_white h) no_free 0 (h_protos h, ()))"
    "h_userdatas (sweep_all L h) = fst (sweep_rest (ly_udata L) (h_white h) no_free 0 (h_userdatas h, ()))"
    "h_cdatas (sweep_all L h) = h_cdatas h" "h_white (sweep_all L h) = h_white h"
    "gc_gray (sweep_all L h) = gc_gray h" "gc_weak (sweep_all L h) = gc_weak h"
    by (simp_all add: d threads.finished_def)
  have t: "threads.finished L (funcs.finished L (tables.finished L ?h0)) =
      (funcs.finished L (tables.finished L ?h0))
        \<lparr>h_threads := fst (sweep_rest (ly_thread L) (h_white h) (close_all h) 0 (h_threads h, h_upvals h)),
         h_upvals := swept_uvs L h, gc_sweep_pool := 4, gc_sweep_pos := 0\<rparr>"
    unfolding threads.finished_def c by (simp add: funcs.finished_def tables.finished_def swept_uvs_def)
  show "h_threads (sweep_all L h) = fst (sweep_rest (ly_thread L) (h_white h) (close_all h) 0 (h_threads h, h_upvals h))"
    unfolding sweep_all_def Let_def t by (simp add: upvals.finished_def protos.finished_def udatas.finished_def)
  show "h_upvals (sweep_all L h) = fst (sweep_rest (ly_upval L) (h_white h) no_free 0 (swept_uvs L h, ()))"
    unfolding sweep_all_def Let_def t by (simp add: upvals.finished_def protos.finished_def udatas.finished_def)
      (simp add: funcs.finished_def tables.finished_def)
qed

section \<open>Well-formedness through a cycle\<close>

lemma interner_inv_bare [simp]: "interner_inv (st\<lparr>ipool := bare (ipool st)\<rparr>) = interner_inv st"
  by (simp add: interner_inv_def bare_def Let_def)

lemma pool_wf_bare [simp]: "pool_wf (bare p) = pool_wf p"
  by (simp add: bare_def)

lemma heap_wf_untabled: "heap_wf (untabled (calm h)) = heap_wf h"
  by (simp add: heap_wf_def untabled_def strip_def calm_def)

lemma heap_wf_cong: "untabled (calm a) = untabled (calm b) \<Longrightarrow> heap_wf a = heap_wf b"
  using heap_wf_untabled[of a] heap_wf_untabled[of b] by simp

lemma pool_wf_flip [simp]: "pool_wf (reset_marked p) = pool_wf p" "pool_wf (update_current_white p cw) = pool_wf p"
  by (simp_all add: pool_wf_def reset_marked_def update_current_white_def)

lemma heap_wf_flipped: "heap_wf (flipped h) = heap_wf h"
proof -
  have "interner_inv (st\<lparr>ipool := update_current_white (ipool st) cw\<rparr>) = interner_inv st" for st cw
    by (simp add: interner_inv_def Let_def update_current_white_def pool_wf_def)
  then show ?thesis by (simp add: heap_wf_def flipped_def flip_white_def Let_def)
qed

text \<open>Which objects the sweep keeps: a string that is empty or survives, a cdata always, another object if it survives.\<close>

definition spared :: "gheap \<Rightarrow> gref \<Rightarrow> bool" where
  "spared h r \<longleftrightarrow> (\<exists>a. r = RCdata a) \<or> (\<exists>a. r = RStr a \<and> str_bytes h a = []) \<or> survives (h_white h) (hdr h r)"

lemma sweep_rest_facts:
  assumes "pool_wf p"
  shows "pool_wf (fst (sweep_rest sz cw f 0 (p, s)))"
    "set (objects (fst (sweep_rest sz cw f 0 (p, s)))) = {a \<in> set (objects p). survives cw (snd (mem p a))}"
    "fst (mem (fst (sweep_rest sz cw f 0 (p, s))) a) = fst (mem p a)"
proof -
  obtain D where "pool_wf (fst (sweep_rest sz cw f 0 (p, s)))"
    "set (objects (fst (sweep_rest sz cw f 0 (p, s)))) = {a \<in> set (objects p). survives cw (snd (mem p a))}"
    "\<And>a. fst (mem (fst (sweep_rest sz cw f 0 (p, s))) a) = fst (mem p a)"
    using sweep_rest_ok[OF assms, of sz cw f s] by blast
  then show "pool_wf (fst (sweep_rest sz cw f 0 (p, s)))"
    "set (objects (fst (sweep_rest sz cw f 0 (p, s)))) = {a \<in> set (objects p). survives cw (snd (mem p a))}"
    "fst (mem (fst (sweep_rest sz cw f 0 (p, s))) a) = fst (mem p a)" by blast+
qed

lemma swept_uvs_ok:
  assumes "heap_wf h"
  shows "uvs_closed h (h_upvals h) (swept_uvs L h)"
    "a \<in> set (objects (h_threads h)) \<Longrightarrow> \<not> survives (h_white h) (hdr h (RThread a)) \<Longrightarrow> u \<in> set (th_openuv (thread_at h a)) \<Longrightarrow>
     uv_loc (fst (mem (swept_uvs L h) u)) = UvClosed"
proof -
  have wf: "pool_wf (h_threads h)" using assms by (simp add: heap_wf_def)
  let ?sw = "sweep_rest (ly_thread L) (h_white h) (close_all h) 0 (h_threads h, h_upvals h)"
  obtain D where r: "?sw = (fst ?sw, fold (close_all h) (map (\<lambda>a. fst (mem (h_threads h) a)) D) (h_upvals h))"
    and D: "set D = {a \<in> set (objects (h_threads h)). \<not> survives (h_white h) (snd (mem (h_threads h) a))}"
    by (rule sweep_rest_ok[OF wf, of "ly_thread L" "h_white h" "close_all h" "h_upvals h"])
  have e: "swept_uvs L h = fold (close_all h) (map (\<lambda>a. fst (mem (h_threads h) a)) D) (h_upvals h)"
    using arg_cong[OF r, of snd] by (simp add: swept_uvs_def)
  note c = uvs_closed_all[OF uvs_closed_refl[of h "h_upvals h"], of "map (\<lambda>a. fst (mem (h_threads h) a)) D", folded e]
  show "uvs_closed h (h_upvals h) (swept_uvs L h)" using c by blast
  show "uv_loc (fst (mem (swept_uvs L h) u)) = UvClosed"
    if a: "a \<in> set (objects (h_threads h))" "\<not> survives (h_white h) (hdr h (RThread a))" "u \<in> set (th_openuv (thread_at h a))"
  proof -
    have "thread_at h a \<in> set (map (\<lambda>a. fst (mem (h_threads h) a)) D)" using a(1,2) D by (auto simp: thread_at_def)
    then show ?thesis using c a(3) by blast
  qed
qed

lemma sweep_all_objs:
  assumes wf: "heap_wf h"
  shows "r \<in> objs (sweep_all L h) \<longleftrightarrow> r \<in> objs h \<and> spared h r"
proof -
  note w = wf[unfolded heap_wf_def]
  note uv = swept_uvs_ok(1)[OF wf, of L]
  have u: "pool_wf (swept_uvs L h)" "objects (swept_uvs L h) = objects (h_upvals h)"
    using uvs_closed_facts[OF uv] w by simp_all
  have um: "snd (mem (swept_uvs L h) a) = snd (mem (h_upvals h) a)" for a using uv by (simp add: uvs_closed_def)
  have str: "str_bytes h a = as_bytes (str_at (h_strings h) a)" for a by (simp add: str_bytes_def)
  show ?thesis
    using w u by (cases r) (auto simp: objs_def spared_def sweep_all_fields sweep_rest_facts interner_sweep_ok(4) um str)
qed

text \<open>The contents after the sweep.\<close>

lemma uv_get_threads: "thread_at h' = thread_at h \<Longrightarrow> uv_get h' u = uv_get h u"
  by (simp add: uv_get_def split: uvloc.split)

lemma closed_as_get: "closed_as h u u' \<Longrightarrow> uv_get h u' = uv_get h u"
  by (auto simp: closed_as_def uv_get_def)

lemma sweep_all_contents:
  fixes L :: layout
  assumes wf: "heap_wf h"
  defines "h' \<equiv> sweep_all (L :: layout) h"
  shows "tab_at h' = tab_at h" "func_at h' = func_at h" "proto_at h' = proto_at h" "thread_at h' = thread_at h"
    "udata_at h' = udata_at h" "cdata_at h' = cdata_at h" "closed_as h (upval_at h a) (upval_at h' a)"
    "RStr p \<in> objs h' \<Longrightarrow> str_bytes h' p = str_bytes h p" "heap_wf h'"
    "RThread b \<in> objs h \<Longrightarrow> RThread b \<notin> objs h' \<Longrightarrow> u \<in> set (th_openuv (thread_at h b)) \<Longrightarrow> uv_loc (upval_at h' u) = UvClosed"
proof -
  note w = wf[unfolded heap_wf_def]
  note uv = swept_uvs_ok(1)[OF wf, of L]
  have u: "pool_wf (swept_uvs L h)" using uvs_closed_facts[OF uv] w by simp
  show "tab_at h' = tab_at h" "func_at h' = func_at h" "proto_at h' = proto_at h" "thread_at h' = thread_at h"
    "udata_at h' = udata_at h" "cdata_at h' = cdata_at h"
    using w by (simp_all add: h'_def sweep_all_fields tab_at_def func_at_def proto_at_def thread_at_def udata_at_def cdata_at_def
        sweep_rest_facts fun_eq_iff)
  have ua: "upval_at h' a = fst (mem (swept_uvs L h) a)" for a
    using u by (simp add: h'_def sweep_all_fields upval_at_def sweep_rest_facts)
  show "closed_as h (upval_at h a) (upval_at h' a)" using uv unfolding ua by (simp add: uvs_closed_def upval_at_def)
  show "str_bytes h' p = str_bytes h p" if "RStr p \<in> objs h'"
  proof -
    have "p \<in> set (objects (ipool (h_strings h')))" using that by (auto simp: objs_def)
    then show ?thesis using interner_sweep_ok(5) w by (simp add: h'_def sweep_all_fields str_bytes_def)
  qed
  show "heap_wf h'" using w u by (simp add: h'_def heap_wf_def sweep_all_fields sweep_rest_facts interner_sweep_ok(1))
  show "uv_loc (upval_at h' u) = UvClosed"
    if b: "RThread b \<in> objs h" "RThread b \<notin> objs h'" and u: "u \<in> set (th_openuv (thread_at h b))"
  proof -
    have "\<not> spared h (RThread b)" using b sweep_all_objs[OF wf] unfolding h'_def by blast
    then have n: "\<not> survives (h_white h) (hdr h (RThread b))" by (simp add: spared_def)
    have "b \<in> set (objects (h_threads h))" using b(1) by (auto simp: objs_def)
    from swept_uvs_ok(2)[OF wf this n u] show ?thesis by (simp add: ua)
  qed
qed

section \<open>A full collection\<close>

lemma finish_sweep_facts:
  "calm (snd (finish_sweep L h)) = calm (h\<lparr>h_total := h_total (snd (finish_sweep L h)),
      h_threshold := h_threshold (snd (finish_sweep L h)), h_table_extra := h_table_extra (snd (finish_sweep L h))\<rparr>)"
  "gc_state (snd (finish_sweep L h)) = (if mmudata h = [] then Pause else Finalize)"
  by (simp_all add: finish_sweep_def Let_def calm_def)

text \<open>Heaps that differ in fields the theorems do not speak of.\<close>

definition as_before :: "gheap \<Rightarrow> gheap \<Rightarrow> bool" where
  "as_before h h' \<longleftrightarrow> (\<exists>t e x. calm h' = calm (h\<lparr>h_total := t, h_threshold := e, h_table_extra := x\<rparr>))"

lemma as_beforeD:
  assumes "as_before h h'"
  shows "alike h h'" "hdr h' = hdr h" "heap_wf h' = heap_wf h" "h_white h' = h_white h"
proof -
  obtain t e x where c: "calm h' = calm (h\<lparr>h_total := t, h_threshold := e, h_table_extra := x\<rparr>)" using assms by (auto simp: as_before_def)
  let ?g = "h\<lparr>h_total := t, h_threshold := e, h_table_extra := x\<rparr>"
  have a: "alike h ?g"
    by (simp add: alike_def tab_at_def func_at_def proto_at_def upval_at_def thread_at_def udata_at_def cdata_at_def str_bytes_def objs_def fun_eq_iff)
  then show "alike h h'" using alike_calm[of ?g] alike_calm[of h'] unfolding c alike_def by simp
  have "hdr ?g r = hdr h r" for r by (cases r) simp_all
  then show "hdr h' = hdr h" using same_calm_hdr(1)[OF c] by (simp add: fun_eq_iff)
  show "heap_wf h' = heap_wf h" using heap_wf_cong[of h' ?g] c by (simp add: heap_wf_def)
  show "h_white h' = h_white h" using arg_cong[OF c, of h_white] by (simp add: calm_def)
qed

lemma gc_step_full: "gc_step L USIZE_MAX h = 
    (case step_loop L True USIZE_MAX (if h_threshold h < h_total h then h\<lparr>h_debt := h_debt h + (h_total h - h_threshold h)\<rparr> else h) of
       None \<Rightarrow> None | Some (True, h3) \<Rightarrow> Some (True, h3)
     | Some (False, h3) \<Rightarrow> Some (False, if h_debt h3 < GC_STEP_SIZE then h3\<lparr>h_threshold := h_total h3 + GC_STEP_SIZE\<rparr>
                          else h3\<lparr>h_debt := h_debt h3 - GC_STEP_SIZE, h_threshold := h_total h3\<rparr>))"
  by (simp add: gc_step_def Let_def cong: if_cong)

lemma run_cycle_once:
  assumes "\<And>d. \<exists>r. step_loop L True USIZE_MAX (h\<lparr>h_debt := d\<rparr>) = Some (True, r) \<and> P r"
  obtains r where "run_cycle L h = Some r" "P r"
proof -
  let ?d = "if h_threshold h < h_total h then h_debt h + (h_total h - h_threshold h) else h_debt h"
  have e: "(if h_threshold h < h_total h then h\<lparr>h_debt := h_debt h + (h_total h - h_threshold h)\<rparr> else h) = h\<lparr>h_debt := ?d\<rparr>" by simp
  obtain r where r: "step_loop L True USIZE_MAX (h\<lparr>h_debt := ?d\<rparr>) = Some (True, r)" "P r" using assms by blast
  have "gc_step L USIZE_MAX h = Some (True, r)" unfolding gc_step_full e r(1) by simp
  then have "run_cycle L h = Some r" by (simp add: run_cycle.simps)
  then show thesis using r(2) by (rule that)
qed

definition meta_roots :: "gheap \<Rightarrow> gref set" where
  "meta_roots h = (\<Union>a\<in>set (objects (h_userdatas h)). RTab ` set_option (ud_metatable (udata_at h a)))"

text \<open>What the roots and the metatables of all userdata lead to.\<close>

definition live_set :: "groots \<Rightarrow> gheap \<Rightarrow> gref set" where "live_set g h = reach h (root_set g \<union> meta_roots h)"

text \<open>A heap between two cycles, in which no live object has a dangling reference.\<close>

definition gc_ready :: "groots \<Rightarrow> gheap \<Rightarrow> bool" where
  "gc_ready g h \<longleftrightarrow> gc_state h = Pause \<and> gc_grayagain h = [] \<and> gc_weak h = [] \<and> heap_wf h \<and> heap_closed (live_set g h) h"

lemma propagating_debt:
  assumes "propagating U h0 R h"
  shows "propagating U h0 R (h\<lparr>h_debt := d\<rparr>)"
proof -
  have c: "calm (h\<lparr>h_debt := d\<rparr>) = calm h" by simp
  show ?thesis
    using assms mid_calm[OF _ c] same_calm_hdr(2)[OF c] mark_inv_calm[OF _ c] hweak_calm[OF _ c]
    unfolding propagating_def by (auto simp del: calm_simps)
qed

lemma full_gc_runs:
  assumes "gc_ready g h"
  obtains d hs h' where "full_gc L g h = Some h'" "gc_state h' \<in> {Pause, Finalize}" "gc_gray h' = []" "gc_grayagain h' = []"
    "as_before (sweep_all L hs) h'" "swept_from (live_set g h) (root_set g) (flipped (h\<lparr>h_debt := d\<rparr>)) hs"
proof -
  let ?U = "live_set g h"
  have r: "gc_state h = Pause" "gc_grayagain h = []" "gc_weak h = []" "heap_closed ?U h" using assms by (simp_all add: gc_ready_def)
  have root: "root_set g \<subseteq> ?U" and meta: "meta_roots h \<subseteq> ?U" by (auto simp: live_set_def intro: reach_root)
  have "step_loop L True USIZE_MAX (h\<lparr>h_debt := d\<rparr>) = Some (True, h\<lparr>h_debt := d\<rparr>)" for d
    by (rule step_loop_end[of _ _ 0]) (simp add: gc_onestep_def r(1))
  then have "\<exists>r. step_loop L True USIZE_MAX (h\<lparr>h_debt := d\<rparr>) = Some (True, r) \<and> (\<exists>d. r = h\<lparr>h_debt := d\<rparr>)" for d by blast
  from run_cycle_once[OF this] obtain d where first: "run_cycle L h = Some (h\<lparr>h_debt := d\<rparr>)" by metis
  let ?h1 = "h\<lparr>h_debt := d\<rparr>" let ?h0 = "flipped ?h1"
  have c1: "heap_closed ?U ?h1"
  proof -
    have c: "calm ?h1 = calm h" by simp
    have "alike h ?h1" using alike_calm[of h] alike_calm[of ?h1] unfolding c alike_def by simp
    then show ?thesis using r(4) alike_refs(8) by blast
  qed
  note start = start_ok[OF c1 root, simplified, OF r(2,3)]
  have c0: "heap_closed ?U ?h0" using c1 alike_refs(8)[OF flipped_facts(1)] by blast
  have mt: "metas_in ?U ?h0"
  proof -
    have "udata_at ?h0 = udata_at h" "objects (h_userdatas ?h0) = objects (h_userdatas h)"
      by (simp_all add: flipped_def flip_white_def Let_def update_current_white_def reset_marked_def udata_at_def fun_eq_iff)
    then show ?thesis using meta by (auto simp: metas_in_def meta_roots_def)
  qed
  let ?P = "\<lambda>r. \<exists>hs. r = snd (finish_sweep L (sweep_all L hs)) \<and> swept_from ?U (root_set g) ?h0 hs"
  have "\<exists>r. step_loop L True USIZE_MAX ((start_gc_cycle g ?h1)\<lparr>h_debt := e\<rparr>) = Some (True, r) \<and> ?P r" for e
  proof -
    obtain ha where a: "step_loop L True USIZE_MAX ((start_gc_cycle g ?h1)\<lparr>h_debt := e\<rparr>) = step_loop L True USIZE_MAX ha"
      "gc_state ha = Atomic" "mid ?U {} ?h0 ha" "root_set g \<subseteq> hMk ha" "settled ?U ha" "gc_gray ha = []" "hweak ?U [] ha"
      using propagate_loop[OF propagating_debt[OF start]] by blast
    obtain hs where s: "atomic_phase ha = Some hs" "gc_state hs = Sweep" "gc_sweep_pool hs = 0" "swept_from ?U (root_set g) ?h0 hs"
      using atomic_phase_ok[OF a(3,5,4) root a(6,7) mt c0] by metis
    have "gc_onestep L ha = Some (GC_STEP_SIZE, False, hs)" using a(2) s(1) by (simp add: gc_onestep_def)
    from step_loop_once[OF this] show ?thesis using a(1) s sweep_loop_all[of hs L] by auto
  qed
  from run_cycle_once[OF this] obtain hs where second: "run_cycle L (start_gc_cycle g ?h1) = Some (snd (finish_sweep L (sweep_all L hs)))"
    and sw: "swept_from ?U (root_set g) ?h0 hs" by metis
  let ?h2 = "snd (finish_sweep L (sweep_all L hs))" let ?h' = "?h2\<lparr>gc_gray := [], gc_grayagain := []\<rparr>"
  show thesis
  proof (rule that[OF _ _ _ _ _ sw])
    show "full_gc L g h = Some ?h'" using r(1) by (simp add: full_gc_def first second)
    show "gc_state ?h' \<in> {Pause, Finalize}" using finish_sweep_facts(2)[of L "sweep_all L hs"] by simp
    show "as_before (sweep_all L hs) ?h'" using finish_sweep_facts(1)[of L "sweep_all L hs"] by (auto simp: as_before_def)
  qed simp_all
qed

text \<open>Contents and headers of a heap after the collection, compared with those before it.\<close>

lemma untabled_at:
  assumes "untabled (calm hs) = untabled (calm h)"
  shows "func_at hs = func_at h" "proto_at hs = proto_at h" "upval_at hs = upval_at h" "udata_at hs = udata_at h" "cdata_at hs = cdata_at h"
    "str_bytes hs = str_bytes h" "h_white hs = h_white h"
proof -
  note d = untabled_def strip_def calm_def bare_def
  have "mem (h_funcs (untabled (calm hs))) = mem (h_funcs (untabled (calm h)))" "mem (h_protos (untabled (calm hs))) = mem (h_protos (untabled (calm h)))"
    "mem (h_upvals (untabled (calm hs))) = mem (h_upvals (untabled (calm h)))" "mem (h_userdatas (untabled (calm hs))) = mem (h_userdatas (untabled (calm h)))"
    "mem (h_cdatas (untabled (calm hs))) = mem (h_cdatas (untabled (calm h)))"
    "mem (ipool (h_strings (untabled (calm hs)))) = mem (ipool (h_strings (untabled (calm h))))"
    using assms by simp_all
  then show "func_at hs = func_at h" "proto_at hs = proto_at h" "upval_at hs = upval_at h" "udata_at hs = udata_at h" "cdata_at hs = cdata_at h"
    "str_bytes hs = str_bytes h"
    by (simp_all add: d func_at_def proto_at_def upval_at_def udata_at_def cdata_at_def str_bytes_def fun_eq_iff)
  show "h_white hs = h_white h" using arg_cong[OF assms, of h_white] by (simp add: d)
qed

fun same_object :: "gheap \<Rightarrow> gheap \<Rightarrow> gref \<Rightarrow> bool" where
  "same_object h h' (RStr a) = (str_bytes h' a = str_bytes h a)"
| "same_object h h' (RTab a) =
     (weak_tab (tab_at h a) (tab_at h' a) \<and> (weak_mode h (tab_at h a) = 0 \<longrightarrow> tab_at h' a = tab_at h a))"
| "same_object h h' (RFunc a) = (func_at h' a = func_at h a)"
| "same_object h h' (RProto a) = (proto_at h' a = proto_at h a)"
| "same_object h h' (RUpval a) = (uv_get h' (upval_at h' a) = uv_get h (upval_at h a) \<and> uv_immutable (upval_at h' a) = uv_immutable (upval_at h a))"
| "same_object h h' (RThread a) = stack_same (thread_at h a) (thread_at h' a)"
| "same_object h h' (RUdata a) = (udata_at h' a = udata_at h a)"
| "same_object h h' (RCdata a) = (cdata_at h' a = cdata_at h a)"

text \<open>All that one collection does.\<close>

definition collected :: "gref set \<Rightarrow> gref set \<Rightarrow> gheap \<Rightarrow> gheap \<Rightarrow> gheap \<Rightarrow> bool" where
  "collected U R h hs h' \<longleftrightarrow> heap_wf h' \<and> (\<forall>r. r \<in> objs h' \<longleftrightarrow> r \<in> objs h \<and> spared hs r) \<and>
     reach h R \<subseteq> hMk hs \<and> hMk hs \<inter> objs h \<subseteq> all_strings \<union> U \<and> h_white hs = h_white h XOR 1 \<and>
     (\<forall>r\<in>objs h. r \<notin> hMk hs \<longrightarrow> r \<notin> all_strings \<longrightarrow> hdr hs r = (hdr h r)\<lparr>marked := False\<rparr> \<or>
        has_finalizer h r \<and> (\<forall>cw. \<not> is_dead (hdr hs r) cw) \<and> \<not> is_black (hdr hs r)) \<and>
     (\<forall>a. RTab a \<in> U \<longrightarrow> RTab a \<in> hMk hs \<longrightarrow> (\<forall>r\<in>slot_refs (tab_at h' a). keepable (h_white hs) hs r)) \<and>
     (\<forall>r\<in>objs h'. r \<in> U \<longrightarrow> same_object h h' r) \<and>
     (\<forall>a. closed_as hs (upval_at h a) (upval_at h' a) \<and> stack_same (thread_at h a) (thread_at h' a)) \<and>
     (\<forall>b u. RThread b \<in> objs h \<longrightarrow> RThread b \<notin> objs h' \<longrightarrow> u \<in> set (th_openuv (thread_at h b)) \<longrightarrow> uv_loc (upval_at h' u) = UvClosed)"

lemma has_finalizer_alike: "alike h h' \<Longrightarrow> has_finalizer h' r = has_finalizer h r"
proof -
  assume k: "alike h h'"
  have "scan_nodes h' key ns = scan_nodes h key ns" for key ns
    using k by (induction ns) (auto simp: alike_def split: option.splits)
  then show ?thesis using k by (cases r) (simp_all add: has_finalizer_def has_gc_meta_def alike_def scan_str_key_def split: option.split)
qed

lemma full_gc_collected:
  assumes ready: "gc_ready g h"
  obtains hs h' where "full_gc L g h = Some h'" "gc_state h' \<in> {Pause, Finalize}" "gc_gray h' = []" "gc_grayagain h' = []"
    "collected (live_set g h) (root_set g) h hs h'"
proof -
  let ?U = "live_set g h" and ?R = "root_set g"
  obtain d hs h' where f: "full_gc L g h = Some h'" "gc_state h' \<in> {Pause, Finalize}" "gc_gray h' = []" "gc_grayagain h' = []"
    and ab: "as_before (sweep_all L hs) h'" and sw: "swept_from ?U ?R (flipped (h\<lparr>h_debt := d\<rparr>)) hs"
    using full_gc_runs[OF ready, of L] by blast
  let ?h1 = "h\<lparr>h_debt := d\<rparr>" let ?h0 = "flipped ?h1" and ?s = "sweep_all L hs"
  have c1: "calm ?h1 = calm h" by simp
  have al1: "alike h ?h1" using alike_calm[of h] alike_calm[of ?h1] unfolding c1 alike_def by simp
  have al: "alike h ?h0" using al1 flipped_facts(1)[of ?h1] unfolding alike_def by metis
  note ref = alike_refs[OF al]
  have t: "untabled (calm hs) = untabled (calm ?h0)" using sw by (simp add: swept_from_def)
  note ta = untabled_at[OF t]
  have wfh: "heap_wf h" and closed: "heap_closed ?U h" using ready by (simp_all add: gc_ready_def)
  have wf: "heap_wf hs"
    using wfh heap_wf_cong[OF t] heap_wf_flipped[of ?h1] heap_wf_cong[of ?h1 h] c1 by simp
  have o: "objs hs = objs h" using sw ref(7) by (simp add: swept_from_def)
  note so = sweep_all_objs[OF wf, where L = L] and sc = sweep_all_contents[OF wf, where L = L]
  note ad = as_beforeD[OF ab] and ar = alike_refs[OF as_beforeD(1)[OF ab]]
  have obj: "r \<in> objs h' \<longleftrightarrow> r \<in> objs h \<and> spared hs r" for r using so[where r = r] ar(7) o by simp
  have w: "h_white hs = h_white h XOR 1" using ta(7) flipped_facts(4)[of ?h1] by simp
  have h1: "hdr ?h1 = hdr h" by (rule same_calm_hdr(1)[OF c1])
  have o1: "objs ?h1 = objs h" using al1 by (simp add: alike_def)
  have h0: "hdr ?h0 r = (hdr h r)\<lparr>marked := False\<rparr>" if "r \<in> objs h" "r \<notin> all_strings" for r
    using flipped_facts(2)[of r ?h1] that h1 o1 by simp
  have uv': "upval_at h' = upval_at ?s" and th': "thread_at h' = thread_at hs" and tb': "tab_at h' = tab_at hs"
    using ad(1) sc(4,1) by (simp_all add: alike_def)
  have uv: "closed_as hs (upval_at h a) (upval_at h' a)" for a
    using sc(7)[where a = a] ta(3) al by (simp add: uv' alike_def)
  have st: "stack_same (thread_at h a) (thread_at hs a)" for a using sw al by (simp add: swept_from_def alike_def)
  have same: "same_object h h' r" if r: "r \<in> objs h'" "r \<in> ?U" for r
  proof (cases r)
    case (RStr a)
    have "RStr a \<in> objs ?s" using r(1) RStr ar(7) by simp
    from sc(8)[OF this] show ?thesis using ad(1) ta(6) al by (simp add: RStr alike_def)
  next
    case (RTab a)
    show ?thesis using sw al ref(1) by (simp add: RTab tb' swept_from_def alike_def)
  next
    case (RFunc a)
    show ?thesis using ad(1) sc(2) ta(1) al by (simp add: RFunc alike_def)
  next
    case (RProto a)
    show ?thesis using ad(1) sc(3) ta(2) al by (simp add: RProto alike_def)
  next
    case (RUpval a)
    have g: "uv_get h' (upval_at h' a) = uv_get hs (upval_at h a)"
      using uv_get_threads[OF th'] closed_as_get[OF uv] by simp
    have "uv_get hs (upval_at h a) = uv_get h (upval_at h a)"
    proof -
      have "upval_ok h (upval_at h a)" using closed r(2) RUpval by (simp add: heap_closed_def)
      then show ?thesis using stack_same_facts(4)[OF st] by (auto simp: uv_get_def upval_ok_def split: uvloc.split)
    qed
    moreover have "uv_immutable (upval_at h' a) = uv_immutable (upval_at h a)" using uv[of a] by (auto simp: closed_as_def)
    ultimately show ?thesis using g by (simp add: RUpval)
  next
    case (RThread a)
    show ?thesis using st by (simp add: RThread th')
  next
    case (RUdata a)
    show ?thesis using ad(1) sc(5) ta(4) al by (simp add: RUdata alike_def)
  next
    case (RCdata a)
    show ?thesis using ad(1) sc(6) ta(5) al by (simp add: RCdata alike_def)
  qed
  have closedu: "uv_loc (upval_at h' u) = UvClosed"
    if b: "RThread b \<in> objs h" "RThread b \<notin> objs h'" "u \<in> set (th_openuv (thread_at h b))" for b u
  proof -
    have "th_openuv (thread_at hs b) = th_openuv (thread_at h b)" using st[of b] unfolding stack_same_def by (metis gthread.select_convs(4) gthread.surjective gthread.update_convs(1))
    then show ?thesis using sc(10)[where b = b and u = u] b o ar(7) uv' by simp
  qed
  have hd: "hdr hs r = (hdr h r)\<lparr>marked := False\<rparr> \<or> has_finalizer h r \<and> (\<forall>cw. \<not> is_dead (hdr hs r) cw) \<and> \<not> is_black (hdr hs r)"
    if "r \<in> objs h" "r \<notin> hMk hs" "r \<notin> all_strings" for r
    using sw that h0[OF that(1,3)] has_finalizer_alike[OF al, of r] unfolding swept_from_def by metis
  have reach: "reach h ?R \<subseteq> hMk hs" using sw unfolding swept_from_def by (metis same_reach ref(6) reach_le order_refl order_trans)
  have "collected ?U ?R h hs h'"
    unfolding collected_def
    using sc(9) ad(3) obj reach sw o w hd uv st th' same closedu tb' unfolding swept_from_def by auto
  with f show thesis by (rule that)
qed

lemma reach_live: "reach h (root_set g) \<subseteq> live_set g h"
  unfolding live_set_def by (rule reach_mono) simp

lemma live_objs: "gc_ready g h \<Longrightarrow> live_set g h \<subseteq> objs h"
  by (simp add: gc_ready_def heap_closed_def)

lemma spared_marked: "is_marked h r \<Longrightarrow> spared h r"
  by (simp add: spared_def survives_def is_marked_def)

lemma collectedD:
  assumes "collected U R h hs h'"
  shows "heap_wf h'" "r \<in> objs h' \<longleftrightarrow> r \<in> objs h \<and> spared hs r" "reach h R \<subseteq> hMk hs" "hMk hs \<inter> objs h \<subseteq> all_strings \<union> U"
    "h_white hs = h_white h XOR 1"
    "r \<in> objs h \<Longrightarrow> r \<notin> hMk hs \<Longrightarrow> r \<notin> all_strings \<Longrightarrow> hdr hs r = (hdr h r)\<lparr>marked := False\<rparr> \<or>
        has_finalizer h r \<and> (\<forall>cw. \<not> is_dead (hdr hs r) cw) \<and> \<not> is_black (hdr hs r)"
    "RTab a \<in> U \<Longrightarrow> RTab a \<in> hMk hs \<Longrightarrow> r \<in> slot_refs (tab_at h' a) \<Longrightarrow> keepable (h_white hs) hs r"
    "r \<in> objs h' \<Longrightarrow> r \<in> U \<Longrightarrow> same_object h h' r" "closed_as hs (upval_at h a) (upval_at h' a)"
    "RThread b \<in> objs h \<Longrightarrow> RThread b \<notin> objs h' \<Longrightarrow> u \<in> set (th_openuv (thread_at h b)) \<Longrightarrow> uv_loc (upval_at h' u) = UvClosed"
    "stack_same (thread_at h b) (thread_at h' b)"
proof -
  note c = assms[unfolded collected_def]
  note c1 = c[THEN conjunct1] and n1 = c[THEN conjunct2]
  note c2 = n1[THEN conjunct1] and n2 = n1[THEN conjunct2]
  note c3 = n2[THEN conjunct1] and n3 = n2[THEN conjunct2]
  note c4 = n3[THEN conjunct1] and n4 = n3[THEN conjunct2]
  note c5 = n4[THEN conjunct1] and n5 = n4[THEN conjunct2]
  note c6 = n5[THEN conjunct1] and n6 = n5[THEN conjunct2]
  note c7 = n6[THEN conjunct1] and n7 = n6[THEN conjunct2]
  note c8 = n7[THEN conjunct1] and n8 = n7[THEN conjunct2]
  show "heap_wf h'" "r \<in> objs h' \<longleftrightarrow> r \<in> objs h \<and> spared hs r" "reach h R \<subseteq> hMk hs" "hMk hs \<inter> objs h \<subseteq> all_strings \<union> U"
    "h_white hs = h_white h XOR 1" by (rule c1, rule spec[OF c2], rule c3, rule c4, rule c5)
  show "r \<in> objs h \<Longrightarrow> r \<notin> hMk hs \<Longrightarrow> r \<notin> all_strings \<Longrightarrow> hdr hs r = (hdr h r)\<lparr>marked := False\<rparr> \<or>
        has_finalizer h r \<and> (\<forall>cw. \<not> is_dead (hdr hs r) cw) \<and> \<not> is_black (hdr hs r)"
    using c6 by blast
  show "RTab a \<in> U \<Longrightarrow> RTab a \<in> hMk hs \<Longrightarrow> r \<in> slot_refs (tab_at h' a) \<Longrightarrow> keepable (h_white hs) hs r"
    using c7 by blast
  show "r \<in> objs h' \<Longrightarrow> r \<in> U \<Longrightarrow> same_object h h' r" using c8 by blast
  show "closed_as hs (upval_at h a) (upval_at h' a)" using n8[THEN conjunct1] by blast
  show "stack_same (thread_at h b) (thread_at h' b)" using n8[THEN conjunct1] by blast
  show "RThread b \<in> objs h \<Longrightarrow> RThread b \<notin> objs h' \<Longrightarrow> u \<in> set (th_openuv (thread_at h b)) \<Longrightarrow> uv_loc (upval_at h' u) = UvClosed"
    using n8[THEN conjunct2] by blast
qed

lemma full_gc_result:
  assumes "gc_ready g h" "full_gc L g h = Some h'"
  obtains hs where "collected (live_set g h) (root_set g) h hs h'"
proof -
  obtain hs h'' where "full_gc L g h = Some h''" "collected (live_set g h) (root_set g) h hs h''"
    by (rule full_gc_collected[OF assms(1)])
  then show thesis using assms(2) that by simp
qed

text \<open>All strong references of an object: beside those that the collector follows (\<open>refs\<close>), a thread holds
  its environment table and, while it is suspended in a call, the closure of that call.\<close>

definition held_refs :: "gheap \<Rightarrow> gref \<Rightarrow> gref set" where
  "held_refs h r = refs h r \<union>
     (case r of RThread a \<Rightarrow> insert (RTab (th_env (thread_at h a))) (RFunc ` set_option (th_call_cl (thread_at h a))) | _ \<Rightarrow> {})"

inductive_set held :: "gheap \<Rightarrow> gref set \<Rightarrow> gref set" for h R where
  held_root: "r \<in> R \<Longrightarrow> r \<in> held h R"
| held_step: "r \<in> held h R \<Longrightarrow> s \<in> held_refs h r \<Longrightarrow> s \<in> held h R"

text \<open>The collector does not follow the environment of a thread: it must be kept alive by something else,
  as the table of globals is.\<close>

definition envs_anchored :: "gheap \<Rightarrow> gref set \<Rightarrow> bool" where
  "envs_anchored h R \<longleftrightarrow> (\<forall>a. RThread a \<in> reach h R \<longrightarrow> RTab (th_env (thread_at h a)) \<in> reach h R)"

lemma call_cl_reached:
  assumes "gc_ready g h" "RThread a \<in> reach h (root_set g)" "th_call_cl (thread_at h a) = Some cl"
  shows "RFunc cl \<in> reach h (root_set g)"
proof -
  have "thread_ok (thread_at h a)" using assms(1,2) reach_live[of h g] by (auto simp: gc_ready_def heap_closed_def)
  then have "RFunc cl \<in> refs h (RThread a)" using assms(3) by (auto simp: thread_ok_def thread_refs_def)
  then show ?thesis using assms(2) reach_step by blast
qed

lemma held_refs_reached:
  assumes "gc_ready g h" "envs_anchored h (root_set g)" "r \<in> reach h (root_set g)"
  shows "held_refs h r \<subseteq> reach h (root_set g)"
proof -
  have "refs h r \<subseteq> reach h (root_set g)" using assms(3) by (auto intro: reach_step)
  then show ?thesis using assms call_cl_reached[OF assms(1)]
    by (cases r) (auto simp: held_refs_def envs_anchored_def simp del: refs.simps)
qed

lemma held_eq_reach:
  assumes "gc_ready g h" "envs_anchored h (root_set g)"
  shows "held h (root_set g) = reach h (root_set g)"
proof
  show "held h (root_set g) \<subseteq> reach h (root_set g)"
  proof
    fix r assume "r \<in> held h (root_set g)"
    then show "r \<in> reach h (root_set g)"
      by induction (use held_refs_reached[OF assms] in \<open>blast intro: reach_root\<close>)+
  qed
  show "reach h (root_set g) \<subseteq> held h (root_set g)"
  proof
    fix r assume "r \<in> reach h (root_set g)"
    then show "r \<in> held h (root_set g)"
      by induction (auto intro: held_root held_step simp: held_refs_def simp del: refs.simps)
  qed
qed

text \<open>C3. A full collection, begun between two cycles in a heap whose live objects have no dangling
  reference (\<open>gc_ready\<close>, which also asks that the closure of a suspended call is on the part of its stack below
  the top), ends; it keeps every object that the program can reach from the roots through any strong
  reference, with the contents it had, provided that the environment table of each reachable thread can also be
  reached without going through the thread: \<open>thread_env\<close> is a strong pointer that the collector does not follow.
  Of a table with a weak mode entries may be emptied; an upvalue reads the same value although its thread may be
  gone; stacks keep their part below the top.\<close>

theorem full_gc_keeps_reachable:
  assumes "gc_ready g h" "envs_anchored h (root_set g)"
  shows "\<exists>h'. full_gc L g h = Some h' \<and> gc_state h' \<in> {Pause, Finalize} \<and> heap_wf h' \<and>
    held h (root_set g) \<subseteq> objs h' \<and> (\<forall>r\<in>held h (root_set g). same_object h h' r)"
proof -
  obtain hs h' where f: "full_gc L g h = Some h'" "gc_state h' \<in> {Pause, Finalize}"
    and c: "collected (live_set g h) (root_set g) h hs h'" by (rule full_gc_collected[OF assms(1)])
  have "reach h (root_set g) \<subseteq> objs h'"
    using collectedD(2,3)[OF c] reach_live[of h g] live_objs[OF assms(1)] spared_marked by blast
  then show ?thesis unfolding held_eq_reach[OF assms] using f collectedD(1)[OF c] collectedD(8)[OF c] reach_live[of h g] by blast
qed

text \<open>C6. An object other than a string or a cdata that neither the roots nor the metatables of userdata lead to
  along the references that the collector follows, and that has no finalizer, is freed exactly when it is black or
  has the white that was current when the collection began: an object with the other white outlives one
  collection. Strings, which a weak table may mark, and cdata, whose pool is not swept, are excepted. (The comment
  in \<open>sweep_limited\<close> says that an unmarked black object is kept; the test below it frees it.)\<close>

theorem full_gc_frees_garbage:
  assumes "gc_ready g h" "full_gc L g h = Some h'" "r \<in> objs h" "r \<notin> live_set g h" "\<not> has_finalizer h r"
    and "r \<notin> range RStr \<union> range RCdata"
  shows "r \<in> objs h' \<longleftrightarrow> \<not> is_dead (hdr h r) (h_white h XOR 1) \<and> \<not> is_black (hdr h r)"
proof -
  obtain hs where c: "collected (live_set g h) (root_set g) h hs h'" by (rule full_gc_result[OF assms(1,2)])
  have n: "r \<notin> hMk hs" "r \<notin> all_strings" using collectedD(4)[OF c] assms(3,4,6) by (auto simp: all_strings_def)
  then have e: "hdr hs r = (hdr h r)\<lparr>marked := False\<rparr>" using collectedD(6)[OF c assms(3)] assms(5) by blast
  have k: "\<not> (\<exists>a. r = RCdata a)" "\<not> (\<exists>a. r = RStr a \<and> str_bytes hs a = [])" using assms(6) by auto
  have "survives (h_white hs) (hdr hs r) \<longleftrightarrow> \<not> is_dead (hdr h r) (h_white h XOR 1) \<and> \<not> is_black (hdr h r)"
    unfolding collectedD(5)[OF c] e by (simp add: survives_def is_dead_def is_black_def)
  then show ?thesis using collectedD(2)[OF c, of r] assms(3) k unfolding spared_def by blast
qed

text \<open>What else holds of the heap that the program uses: weak references lead to objects too, an open upvalue is in
  the list of its thread, the constant tables of prototypes have no metatable; and no userdata is black between cycles.\<close>

definition heap_sound :: "gref set \<Rightarrow> gheap \<Rightarrow> bool" where
  "heap_sound R h \<longleftrightarrow> (\<forall>a. RTab a \<in> R \<longrightarrow> slot_refs (tab_at h a) \<subseteq> objs h) \<and>
     (\<forall>a th i. RUpval a \<in> R \<longrightarrow> uv_loc (upval_at h a) = UvOpen th i \<longrightarrow> RThread th \<in> objs h \<and> a \<in> set (th_openuv (thread_at h th))) \<and>
     (\<forall>a t. RProto a \<in> R \<longrightarrow> GkTable t \<in> set (gp_kgc (proto_at h a)) \<longrightarrow> metatable t = None)"

lemma tab_slot_refs: "tab_refs h t \<subseteq> slot_refs t"
  by (auto simp: tab_refs_def slot_refs_def split: if_splits)

lemma weak_tab_slots: "weak_tab t t' \<Longrightarrow> slot_refs t' \<subseteq> slot_refs t"
proof -
  assume w: "weak_tab t t'"
  have a: "v \<in> set (arr t) \<or> v = NIL" if "v \<in> set (arr t')" for v
    using list_all2_in[of weak_value "arr t" "arr t'" v] w that by (auto simp: weak_tab_def weak_value_def)
  have n: "m \<in> set (nodes t) \<or> is_nil (n_val m)" if "m \<in> set (nodes t')" for m
    using list_all2_in[of "\<lambda>n n'. n' = n \<or> n' = n\<lparr>n_val := NIL\<rparr>" "nodes t" "nodes t'" m] w that by (auto simp: weak_tab_def)
  have t': "t' = t\<lparr>arr := arr t', nodes := nodes t'\<rparr>" using w by (simp add: weak_tab_def)
  have e: "metatable t' = metatable t" "has_hpart t' = has_hpart t"
    using arg_cong[OF t', of metatable] arg_cong[OF t', of hmask] by (simp_all add: has_hpart_def)
  have A: "\<Union> (vrefs ` set (arr t')) \<subseteq> \<Union> (vrefs ` set (arr t))" using a by fastforce
  have N: "{n \<in> set (nodes t'). \<not> is_nil (n_val n)} \<subseteq> {n \<in> set (nodes t). \<not> is_nil (n_val n)}" using n by blast
  show ?thesis unfolding slot_refs_def e
    by (rule Un_mono[OF Un_mono[OF order_refl A]], cases "has_hpart t") (simp_all only: if_True if_False order_refl UN_mono[OF N order_refl])
qed

lemma sid_refs_objs: "heap_wf h \<Longrightarrow> sid_refs h i \<subseteq> objs h"
proof -
  assume "heap_wf h"
  then have "ids_ok (\<lambda>p. str_at (h_strings h) p) (set (objects (ipool (h_strings h)))) (by_id (h_strings h))"
    using interner_invD(2) by (simp add: heap_wf_def)
  then show ?thesis by (auto simp: sid_refs_def try_lookup_def ids_ok_def objs_def split: if_splits)
qed

lemma no_dangling_reach:
  assumes ready: "gc_ready g h" and run: "full_gc L g h = Some h'" and sound: "heap_sound (reach h (root_set g)) h"
    and black: "\<forall>a. RUdata a \<in> objs h \<longrightarrow> \<not> is_black (hdr h (RUdata a))"
  shows "heap_sound (reach h (root_set g)) h' \<and> (\<forall>r\<in>reach h (root_set g). refs h' r \<subseteq> objs h')"
proof (intro conjI ballI)
  let ?R = "reach h (root_set g)" and ?U = "live_set g h"
  obtain hs where c: "collected ?U (root_set g) h hs h'" by (rule full_gc_result[OF ready run])
  note D = collectedD[OF c]
  have R: "r \<in> ?U" "r \<in> objs h" "r \<in> objs h'" "is_marked hs r" "refs h r \<subseteq> ?R" if "r \<in> ?R" for r
    using that D(2,3) reach_live[of h g] live_objs[OF ready] spared_marked[of hs r] by (auto intro: reach_step)
  have same: "same_object h h' r" if "r \<in> ?R" for r using D(8) R(1,3)[OF that] by blast
  have live: "refs h r \<subseteq> objs h'" if "r \<in> ?R" for r using R(3) R(5)[OF that] by blast
  have keep: "r \<in> objs h'" if k: "keepable (h_white hs) hs r" "r \<in> objs h" for r
  proof (cases "is_marked hs r")
    case True
    then show ?thesis using D(2) k(2) spared_marked by blast
  next
    case False
    then obtain a where a: "r = RUdata a" "\<not> is_dead (hdr hs r) (h_white hs)" using k(1) by (auto simp: keepable_def)
    have "r \<notin> all_strings" using a(1) by (auto simp: all_strings_def)
    then have "\<not> is_black (hdr hs r)" using D(6)[OF k(2)] False black k(2) a(1) by (auto simp: is_black_def simp del: hdr.simps)
    then show ?thesis using D(2) k(2) a(2) by (auto simp: spared_def survives_def)
  qed
  have slots: "slot_refs (tab_at h' a) \<subseteq> objs h'" if "RTab a \<in> ?R" for a
  proof
    fix r assume r: "r \<in> slot_refs (tab_at h' a)"
    have "r \<in> objs h" using weak_tab_slots[of "tab_at h a" "tab_at h' a"] same[OF that] r sound that by (auto simp: heap_sound_def)
    then show "r \<in> objs h'" using keep D(7)[OF R(1)[OF that] _ r] R(4)[OF that] by simp
  qed
  have wf: "heap_wf h'" by (rule D(1))
  have open_uv: "RThread th \<in> objs h' \<and> a \<in> set (th_openuv (thread_at h' th))"
    if a: "RUpval a \<in> ?R" "uv_loc (upval_at h' a) = UvOpen th i" for a th i
  proof -
    have e: "upval_at h' a = upval_at h a" using D(9)[of a] a(2) by (auto simp: closed_as_def)
    then have s: "RThread th \<in> objs h" "a \<in> set (th_openuv (thread_at h th))" using sound a unfolding heap_sound_def by metis+
    then have "RThread th \<in> objs h'" using D(10)[of th a] a(2) by auto
    moreover have "th_openuv (thread_at h' th) = th_openuv (thread_at h th)"
      using arg_cong[OF D(11)[of th, unfolded stack_same_def, THEN conjunct2, THEN conjunct2], of th_openuv] by simp
    ultimately show ?thesis using s(2) by simp
  qed
  have protos: "proto_at h' a = proto_at h a" if "RProto a \<in> ?R" for a using same[OF that] by simp
  show "heap_sound ?R h'"
    unfolding heap_sound_def using slots open_uv protos sound unfolding heap_sound_def by auto
  show "refs h' r \<subseteq> objs h'" if "r \<in> ?R" for r
  proof (cases r)
    case (RTab a)
    then show ?thesis using slots tab_slot_refs[of h' "tab_at h' a"] that by auto
  next
    case (RFunc a)
    then show ?thesis using live[OF that] same[OF that] by simp
  next
    case (RProto a)
    have p: "proto_at h' a = proto_at h a" using same[OF that] RProto by simp
    have "kgc_refs h' k \<subseteq> objs h'" if k: "k \<in> set (gp_kgc (proto_at h a))" for k
    proof -
      have l: "kgc_refs h k \<subseteq> objs h'" using live[OF \<open>r \<in> ?R\<close>] RProto k by auto
      show ?thesis
      proof (cases k)
        case (GkTable t)
        then have "metatable t = None" using sound \<open>r \<in> ?R\<close> RProto k by (auto simp: heap_sound_def)
        then have "tab_refs h' t = tab_refs h t" by (simp add: tab_refs_def weak_mode_def)
        then show ?thesis using l GkTable by simp
      qed (use l sid_refs_objs[OF wf] in simp_all)
    qed
    then show ?thesis using sid_refs_objs[OF wf] by (auto simp: RProto p)
  next
    case (RUpval a)
    then show ?thesis using live[OF that] same[OF that] by simp
  next
    case (RThread a)
    then show ?thesis using live[OF that] same[OF that] stack_same_facts(2)[of "thread_at h a" "thread_at h' a"] by simp
  qed (use live[OF that] same[OF that] in simp_all)
qed

text \<open>C7. After a full collection no object that the program can reach from the roots has a dangling reference:
  its strong references, the environment and the suspended closure of a thread included, are objects of the heap,
  and so is what the slots of weak tables hold; an open upvalue belongs to a thread that exists and lists it. As
  in the first theorem, the environment table of each reachable thread must be reachable otherwise as well; and at
  the start the heap must be sound for these objects (\<open>heap_sound\<close>) and no userdata black.\<close>

theorem full_gc_no_dangling:
  assumes ready: "gc_ready g h" and run: "full_gc L g h = Some h'" and env: "envs_anchored h (root_set g)"
    and sound: "heap_sound (held h (root_set g)) h"
    and black: "\<forall>a. RUdata a \<in> objs h \<longrightarrow> \<not> is_black (hdr h (RUdata a))"
  shows "heap_sound (held h (root_set g)) h' \<and> (\<forall>r\<in>held h (root_set g). held_refs h' r \<subseteq> objs h')"
proof -
  let ?R = "reach h (root_set g)"
  note eq = held_eq_reach[OF ready env]
  have n: "heap_sound ?R h'" "\<And>r. r \<in> ?R \<Longrightarrow> refs h' r \<subseteq> objs h'"
    using no_dangling_reach[OF ready run _ black] sound unfolding eq by blast+
  obtain hs where c: "collected (live_set g h) (root_set g) h hs h'" by (rule full_gc_result[OF ready run])
  have R: "?R \<subseteq> objs h'" using collectedD(2,3)[OF c] reach_live[of h g] live_objs[OF ready] spared_marked by blast
  have "held_refs h' (RThread a) \<subseteq> objs h'" if a: "RThread a \<in> ?R" for a
  proof -
    note l = collectedD(11)[OF c, of a, unfolded stack_same_def, THEN conjunct2, THEN conjunct2]
    have "th_env (thread_at h' a) = th_env (thread_at h a)" "th_call_cl (thread_at h' a) = th_call_cl (thread_at h a)"
      using arg_cong[OF l, of th_env] arg_cong[OF l, of th_call_cl] by simp_all
    then have "held_refs h' (RThread a) \<subseteq> refs h' (RThread a) \<union> held_refs h (RThread a)"
      by (auto simp: held_refs_def simp del: refs.simps)
    then show ?thesis using n(2)[OF a] held_refs_reached[OF ready env a] R by blast
  qed
  moreover have "held_refs h' r = refs h' r" if "\<nexists>a. r = RThread a" for r
    using that by (cases r) (simp_all add: held_refs_def del: refs.simps)
  ultimately have "held_refs h' r \<subseteq> objs h'" if "r \<in> ?R" for r using n(2)[OF that] that by metis
  then show ?thesis unfolding eq using n(1) by blast
qed

text \<open>Without that provision the environment is lost: a thread that the roots reach outlives the collection with
  the address of its environment table, which is freed if only the thread refers to it.\<close>

lemma thread_env_dangles:
  assumes "gc_ready g h" "full_gc L g h = Some h'" "RThread a \<in> reach h (root_set g)"
    and "RTab (th_env (thread_at h a)) \<in> objs h" "RTab (th_env (thread_at h a)) \<notin> live_set g h"
    and "is_dead (hdr h (RTab (th_env (thread_at h a)))) (h_white h XOR 1)"
  shows "RThread a \<in> objs h' \<and> th_env (thread_at h' a) = th_env (thread_at h a) \<and> RTab (th_env (thread_at h' a)) \<notin> objs h'"
proof -
  obtain hs where c: "collected (live_set g h) (root_set g) h hs h'" by (rule full_gc_result[OF assms(1,2)])
  have "RThread a \<in> objs h'" using assms(3) collectedD(2,3)[OF c] reach_live[of h g] live_objs[OF assms(1)] spared_marked by blast
  moreover have e: "th_env (thread_at h' a) = th_env (thread_at h a)"
    using arg_cong[OF collectedD(11)[OF c, of a, unfolded stack_same_def, THEN conjunct2, THEN conjunct2], of th_env] by simp
  moreover have "hMk hs \<inter> {RTab (th_env (thread_at h a))} = {}"
    using collectedD(4)[OF c] assms(4,5) by (auto simp: all_strings_def)
  then have "hdr hs (RTab (th_env (thread_at h a))) = (hdr h (RTab (th_env (thread_at h a))))\<lparr>marked := False\<rparr>"
    using collectedD(6)[OF c assms(4)] by (auto simp: all_strings_def has_finalizer_def simp del: hdr.simps)
  then have "\<not> survives (h_white hs) (hdr hs (RTab (th_env (thread_at h a))))"
    using assms(6) unfolding collectedD(5)[OF c] by (simp add: survives_def is_dead_def del: hdr.simps)
  then have "RTab (th_env (thread_at h a)) \<notin> objs h'" using collectedD(2)[OF c] by (auto simp: spared_def simp del: hdr.simps)
  ultimately show ?thesis by simp
qed

text \<open>An object that was marked takes the first white when it survives: an unreachable one is dead for a
  collection whose current white is 1 and alive for one whose current white is 0.\<close>

lemma survivor_outlives: "is_dead (survivor_header (set_marked d)) cw \<longleftrightarrow> cw \<noteq> 0" "\<not> is_black (survivor_header (set_marked d))"
proof -
  have m: "marked (set_marked d)" by (simp add: set_marked_def nw2black_def)
  have n: "is_dead (survivor_header x) cw = is_dead (if marked x then change_white x else x) cw"
    "is_black (survivor_header x) = is_black (if marked x then change_white x else x)" for x cw
    by (simp_all add: survivor_header_def is_dead_def is_black_def)
  have b: "bits (set_marked d) AND BIT_WHITE0 = 0" using recolored(2)[of "d\<lparr>marked := True\<rparr>" 1] by (simp add: set_marked_def is_dead_def)
  have w: "is_dead (change_white (set_marked d)) 0 \<longleftrightarrow> \<not> is_dead (change_white (set_marked d)) 1" by (rule recolored(4))
  have "is_dead (change_white (set_marked d)) 1"
    using b by (simp add: change_white_def is_dead_def and_same_field field_consts)
  then show "is_dead (survivor_header (set_marked d)) cw \<longleftrightarrow> cw \<noteq> 0" using w m by (simp add: n) (simp add: is_dead_def)
  show "\<not> is_black (survivor_header (set_marked d))" using recolored(3) m by (simp add: n)
qed

section \<open>An example\<close>

text \<open>The globals refer to a table; another table is garbage.\<close>

definition demo_tab :: "lua_value list \<Rightarrow> ltable" where
  "demo_tab vs = \<lparr>arr = vs, nodes = [], asize = length vs, hmask = 0, freetop = 0, nomm = 0, metatable = None\<rparr>"

definition demo_pool :: "addr list \<Rightarrow> (addr \<Rightarrow> 'a) \<Rightarrow> 'a pool" where
  "demo_pool as f = \<lparr>objects = as, mapped = map (\<lambda>_. False) as, live_count = length as, current_white = 0, freelist = [],
     free_bytes = 0, trim_check = 0, mem = \<lambda>a. (f a, header_new 0)\<rparr>"

definition demo_thread :: gthread where
  "demo_thread = \<lparr>th_stack = [NIL, NIL], th_top = 1, th_frame_top = 1, th_openuv = [], th_errval = NIL, th_hook = NIL, th_call_cl = None,
     th_env = 8192\<rparr>"

definition demo :: gheap where
  "demo = \<lparr>h_strings = blank (\<lambda>_. undefined), h_protos = demo_pool [] undefined,
     h_tables = demo_pool [8192, 12288, 16384, 24576] (\<lambda>a. demo_tab (if a = 8192 then [lua_table_value 12288] else [])),
     h_funcs = demo_pool [] undefined, h_upvals = demo_pool [] undefined, h_cdatas = demo_pool [] undefined,
     h_userdatas = demo_pool [] undefined, h_threads = demo_pool [20480] (\<lambda>_. demo_thread), h_total = 0, h_threshold = 0,
     h_table_extra = 0, h_debt = 0, gc_state = Pause, gc_gray = [], gc_grayagain = [], gc_weak = [], mmudata = [],
     gc_sweep_pool = 0, gc_sweep_pos = 0, h_white = 0, h_stepmul = 200, h_estimate = 0\<rparr>"

definition demo_roots :: groots where
  "demo_roots = \<lparr>g_globals = 8192, g_registry = 24576, g_basemt = [], g_mmname = [], g_ctype_mts = [], g_io_file_cache = [],
     g_main = 20480, g_cur_l = None, g_cts = None, g_traces = [], g_rec = None\<rparr>"

lemma demo_value: "vrefs (lua_table_value 12288) = {RTab 12288}"
proof -
  have t: "itype (lua_table_value 12288) = LJ_TTAB"
    unfolding lua_table_value_def gcval_def by (rule itype_gcv) (simp_all add: itype_defs LJ_GCVMASK_def)
  have a: "gc_addr (lua_table_value 12288) = 12288"
    unfolding lua_table_value_def gcval_def by (rule gc_addr_gcv) (simp add: LJ_GCVMASK_def)
  have "as_table (lua_table_value 12288) = Some 12288"
    by (simp add: as_table_def is_table_def t a gcptr_from_addr_ok)
  then show ?thesis by (simp add: vrefs_kinds t) (simp add: itype_defs)
qed

lemma demo_objs: "objs demo = {RTab 8192, RTab 12288, RTab 16384, RTab 24576, RThread 20480}"
  by (simp add: objs_def demo_def demo_pool_def blank_def pool_new_def) blast

lemma demo_refs: "refs demo (RTab 8192) = {RTab 12288}" "a \<noteq> 8192 \<Longrightarrow> refs demo (RTab a) = {}" "refs demo (RThread a) = {}"
  using demo_value
  by (simp_all add: demo_def demo_pool_def tab_refs_def tab_at_def demo_tab_def has_hpart_def weak_mode_def thread_at_def
      thread_refs_def demo_thread_def mark_to_def ADDR_MAX_def)

lemma demo_live: "live_set demo_roots demo = {RTab 8192, RTab 12288, RTab 24576, RThread 20480}"
proof
  have r: "root_set demo_roots = {RTab 8192, RTab 24576, RThread 20480}" "meta_roots demo = {}"
    by (auto simp: root_set_def demo_roots_def meta_roots_def demo_def demo_pool_def)
  have c: "\<forall>r\<in>{RTab 8192, RTab 12288, RTab 24576, RThread 20480}. refs demo r \<subseteq> {RTab 8192, RTab 12288, RTab 24576, RThread 20480}"
    by (simp add: demo_refs del: refs.simps)
  show "live_set demo_roots demo \<subseteq> {RTab 8192, RTab 12288, RTab 24576, RThread 20480}"
    unfolding live_set_def r by (rule reach_closed) (simp, erule bspec[OF c])
  have s: "{RTab 8192, RTab 24576, RThread 20480} \<subseteq> live_set demo_roots demo" unfolding live_set_def r by (auto intro: reach_root)
  then have "RTab 8192 \<in> live_set demo_roots demo" by blast
  from reach_step[OF this[unfolded live_set_def], of "RTab 12288"] have "RTab 12288 \<in> live_set demo_roots demo"
    by (simp add: live_set_def demo_refs del: refs.simps)
  with s show "{RTab 8192, RTab 12288, RTab 24576, RThread 20480} \<subseteq> live_set demo_roots demo" by blast
qed

lemma demo_ready: "gc_ready demo_roots demo"
proof -
  have w: "heap_wf demo"
    using blank_inv(1) by (simp add: heap_wf_def demo_def demo_pool_def pool_wf_def bad_addr_def ADDR_MAX_def)
  have "heap_closed (live_set demo_roots demo) demo"
    unfolding heap_closed_def
  proof (intro conjI ballI allI impI)
    show "live_set demo_roots demo \<subseteq> objs demo" by (simp add: demo_live demo_objs)
    show "refs demo r \<subseteq> live_set demo_roots demo" if "r \<in> live_set demo_roots demo" for r
      using that unfolding live_set_def by (auto intro: reach_step)
    show "thread_ok (thread_at demo a)" for a
      by (simp add: thread_ok_def thread_at_def demo_def demo_pool_def demo_thread_def mark_to_def)
    show "upval_ok demo (upval_at demo a)" if "RUpval a \<in> live_set demo_roots demo" for a using that by (simp add: demo_live)
  qed
  with w show ?thesis by (simp add: gc_ready_def) (simp add: demo_def)
qed

definition demo_layout :: layout where
  "demo_layout = \<lparr>ly_string = 56, ly_table = 80, ly_value = 8, ly_node = 24, ly_func = 72, ly_upval = 40, ly_proto = 280, ly_thread = 360,
     ly_cdata = 72, ly_udata = 48, ly_array_cap = asize, ly_proto_size = \<lambda>_. 280\<rparr>"

lemma demo_reach: "{RTab 8192, RTab 12288, RTab 24576, RThread 20480} \<subseteq> reach demo (root_set demo_roots)"
proof -
  have "meta_roots demo = {}" by (simp add: meta_roots_def demo_def demo_pool_def)
  then show ?thesis using demo_live by (simp add: live_set_def)
qed

lemma demo_envs: "envs_anchored demo (root_set demo_roots)"
  using demo_reach reach_live[of demo demo_roots] demo_live
  by (auto simp: envs_anchored_def thread_at_def demo_def[unfolded demo_pool_def] demo_thread_def)

theorem full_gc_keeps_reachable_witness:
  "\<exists>h'. full_gc demo_layout demo_roots demo = Some h' \<and> RTab 12288 \<in> objs h' \<and> tab_at h' 8192 = demo_tab [lua_table_value 12288]"
proof -
  obtain h' where h': "full_gc demo_layout demo_roots demo = Some h'" "held demo (root_set demo_roots) \<subseteq> objs h'"
    "\<forall>r\<in>held demo (root_set demo_roots). same_object demo h' r"
    using full_gc_keeps_reachable[OF demo_ready demo_envs, of demo_layout] by blast
  note eq = held_eq_reach[OF demo_ready demo_envs]
  have "same_object demo h' (RTab 8192)" using h'(3) demo_reach unfolding eq by blast
  moreover have t: "tab_at demo 8192 = demo_tab [lua_table_value 12288]" by (simp add: tab_at_def demo_def demo_pool_def)
  moreover have "weak_mode demo (demo_tab [lua_table_value 12288]) = 0" by (simp add: weak_mode_def demo_tab_def)
  ultimately show ?thesis using h'(1,2) demo_reach unfolding eq by auto
qed

theorem full_gc_frees_garbage_witness:
  "\<exists>h'. full_gc demo_layout demo_roots demo = Some h' \<and> RTab 16384 \<in> objs demo \<and> RTab 16384 \<notin> objs h'"
proof -
  obtain h' where h': "full_gc demo_layout demo_roots demo = Some h'" using full_gc_runs[OF demo_ready] by metis
  have "RTab 16384 \<notin> live_set demo_roots demo" "RTab 16384 \<in> objs demo" by (simp_all add: demo_live demo_objs)
  moreover have "is_dead (hdr demo (RTab 16384)) (h_white demo XOR 1)"
    by (simp add: demo_def demo_pool_def header_new_def is_dead_def BIT_WHITE0_def)
  ultimately show ?thesis
    using full_gc_frees_garbage[OF demo_ready h', of "RTab 16384"] h' by (auto simp: has_finalizer_def simp del: hdr.simps)
qed

theorem full_gc_no_dangling_witness:
  "\<exists>h'. full_gc demo_layout demo_roots demo = Some h' \<and> held_refs h' (RTab 8192) \<subseteq> objs h' \<and> held_refs h' (RThread 20480) \<subseteq> objs h'"
proof -
  obtain h' where h': "full_gc demo_layout demo_roots demo = Some h'" using full_gc_runs[OF demo_ready] by metis
  have R: "reach demo (root_set demo_roots) \<subseteq> {RTab 8192, RTab 12288, RTab 24576, RThread 20480}" using reach_live demo_live by blast
  have "slot_refs (tab_at demo a) \<subseteq> {RTab 12288}" for a
    using demo_value by (simp add: slot_refs_def tab_at_def demo_def demo_pool_def demo_tab_def has_hpart_def)
  then have "heap_sound (reach demo (root_set demo_roots)) demo"
    using R by (auto simp: heap_sound_def demo_objs)
  moreover have "\<forall>a. RUdata a \<in> objs demo \<longrightarrow> \<not> is_black (hdr demo (RUdata a))" by (simp add: demo_objs)
  ultimately show ?thesis
    using full_gc_no_dangling[OF demo_ready h' demo_envs] h' demo_reach unfolding held_eq_reach[OF demo_ready demo_envs] by blast
qed

end
