(* ===== verification/LJ_Barrier.thy ===== *)
theory LJ_Barrier
  imports LJ_Sweep_Spec
begin

unbundle bit_operations_syntax

declare upd_hdr.simps [simp del]

text \<open>
  The write barriers keep the tricolour invariant while the collector propagates: the backward barrier of a
  table that was stored into, the forward barrier of a value that was stored.
\<close>

section \<open>The backward barrier\<close>

lemma gray_same:
  assumes "h' = h1\<lparr>gc_gray := g\<rparr>" "same h h1"
  shows "refs h' = refs h" "heap_closed U h' = heap_closed U h" "hdr h' = hdr h1"
  using same_calm_hdr[of h' h1] same_refs(6,8)[OF assms(2)] by (simp_all add: assms(1))

lemma steering_upd [simp]: "gc_state (upd_hdr r f h) = gc_state h" "gc_gray (upd_hdr r f h) = gc_gray h"
  by (cases r; simp add: upd_hdr.simps)+

lemma barrier_back_facts:
  assumes "gc_state h = Propagate"
  obtains h1 where "barrier_back h t = h1\<lparr>gc_gray := (if is_black (hdr h (RTab t)) then RTab t # gc_gray h else gc_gray h)\<rparr>"
    "same h h1" "hMk h1 = hMk h"
proof (cases "is_black (hdr h (RTab t))")
  case True
  let ?h = "upd_hdr (RTab t) make_gray h"
  have "barrier_back h t = ?h\<lparr>gc_gray := RTab t # gc_gray h\<rparr>"
    using assms True by (simp add: barrier_back_def collecting_def push_gray_def del: hdr.simps)
  moreover have "hMk ?h = hMk h" by (auto simp: is_marked_def hdr_upd make_gray_def simp del: hdr.simps)
  ultimately show thesis by (intro that[of ?h]) (simp_all only: True if_True same_upd)
next
  case False
  then have "barrier_back h t = h" by (simp add: barrier_back_def del: hdr.simps)
  then show thesis by (intro that[of h]) (simp_all add: False del: hdr.simps)
qed

text \<open>C14. The backward barrier restores the tricolour invariant after a store into a table: if every
  marked object but this table waits in the gray list or refers to marked objects only, then after the
  barrier this holds of the table too.\<close>

theorem barrier_back_keeps_invariant:
  assumes "gc_state h = Propagate" "heap_closed U h" "RTab t \<in> U" "set (gc_gray h) \<subseteq> hMk h \<inter> U \<inter> Collect grayable"
    and others: "\<forall>r\<in>hMk h \<inter> U. r \<noteq> RTab t \<longrightarrow> r \<in> set (gc_gray h) \<or> refs h r \<subseteq> hMk h"
    and color: "is_black (hdr h (RTab t)) \<longrightarrow> is_marked h (RTab t)"
      "is_marked h (RTab t) \<longrightarrow> RTab t \<in> set (gc_gray h) \<or> is_black (hdr h (RTab t))"
  shows "mark_inv U (start_marker False (gc_gray (barrier_back h t)) (barrier_back h t))"
proof -
  let ?h' = "barrier_back h t" and ?g = "if is_black (hdr h (RTab t)) then RTab t # gc_gray h else gc_gray h"
  obtain h1 where h1: "?h' = h1\<lparr>gc_gray := ?g\<rparr>" "same h h1" "hMk h1 = hMk h" using barrier_back_facts[OF assms(1)] by blast
  note e = gray_same[OF h1(1,2)]
  have M: "hMk ?h' = hMk h" using e(3) h1(3) by (simp add: is_marked_def)
  have g: "gc_gray ?h' = ?g" by (simp add: h1(1))
  have "set ?g \<subseteq> hMk h \<inter> U \<inter> Collect grayable" using assms(3,4) color by auto
  moreover have "r \<in> set ?g \<or> refs h r \<subseteq> hMk h" if r: "r \<in> hMk h \<inter> U" for r
  proof (cases "r = RTab t")
    case True
    then show ?thesis using color r by auto
  next
    case False
    then show ?thesis using others r by auto
  qed
  ultimately show ?thesis using assms(2) unfolding mark_inv_start g M e(1,2) by blast
qed

section \<open>The forward barrier\<close>

lemma udata_gray [simp]: "udata_at (h\<lparr>gc_gray := g\<rparr>) = udata_at h"
  by (simp add: udata_at_def fun_eq_iff)

lemma upd_gray: "upd_hdr r f (h\<lparr>gc_gray := g\<rparr>) = (upd_hdr r f h)\<lparr>gc_gray := g\<rparr>"
  by (cases r) (simp_all add: upd_hdr.simps)

lemma marked_gray: "is_marked (h\<lparr>gc_gray := g\<rparr>) = is_marked h"
  by (rule same_calm_hdr(2)) simp

text \<open>Marking through the gray list of the heap is marking with a marker that holds this list.\<close>

definition as_marker :: "gheap \<Rightarrow> marker" where "as_marker h = start_marker False (gc_gray h) h"
definition as_heap :: "marker \<Rightarrow> gheap" where "as_heap m = (mk_heap m)\<lparr>gc_gray := mk_gray m\<rparr>"

lemma barrier_push_marks: "gc_state h = Propagate \<Longrightarrow> barrier_push r (as_heap m) = as_heap (mark_push r m) \<or> gc_state (mk_heap m) \<noteq> Propagate"
  by (auto simp: barrier_push_def mark_push_def as_heap_def marked_gray push_gray_def heap_mark_def mk_mark_def upd_gray)

lemma barrier_table_marks:
  assumes "gc_state (mk_heap m) = Propagate" "0x100 \<le> mt" "mt \<le> unat LJ_GCVMASK"
  shows "barrier_table mt (as_heap m) = as_heap (mark_table mt m)"
proof -
  have le: "unat LJ_GCVMASK < 2 ^ 64" by (simp add: LJ_GCVMASK_def)
  then have u: "unat (of_nat mt :: u64) = mt" using assms(3) by (simp add: unat_of_nat)
  have r: "0x100 \<le> (of_nat mt :: u64)" "(of_nat mt :: u64) \<le> LJ_GCVMASK" using assms(2,3) u by (simp_all add: word_le_nat_alt)
  have "as_table (lua_table_value (of_nat mt)) = Some (of_nat mt)"
    using itype_gcv[OF _ r(2), of LJ_TTAB] gc_addr_gcv[OF r(2)] gcptr_from_addr_ok[OF r(1)]
    by (simp add: as_table_def is_table_def lua_table_value_def gcval_def tags_high)
  then show ?thesis using barrier_push_marks[OF assms(1), of "RTab mt" m] assms(1) by (simp add: barrier_table_def u mark_table_def)
qed
lemma heap_mark_marks: "heap_mark r (as_heap m) = as_heap (mk_mark r m)"
  by (simp add: as_heap_def heap_mark_def mk_mark_def upd_gray)

lemma as_heap_marked: "is_marked (as_heap m) = is_marked (mk_heap m)" "udata_at (as_heap m) = udata_at (mk_heap m)"
  "gc_state (as_heap m) = gc_state (mk_heap m)"
  by (simp_all add: as_heap_def marked_gray)

text \<open>\<open>mark_udata\<close> with a metatable whose address fits a value.\<close>

definition boxable :: "gheap \<Rightarrow> gref set \<Rightarrow> bool" where
  "boxable h S \<longleftrightarrow> (\<forall>a mt. RUdata a \<in> S \<longrightarrow> ud_metatable (udata_at h a) = Some mt \<longrightarrow> 0x100 \<le> mt \<and> mt \<le> unat LJ_GCVMASK)"

lemma barrier_fwd_marks:
  assumes p: "gc_state (mk_heap m) = Propagate" and c: "itype v \<noteq> LJ_TCDATA" and b: "boxable (mk_heap m) (vrefs v)"
  shows "barrier_fwd (as_heap m) v = as_heap (mark_value v m)"
proof -
  have push: "barrier_push r (as_heap m) = as_heap (mark_push r m)" for r using barrier_push_marks[of "as_heap m" r m] p by (simp add: as_heap_marked)
  have ud: "(if is_marked (as_heap m) (RUdata a) then as_heap m
      else let h1 = heap_mark (RUdata a) (as_heap m)
           in case ud_metatable (udata_at (as_heap m) a) of Some mt \<Rightarrow> barrier_table mt h1 | None \<Rightarrow> h1) = as_heap (mark_udata a m)"
    if a: "RUdata a \<in> vrefs v" for a
  proof -
    have g: "gc_state (mk_heap (mk_mark (RUdata a) m)) = Propagate" using p by (simp add: mk_mark_def heap_mark_def)
    show ?thesis using b a barrier_table_marks[OF g]
      by (auto simp: boxable_def mark_udata_def as_heap_marked heap_mark_marks Let_def split: option.split)
  qed
  have nc: "as_cdata v = None" using c by (simp add: as_cdata_def is_cdata_def)
  have k: "gc_state (as_heap m) = Propagate" using p by (simp add: as_heap_marked)
  show ?thesis
    using c ud unfolding barrier_fwd_def mark_value_def Let_def
    by (simp add: collecting_def k push heap_mark_marks vrefs_kinds itype_defs split: option.split)
qed

text \<open>C15. The forward barrier keeps the tricolour invariant and marks all that the stored value
  refers to, unless the value is a cdata.\<close>

theorem barrier_fwd_marks_value:
  assumes "gc_state h = Propagate" "mark_inv U (start_marker False (gc_gray h) h)" "vrefs v \<subseteq> U"
    and "itype v \<noteq> LJ_TCDATA" "boxable h (vrefs v)"
  shows "vrefs v \<subseteq> hMk (barrier_fwd h v) \<and>
    mark_inv U (start_marker False (gc_gray (barrier_fwd h v)) (barrier_fwd h v))"
proof -
  let ?m = "start_marker False (gc_gray h) h"
  have m: "as_heap ?m = h" by (simp add: as_heap_def)
  have e: "barrier_fwd h v = as_heap (mark_value v ?m)"
    using barrier_fwd_marks[of ?m v] assms(1,4,5) unfolding m by simp
  have "adds U (vrefs v) ?m (mark_value v ?m)" by (rule add_value[OF assms(3)])
  then have a: "mark_inv U (mark_value v ?m)" "vrefs v \<subseteq> Mk (mark_value v ?m)" using assms(2) by (simp_all add: adds_def)
  have c: "calm (as_heap (mark_value v ?m)) = calm (mk_heap (mark_value v ?m))" by (simp add: as_heap_def)
  have g: "gc_gray (as_heap (mark_value v ?m)) = mk_gray (mark_value v ?m)" by (simp add: as_heap_def)
  show ?thesis
    unfolding e g using mark_inv_calm[OF mark_inv_marker[OF a(1)] c] a(2) by (auto simp: as_heap_marked(1) Mk_def)
qed

section \<open>An example\<close>

definition marking_demo :: gheap where "marking_demo = start_gc_cycle demo_roots demo"

lemma marking_demo_facts:
  "gc_state marking_demo = Propagate" "mark_inv (live_set demo_roots demo) (start_marker False (gc_gray marking_demo) marking_demo)"
proof -
  have c: "heap_closed (live_set demo_roots demo) demo" using demo_ready by (simp add: gc_ready_def)
  have r: "root_set demo_roots \<subseteq> live_set demo_roots demo" by (auto simp: live_set_def intro: reach_root)
  have "propagating (live_set demo_roots demo) (flipped demo) (root_set demo_roots) marking_demo"
    unfolding marking_demo_def by (rule start_ok[OF c r]) (simp_all add: demo_def)
  then show "gc_state marking_demo = Propagate" "mark_inv (live_set demo_roots demo) (start_marker False (gc_gray marking_demo) marking_demo)"
    by (simp_all add: propagating_def)
qed

lemma marking_demo_header: "hdr marking_demo (RTab 8192) = set_marked (header_new 0)" "RTab 8192 \<in> set (gc_gray marking_demo)"
  by (simp_all add: marking_demo_def start_gc_cycle_def mark_roots_def demo_roots_def mark_table_def mark_push_def mark_thread_def
    mk_mark_def heap_mark_def is_marked_def upd_hdr.simps upd_pool_def flip_white_def Let_def start_marker_def demo_def demo_pool_def
    reset_marked_def update_current_white_def header_new_def set_marked_def nw2black_def)


theorem barrier_back_keeps_invariant_witness:
  "mark_inv (live_set demo_roots demo) (start_marker False (gc_gray (barrier_back marking_demo 8192)) (barrier_back marking_demo 8192))"
proof (rule barrier_back_keeps_invariant)
  note i = marking_demo_facts(2)[unfolded mark_inv_start]
  show "gc_state marking_demo = Propagate" by (rule marking_demo_facts)
  show "heap_closed (live_set demo_roots demo) marking_demo" using i by blast
  show "RTab 8192 \<in> live_set demo_roots demo" by (simp add: demo_live)
  show "set (gc_gray marking_demo) \<subseteq> hMk marking_demo \<inter> live_set demo_roots demo \<inter> Collect grayable" using i by blast
  show "\<forall>r\<in>hMk marking_demo \<inter> live_set demo_roots demo. r \<noteq> RTab 8192 \<longrightarrow> r \<in> set (gc_gray marking_demo) \<or> refs marking_demo r \<subseteq> hMk marking_demo"
    using i by blast
qed (simp_all add: marking_demo_header is_marked_def set_marked_def nw2black_def del: hdr.simps)

theorem barrier_fwd_marks_value_witness: "is_marked (barrier_fwd marking_demo (lua_table_value 12288)) (RTab 12288)"
proof -
  have "vrefs (lua_table_value 12288) \<subseteq> live_set demo_roots demo" by (simp add: demo_value demo_live)
  moreover have "itype (lua_table_value 12288) \<noteq> LJ_TCDATA"
    using itype_gcv[of LJ_TTAB 12288] by (simp add: lua_table_value_def gcval_def itype_defs LJ_GCVMASK_def)
  moreover have "boxable marking_demo (vrefs (lua_table_value 12288))" by (simp add: boxable_def demo_value)
  ultimately show ?thesis using barrier_fwd_marks_value[OF marking_demo_facts] demo_value by blast
qed

section \<open>Marking is exact\<close>

text \<open>C13. Propagation ends from every state that satisfies the tricolour invariant, with an empty gray list, and
  of the live objects it has then marked exactly those that the objects marked before lead to along the
  references that the collector follows (\<open>refs\<close>, without the environment of a thread); apart from
  headers and stale stack slots the heap is unchanged.\<close>

theorem propagate_marks_reachable:
  assumes "mark_inv U m"
  shows "\<exists>m'. propagate m = Some m' \<and> mk_gray m' = [] \<and> Mk m' \<inter> U = reach (mk_heap m) (Mk m \<inter> U) \<and> keeps (mk_heap m) (mk_heap m')"
proof -
  obtain m' where m': "propagate m = Some m'" "mark_inv U m'" "follows U m m'" "mk_gray m' = []" by (rule propagate_ok[OF assms])
  then show ?thesis using mark_inv_done[OF assms m'(3,2,4)] by (auto simp: follows_def)
qed

theorem propagate_marks_reachable_witness:
  "\<exists>m'. propagate (start_marker False (gc_gray marking_demo) marking_demo) = Some m' \<and> mk_gray m' = []"
  using propagate_marks_reachable[OF marking_demo_facts(2)] by blast

end
