(* ===== verification/Spec2Isabelle.thy ===== *)
theory Spec2Isabelle
  imports LJ_Table_Misc LJ_Intern_Spec LJ_Pattern_Gsub LJ_Bytecode LJ_Dump_Spec LJ_Tablib_Spec LJ_Strfmt_Spec LJ_Barrier
begin

text \<open>
  Verification of the luajit-rs engine (\<open>src/crates/luajit-rs/src\<close>), a Lua 5.1 / LuaJIT
  implementation in Rust.

  \<^bold>\<open>The program.\<close> Source text is lexed and parsed into bytecode, which an interpreter runs over
  a stack of NaN-boxed values; hot loops are recorded as traces, optimised and assembled. All
  heap objects live in typed pools swept by a tricolour collector; strings are interned in an
  open-addressing table; tables have an array part and a chained hash part; the string library
  has its own pattern matcher; compiled functions can be dumped to bytes and read back. Errors of the Rust code (index out of bounds, failed assertions,
  explicit panics) are values of the type \<open>panic\<close> of \<open>LJ_Prelude\<close>, and fallible code returns a
  sum \<open>panic + 'a\<close>.

  \<^bold>\<open>The theories.\<close>
  \<^item> \<open>LJ_Prelude\<close>: word lemmas, the result type with \<open>rbind\<close>, generic list lemmas.
  \<^item> \<open>LJ_Value\<close> (\<open>runtime/value.rs\<close>): a value is a 64-bit word; tags, constructors, tests,
    unboxing, \<open>number\<close> with its NaN and zero canonicalisation. The IEEE operations the source
    uses are defined on the bit pattern of a double.
  \<^item> \<open>LJ_Table\<close> (\<open>runtime/table.rs\<close>): the record \<open>ltable\<close> and every table operation; the loops of
    \<open>set\<close> and of the chain walks carry fuel, and the theorems show that the fuel chosen
    (number of nodes plus one, two rehash rounds) is never used up.
  \<^item> \<open>LJ_Chain\<close>, \<open>LJ_Table_Inv\<close>, \<open>LJ_Table_Set\<close>, \<open>LJ_Table_Resize\<close>, \<open>LJ_Table_Rehash\<close>: chains in
    an array of nodes, the table invariant \<open>wf_tab\<close>, insertion with node stealing, resizing, and
    the counting that chooses the array size. \<open>LJ_Table_Spec\<close> states the contract of a table as
    the locale \<open>value_store\<close> and interprets it on the model; \<open>LJ_Table_Ops\<close>, \<open>LJ_Table_Iter\<close> and
    \<open>LJ_Table_Misc\<close> hold the specialised accessors, traversal and length, and duplication.
  \<^item> \<open>LJ_Gc\<close> (\<open>runtime/gc.rs\<close>, \<open>runtime/gc_gen/header.rs\<close>): the header byte and the object pool. The
    operating-system allocator is the parameter \<open>os\<close>, with the hypothesis \<open>os_ok\<close> that it returns
    an unused, non-null address below \<open>2 ^ 47\<close>.
  \<^item> \<open>LJ_String\<close>, \<open>LJ_Probe\<close>, \<open>LJ_Intern\<close>, \<open>LJ_Intern_Spec\<close> (\<open>runtime/string.rs\<close>): the hash, the
    interner, linear probing in a circular slot array, the invariant \<open>interner_ok\<close>, and the
    contract \<open>interning\<close> interpreted on the interner.

  \<^item> \<open>LJ_Pattern\<close> (\<open>stdlib/pattern/class.rs\<close>, \<open>engine.rs\<close>): Lua patterns: character classes, validation,
    the backtracking matcher with captures, \<open>find\<close>, \<open>find_all_matches\<close> and \<open>gsub\<close>. \<open>LJ_Pattern_Match\<close>
    gives patterns a meaning as the inductive relation \<open>pmatch\<close>; \<open>LJ_Pattern_Sound\<close> shows that the
    engine follows it (the locale \<open>match_contract\<close>); \<open>LJ_Pattern_Spec\<close> and \<open>LJ_Pattern_Gsub\<close> hold the
    properties of searching and substitution: a substitution replaces exactly the matches of one complete
    scan (\<open>gsub_run\<close>), and each error has one of the causes of \<open>gsub_error\<close>. The matcher recurses under
    the source's own depth limit; its loops are shown to end.
  \<^item> \<open>LJ_Bytecode\<close> (\<open>compiler/bc.rs\<close>): opcodes, operand modes and the packing of instruction words.
  \<^item> \<open>LJ_Dump\<close>, \<open>LJ_Dump_Spec\<close> (\<open>runtime/proto.rs\<close>, \<open>compiler/dump.rs\<close>, \<open>compiler/undump.rs\<close>): prototypes
    and their binary form. Each reader is a \<open>codec\<close> for its writer; a dump reads back as the same
    tree (\<open>same_proto\<close>), except that template tables, cdata constants, cached strings and the names of
    locals are not carried and come back empty. The reader's fuel is the length of the data, which is shown to be enough for every input.
  \<^item> \<open>LJ_Sort\<close>, \<open>LJ_Sort_Spec\<close>, \<open>LJ_Sort_Quick\<close> (\<open>stdlib/sort.rs\<close>): introsort over an arbitrary,
    effectful comparator. The locale \<open>comparing\<close> is interpreted both for every comparator (safety and
    permutation) and for the default order on numbers.
  \<^item> \<open>LJ_Tablib\<close>, \<open>LJ_Tablib_Spec\<close> (\<open>stdlib/table.rs\<close>): library functions over a store of tables, refining
    operations on lists (the locale \<open>int_store\<close>, interpreted on tables).
  \<^item> \<open>LJ_Float\<close>, \<open>LJ_Strscan\<close>, \<open>LJ_Strscan_Spec\<close> (\<open>util/strscan.rs\<close>): number literals and the conversion of
    strings to numbers. The rounding, multiplication and parsing of doubles that the Rust standard
    library provides are defined on bit patterns in \<open>LJ_Float\<close>.
  \<^item> \<open>LJ_Lex\<close>, \<open>LJ_Lex_Safe\<close>, \<open>LJ_Lex_Spec\<close> (\<open>compiler/lex.rs\<close>): the lexer. Its loops are total functions, each
    round consumes a character; from a well-placed state no function panics, and a client that calls
    \<open>next\<close> reaches the end of the input. Tokens are specified through \<open>rest\<close>, the input left to read.
  \<^item> \<open>LJ_Strfmt\<close>, \<open>LJ_Strfmt_Size\<close>, \<open>LJ_Strfmt_Spec\<close> (\<open>util/strfmt.rs\<close>): numbers as text and
    \<open>string.format\<close>: compiled formats, every conversion, padding, with the panics of the Rust library: a
    run-time precision that does not fit 16 bits, and an output vector beyond \<open>isize::MAX\<close> bytes (smaller
    requests are taken to be granted). \<open>LJ_Strfmt_Size\<close> bounds what each conversion writes; the properties
    say when formatting panics and connect it to the scanner and the lexer: what is written reads back.

  \<^item> \<open>LJ_Mark\<close>, \<open>LJ_Collect\<close> (\<open>runtime/gc.rs\<close>, the collector hooks of \<open>runtime/table.rs\<close> and
    \<open>runtime/func.rs\<close>): the heap \<open>gheap\<close>, a pool per kind of object, marking, write barriers, the
    atomic phase, the sweep, the steps and \<open>full_gc\<close>. Loops whose end is a theorem are
    \<open>while_option\<close> and \<open>partial_function\<close>. \<open>LJ_Mark_Spec\<close> defines the references \<open>refs\<close> of an object and
    shows that propagation keeps the tricolour invariant and ends; \<open>LJ_Collect_Spec\<close> carries it
    through the phases of a cycle; \<open>LJ_Sweep_Spec\<close> shows that the forty-object steps sweep each pool once (the
    locale \<open>swept_pool\<close>, interpreted for the six pools) and states what a full collection does. There the
    strong references \<open>held_refs\<close> include the environment and the suspended closure of a thread, which the
    collector does not follow (\<open>thread_env_dangles\<close> shows the effect); the theorems on reachable objects say
    what they need instead (\<open>envs_anchored\<close>, and the stack condition of \<open>gc_ready\<close>);
    \<open>LJ_Barrier\<close> shows that the write barriers keep the invariant of marking. The theorems suppose a
    heap between two cycles (\<open>gc_ready\<close>) whose live objects have no dangling references.

  \<^bold>\<open>Not modelled.\<close> The interpreter (calls into it are arguments: the comparator of the sort) and the
  finalizers it runs, the allocation functions that start collector steps, the parser, trace recording and machine code, the FFI, the I/O libraries, the embedding interface and
  the command line.
\<close>

end
